(* ===== verification/Prelude.thy ===== *)
theory Prelude
  imports Main "HOL-Library.Word" "HOL-Library.Monad_Syntax"
begin

text \<open>
  Shared vocabulary of the Dioptase-OS development: the machine types of the C
  sources, the panic monad, intrusive singly linked lists over an address-indexed
  \<open>next\<close> map, and the list and word facts that several components use.

  Conventions.  An \<open>unsigned\<close>, an \<open>int\<close> that is only added and compared for
  equality, and every pointer is a \<^typ>\<open>32 word\<close>; the null pointer is
  \<open>0\<close>.  A kernel \<open>assert\<close> that fails, a \<open>panic\<close> and a spin loop that
  no other party can end are the value \<^const>\<open>None\<close> of the option monad: the
  call does not return.
\<close>

unbundle bit_operations_syntax

type_synonym u8 = "8 word"
type_synonym u16 = "16 word"
type_synonym u32 = "32 word"
type_synonym addr = "32 word"
type_synonym next_map = "addr \<Rightarrow> addr"

abbreviation NULL :: addr where
  "NULL \<equiv> 0"

text \<open>The kernel's \<open>assert\<close>: the call panics unless the condition holds.\<close>

definition kassert :: "bool \<Rightarrow> unit option" where
  "kassert b = (if b then Some () else None)"

named_theorems panic_simps \<open>evaluation of asserts in the option monad\<close>
named_theorems lseg_simps \<open>linked list segments\<close>

lemma kassert_True [simp, panic_simps]: "kassert True = Some ()"
  by (simp add: kassert_def)

lemma kassert_False [simp, panic_simps]: "kassert False = None"
  by (simp add: kassert_def)

lemma kassert_eq_Some [simp, panic_simps]: "kassert b = Some u \<longleftrightarrow> b"
  by (simp add: kassert_def)

lemma kassert_bind_eq_Some [simp, panic_simps]:
  "(kassert b \<bind> f) = Some y \<longleftrightarrow> b \<and> f () = Some y"
  by (simp add: kassert_def)

lemma kassert_bind_eq_None [simp, panic_simps]:
  "(kassert b \<bind> f) = None \<longleftrightarrow> \<not> b \<or> f () = None"
  by (simp add: kassert_def)


section \<open>Intrusive linked lists\<close>

text \<open>
  \<open>lseg nx p xs q\<close>: following \<open>next\<close> from \<open>p\<close> visits exactly the nodes
  \<open>xs\<close> and arrives at \<open>q\<close>.  A whole list is a segment that ends at the null
  pointer.
\<close>

fun lseg :: "next_map \<Rightarrow> addr \<Rightarrow> addr list \<Rightarrow> addr \<Rightarrow> bool" where
  "lseg nx p [] q \<longleftrightarrow> p = q"
| "lseg nx p (x # xs) q \<longleftrightarrow> p = x \<and> x \<noteq> NULL \<and> lseg nx (nx x) xs q"

abbreviation linked :: "next_map \<Rightarrow> addr \<Rightarrow> addr list \<Rightarrow> bool" where
  "linked nx p xs \<equiv> lseg nx p xs NULL"

lemma lseg_append [lseg_simps]:
  "lseg nx p (xs @ ys) q \<longleftrightarrow> (\<exists>r. lseg nx p xs r \<and> lseg nx r ys q)"
  by (induction xs arbitrary: p) auto

lemma lseg_upd_notin [simp, lseg_simps]:
  "x \<notin> set xs \<Longrightarrow> lseg (nx(x := v)) p xs q \<longleftrightarrow> lseg nx p xs q"
  by (induction xs arbitrary: p) auto

lemma lseg_nonnull: "lseg nx p xs q \<Longrightarrow> NULL \<notin> set xs"
  by (induction xs arbitrary: p) auto

lemma linked_NULL [simp]: "linked nx NULL xs \<longleftrightarrow> xs = []"
  by (cases xs) auto

lemma linked_head: "linked nx p xs \<Longrightarrow> p = (case xs of [] \<Rightarrow> NULL | x # _ \<Rightarrow> x)"
  by (cases xs) auto

lemma linked_unique: "linked nx p xs \<Longrightarrow> linked nx p ys \<Longrightarrow> xs = ys"
proof (induction xs arbitrary: p ys)
  case (Cons x xs)
  then show ?case by (cases ys) auto
qed simp

lemma linked_notin_tail: "linked nx (nx x) xs \<Longrightarrow> x \<notin> set xs"
proof
  assume l: "linked nx (nx x) xs" and "x \<in> set xs"
  then obtain ys zs where xs: "xs = ys @ x # zs"
    by (auto simp: in_set_conv_decomp)
  with l have "linked nx (nx x) zs" by (auto simp: lseg_append)
  with l xs show False using linked_unique by fastforce
qed

lemma linked_distinct: "linked nx p xs \<Longrightarrow> distinct xs"
  by (induction xs arbitrary: p) (auto dest: linked_notin_tail)

text \<open>Appending at the tail and unlinking the head, on the level of segments.\<close>

lemma linked_snoc:
  assumes "linked nx p xs" "xs \<noteq> []" "d \<notin> set xs" "d \<noteq> NULL"
  shows "linked (nx(d := NULL, last xs := d)) p (xs @ [d])"
proof -
  obtain ys t where xs: "xs = ys @ [t]" using assms(2) by (metis rev_exhaust)
  then have "t \<notin> set ys" "d \<noteq> t" "d \<notin> set ys"
    using assms linked_distinct by fastforce+
  then show ?thesis using assms(1,4) xs by (auto simp: lseg_append)
qed

lemma linked_snoc':
  assumes "linked nx p xs" "xs \<noteq> []" "d \<notin> set xs" "d \<noteq> NULL" "nx d = NULL"
  shows "linked (nx(last xs := d)) p (xs @ [d])"
  using linked_snoc[OF assms(1-4)] assms(5) by (simp add: fun_upd_idem)

lemma linked_tl: "linked nx p (x # xs) \<Longrightarrow> linked (nx(x := NULL)) (nx x) xs"
  using linked_notin_tail[of nx x xs] by simp


section \<open>Words\<close>

lemma unat_word32_less [simp]: "unat (w :: u32) < 4294967296"
  using unsigned_less[of w] by simp

lemma unat_word32_le [simp]: "unat (w :: u32) \<le> 4294967295"
  using unat_word32_less[of w] by linarith

lemma unat_add_u32: "unat a + unat b < 4294967296 \<Longrightarrow> unat (a + b :: u32) = unat a + unat b"
  by (rule unat_add_lem[THEN iffD1]) simp

lemma unat_mult_u32: "unat a * unat b < 4294967296 \<Longrightarrow> unat (a * b :: u32) = unat a * unat b"
  by (simp add: unat_word_ariths)

lemma unat_plus_one: "w \<noteq> - 1 \<Longrightarrow> unat (w + 1 :: 'a::len word) = unat w + 1"
  by (metis Suc_eq_plus1 add.commute add.right_neutral add_eq_0_iff unatSuc)

lemma unat_minus_one: "w \<noteq> 0 \<Longrightarrow> unat (w - 1 :: 'a::len word) = unat w - 1"
  by (simp add: unat_sub word_le_nat_alt unat_gt_0 Suc_leI)

lemma of_nat_plus_one [simp]: "(of_nat n + 1 :: 'a::len word) = of_nat (Suc n)"
  by simp

lemma of_nat_unat_same [simp]: "(of_nat (unat w) :: 'a::len word) = w"
  by simp

lemma word_eq_of_natI: "unat (w :: 'a::len word) = n \<Longrightarrow> w = of_nat n"
  by auto

lemma unat_mod_less: "c \<noteq> 0 \<Longrightarrow> unat c \<le> n \<Longrightarrow> unat (x mod c :: 'a::len word) < n"
  by (metis mod_less_divisor order.strict_trans2 unat_gt_0 unat_mod)

lemma unat_of_nat_u32: "n < 4294967296 \<Longrightarrow> unat (of_nat n :: u32) = n"
  by (simp add: unat_of_nat)

lemma unat_minus_1_u32 [simp]: "unat (- 1 :: u32) = 4294967295"
  by (simp add: unsigned_minus_1_eq_mask mask_eq_exp_minus_1)

lemma unat_diff_u32: "unat (a - b :: u32) = (if unat b \<le> unat a then unat a - unat b else unat a + 4294967296 - unat b)"
  by (simp add: unat_sub_if')

lemma unat_eq_iff: "unat (a :: 'a::len word) = unat b \<longleftrightarrow> a = b"
  by (simp add: word_unat_eq_iff)

text \<open>Signed reading of a 32-bit word.\<close>

lemma int_rotate_mod:
  assumes "0 \<le> x" "x < (4294967296 :: int)"
  shows "(x + 2147483648) mod 4294967296 = (if x < 2147483648 then x + 2147483648 else x - 2147483648)"
  using assms minus_mod_self2[of "x + 2147483648" 4294967296] by (auto simp: mod_pos_pos_trivial)

lemma sint_cases: "sint (r :: u32) = (if unat r < 2147483648 then int (unat r) else int (unat r) - 4294967296)"
proof -
  have "sint r = (uint r + 2147483648) mod 4294967296 - 2147483648"
    by (simp add: sint_uint signed_take_bit_eq_take_bit_shift take_bit_eq_mod)
  moreover have "uint r = int (unat r)" by simp
  ultimately show ?thesis
    using unat_word32_less[of r] int_rotate_mod[of "int (unat r)"] by (simp del: int_nat_eq uint_nat of_nat_unat)
qed

lemma sint_neg_iff: "sint (r :: u32) < 0 \<longleftrightarrow> 2147483648 \<le> unat r"
  using unat_word32_less[of r] by (simp add: sint_cases del: int_nat_eq of_nat_unat unat_word32_less)

lemma sint_pred: "0 < sint (c :: u32) \<Longrightarrow> sint (c - 1) = sint c - 1"
proof -
  assume "0 < sint c"
  then have "c \<noteq> 0" "unat c < 2147483648" using sint_neg_iff[of c] by auto
  then show ?thesis using unat_minus_one[of c] sint_cases[of c] sint_cases[of "c - 1"] unat_gt_0[of c]
    by (simp add: of_nat_diff del: of_nat_unat)
qed

lemma sint_succ: "sint (c :: u32) < 2147483647 \<Longrightarrow> sint (c + 1) = sint c + 1"
proof (cases "c = - 1")
  case False
  assume s: "sint c < 2147483647"
  have "unat (c + 1) = unat c + 1" using unat_plus_one[OF False] .
  then show ?thesis using s sint_cases[of c] sint_cases[of "c + 1"] unat_word32_less[of "c + 1"]
    by (auto simp del: of_nat_unat split: if_splits)
qed simp

lemma word_of_small:
  assumes "n < 4294967296"
  shows "unat (of_nat n :: u32) = n" "m < 4294967296 \<Longrightarrow> (of_nat m :: u32) \<le> of_nat n \<longleftrightarrow> m \<le> n" "m < 4294967296 \<Longrightarrow> (of_nat m :: u32) < of_nat n \<longleftrightarrow> m < n"
  using assms by (simp_all add: word_le_nat_alt word_less_nat_alt unat_of_nat)

end
