(* ===== verification/Atomic.thy ===== *)
theory Atomic
  imports Prelude "HOL-Library.Sublist"
begin

text \<open>
  \<open>kernel/atomic.c\<close>: test-and-set spin locks, preemption spin locks and the fair
  CLH queue lock.  The operations are first given for the one thread that runs
  them (\<open>lock_ctx\<close>: the mask register of its core, its ticket node and its
  predecessor).  The CLH operations are then interleaved between any number of
  threads by \<open>clh_step\<close>, one step per access to memory that other threads use at the time: the
  store to the node of the joining thread is part of the step of the exchange on the tail, since
  no other thread has that node before the exchange publishes it.  The
  invariant of the queue gives mutual exclusion, first-in first-out entry, absence
  of deadlock, and that no \<open>assert\<close> of the lock can fire.
\<close>

section \<open>Data\<close>

record clh_node =
  locked :: bool
  interrupt_state :: u32

record clh_lock =
  clh_tail :: addr

record spin_lock =
  the_lock :: bool
  lock_interrupt_state :: u32

record preempt_spin_lock =
  preempt_the_lock :: bool
  preempt_state :: bool

text \<open>What a thread sees while it uses a lock: the interrupt mask of its core, its
  control block (null before threading is up), and the memory of the CLH nodes.\<close>

record lock_ctx =
  imr :: u32
  cur_tcb :: addr
  can_preempt :: bool
  my_node :: addr
  my_pred :: addr
  clh_nodes :: "addr \<Rightarrow> clh_node"

definition set_locked :: "addr \<Rightarrow> bool \<Rightarrow> lock_ctx \<Rightarrow> lock_ctx" where
  "set_locked a b c = c\<lparr>clh_nodes := (clh_nodes c)(a := (clh_nodes c a)\<lparr>locked := b\<rparr>)\<rparr>"

definition interrupts_disable :: "lock_ctx \<Rightarrow> u32 \<times> lock_ctx" where
  "interrupts_disable c = (imr c, c\<lparr>imr := 0\<rparr>)"

definition interrupts_restore :: "u32 \<Rightarrow> lock_ctx \<Rightarrow> lock_ctx" where
  "interrupts_restore was c = c\<lparr>imr := was\<rparr>"

definition preemption_disable :: "lock_ctx \<Rightarrow> bool \<times> lock_ctx" where
  "preemption_disable c =
     (let (was, c) = interrupts_disable c in
      if cur_tcb c = NULL then (False, interrupts_restore was c)
      else let prev = can_preempt c; c = c\<lparr>can_preempt := False\<rparr>
           in (prev, interrupts_restore was c))"

definition preemption_restore :: "bool \<Rightarrow> lock_ctx \<Rightarrow> lock_ctx" where
  "preemption_restore was c =
     (let (intrs, c) = interrupts_disable c;
          c = (if cur_tcb c \<noteq> NULL then c\<lparr>can_preempt := was\<rparr> else c)
      in interrupts_restore intrs c)"


section \<open>Spin locks\<close>

definition spin_lock_init :: spin_lock where
  "spin_lock_init = \<lparr>the_lock = False, lock_interrupt_state = 0\<rparr>"

text \<open>One iteration of the acquire loop succeeds when the word exchanged out of the
  lock was 0; otherwise the thread spins, and since only another core can clear the
  word the sequential call does not return.\<close>

definition spin_lock_acquire :: "spin_lock \<Rightarrow> lock_ctx \<Rightarrow> (spin_lock \<times> lock_ctx) option" where
  "spin_lock_acquire l c = do {
     let (was, c) = interrupts_disable c;
     let c = interrupts_restore was c;
     kassert (\<not> locked (clh_nodes c (my_node c)));
     let (was, c) = interrupts_disable c;
     if \<not> the_lock l
     then Some (l\<lparr>the_lock := True, lock_interrupt_state := was\<rparr>, set_locked (my_node c) True c)
     else None
   }"

definition spin_lock_try_acquire :: "spin_lock \<Rightarrow> lock_ctx \<Rightarrow> bool \<times> spin_lock \<times> lock_ctx" where
  "spin_lock_try_acquire l c =
     (let (was, c) = interrupts_disable c in
      if locked (clh_nodes c (my_node c)) then (False, l, interrupts_restore was c)
      else if \<not> the_lock l
      then (True, l\<lparr>the_lock := True, lock_interrupt_state := was\<rparr>, set_locked (my_node c) True c)
      else (False, l, interrupts_restore was c))"

definition spin_lock_release :: "spin_lock \<Rightarrow> lock_ctx \<Rightarrow> (spin_lock \<times> lock_ctx) option" where
  "spin_lock_release l c = do {
     kassert (locked (clh_nodes c (my_node c)));
     let c = set_locked (my_node c) False c;
     let was = lock_interrupt_state l;
     Some (l\<lparr>the_lock := False\<rparr>, interrupts_restore was c)
   }"

definition preempt_spin_lock_init :: preempt_spin_lock where
  "preempt_spin_lock_init = \<lparr>preempt_the_lock = False, preempt_state = False\<rparr>"

definition preempt_spin_lock_acquire ::
    "preempt_spin_lock \<Rightarrow> lock_ctx \<Rightarrow> (preempt_spin_lock \<times> lock_ctx) option" where
  "preempt_spin_lock_acquire l c =
     (let (was, c) = preemption_disable c in
      if \<not> preempt_the_lock l
      then Some (l\<lparr>preempt_the_lock := True, preempt_state := was\<rparr>, c)
      else None)"

definition preempt_spin_lock_try_acquire ::
    "preempt_spin_lock \<Rightarrow> lock_ctx \<Rightarrow> bool \<times> preempt_spin_lock \<times> lock_ctx" where
  "preempt_spin_lock_try_acquire l c =
     (let (was, c) = preemption_disable c in
      if \<not> preempt_the_lock l
      then (True, l\<lparr>preempt_the_lock := True, preempt_state := was\<rparr>, c)
      else (False, l, preemption_restore was c))"

definition preempt_spin_lock_release ::
    "preempt_spin_lock \<Rightarrow> lock_ctx \<Rightarrow> preempt_spin_lock \<times> lock_ctx" where
  "preempt_spin_lock_release l c =
     (l\<lparr>preempt_the_lock := False\<rparr>, preemption_restore (preempt_state l) c)"


section \<open>The CLH lock\<close>

text \<open>\<open>clh_lock_init\<close> takes the node that \<open>malloc\<close> returned.\<close>

definition clh_lock_init :: "addr \<Rightarrow> lock_ctx \<Rightarrow> clh_lock \<times> lock_ctx" where
  "clh_lock_init fresh c =
     (\<lparr>clh_tail = fresh\<rparr>,
      c\<lparr>clh_nodes := (clh_nodes c)(fresh := \<lparr>locked = False, interrupt_state = 0\<rparr>)\<rparr>)"

text \<open>\<open>clh_lock_acquire\<close> in its two phases: joining the queue (up to the exchange on
  the tail and its assert), and one iteration of the spin loop, which is
  \<^const>\<open>None\<close> while the predecessor still holds its node.\<close>

definition clh_lock_enqueue :: "clh_lock \<Rightarrow> lock_ctx \<Rightarrow> (u32 \<times> clh_lock \<times> lock_ctx) option" where
  "clh_lock_enqueue l c = do {
     let (was, c) = interrupts_disable c;
     kassert (cur_tcb c \<noteq> NULL);
     kassert (my_node c \<noteq> NULL);
     kassert (my_pred c = NULL);
     kassert (\<not> locked (clh_nodes c (my_node c)));
     let c = set_locked (my_node c) True c;
     let pred = clh_tail l;
     let l = l\<lparr>clh_tail := my_node c\<rparr>;
     let c = c\<lparr>my_pred := pred\<rparr>;
     kassert (pred \<noteq> NULL);
     Some (was, l, c)
   }"

definition clh_lock_spin :: "u32 \<Rightarrow> lock_ctx \<Rightarrow> lock_ctx option" where
  "clh_lock_spin was c =
     (if \<not> locked (clh_nodes c (my_pred c))
      then Some (c\<lparr>clh_nodes := (clh_nodes c)
             (my_pred c := (clh_nodes c (my_pred c))\<lparr>interrupt_state := was\<rparr>)\<rparr>)
      else None)"

definition clh_lock_acquire :: "clh_lock \<Rightarrow> lock_ctx \<Rightarrow> (clh_lock \<times> lock_ctx) option" where
  "clh_lock_acquire l c = do {
     (was, l, c) \<leftarrow> clh_lock_enqueue l c;
     c \<leftarrow> clh_lock_spin was c;
     Some (l, c)
   }"

definition clh_lock_release :: "lock_ctx \<Rightarrow> lock_ctx option" where
  "clh_lock_release c = do {
     kassert (cur_tcb c \<noteq> NULL);
     kassert (locked (clh_nodes c (my_node c)));
     kassert (my_pred c \<noteq> NULL);
     let c = set_locked (my_node c) False c;
     let c = c\<lparr>my_node := my_pred c\<rparr>;
     let c = c\<lparr>my_pred := NULL\<rparr>;
     Some (interrupts_restore (interrupt_state (clh_nodes c (my_node c))) c)
   }"

definition clh_lock_destroy :: "clh_lock \<Rightarrow> clh_lock" where
  "clh_lock_destroy l = l\<lparr>clh_tail := NULL\<rparr>"

text \<open>\<open>spin_barrier_sync\<close>: arrival decrements the counter, and the thread leaves its
  loop when the counter reads 0.\<close>

definition spin_barrier_arrive :: "u32 \<Rightarrow> lock_ctx \<Rightarrow> (u32 \<times> lock_ctx) option" where
  "spin_barrier_arrive barrier c = do {
     let (was, c) = interrupts_disable c;
     let c = interrupts_restore was c;
     kassert (\<not> locked (clh_nodes c (my_node c)));
     Some (barrier + (- 1), c)
   }"

definition spin_barrier_may_leave :: "u32 \<Rightarrow> bool" where
  "spin_barrier_may_leave barrier \<longleftrightarrow> barrier = 0"


text \<open>A lock that is free and a thread that may take it.\<close>

definition clh_ready :: "clh_lock \<Rightarrow> lock_ctx \<Rightarrow> bool" where
  "clh_ready l c \<longleftrightarrow> cur_tcb c \<noteq> NULL \<and> my_node c \<noteq> NULL \<and> my_pred c = NULL
     \<and> \<not> locked (clh_nodes c (my_node c)) \<and> clh_tail l \<noteq> NULL \<and> clh_tail l \<noteq> my_node c
     \<and> \<not> locked (clh_nodes c (clh_tail l))"

section \<open>Threads interleaved on one CLH lock\<close>

datatype clh_pc = Idle | Spinning u32 | Holding u32

record clh_thread =
  th_tcb :: addr
  th_imr :: u32
  th_preempt :: bool
  th_node :: addr
  th_pred :: addr
  th_pc :: clh_pc

record clh_sys =
  sys_lock :: clh_lock
  sys_nodes :: "addr \<Rightarrow> clh_node"
  sys_n :: nat
  sys_threads :: "nat \<Rightarrow> clh_thread"

definition ctx_of :: "clh_sys \<Rightarrow> nat \<Rightarrow> lock_ctx" where
  "ctx_of s t = (let th = sys_threads s t in
     \<lparr>imr = th_imr th, cur_tcb = th_tcb th, can_preempt = th_preempt th,
      my_node = th_node th, my_pred = th_pred th, clh_nodes = sys_nodes s\<rparr>)"

definition put_ctx :: "clh_sys \<Rightarrow> nat \<Rightarrow> clh_lock \<Rightarrow> lock_ctx \<Rightarrow> clh_pc \<Rightarrow> clh_sys" where
  "put_ctx s t l c pc =
     s\<lparr>sys_lock := l, sys_nodes := clh_nodes c,
       sys_threads := (sys_threads s)(t :=
         \<lparr>th_tcb = cur_tcb c, th_imr = imr c, th_preempt = can_preempt c,
          th_node = my_node c, th_pred = my_pred c, th_pc = pc\<rparr>)\<rparr>"

abbreviation thr_pc :: "clh_sys \<Rightarrow> nat \<Rightarrow> clh_pc" where
  "thr_pc s t \<equiv> th_pc (sys_threads s t)"

datatype clh_event = Enqueue nat | Enter nat | Release nat

inductive clh_step :: "clh_sys \<Rightarrow> clh_event \<Rightarrow> clh_sys \<Rightarrow> bool" where
  Enqueue: "\<lbrakk>t < sys_n s; thr_pc s t = Idle;
      clh_lock_enqueue (sys_lock s) (ctx_of s t) = Some (was, l, c)\<rbrakk>
    \<Longrightarrow> clh_step s (Enqueue t) (put_ctx s t l c (Spinning was))"
| Enter: "\<lbrakk>t < sys_n s; thr_pc s t = Spinning was;
      clh_lock_spin was (ctx_of s t) = Some c\<rbrakk>
    \<Longrightarrow> clh_step s (Enter t) (put_ctx s t (sys_lock s) c (Holding was))"
| Release: "\<lbrakk>t < sys_n s; thr_pc s t = Holding was;
      clh_lock_release (ctx_of s t) = Some c\<rbrakk>
    \<Longrightarrow> clh_step s (Release t) (put_ctx s t (sys_lock s) c Idle)"

inductive_cases clh_EnqueueE [elim]: "clh_step s (Enqueue t) s'"
inductive_cases clh_EnterE [elim]: "clh_step s (Enter t) s'"
inductive_cases clh_ReleaseE [elim]: "clh_step s (Release t) s'"

inductive clh_run :: "clh_sys \<Rightarrow> clh_event list \<Rightarrow> clh_sys \<Rightarrow> bool" for s0 where
  Start: "clh_run s0 [] s0"
| Step: "clh_run s0 es s \<Longrightarrow> clh_step s e s' \<Longrightarrow> clh_run s0 (es @ [e]) s'"

fun enqueues :: "clh_event list \<Rightarrow> nat list" where
  "enqueues [] = []"
| "enqueues (Enqueue t # es) = t # enqueues es"
| "enqueues (_ # es) = enqueues es"

fun entries :: "clh_event list \<Rightarrow> nat list" where
  "entries [] = []"
| "entries (Enter t # es) = t # entries es"
| "entries (_ # es) = entries es"

fun releases :: "clh_event list \<Rightarrow> nat list" where
  "releases [] = []"
| "releases (Release t # es) = t # releases es"
| "releases (_ # es) = releases es"

text \<open>The start state: every thread idle with a control block and an unlocked ticket
  node of its own, the lock initialised with a node no thread has.\<close>

definition clh_start :: "clh_sys \<Rightarrow> bool" where
  "clh_start s \<longleftrightarrow>
     list_all (\<lambda>t. let th = sys_threads s t in
        th_tcb th \<noteq> NULL \<and> th_node th \<noteq> NULL \<and> th_pred th = NULL
        \<and> th_pc th = Idle \<and> \<not> locked (sys_nodes s (th_node th))) [0..<sys_n s]
     \<and> distinct (clh_tail (sys_lock s) # map (\<lambda>t. th_node (sys_threads s t)) [0..<sys_n s])
     \<and> clh_tail (sys_lock s) \<noteq> NULL \<and> \<not> locked (sys_nodes s (clh_tail (sys_lock s)))"


text \<open>The step relation as a function, to run a given schedule.\<close>

definition clh_next :: "clh_sys \<Rightarrow> clh_event \<Rightarrow> clh_sys option" where
  "clh_next s e = (case e of
     Enqueue t \<Rightarrow> if t < sys_n s \<and> thr_pc s t = Idle
       then map_option (\<lambda>(was, l, c). put_ctx s t l c (Spinning was))
              (clh_lock_enqueue (sys_lock s) (ctx_of s t))
       else None
   | Enter t \<Rightarrow> (case thr_pc s t of
       Spinning was \<Rightarrow> if t < sys_n s
         then map_option (\<lambda>c. put_ctx s t (sys_lock s) c (Holding was)) (clh_lock_spin was (ctx_of s t))
         else None
     | _ \<Rightarrow> None)
   | Release t \<Rightarrow> (case thr_pc s t of
       Holding was \<Rightarrow> if t < sys_n s
         then map_option (\<lambda>c. put_ctx s t (sys_lock s) c Idle) (clh_lock_release (ctx_of s t))
         else None
     | _ \<Rightarrow> None))"

fun clh_exec :: "clh_sys \<Rightarrow> clh_event list \<Rightarrow> clh_sys option" where
  "clh_exec s [] = Some s"
| "clh_exec s (e # es) = clh_next s e \<bind> (\<lambda>s'. clh_exec s' es)"

text \<open>\<open>clh_chain th z Q e\<close>: the threads \<open>Q\<close> wait in this order, each on the node
  of the one before it, the first on the spare node \<open>z\<close>, and \<open>e\<close> is the node
  the next thread will wait on.\<close>

fun clh_chain :: "(nat \<Rightarrow> clh_thread) \<Rightarrow> addr \<Rightarrow> nat list \<Rightarrow> addr \<Rightarrow> bool" where
  "clh_chain th z [] e \<longleftrightarrow> e = z"
| "clh_chain th z (t # q) e \<longleftrightarrow> th_pred (th t) = z \<and> clh_chain th (th_node (th t)) q e"

text \<open>The invariant, with the queue \<open>Q\<close> of the threads that hold or wait for the lock
  and the spare node \<open>z\<close> that no thread owns.\<close>

definition clh_inv :: "clh_sys \<Rightarrow> nat list \<Rightarrow> addr \<Rightarrow> bool" where
  "clh_inv s Q z \<longleftrightarrow> (let th = sys_threads s; N = {..<sys_n s} in
     distinct Q \<and> set Q = {t \<in> N. th_pc (th t) \<noteq> Idle}
     \<and> inj_on (\<lambda>t. th_node (th t)) N \<and> z \<notin> (\<lambda>t. th_node (th t)) ` N
     \<and> z \<noteq> NULL \<and> \<not> locked (sys_nodes s z) \<and> clh_chain th z Q (clh_tail (sys_lock s))
     \<and> (\<forall>t \<in> N. th_tcb (th t) \<noteq> NULL \<and> th_node (th t) \<noteq> NULL
          \<and> (locked (sys_nodes s (th_node (th t))) \<longleftrightarrow> th_pc (th t) \<noteq> Idle)
          \<and> (th_pc (th t) = Idle \<longrightarrow> th_pred (th t) = NULL)
          \<and> (\<forall>w. th_pc (th t) = Holding w \<longrightarrow> t = hd Q \<and> interrupt_state (sys_nodes s z) = w)))"


section \<open>One thread at a time\<close>

lemma clh_acquire_ready:
  assumes "clh_ready l c"
  obtains l' c' where "clh_lock_acquire l c = Some (l', c')" "imr c' = 0"
    "\<exists>c''. clh_lock_release c' = Some c'' \<and> clh_ready l' c'' \<and> imr c'' = imr c"
  using assms
  by (fastforce simp: clh_ready_def clh_lock_acquire_def clh_lock_enqueue_def clh_lock_spin_def
      clh_lock_release_def interrupts_disable_def interrupts_restore_def set_locked_def)

lemma clh_init_ready:
  assumes "clh_lock_init fresh c = (l, c')" "fresh \<noteq> NULL" "fresh \<noteq> my_node c" "cur_tcb c \<noteq> NULL"
    "my_node c \<noteq> NULL" "my_pred c = NULL" "\<not> locked (clh_nodes c (my_node c))"
  shows "clh_ready l c'"
  using assms by (auto simp: clh_lock_init_def clh_ready_def)

text \<open>A second acquire by the holder fails its assert; releasing restores the mask.\<close>

lemma spin_lock_acquire_release:
  assumes "spin_lock_acquire l c = Some (l', c')"
  shows "imr c' = 0 \<and> the_lock l' \<and> spin_lock_acquire k c' = None
     \<and> spin_lock_release l' c' = Some (l'\<lparr>the_lock := False\<rparr>, set_locked (my_node c) False c)"
  using assms
  by (auto simp: spin_lock_acquire_def spin_lock_release_def interrupts_disable_def
      interrupts_restore_def set_locked_def split: if_splits)

section \<open>The invariant of the CLH queue\<close>

lemmas clh_op_defs =
  clh_lock_enqueue_def clh_lock_spin_def clh_lock_release_def interrupts_disable_def
  interrupts_restore_def set_locked_def ctx_of_def put_ctx_def Let_def

lemma clh_chain_upd_notin [simp]:
  "t \<notin> set Q \<Longrightarrow> clh_chain (th(t := x)) z Q e \<longleftrightarrow> clh_chain th z Q e"
  by (induction Q arbitrary: z) auto

lemma clh_chain_upd_pc:
  "clh_chain (th(t := (th t)\<lparr>th_pc := p\<rparr>)) z Q e \<longleftrightarrow> clh_chain th z Q e"
  by (induction Q arbitrary: z) auto

lemma clh_chain_snoc:
  "clh_chain th z (Q @ [t]) e \<longleftrightarrow> clh_chain th z Q (th_pred (th t)) \<and> e = th_node (th t)"
  by (induction Q arbitrary: z) auto

lemma clh_chain_pred:
  "clh_chain th z Q e \<Longrightarrow> t \<in> set Q \<Longrightarrow> t \<noteq> hd Q \<Longrightarrow>
     \<exists>u \<in> set Q. th_pred (th t) = th_node (th u)"
proof (induction Q arbitrary: z)
  case (Cons u Q)
  show ?case
  proof (cases "Q \<noteq> [] \<and> t = hd Q")
    case True
    then show ?thesis using Cons.prems by (cases Q) auto
  next
    case False
    then show ?thesis using Cons by auto
  qed
qed simp

lemma clh_chain_nonnull:
  "clh_chain th z Q e \<Longrightarrow> z \<noteq> NULL \<Longrightarrow> \<forall>t \<in> set Q. th_node (th t) \<noteq> NULL \<Longrightarrow>
     e \<noteq> NULL \<and> (\<forall>t \<in> set Q. th_pred (th t) \<noteq> NULL)"
  by (induction Q arbitrary: z) auto

lemma clh_start_inv: "clh_start s \<Longrightarrow> clh_inv s [] (clh_tail (sys_lock s))"
  by (auto simp: clh_start_def clh_inv_def Let_def list_all_iff distinct_map atLeast0LessThan)

text \<open>The three steps as updates of the state.\<close>

lemma clh_step_enqueue:
  "clh_step s (Enqueue t) s' \<longleftrightarrow>
     t < sys_n s \<and> (let th = sys_threads s t; n = th_node th in
       th_pc th = Idle \<and> th_tcb th \<noteq> NULL \<and> n \<noteq> NULL \<and> th_pred th = NULL
       \<and> \<not> locked (sys_nodes s n) \<and> clh_tail (sys_lock s) \<noteq> NULL
       \<and> s' = s\<lparr>sys_lock := \<lparr>clh_tail = n\<rparr>,
                sys_nodes := (sys_nodes s)(n := (sys_nodes s n)\<lparr>locked := True\<rparr>),
                sys_threads := (sys_threads s)(t := th\<lparr>th_imr := 0, th_pred := clh_tail (sys_lock s),
                  th_pc := Spinning (th_imr th)\<rparr>)\<rparr>)"
  by (cases "sys_threads s t") (auto simp: clh_step.simps clh_op_defs)

lemma clh_step_enter:
  "clh_step s (Enter t) s' \<longleftrightarrow>
     t < sys_n s \<and> (let th = sys_threads s t; p = th_pred th in
       \<exists>was. th_pc th = Spinning was \<and> \<not> locked (sys_nodes s p)
       \<and> s' = s\<lparr>sys_nodes := (sys_nodes s)(p := (sys_nodes s p)\<lparr>interrupt_state := was\<rparr>),
                sys_threads := (sys_threads s)(t := th\<lparr>th_pc := Holding was\<rparr>)\<rparr>)"
  by (cases "sys_threads s t") (auto simp: clh_step.simps clh_op_defs split: if_splits)

lemma clh_step_release:
  "clh_step s (Release t) s' \<longleftrightarrow>
     t < sys_n s \<and> (let th = sys_threads s t; n = th_node th; p = th_pred th;
         nodes = (sys_nodes s)(n := (sys_nodes s n)\<lparr>locked := False\<rparr>) in
       (\<exists>was. th_pc th = Holding was) \<and> th_tcb th \<noteq> NULL \<and> locked (sys_nodes s n) \<and> p \<noteq> NULL
       \<and> s' = s\<lparr>sys_nodes := nodes,
                sys_threads := (sys_threads s)(t := th\<lparr>th_imr := interrupt_state (nodes p),
                  th_node := p, th_pred := NULL, th_pc := Idle\<rparr>)\<rparr>)"
  by (cases "sys_threads s t") (auto simp: clh_step.simps clh_op_defs)

text \<open>Joining: the thread is appended behind the queue.\<close>

lemma clh_enqueue_inv:
  assumes inv: "clh_inv s Q z" and st: "clh_step s (Enqueue t) s'"
  shows "clh_inv s' (Q @ [t]) z"
proof -
  note i = inv[unfolded clh_inv_def Let_def]
  from st obtain t: "t < sys_n s" "thr_pc s t = Idle"
    and s': "s' = s\<lparr>sys_lock := \<lparr>clh_tail = th_node (sys_threads s t)\<rparr>,
        sys_nodes := (sys_nodes s)(th_node (sys_threads s t) :=
          (sys_nodes s (th_node (sys_threads s t)))\<lparr>locked := True\<rparr>),
        sys_threads := (sys_threads s)(t := (sys_threads s t)\<lparr>th_imr := 0,
          th_pred := clh_tail (sys_lock s), th_pc := Spinning (th_imr (sys_threads s t))\<rparr>)\<rparr>"
    by (auto simp: clh_step_enqueue Let_def)
  have tQ: "t \<notin> set Q" "th_node (sys_threads s t) \<noteq> z" using i t by auto
  have nodes: "\<And>u. u < sys_n s \<Longrightarrow>
      th_node (sys_threads s u) = th_node (sys_threads s t) \<longleftrightarrow> u = t"
    using i t by (auto simp: inj_on_def)
  have hd: "\<And>u w. u < sys_n s \<Longrightarrow> th_pc (sys_threads s u) = Holding w \<Longrightarrow> hd (Q @ [t]) = u"
    using i by (cases Q) auto
  have nd: "th_node (sys_threads s' u) = th_node (sys_threads s u)" for u by (simp add: s')
  have Q: "set (Q @ [t]) = {u \<in> {..<sys_n s'}. th_pc (sys_threads s' u) \<noteq> Idle}"
    using i t by (auto simp: s')
  have ch: "clh_chain (sys_threads s') z (Q @ [t]) (clh_tail (sys_lock s'))"
    using i tQ by (simp add: s' clh_chain_snoc)
  have th: "\<forall>u\<in>{..<sys_n s'}.
        th_tcb (sys_threads s' u) \<noteq> NULL \<and>
        th_node (sys_threads s' u) \<noteq> NULL \<and>
        locked (sys_nodes s' (th_node (sys_threads s' u))) = (thr_pc s' u \<noteq> Idle) \<and>
        (thr_pc s' u = Idle \<longrightarrow> th_pred (sys_threads s' u) = NULL) \<and>
        (\<forall>w. thr_pc s' u = Holding w \<longrightarrow> u = hd (Q @ [t]) \<and> interrupt_state (sys_nodes s' z) = w)"
    using i tQ nodes hd by (simp add: s')
  show ?thesis unfolding clh_inv_def Let_def nd
    using i tQ Q ch th[unfolded nd] by (simp add: s')
qed

text \<open>Entering: only the head of the queue waits on an unlocked node.\<close>

lemma clh_wait_head:
  assumes inv: "clh_inv s Q z" and t: "t < sys_n s" "thr_pc s t \<noteq> Idle"
  shows "\<not> locked (sys_nodes s (th_pred (sys_threads s t))) \<longleftrightarrow> t = hd Q"
    and "t = hd Q \<Longrightarrow> th_pred (sys_threads s t) = z"
proof -
  note i = inv[unfolded clh_inv_def Let_def]
  have tQ: "t \<in> set Q" using i t by auto
  show hd: "t = hd Q \<Longrightarrow> th_pred (sys_threads s t) = z" using i tQ by (cases Q) auto
  have "t \<noteq> hd Q \<Longrightarrow> \<exists>u \<in> set Q. th_pred (sys_threads s t) = th_node (sys_threads s u)"
    using clh_chain_pred tQ i by blast
  then show "\<not> locked (sys_nodes s (th_pred (sys_threads s t))) \<longleftrightarrow> t = hd Q"
    using i hd by fastforce
qed

lemma clh_enter_inv:
  assumes inv: "clh_inv s Q z" and st: "clh_step s (Enter t) s'"
  shows "clh_inv s' Q z \<and> Q \<noteq> [] \<and> t = hd Q"
proof -
  note i = inv[unfolded clh_inv_def Let_def]
  from st obtain was where t: "t < sys_n s" "thr_pc s t = Spinning was"
      "\<not> locked (sys_nodes s (th_pred (sys_threads s t)))"
    and s0: "s' = s\<lparr>sys_nodes := (sys_nodes s)(th_pred (sys_threads s t) :=
          (sys_nodes s (th_pred (sys_threads s t)))\<lparr>interrupt_state := was\<rparr>),
        sys_threads := (sys_threads s)(t := (sys_threads s t)\<lparr>th_pc := Holding was\<rparr>)\<rparr>"
    by (auto simp: clh_step_enter Let_def)
  have hd: "t = hd Q" "th_pred (sys_threads s t) = z"
    using clh_wait_head[OF inv] t by auto
  note s' = s0[unfolded hd(2)]
  have Q: "set Q = {u \<in> {..<sys_n s'}. th_pc (sys_threads s' u) \<noteq> Idle}" "Q \<noteq> []"
    using i t by (auto simp: s')
  have nd: "th_node (sys_threads s' u) = th_node (sys_threads s u)" for u by (simp add: s')
  have nz: "\<And>u. u < sys_n s \<Longrightarrow> th_node (sys_threads s u) \<noteq> z" using i by auto
  have nh: "\<And>u w. u < sys_n s \<Longrightarrow> thr_pc s u \<noteq> Holding w" using i t hd(1) by fastforce
  have ch: "clh_chain (sys_threads s') z Q (clh_tail (sys_lock s'))"
    using i by (simp add: s' clh_chain_upd_pc)
  have th: "\<forall>u\<in>{..<sys_n s'}.
        th_tcb (sys_threads s' u) \<noteq> NULL \<and>
        th_node (sys_threads s' u) \<noteq> NULL \<and>
        locked (sys_nodes s' (th_node (sys_threads s' u))) = (thr_pc s' u \<noteq> Idle) \<and>
        (thr_pc s' u = Idle \<longrightarrow> th_pred (sys_threads s' u) = NULL) \<and>
        (\<forall>w. thr_pc s' u = Holding w \<longrightarrow> u = hd Q \<and> interrupt_state (sys_nodes s' z) = w)"
    using i nz nh t by (simp add: s' hd(1)[symmetric])
  have rest: "distinct Q" "inj_on (\<lambda>t. th_node (sys_threads s t)) {..<sys_n s'}"
    "z \<notin> (\<lambda>t. th_node (sys_threads s t)) ` {..<sys_n s'}" "z \<noteq> NULL" "\<not> locked (sys_nodes s' z)"
    using i t hd by (simp_all add: s')
  show ?thesis unfolding clh_inv_def Let_def nd
    using rest Q ch th[unfolded nd] hd(1) by blast
qed

text \<open>Releasing: the head leaves, and its node becomes the spare node.\<close>

lemma clh_release_inv:
  assumes inv: "clh_inv s Q z" and st: "clh_step s (Release t) s'"
  shows "clh_inv s' (tl Q) (th_node (sys_threads s t)) \<and> Q \<noteq> [] \<and> t = hd Q
     \<and> thr_pc s t = Holding (th_imr (sys_threads s' t))"
proof -
  note i = inv[unfolded clh_inv_def Let_def]
  define n where "n = th_node (sys_threads s t)"
  from st obtain was where t: "t < sys_n s" "thr_pc s t = Holding was"
    and s0: "s' = s\<lparr>sys_nodes := (sys_nodes s)(n := (sys_nodes s n)\<lparr>locked := False\<rparr>),
        sys_threads := (sys_threads s)(t := (sys_threads s t)\<lparr>
          th_imr := interrupt_state (((sys_nodes s)(n := (sys_nodes s n)\<lparr>locked := False\<rparr>))
             (th_pred (sys_threads s t))),
          th_node := th_pred (sys_threads s t), th_pred := NULL, th_pc := Idle\<rparr>)\<rparr>"
    by (auto simp: clh_step_release Let_def n_def)
  have hd: "t = hd Q" using i t by auto
  have p: "th_pred (sys_threads s t) = z" using clh_wait_head[OF inv t(1)] t hd by simp
  have tQ: "t \<in> set Q" "distinct Q" using i t by auto
  then obtain R where R: "Q = t # R" "t \<notin> set R" using hd by (cases Q) auto
  have nz: "n \<noteq> z" "n \<noteq> NULL" using i t by (auto simp: n_def)
  have s': "s' = s\<lparr>sys_nodes := (sys_nodes s)(n := (sys_nodes s n)\<lparr>locked := False\<rparr>),
      sys_threads := (sys_threads s)(t := (sys_threads s t)\<lparr>th_imr := was,
        th_node := z, th_pred := NULL, th_pc := Idle\<rparr>)\<rparr>"
    using i t nz by (simp add: s0 p)
  have nodes: "\<And>u. u < sys_n s \<Longrightarrow> th_node (sys_threads s u) = n \<longleftrightarrow> u = t"
    using i t by (auto simp: inj_on_def n_def)
  have nzs: "\<And>u. u < sys_n s \<Longrightarrow> th_node (sys_threads s u) \<noteq> z" using i by auto
  have nh: "\<And>u w. u < sys_n s \<Longrightarrow> u \<noteq> t \<Longrightarrow> thr_pc s u \<noteq> Holding w" using i hd by fastforce
  have Q: "set R = {u \<in> {..<sys_n s'}. th_pc (sys_threads s' u) \<noteq> Idle}" "distinct R"
  proof -
    have "set Q = {u \<in> {..<sys_n s}. th_pc (sys_threads s u) \<noteq> Idle}" using i by blast
    then show "set R = {u \<in> {..<sys_n s'}. th_pc (sys_threads s' u) \<noteq> Idle}"
      using R t by (auto simp: s')
  qed (use tQ R in simp)
  have inj: "inj_on (\<lambda>u. th_node (sys_threads s' u)) {..<sys_n s'}"
  proof -
    have "inj_on (\<lambda>u. th_node (sys_threads s u)) {..<sys_n s}" using i by blast
    moreover have "\<And>u. u < sys_n s \<Longrightarrow> z \<noteq> th_node (sys_threads s u)" using nzs by metis
    ultimately show ?thesis using nzs by (simp add: s' inj_on_def)
  qed
  have ch: "clh_chain (sys_threads s') n R (clh_tail (sys_lock s'))"
    using i R by (simp add: s' n_def)
  have th: "\<forall>u\<in>{..<sys_n s'}.
        th_tcb (sys_threads s' u) \<noteq> NULL \<and>
        th_node (sys_threads s' u) \<noteq> NULL \<and>
        locked (sys_nodes s' (th_node (sys_threads s' u))) = (thr_pc s' u \<noteq> Idle) \<and>
        (thr_pc s' u = Idle \<longrightarrow> th_pred (sys_threads s' u) = NULL) \<and>
        (\<forall>w. thr_pc s' u = Holding w \<longrightarrow> u = hd R \<and> interrupt_state (sys_nodes s' n) = w)"
    using i nz nodes nh by (simp add: s')
  have nim: "n \<notin> (\<lambda>u. th_node (sys_threads s' u)) ` {..<sys_n s'}"
  proof -
    have "th_node (sys_threads s' u) \<noteq> n" if "u < sys_n s'" for u
      using nodes[of u] nz that by (simp add: s')
    then show ?thesis by fastforce
  qed
  have rest: "\<not> locked (sys_nodes s' n)" "tl Q = R" "Q \<noteq> []"
    "thr_pc s t = Holding (th_imr (sys_threads s' t))"
    using R t by (simp_all add: s')
  show ?thesis unfolding clh_inv_def Let_def n_def[symmetric]
    using rest Q ch th inj nim nz hd by blast
qed


section \<open>Whole runs\<close>

lemma trace_append [simp]:
  "enqueues (es @ fs) = enqueues es @ enqueues fs"
  "entries (es @ fs) = entries es @ entries fs"
  "releases (es @ fs) = releases es @ releases fs"
  by (induction es rule: enqueues.induct; simp; fail | induction es rule: entries.induct; simp; fail
    | induction es rule: releases.induct; simp)+

definition masks_ok :: "clh_sys \<Rightarrow> clh_sys \<Rightarrow> bool" where
  "masks_ok s0 s \<longleftrightarrow> sys_n s = sys_n s0 \<and> (\<forall>t < sys_n s.
     case thr_pc s t of
       Idle \<Rightarrow> th_imr (sys_threads s t) = th_imr (sys_threads s0 t)
     | Spinning w \<Rightarrow> th_imr (sys_threads s t) = 0 \<and> w = th_imr (sys_threads s0 t)
     | Holding w \<Rightarrow> th_imr (sys_threads s t) = 0 \<and> w = th_imr (sys_threads s0 t))"

definition clh_trace_ok :: "clh_sys \<Rightarrow> clh_event list \<Rightarrow> nat list \<Rightarrow> bool" where
  "clh_trace_ok s es Q \<longleftrightarrow> enqueues es = releases es @ Q \<and>
     entries es = releases es @ (if Q \<noteq> [] \<and> (\<exists>w. thr_pc s (hd Q) = Holding w) then [hd Q] else [])"

lemma clh_step_trace:
  assumes "clh_inv s Q z" "clh_trace_ok s es Q" "clh_step s e s'"
  shows "\<exists>Q' z'. clh_inv s' Q' z' \<and> clh_trace_ok s' (es @ [e]) Q'"
proof (cases e)
  case (Enqueue t)
  then have "clh_inv s' (Q @ [t]) z" using clh_enqueue_inv assms by blast
  moreover have "clh_trace_ok s' (es @ [e]) (Q @ [t])"
    using assms Enqueue by (cases Q) (auto simp: clh_trace_ok_def clh_step_enqueue Let_def clh_inv_def)
  ultimately show ?thesis by blast
next
  case (Enter t)
  then have "clh_inv s' Q z \<and> Q \<noteq> [] \<and> t = hd Q" using clh_enter_inv assms by blast
  moreover have "clh_trace_ok s' (es @ [e]) Q"
    using assms Enter calculation by (auto simp: clh_trace_ok_def clh_step_enter Let_def)
  ultimately show ?thesis by blast
next
  case (Release t)
  then have r: "clh_inv s' (tl Q) (th_node (sys_threads s t)) \<and> Q \<noteq> [] \<and> t = hd Q
     \<and> thr_pc s t = Holding (th_imr (sys_threads s' t))" using clh_release_inv assms by blast
  moreover have "thr_pc s' u \<noteq> Holding w" if "tl Q \<noteq> []" "u = hd (tl Q)" for u w
  proof -
    have "distinct Q" "set Q \<subseteq> {..<sys_n s}"
      and hold: "\<And>v w. v < sys_n s \<Longrightarrow> thr_pc s v = Holding w \<Longrightarrow> v = t"
      using assms(1) r by (auto simp: clh_inv_def Let_def)
    moreover obtain R where "Q = t # R" using r by (metis list.collapse)
    ultimately have "u \<noteq> t" "u < sys_n s" using that by (cases R; force)+
    then show ?thesis using hold[of u w] assms(3) Release by (auto simp: clh_step_release Let_def)
  qed
  then have "clh_trace_ok s' (es @ [e]) (tl Q)"
    using assms Release r by (auto simp: clh_trace_ok_def)
  with r show ?thesis by blast
qed

lemma clh_run_inv:
  assumes "clh_start s0" "clh_run s0 es s"
  shows "\<exists>Q z. clh_inv s Q z \<and> clh_trace_ok s es Q"
  using assms(2)
proof induction
  case Start
  then show ?case using clh_start_inv[OF assms(1)] by (auto simp: clh_trace_ok_def)
next
  case (Step es s e s')
  then show ?case using clh_step_trace by blast
qed

lemma clh_run_masks:
  assumes "clh_start s0" "clh_run s0 es s"
  shows "masks_ok s0 s"
  using assms(2)
proof induction
  case Start
  then show ?case using assms(1) by (auto simp: masks_ok_def clh_start_def list_all_iff Let_def)
next
  case (Step es s e s')
  obtain Q z where inv: "clh_inv s Q z" using clh_run_inv assms(1) Step by blast
  show ?case
  proof (cases e)
    case (Enqueue t)
    then show ?thesis using Step by (auto simp: masks_ok_def clh_step_enqueue Let_def split: clh_pc.splits)
  next
    case (Enter t)
    then show ?thesis using Step
      by (auto simp: masks_ok_def clh_step_enter Let_def split: clh_pc.splits if_splits)
  next
    case (Release t)
    then have "thr_pc s t = Holding (th_imr (sys_threads s' t))"
      using clh_release_inv inv Step by blast
    then show ?thesis using Step Release
      by (auto simp: masks_ok_def clh_step_release Let_def split: clh_pc.splits if_splits)
  qed
qed

lemma clh_next_iff: "clh_step s e s' \<longleftrightarrow> clh_next s e = Some s'"
  unfolding clh_step.simps clh_next_def
  by (cases e) (auto split: if_splits clh_pc.splits)

lemma clh_run_Cons: "clh_run s1 es s2 \<Longrightarrow> clh_step s0 e s1 \<Longrightarrow> clh_run s0 (e # es) s2"
proof (induction rule: clh_run.induct)
  case Start
  then show ?case using clh_run.Step[OF clh_run.Start] by fastforce
next
  case (Step es s e' s')
  then show ?case using clh_run.Step[of s0 "e # es" s e' s'] by simp
qed

lemma clh_exec_run: "clh_exec s es = Some s' \<Longrightarrow> clh_run s es s'"
proof (induction es arbitrary: s)
  case (Cons e es)
  then show ?case
    by (auto simp: clh_next_iff[symmetric] Option.bind_eq_Some_conv intro: clh_run_Cons)
qed (auto intro: clh_run.Start)

text \<open>\<^bold>\<open>C1\<close>.  However the threads are interleaved, at most one of them is inside a critical
  section protected by a CLH lock.\<close>

theorem clh_mutual_exclusion:
  assumes "clh_start s0" "clh_run s0 es s" "t < sys_n s" "u < sys_n s"
    "thr_pc s t = Holding v" "thr_pc s u = Holding w"
  shows "t = u"
proof -
  obtain Q z where "clh_inv s Q z" using clh_run_inv assms(1,2) by blast
  then show ?thesis using assms(3-6) unfolding clh_inv_def Let_def by (metis lessThan_iff)
qed

text \<open>\<^bold>\<open>C2\<close>.  The lock is fair: the threads enter in the order in which they joined the
  queue, and they leave in that order too.\<close>

theorem clh_fifo:
  assumes "clh_start s0" "clh_run s0 es s"
  shows "prefix (entries es) (enqueues es) \<and> prefix (releases es) (entries es)"
proof -
  obtain Q where "clh_trace_ok s es Q" using clh_run_inv assms by blast
  then show ?thesis by (cases Q) (auto simp: clh_trace_ok_def prefix_def split: if_splits)
qed

text \<open>\<^bold>\<open>C3\<close>.  No \<open>assert\<close> of the lock fires and no state is stuck: an idle thread can
  always join, the holder can always release, and while a thread waits either some
  thread can enter or some thread can release.\<close>

theorem clh_never_stuck:
  assumes "clh_start s0" "clh_run s0 es s" "t < sys_n s"
  shows "case thr_pc s t of
      Idle \<Rightarrow> \<exists>s'. clh_step s (Enqueue t) s'
    | Holding w \<Rightarrow> \<exists>s'. clh_step s (Release t) s'
    | Spinning w \<Rightarrow> \<exists>u s'. clh_step s (Enter u) s' \<or> clh_step s (Release u) s'"
proof -
  obtain Q z where inv: "clh_inv s Q z" using clh_run_inv assms by blast
  note i = inv[unfolded clh_inv_def Let_def]
  have e: "thr_pc s t = Idle \<Longrightarrow> \<exists>s'. clh_step s (Enqueue t) s'"
    unfolding clh_step_enqueue Let_def using i assms(3) clh_chain_nonnull[of "sys_threads s" z Q] by auto
  have r: "\<exists>s'. clh_step s (Release u) s'" if "u < sys_n s" "thr_pc s u = Holding w" for u w
  proof -
    have "th_pred (sys_threads s u) = z" using clh_wait_head(2)[OF inv] i that by auto
    then show ?thesis unfolding clh_step_release Let_def using i that by auto
  qed
  have "\<exists>u s'. clh_step s (Enter u) s' \<or> clh_step s (Release u) s'" if sp: "thr_pc s t = Spinning w" for w
  proof -
    have "t \<in> set Q" using i sp assms(3) by auto
    then have "hd Q \<in> set Q" by (cases Q) auto
    then have h: "hd Q < sys_n s" "thr_pc s (hd Q) \<noteq> Idle" using i by auto
    then have "\<not> locked (sys_nodes s (th_pred (sys_threads s (hd Q))))" using clh_wait_head(1)[OF inv] by blast
    then have "thr_pc s (hd Q) = Spinning v \<Longrightarrow> \<exists>s'. clh_step s (Enter (hd Q)) s'" for v
      using h by (auto simp: clh_step_enter Let_def)
    then show ?thesis using h r[of "hd Q"] by (cases "thr_pc s (hd Q)") blast+
  qed
  with e r assms(3) show ?thesis by (cases "thr_pc s t") auto
qed

text \<open>Waiting and holding threads run with interrupts masked, and a thread that
  has released the lock has the interrupt mask it had before it acquired it.\<close>

theorem clh_interrupt_masks:
  assumes "clh_start s0" "clh_run s0 es s" "t < sys_n s"
  shows "th_imr (sys_threads s t) = (if thr_pc s t = Idle then th_imr (sys_threads s0 t) else 0)"
proof -
  have "sys_n s = sys_n s0" "\<forall>t < sys_n s. case thr_pc s t of
       Idle \<Rightarrow> th_imr (sys_threads s t) = th_imr (sys_threads s0 t)
     | Spinning w \<Rightarrow> th_imr (sys_threads s t) = 0 \<and> w = th_imr (sys_threads s0 t)
     | Holding w \<Rightarrow> th_imr (sys_threads s t) = 0 \<and> w = th_imr (sys_threads s0 t)"
    using clh_run_masks[OF assms(1,2)] unfolding masks_ok_def by blast+
  then show ?thesis using assms(3) by (cases "thr_pc s t") fastforce+
qed

text \<open>Two threads on one lock; thread 0 holds it while thread 1 waits.\<close>

definition clh_two :: clh_sys where
  "clh_two = \<lparr>sys_lock = \<lparr>clh_tail = 100\<rparr>, sys_nodes = (\<lambda>_. \<lparr>locked = False, interrupt_state = 0\<rparr>),
     sys_n = 2, sys_threads = (\<lambda>t. \<lparr>th_tcb = 1, th_imr = of_nat (t + 5), th_preempt = True,
       th_node = of_nat (t + 8), th_pred = NULL, th_pc = Idle\<rparr>)\<rparr>"

abbreviation clh_two_events :: "clh_event list" where
  "clh_two_events \<equiv> [Enqueue 0, Enqueue 1, Enter 0]"

lemma clh_two_start: "clh_start clh_two"
  by code_simp

lemma clh_two_run: "clh_exec clh_two clh_two_events \<noteq> None \<and>
   thr_pc (the (clh_exec clh_two clh_two_events)) 0 = Holding 5"
  by code_simp


lemma clh_two_run': "clh_run clh_two clh_two_events (the (clh_exec clh_two clh_two_events))"
  using clh_two_run by (intro clh_exec_run) auto

theorem clh_mutual_exclusion_witness:
  "\<exists>s. clh_run clh_two clh_two_events s \<and> thr_pc s 0 = Holding 5 \<and> thr_pc s 1 \<noteq> Holding 6"
proof -
  let ?s = "the (clh_exec clh_two clh_two_events)"
  have "sys_n ?s = 2" by code_simp
  then have "thr_pc ?s 1 \<noteq> Holding 6"
    using clh_mutual_exclusion[OF clh_two_start clh_two_run', of 0 1] clh_two_run by auto
  then show ?thesis using clh_two_run clh_two_run' by blast
qed

theorem clh_fifo_witness:
  "clh_start clh_two \<and> prefix (entries clh_two_events) (enqueues clh_two_events)"
  using clh_fifo[OF clh_two_start clh_two_run'] clh_two_start by blast

theorem clh_never_stuck_witness:
  "\<exists>s. clh_run clh_two clh_two_events s \<and> thr_pc s 0 = Holding 5 \<and> (\<exists>s'. clh_step s (Release 0) s')"
proof -
  let ?s = "the (clh_exec clh_two clh_two_events)"
  have "0 < sys_n ?s" by code_simp
  from clh_never_stuck[OF clh_two_start clh_two_run' this] show ?thesis
    using clh_two_run clh_two_run' by auto
qed

theorem clh_interrupt_masks_witness:
  "\<exists>s. clh_run clh_two clh_two_events s \<and> th_imr (sys_threads s 1) = 0 \<and> th_imr (sys_threads clh_two 1) = 6"
proof -
  let ?s = "the (clh_exec clh_two clh_two_events)"
  have n: "1 < sys_n ?s" "thr_pc ?s 1 \<noteq> Idle" "th_imr (sys_threads clh_two 1) = 6" by code_simp+
  have "th_imr (sys_threads ?s 1) = 0"
    using clh_interrupt_masks[OF clh_two_start clh_two_run' n(1)] n by simp
  then show ?thesis using clh_two_run' n by blast
qed

end
