(* ===== verification/Queues.thy ===== *)
theory Queues
  imports Atomic
begin

text \<open>
  The linked queues of \<open>kernel/queue.c\<close>: \<open>SpinQueue\<close>, \<open>Queue\<close>, \<open>GenericQueue\<close> and
  \<open>GenericSpinQueue\<close>, which link the nodes they hold through the nodes' own \<open>next\<close>
  field, and the deadline-ordered \<open>SleepQueue\<close>.  The \<open>next\<close> fields of all nodes are
  one map that the operations update; a queue represents a list of nodes when the
  chain from its head visits exactly them.  The four FIFO queues interpret the locale
  \<open>fifo_queue\<close>.
\<close>

section \<open>Data\<close>

record queue =
  q_head :: addr
  q_tail :: addr
  q_size :: u32

record spin_queue = queue +
  spinlock :: clh_lock

record sleep_queue =
  sleep_head :: addr
  sleep_size :: u32

text \<open>\<open>struct GenericQueue\<close> has the fields of \<open>struct Queue\<close>, and
  \<open>struct GenericSpinQueue\<close> those of \<open>struct SpinQueue\<close>.\<close>

type_synonym generic_queue = queue
type_synonym generic_spin_queue = spin_queue


section \<open>\<open>Queue\<close>: the caller synchronises\<close>

definition queue_init :: queue where
  "queue_init = \<lparr>q_head = NULL, q_tail = NULL, q_size = 0\<rparr>"

definition queue_add :: "addr \<Rightarrow> queue \<times> next_map \<Rightarrow> (queue \<times> next_map) option" where
  "queue_add data = (\<lambda>(q, nx).
     let nx = nx(data := NULL);
         (q, nx) = (if q_head q = NULL then (q\<lparr>q_head := data, q_tail := data\<rparr>, nx)
                    else (q\<lparr>q_tail := data\<rparr>, nx(q_tail q := data)))
     in Some (q\<lparr>q_size := q_size q + 1\<rparr>, nx))"

definition queue_remove :: "queue \<times> next_map \<Rightarrow> (addr \<times> queue \<times> next_map) option" where
  "queue_remove = (\<lambda>(q, nx).
     if q_head q = NULL then Some (NULL, q, nx)
     else let node = q_head q;
              q = q\<lparr>q_head := nx node\<rparr>;
              nx = nx(node := NULL);
              q = (if q_head q = NULL then q\<lparr>q_tail := NULL\<rparr> else q)
          in Some (node, q\<lparr>q_size := q_size q - 1\<rparr>, nx))"

definition queue_remove_all :: "queue \<times> next_map \<Rightarrow> addr \<times> queue \<times> next_map" where
  "queue_remove_all = (\<lambda>(q, nx). (q_head q, q\<lparr>q_head := NULL, q_tail := NULL, q_size := 0\<rparr>, nx))"

definition queue_size :: "queue \<times> next_map \<Rightarrow> u32" where
  "queue_size = (\<lambda>(q, nx). q_size q)"

definition queue_peek :: "queue \<times> next_map \<Rightarrow> addr" where
  "queue_peek = (\<lambda>(q, nx). q_head q)"


section \<open>\<open>GenericQueue\<close>\<close>

definition generic_queue_init :: generic_queue where
  "generic_queue_init = \<lparr>q_head = NULL, q_tail = NULL, q_size = 0\<rparr>"

definition generic_queue_add ::
    "addr \<Rightarrow> generic_queue \<times> next_map \<Rightarrow> (generic_queue \<times> next_map) option" where
  "generic_queue_add data = (\<lambda>(q, nx). do {
     kassert (data \<noteq> NULL);
     let nx = nx(data := NULL);
     let (q, nx) = (if q_head q = NULL then (q\<lparr>q_head := data, q_tail := data\<rparr>, nx)
                    else (q\<lparr>q_tail := data\<rparr>, nx(q_tail q := data)));
     Some (q\<lparr>q_size := q_size q + 1\<rparr>, nx)
   })"

definition generic_queue_remove ::
    "generic_queue \<times> next_map \<Rightarrow> (addr \<times> generic_queue \<times> next_map) option" where
  "generic_queue_remove = (\<lambda>(q, nx).
     if q_head q = NULL then Some (NULL, q, nx)
     else let node = q_head q;
              q = q\<lparr>q_head := nx node\<rparr>;
              nx = nx(node := NULL);
              q = (if q_head q = NULL then q\<lparr>q_tail := NULL\<rparr> else q)
          in Some (node, q\<lparr>q_size := q_size q - 1\<rparr>, nx))"

definition generic_queue_remove_all ::
    "generic_queue \<times> next_map \<Rightarrow> addr \<times> generic_queue \<times> next_map" where
  "generic_queue_remove_all = (\<lambda>(q, nx). (q_head q, q\<lparr>q_head := NULL, q_tail := NULL, q_size := 0\<rparr>, nx))"

definition generic_queue_size :: "generic_queue \<times> next_map \<Rightarrow> u32" where
  "generic_queue_size = (\<lambda>(q, nx). q_size q)"


section \<open>\<open>SpinQueue\<close> and \<open>GenericSpinQueue\<close>: an internal CLH lock\<close>

type_synonym spin_state = "spin_queue \<times> next_map \<times> lock_ctx"

definition spin_queue_init :: "addr \<Rightarrow> lock_ctx \<Rightarrow> spin_queue \<times> lock_ctx" where
  "spin_queue_init fresh c =
     (let (l, c) = clh_lock_init fresh c
      in (\<lparr>q_head = NULL, q_tail = NULL, q_size = 0, spinlock = l\<rparr>, c))"

definition spin_queue_destroy :: "spin_queue \<Rightarrow> spin_queue" where
  "spin_queue_destroy q =
     q\<lparr>spinlock := clh_lock_destroy (spinlock q), q_head := NULL, q_tail := NULL, q_size := 0\<rparr>"

definition spin_queue_add :: "addr \<Rightarrow> spin_state \<Rightarrow> spin_state option" where
  "spin_queue_add data = (\<lambda>(q, nx, c). do {
     kassert (data \<noteq> NULL);
     (l, c) \<leftarrow> clh_lock_acquire (spinlock q) c;
     let q = q\<lparr>spinlock := l\<rparr>;
     let nx = nx(data := NULL);
     let (q, nx) = (if q_head q = NULL then (q\<lparr>q_head := data, q_tail := data\<rparr>, nx)
                    else (q\<lparr>q_tail := data\<rparr>, nx(q_tail q := data)));
     let q = q\<lparr>q_size := q_size q + 1\<rparr>;
     c \<leftarrow> clh_lock_release c;
     Some (q, nx, c)
   })"

definition spin_queue_remove :: "spin_state \<Rightarrow> (addr \<times> spin_state) option" where
  "spin_queue_remove = (\<lambda>(q, nx, c). do {
     (l, c) \<leftarrow> clh_lock_acquire (spinlock q) c;
     let q = q\<lparr>spinlock := l\<rparr>;
     if q_head q = NULL then do {
       c \<leftarrow> clh_lock_release c;
       Some (NULL, q, nx, c)
     } else do {
       let node = q_head q;
       let q = q\<lparr>q_head := nx node\<rparr>;
       let nx = nx(node := NULL);
       let q = (if q_head q = NULL then q\<lparr>q_tail := NULL\<rparr> else q);
       let q = q\<lparr>q_size := q_size q - 1\<rparr>;
       c \<leftarrow> clh_lock_release c;
       Some (node, q, nx, c)
     }
   })"

definition spin_queue_remove_all :: "spin_state \<Rightarrow> (addr \<times> spin_state) option" where
  "spin_queue_remove_all = (\<lambda>(q, nx, c). do {
     (l, c) \<leftarrow> clh_lock_acquire (spinlock q) c;
     let h = q_head q;
     let q = q\<lparr>spinlock := l, q_head := NULL, q_tail := NULL, q_size := 0\<rparr>;
     c \<leftarrow> clh_lock_release c;
     Some (h, q, nx, c)
   })"

definition spin_queue_size :: "spin_state \<Rightarrow> u32" where
  "spin_queue_size = (\<lambda>(q, nx, c). q_size q)"

definition spin_queue_peek :: "spin_state \<Rightarrow> (addr \<times> spin_state) option" where
  "spin_queue_peek = (\<lambda>(q, nx, c). do {
     (l, c) \<leftarrow> clh_lock_acquire (spinlock q) c;
     let h = q_head q;
     c \<leftarrow> clh_lock_release c;
     Some (h, q\<lparr>spinlock := l\<rparr>, nx, c)
   })"

definition generic_spin_queue_init :: "addr \<Rightarrow> lock_ctx \<Rightarrow> generic_spin_queue \<times> lock_ctx" where
  "generic_spin_queue_init fresh c =
     (let (l, c) = clh_lock_init fresh c
      in (\<lparr>q_head = NULL, q_tail = NULL, q_size = 0, spinlock = l\<rparr>, c))"

definition generic_spin_queue_destroy :: "generic_spin_queue \<Rightarrow> generic_spin_queue" where
  "generic_spin_queue_destroy q =
     q\<lparr>spinlock := clh_lock_destroy (spinlock q), q_head := NULL, q_tail := NULL, q_size := 0\<rparr>"

definition generic_spin_queue_add :: "addr \<Rightarrow> spin_state \<Rightarrow> spin_state option" where
  "generic_spin_queue_add data = (\<lambda>(q, nx, c). do {
     kassert (data \<noteq> NULL);
     (l, c) \<leftarrow> clh_lock_acquire (spinlock q) c;
     let q = q\<lparr>spinlock := l\<rparr>;
     let nx = nx(data := NULL);
     let (q, nx) = (if q_head q = NULL then (q\<lparr>q_head := data, q_tail := data\<rparr>, nx)
                    else (q\<lparr>q_tail := data\<rparr>, nx(q_tail q := data)));
     let q = q\<lparr>q_size := q_size q + 1\<rparr>;
     c \<leftarrow> clh_lock_release c;
     Some (q, nx, c)
   })"

definition generic_spin_queue_remove :: "spin_state \<Rightarrow> (addr \<times> spin_state) option" where
  "generic_spin_queue_remove = (\<lambda>(q, nx, c). do {
     (l, c) \<leftarrow> clh_lock_acquire (spinlock q) c;
     let q = q\<lparr>spinlock := l\<rparr>;
     if q_head q = NULL then do {
       c \<leftarrow> clh_lock_release c;
       Some (NULL, q, nx, c)
     } else do {
       let node = q_head q;
       let q = q\<lparr>q_head := nx node\<rparr>;
       let nx = nx(node := NULL);
       let q = (if q_head q = NULL then q\<lparr>q_tail := NULL\<rparr> else q);
       let q = q\<lparr>q_size := q_size q - 1\<rparr>;
       c \<leftarrow> clh_lock_release c;
       Some (node, q, nx, c)
     }
   })"

definition generic_spin_queue_remove_all :: "spin_state \<Rightarrow> (addr \<times> spin_state) option" where
  "generic_spin_queue_remove_all = (\<lambda>(q, nx, c). do {
     (l, c) \<leftarrow> clh_lock_acquire (spinlock q) c;
     let h = q_head q;
     let q = q\<lparr>spinlock := l, q_head := NULL, q_tail := NULL, q_size := 0\<rparr>;
     c \<leftarrow> clh_lock_release c;
     Some (h, q, nx, c)
   })"

definition generic_spin_queue_size :: "spin_state \<Rightarrow> u32" where
  "generic_spin_queue_size = (\<lambda>(q, nx, c). q_size q)"


section \<open>\<open>SleepQueue\<close>: ordered by deadline\<close>

type_synonym wakeup_map = "addr \<Rightarrow> u32"

definition sleep_queue_init :: sleep_queue where
  "sleep_queue_init = \<lparr>sleep_head = NULL, sleep_size = 0\<rparr>"

text \<open>The insertion loop walks \<open>previous\<close> and \<open>current\<close> along the chain.  A cyclic
  chain whose deadlines all pass would never end, so the loop is a partial function;
  it returns on every list.\<close>

partial_function (option) sleep_queue_find ::
    "wakeup_map \<Rightarrow> next_map \<Rightarrow> u32 \<Rightarrow> addr \<Rightarrow> addr \<Rightarrow> (addr \<times> addr) option" where
  "sleep_queue_find wk nx w previous current =
     (if current \<noteq> NULL \<and> wk current \<le> w
      then sleep_queue_find wk nx w current (nx current)
      else Some (previous, current))"

definition sleep_queue_add ::
    "wakeup_map \<Rightarrow> addr \<Rightarrow> sleep_queue \<times> next_map \<Rightarrow> (sleep_queue \<times> next_map) option" where
  "sleep_queue_add wk data = (\<lambda>(q, nx). do {
     let nx = nx(data := NULL);
     (q, nx) \<leftarrow>
       (if sleep_head q = NULL then Some (q\<lparr>sleep_head := data\<rparr>, nx)
        else do {
          (previous, current) \<leftarrow> sleep_queue_find wk nx (wk data) NULL (sleep_head q);
          if previous = NULL then Some (q\<lparr>sleep_head := data\<rparr>, nx(data := sleep_head q))
          else Some (q, nx(previous := data, data := current))
        });
     Some (q\<lparr>sleep_size := sleep_size q + 1\<rparr>, nx)
   })"

definition sleep_queue_remove_at ::
    "wakeup_map \<Rightarrow> u32 \<Rightarrow> sleep_queue \<times> next_map \<Rightarrow> addr \<times> sleep_queue \<times> next_map" where
  "sleep_queue_remove_at wk now_jiffies = (\<lambda>(q, nx).
     if sleep_head q = NULL then (NULL, q, nx)
     else let node = sleep_head q in
       if wk node \<le> now_jiffies
       then (node, q\<lparr>sleep_head := nx node, sleep_size := sleep_size q - 1\<rparr>, nx(node := NULL))
       else (NULL, q, nx))"

definition sleep_queue_remove ::
    "wakeup_map \<Rightarrow> u32 \<Rightarrow> sleep_queue \<times> next_map \<Rightarrow> addr \<times> sleep_queue \<times> next_map" where
  "sleep_queue_remove wk current_jiffies = sleep_queue_remove_at wk current_jiffies"

definition sleep_queue_size :: "sleep_queue \<times> next_map \<Rightarrow> u32" where
  "sleep_queue_size = (\<lambda>(q, nx). sleep_size q)"


section \<open>What a queue represents\<close>

definition queue_rep :: "'a queue_scheme \<Rightarrow> next_map \<Rightarrow> addr list \<Rightarrow> bool" where
  "queue_rep q nx xs \<longleftrightarrow> linked nx (q_head q) xs \<and> q_tail q = (if xs = [] then NULL else last xs)
     \<and> q_size q = of_nat (length xs)"

definition queue_state_rep :: "queue \<times> next_map \<Rightarrow> addr list \<Rightarrow> bool" where
  "queue_state_rep = (\<lambda>(q, nx) xs. queue_rep q nx xs)"

definition spin_state_rep :: "spin_state \<Rightarrow> addr list \<Rightarrow> bool" where
  "spin_state_rep = (\<lambda>(q, nx, c) xs. queue_rep q nx xs \<and> clh_ready (spinlock q) c)"

text \<open>Client code: enqueue a whole list, take a given number of nodes out.\<close>

fun add_all :: "(addr \<Rightarrow> 's \<Rightarrow> 's option) \<Rightarrow> addr list \<Rightarrow> 's \<Rightarrow> 's option" where
  "add_all add [] s = Some s"
| "add_all add (d # ds) s = add d s \<bind> add_all add ds"

fun take_out :: "('s \<Rightarrow> (addr \<times> 's) option) \<Rightarrow> nat \<Rightarrow> 's \<Rightarrow> (addr list \<times> 's) option" where
  "take_out remove 0 s = Some ([], s)"
| "take_out remove (Suc n) s = do {
     (x, s) \<leftarrow> remove s;
     (xs, s) \<leftarrow> take_out remove n s;
     Some (x # xs, s)
   }"

locale fifo_queue =
  fixes rep :: "'s \<Rightarrow> addr list \<Rightarrow> bool"
    and add :: "addr \<Rightarrow> 's \<Rightarrow> 's option"
    and remove :: "'s \<Rightarrow> (addr \<times> 's) option"
    and count :: "'s \<Rightarrow> u32"
  assumes add_law: "rep s xs \<Longrightarrow> d \<noteq> NULL \<Longrightarrow> d \<notin> set xs \<Longrightarrow> \<exists>s'. add d s = Some s' \<and> rep s' (xs @ [d])"
    and remove_empty_law: "rep s [] \<Longrightarrow> \<exists>s'. remove s = Some (NULL, s') \<and> rep s' []"
    and remove_law: "rep s (x # xs) \<Longrightarrow> \<exists>s'. remove s = Some (x, s') \<and> rep s' xs"
    and count_law: "rep s xs \<Longrightarrow> count s = of_nat (length xs)"
begin

lemma add_all_rep:
  "rep s xs \<Longrightarrow> distinct (xs @ ds) \<Longrightarrow> NULL \<notin> set ds \<Longrightarrow>
     \<exists>s'. add_all add ds s = Some s' \<and> rep s' (xs @ ds)"
proof (induction ds arbitrary: s xs)
  case (Cons d ds)
  then obtain s1 where s1: "add d s = Some s1" "rep s1 (xs @ [d])"
    using add_law[of s xs d] by auto
  then show ?case using Cons.IH[of s1 "xs @ [d]"] Cons.prems by auto
qed auto

lemma take_out_rep:
  "rep s (xs @ ys) \<Longrightarrow> \<exists>s'. take_out remove (length xs) s = Some (xs, s') \<and> rep s' ys"
proof (induction xs arbitrary: s)
  case (Cons x xs)
  then obtain s1 where "remove s = Some (x, s1)" "rep s1 (xs @ ys)"
    using remove_law by fastforce
  then show ?case using Cons.IH by fastforce
qed auto

lemma first_in_first_out:
  assumes "rep s []" "distinct ds" "NULL \<notin> set ds"
  shows "\<exists>s1 s2. add_all add ds s = Some s1 \<and> count s1 = of_nat (length ds)
     \<and> take_out remove (length ds) s1 = Some (ds, s2) \<and> count s2 = 0
     \<and> (\<exists>s3. remove s2 = Some (NULL, s3))"
proof -
  obtain s1 where s1: "add_all add ds s = Some s1" "rep s1 ds"
    using add_all_rep[of s "[]" ds] assms by auto
  then obtain s2 where s2: "take_out remove (length ds) s1 = Some (ds, s2)" "rep s2 []"
    using take_out_rep[of s1 ds "[]"] by auto
  then show ?thesis using s1 count_law remove_empty_law by fastforce
qed

end


section \<open>The queues implement the FIFO interface\<close>

lemma queue_rep_init: "queue_state_rep (queue_init, nx) []" "queue_state_rep (generic_queue_init, nx) []"
  by (simp_all add: queue_state_rep_def queue_rep_def queue_init_def generic_queue_init_def)

lemma queue_rep_spinlock [simp]: "queue_rep (q\<lparr>spinlock := l\<rparr>) nx xs \<longleftrightarrow> queue_rep q nx xs"
  by (simp add: queue_rep_def)

lemma queue_rep_head: "queue_rep q nx xs \<Longrightarrow> q_head q = NULL \<longleftrightarrow> xs = []"
  by (cases xs) (auto simp: queue_rep_def)

lemma queue_rep_add_empty:
  "queue_rep q nx [] \<Longrightarrow> d \<noteq> NULL \<Longrightarrow>
     queue_rep (q\<lparr>q_head := d, q_tail := d, q_size := q_size q + 1\<rparr>) (nx(d := NULL)) [d]"
  by (simp add: queue_rep_def)

lemma queue_rep_add_more:
  "queue_rep q nx xs \<Longrightarrow> xs \<noteq> [] \<Longrightarrow> d \<noteq> NULL \<Longrightarrow> d \<notin> set xs \<Longrightarrow>
     queue_rep (q\<lparr>q_tail := d, q_size := q_size q + 1\<rparr>) (nx(d := NULL, q_tail q := d)) (xs @ [d])"
  using linked_snoc[of nx "q_head q" xs d] by (simp add: queue_rep_def add.commute)

lemma queue_rep_remove:
  assumes "queue_rep q nx (x # xs)"
  shows "x = q_head q \<and> x \<noteq> NULL"
    and "nx x = NULL \<Longrightarrow> xs = [] \<and> queue_rep (q\<lparr>q_head := NULL, q_tail := NULL, q_size := q_size q - 1\<rparr>) (nx(x := NULL)) []"
    and "nx x \<noteq> NULL \<Longrightarrow> queue_rep (q\<lparr>q_head := nx x, q_size := q_size q - 1\<rparr>) (nx(x := NULL)) xs"
  using assms linked_tl[of nx "q_head q" x xs] by (auto simp: queue_rep_def split: if_splits)

lemmas queue_rep_intros = queue_rep_add_empty queue_rep_add_more queue_rep_remove

interpretation queue_fifo: fifo_queue queue_state_rep queue_add queue_remove queue_size
proof (unfold_locales, goal_cases)
  case (1 s xs d)
  then show ?case
    by (cases "xs = []")
      (auto simp: queue_state_rep_def queue_add_def Let_def queue_rep_head
        split: prod.splits intro: queue_rep_add_empty queue_rep_add_more)
next
  case (2 s)
  then show ?case by (auto simp: queue_state_rep_def queue_remove_def queue_rep_head)
next
  case (3 s x xs)
  then show ?case
    by (cases s) (use queue_rep_remove[of "fst s" "snd s" x xs] in
      \<open>auto simp: queue_state_rep_def queue_remove_def Let_def\<close>)
next
  case (4 s xs)
  then show ?case by (auto simp: queue_state_rep_def queue_size_def queue_rep_def)
qed

lemma generic_queue_add_eq: "d \<noteq> NULL \<Longrightarrow> generic_queue_add d s = queue_add d s"
  by (auto simp: generic_queue_add_def queue_add_def Let_def split: prod.splits)

lemma generic_queue_remove_eq: "generic_queue_remove = queue_remove"
  by (auto simp: generic_queue_remove_def queue_remove_def)

lemma generic_queue_size_eq: "generic_queue_size = queue_size"
  by (auto simp: generic_queue_size_def queue_size_def)

interpretation generic_fifo: fifo_queue queue_state_rep generic_queue_add generic_queue_remove generic_queue_size
  unfolding generic_queue_remove_eq generic_queue_size_eq
  by unfold_locales
    (use queue_fifo.add_law queue_fifo.remove_empty_law queue_fifo.remove_law queue_fifo.count_law
      in \<open>simp_all add: generic_queue_add_eq\<close>)

text \<open>A critical section on a free lock runs to completion and leaves the lock free.\<close>

lemma clh_section:
  assumes "clh_ready l c"
  obtains l' c' c'' where "clh_lock_acquire l c = Some (l', c')" "clh_lock_release c' = Some c''"
    "clh_ready l' c''" "imr c'' = imr c"
  using clh_acquire_ready[OF assms] by metis

lemma spin_queue_add_rep:
  assumes "spin_state_rep s xs" "d \<noteq> NULL" "d \<notin> set xs"
  shows "\<exists>s'. spin_queue_add d s = Some s' \<and> spin_state_rep s' (xs @ [d])"
proof -
  obtain q nx c where s: "s = (q, nx, c)" by (cases s)
  then have r: "queue_rep q nx xs" "clh_ready (spinlock q) c"
    using assms(1) by (auto simp: spin_state_rep_def)
  from clh_section[OF r(2)] obtain l c' c''
    where "clh_lock_acquire (spinlock q) c = Some (l, c')" "clh_lock_release c' = Some c''" "clh_ready l c''" .
  then show ?thesis
    using r(1) assms(2,3) queue_rep_add_empty[of "q\<lparr>spinlock := l\<rparr>" nx d]
      queue_rep_add_more[of "q\<lparr>spinlock := l\<rparr>" nx xs d]
    by (cases "xs = []") (simp_all add: s spin_state_rep_def spin_queue_add_def Let_def queue_rep_head)
qed

lemma spin_queue_remove_rep:
  assumes "spin_state_rep s xs"
  shows "\<exists>s'. spin_queue_remove s = Some ((if xs = [] then NULL else hd xs), s') \<and> spin_state_rep s' (tl xs)"
proof -
  obtain q nx c where s: "s = (q, nx, c)" by (cases s)
  then have r: "queue_rep q nx xs" "clh_ready (spinlock q) c"
    using assms(1) by (auto simp: spin_state_rep_def)
  from clh_section[OF r(2)] obtain l c' c''
    where "clh_lock_acquire (spinlock q) c = Some (l, c')" "clh_lock_release c' = Some c''" "clh_ready l c''" .
  then show ?thesis
    using r(1) queue_rep_remove[of "q\<lparr>spinlock := l\<rparr>" nx "hd xs" "tl xs"]
    by (cases xs) (auto simp add: s spin_state_rep_def spin_queue_remove_def Let_def queue_rep_head)
qed

interpretation spin_fifo: fifo_queue spin_state_rep spin_queue_add spin_queue_remove spin_queue_size
proof (unfold_locales, goal_cases)
  case 1
  then show ?case by (rule spin_queue_add_rep)
next
  case (2 s)
  then show ?case using spin_queue_remove_rep[of s "[]"] by simp
next
  case (3 s x xs)
  then show ?case using spin_queue_remove_rep[of s "x # xs"] by simp
next
  case 4
  then show ?case by (auto simp: spin_state_rep_def spin_queue_size_def queue_rep_def)
qed

lemma generic_spin_queue_eqs:
  "generic_spin_queue_add = spin_queue_add" "generic_spin_queue_remove = spin_queue_remove"
  "generic_spin_queue_remove_all = spin_queue_remove_all" "generic_spin_queue_size = spin_queue_size"
  by (rule ext, simp add: generic_spin_queue_add_def spin_queue_add_def)
    (simp_all add: generic_spin_queue_remove_def spin_queue_remove_def generic_spin_queue_size_def
      spin_queue_size_def generic_spin_queue_remove_all_def spin_queue_remove_all_def)

interpretation generic_spin_fifo: fifo_queue spin_state_rep
    generic_spin_queue_add generic_spin_queue_remove generic_spin_queue_size
  unfolding generic_spin_queue_eqs by (rule spin_fifo.fifo_queue_axioms)

text \<open>Detaching a whole queue hands over the chain of its nodes.\<close>

lemma queue_remove_all_rep:
  "queue_rep q nx xs \<Longrightarrow> queue_remove_all (q, nx) = (h, q', nx') \<Longrightarrow>
     linked nx' h xs \<and> nx' = nx \<and> queue_rep q' nx' []"
  by (auto simp: queue_remove_all_def queue_rep_def)

lemma spin_queue_remove_all_rep:
  assumes "spin_state_rep (q, nx, c) xs"
  shows "\<exists>h q' c'. spin_queue_remove_all (q, nx, c) = Some (h, q', nx, c') \<and> linked nx h xs
     \<and> spin_state_rep (q', nx, c') []"
proof -
  have r: "queue_rep q nx xs" "clh_ready (spinlock q) c"
    using assms(1) by (auto simp: spin_state_rep_def)
  from clh_section[OF r(2)] obtain l c' c''
    where "clh_lock_acquire (spinlock q) c = Some (l, c')" "clh_lock_release c' = Some c''" "clh_ready l c''" .
  then show ?thesis using r(1) by (auto simp: spin_queue_remove_all_def spin_state_rep_def queue_rep_def)
qed

lemma spin_queue_init_rep:
  assumes "spin_queue_init fresh c = (q, c')" "fresh \<noteq> NULL" "fresh \<noteq> my_node c" "cur_tcb c \<noteq> NULL"
    "my_node c \<noteq> NULL" "my_pred c = NULL" "\<not> locked (clh_nodes c (my_node c))"
  shows "spin_state_rep (q, nx, c') []"
  using assms clh_init_ready[OF _ assms(2-7)]
  by (auto simp: spin_queue_init_def spin_state_rep_def queue_rep_def split: prod.splits)


section \<open>The sleep queue\<close>

definition sleep_rep :: "sleep_queue \<times> next_map \<Rightarrow> addr list \<Rightarrow> bool" where
  "sleep_rep = (\<lambda>(q, nx) xs. linked nx (sleep_head q) xs \<and> sleep_size q = of_nat (length xs))"

abbreviation head_of :: "addr list \<Rightarrow> addr" where
  "head_of xs \<equiv> (case xs of [] \<Rightarrow> NULL | x # _ \<Rightarrow> x)"

lemma sleep_queue_find_linked:
  "linked nx current ys \<Longrightarrow> sleep_queue_find wk nx w previous current =
     Some (last (previous # takeWhile (\<lambda>x. wk x \<le> w) ys), head_of (dropWhile (\<lambda>x. wk x \<le> w) ys))"
proof (induction ys arbitrary: previous current)
  case Nil
  then show ?case by (subst sleep_queue_find.simps) simp
next
  case (Cons y ys)
  then show ?case by (subst sleep_queue_find.simps) auto
qed

lemma linked_insert:
  assumes "linked nx p (as @ bs)" "as \<noteq> []" "d \<noteq> NULL" "d \<notin> set (as @ bs)"
  shows "linked (nx(last as := d, d := head_of bs)) p (as @ d # bs)"
proof -
  obtain cs t where as: "as = cs @ [t]" using assms(2) by (metis rev_exhaust)
  have dist: "distinct (cs @ [t] @ bs)" using assms(1) linked_distinct as by fastforce
  have "linked nx (head_of bs) bs \<and> head_of bs = nx t"
    using assms(1) as linked_head[of nx "nx t" bs] by (auto simp: lseg_append)
  then show ?thesis using assms as dist by (auto simp: lseg_append)
qed

lemma sleep_queue_add_linked:
  assumes rep: "sleep_rep s xs" and d: "d \<noteq> NULL" "d \<notin> set xs"
  shows "\<exists>s'. sleep_queue_add wk d s = Some s' \<and>
     sleep_rep s' (takeWhile (\<lambda>x. wk x \<le> wk d) xs @ d # dropWhile (\<lambda>x. wk x \<le> wk d) xs)"
proof -
  let ?T = "takeWhile (\<lambda>x. wk x \<le> wk d) xs" and ?D = "dropWhile (\<lambda>x. wk x \<le> wk d) xs"
  obtain q nx where s: "s = (q, nx)" by (cases s)
  let ?nx = "nx(d := NULL)"
  have l: "linked ?nx (sleep_head q) xs" and sz: "sleep_size q = of_nat (length xs)"
    using rep d s by (auto simp: sleep_rep_def)
  have f: "sleep_queue_find wk ?nx (wk d) NULL (sleep_head q) = Some (last (NULL # ?T), head_of ?D)"
    by (rule sleep_queue_find_linked[OF l])
  have "length ?T + length ?D = length xs" by (metis length_append takeWhile_dropWhile_id)
  then have "length (?T @ d # ?D) = Suc (length xs)" by simp
  then have len: "of_nat (length (?T @ d # ?D)) = sleep_size q + 1" unfolding sz by simp
  show ?thesis
  proof (cases "?T = []")
    case True
    then have D: "?D = xs" by (metis append_Nil takeWhile_dropWhile_id)
    have "linked (?nx(d := sleep_head q)) d (d # xs)" using l d by simp
    moreover have "xs = []" if "sleep_head q = NULL" using l that by simp
    ultimately show ?thesis using f len unfolding D True
      by (cases "sleep_head q = NULL") (simp_all add: s sleep_queue_add_def sleep_rep_def)
  next
    case False
    have n: "NULL \<notin> set xs" using l lseg_nonnull by blast
    have "last ?T \<in> set xs" using False by (meson last_in_set set_takeWhileD)
    then have "last ?T \<noteq> NULL" using n by metis
    moreover have "linked (?nx(last ?T := d, d := head_of ?D)) (sleep_head q) (?T @ d # ?D)"
      using linked_insert[of ?nx "sleep_head q" ?T ?D d] l False d by simp
    moreover have "sleep_head q \<noteq> NULL" using l False by (cases xs) auto
    ultimately show ?thesis using False f len
      by (simp add: s sleep_queue_add_def sleep_rep_def)
  qed
qed

lemma sorted_takeWhile_le:
  "sorted (map k xs) \<Longrightarrow> takeWhile (\<lambda>x. k x \<le> (w :: 'a::linorder)) xs = filter (\<lambda>x. k x \<le> w) xs
     \<and> dropWhile (\<lambda>x. k x \<le> w) xs = filter (\<lambda>x. w < k x) xs"
proof (induction xs)
  case (Cons x xs)
  show ?case
  proof (cases "k x \<le> w")
    case False
    then have "\<forall>y \<in> set xs. w < k y" using Cons.prems by fastforce
    then show ?thesis using False by (auto simp: filter_empty_conv not_le)
  qed (use Cons in \<open>auto simp: not_le\<close>)
qed simp

text \<open>C5.  Adding a sleeper to a queue ordered by deadline puts it behind every sleeper
  whose deadline is not later and before all others: the order by deadline is kept,
  sleepers with equal deadlines stay in arrival order, and nobody is lost.\<close>

theorem sleep_queue_add_ordered:
  assumes "sleep_rep s xs" "sorted (map wk xs)" "d \<noteq> NULL" "d \<notin> set xs"
  shows "\<exists>s' ys. sleep_queue_add wk d s = Some s' \<and> sleep_rep s' ys \<and> sorted (map wk ys)
     \<and> ys = filter (\<lambda>x. wk x \<le> wk d) xs @ d # filter (\<lambda>x. wk d < wk x) xs"
proof -
  let ?ys = "filter (\<lambda>x. wk x \<le> wk d) xs @ d # filter (\<lambda>x. wk d < wk x) xs"
  have "sorted (map wk ?ys)" using assms(2)
    by (auto simp: sorted_append sorted_filter intro: order.trans less_imp_le)
  moreover have "\<exists>s'. sleep_queue_add wk d s = Some s' \<and> sleep_rep s' ?ys"
    using sleep_queue_add_linked[OF assms(1,3,4), of wk] sorted_takeWhile_le[OF assms(2), of "wk d"] by simp
  ultimately show ?thesis by blast
qed

text \<open>C6.  Removing at time \<open>now\<close> takes the head when its deadline has passed and changes
  nothing otherwise; in an ordered queue the second case means that no sleeper is due.\<close>

theorem sleep_queue_remove_at_due:
  assumes "sleep_rep s xs" "sorted (map wk xs)" "sleep_queue_remove_at wk now s = (t, s')"
  shows "if \<exists>x \<in> set xs. wk x \<le> now
    then xs \<noteq> [] \<and> t = hd xs \<and> sleep_rep s' (tl xs) \<and> snd s' t = NULL
    else t = NULL \<and> s' = s"
proof (cases xs)
  case Nil
  then show ?thesis using assms by (auto simp: sleep_rep_def sleep_queue_remove_at_def)
next
  case (Cons x ys)
  then have ex: "(\<exists>y \<in> set xs. wk y \<le> now) \<longleftrightarrow> wk x \<le> now" using assms(2) by fastforce
  show ?thesis unfolding ex using assms(1,3) Cons linked_tl[of "snd s" _ x ys]
    by (auto simp: sleep_rep_def sleep_queue_remove_at_def Let_def split: if_splits prod.splits)
qed

text \<open>Sleepers 1 and 2 with deadlines 10 and 20; node 3 has deadline 10 as well.\<close>

definition two_sleepers :: "sleep_queue \<times> next_map" where
  "two_sleepers = (\<lparr>sleep_head = 1, sleep_size = 2\<rparr>, (\<lambda>_. NULL)(1 := 2))"

definition sleeper_deadline :: wakeup_map where
  "sleeper_deadline x = (if x = 2 then 20 else 10)"

lemma two_sleepers_rep:
  "sleep_rep two_sleepers [1, 2]" "sorted (map sleeper_deadline [1, 2])"
  by code_simp+

theorem sleep_queue_add_ordered_witness:
  "\<exists>s'. sleep_queue_add sleeper_deadline 3 two_sleepers = Some s' \<and> sleep_rep s' [1, 3, 2]"
proof -
  have "(3 :: addr) \<noteq> NULL" "(3 :: addr) \<notin> set [1, 2]" by code_simp+
  from sleep_queue_add_ordered[OF two_sleepers_rep this] show ?thesis
    by (auto simp: sleeper_deadline_def)
qed

theorem sleep_queue_remove_at_due_witness:
  "\<exists>s'. sleep_queue_remove_at sleeper_deadline 10 two_sleepers = (1, s') \<and> sleep_rep s' [2]"
proof -
  obtain t s' where r: "sleep_queue_remove_at sleeper_deadline 10 two_sleepers = (t, s')"
    by (metis surj_pair)
  have "\<exists>x \<in> set [1, 2]. sleeper_deadline x \<le> 10" by code_simp
  with sleep_queue_remove_at_due[OF two_sleepers_rep r] show ?thesis using r by auto
qed

text \<open>C4.  A spin queue is first-in first-out: nodes added to an empty queue come out in
  the order they went in, the size counts them on the way, and once they are out the
  queue reports that it is empty.  No operation panics or blocks on a free lock.\<close>

theorem spin_queue_first_in_first_out:
  assumes "spin_state_rep s []" "distinct ds" "NULL \<notin> set ds"
  shows "\<exists>s1 s2. add_all spin_queue_add ds s = Some s1 \<and> spin_queue_size s1 = of_nat (length ds)
     \<and> take_out spin_queue_remove (length ds) s1 = Some (ds, s2) \<and> spin_queue_size s2 = 0
     \<and> (\<exists>s3. spin_queue_remove s2 = Some (NULL, s3))"
  using assms by (rule spin_fifo.first_in_first_out)

definition fresh_spin_queue :: spin_state where
  "fresh_spin_queue =
     (let (q, c) = spin_queue_init 9 \<lparr>imr = 1, cur_tcb = 4, can_preempt = True, my_node = 8,
            my_pred = NULL, clh_nodes = (\<lambda>_. \<lparr>locked = False, interrupt_state = 0\<rparr>)\<rparr>
      in (q, (\<lambda>_. NULL), c))"

theorem spin_queue_first_in_first_out_witness:
  "\<exists>s1 s2. add_all spin_queue_add [5, 7, 6] fresh_spin_queue = Some s1
     \<and> take_out spin_queue_remove 3 s1 = Some ([5, 7, 6], s2)"
proof -
  have "spin_state_rep fresh_spin_queue []" "distinct [5, 7, 6 :: addr]" "NULL \<notin> set [5, 7, 6]"
    by code_simp+
  moreover have l: "length [5, 7, 6 :: addr] = 3" by simp
  ultimately show ?thesis using spin_queue_first_in_first_out unfolding l[symmetric] by blast
qed

text \<open>The unlocked queue and the generic queue append at the tail; no link of a node
  outside the queue is touched.\<close>

theorem queue_add_refines:
  assumes "queue_rep q nx xs" "d \<noteq> NULL" "d \<notin> set xs"
  shows "\<exists>q' nx'. queue_add d (q, nx) = Some (q', nx') \<and> generic_queue_add d (q, nx) = Some (q', nx')
    \<and> queue_rep q' nx' (xs @ [d]) \<and> (\<forall>y. y \<noteq> d \<and> y \<notin> set xs \<longrightarrow> nx' y = nx y)"
proof (cases "xs = []")
  case True
  then show ?thesis using assms queue_rep_add_empty[of q nx d]
    by (simp add: queue_add_def generic_queue_add_eq queue_rep_head)
next
  case False
  then have "q_tail q \<in> set xs" using assms by (simp add: queue_rep_def)
  then show ?thesis using False assms queue_rep_add_more[of q nx xs d]
    by (auto simp: queue_add_def generic_queue_add_eq queue_rep_head)
qed

text \<open>Both queues give back their oldest node, or the null pointer when they are
  empty.  A node that leaves has its link cleared, and no link of a node outside the
  queue is touched.\<close>

theorem queue_remove_refines:
  assumes "queue_rep q nx xs"
  shows "\<exists>x q' nx'. queue_remove (q, nx) = Some (x, q', nx')
    \<and> generic_queue_remove (q, nx) = Some (x, q', nx')
    \<and> x = head_of xs \<and> queue_rep q' nx' (tl xs) \<and> (xs \<noteq> [] \<longrightarrow> nx' x = NULL)
    \<and> (\<forall>y. y \<notin> set xs \<longrightarrow> nx' y = nx y)"
proof (cases xs)
  case Nil
  then show ?thesis using assms
    by (simp add: queue_remove_def generic_queue_remove_eq queue_rep_head)
next
  case (Cons x ys)
  then show ?thesis using queue_rep_remove[of q nx x ys] assms
    by (auto simp: queue_remove_def generic_queue_remove_eq Let_def)
qed

definition two_waiters :: "queue \<times> next_map" where
  "two_waiters = (\<lparr>q_head = 1, q_tail = 2, q_size = 2\<rparr>, (\<lambda>_. NULL)(1 := 2))"

lemma two_waiters_rep: "queue_rep (fst two_waiters) (snd two_waiters) [1, 2]"
  by code_simp

theorem queue_add_refines_witness:
  "\<exists>q nx. queue_add 3 two_waiters = Some (q, nx) \<and> queue_rep q nx [1, 2, 3]"
proof -
  have "(3 :: addr) \<noteq> NULL" "(3 :: addr) \<notin> set [1, 2]" by code_simp+
  from queue_add_refines[OF two_waiters_rep this] show ?thesis by auto
qed

theorem queue_remove_refines_witness:
  "\<exists>q nx. queue_remove two_waiters = Some (1, q, nx) \<and> queue_rep q nx [2]"
  using queue_remove_refines[OF two_waiters_rep] by auto

end
