(* ===== verification/Ring_Buffers.thy ===== *)
theory Ring_Buffers
  imports Prelude
begin

text \<open>
  The array-backed buffers of \<open>kernel/queue.c\<close>: \<open>RingBuf\<close>, a bounded deque that keeps
  one slot empty, and \<open>KeyBuf\<close>, the 64-slot key queue.  Both are proved to implement
  bounded lists; the index arithmetic is the 32-bit arithmetic of the source.
\<close>

section \<open>\<open>RingBuf\<close>\<close>

record ring_buf =
  rb_buf :: "addr list"
  rb_capacity :: u32
  rb_head :: u32
  rb_tail :: u32

text \<open>Array accesses outside the allocation and a remainder by zero are faults.\<close>

definition slot_read :: "'a list \<Rightarrow> u32 \<Rightarrow> 'a option" where
  "slot_read b i = (if unat i < length b then Some (b ! unat i) else None)"

definition slot_write :: "'a list \<Rightarrow> u32 \<Rightarrow> 'a \<Rightarrow> 'a list option" where
  "slot_write b i v = (if unat i < length b then Some (b[unat i := v]) else None)"

text \<open>\<open>slots\<close> is the memory that \<open>malloc(capacity * sizeof(void*))\<close> returned.\<close>

definition ringbuf_init :: "addr list \<Rightarrow> u32 \<Rightarrow> ring_buf" where
  "ringbuf_init slots capacity =
     \<lparr>rb_buf = slots, rb_capacity = capacity, rb_head = 0, rb_tail = 0\<rparr>"

definition ringbuf_add_front :: "addr \<Rightarrow> ring_buf \<Rightarrow> (bool \<times> ring_buf) option" where
  "ringbuf_add_front p rb = do {
     kassert (rb_capacity rb \<noteq> 0);
     if (rb_head rb + 1) mod rb_capacity rb = rb_tail rb then Some (False, rb)
     else do {
       b \<leftarrow> slot_write (rb_buf rb) (rb_head rb) p;
       Some (True, rb\<lparr>rb_buf := b, rb_head := (rb_head rb + 1) mod rb_capacity rb\<rparr>)
     }
   }"

definition ringbuf_add_back :: "addr \<Rightarrow> ring_buf \<Rightarrow> (bool \<times> ring_buf) option" where
  "ringbuf_add_back p rb = do {
     kassert (rb_capacity rb \<noteq> 0);
     if (rb_head rb + 1) mod rb_capacity rb = rb_tail rb then Some (False, rb)
     else do {
       let rb = rb\<lparr>rb_tail := (rb_tail rb - 1 + rb_capacity rb) mod rb_capacity rb\<rparr>;
       b \<leftarrow> slot_write (rb_buf rb) (rb_tail rb) p;
       Some (True, rb\<lparr>rb_buf := b\<rparr>)
     }
   }"

definition ringbuf_remove_front :: "ring_buf \<Rightarrow> (addr \<times> ring_buf) option" where
  "ringbuf_remove_front rb =
     (if rb_head rb = rb_tail rb then Some (NULL, rb)
      else do {
        kassert (rb_capacity rb \<noteq> 0);
        let rb = rb\<lparr>rb_head := (rb_head rb - 1 + rb_capacity rb) mod rb_capacity rb\<rparr>;
        c \<leftarrow> slot_read (rb_buf rb) (rb_head rb);
        Some (c, rb)
      })"

definition ringbuf_remove_back :: "ring_buf \<Rightarrow> (addr \<times> ring_buf) option" where
  "ringbuf_remove_back rb =
     (if rb_head rb = rb_tail rb then Some (NULL, rb)
      else do {
        c \<leftarrow> slot_read (rb_buf rb) (rb_tail rb);
        kassert (rb_capacity rb \<noteq> 0);
        Some (c, rb\<lparr>rb_tail := (rb_tail rb + 1) mod rb_capacity rb\<rparr>)
      })"

definition ringbuf_size :: "ring_buf \<Rightarrow> u32" where
  "ringbuf_size rb =
     (if rb_head rb \<ge> rb_tail rb then rb_head rb - rb_tail rb
      else rb_capacity rb - (rb_tail rb - rb_head rb))"

definition ringbuf_destroy :: "ring_buf \<Rightarrow> ring_buf" where
  "ringbuf_destroy rb = rb\<lparr>rb_buf := [], rb_capacity := 0, rb_head := 0, rb_tail := 0\<rparr>"


section \<open>\<open>KeyBuf\<close>\<close>

definition KEYBUF_CAPACITY :: u32 where
  "KEYBUF_CAPACITY = 64"

record key_buf =
  kb_buf :: "u16 list"
  kb_head :: u32
  kb_tail :: u32

definition keybuf_init :: key_buf where
  "keybuf_init = \<lparr>kb_buf = replicate (unat KEYBUF_CAPACITY) 0, kb_head = 0, kb_tail = 0\<rparr>"

definition keybuf_add :: "u16 \<Rightarrow> key_buf \<Rightarrow> (bool \<times> key_buf) option" where
  "keybuf_add p kb =
     (if (kb_head kb + 1) mod KEYBUF_CAPACITY = kb_tail kb then Some (False, kb)
      else if p = 0 then Some (True, kb)
      else do {
        b \<leftarrow> slot_write (kb_buf kb) (kb_head kb) p;
        Some (True, kb\<lparr>kb_buf := b, kb_head := (kb_head kb + 1) mod KEYBUF_CAPACITY\<rparr>)
      })"

definition keybuf_remove :: "key_buf \<Rightarrow> (u16 \<times> key_buf) option" where
  "keybuf_remove kb =
     (if kb_head kb = kb_tail kb then Some (0, kb)
      else do {
        key \<leftarrow> slot_read (kb_buf kb) (kb_tail kb);
        Some (key, kb\<lparr>kb_tail := (kb_tail kb + 1) mod KEYBUF_CAPACITY\<rparr>)
      })"

definition keybuf_size :: "key_buf \<Rightarrow> u32" where
  "keybuf_size kb =
     (if kb_head kb \<ge> kb_tail kb then kb_head kb - kb_tail kb
      else KEYBUF_CAPACITY - (kb_tail kb - kb_head kb))"


section \<open>What a ring represents\<close>

text \<open>\<open>ring_rep b c h t xs\<close>: read from the tail towards the head, the ring of \<open>c\<close> slots
  holds \<open>xs\<close>.\<close>

definition ring_rep :: "'a list \<Rightarrow> nat \<Rightarrow> nat \<Rightarrow> nat \<Rightarrow> 'a list \<Rightarrow> bool" where
  "ring_rep b c h t xs \<longleftrightarrow> c \<le> length b \<and> t < c \<and> length xs < c \<and> h = (t + length xs) mod c
     \<and> (\<forall>i < length xs. b ! ((t + i) mod c) = xs ! i)"

definition ringbuf_rep :: "ring_buf \<Rightarrow> addr list \<Rightarrow> bool" where
  "ringbuf_rep rb xs \<longleftrightarrow> unat (rb_capacity rb) \<le> 2 ^ 30 \<and>
     ring_rep (rb_buf rb) (unat (rb_capacity rb)) (unat (rb_head rb)) (unat (rb_tail rb)) xs"

definition keybuf_rep :: "key_buf \<Rightarrow> u16 list \<Rightarrow> bool" where
  "keybuf_rep kb xs \<longleftrightarrow> 0 \<notin> set xs \<and>
     ring_rep (kb_buf kb) 64 (unat (kb_head kb)) (unat (kb_tail kb)) xs"

named_theorems ring_simps \<open>index arithmetic of the rings\<close>

lemma mod_add_inj:
  assumes "(t + i) mod c = (t + j) mod (c :: nat)" "i < c" "j < c"
  shows "i = j"
proof -
  have "int i mod int c = int j mod int c"
    using assms(1) by (metis mod_diff_left_eq add_diff_cancel_left' of_nat_add zmod_int)
  then show ?thesis using assms(2,3) by simp
qed

lemma ring_empty: "ring_rep b c h t xs \<Longrightarrow> h = t \<longleftrightarrow> xs = []"
  using mod_add_inj[of t "length xs" c 0] by (auto simp: ring_rep_def)

lemma ring_full: "ring_rep b c h t xs \<Longrightarrow> (h + 1) mod c = t \<longleftrightarrow> length xs = c - 1"
proof -
  assume r: "ring_rep b c h t xs"
  then have eq: "(h + 1) mod c = (t + (length xs + 1)) mod c" by (simp add: ring_rep_def mod_simps)
  show ?thesis
  proof (cases "length xs + 1 < c")
    case True
    then show ?thesis using eq r mod_add_inj[of t "length xs + 1" c 0] by (auto simp: ring_rep_def)
  next
    case False
    then have "length xs + 1 = c" using r by (simp add: ring_rep_def)
    then show ?thesis using eq r by (simp add: ring_rep_def)
  qed
qed

lemma ring_push_front:
  assumes "ring_rep b c h t xs" "length xs \<noteq> c - 1"
  shows "ring_rep (b[h := p]) c ((h + 1) mod c) t (xs @ [p])"
proof -
  have "h < c" using assms by (auto simp: ring_rep_def)
  then have c: "length xs + 1 < c" "h < length b" using assms unfolding ring_rep_def by linarith+
  have "(b[h := p]) ! ((t + i) mod c) = (xs @ [p]) ! i" if "i < length (xs @ [p])" for i
    using that assms c mod_add_inj[of t i c "length xs"] by (auto simp: ring_rep_def nth_append less_Suc_eq nth_list_update)
  then show ?thesis using assms c by (simp add: ring_rep_def mod_simps)
qed

lemma ring_pop_back:
  assumes "ring_rep b c h t (x # xs)"
  shows "b ! t = x \<and> ring_rep b c h ((t + 1) mod c) xs"
proof -
  have "b ! ((t + Suc i) mod c) = xs ! i" if "i < length xs" for i
    using assms that by (auto simp: ring_rep_def)
  then show ?thesis using assms by (force simp: ring_rep_def mod_simps)
qed

lemma ring_push_back:
  assumes "ring_rep b c h t xs" "length xs \<noteq> c - 1"
  defines "u \<equiv> (t + c - 1) mod c"
  shows "ring_rep (b[u := p]) c h u (p # xs)"
proof -
  have c: "length xs + 1 < c" "c \<le> length b" "t < c" using assms by (auto simp: ring_rep_def)
  have u: "u < c" "(u + 1) mod c = t" using c unfolding u_def by (auto simp: mod_simps)
  have sh: "(u + Suc i) mod c = (t + i) mod c" for i using u(2) by (metis add.assoc add.commute mod_add_left_eq plus_1_eq_Suc)
  have "(b[u := p]) ! ((u + i) mod c) = (p # xs) ! i" if "i < length (p # xs)" for i
    using that assms(1) c u sh mod_add_inj[of u i c 0] by (cases i) (auto simp: ring_rep_def nth_list_update)
  then show ?thesis using assms(1) c u sh[of "length xs"] by (simp add: ring_rep_def)
qed

lemma ring_pop_front:
  assumes "ring_rep b c h t xs" "xs \<noteq> []"
  defines "u \<equiv> (h + c - 1) mod c"
  shows "b ! u = last xs \<and> ring_rep b c u t (butlast xs)"
proof -
  obtain ys y where xs: "xs = ys @ [y]" using assms(2) by (metis rev_exhaust)
  have c: "length ys + 1 < c" "c \<le> length b" "t < c" using assms xs by (auto simp: ring_rep_def)
  have h: "h = (t + length ys + 1) mod c" using assms(1) xs by (simp add: ring_rep_def)
  have "u = (h + (c - 1)) mod c" using c unfolding u_def by simp
  also have "\<dots> = (t + length ys + 1 + (c - 1)) mod c" unfolding h by (rule mod_add_left_eq)
  also have "t + length ys + 1 + (c - 1) = t + length ys + c" using c by simp
  finally have "u = (t + length ys) mod c" by simp
  moreover have "b ! ((t + i) mod c) = (ys @ [y]) ! i" if "i < length (ys @ [y])" for i
    using assms(1) that xs by (auto simp: ring_rep_def)
  ultimately show ?thesis using c xs by (fastforce simp: ring_rep_def nth_append)
qed


section \<open>The operations on lists\<close>

lemma unat_inc_mod [ring_simps]:
  "h < c \<Longrightarrow> unat ((h + 1) mod c :: u32) = (unat h + 1) mod unat c"
  by (metis unat_mod unat_plus_one max_word_max leD)

lemma unat_dec_mod [ring_simps]:
  assumes "h < (c :: u32)" "unat c \<le> 2 ^ 30"
  shows "unat ((h - 1 + c) mod c) = (unat h + unat c - 1) mod unat c"
proof -
  have h: "unat h < unat c" using assms(1) by (simp add: word_less_nat_alt)
  have c: "unat (c - 1) = unat c - 1" using assms(1) by (intro unat_minus_one) auto
  have "unat (h + (c - 1)) = unat h + unat (c - 1)"
    by (rule unat_add_lem[THEN iffD1]) (use h c assms(2) in simp)
  moreover have e: "h - 1 + c = h + (c - 1)" by simp
  ultimately have "unat (h - 1 + c) = unat h + unat c - 1" using c h unfolding e by simp
  then show ?thesis by (simp add: unat_mod)
qed

lemma ringbuf_rep_bounds:
  assumes "ringbuf_rep rb xs"
  shows "rb_capacity rb \<noteq> 0" "rb_head rb < rb_capacity rb" "rb_tail rb < rb_capacity rb"
    "unat (rb_capacity rb) \<le> length (rb_buf rb)"
  using assms by (auto simp: ringbuf_rep_def ring_rep_def word_less_nat_alt)

lemma ringbuf_rep_full:
  assumes "ringbuf_rep rb xs"
  shows "(rb_head rb + 1) mod rb_capacity rb = rb_tail rb \<longleftrightarrow> length xs = unat (rb_capacity rb) - 1"
  using ring_full[of "rb_buf rb" "unat (rb_capacity rb)"] assms ringbuf_rep_bounds[OF assms]
  by (simp add: word_unat_eq_iff ring_simps ringbuf_rep_def)

lemma ringbuf_rep_empty:
  "ringbuf_rep rb xs \<Longrightarrow> rb_head rb = rb_tail rb \<longleftrightarrow> xs = []"
  unfolding ringbuf_rep_def word_unat_eq_iff using ring_empty by blast

lemma ring_length:
  assumes "ring_rep b c h t xs"
  shows "length xs = (if t \<le> h then h - t else c - (t - h))"
proof -
  have "t < c" "length xs < c" "h = (t + length xs) mod c" using assms by (auto simp: ring_rep_def)
  then show ?thesis by (cases "t + length xs < c") (auto simp: mod_if)
qed

lemma ringbuf_size_rep:
  assumes "ringbuf_rep rb xs"
  shows "ringbuf_size rb = of_nat (length xs)"
proof -
  note b = ringbuf_rep_bounds[OF assms]
  have "unat (ringbuf_size rb) = length xs"
    using ring_length[of "rb_buf rb" "unat (rb_capacity rb)" "unat (rb_head rb)" "unat (rb_tail rb)" xs] assms b
    by (auto simp: ringbuf_size_def ringbuf_rep_def unat_sub word_le_nat_alt word_less_nat_alt)
  then show ?thesis by (rule word_eq_of_natI)
qed

text \<open>C6.  A ring buffer is a bounded double-ended queue that holds at most
  \<open>capacity - 1\<close> elements: a push at either end fails exactly when it is full and
  otherwise adds the element at that end.\<close>

theorem ringbuf_add_refines:
  assumes "ringbuf_rep rb xs"
  shows "\<exists>rf rk. ringbuf_add_front p rb = Some (length xs < unat (rb_capacity rb) - 1, rf)
    \<and> ringbuf_add_back p rb = Some (length xs < unat (rb_capacity rb) - 1, rk)
    \<and> (if length xs < unat (rb_capacity rb) - 1
        then ringbuf_rep rf (xs @ [p]) \<and> ringbuf_rep rk (p # xs) else rf = rb \<and> rk = rb)"
proof (cases "length xs = unat (rb_capacity rb) - 1")
  case True
  then show ?thesis using ringbuf_rep_full[OF assms] ringbuf_rep_bounds[OF assms]
    by (simp add: ringbuf_add_front_def ringbuf_add_back_def)
next
  case False
  note b = ringbuf_rep_bounds[OF assms]
  have lt: "length xs < unat (rb_capacity rb) - 1" 
    using False assms unfolding ringbuf_rep_def ring_rep_def by linarith
  have i: "unat (rb_head rb) < length (rb_buf rb)"
    "unat ((rb_tail rb - 1 + rb_capacity rb) mod rb_capacity rb) < length (rb_buf rb)"
    using b unat_mod_less[OF b(1,4)] by (auto simp: word_less_nat_alt)
  show ?thesis using assms b i lt False ringbuf_rep_full[OF assms]
      ring_push_front[of "rb_buf rb" "unat (rb_capacity rb)" "unat (rb_head rb)" "unat (rb_tail rb)" xs p]
      ring_push_back[of "rb_buf rb" "unat (rb_capacity rb)" "unat (rb_head rb)" "unat (rb_tail rb)" xs p]
    by (simp add: ringbuf_add_front_def ringbuf_add_back_def slot_write_def ringbuf_rep_def ring_simps)
qed

text \<open>C8.  Popping either end of a ring buffer returns and removes the element at that end,
  or the null pointer when the buffer is empty, and the size is the number of elements.\<close>

theorem ringbuf_remove_refines:
  assumes "ringbuf_rep rb xs"
  shows "\<exists>rf rk. ringbuf_remove_front rb = Some (if xs = [] then NULL else last xs, rf)
    \<and> ringbuf_remove_back rb = Some (if xs = [] then NULL else hd xs, rk)
    \<and> ringbuf_rep rf (butlast xs) \<and> ringbuf_rep rk (tl xs) \<and> ringbuf_size rb = of_nat (length xs)"
proof (cases "xs = []")
  case True
  then show ?thesis using assms ringbuf_rep_empty[OF assms]
    by (simp add: ringbuf_remove_front_def ringbuf_remove_back_def ringbuf_size_def)
next
  case False
  note b = ringbuf_rep_bounds[OF assms] and e = ringbuf_rep_empty[OF assms]
  have i: "unat (rb_tail rb) < length (rb_buf rb)"
    "unat ((rb_head rb - 1 + rb_capacity rb) mod rb_capacity rb) < length (rb_buf rb)"
    using b unat_mod_less[OF b(1,4)] by (auto simp: word_less_nat_alt)
  show ?thesis using assms b e i False ringbuf_size_rep[OF assms]
      ring_pop_front[of "rb_buf rb" "unat (rb_capacity rb)" "unat (rb_head rb)" "unat (rb_tail rb)" xs]
      ring_pop_back[of "rb_buf rb" "unat (rb_capacity rb)" "unat (rb_head rb)" "unat (rb_tail rb)" "hd xs" "tl xs"]
    by (simp add: ringbuf_remove_front_def ringbuf_remove_back_def slot_read_def ringbuf_rep_def ring_simps)
qed


section \<open>The key buffer\<close>

lemma keybuf_rep_init: "keybuf_rep keybuf_init []"
  by (simp add: keybuf_rep_def keybuf_init_def ring_rep_def KEYBUF_CAPACITY_def)

lemma keybuf_rep_bounds:
  assumes "keybuf_rep kb xs"
  shows "kb_head kb < KEYBUF_CAPACITY" "kb_tail kb < KEYBUF_CAPACITY"
    "unat (kb_head kb) < length (kb_buf kb)" "unat (kb_tail kb) < length (kb_buf kb)" "length xs < 64"
proof -
  have "unat (kb_head kb) < 64" using assms by (auto simp: keybuf_rep_def ring_rep_def)
  then show "kb_head kb < KEYBUF_CAPACITY" "kb_tail kb < KEYBUF_CAPACITY"
    "unat (kb_head kb) < length (kb_buf kb)" "unat (kb_tail kb) < length (kb_buf kb)" "length xs < 64"
    using assms by (auto simp: keybuf_rep_def ring_rep_def word_less_nat_alt KEYBUF_CAPACITY_def)
qed

lemma keybuf_cap [simp]: "unat KEYBUF_CAPACITY = 64"
  by (simp add: KEYBUF_CAPACITY_def)

lemma keybuf_rep_full:
  "keybuf_rep kb xs \<Longrightarrow> (kb_head kb + 1) mod KEYBUF_CAPACITY = kb_tail kb \<longleftrightarrow> length xs = 63"
  using ring_full[of "kb_buf kb" 64 "unat (kb_head kb)" "unat (kb_tail kb)" xs] keybuf_rep_bounds(1)[of kb xs]
  by (simp add: word_unat_eq_iff ring_simps keybuf_rep_def)

lemma keybuf_rep_empty: "keybuf_rep kb xs \<Longrightarrow> kb_head kb = kb_tail kb \<longleftrightarrow> xs = []"
  unfolding keybuf_rep_def word_unat_eq_iff using ring_empty by blast

text \<open>The key buffer is a queue of at most 63 keys: a key is refused exactly when 63 are
  waiting, the key 0 is accepted and dropped, and the oldest key comes out first, with 0
  meaning that no key is waiting.\<close>

theorem keybuf_refines:
  assumes "keybuf_rep kb xs"
  shows "\<exists>ka kr. keybuf_add p kb = Some (length xs < 63, ka)
    \<and> keybuf_rep ka (if length xs < 63 \<and> p \<noteq> 0 then xs @ [p] else xs)
    \<and> keybuf_remove kb = Some (case xs of [] \<Rightarrow> 0 | x # _ \<Rightarrow> x, kr) \<and> keybuf_rep kr (tl xs)
    \<and> keybuf_size kb = of_nat (length xs)"
proof -
  note b = keybuf_rep_bounds[OF assms] and f = keybuf_rep_full[OF assms] and e = keybuf_rep_empty[OF assms]
  have r: "ring_rep (kb_buf kb) 64 (unat (kb_head kb)) (unat (kb_tail kb)) xs" "0 \<notin> set xs"
    using assms by (simp_all add: keybuf_rep_def)
  have "\<exists>ka. keybuf_add p kb = Some (length xs < 63, ka)
    \<and> keybuf_rep ka (if length xs < 63 \<and> p \<noteq> 0 then xs @ [p] else xs)"
    using r ring_push_front[OF r(1), of p] b f assms
    by (cases "length xs = 63") (auto simp: keybuf_add_def slot_write_def keybuf_rep_def ring_simps)
  moreover have "\<exists>kr. keybuf_remove kb = Some (case xs of [] \<Rightarrow> 0 | x # _ \<Rightarrow> x, kr) \<and> keybuf_rep kr (tl xs)"
    using r ring_pop_back[of "kb_buf kb" 64 "unat (kb_head kb)" "unat (kb_tail kb)" "hd xs" "tl xs"] b e assms
    by (cases xs) (simp_all add: keybuf_remove_def slot_read_def keybuf_rep_def ring_simps)
  moreover have "keybuf_size kb = of_nat (length xs)"
    using ring_length[OF r(1)] b
    by (intro word_eq_of_natI) (auto simp: keybuf_size_def unat_sub word_le_nat_alt word_less_nat_alt)
  ultimately show ?thesis by blast
qed

text \<open>A ring of four slots that holds 11 and 12, wrapped around the end of the array.\<close>

definition wrapped_ring :: ring_buf where
  "wrapped_ring = \<lparr>rb_buf = [12, 0, 0, 11], rb_capacity = 4, rb_head = 1, rb_tail = 3\<rparr>"

lemma wrapped_ring_rep: "ringbuf_rep wrapped_ring [11, 12]"
  by (auto simp: ringbuf_rep_def ring_rep_def wrapped_ring_def less_Suc_eq)

theorem ringbuf_add_refines_witness:
  "\<exists>rf rk. ringbuf_add_front 13 wrapped_ring = Some (True, rf) \<and> ringbuf_rep rf [11, 12, 13]
     \<and> ringbuf_add_back 10 wrapped_ring = Some (True, rk) \<and> ringbuf_rep rk [10, 11, 12]"
proof -
  have "unat (rb_capacity wrapped_ring) = 4" by code_simp
  then show ?thesis
    using ringbuf_add_refines[OF wrapped_ring_rep, of 13] ringbuf_add_refines[OF wrapped_ring_rep, of 10] by auto
qed

theorem ringbuf_remove_refines_witness:
  "\<exists>rf rk. ringbuf_remove_front wrapped_ring = Some (12, rf) \<and> ringbuf_rep rf [11]
     \<and> ringbuf_remove_back wrapped_ring = Some (11, rk) \<and> ringbuf_rep rk [12]"
  using ringbuf_remove_refines[OF wrapped_ring_rep] by auto

theorem keybuf_refines_witness:
  "\<exists>ka. keybuf_add 65 keybuf_init = Some (True, ka) \<and> keybuf_rep ka [65] \<and> keybuf_size keybuf_init = 0"
  using keybuf_refines[OF keybuf_rep_init, of 65] by auto

end
