(* ===== verification/Hash_Map.thy ===== *)
theory Hash_Map
  imports Prelude
begin

text \<open>
  \<open>kernel/hashmap.c\<close>: a chained hash map from unsigned keys to pointers.  A collision
  chain belongs to its bucket alone, so it is the list of its entries.  The map
  interprets the locale \<open>pointer_map\<close>: a finite map whose operations return the
  previous value.
\<close>

section \<open>Data and operations\<close>

record hash_entry =
  he_key :: u32
  he_value :: addr

record hash_map =
  hm_size :: u32
  hm_arr :: "hash_entry list list"

definition hash_map_init :: "u32 \<Rightarrow> hash_map" where
  "hash_map_init num_buckets = \<lparr>hm_size = num_buckets, hm_arr = replicate (unat num_buckets) []\<rparr>"

definition create_hash_entry :: "u32 \<Rightarrow> addr \<Rightarrow> hash_entry" where
  "create_hash_entry key value = \<lparr>he_key = key, he_value = value\<rparr>"

text \<open>The chain walks start at an entry, so the chain is not empty.\<close>

fun hash_entry_insert :: "hash_entry \<Rightarrow> hash_entry list \<Rightarrow> u32 \<Rightarrow> addr \<Rightarrow> addr \<times> hash_entry list" where
  "hash_entry_insert entry next_entries key value =
     (if he_key entry = key then (he_value entry, entry\<lparr>he_value := value\<rparr> # next_entries)
      else case next_entries of
        [] \<Rightarrow> (NULL, [entry, create_hash_entry key value])
      | e # es \<Rightarrow> let (old, es') = hash_entry_insert e es key value in (old, entry # es'))"

declare hash_entry_insert.simps [simp del]

fun hash_entry_try_insert :: "hash_entry \<Rightarrow> hash_entry list \<Rightarrow> u32 \<Rightarrow> addr \<Rightarrow> addr \<times> hash_entry list" where
  "hash_entry_try_insert entry next_entries key value =
     (if he_key entry = key then (he_value entry, entry # next_entries)
      else case next_entries of
        [] \<Rightarrow> (NULL, [entry, create_hash_entry key value])
      | e # es \<Rightarrow> let (old, es') = hash_entry_try_insert e es key value in (old, entry # es'))"

declare hash_entry_try_insert.simps [simp del]

fun hash_entry_get :: "hash_entry list \<Rightarrow> u32 \<Rightarrow> addr" where
  "hash_entry_get [] key = NULL"
| "hash_entry_get (entry # es) key =
     (if he_key entry = key then he_value entry else hash_entry_get es key)"

fun hash_entry_contains :: "hash_entry list \<Rightarrow> u32 \<Rightarrow> bool" where
  "hash_entry_contains [] key = False"
| "hash_entry_contains (entry # es) key =
     (if he_key entry = key then True else hash_entry_contains es key)"

fun hash_entry_remove :: "hash_entry list \<Rightarrow> u32 \<Rightarrow> addr \<times> hash_entry list" where
  "hash_entry_remove [] key = (NULL, [])"
| "hash_entry_remove (entry # es) key =
     (if he_key entry = key then (he_value entry, es)
      else let (v, es') = hash_entry_remove es key in (v, entry # es'))"

text \<open>\<open>key % hmap->size\<close> faults on a map without buckets.\<close>

definition hash_bucket :: "hash_map \<Rightarrow> u32 \<Rightarrow> nat option" where
  "hash_bucket h key = (if hm_size h = 0 then None else Some (unat (key mod hm_size h)))"

definition hash_map_insert :: "u32 \<Rightarrow> addr \<Rightarrow> hash_map \<Rightarrow> (addr \<times> hash_map) option" where
  "hash_map_insert key value h = do {
     i \<leftarrow> hash_bucket h key;
     Some (case hm_arr h ! i of
         [] \<Rightarrow> (NULL, h\<lparr>hm_arr := (hm_arr h)[i := [create_hash_entry key value]]\<rparr>)
       | e # es \<Rightarrow> let (old, es') = hash_entry_insert e es key value
                   in (old, h\<lparr>hm_arr := (hm_arr h)[i := es']\<rparr>))
   }"

definition hash_map_try_insert :: "u32 \<Rightarrow> addr \<Rightarrow> hash_map \<Rightarrow> (addr \<times> hash_map) option" where
  "hash_map_try_insert key value h = do {
     i \<leftarrow> hash_bucket h key;
     Some (case hm_arr h ! i of
         [] \<Rightarrow> (NULL, h\<lparr>hm_arr := (hm_arr h)[i := [create_hash_entry key value]]\<rparr>)
       | e # es \<Rightarrow> let (old, es') = hash_entry_try_insert e es key value
                   in (old, h\<lparr>hm_arr := (hm_arr h)[i := es']\<rparr>))
   }"

definition hash_map_get :: "u32 \<Rightarrow> hash_map \<Rightarrow> addr option" where
  "hash_map_get key h = do {
     i \<leftarrow> hash_bucket h key;
     Some (if hm_arr h ! i = [] then NULL else hash_entry_get (hm_arr h ! i) key)
   }"

definition hash_map_contains :: "u32 \<Rightarrow> hash_map \<Rightarrow> bool option" where
  "hash_map_contains key h = do {
     i \<leftarrow> hash_bucket h key;
     Some (if hm_arr h ! i = [] then False else hash_entry_contains (hm_arr h ! i) key)
   }"

definition hash_map_remove :: "u32 \<Rightarrow> hash_map \<Rightarrow> (addr \<times> hash_map) option" where
  "hash_map_remove key h = do {
     i \<leftarrow> hash_bucket h key;
     Some (if hm_arr h ! i = [] then (NULL, h)
           else let (v, es) = hash_entry_remove (hm_arr h ! i) key
                in (v, h\<lparr>hm_arr := (hm_arr h)[i := es]\<rparr>))
   }"


section \<open>The interface\<close>

definition value_or_null :: "addr option \<Rightarrow> addr" where
  "value_or_null v = (case v of None \<Rightarrow> NULL | Some a \<Rightarrow> a)"

locale pointer_map =
  fixes invar :: "'m \<Rightarrow> bool"
    and abs :: "'m \<Rightarrow> u32 \<Rightarrow> addr option"
    and insert :: "u32 \<Rightarrow> addr \<Rightarrow> 'm \<Rightarrow> (addr \<times> 'm) option"
    and try_insert :: "u32 \<Rightarrow> addr \<Rightarrow> 'm \<Rightarrow> (addr \<times> 'm) option"
    and get :: "u32 \<Rightarrow> 'm \<Rightarrow> addr option"
    and contains :: "u32 \<Rightarrow> 'm \<Rightarrow> bool option"
    and remove :: "u32 \<Rightarrow> 'm \<Rightarrow> (addr \<times> 'm) option"
  assumes insert_law: "invar m \<Longrightarrow> \<exists>m'. insert k v m = Some (value_or_null (abs m k), m')
      \<and> invar m' \<and> abs m' = (abs m)(k \<mapsto> v)"
    and try_insert_law: "invar m \<Longrightarrow> \<exists>m'. try_insert k v m = Some (value_or_null (abs m k), m')
      \<and> invar m' \<and> abs m' = (if abs m k = None then (abs m)(k \<mapsto> v) else abs m)"
    and get_law: "invar m \<Longrightarrow> get k m = Some (value_or_null (abs m k))"
    and contains_law: "invar m \<Longrightarrow> contains k m = Some (abs m k \<noteq> None)"
    and remove_law: "invar m \<Longrightarrow> \<exists>m'. remove k m = Some (value_or_null (abs m k), m')
      \<and> invar m' \<and> abs m' = (abs m)(k := None)"
begin

lemma get_insert:
  assumes "invar m"
  shows "\<exists>old m'. insert k v m = Some (old, m') \<and> get k m = Some old \<and> invar m'
    \<and> get j m' = (if j = k then Some v else get j m) \<and> contains j m' = (if j = k then Some True else contains j m)"
  using insert_law[OF assms, of k v] by (auto simp: get_law contains_law assms value_or_null_def)

lemma get_remove:
  assumes "invar m"
  shows "\<exists>m'. remove k m = Some (value_or_null (abs m k), m') \<and> invar m'
    \<and> get j m' = (if j = k then Some NULL else get j m) \<and> contains j m' = (if j = k then Some False else contains j m)"
  using remove_law[OF assms, of k] by (auto simp: get_law contains_law assms value_or_null_def)

lemma get_try_insert:
  assumes "invar m"
  shows "\<exists>old m'. try_insert k v m = Some (old, m') \<and> get k m = Some old \<and> invar m'
    \<and> get j m' = (if j = k \<and> contains k m = Some False then Some v else get j m)
    \<and> contains j m' = (if j = k then Some True else contains j m)"
  using try_insert_law[OF assms, of k v] by (auto simp: get_law contains_law assms value_or_null_def)

lemma insert_remove_id:
  assumes "invar m" "contains k m = Some False"
  shows "\<exists>m1 m2. insert k v m = Some (NULL, m1) \<and> remove k m1 = Some (v, m2) \<and> invar m2 \<and> get j m2 = get j m"
proof -
  have n: "abs m k = None" using assms by (simp add: contains_law)
  obtain m1 where m1: "insert k v m = Some (NULL, m1)" "invar m1" "abs m1 = (abs m)(k \<mapsto> v)"
    using insert_law[OF assms(1), of k v] n by (auto simp: value_or_null_def)
  obtain m2 where "remove k m1 = Some (v, m2)" "invar m2" "abs m2 = abs m"
    using remove_law[OF m1(2), of k] m1(3) n by (auto simp: value_or_null_def fun_upd_idem)
  then show ?thesis using m1 assms(1) by (auto simp: get_law)
qed

end


section \<open>The hash map implements the interface\<close>

definition chain_abs :: "hash_entry list \<Rightarrow> u32 \<Rightarrow> addr option" where
  "chain_abs es = map_of (map (\<lambda>e. (he_key e, he_value e)) es)"

definition hash_map_abs :: "hash_map \<Rightarrow> u32 \<Rightarrow> addr option" where
  "hash_map_abs h k = chain_abs (hm_arr h ! unat (k mod hm_size h)) k"

definition hash_map_inv :: "hash_map \<Rightarrow> bool" where
  "hash_map_inv h \<longleftrightarrow> hm_size h \<noteq> 0 \<and> length (hm_arr h) = unat (hm_size h)
     \<and> list_all (\<lambda>es. distinct (map he_key es)) (hm_arr h)
     \<and> list_all (\<lambda>i. list_all (\<lambda>e. unat (he_key e mod hm_size h) = i) (hm_arr h ! i))
         [0..<length (hm_arr h)]"

lemma chain_abs_simps [simp]:
  "chain_abs [] = Map.empty"
  "chain_abs (e # es) = (chain_abs es)(he_key e \<mapsto> he_value e)"
  by (simp_all add: chain_abs_def)

lemma chain_abs_None: "chain_abs es k = None \<longleftrightarrow> k \<notin> he_key ` set es"
  by (induction es) auto

lemma hash_entry_insert_spec:
  "distinct (map he_key (e # es)) \<Longrightarrow> hash_entry_insert e es k v = (old, es') \<Longrightarrow>
     old = value_or_null (chain_abs (e # es) k) \<and> chain_abs es' = (chain_abs (e # es))(k \<mapsto> v)
     \<and> distinct (map he_key es') \<and> he_key ` set es' = Set.insert k (he_key ` set (e # es))"
proof (induction es arbitrary: e old es')
  case Nil
  then show ?case
    by (auto simp: hash_entry_insert.simps[of e] create_hash_entry_def value_or_null_def split: if_splits)
next
  case (Cons f es)
  show ?case
  proof (cases "he_key e = k")
    case True
    then show ?thesis using Cons.prems by (auto simp: hash_entry_insert.simps[of e] value_or_null_def)
  next
    case False
    obtain o2 es2 where r: "hash_entry_insert f es k v = (o2, es2)" by (metis surj_pair)
    then have "old = o2" "es' = e # es2" using False Cons.prems(2)
      by (auto simp: hash_entry_insert.simps[of e])
    then show ?thesis using Cons.IH[OF _ r] Cons.prems(1) False by (auto simp: fun_upd_twist)
  qed
qed

lemma hash_entry_try_insert_spec:
  "distinct (map he_key (e # es)) \<Longrightarrow> hash_entry_try_insert e es k v = (old, es') \<Longrightarrow>
     old = value_or_null (chain_abs (e # es) k)
     \<and> chain_abs es' = (if chain_abs (e # es) k = None then (chain_abs (e # es))(k \<mapsto> v) else chain_abs (e # es))
     \<and> distinct (map he_key es') \<and> he_key ` set es' = Set.insert k (he_key ` set (e # es))"
proof (induction es arbitrary: e old es')
  case Nil
  then show ?case
    by (auto simp: hash_entry_try_insert.simps[of e] create_hash_entry_def value_or_null_def
        fun_upd_twist split: if_splits)
next
  case (Cons f es)
  show ?case
  proof (cases "he_key e = k")
    case True
    then show ?thesis using Cons.prems by (auto simp: hash_entry_try_insert.simps[of e] value_or_null_def)
  next
    case False
    obtain o2 es2 where r: "hash_entry_try_insert f es k v = (o2, es2)" by (metis surj_pair)
    then have "old = o2" "es' = e # es2" using False Cons.prems(2)
      by (auto simp: hash_entry_try_insert.simps[of e])
    then show ?thesis using Cons.IH[OF _ r] Cons.prems(1) False by (auto simp: fun_upd_twist)
  qed
qed

lemma hash_entry_get_spec: "hash_entry_get es k = value_or_null (chain_abs es k)"
  by (induction es) (auto simp: value_or_null_def)

lemma hash_entry_contains_spec: "hash_entry_contains es k \<longleftrightarrow> chain_abs es k \<noteq> None"
  by (induction es) auto

lemma hash_entry_remove_spec:
  "distinct (map he_key es) \<Longrightarrow> hash_entry_remove es k = (v, es') \<Longrightarrow>
     v = value_or_null (chain_abs es k) \<and> chain_abs es' = (chain_abs es)(k := None)
     \<and> distinct (map he_key es') \<and> he_key ` set es' \<subseteq> he_key ` set es"
proof (induction es arbitrary: v es')
  case (Cons e es)
  show ?case
  proof (cases "he_key e = k")
    case True
    then have "chain_abs es k = None" using Cons.prems(1) by (simp add: chain_abs_None)
    then show ?thesis using True Cons.prems by (auto simp: value_or_null_def fun_upd_idem_iff)
  next
    case False
    obtain v2 es2 where r: "hash_entry_remove es k = (v2, es2)" by (metis surj_pair)
    then show ?thesis using Cons.IH[OF _ r] Cons.prems False
      by (auto simp: fun_upd_twist image_subset_iff)
  qed
qed (simp add: value_or_null_def)

lemma hash_map_inv_init: "n \<noteq> 0 \<Longrightarrow> hash_map_inv (hash_map_init n)"
  by (auto simp: hash_map_inv_def hash_map_init_def list_all_iff)

text \<open>Replacing the chain of the bucket of \<open>k\<close> by one that differs from it at \<open>k\<close> only.\<close>

lemma hash_map_update_chain:
  assumes inv: "hash_map_inv h"
    and es: "distinct (map he_key es)" "he_key ` set es \<subseteq> Set.insert k (he_key ` set (hm_arr h ! i))"
    and ca: "chain_abs es = (chain_abs (hm_arr h ! i))(k := v)"
    and i: "i = unat (k mod hm_size h)"
  shows "hash_map_inv (h\<lparr>hm_arr := (hm_arr h)[i := es]\<rparr>)
    \<and> hash_map_abs (h\<lparr>hm_arr := (hm_arr h)[i := es]\<rparr>) = (hash_map_abs h)(k := v)"
proof -
  have il: "i < length (hm_arr h)" using inv unat_mod_less[of "hm_size h" "length (hm_arr h)" k]
    by (simp add: hash_map_inv_def i)
  have keys: "\<forall>e \<in> set (hm_arr h ! i). unat (he_key e mod hm_size h) = i"
    using inv il by (auto simp: hash_map_inv_def list_all_iff)
  have "unat (he_key e mod hm_size h) = i" if "e \<in> set es" for e
  proof -
    have "he_key e = k \<or> he_key e \<in> he_key ` set (hm_arr h ! i)" using es(2) that by blast
    then show ?thesis using keys i by auto
  qed
  then have "hash_map_inv (h\<lparr>hm_arr := (hm_arr h)[i := es]\<rparr>)"
    using inv es(1) il unfolding hash_map_inv_def list_all_iff
    by (auto simp: nth_list_update dest!: set_update_subset_insert[THEN subsetD])
  moreover have "hash_map_abs (h\<lparr>hm_arr := (hm_arr h)[i := es]\<rparr>) j = ((hash_map_abs h)(k := v)) j" for j
    using ca il by (cases "unat (j mod hm_size h) = i") (auto simp: hash_map_abs_def i nth_list_update)
  ultimately show ?thesis by blast
qed

lemma hash_map_chain:
  assumes "hash_map_inv h"
  shows "hash_bucket h k = Some (unat (k mod hm_size h))"
    and "distinct (map he_key (hm_arr h ! unat (k mod hm_size h)))"
proof -
  show "hash_bucket h k = Some (unat (k mod hm_size h))"
    using assms by (simp add: hash_bucket_def hash_map_inv_def)
  have "hm_arr h ! unat (k mod hm_size h) \<in> set (hm_arr h)"
    using assms unat_mod_less[of "hm_size h" "length (hm_arr h)" k] by (simp add: hash_map_inv_def)
  then show "distinct (map he_key (hm_arr h ! unat (k mod hm_size h)))"
    using assms by (auto simp: hash_map_inv_def list_all_iff)
qed

lemma hash_map_insert_spec:
  assumes "hash_map_inv h"
  shows "\<exists>h'. hash_map_insert k v h = Some (value_or_null (hash_map_abs h k), h')
    \<and> hash_map_inv h' \<and> hash_map_abs h' = (hash_map_abs h)(k \<mapsto> v)"
proof -
  let ?i = "unat (k mod hm_size h)"
  obtain old es where r: "(case hm_arr h ! ?i of [] \<Rightarrow> (NULL, [create_hash_entry k v])
      | e # es \<Rightarrow> hash_entry_insert e es k v) = (old, es)" by (metis surj_pair)
  have "old = value_or_null (chain_abs (hm_arr h ! ?i) k) \<and> chain_abs es = (chain_abs (hm_arr h ! ?i))(k \<mapsto> v)
     \<and> distinct (map he_key es) \<and> he_key ` set es \<subseteq> Set.insert k (he_key ` set (hm_arr h ! ?i))"
  proof (cases "hm_arr h ! ?i")
    case Nil
    then show ?thesis using r by (auto simp: create_hash_entry_def value_or_null_def)
  next
    case (Cons e es0)
    then have "hash_entry_insert e es0 k v = (old, es)" "distinct (map he_key (e # es0))"
      using r hash_map_chain(2)[OF assms, of k] by simp_all
    then show ?thesis using hash_entry_insert_spec[of e es0 k v old es] Cons by auto
  qed
  then show ?thesis
    using hash_map_update_chain[OF assms, of es k ?i "Some v"] r hash_map_chain(1)[OF assms, of k]
    by (auto simp: hash_map_insert_def hash_map_abs_def split: list.splits prod.splits)
qed

lemma hash_map_try_insert_spec:
  assumes "hash_map_inv h"
  shows "\<exists>h'. hash_map_try_insert k v h = Some (value_or_null (hash_map_abs h k), h')
    \<and> hash_map_inv h' \<and> hash_map_abs h' =
        (if hash_map_abs h k = None then (hash_map_abs h)(k \<mapsto> v) else hash_map_abs h)"
proof -
  let ?i = "unat (k mod hm_size h)" and ?v = "if hash_map_abs h k = None then Some v else hash_map_abs h k"
  obtain old es where r: "(case hm_arr h ! ?i of [] \<Rightarrow> (NULL, [create_hash_entry k v])
      | e # es \<Rightarrow> hash_entry_try_insert e es k v) = (old, es)" by (metis surj_pair)
  have "old = value_or_null (chain_abs (hm_arr h ! ?i) k) \<and> chain_abs es = (chain_abs (hm_arr h ! ?i))(k := ?v)
     \<and> distinct (map he_key es) \<and> he_key ` set es \<subseteq> Set.insert k (he_key ` set (hm_arr h ! ?i))"
  proof (cases "hm_arr h ! ?i")
    case Nil
    then show ?thesis using r by (auto simp: create_hash_entry_def value_or_null_def hash_map_abs_def)
  next
    case (Cons e es0)
    then have "hash_entry_try_insert e es0 k v = (old, es)" "distinct (map he_key (e # es0))"
      using r hash_map_chain(2)[OF assms, of k] by simp_all
    then show ?thesis using hash_entry_try_insert_spec[of e es0 k v old es]
      by (auto simp: Cons hash_map_abs_def fun_upd_idem)
  qed
  then show ?thesis
    using hash_map_update_chain[OF assms, of es k ?i ?v] r hash_map_chain(1)[OF assms, of k]
    by (auto simp: hash_map_try_insert_def hash_map_abs_def fun_upd_idem split: list.splits prod.splits)
qed

lemma hash_map_remove_spec:
  assumes "hash_map_inv h"
  shows "\<exists>h'. hash_map_remove k h = Some (value_or_null (hash_map_abs h k), h')
    \<and> hash_map_inv h' \<and> hash_map_abs h' = (hash_map_abs h)(k := None)"
proof -
  let ?i = "unat (k mod hm_size h)"
  obtain v es where r: "hash_entry_remove (hm_arr h ! ?i) k = (v, es)" by (metis surj_pair)
  note spec = hash_entry_remove_spec[OF hash_map_chain(2)[OF assms] r]
  show ?thesis
  proof (cases "hm_arr h ! ?i = []")
    case True
    then show ?thesis using assms hash_map_chain(1)[OF assms, of k]
      by (auto simp: hash_map_remove_def hash_map_abs_def value_or_null_def fun_upd_idem)
  next
    case False
    then show ?thesis
      using hash_map_update_chain[OF assms, of es k ?i None] r spec hash_map_chain(1)[OF assms, of k]
      by (auto simp: hash_map_remove_def hash_map_abs_def)
  qed
qed

interpretation hmap: pointer_map hash_map_inv hash_map_abs hash_map_insert hash_map_try_insert
    hash_map_get hash_map_contains hash_map_remove
proof (unfold_locales, goal_cases)
  case (3 m k)
  then show ?case using hash_map_chain(1)[of m k]
    by (auto simp: hash_map_get_def hash_map_abs_def hash_entry_get_spec value_or_null_def)
next
  case (4 m k)
  then show ?case using hash_map_chain(1)[of m k]
    by (auto simp: hash_map_contains_def hash_map_abs_def hash_entry_contains_spec)
qed (rule hash_map_insert_spec hash_map_try_insert_spec hash_map_remove_spec; assumption)+


text \<open>C7.  An insert returns the value that the key had before, NULL when it had none; afterwards a lookup
  finds the new value under that key and every other key as before.  A conditional insert returns the
  value that the key had before, stores the new one only when the key was absent, and changes no other key.\<close>

theorem hash_map_insert_lookup:
  assumes "hash_map_inv h"
  shows "(\<exists>old h'. hash_map_insert k v h = Some (old, h') \<and> hash_map_get k h = Some old \<and> hash_map_inv h'
      \<and> hash_map_get j h' = (if j = k then Some v else hash_map_get j h)
      \<and> hash_map_contains j h' = (if j = k then Some True else hash_map_contains j h))
    \<and> (\<exists>old h'. hash_map_try_insert k v h = Some (old, h') \<and> hash_map_get k h = Some old \<and> hash_map_inv h'
      \<and> hash_map_get j h' = (if j = k \<and> hash_map_contains k h = Some False then Some v else hash_map_get j h)
      \<and> hash_map_contains j h' = (if j = k then Some True else hash_map_contains j h))
    \<and> (hash_map_contains k h = Some False \<longrightarrow> hash_map_get k h = Some NULL)"
  using hmap.get_insert[OF assms, of k v j] hmap.get_try_insert[OF assms, of k v j] hmap.get_law[OF assms, of k]
    hmap.contains_law[OF assms, of k] by (auto simp: value_or_null_def)

text \<open>Removing a key returns its value and deletes exactly that key, and removing a
  freshly inserted key gives back what was inserted and the lookups of before.\<close>

theorem hash_map_remove_lookup:
  assumes "hash_map_inv h"
  shows "(\<exists>old h'. hash_map_remove k h = Some (old, h') \<and> hash_map_get k h = Some old \<and> hash_map_inv h'
      \<and> hash_map_get j h' = (if j = k then Some NULL else hash_map_get j h)
      \<and> hash_map_contains j h' = (if j = k then Some False else hash_map_contains j h))
    \<and> (hash_map_contains k h = Some False \<longrightarrow>
        (\<exists>h1 h2. hash_map_insert k v h = Some (NULL, h1) \<and> hash_map_remove k h1 = Some (v, h2)
           \<and> hash_map_inv h2 \<and> hash_map_get j h2 = hash_map_get j h))"
  using hmap.get_remove[OF assms, of k j] hmap.insert_remove_id[OF assms, of k v j] hmap.get_law[OF assms]
  by auto

text \<open>Two buckets; the keys 1 and 3 collide.\<close>

definition colliding_map :: hash_map where
  "colliding_map = \<lparr>hm_size = 2, hm_arr = [[], [\<lparr>he_key = 1, he_value = 100\<rparr>, \<lparr>he_key = 3, he_value = 300\<rparr>]]\<rparr>"

lemma colliding_map_inv: "hash_map_inv colliding_map"
  by code_simp

theorem hash_map_insert_lookup_witness:
  "\<exists>h'. hash_map_insert 1 500 colliding_map = Some (100, h') \<and> hash_map_get 1 h' = Some 500 \<and> hash_map_get 3 h' = Some 300"
proof -
  have "hash_map_get 3 colliding_map = Some 300" "hash_map_get 1 colliding_map = Some 100" by code_simp+
  with hash_map_insert_lookup[OF colliding_map_inv, of 1 500 3] hash_map_insert_lookup[OF colliding_map_inv, of 1 500 1]
  show ?thesis by auto
qed

theorem hash_map_remove_lookup_witness:
  "\<exists>h'. hash_map_remove 1 colliding_map = Some (100, h') \<and> hash_map_get 3 h' = Some 300"
proof -
  have "hash_map_get 3 colliding_map = Some 300" "hash_map_get 1 colliding_map = Some 100" by code_simp+
  with hash_map_remove_lookup[OF colliding_map_inv, of 1 3 0] show ?thesis by auto
qed

end
