(* ===== verification/Bitmaps.thy ===== *)
theory Bitmaps
  imports Prelude
begin

text \<open>
  Byte-array bitmaps, as the frame allocator and the file system use them: bit \<open>i\<close> is
  bit \<open>i mod 8\<close> of byte \<open>i div 8\<close>.  The three accesses below are the expressions the
  sources write out; the lemmas read them as a set of indices.
\<close>

definition bitmap_test :: "u8 list \<Rightarrow> nat \<Rightarrow> bool" where
  "bitmap_test bm i \<longleftrightarrow> bm ! (i div 8) AND push_bit (i mod 8) 1 \<noteq> 0"

definition bitmap_set :: "u8 list \<Rightarrow> nat \<Rightarrow> u8 list" where
  "bitmap_set bm i = bm[i div 8 := bm ! (i div 8) OR push_bit (i mod 8) 1]"

definition bitmap_clear :: "u8 list \<Rightarrow> nat \<Rightarrow> u8 list" where
  "bitmap_clear bm i = bm[i div 8 := bm ! (i div 8) AND NOT (push_bit (i mod 8) 1)]"

named_theorems bitmap_simps \<open>reading a bitmap after an update\<close>

lemma bitmap_test_bit: "bitmap_test bm i \<longleftrightarrow> bit (bm ! (i div 8)) (i mod 8)"
  by (simp add: bitmap_test_def bit_iff_and_push_bit_not_eq_0)

lemma length_bitmap [simp]:
  "length (bitmap_set bm i) = length bm" "length (bitmap_clear bm i) = length bm"
  by (simp_all add: bitmap_set_def bitmap_clear_def)

lemma same_bit: "i div 8 = j div 8 \<Longrightarrow> i mod 8 = j mod 8 \<longleftrightarrow> i = (j :: nat)"
  by (metis div_mult_mod_eq)

lemma bit_pow_byte: "bit (2 ^ k :: u8) n \<longleftrightarrow> n = k \<and> k < 8"
  by (auto simp: bit_exp_iff)

lemma bitmap_test_set [bitmap_simps]:
  assumes "i < 8 * length bm"
  shows "bitmap_test (bitmap_set bm i) j \<longleftrightarrow> j = i \<or> bitmap_test bm j"
proof -
  have "i div 8 < length bm" using assms by (simp add: less_mult_imp_div_less mult.commute)
  then show ?thesis
    using same_bit[of i j]
    by (cases "i div 8 = j div 8") (auto simp: bitmap_test_bit bitmap_set_def bit_or_iff bit_pow_byte)
qed

lemma bitmap_test_clear [bitmap_simps]:
  assumes "i < 8 * length bm"
  shows "bitmap_test (bitmap_clear bm i) j \<longleftrightarrow> j \<noteq> i \<and> bitmap_test bm j"
proof -
  have "i div 8 < length bm" using assms by (simp add: less_mult_imp_div_less mult.commute)
  then show ?thesis
    using same_bit[of i j]
    by (cases "i div 8 = j div 8")
      (auto simp: bitmap_test_bit bitmap_clear_def bit_and_iff bit_not_iff bit_pow_byte)
qed

lemma bitmap_test_zero: "i < 8 * n \<Longrightarrow> \<not> bitmap_test (replicate n 0) i"
  by (simp add: bitmap_test_bit less_mult_imp_div_less mult.commute)

text \<open>Clearing a bit that was just set, and setting one that was just cleared.\<close>

lemma bitmap_clear_set:
  assumes "i < 8 * length bm" "\<not> bitmap_test bm i"
  shows "bitmap_clear (bitmap_set bm i) i = bm"
proof -
  have i: "i div 8 < length bm" using assms by (simp add: less_mult_imp_div_less mult.commute)
  have "(bm ! (i div 8) OR push_bit (i mod 8) 1) AND NOT (push_bit (i mod 8) 1) = bm ! (i div 8)"
    using assms(2) by (intro bit_word_eqI)
      (auto simp: bitmap_test_bit bit_and_iff bit_or_iff bit_not_iff bit_pow_byte)
  then show ?thesis using i by (simp add: bitmap_clear_def bitmap_set_def)
qed

lemma bitmap_set_clear:
  assumes "i < 8 * length bm" "bitmap_test bm i"
  shows "bitmap_set (bitmap_clear bm i) i = bm"
proof -
  have i: "i div 8 < length bm" using assms by (simp add: less_mult_imp_div_less mult.commute)
  have "(bm ! (i div 8) AND NOT (push_bit (i mod 8) 1)) OR push_bit (i mod 8) 1 = bm ! (i div 8)"
    using assms(2) by (intro bit_word_eqI)
      (auto simp: bitmap_test_bit bit_and_iff bit_or_iff bit_not_iff bit_pow_byte)
  then show ?thesis using i by (simp add: bitmap_clear_def bitmap_set_def)
qed

end
