(* ===== verification/Physmem.thy ===== *)
theory Physmem
  imports Bitmaps
begin

text \<open>
  \<open>kernel/physmem.c\<close>: the buddy allocator of physical frames and the per-core page
  caches in front of it.  Free blocks are linked through their own first words; a
  bitmap marks the first frame of every free block.  The invariant \<open>physmem_inv\<close>
  relates that to one list of blocks per order, and the theorems say which frames are
  free before and after every operation.
\<close>

section \<open>Data\<close>

definition FRAME_SIZE :: u32 where "FRAME_SIZE = 4096"
definition FRAMES_ADDR_START :: u32 where "FRAMES_ADDR_START = 0x100000"
definition FRAMES_ADDR_END :: u32 where "FRAMES_ADDR_END = 0x7FB8000"
definition PHYS_FRAME_COUNT :: u32 where "PHYS_FRAME_COUNT = 32440"
definition PHYS_FRAME_MAX_ORDER :: nat where "PHYS_FRAME_MAX_ORDER = 14"
definition FREE_PAGE_BITMAP_SIZE :: nat where "FREE_PAGE_BITMAP_SIZE = 4055"
definition LOCAL_CACHE_SIZE :: nat where "LOCAL_CACHE_SIZE = 64"
definition LOCAL_CACHE_REFILL :: nat where "LOCAL_CACHE_REFILL = 32"

record free_page_node =
  fp_prev :: addr
  fp_next :: addr
  fp_free_order :: u32

text \<open>The pages of a core's cache are \<open>pages[0 .. count - 1]\<close>; the last is the top.\<close>

record physmem_local_cache =
  pc_pages :: "addr list"
  pc_count :: nat
  pc_lock :: bool

text \<open>\<open>page_nodes\<close> is the memory at frame addresses, read as a list node.  The two kinds
  of lock are held or free; they are taken only once \<open>sync_initialized\<close> is set.\<close>

record physmem =
  free_page_list :: "addr list"
  free_page_bitmap :: "u8 list"
  page_nodes :: "addr \<Rightarrow> free_page_node"
  frames_alloced :: u32
  frames_freed :: u32
  frames_leaked :: u32
  order_allocs :: "u32 list"
  order_frees :: "u32 list"
  order_leaks :: "u32 list"
  sync_initialized :: bool
  physmem_lock :: bool
  caches :: "physmem_local_cache list"


section \<open>Frames\<close>

definition physmem_is_frame_address :: "u32 \<Rightarrow> bool" where
  "physmem_is_frame_address a =
     (if a < FRAMES_ADDR_START \<or> a \<ge> FRAMES_ADDR_END then False
      else a AND (FRAME_SIZE - 1) = 0)"

definition frame_index_from_address :: "u32 \<Rightarrow> u32 option" where
  "frame_index_from_address a = do {
     kassert (physmem_is_frame_address a);
     Some ((a - FRAMES_ADDR_START) div FRAME_SIZE)
   }"

definition address_from_frame_index :: "u32 \<Rightarrow> u32 option" where
  "address_from_frame_index i = do {
     kassert (i < PHYS_FRAME_COUNT);
     Some (FRAMES_ADDR_START + i * FRAME_SIZE)
   }"

definition is_block_free :: "u32 \<Rightarrow> physmem \<Rightarrow> bool" where
  "is_block_free i s = bitmap_test (free_page_bitmap s) (unat i)"

definition mark_block_allocated :: "u32 \<Rightarrow> physmem \<Rightarrow> physmem" where
  "mark_block_allocated i s = s\<lparr>free_page_bitmap := bitmap_clear (free_page_bitmap s) (unat i)\<rparr>"

definition mark_block_free :: "u32 \<Rightarrow> physmem \<Rightarrow> physmem" where
  "mark_block_free i s = s\<lparr>free_page_bitmap := bitmap_set (free_page_bitmap s) (unat i)\<rparr>"

definition set_page_prev :: "addr \<Rightarrow> addr \<Rightarrow> physmem \<Rightarrow> physmem" where
  "set_page_prev a v s = s\<lparr>page_nodes := (page_nodes s)(a := (page_nodes s a)\<lparr>fp_prev := v\<rparr>)\<rparr>"

definition set_page_next :: "addr \<Rightarrow> addr \<Rightarrow> physmem \<Rightarrow> physmem" where
  "set_page_next a v s = s\<lparr>page_nodes := (page_nodes s)(a := (page_nodes s a)\<lparr>fp_next := v\<rparr>)\<rparr>"

definition set_page_order :: "addr \<Rightarrow> u32 \<Rightarrow> physmem \<Rightarrow> physmem" where
  "set_page_order a v s = s\<lparr>page_nodes := (page_nodes s)(a := (page_nodes s a)\<lparr>fp_free_order := v\<rparr>)\<rparr>"

definition set_free_list :: "nat \<Rightarrow> addr \<Rightarrow> physmem \<Rightarrow> physmem" where
  "set_free_list order a s = s\<lparr>free_page_list := (free_page_list s)[order := a]\<rparr>"


section \<open>Free lists\<close>

definition free_list_push :: "addr \<Rightarrow> nat \<Rightarrow> physmem \<Rightarrow> physmem option" where
  "free_list_push node order s = do {
     kassert (order \<le> PHYS_FRAME_MAX_ORDER);
     kassert (physmem_is_frame_address node);
     block_index \<leftarrow> frame_index_from_address node;
     kassert (block_index AND (push_bit order 1 - 1) = 0);
     let s = set_page_prev node NULL s;
     let s = set_page_next node (free_page_list s ! order) s;
     let s = (if free_page_list s ! order \<noteq> NULL
              then set_page_prev (free_page_list s ! order) node s else s);
     let s = set_free_list order node s;
     let s = mark_block_free block_index s;
     Some (set_page_order node (of_nat order) s)
   }"

definition free_list_pop :: "nat \<Rightarrow> physmem \<Rightarrow> (addr \<times> physmem) option" where
  "free_list_pop order s = do {
     kassert (order \<le> PHYS_FRAME_MAX_ORDER);
     if free_page_list s ! order = NULL then Some (NULL, s)
     else do {
       let node = free_page_list s ! order;
       let nxt = fp_next (page_nodes s node);
       let s = set_free_list order nxt s;
       let s = (if nxt \<noteq> NULL then set_page_prev nxt NULL s else s);
       let s = set_page_next node NULL s;
       let s = set_page_prev node NULL s;
       block_index \<leftarrow> frame_index_from_address node;
       Some (node, mark_block_allocated block_index s)
     }
   }"

definition free_list_remove :: "addr \<Rightarrow> physmem \<Rightarrow> physmem option" where
  "free_list_remove node s = do {
     block_index \<leftarrow> frame_index_from_address node;
     let order = fp_free_order (page_nodes s node);
     kassert (unat order \<le> PHYS_FRAME_MAX_ORDER);
     kassert (node \<noteq> NULL);
     let prv = fp_prev (page_nodes s node);
     let nxt = fp_next (page_nodes s node);
     let s = (if prv \<noteq> NULL then set_page_next prv nxt s else set_free_list (unat order) nxt s);
     let s = (if nxt \<noteq> NULL then set_page_prev nxt prv s else s);
     let s = mark_block_allocated block_index s;
     let s = set_page_prev node NULL s;
     Some (set_page_next node NULL s)
   }"


section \<open>Initialisation\<close>

fun max_fitting_order :: "nat \<Rightarrow> u32 \<Rightarrow> nat" where
  "max_fitting_order order frames_remaining =
     (if order > 0 \<and> push_bit order 1 > frames_remaining
      then max_fitting_order (order - 1) frames_remaining else order)"

fun max_aligned_order :: "nat \<Rightarrow> u32 \<Rightarrow> nat" where
  "max_aligned_order order next_frame_index =
     (if order > 0 \<and> next_frame_index AND (push_bit order 1 - 1) \<noteq> 0
      then max_aligned_order (order - 1) next_frame_index else order)"

declare max_fitting_order.simps [simp del] max_aligned_order.simps [simp del]

definition init_block_order :: "u32 \<Rightarrow> u32 \<Rightarrow> nat" where
  "init_block_order frames_remaining next_frame_index =
     max_aligned_order (max_fitting_order PHYS_FRAME_MAX_ORDER frames_remaining) next_frame_index"

partial_function (option) physmem_init_blocks :: "u32 \<Rightarrow> u32 \<Rightarrow> physmem \<Rightarrow> physmem option" where
  "physmem_init_blocks frames_remaining next_frame_index s =
     (if frames_remaining > 0 then do {
        let order = init_block_order frames_remaining next_frame_index;
        block_addr \<leftarrow> address_from_frame_index next_frame_index;
        s \<leftarrow> free_list_push block_addr order s;
        physmem_init_blocks (frames_remaining - push_bit order 1) (next_frame_index + push_bit order 1) s
      } else Some s)"

definition physmem_init :: "physmem \<Rightarrow> physmem option" where
  "physmem_init s = do {
     kassert ((FRAMES_ADDR_END - FRAMES_ADDR_START) div FRAME_SIZE = PHYS_FRAME_COUNT);
     kassert ((unat PHYS_FRAME_COUNT + 7) div 8 = FREE_PAGE_BITMAP_SIZE);
     let s = s\<lparr>free_page_list := replicate (PHYS_FRAME_MAX_ORDER + 1) NULL\<rparr>;
     s \<leftarrow> physmem_init_blocks PHYS_FRAME_COUNT 0 s;
     Some (s\<lparr>caches := map (\<lambda>c. c\<lparr>pc_count := 0, pc_pages := replicate LOCAL_CACHE_SIZE NULL\<rparr>) (caches s)\<rparr>)
   }"

definition physmem_sync_init :: "physmem \<Rightarrow> physmem" where
  "physmem_sync_init s = s\<lparr>physmem_lock := False,
     caches := map (\<lambda>c. c\<lparr>pc_lock := False\<rparr>) (caches s), sync_initialized := True\<rparr>"


section \<open>Blocks of a given order\<close>

text \<open>The blocking lock around the free lists, seen by the thread inside: acquiring a lock
  that is held by this thread never returns.\<close>

definition physmem_lock_acquire :: "physmem \<Rightarrow> physmem option" where
  "physmem_lock_acquire s =
     (if sync_initialized s then do { kassert (\<not> physmem_lock s); Some (s\<lparr>physmem_lock := True\<rparr>) }
      else Some s)"

definition physmem_lock_release :: "physmem \<Rightarrow> physmem" where
  "physmem_lock_release s = (if sync_initialized s then s\<lparr>physmem_lock := False\<rparr> else s)"

function find_free_order :: "nat \<Rightarrow> physmem \<Rightarrow> nat option" where
  "find_free_order current_order s =
     (if free_page_list s ! current_order = NULL
      then if current_order \<ge> PHYS_FRAME_MAX_ORDER then None
           else find_free_order (current_order + 1) s
      else Some current_order)"
  by pat_completeness auto
termination by (relation "measure (\<lambda>(k, _). PHYS_FRAME_MAX_ORDER - k)") auto

declare find_free_order.simps [simp del]

fun split_block :: "nat \<Rightarrow> nat \<Rightarrow> addr \<Rightarrow> physmem \<Rightarrow> physmem option" where
  "split_block 0 order node s = Some s"
| "split_block (Suc current_order) order node s =
     (if Suc current_order > order then do {
        i \<leftarrow> frame_index_from_address node;
        buddy \<leftarrow> address_from_frame_index (i + push_bit current_order 1);
        s \<leftarrow> free_list_push buddy current_order s;
        split_block current_order order node s
      } else Some s)"

definition bump :: "nat \<Rightarrow> u32 list \<Rightarrow> u32 list" where
  "bump i xs = xs[i := xs ! i + 1]"

definition physmem_alloc_order :: "int \<Rightarrow> physmem \<Rightarrow> (addr \<times> physmem) option" where
  "physmem_alloc_order order s = do {
     kassert (order \<ge> 0 \<and> order \<le> int PHYS_FRAME_MAX_ORDER);
     let order = nat order;
     s \<leftarrow> physmem_lock_acquire s;
     let s = s\<lparr>order_allocs := bump order (order_allocs s)\<rparr>;
     current_order \<leftarrow> find_free_order order s;
     (node, s) \<leftarrow> free_list_pop current_order s;
     s \<leftarrow> split_block current_order order node s;
     let s = physmem_lock_release s;
     kassert (physmem_is_frame_address node);
     Some (node, s)
   }"

definition physmem_leak_order :: "int \<Rightarrow> physmem \<Rightarrow> (addr \<times> physmem) option" where
  "physmem_leak_order order s = do {
     (page, s) \<leftarrow> physmem_alloc_order order s;
     Some (page, s\<lparr>order_leaks := bump (nat order) (order_leaks s)\<rparr>)
   }"

function coalesce :: "u32 \<Rightarrow> nat \<Rightarrow> physmem \<Rightarrow> (u32 \<times> nat \<times> physmem) option" where
  "coalesce block_index order s =
     (if order < PHYS_FRAME_MAX_ORDER then
        let buddy_index = block_index XOR push_bit order 1 in
        if buddy_index \<ge> PHYS_FRAME_COUNT then Some (block_index, order, s)
        else do {
          buddy_addr \<leftarrow> address_from_frame_index buddy_index;
          if \<not> is_block_free buddy_index s then Some (block_index, order, s)
          else if fp_free_order (page_nodes s buddy_addr) \<noteq> of_nat order
          then Some (block_index, order, s)
          else do {
            s \<leftarrow> free_list_remove buddy_addr s;
            coalesce (if buddy_index < block_index then buddy_index else block_index) (order + 1) s
          }
        }
      else Some (block_index, order, s))"
  by pat_completeness auto
termination by (relation "measure (\<lambda>(_, k, _). PHYS_FRAME_MAX_ORDER - k)") auto

declare coalesce.simps [simp del]

definition physmem_free_order :: "addr \<Rightarrow> int \<Rightarrow> physmem \<Rightarrow> physmem option" where
  "physmem_free_order page order s = do {
     kassert (page \<noteq> NULL);
     kassert (physmem_is_frame_address page);
     kassert (order \<ge> 0 \<and> order \<le> int PHYS_FRAME_MAX_ORDER);
     let order = nat order;
     i \<leftarrow> frame_index_from_address page;
     kassert (i AND (push_bit order 1 - 1) = 0);
     s \<leftarrow> physmem_lock_acquire s;
     let s = s\<lparr>order_frees := bump order (order_frees s)\<rparr>;
     block_index \<leftarrow> frame_index_from_address page;
     (block_index, order, s) \<leftarrow> coalesce block_index order s;
     block_addr \<leftarrow> address_from_frame_index block_index;
     s \<leftarrow> free_list_push block_addr order s;
     Some (physmem_lock_release s)
   }"


section \<open>Single pages through the cache of core \<open>me\<close>\<close>

definition set_cache :: "nat \<Rightarrow> physmem_local_cache \<Rightarrow> physmem \<Rightarrow> physmem" where
  "set_cache me c s = s\<lparr>caches := (caches s)[me := c]\<rparr>"

definition cache_lock_acquire :: "nat \<Rightarrow> physmem \<Rightarrow> physmem option" where
  "cache_lock_acquire me s =
     (if sync_initialized s then do {
        kassert (\<not> pc_lock (caches s ! me));
        Some (set_cache me ((caches s ! me)\<lparr>pc_lock := True\<rparr>) s)
      } else Some s)"

definition cache_lock_release :: "nat \<Rightarrow> physmem \<Rightarrow> physmem" where
  "cache_lock_release me s =
     (if sync_initialized s then set_cache me ((caches s ! me)\<lparr>pc_lock := False\<rparr>) s else s)"

fun refill_cache :: "nat \<Rightarrow> nat \<Rightarrow> physmem \<Rightarrow> physmem option" where
  "refill_cache me 0 s = Some s"
| "refill_cache me (Suc n) s = do {
     (page, s) \<leftarrow> physmem_alloc_order 0 s;
     let c = caches s ! me;
     refill_cache me n (set_cache me (c\<lparr>pc_pages := (pc_pages c)[LOCAL_CACHE_REFILL - Suc n := page]\<rparr>) s)
   }"

definition fill_cache :: "nat \<Rightarrow> physmem \<Rightarrow> physmem option" where
  "fill_cache me s =
     (if pc_count (caches s ! me) = 0 then do {
        s \<leftarrow> refill_cache me LOCAL_CACHE_REFILL s;
        Some (set_cache me ((caches s ! me)\<lparr>pc_count := LOCAL_CACHE_REFILL\<rparr>) s)
      } else Some s)"

definition physmem_alloc :: "nat \<Rightarrow> physmem \<Rightarrow> (addr \<times> physmem) option" where
  "physmem_alloc me s = do {
     s \<leftarrow> cache_lock_acquire me s;
     let s = s\<lparr>frames_alloced := frames_alloced s + 1\<rparr>;
     s \<leftarrow> fill_cache me s;
     let c = (caches s ! me)\<lparr>pc_count := pc_count (caches s ! me) - 1\<rparr>;
     let s = set_cache me c s;
     let page = pc_pages c ! pc_count c;
     Some (page, cache_lock_release me s)
   }"

definition physmem_leak :: "nat \<Rightarrow> physmem \<Rightarrow> (addr \<times> physmem) option" where
  "physmem_leak me s = physmem_alloc me (s\<lparr>frames_leaked := frames_leaked s + 1\<rparr>)"

fun flush_cache :: "nat \<Rightarrow> nat \<Rightarrow> physmem \<Rightarrow> physmem option" where
  "flush_cache me 0 s = Some s"
| "flush_cache me (Suc n) s =
     (if Suc n \<ge> LOCAL_CACHE_REFILL then do {
        s \<leftarrow> physmem_free_order (pc_pages (caches s ! me) ! n) 0 s;
        flush_cache me n (set_cache me ((caches s ! me)\<lparr>pc_count := n\<rparr>) s)
      } else Some s)"

definition make_cache_room :: "nat \<Rightarrow> physmem \<Rightarrow> physmem option" where
  "make_cache_room me s =
     (if pc_count (caches s ! me) = LOCAL_CACHE_SIZE
      then flush_cache me (pc_count (caches s ! me)) s else Some s)"

definition physmem_free :: "nat \<Rightarrow> addr \<Rightarrow> physmem \<Rightarrow> physmem option" where
  "physmem_free me page s = do {
     kassert (page \<noteq> NULL);
     kassert (physmem_is_frame_address page);
     s \<leftarrow> cache_lock_acquire me s;
     let s = s\<lparr>frames_freed := frames_freed s + 1\<rparr>;
     s \<leftarrow> make_cache_room me s;
     let c = caches s ! me;
     let c = c\<lparr>pc_pages := (pc_pages c)[pc_count c := page], pc_count := pc_count c + 1\<rparr>;
     Some (cache_lock_release me (set_cache me c s))
   }"

text \<open>The report of \<open>physmem_check_leaks\<close>: whether it finds every allocation accounted for.\<close>

definition physmem_check_leaks :: "physmem \<Rightarrow> bool" where
  "physmem_check_leaks s \<longleftrightarrow>
     frames_alloced s = frames_freed s + frames_leaked s
     \<and> list_all (\<lambda>k. order_allocs s ! k = order_frees s ! k + order_leaks s ! k)
         [1..<PHYS_FRAME_MAX_ORDER + 1]"


section \<open>Doubly linked lists in page memory\<close>

fun dseg :: "(addr \<Rightarrow> free_page_node) \<Rightarrow> addr \<Rightarrow> addr \<Rightarrow> addr list \<Rightarrow> addr \<Rightarrow> bool" where
  "dseg N a p [] z \<longleftrightarrow> p = z"
| "dseg N a p (x # xs) z \<longleftrightarrow>
     p = x \<and> x \<noteq> NULL \<and> fp_prev (N x) = a \<and> dseg N x (fp_next (N x)) xs z"

lemma dseg_append:
  "dseg N a p (xs @ ys) z \<longleftrightarrow> (\<exists>q. dseg N a p xs q \<and> dseg N (last (a # xs)) q ys z)"
  by (induction xs arbitrary: a p) auto

lemma dseg_cong:
  "\<forall>x \<in> set xs. M x = N x \<Longrightarrow> dseg M a p xs z \<longleftrightarrow> dseg N a p xs z"
  by (induction xs arbitrary: a p) auto

lemma dseg_cong_links:
  "\<forall>x \<in> set xs. fp_prev (M x) = fp_prev (N x) \<and> fp_next (M x) = fp_next (N x) \<Longrightarrow>
     dseg M a p xs z \<longleftrightarrow> dseg N a p xs z"
  by (induction xs arbitrary: a p) auto

lemma dseg_lseg: "dseg N a p xs z \<Longrightarrow> lseg (\<lambda>x. fp_next (N x)) p xs z"
  by (induction xs arbitrary: a p) auto

lemma dseg_distinct: "dseg N a p xs NULL \<Longrightarrow> distinct xs"
  using dseg_lseg linked_distinct by blast

lemma dseg_head: "dseg N a p xs NULL \<Longrightarrow> p = (case xs of [] \<Rightarrow> NULL | x # _ \<Rightarrow> x)"
  by (cases xs) auto

lemma dseg_push:
  assumes "dseg N NULL h xs NULL" "n \<noteq> NULL" "n \<notin> set xs"
    and M: "fp_prev (M n) = NULL" "fp_next (M n) = h" "h \<noteq> NULL \<Longrightarrow> fp_prev (M h) = n"
      "h \<noteq> NULL \<Longrightarrow> fp_next (M h) = fp_next (N h)" "\<forall>x \<in> set xs - {h}. M x = N x"
  shows "dseg M NULL n (n # xs) NULL"
proof (cases xs)
  case (Cons y ys)
  then have "distinct xs" "y = h" using dseg_distinct[OF assms(1)] assms(1) by auto
  then have "dseg M y (fp_next (N y)) ys NULL \<longleftrightarrow> dseg N y (fp_next (N y)) ys NULL"
    using M(5) Cons by (intro dseg_cong) auto
  then show ?thesis using assms Cons by auto
qed (use assms in auto)

lemma dseg_unlink:
  assumes d: "dseg N NULL p (xs @ n # ys) NULL"
    and pn: "pv = fp_prev (N n)" "nx = fp_next (N n)"
    and M: "\<forall>x \<in> set (xs @ ys). fp_next (M x) = (if x = pv then nx else fp_next (N x))
        \<and> fp_prev (M x) = (if x = nx then pv else fp_prev (N x))"
  shows "dseg M NULL (if pv = NULL then nx else p) (xs @ ys) NULL"
    and "pv = last (NULL # xs)" "pv = NULL \<longleftrightarrow> xs = []" "nx = (case ys of [] \<Rightarrow> NULL | y # _ \<Rightarrow> y)"
proof -
  from d have d1: "dseg N NULL p xs n" "dseg N n nx ys NULL" and n: "n \<noteq> NULL" and pv: "pv = last (NULL # xs)"
    using pn by (auto simp: dseg_append)
  have dist: "distinct (xs @ n # ys)" using d by (rule dseg_distinct)
  have nn: "NULL \<notin> set (xs @ n # ys)" using dseg_lseg[OF d] lseg_nonnull by blast
  show "pv = last (NULL # xs)" by (rule pv)
  show pv0: "pv = NULL \<longleftrightarrow> xs = []" using pv nn by (cases xs rule: rev_cases) auto
  show nx: "nx = (case ys of [] \<Rightarrow> NULL | y # _ \<Rightarrow> y)" using d1(2) by (rule dseg_head)
  have ys: "dseg M pv nx ys NULL"
  proof (cases ys)
    case (Cons y zs)
    have "y = nx" using nx Cons by simp
    moreover have "pv \<notin> set ys" using pv dist nn by (cases xs rule: rev_cases) auto
    moreover have "dseg M y (fp_next (N y)) zs NULL \<longleftrightarrow> dseg N y (fp_next (N y)) zs NULL"
      using M dist Cons calculation by (intro dseg_cong_links) auto
    ultimately show ?thesis using M d1(2) Cons by auto
  qed (use nx in simp)
  show "dseg M NULL (if pv = NULL then nx else p) (xs @ ys) NULL"
  proof (cases xs rule: rev_cases)
    case Nil
    then show ?thesis using ys pv0 pv by simp
  next
    case (snoc zs t)
    then have t: "pv = t" "t \<notin> set zs" "t \<notin> set ys" using pv dist by auto
    have nxs: "nx \<notin> set xs" using nx dist nn by (cases ys) auto
    have "dseg N NULL p zs t" "t \<noteq> NULL" "fp_prev (N t) = last (NULL # zs)"
      using d1(1) snoc by (auto simp: dseg_append)
    moreover have "dseg M NULL p zs t \<longleftrightarrow> dseg N NULL p zs t"
      using M snoc t nxs by (intro dseg_cong_links) auto
    moreover have "t \<in> set (xs @ ys)" "t \<noteq> nx" using snoc nxs by auto
    then have "fp_next (M t) = nx" "fp_prev (M t) = fp_prev (N t)" using bspec[OF M, of t] t(1) by simp_all
    ultimately have "dseg M NULL p xs nx" using snoc by (auto simp: dseg_append)
    moreover have "last (NULL # xs) = pv" using pv by simp
    moreover have "pv \<noteq> NULL" using pv0 snoc by simp
    ultimately show ?thesis using ys unfolding dseg_append by auto
  qed
qed


section \<open>Frames and blocks as numbers\<close>

definition frame_addr :: "nat \<Rightarrow> addr" where
  "frame_addr i = of_nat (0x100000 + 4096 * i)"

abbreviation n_frames :: nat where
  "n_frames \<equiv> 32440"

definition block_frames :: "nat \<Rightarrow> nat \<Rightarrow> nat set" where
  "block_frames k i = {i..<i + 2 ^ k}"

lemmas physmem_consts = FRAME_SIZE_def FRAMES_ADDR_START_def FRAMES_ADDR_END_def PHYS_FRAME_COUNT_def
  PHYS_FRAME_MAX_ORDER_def FREE_PAGE_BITMAP_SIZE_def LOCAL_CACHE_SIZE_def LOCAL_CACHE_REFILL_def

named_theorems frame_simps \<open>conversion between frame indices and addresses\<close>

lemma unat_frame_addr: "i < n_frames \<Longrightarrow> unat (frame_addr i) = 0x100000 + 4096 * i"
  unfolding frame_addr_def by (subst unat_of_nat_u32) auto

lemma frame_addr_inj [frame_simps]:
  assumes "i < n_frames" "j < n_frames"
  shows "frame_addr i = frame_addr j \<longleftrightarrow> i = j"
proof
  assume "frame_addr i = frame_addr j"
  then have "unat (frame_addr i) = unat (frame_addr j)" by (rule arg_cong)
  then show "i = j" unfolding unat_frame_addr[OF assms(1)] unat_frame_addr[OF assms(2)] by linarith
qed simp

lemma frame_addr_nonnull [frame_simps]: "i < n_frames \<Longrightarrow> frame_addr i \<noteq> NULL"
  using unat_frame_addr[of i] unat_0 by (metis add_is_0 zero_neq_numeral)

lemma and_pow_minus_one: "(w :: u32) AND (2 ^ k - 1) = take_bit k w"
  by (simp add: take_bit_eq_mask mask_eq_exp_minus_1)

lemma word_pow_12: "(4096 :: u32) - 1 = 2 ^ 12 - 1"
  by simp

lemma is_frame_addr [frame_simps]: "i < n_frames \<Longrightarrow> physmem_is_frame_address (frame_addr i)"
proof -
  assume i: "i < n_frames"
  have "take_bit 12 (frame_addr i) = 0"
    unfolding frame_addr_def take_bit_of_nat by (simp add: take_bit_eq_mod mod_mult_right_eq)
  then have "frame_addr i AND (FRAME_SIZE - 1) = 0"
    unfolding FRAME_SIZE_def word_pow_12 and_pow_minus_one .
  moreover have "\<not> frame_addr i < FRAMES_ADDR_START" "\<not> FRAMES_ADDR_END \<le> frame_addr i"
    using unat_frame_addr[OF i] i
    by (simp_all add: word_less_nat_alt word_le_nat_alt FRAMES_ADDR_START_def FRAMES_ADDR_END_def)
  ultimately show ?thesis by (simp add: physmem_is_frame_address_def)
qed

lemma frame_address_cases:
  assumes "physmem_is_frame_address a"
  obtains i where "i < n_frames" "a = frame_addr i"
proof
  let ?i = "(unat a - 0x100000) div 4096"
  have r: "0x100000 \<le> unat a" "unat a < 0x7FB8000" and al: "take_bit 12 a = 0"
    using assms unfolding physmem_is_frame_address_def FRAME_SIZE_def word_pow_12 and_pow_minus_one
    by (auto simp: word_less_nat_alt word_le_nat_alt FRAMES_ADDR_START_def FRAMES_ADDR_END_def split: if_splits)
  have "unat a mod 4096 = 0"
    using arg_cong[OF al, of unat] by (simp add: unsigned_take_bit_eq take_bit_eq_mod unat_mod)
  then have "4096 dvd unat a - 0x100000" by (intro dvd_diff_nat) auto
  then have "4096 * ?i = unat a - 0x100000" by simp
  then have "unat a = 0x100000 + 4096 * ?i" using r(1) by linarith
  then show "a = frame_addr ?i" unfolding frame_addr_def by (metis of_nat_unat_same)
  show "?i < n_frames" using r by simp
qed

lemma frame_index_addr [frame_simps]:
  "i < n_frames \<Longrightarrow> frame_index_from_address (frame_addr i) = Some (of_nat i)"
proof -
  assume i: "i < n_frames"
  have "unat (frame_addr i - FRAMES_ADDR_START) = 4096 * i"
    using unat_frame_addr[OF i] by (subst unat_sub) (simp_all add: word_le_nat_alt FRAMES_ADDR_START_def)
  then have "unat ((frame_addr i - FRAMES_ADDR_START) div FRAME_SIZE) = i"
    by (simp add: unat_div FRAME_SIZE_def)
  then have "(frame_addr i - FRAMES_ADDR_START) div FRAME_SIZE = of_nat i" by (rule word_eq_of_natI)
  then show ?thesis using is_frame_addr[OF i] by (simp add: frame_index_from_address_def)
qed

lemma address_of_index [frame_simps]:
  "i < n_frames \<Longrightarrow> address_from_frame_index (of_nat i) = Some (frame_addr i)"
proof -
  assume i: "i < n_frames"
  have "(of_nat i :: u32) < PHYS_FRAME_COUNT" using i
    by (simp add: word_less_nat_alt PHYS_FRAME_COUNT_def unat_of_nat_u32)
  moreover have "FRAMES_ADDR_START + of_nat i * FRAME_SIZE = frame_addr i"
    by (simp add: frame_addr_def FRAMES_ADDR_START_def FRAME_SIZE_def)
  ultimately show ?thesis by (simp add: address_from_frame_index_def)
qed

lemma unat_of_frame [frame_simps]: "i < n_frames \<Longrightarrow> unat (of_nat i :: u32) = i"
  by (simp add: unat_of_nat_u32)

lemma index_aligned [frame_simps]:
  assumes "i < n_frames" "k \<le> 14"
  shows "(of_nat i :: u32) AND (2 ^ k - 1) = 0 \<longleftrightarrow> 2 ^ k dvd i"
proof -
  have "(of_nat i :: u32) AND (2 ^ k - 1) = of_nat (take_bit k i)"
    by (simp add: and_pow_minus_one take_bit_of_nat)
  moreover have "take_bit k i < 4294967296"
    using le_less_trans[OF take_bit_nat_less_eq_self, of i "2 ^ 32" k] assms(1) by simp
  then have "(of_nat (take_bit k i) :: u32) = 0 \<longleftrightarrow> take_bit k i = 0"
    unfolding word_unat_eq_iff unat_0 by (simp only: unat_of_nat_u32)
  ultimately show ?thesis by (simp add: take_bit_eq_mod dvd_eq_mod_eq_0)
qed


section \<open>The invariant\<close>

text \<open>\<open>L k\<close> are the first frames of the free blocks of order \<open>k\<close>, in list order.\<close>

definition blocks_ok :: "(nat \<Rightarrow> nat list) \<Rightarrow> bool" where
  "blocks_ok L \<longleftrightarrow>
     (\<forall>k i. i \<in> set (L k) \<longrightarrow> k \<le> 14 \<and> i + 2 ^ k \<le> n_frames \<and> 2 ^ k dvd i)
     \<and> (\<forall>k i k' i'. i \<in> set (L k) \<longrightarrow> i' \<in> set (L k') \<longrightarrow> (k, i) \<noteq> (k', i') \<longrightarrow>
          block_frames k i \<inter> block_frames k' i' = {})
     \<and> (\<forall>k. distinct (L k))"

definition free_frames :: "(nat \<Rightarrow> nat list) \<Rightarrow> nat set" where
  "free_frames L = {f. \<exists>k i. i \<in> set (L k) \<and> f \<in> block_frames k i}"

definition physmem_inv :: "physmem \<Rightarrow> (nat \<Rightarrow> nat list) \<Rightarrow> bool" where
  "physmem_inv s L \<longleftrightarrow> blocks_ok L
     \<and> length (free_page_list s) = 15 \<and> length (free_page_bitmap s) = 4055
     \<and> (\<forall>k \<le> 14. dseg (page_nodes s) NULL (free_page_list s ! k) (map frame_addr (L k)) NULL)
     \<and> (\<forall>k i. i \<in> set (L k) \<longrightarrow> fp_free_order (page_nodes s (frame_addr i)) = of_nat k)
     \<and> (\<forall>i < n_frames. bitmap_test (free_page_bitmap s) i \<longleftrightarrow> (\<exists>k. i \<in> set (L k)))"

text \<open>Everything but the free lists.\<close>

definition same_rest :: "physmem \<Rightarrow> physmem \<Rightarrow> bool" where
  "same_rest s s' \<longleftrightarrow> caches s' = caches s \<and> sync_initialized s' = sync_initialized s
     \<and> physmem_lock s' = physmem_lock s \<and> order_allocs s' = order_allocs s \<and> order_frees s' = order_frees s
     \<and> order_leaks s' = order_leaks s \<and> frames_alloced s' = frames_alloced s
     \<and> frames_freed s' = frames_freed s \<and> frames_leaked s' = frames_leaked s"

lemma same_rest_refl [simp]: "same_rest s s"
  by (simp add: same_rest_def)

lemma same_rest_trans [trans]: "same_rest s t \<Longrightarrow> same_rest t u \<Longrightarrow> same_rest s u"
  by (simp add: same_rest_def)

lemma self_in_block [simp]: "i \<in> block_frames k i"
  by (simp add: block_frames_def)

lemma block_bounds:
  assumes "blocks_ok L" "i \<in> set (L k)"
  shows "i < n_frames" "k \<le> 14" "i + 2 ^ k \<le> n_frames" "2 ^ k dvd i"
proof -
  show b: "k \<le> 14" "i + 2 ^ k \<le> n_frames" "2 ^ k dvd i" using assms unfolding blocks_ok_def by blast+
  have "(0 :: nat) < 2 ^ k" by simp
  then show "i < n_frames" using b(2) by linarith
qed

lemma block_order_unique:
  assumes "blocks_ok L" "i \<in> set (L k)" "i \<in> set (L k')"
  shows "k = k'"
proof (rule ccontr)
  assume "k \<noteq> k'"
  then have "block_frames k i \<inter> block_frames k' i = {}" using assms unfolding blocks_ok_def by blast
  then show False using self_in_block by blast
qed

lemma blocks_ok_push:
  assumes "blocks_ok L" "k \<le> 14" "i + 2 ^ k \<le> n_frames" "2 ^ k dvd i" "block_frames k i \<inter> free_frames L = {}"
  shows "blocks_ok (L(k := i # L k))"
proof -
  have new: "block_frames k i \<inter> block_frames k' i' = {}" if "i' \<in> set (L k')" for k' i'
    using that assms(5) by (auto simp: free_frames_def)
  moreover have "i \<notin> set (L k)" using new self_in_block by fastforce
  ultimately show ?thesis using assms(1-4) unfolding blocks_ok_def
    by (auto simp: Int_commute split: if_splits)
qed

lemma blocks_ok_subset:
  "blocks_ok L \<Longrightarrow> (\<And>k. set (M k) \<subseteq> set (L k)) \<Longrightarrow> (\<And>k. distinct (M k)) \<Longrightarrow> blocks_ok M"
  unfolding blocks_ok_def by blast

lemma blocks_ok_remove: "blocks_ok L \<Longrightarrow> blocks_ok (L(k := remove1 i (L k)))"
  by (rule blocks_ok_subset) (auto simp: blocks_ok_def distinct_remove1 dest: set_remove1_subset[THEN subsetD])

lemma free_frames_push: "free_frames (L(k := i # L k)) = block_frames k i \<union> free_frames L"
  by (auto simp: free_frames_def split: if_splits)

lemma free_frames_remove:
  assumes "blocks_ok L" "i \<in> set (L k)"
  shows "free_frames (L(k := remove1 i (L k))) = free_frames L - block_frames k i"
proof -
  have d: "distinct (L k)" and dis: "\<And>k' i'. i' \<in> set (L k') \<Longrightarrow> (k, i) \<noteq> (k', i') \<Longrightarrow>
     block_frames k i \<inter> block_frames k' i' = {}" using assms unfolding blocks_ok_def by blast+
  show ?thesis
  proof (intro set_eqI iffI)
    fix f assume "f \<in> free_frames (L(k := remove1 i (L k)))"
    then show "f \<in> free_frames L - block_frames k i"
      using dis d by (fastforce simp: free_frames_def split: if_splits)
  next
    fix f assume "f \<in> free_frames L - block_frames k i"
    then show "f \<in> free_frames (L(k := remove1 i (L k)))"
      using d by (fastforce simp: free_frames_def)
  qed
qed


section \<open>List operations preserve the invariant\<close>

lemmas page_updates = set_page_prev_def set_page_next_def set_page_order_def set_free_list_def
  mark_block_free_def mark_block_allocated_def

lemma physmem_invD:
  assumes "physmem_inv s L"
  shows "blocks_ok L" "length (free_page_list s) = 15" "length (free_page_bitmap s) = 4055"
    "\<And>k. k \<le> 14 \<Longrightarrow> dseg (page_nodes s) NULL (free_page_list s ! k) (map frame_addr (L k)) NULL"
    "\<And>k i. i \<in> set (L k) \<Longrightarrow> fp_free_order (page_nodes s (frame_addr i)) = of_nat k"
    "\<And>i. i < n_frames \<Longrightarrow> bitmap_test (free_page_bitmap s) i \<longleftrightarrow> (\<exists>k. i \<in> set (L k))"
  using assms unfolding physmem_inv_def by blast+

lemma free_list_head:
  assumes "physmem_inv s L" "k \<le> 14"
  shows "free_page_list s ! k = (case L k of [] \<Rightarrow> NULL | i # _ \<Rightarrow> frame_addr i)"
  using dseg_head[OF physmem_invD(4)[OF assms]] by (cases "L k") auto

lemma free_list_nonnull:
  assumes "physmem_inv s L" "k \<le> 14"
  shows "free_page_list s ! k = NULL \<longleftrightarrow> L k = []"
proof (cases "L k")
  case (Cons i js)
  then have "i < n_frames" using block_bounds(1)[OF physmem_invD(1)[OF assms(1)], of i k] by simp
  then show ?thesis using free_list_head[OF assms] Cons frame_addr_nonnull by simp
qed (use free_list_head[OF assms] in simp)

lemma frame_addr_eq_block:
  assumes "blocks_ok L" "i \<in> set (L k)" "j < n_frames"
  shows "frame_addr i = frame_addr j \<longleftrightarrow> i = j"
  using frame_addr_inj block_bounds(1)[OF assms(1,2)] assms(3) by blast

text \<open>A list whose nodes kept their links is still the same list.\<close>

lemma dseg_other_order:
  assumes "blocks_ok L" "dseg N NULL p (map frame_addr (L k')) NULL"
    and "\<And>j. j \<in> set (L k') \<Longrightarrow> M (frame_addr j) = N (frame_addr j)"
  shows "dseg M NULL p (map frame_addr (L k')) NULL"
  using assms(2) by (subst dseg_cong[of _ M N]) (use assms(3) in auto)

lemma free_list_push_inv:
  assumes inv: "physmem_inv s L"
    and blk: "k \<le> 14" "i + 2 ^ k \<le> n_frames" "2 ^ k dvd i" "block_frames k i \<inter> free_frames L = {}"
  shows "\<exists>s'. free_list_push (frame_addr i) k s = Some s' \<and> physmem_inv s' (L(k := i # L k)) \<and> same_rest s s'"
proof -
  note I = physmem_invD[OF inv]
  define n h N where "n = frame_addr i" and "h = free_page_list s ! k" and "N = page_nodes s"
  define M where "M = (\<lambda>x. if x = n then \<lparr>fp_prev = NULL, fp_next = h, fp_free_order = of_nat k\<rparr>
      else if x = h \<and> h \<noteq> NULL then (N h)\<lparr>fp_prev := n\<rparr> else N x)"
  have "(0 :: nat) < 2 ^ k" by simp
  then have i: "i < n_frames" using blk(2) by linarith
  have fresh: "i \<notin> set (L k')" for k' using blk(4) self_in_block by (fastforce simp: free_frames_def)
  have hn: "h \<noteq> n"
    using free_list_head[OF inv blk(1)] fresh[of k] frame_addr_nonnull[OF i]
      frame_addr_eq_block[OF I(1) _ i, of "hd (L k)" k]
    unfolding h_def n_def by (cases "L k") auto
  define s' where "s' = s\<lparr>free_page_list := (free_page_list s)[k := n],
      free_page_bitmap := bitmap_set (free_page_bitmap s) i, page_nodes := M\<rparr>"
  have n: "physmem_is_frame_address n" "frame_index_from_address n = Some (of_nat i)"
    "(of_nat i :: u32) AND (2 ^ k - 1) = 0" "unat (of_nat i :: u32) = i"
    unfolding n_def using frame_simps i blk by auto
  have "free_list_push n k s = Some (s\<lparr>free_page_list := (free_page_list s)[k := n],
      free_page_bitmap := bitmap_set (free_page_bitmap s) i, page_nodes :=
        (if h \<noteq> NULL then N(n := (N n)\<lparr>fp_prev := NULL, fp_next := h, fp_free_order := of_nat k\<rparr>, h := (N h)\<lparr>fp_prev := n\<rparr>)
         else N(n := (N n)\<lparr>fp_prev := NULL, fp_next := h, fp_free_order := of_nat k\<rparr>))\<rparr>)"
    using hn n blk(1) by (auto simp: free_list_push_def page_updates h_def[symmetric] N_def[symmetric]
        PHYS_FRAME_MAX_ORDER_def fun_upd_twist)
  also have "\<dots> = Some s'"
    using hn by (auto simp: s'_def M_def fun_eq_iff)
  finally have push: "free_list_push n k s = Some s'" .
  let ?L = "L(k := i # L k)"
  have na: "frame_addr j \<noteq> n" if "j \<in> set (L k')" for j k'
    using frame_addr_eq_block[OF I(1) that i] fresh[of k'] that n_def by auto
  have nodes: "M (frame_addr j) = N (frame_addr j)" if "j \<in> set (L k')" "k' \<noteq> k" for j k'
  proof -
    have "frame_addr j \<noteq> h" if "h \<noteq> NULL"
    proof -
      obtain m where m: "m \<in> set (L k)" "h = frame_addr m"
        using free_list_head[OF inv blk(1)] \<open>h \<noteq> NULL\<close> by (cases "L k") (auto simp: h_def)
      then have "m \<noteq> j" using block_order_unique[OF I(1) m(1)] \<open>j \<in> set (L k')\<close> \<open>k' \<noteq> k\<close> by blast
      then show ?thesis
        using m frame_addr_eq_block[OF I(1) m(1) block_bounds(1)[OF I(1) \<open>j \<in> set (L k')\<close>]] by auto
    qed
    then show ?thesis using na[OF that(1)] by (auto simp: M_def)
  qed
  have lists: "dseg M NULL ((free_page_list s)[k := n] ! k') (map frame_addr (?L k')) NULL" if k': "k' \<le> 14" for k'
  proof (cases "k' = k")
    case True
    have "n \<notin> frame_addr ` set (L k)" using na by blast
    then have "dseg M NULL n (n # map frame_addr (L k)) NULL"
      using I(4)[OF blk(1)] hn frame_addr_nonnull[OF i]
      by (intro dseg_push[of N h]) (auto simp: M_def N_def h_def n_def)
    then show ?thesis using True I(2) blk(1) by (simp add: n_def)
  next
    case False
    then show ?thesis using dseg_other_order[OF I(1) I(4)[OF k'], of M] nodes by (simp add: N_def)
  qed
  have ord: "fp_free_order (M (frame_addr j)) = of_nat k'" if "j \<in> set (?L k')" for j k'
  proof (cases "j = i")
    case True
    then have "k' = k" using that fresh[of k'] by (auto split: if_splits)
    then show ?thesis using True by (simp add: M_def n_def)
  next
    case False
    then have j: "j \<in> set (L k')" using that by (auto split: if_splits)
    then show ?thesis using I(5)[OF j] na[OF j] by (auto simp: M_def N_def)
  qed
  have bm: "bitmap_test (bitmap_set (free_page_bitmap s) i) j \<longleftrightarrow> (\<exists>k. j \<in> set (?L k))" if "j < n_frames" for j
    using bitmap_test_set[of i "free_page_bitmap s" j] I(3) I(6)[OF that] i by (auto split: if_splits)
  have "physmem_inv s' ?L"
    unfolding physmem_inv_def
    using blocks_ok_push[OF I(1) blk] I(2,3) lists ord bm by (simp add: s'_def)
  then show ?thesis using push by (auto simp: n_def s'_def same_rest_def)
qed

text \<open>Unlinking block \<open>i\<close> of order \<open>k\<close>: the common part of popping and removing.\<close>

lemma unlink_inv:
  assumes inv: "physmem_inv s L" and Lk: "L k = xs @ i # ys"
    and pn: "pv = fp_prev (page_nodes s (frame_addr i))" "nx = fp_next (page_nodes s (frame_addr i))"
    and M: "\<And>x. x \<noteq> NULL \<Longrightarrow> x \<noteq> frame_addr i \<Longrightarrow> M x = (page_nodes s x)\<lparr>
        fp_next := if x = pv then nx else fp_next (page_nodes s x),
        fp_prev := if x = nx then pv else fp_prev (page_nodes s x)\<rparr>"
    and fl: "fl = (if pv = NULL then (free_page_list s)[k := nx] else free_page_list s)"
  shows "physmem_inv (s\<lparr>free_page_list := fl, free_page_bitmap := bitmap_clear (free_page_bitmap s) i,
      page_nodes := M\<rparr>) (L(k := xs @ ys))" (is "physmem_inv ?s ?L")
proof -
  note I = physmem_invD[OF inv]
  have iL: "i \<in> set (L k)" using Lk by simp
  note b = block_bounds[OF I(1) iL]
  have dist: "distinct (L k)" using I(1) by (simp add: blocks_ok_def)
  have sub: "j \<in> set (L k')" "j \<noteq> i" if "j \<in> set (?L k')" for j k'
    using that Lk dist block_order_unique[OF I(1) iL, of k'] by (auto split: if_splits)
  have addr: "frame_addr j \<noteq> NULL" "frame_addr j \<noteq> frame_addr i" if "j \<in> set (?L k')" for j k'
    using sub[OF that] frame_addr_nonnull block_bounds(1)[OF I(1) sub(1)[OF that]]
      frame_addr_eq_block[OF I(1) sub(1)[OF that] b(1)] by auto
  have d: "dseg (page_nodes s) NULL (free_page_list s ! k) (map frame_addr xs @ frame_addr i # map frame_addr ys) NULL"
    using I(4)[OF b(2)] Lk by simp
  have Mk: "\<forall>x \<in> set (map frame_addr xs @ map frame_addr ys).
      fp_next (M x) = (if x = pv then nx else fp_next (page_nodes s x))
      \<and> fp_prev (M x) = (if x = nx then pv else fp_prev (page_nodes s x))"
    using M addr[of _ k] by auto
  note u = dseg_unlink[OF d pn Mk]
  have far: "frame_addr j \<noteq> pv \<and> frame_addr j \<noteq> nx" if j: "j \<in> set (L k')" "k' \<noteq> k" for j k'
  proof -
    have "pv = NULL \<or> pv \<in> frame_addr ` set (L k)" "nx = NULL \<or> nx \<in> frame_addr ` set (L k)"
      using u(2,4) Lk by (cases xs rule: rev_cases; force) (use u(4) Lk in \<open>cases ys; auto\<close>)
    moreover have "frame_addr m \<noteq> frame_addr j" if "m \<in> set (L k)" for m
      using frame_addr_eq_block[OF I(1) that block_bounds(1)[OF I(1) j(1)]]
        block_order_unique[OF I(1) that] j by blast
    moreover have "frame_addr j \<noteq> NULL" using frame_addr_nonnull block_bounds(1)[OF I(1) j(1)] by blast
    ultimately show ?thesis by fastforce
  qed
  have lists: "dseg M NULL (fl ! k') (map frame_addr (?L k')) NULL" if k': "k' \<le> 14" for k'
  proof (cases "k' = k")
    case True
    then show ?thesis using u(1) I(2) b(2) by (auto simp: fl)
  next
    case False
    have "M (frame_addr j) = page_nodes s (frame_addr j)" if "j \<in> set (L k')" for j
      using M[OF addr(1,2)[of j k']] that False far[OF that False] by simp
    then show ?thesis using dseg_other_order[OF I(1) I(4)[OF k'], of M] False by (simp add: fl)
  qed
  have ord: "fp_free_order (M (frame_addr j)) = of_nat k'" if "j \<in> set (?L k')" for j k'
    using M[OF addr[OF that]] I(5)[OF sub(1)[OF that]] by simp
  have "blocks_ok ?L"
    by (rule blocks_ok_subset[OF I(1)]) (use Lk dist I(1) in \<open>auto simp: blocks_ok_def\<close>)
  moreover have "bitmap_test (bitmap_clear (free_page_bitmap s) i) j \<longleftrightarrow> (\<exists>k. j \<in> set (?L k))" if "j < n_frames" for j
  proof -
    have "(\<exists>k. j \<in> set (?L k)) \<longleftrightarrow> j \<noteq> i \<and> (\<exists>k. j \<in> set (L k))"
    proof
      assume "j \<noteq> i \<and> (\<exists>k. j \<in> set (L k))"
      then obtain k' where "j \<in> set (L k')" "j \<noteq> i" by blast
      then have "j \<in> set (?L k')" using Lk by auto
      then show "\<exists>k. j \<in> set (?L k)" by blast
    qed (use sub in blast)
    then show ?thesis using bitmap_test_clear[of i "free_page_bitmap s" j] I(3) I(6)[OF that] b(1) by simp
  qed
  ultimately show ?thesis
    unfolding physmem_inv_def using I(2,3) lists ord by (auto simp: fl)
qed

lemma remove1_middle: "distinct (xs @ i # ys) \<Longrightarrow> remove1 i (xs @ i # ys) = xs @ ys"
  by (induction xs) auto

lemma free_list_remove_inv:
  assumes inv: "physmem_inv s L" and iL: "i \<in> set (L k)"
  shows "\<exists>s'. free_list_remove (frame_addr i) s = Some s' \<and> physmem_inv s' (L(k := remove1 i (L k))) \<and> same_rest s s'"
proof -
  note I = physmem_invD[OF inv] and b = block_bounds[OF physmem_invD(1)[OF inv] iL]
  let ?n = "frame_addr i" and ?N = "page_nodes s"
  define pv nx where "pv = fp_prev (?N ?n)" and "nx = fp_next (?N ?n)"
  obtain xs ys where Lk: "L k = xs @ i # ys" using iL by (auto simp: in_set_conv_decomp)
  have dist: "distinct (L k)" using I(1) by (simp add: blocks_ok_def)
  define M where "M = (if nx \<noteq> NULL
      then (if pv \<noteq> NULL then ?N(pv := (?N pv)\<lparr>fp_next := nx\<rparr>) else ?N)
             (nx := ((if pv \<noteq> NULL then ?N(pv := (?N pv)\<lparr>fp_next := nx\<rparr>) else ?N) nx)\<lparr>fp_prev := pv\<rparr>)
      else (if pv \<noteq> NULL then ?N(pv := (?N pv)\<lparr>fp_next := nx\<rparr>) else ?N))"
  let ?M = "M(?n := (M ?n)\<lparr>fp_prev := NULL, fp_next := NULL\<rparr>)"
  let ?fl = "if pv = NULL then (free_page_list s)[k := nx] else free_page_list s"
  have ord: "unat (fp_free_order (?N ?n)) = k" using I(5)[OF iL] b(2) by (simp add: unat_of_nat_u32)
  have "free_list_remove ?n s = Some (s\<lparr>free_page_list := ?fl,
      free_page_bitmap := bitmap_clear (free_page_bitmap s) i, page_nodes := ?M\<rparr>)"
    using ord b(1,2) frame_addr_nonnull[OF b(1)] frame_index_addr[OF b(1)] unat_of_frame[OF b(1)]
    by (auto simp: free_list_remove_def page_updates pv_def[symmetric] nx_def[symmetric] M_def
        PHYS_FRAME_MAX_ORDER_def Let_def)
  moreover have "physmem_inv (s\<lparr>free_page_list := ?fl,
      free_page_bitmap := bitmap_clear (free_page_bitmap s) i, page_nodes := ?M\<rparr>) (L(k := xs @ ys))"
    by (rule unlink_inv[OF inv Lk pv_def nx_def]) (auto simp: M_def)
  ultimately show ?thesis using remove1_middle[of xs i ys] dist Lk by (auto simp: same_rest_def)
qed

lemma free_list_pop_inv:
  assumes inv: "physmem_inv s L" and Lk: "L k = i # js"
  shows "\<exists>s'. free_list_pop k s = Some (frame_addr i, s') \<and> physmem_inv s' (L(k := js)) \<and> same_rest s s'"
proof -
  note I = physmem_invD[OF inv]
  have iL: "i \<in> set (L k)" using Lk by simp
  note b = block_bounds[OF I(1) iL]
  let ?n = "frame_addr i" and ?N = "page_nodes s"
  define nx where "nx = fp_next (?N ?n)"
  have h: "free_page_list s ! k = ?n" using free_list_head[OF inv b(2)] Lk by simp
  have pv: "NULL = fp_prev (?N ?n)" using I(4)[OF b(2)] Lk by simp
  have nn: "nx \<noteq> ?n"
  proof
    assume "nx = ?n"
    then have "?n \<in> set (map frame_addr js)"
      using I(4)[OF b(2)] Lk dseg_head[of ?N ?n nx "map frame_addr js"] frame_addr_nonnull[OF b(1)]
      by (cases js) (auto simp: nx_def)
    moreover have "distinct (map frame_addr (L k))" using dseg_distinct[OF I(4)[OF b(2)]] .
    ultimately show False using Lk by simp
  qed
  define M where "M = (if nx \<noteq> NULL then ?N(nx := (?N nx)\<lparr>fp_prev := NULL\<rparr>) else ?N)"
  let ?M = "M(?n := (M ?n)\<lparr>fp_next := NULL, fp_prev := NULL\<rparr>)"
  have "free_list_pop k s = Some (?n, s\<lparr>free_page_list := (free_page_list s)[k := nx],
      free_page_bitmap := bitmap_clear (free_page_bitmap s) i, page_nodes := ?M\<rparr>)"
    using h nn b(1,2) frame_addr_nonnull[OF b(1)] frame_index_addr[OF b(1)] unat_of_frame[OF b(1)]
    by (auto simp: free_list_pop_def page_updates nx_def[symmetric] M_def PHYS_FRAME_MAX_ORDER_def Let_def)
  moreover have "physmem_inv (s\<lparr>free_page_list := (free_page_list s)[k := nx],
      free_page_bitmap := bitmap_clear (free_page_bitmap s) i, page_nodes := ?M\<rparr>) (L(k := [] @ js))"
    by (rule unlink_inv[OF inv _ pv nx_def]) (use Lk in \<open>auto simp: M_def\<close>)
  ultimately show ?thesis by (auto simp: same_rest_def)
qed


section \<open>Allocation\<close>

lemma physmem_inv_rest [simp]:
  "physmem_inv (s\<lparr>order_allocs := x1\<rparr>) L \<longleftrightarrow> physmem_inv s L"
  "physmem_inv (s\<lparr>order_frees := x1\<rparr>) L \<longleftrightarrow> physmem_inv s L"
  "physmem_inv (s\<lparr>order_leaks := x1\<rparr>) L \<longleftrightarrow> physmem_inv s L"
  "physmem_inv (s\<lparr>frames_alloced := x2\<rparr>) L \<longleftrightarrow> physmem_inv s L"
  "physmem_inv (s\<lparr>frames_freed := x2\<rparr>) L \<longleftrightarrow> physmem_inv s L"
  "physmem_inv (s\<lparr>frames_leaked := x2\<rparr>) L \<longleftrightarrow> physmem_inv s L"
  "physmem_inv (s\<lparr>physmem_lock := x3\<rparr>) L \<longleftrightarrow> physmem_inv s L"
  "physmem_inv (s\<lparr>caches := x4\<rparr>) L \<longleftrightarrow> physmem_inv s L"
  by (simp_all add: physmem_inv_def)

lemma find_free_order_None:
  "physmem_inv s L \<Longrightarrow> k \<le> 14 \<Longrightarrow> (\<And>j. k \<le> j \<Longrightarrow> j \<le> 14 \<Longrightarrow> L j = []) \<Longrightarrow> find_free_order k s = None"
proof (induction "14 - k" arbitrary: k)
  case 0
  then show ?case using free_list_nonnull[OF 0(2,3)]
    by (subst find_free_order.simps) (simp add: PHYS_FRAME_MAX_ORDER_def)
next
  case (Suc d)
  then have "find_free_order (k + 1) s = None" by (intro Suc.hyps(1)) auto
  then show ?case by (subst find_free_order.simps) (use Suc.prems free_list_nonnull in auto)
qed

lemma find_free_order_Some:
  "physmem_inv s L \<Longrightarrow> k \<le> j \<Longrightarrow> j \<le> 14 \<Longrightarrow> L j \<noteq> [] \<Longrightarrow>
     \<exists>m. find_free_order k s = Some m \<and> k \<le> m \<and> m \<le> 14 \<and> L m \<noteq> []"
proof (induction "j - k" arbitrary: k)
  case 0
  then show ?case using free_list_nonnull[OF 0(2), of k] by (subst find_free_order.simps) auto
next
  case (Suc d)
  show ?case
  proof (cases "L k = []")
    case True
    have "\<exists>m. find_free_order (k + 1) s = Some m \<and> k + 1 \<le> m \<and> m \<le> 14 \<and> L m \<noteq> []"
      using Suc by (intro Suc.hyps(1)) auto
    moreover have "free_page_list s ! k = NULL" "\<not> k \<ge> PHYS_FRAME_MAX_ORDER"
      using True Suc free_list_nonnull[OF Suc.prems(1), of k] by (auto simp: PHYS_FRAME_MAX_ORDER_def)
    ultimately show ?thesis by (subst find_free_order.simps) auto
  next
    case False
    then show ?thesis using Suc.prems Suc.hyps(2) free_list_nonnull[OF Suc.prems(1), of k]
      by (subst find_free_order.simps) auto
  qed
qed

lemma block_frames_halves:
  "block_frames (Suc k) i = block_frames k i \<union> block_frames k (i + 2 ^ k)"
  "block_frames k i \<inter> block_frames k (i + 2 ^ k) = {}"
  by (auto simp: block_frames_def)

lemma block_frames_mono: "k \<le> m \<Longrightarrow> block_frames k i \<subseteq> block_frames m i"
proof -
  assume "k \<le> m"
  then have "(2 :: nat) ^ k \<le> 2 ^ m" by (simp add: power_increasing)
  then show ?thesis by (auto simp: block_frames_def)
qed

lemma split_block_inv:
  assumes "physmem_inv s L" "k \<le> m" "m \<le> 14" "i + 2 ^ m \<le> n_frames" "2 ^ m dvd i"
    "block_frames m i \<inter> free_frames L = {}"
  shows "\<exists>s' L'. split_block m k (frame_addr i) s = Some s' \<and> physmem_inv s' L' \<and> same_rest s s'
    \<and> free_frames L' = free_frames L \<union> (block_frames m i - block_frames k i)"
  using assms
proof (induction m arbitrary: s L)
  case 0
  then show ?case by auto
next
  case (Suc m)
  show ?case
  proof (cases "Suc m > k")
    case False
    then show ?thesis using Suc.prems by auto
  next
    case True
    let ?j = "i + 2 ^ m"
    have pos: "(0 :: nat) < 2 ^ m" by simp
    have i: "i < n_frames" "?j < n_frames" using Suc.prems(4) pos unfolding power_Suc by linarith+
    have "2 ^ m dvd i" using Suc.prems(5) by (meson dvd_trans le_imp_power_dvd lessI less_imp_le)
    then have blk: "m \<le> 14" "?j + 2 ^ m \<le> n_frames" "2 ^ m dvd ?j" "block_frames m ?j \<inter> free_frames L = {}"
      using Suc.prems block_frames_halves[of m i] by auto
    obtain s1 where s1: "free_list_push (frame_addr ?j) m s = Some s1"
      "physmem_inv s1 (L(m := ?j # L m))" "same_rest s s1"
      using free_list_push_inv[OF Suc.prems(1) blk] by blast
    have dis: "block_frames m i \<inter> free_frames (L(m := ?j # L m)) = {}"
      using Suc.prems(6) block_frames_halves[of m i] unfolding free_frames_push by blast
    have le: "k \<le> m" "i + 2 ^ m \<le> n_frames" using True i(2) by auto
    from Suc.IH[OF s1(2) le(1) blk(1) le(2) \<open>2 ^ m dvd i\<close> dis]
    obtain s' L' where s': "split_block m k (frame_addr i) s1 = Some s'" "physmem_inv s' L'" "same_rest s1 s'"
      "free_frames L' = free_frames (L(m := ?j # L m)) \<union> (block_frames m i - block_frames k i)" by blast
    have "free_frames L' = free_frames L \<union> (block_frames (Suc m) i - block_frames k i)"
      using s'(4) block_frames_halves[of m i] block_frames_mono[of k m i] True
      by (auto simp: free_frames_push)
    moreover have "of_nat i + 2 ^ m = (of_nat ?j :: u32)" by simp
    ultimately show ?thesis
      using True s1 s' same_rest_trans[OF s1(3) s'(3)] frame_index_addr[OF i(1)] address_of_index[OF i(2)] by auto
  qed
qed

lemma same_rest_lock: "same_rest s s' \<Longrightarrow> physmem_lock s' = physmem_lock s \<and> sync_initialized s' = sync_initialized s"
  by (simp add: same_rest_def)

lemma physmem_alloc_order_inv:
  assumes inv: "physmem_inv s L" and lock: "sync_initialized s \<longrightarrow> \<not> physmem_lock s"
    and k: "k \<le> 14" and free: "k \<le> j" "j \<le> 14" "L j \<noteq> []"
  shows "\<exists>i s' L'. physmem_alloc_order (int k) s = Some (frame_addr i, s') \<and> physmem_inv s' L'
    \<and> 2 ^ k dvd i \<and> i + 2 ^ k \<le> n_frames \<and> block_frames k i \<subseteq> free_frames L
    \<and> free_frames L' = free_frames L - block_frames k i
    \<and> same_rest (s\<lparr>order_allocs := bump k (order_allocs s)\<rparr>) s'"
proof -
  define s1 where "s1 = (if sync_initialized s then s\<lparr>physmem_lock := True\<rparr> else s)
      \<lparr>order_allocs := bump k (order_allocs s)\<rparr>"
  have inv1: "physmem_inv s1 L" using inv by (simp add: s1_def)
  obtain m where m: "find_free_order k s1 = Some m" "k \<le> m" "m \<le> 14" "L m \<noteq> []"
    using find_free_order_Some[OF inv1 free] by blast
  then obtain i js where Lm: "L m = i # js" by (cases "L m") auto
  note I = physmem_invD[OF inv1]
  have iL: "i \<in> set (L m)" using Lm by simp
  note b = block_bounds[OF I(1) iL]
  have dist: "distinct (L m)" using I(1) by (simp add: blocks_ok_def)
  obtain s2 where s2: "free_list_pop m s1 = Some (frame_addr i, s2)" "physmem_inv s2 (L(m := js))" "same_rest s1 s2"
    using free_list_pop_inv[OF inv1 Lm] by blast
  have ff: "free_frames (L(m := js)) = free_frames L - block_frames m i"
    using free_frames_remove[OF I(1) iL] Lm by simp
  obtain s3 L3 where s3: "split_block m k (frame_addr i) s2 = Some s3" "physmem_inv s3 L3" "same_rest s2 s3"
    "free_frames L3 = free_frames (L(m := js)) \<union> (block_frames m i - block_frames k i)"
    using split_block_inv[OF s2(2) m(2) b(2,3,4)] ff by blast
  have sub: "block_frames m i \<subseteq> free_frames L" using iL by (auto simp: free_frames_def)
  have le: "(2::nat) ^ k \<le> 2 ^ m" "(2::nat) ^ k dvd 2 ^ m" using m(2) by (auto simp: power_increasing le_imp_power_dvd)
  have "free_frames L3 = free_frames L - block_frames k i"
    using s3(4) ff sub block_frames_mono[OF m(2), of i] by auto
  moreover have "physmem_alloc_order (int k) s = Some (frame_addr i, physmem_lock_release s3)"
    using k lock m(1) s2(1) s3(1) is_frame_addr[OF b(1)]
    by (auto simp: physmem_alloc_order_def physmem_lock_acquire_def s1_def PHYS_FRAME_MAX_ORDER_def)
  moreover have "same_rest (s\<lparr>order_allocs := bump k (order_allocs s)\<rparr>) (physmem_lock_release s3)"
    using same_rest_trans[OF s2(3) s3(3)] lock
    by (auto simp: physmem_lock_release_def same_rest_def s1_def split: if_splits)
  moreover have "physmem_inv (physmem_lock_release s3) L3" using s3(2) by (simp add: physmem_lock_release_def)
  ultimately show ?thesis using b(3,4) le sub block_frames_mono[OF m(2), of i]
    by (meson add_le_cancel_left dvd_trans order_trans)
qed


section \<open>Freeing\<close>

definition buddy :: "nat \<Rightarrow> nat \<Rightarrow> nat" where
  "buddy k i = (if even (i div 2 ^ k) then i + 2 ^ k else i - 2 ^ k)"

lemma xor_buddy:
  assumes "2 ^ k dvd i"
  shows "i XOR 2 ^ k = buddy k i"
proof -
  obtain q where q: "i = push_bit k q" using assms by (auto simp: push_bit_eq_mult elim: dvdE)
  have "i XOR 2 ^ k = push_bit k (q XOR 1)" unfolding q push_bit_xor by (simp add: push_bit_of_1)
  also have "q XOR 1 = (if even q then q + 1 else q - 1)" by (simp add: xor_Suc_0_eq)
  also have "push_bit k (if even q then q + 1 else q - 1) = buddy k i"
    by (auto simp: buddy_def q push_bit_eq_mult algebra_simps diff_mult_distrib)
  finally show ?thesis .
qed

lemma xor_index:
  assumes "2 ^ k dvd i"
  shows "(of_nat i :: u32) XOR 2 ^ k = of_nat (buddy k i)"
  using xor_buddy[OF assms] by (metis of_nat_numeral of_nat_power of_nat_xor_eq)

lemma buddy_cases:
  assumes "2 ^ k dvd i"
  obtains (left) r where "i = 2 ^ Suc k * r" "buddy k i = i + 2 ^ k"
    | (right) r where "buddy k i = 2 ^ Suc k * r" "i = buddy k i + 2 ^ k"
proof -
  obtain q where q: "i = 2 ^ k * q" using assms by (auto elim: dvdE)
  show thesis
  proof (cases "even q")
    case True
    then obtain r where "q = 2 * r" by (elim evenE)
    then show thesis using left[of r] q by (simp add: buddy_def)
  next
    case False
    then obtain r where "q = 2 * r + 1" by (elim oddE)
    then show thesis using right[of r] q False by (simp add: buddy_def)
  qed
qed

lemma buddy_facts:
  assumes "2 ^ k dvd i"
  shows "2 ^ Suc k dvd min i (buddy k i)"
    "block_frames (Suc k) (min i (buddy k i)) = block_frames k i \<union> block_frames k (buddy k i)"
    "min i (buddy k i) + 2 ^ Suc k = max i (buddy k i) + 2 ^ k"
proof -
  show "2 ^ Suc k dvd min i (buddy k i)"
    by (rule buddy_cases[OF assms]) (metis dvd_triv_left le_add1 min.absorb1, metis dvd_triv_left le_add1 min.absorb2)
  show "block_frames (Suc k) (min i (buddy k i)) = block_frames k i \<union> block_frames k (buddy k i)"
    using block_frames_halves(1)[of k i] block_frames_halves(1)[of k "buddy k i"]
    by (rule_tac buddy_cases[OF assms]) (metis le_add1 min.absorb1, metis Un_commute le_add1 min.absorb2)
  show "min i (buddy k i) + 2 ^ Suc k = max i (buddy k i) + 2 ^ k"
    by (rule buddy_cases[OF assms]) (simp, metis add.assoc le_add1 max.absorb1 min.absorb2 mult_2 power_Suc)
qed

lemma coalesce_inv:
  assumes "physmem_inv s L" "k \<le> 14" "i + 2 ^ k \<le> n_frames" "2 ^ k dvd i" "block_frames k i \<inter> free_frames L = {}"
  shows "\<exists>i' k' s' L'. coalesce (of_nat i) k s = Some (of_nat i', k', s') \<and> physmem_inv s' L' \<and> same_rest s s'
    \<and> k' \<le> 14 \<and> i' + 2 ^ k' \<le> n_frames \<and> 2 ^ k' dvd i' \<and> block_frames k' i' \<inter> free_frames L' = {}
    \<and> block_frames k' i' \<union> free_frames L' = block_frames k i \<union> free_frames L"
  using assms
proof (induction "14 - k" arbitrary: k i s L)
  case 0
  then show ?case by (subst coalesce.simps) (auto simp: PHYS_FRAME_MAX_ORDER_def)
next
  case (Suc d)
  note I = physmem_invD[OF Suc.prems(1)]
  let ?b = "buddy k i" and ?m = "min i (buddy k i)"
  note bf = buddy_facts[OF Suc.prems(4)]
  have k14: "k < 14" using Suc.hyps(2) by simp
  have pos: "(0 :: nat) < 2 ^ k" by simp
  have i: "i < n_frames" using Suc.prems(3) pos by linarith
  have big: "?b < 2 ^ 32" using i Suc.prems(3) by (auto simp: buddy_def)
  have x: "(of_nat i :: u32) XOR 2 ^ k = of_nat ?b" by (rule xor_index[OF Suc.prems(4)])
  have range: "(of_nat ?b :: u32) \<ge> PHYS_FRAME_COUNT \<longleftrightarrow> ?b \<ge> n_frames"
    using big by (simp add: word_le_nat_alt unat_of_nat_u32 PHYS_FRAME_COUNT_def)
  have stop: ?case if "coalesce (of_nat i) k s = Some (of_nat i, k, s)"
    using that Suc.prems by (intro exI[of _ i] exI[of _ k] exI[of _ s] exI[of _ L]) simp
  have unfold: "coalesce (of_nat i) k s =
      (if ?b \<ge> n_frames then Some (of_nat i, k, s)
       else if \<not> bitmap_test (free_page_bitmap s) ?b then Some (of_nat i, k, s)
       else if fp_free_order (page_nodes s (frame_addr ?b)) \<noteq> of_nat k then Some (of_nat i, k, s)
       else free_list_remove (frame_addr ?b) s \<bind> (\<lambda>s.
         coalesce (if (of_nat ?b :: u32) < of_nat i then of_nat ?b else of_nat i) (k + 1) s))"
    using k14 big
    by (subst coalesce.simps)
      (simp add: PHYS_FRAME_MAX_ORDER_def x range is_block_free_def unat_of_nat_u32 address_of_index Let_def)
  show ?case
  proof (cases "?b < n_frames \<and> bitmap_test (free_page_bitmap s) ?b
      \<and> fp_free_order (page_nodes s (frame_addr ?b)) = of_nat k")
    case False
    then show ?thesis by (intro stop) (auto simp: unfold)
  next
    case True
    then obtain k' where k': "?b \<in> set (L k')" using I(6) by blast
    have "unat (of_nat k' :: u32) = unat (of_nat k :: u32)" using I(5)[OF k'] True by simp
    then have bL: "?b \<in> set (L k)"
      using k' block_bounds(2)[OF I(1) k'] Suc.prems(2) by (simp add: unat_of_nat_u32)
    note bb = block_bounds[OF I(1) bL]
    obtain s1 where s1: "free_list_remove (frame_addr ?b) s = Some s1"
      "physmem_inv s1 (L(k := remove1 ?b (L k)))" "same_rest s s1"
      using free_list_remove_inv[OF Suc.prems(1) bL] by blast
    have ff: "free_frames (L(k := remove1 ?b (L k))) = free_frames L - block_frames k ?b"
      by (rule free_frames_remove[OF I(1) bL])
    have bsub: "block_frames k ?b \<subseteq> free_frames L" using bL by (auto simp: free_frames_def)
    have mb: "?m + 2 ^ (k + 1) \<le> n_frames" using bf(3) Suc.prems(3) bb(3) by (simp add: max_def split: if_splits)
    have "block_frames (k + 1) ?m \<inter> free_frames (L(k := remove1 ?b (L k))) = {}"
      using bf(2) ff Suc.prems(5) by auto
    moreover have "d = 14 - (k + 1)" "k + 1 \<le> 14" "2 ^ (k + 1) dvd ?m" using Suc.hyps(2) bf(1) by auto
    ultimately obtain i' k' s' L' where r: "coalesce (of_nat ?m) (k + 1) s1 = Some (of_nat i', k', s')"
      "physmem_inv s' L'" "same_rest s1 s'" "k' \<le> 14" "i' + 2 ^ k' \<le> n_frames" "2 ^ k' dvd i'"
      "block_frames k' i' \<inter> free_frames L' = {}"
      "block_frames k' i' \<union> free_frames L' = block_frames (k + 1) ?m \<union> free_frames (L(k := remove1 ?b (L k)))"
      using Suc.hyps(1)[of "k + 1" s1 "L(k := remove1 ?b (L k))" ?m] s1(2) mb by blast
    have "(if (of_nat ?b :: u32) < of_nat i then of_nat ?b else of_nat i) = (of_nat ?m :: u32)"
      using big i by (auto simp: word_less_nat_alt unat_of_nat_u32 min_def)
    then have "coalesce (of_nat i) k s = Some (of_nat i', k', s')" using True s1(1) r(1) by (simp add: unfold)
    moreover have "block_frames k' i' \<union> free_frames L' = block_frames k i \<union> free_frames L"
      using r(8) bf(2) ff bsub by auto
    ultimately show ?thesis using r same_rest_trans[OF s1(3) r(3)] by blast
  qed
qed

lemma physmem_free_order_inv:
  assumes inv: "physmem_inv s L" and lock: "sync_initialized s \<longrightarrow> \<not> physmem_lock s"
    and blk: "k \<le> 14" "i + 2 ^ k \<le> n_frames" "2 ^ k dvd i" "block_frames k i \<inter> free_frames L = {}"
  shows "\<exists>s' L'. physmem_free_order (frame_addr i) (int k) s = Some s' \<and> physmem_inv s' L'
    \<and> free_frames L' = free_frames L \<union> block_frames k i
    \<and> same_rest (s\<lparr>order_frees := bump k (order_frees s)\<rparr>) s'"
proof -
  define s1 where "s1 = (if sync_initialized s then s\<lparr>physmem_lock := True\<rparr> else s)
      \<lparr>order_frees := bump k (order_frees s)\<rparr>"
  have inv1: "physmem_inv s1 L" using inv by (simp add: s1_def)
  have "(0 :: nat) < 2 ^ k" by simp
  then have i: "i < n_frames" using blk(2) by linarith
  obtain i' k' s2 L2 where c: "coalesce (of_nat i) k s1 = Some (of_nat i', k', s2)" "physmem_inv s2 L2"
    "same_rest s1 s2" "k' \<le> 14" "i' + 2 ^ k' \<le> n_frames" "2 ^ k' dvd i'" "block_frames k' i' \<inter> free_frames L2 = {}"
    "block_frames k' i' \<union> free_frames L2 = block_frames k i \<union> free_frames L"
    using coalesce_inv[OF inv1 blk] by blast
  obtain s3 where s3: "free_list_push (frame_addr i') k' s2 = Some s3"
    "physmem_inv s3 (L2(k' := i' # L2 k'))" "same_rest s2 s3"
    using free_list_push_inv[OF c(2,4-7)] by blast
  have "(0 :: nat) < 2 ^ k'" by simp
  then have i': "i' < n_frames" using c(5) by linarith
  have "physmem_free_order (frame_addr i) (int k) s = Some (physmem_lock_release s3)"
    using blk lock c(1) s3(1) frame_addr_nonnull[OF i] is_frame_addr[OF i] frame_index_addr[OF i]
      index_aligned[OF i blk(1)] address_of_index[OF i']
    by (auto simp: physmem_free_order_def physmem_lock_acquire_def s1_def PHYS_FRAME_MAX_ORDER_def)
  moreover have "same_rest (s\<lparr>order_frees := bump k (order_frees s)\<rparr>) (physmem_lock_release s3)"
    using same_rest_trans[OF c(3) s3(3)] lock
    by (auto simp: physmem_lock_release_def same_rest_def s1_def split: if_splits)
  moreover have "physmem_inv (physmem_lock_release s3) (L2(k' := i' # L2 k'))"
    using s3(2) by (simp add: physmem_lock_release_def)
  ultimately show ?thesis using c(8) free_frames_push[of L2 k' i'] by blast
qed


section \<open>Initialisation frees every frame\<close>

lemma unat_pow_order: "k \<le> 14 \<Longrightarrow> unat (2 ^ k :: u32) = 2 ^ k"
proof -
  assume "k \<le> 14"
  then have "(2 :: nat) ^ k \<le> 2 ^ 14" by (rule power_increasing) simp
  then have "unat (of_nat (2 ^ k) :: u32) = 2 ^ k" by (intro unat_of_nat_u32) simp
  then show ?thesis by simp
qed

lemma max_fitting_order_spec:
  "k \<le> 14 \<Longrightarrow> 0 < r \<Longrightarrow> max_fitting_order k r \<le> k \<and> 2 ^ max_fitting_order k r \<le> unat r"
proof (induction k r rule: max_fitting_order.induct)
  case (1 k r)
  show ?case
  proof (cases "0 < k \<and> r < 2 ^ k")
    case True
    then have "max_fitting_order k r = max_fitting_order (k - 1) r"
      by (subst max_fitting_order.simps) simp
    moreover have "max_fitting_order (k - 1) r \<le> k - 1 \<and> 2 ^ max_fitting_order (k - 1) r \<le> unat r"
      using 1 True by auto
    ultimately show ?thesis by auto
  next
    case False
    then have "max_fitting_order k r = k" by (subst max_fitting_order.simps) auto
    moreover have "0 < unat r" using 1(3) by (simp add: word_less_nat_alt)
    ultimately show ?thesis using False 1(2) by (auto simp: word_less_nat_alt unat_pow_order)
  qed
qed

lemma max_aligned_order_spec:
  "k \<le> 14 \<Longrightarrow> i < n_frames \<Longrightarrow> max_aligned_order k (of_nat i) \<le> k \<and> 2 ^ max_aligned_order k (of_nat i) dvd i"
proof (induction k)
  case 0
  then show ?case by (subst (1 2) max_aligned_order.simps) simp
next
  case (Suc k)
  then show ?case using index_aligned[of i "Suc k"]
    by (subst (1 2) max_aligned_order.simps) auto
qed

lemma init_blocks_inv:
  "physmem_inv s L \<Longrightarrow> free_frames L = {0..<p} \<Longrightarrow> p + r = n_frames \<Longrightarrow>
     \<exists>s' L'. physmem_init_blocks (of_nat r) (of_nat p) s = Some s' \<and> physmem_inv s' L'
       \<and> free_frames L' = {0..<n_frames} \<and> same_rest s s'"
proof (induction r arbitrary: p s L rule: less_induct)
  case (less r)
  show ?case
  proof (cases "r = 0")
    case True
    then show ?thesis using less.prems by (subst physmem_init_blocks.simps) auto
  next
    case False
    let ?k = "init_block_order (of_nat r) (of_nat p)"
    have r: "unat (of_nat r :: u32) = r" "(0 :: u32) < of_nat r" "p < n_frames"
      using less.prems(3) False by (auto simp: unat_of_nat_u32 word_less_nat_alt)
    have k0: "max_fitting_order 14 (of_nat r) \<le> 14" "2 ^ max_fitting_order 14 (of_nat r) \<le> r"
      using max_fitting_order_spec[of 14 "of_nat r"] r by auto
    then have k1: "?k \<le> max_fitting_order 14 (of_nat r)" "2 ^ ?k dvd p"
      using max_aligned_order_spec[OF k0(1) r(3)] by (auto simp: init_block_order_def PHYS_FRAME_MAX_ORDER_def)
    have k: "?k \<le> 14" "2 ^ ?k \<le> r"
      using k0 k1(1) order_trans[OF power_increasing[OF k1(1), of "2::nat"] k0(2)] by simp_all
    have "block_frames ?k p \<inter> free_frames L = {}" using less.prems(2) by (auto simp: block_frames_def)
    then obtain s1 where s1: "free_list_push (frame_addr p) ?k s = Some s1"
      "physmem_inv s1 (L(?k := p # L ?k))" "same_rest s s1"
      using free_list_push_inv[OF less.prems(1) k(1) _ k1(2)] k(2) less.prems(3) by auto
    have ff: "free_frames (L(?k := p # L ?k)) = {0..<p + 2 ^ ?k}"
      unfolding free_frames_push less.prems(2) by (auto simp: block_frames_def)
    obtain s' L' where s': "physmem_init_blocks (of_nat (r - 2 ^ ?k)) (of_nat (p + 2 ^ ?k)) s1 = Some s'"
      "physmem_inv s' L'" "free_frames L' = {0..<n_frames}" "same_rest s1 s'"
      using less.IH[OF _ s1(2) ff, of "r - 2 ^ ?k"] k(2) less.prems(3) False by auto
    have "(of_nat r :: u32) - 2 ^ ?k = of_nat (r - 2 ^ ?k)" "(of_nat p :: u32) + 2 ^ ?k = of_nat (p + 2 ^ ?k)"
      using k(2) by (simp_all add: of_nat_diff)
    then show ?thesis
      using r s1 s' same_rest_trans[OF s1(3) s'(4)] address_of_index[OF r(3)]
      by (subst physmem_init_blocks.simps) auto
  qed
qed

lemma physmem_init_inv:
  assumes "free_page_bitmap s = replicate FREE_PAGE_BITMAP_SIZE 0"
  shows "\<exists>s' L. physmem_init s = Some s' \<and> physmem_inv s' L \<and> free_frames L = {0..<n_frames}
    \<and> caches s' = map (\<lambda>c. c\<lparr>pc_count := 0, pc_pages := replicate LOCAL_CACHE_SIZE NULL\<rparr>) (caches s)
    \<and> sync_initialized s' = sync_initialized s \<and> physmem_lock s' = physmem_lock s"
proof -
  let ?s = "s\<lparr>free_page_list := replicate 15 NULL\<rparr>"
  have "physmem_inv ?s (\<lambda>_. [])"
    using assms bitmap_test_zero[of _ 4055]
    by (auto simp: physmem_inv_def blocks_ok_def FREE_PAGE_BITMAP_SIZE_def)
  from init_blocks_inv[OF this, of 0 n_frames]
  obtain s1 L1 where s1: "physmem_init_blocks (of_nat n_frames) (of_nat 0) ?s = Some s1" "physmem_inv s1 L1"
      "free_frames L1 = {0..<n_frames}" "same_rest ?s s1" by (auto simp: free_frames_def)
  have "physmem_init s = Some (s1\<lparr>caches := map (\<lambda>c. c\<lparr>pc_count := 0,
      pc_pages := replicate LOCAL_CACHE_SIZE NULL\<rparr>) (caches s1)\<rparr>)"
    using s1(1) by (simp add: physmem_init_def FREE_PAGE_BITMAP_SIZE_def PHYS_FRAME_COUNT_def
        PHYS_FRAME_MAX_ORDER_def FRAMES_ADDR_END_def FRAMES_ADDR_START_def FRAME_SIZE_def)
  then show ?thesis using s1(2-4) by (auto simp: same_rest_def)
qed

end
