(* ===== verification/Physmem_Cache.thy ===== *)
theory Physmem_Cache
  imports Physmem
begin

text \<open>
  The theorems on the frame allocator: the buddy allocator of \<open>Physmem\<close>, and the
  per-core caches in front of it.  A frame is \<^emph>\<open>available\<close> when a free block contains it
  or some core's cache holds it.
\<close>

section \<open>What is available\<close>

definition frame_no :: "addr \<Rightarrow> nat" where
  "frame_no a = (unat a - 0x100000) div 4096"

definition cache_frames :: "physmem_local_cache \<Rightarrow> nat list" where
  "cache_frames c = map frame_no (take (pc_count c) (pc_pages c))"

definition cached_frames :: "physmem \<Rightarrow> nat list" where
  "cached_frames s = concat (map cache_frames (caches s))"

definition cache_ok :: "bool \<Rightarrow> physmem_local_cache \<Rightarrow> bool" where
  "cache_ok sync c \<longleftrightarrow> pc_count c \<le> LOCAL_CACHE_SIZE \<and> length (pc_pages c) = LOCAL_CACHE_SIZE
     \<and> (sync \<longrightarrow> \<not> pc_lock c) \<and> list_all physmem_is_frame_address (take (pc_count c) (pc_pages c))"

definition physmem_ok :: "physmem \<Rightarrow> (nat \<Rightarrow> nat list) \<Rightarrow> bool" where
  "physmem_ok s L \<longleftrightarrow> physmem_inv s L \<and> (sync_initialized s \<longrightarrow> \<not> physmem_lock s)
     \<and> (\<forall>c \<in> set (caches s). cache_ok (sync_initialized s) c)
     \<and> distinct (cached_frames s) \<and> set (cached_frames s) \<inter> free_frames L = {}"

definition available :: "physmem \<Rightarrow> (nat \<Rightarrow> nat list) \<Rightarrow> nat set" where
  "available s L = free_frames L \<union> set (cached_frames s)"

lemma frame_no_addr [simp]: "i < n_frames \<Longrightarrow> frame_no (frame_addr i) = i"
  by (simp add: frame_no_def unat_frame_addr)

lemma frame_addr_no: "physmem_is_frame_address a \<Longrightarrow> frame_addr (frame_no a) = a \<and> frame_no a < n_frames"
  by (elim frame_address_cases) simp

lemma free_frames_bound: "physmem_inv s L \<Longrightarrow> f \<in> free_frames L \<Longrightarrow> f < n_frames"
  using block_bounds(3)[OF physmem_invD(1)] by (fastforce simp: free_frames_def block_frames_def)

lemma free_frames_finite: "physmem_inv s L \<Longrightarrow> finite (free_frames L)"
  using free_frames_bound by (metis finite_lessThan finite_subset lessThan_iff subsetI)

lemma free_block_exists:
  assumes "physmem_inv s L" "free_frames L \<noteq> {}"
  obtains j where "j \<le> 14" "L j \<noteq> []"
  using assms block_bounds(2)[OF physmem_invD(1)[OF assms(1)]] by (fastforce simp: free_frames_def)

lemma block_frames_0 [simp]: "block_frames 0 i = {i}"
  by (auto simp: block_frames_def)

lemma cached_update:
  assumes "me < length cs"
  obtains X Y where "\<And>c. concat (map f (cs[me := c])) = X @ f c @ Y"
    "concat (map f cs) = X @ f (cs ! me) @ Y"
proof
  let ?X = "concat (map f (take me cs))" and ?Y = "concat (map f (drop (Suc me) cs))"
  show u: "\<And>c. concat (map f (cs[me := c])) = ?X @ f c @ ?Y"
    using assms by (simp add: upd_conv_take_nth_drop)
  show "concat (map f cs) = ?X @ f (cs ! me) @ ?Y" using u[of "cs ! me"] by simp
qed


section \<open>Refilling and flushing a cache\<close>

lemma refill_cache_inv:
  "physmem_inv s L \<Longrightarrow> (sync_initialized s \<longrightarrow> \<not> physmem_lock s) \<Longrightarrow> me < length (caches s) \<Longrightarrow>
   length (pc_pages (caches s ! me)) = 64 \<Longrightarrow> n \<le> 32 \<Longrightarrow> n \<le> card (free_frames L) \<Longrightarrow>
   \<exists>new s' L' pg. refill_cache me n s = Some s' \<and> physmem_inv s' L' \<and> length new = n \<and> distinct new
     \<and> set new \<subseteq> free_frames L \<and> free_frames L' = free_frames L - set new
     \<and> caches s' = (caches s)[me := (caches s ! me)\<lparr>pc_pages := pg\<rparr>] \<and> length pg = 64
     \<and> take 32 pg = take (32 - n) (pc_pages (caches s ! me)) @ map frame_addr new
     \<and> sync_initialized s' = sync_initialized s \<and> physmem_lock s' = physmem_lock s
     \<and> frames_alloced s' = frames_alloced s"
proof (induction n arbitrary: s L)
  case 0
  then show ?case
    by (intro exI[of _ "[]"] exI[of _ s] exI[of _ L] exI[of _ "pc_pages (caches s ! me)"]) simp
next
  case (Suc n)
  let ?c = "caches s ! me"
  obtain j where "0 \<le> j" "j \<le> 14" "L j \<noteq> []"
    using free_block_exists[OF Suc.prems(1)] Suc.prems(6) by (metis card.empty not_less_eq_eq zero_le)
  from physmem_alloc_order_inv[OF Suc.prems(1,2) _ this] obtain i s1 L1 where
    a: "physmem_alloc_order 0 s = Some (frame_addr i, s1)" "physmem_inv s1 L1" "i < n_frames"
      "i \<in> free_frames L" "free_frames L1 = free_frames L - {i}"
      "same_rest (s\<lparr>order_allocs := bump 0 (order_allocs s)\<rparr>) s1" by auto
  define s2 where "s2 = set_cache me (?c\<lparr>pc_pages := (pc_pages ?c)[32 - Suc n := frame_addr i]\<rparr>) s1"
  have s1: "caches s1 = caches s" "sync_initialized s1 = sync_initialized s" "physmem_lock s1 = physmem_lock s"
    "frames_alloced s1 = frames_alloced s" using a(6) by (auto simp: same_rest_def)
  have s2: "physmem_inv s2 L1" "caches s2 = (caches s)[me := ?c\<lparr>pc_pages := (pc_pages ?c)[32 - Suc n := frame_addr i]\<rparr>]"
    "sync_initialized s2 = sync_initialized s" "physmem_lock s2 = physmem_lock s" "frames_alloced s2 = frames_alloced s"
    using a(2) s1 by (auto simp: s2_def set_cache_def)
  have "n \<le> card (free_frames L1)" using a(4,5) Suc.prems(6) free_frames_finite[OF Suc.prems(1)] by simp
  then obtain new s' L' pg where r: "refill_cache me n s2 = Some s'" "physmem_inv s' L'" "length new = n"
    "distinct new" "set new \<subseteq> free_frames L1" "free_frames L' = free_frames L1 - set new"
    "caches s' = (caches s2)[me := (caches s2 ! me)\<lparr>pc_pages := pg\<rparr>]" "length pg = 64"
    "take 32 pg = take (32 - n) (pc_pages (caches s2 ! me)) @ map frame_addr new"
    "sync_initialized s' = sync_initialized s2" "physmem_lock s' = physmem_lock s2" "frames_alloced s' = frames_alloced s2"
    using Suc.IH[OF s2(1)] s2 Suc.prems by auto
  have "32 - n = Suc (32 - Suc n)" using Suc.prems(5) by simp
  then have "take (32 - n) ((pc_pages ?c)[32 - Suc n := frame_addr i]) = take (32 - Suc n) (pc_pages ?c) @ [frame_addr i]"
    using Suc.prems(4,5) by (simp add: take_Suc_conv_app_nth)
  moreover have "refill_cache me (Suc n) s = Some s'"
    using a(1) r(1) s1 by (simp add: s2_def LOCAL_CACHE_REFILL_def)
  ultimately show ?case
    using r s2 a(4,5) Suc.prems(3)
    by (intro exI[of _ "i # new"] exI[of _ s'] exI[of _ L'] exI[of _ pg]) auto
qed

lemma cache_count_self: "pc_count (cs ! me) = n \<Longrightarrow> cs[me := (cs ! me)\<lparr>pc_count := n\<rparr>] = cs"
  by (cases "cs ! me") (metis list_update_id physmem_local_cache.update_convs(2) physmem_local_cache.select_convs(2))

lemma flush_cache_inv:
  "physmem_inv s L \<Longrightarrow> (sync_initialized s \<longrightarrow> \<not> physmem_lock s) \<Longrightarrow> me < length (caches s) \<Longrightarrow>
   take n (pc_pages (caches s ! me)) = map frame_addr fr \<Longrightarrow> length fr = n \<Longrightarrow>
   distinct fr \<Longrightarrow> set fr \<inter> free_frames L = {} \<Longrightarrow> \<forall>i \<in> set fr. i < n_frames \<Longrightarrow>
   pc_count (caches s ! me) = n \<Longrightarrow> n \<le> length (pc_pages (caches s ! me)) \<Longrightarrow>
   \<exists>s' L'. flush_cache me n s = Some s' \<and> physmem_inv s' L'
     \<and> free_frames L' = free_frames L \<union> set (drop 31 fr)
     \<and> caches s' = (caches s)[me := (caches s ! me)\<lparr>pc_count := min n 31\<rparr>]
     \<and> sync_initialized s' = sync_initialized s \<and> physmem_lock s' = physmem_lock s
     \<and> frames_freed s' = frames_freed s"
proof (induction n arbitrary: s L fr)
  case 0
  then show ?case by (intro exI[of _ s] exI[of _ L]) (simp add: cache_count_self)
next
  case (Suc n)
  let ?c = "caches s ! me"
  show ?case
  proof (cases "Suc n \<ge> 32")
    case False
    then show ?thesis using Suc.prems
      by (intro exI[of _ s] exI[of _ L]) (simp add: LOCAL_CACHE_REFILL_def min_def cache_count_self)
  next
    case True
    obtain fr1 i where fr: "fr = fr1 @ [i]" "length fr1 = n"
      using Suc.prems(5) by (metis length_Suc_conv_rev)
    have i: "i < n_frames" "i \<notin> free_frames L" "i \<notin> set fr1" using Suc.prems(6-8) fr by auto
    have tk: "take n (pc_pages ?c) = map frame_addr fr1" "pc_pages ?c ! n = frame_addr i"
      using Suc.prems(4,10) fr by (auto simp: take_Suc_conv_app_nth)
    obtain s1 L1 where s1: "physmem_free_order (frame_addr i) 0 s = Some s1" "physmem_inv s1 L1"
      "free_frames L1 = free_frames L \<union> {i}" "same_rest (s\<lparr>order_frees := bump 0 (order_frees s)\<rparr>) s1"
      using physmem_free_order_inv[OF Suc.prems(1,2), of 0 i] i by auto
    define s2 where "s2 = set_cache me (?c\<lparr>pc_count := n\<rparr>) s1"
    have rest: "caches s1 = caches s" "sync_initialized s1 = sync_initialized s" "physmem_lock s1 = physmem_lock s"
      "frames_freed s1 = frames_freed s" using s1(4) by (auto simp: same_rest_def)
    have s2: "physmem_inv s2 L1" "caches s2 = (caches s)[me := ?c\<lparr>pc_count := n\<rparr>]"
      "sync_initialized s2 = sync_initialized s" "physmem_lock s2 = physmem_lock s" "frames_freed s2 = frames_freed s"
      using s1(2) rest by (auto simp: s2_def set_cache_def)
    obtain s' L' where r: "flush_cache me n s2 = Some s'" "physmem_inv s' L'"
      "free_frames L' = free_frames L1 \<union> set (drop 31 fr1)"
      "caches s' = (caches s2)[me := (caches s2 ! me)\<lparr>pc_count := min n 31\<rparr>]"
      "sync_initialized s' = sync_initialized s2" "physmem_lock s' = physmem_lock s2" "frames_freed s' = frames_freed s2"
      using Suc.IH[OF s2(1), of fr1] s2 Suc.prems fr tk s1(3) i by auto
    have "drop 31 fr = drop 31 fr1 @ [i]" using fr True by simp
    moreover have "flush_cache me (Suc n) s = Some s'"
      using True s1(1) tk(2) r(1) rest by (simp add: s2_def LOCAL_CACHE_REFILL_def)
    ultimately show ?thesis using r s2 s1(3) Suc.prems(3) True
      by (intro exI[of _ s'] exI[of _ L']) (auto simp: min_def)
  qed
qed


section \<open>Allocating and freeing single pages\<close>

lemma physmem_ok_update:
  assumes ok: "physmem_ok s L" and me: "me < length (caches s)"
    and s': "physmem_inv s' L'" "caches s' = (caches s)[me := c']" "sync_initialized s' = sync_initialized s"
      "physmem_lock s' = physmem_lock s"
    and c': "cache_ok (sync_initialized s) c'" "distinct (cache_frames c')"
      "set (cache_frames c') \<inter> free_frames L' = {}"
    and sub: "set (cache_frames c') \<union> free_frames L' \<subseteq> set (cache_frames (caches s ! me)) \<union> free_frames L \<union> N"
    and N: "N \<inter> available s L = {}"
  shows "physmem_ok s' L' \<and> available s' L' =
    (available s L - (set (cache_frames (caches s ! me)) \<union> free_frames L)) \<union> set (cache_frames c') \<union> free_frames L'"
proof -
  obtain X Y where X: "cached_frames s' = X @ cache_frames c' @ Y"
      "cached_frames s = X @ cache_frames (caches s ! me) @ Y"
    using cached_update[OF me, of cache_frames] by (metis cached_frames_def s'(2))
  have d: "distinct (X @ cache_frames (caches s ! me) @ Y)"
    "set (X @ cache_frames (caches s ! me) @ Y) \<inter> free_frames L = {}"
    using ok X by (auto simp: physmem_ok_def)
  have n: "N \<inter> set X = {}" "N \<inter> set Y = {}" using N X(2) by (auto simp: available_def)
  have "distinct (cached_frames s')" unfolding X(1) using d n sub c'(2) by auto
  moreover have "set (cached_frames s') \<inter> free_frames L' = {}" unfolding X(1) using d n sub c'(3) by auto
  moreover have "\<forall>c \<in> set (caches s'). cache_ok (sync_initialized s') c"
    using ok c'(1) s'(2,3) by (auto simp: physmem_ok_def dest!: set_update_subset_insert[THEN subsetD])
  moreover have "available s' L' =
    (available s L - (set (cache_frames (caches s ! me)) \<union> free_frames L)) \<union> set (cache_frames c') \<union> free_frames L'"
    using d by (auto simp: available_def X)
  ultimately show ?thesis using ok s' by (simp add: physmem_ok_def)
qed

lemma cache_frames_addrs:
  assumes "cache_ok sync c"
  shows "map frame_addr (cache_frames c) = take (pc_count c) (pc_pages c)"
    "\<forall>i \<in> set (cache_frames c). i < n_frames" "length (cache_frames c) = pc_count c"
  using assms frame_addr_no
  by (auto simp: cache_ok_def cache_frames_def list_all_iff LOCAL_CACHE_SIZE_def intro!: map_idI)

lemma physmem_ok_cache:
  assumes "physmem_ok s L" "me < length (caches s)"
  shows "cache_ok (sync_initialized s) (caches s ! me)" "distinct (cache_frames (caches s ! me))"
    "set (cache_frames (caches s ! me)) \<inter> free_frames L = {}" "set (cache_frames (caches s ! me)) \<subseteq> available s L"
proof -
  obtain X Y where X: "cached_frames s = X @ cache_frames (caches s ! me) @ Y"
    using cached_update[OF assms(2), of cache_frames] by (metis cached_frames_def)
  show "cache_ok (sync_initialized s) (caches s ! me)" "distinct (cache_frames (caches s ! me))"
    "set (cache_frames (caches s ! me)) \<inter> free_frames L = {}" "set (cache_frames (caches s ! me)) \<subseteq> available s L"
    using assms X by (auto simp: physmem_ok_def available_def)
qed

text \<open>The locked section of \<open>physmem_alloc\<close> and \<open>physmem_free\<close> sees the same cache.\<close>

lemma cache_lock_acquire_ok:
  assumes "physmem_ok s L" "me < length (caches s)"
  obtains s1 where "cache_lock_acquire me s = Some s1" "physmem_inv s1 L"
    "sync_initialized s1 = sync_initialized s" "physmem_lock s1 = physmem_lock s"
    "caches s1 = (caches s)[me := (caches s ! me)\<lparr>pc_lock := sync_initialized s \<or> pc_lock (caches s ! me)\<rparr>]"
proof -
  have "\<not> sync_initialized s \<Longrightarrow> (caches s ! me)\<lparr>pc_lock := pc_lock (caches s ! me)\<rparr> = caches s ! me"
    by (cases "caches s ! me") simp
  then show thesis
    using that assms physmem_ok_cache(1)[OF assms]
    by (cases "sync_initialized s")
      (auto simp: cache_lock_acquire_def set_cache_def cache_ok_def physmem_ok_def)
qed

lemma cache_lock_release_simps [simp]:
  "physmem_inv (cache_lock_release me s) L \<longleftrightarrow> physmem_inv s L"
  "sync_initialized (cache_lock_release me s) = sync_initialized s"
  "physmem_lock (cache_lock_release me s) = physmem_lock s"
  by (simp_all add: cache_lock_release_def set_cache_def)

lemma fill_cache_inv:
  assumes inv: "physmem_inv s L" "sync_initialized s \<longrightarrow> \<not> physmem_lock s" and me: "me < length (caches s)"
    and c: "length (pc_pages (caches s ! me)) = 64" "pc_count (caches s ! me) \<le> 64"
    and fr: "take (pc_count (caches s ! me)) (pc_pages (caches s ! me)) = map frame_addr fr" "distinct fr"
      "set fr \<inter> free_frames L = {}"
    and enough: "pc_count (caches s ! me) = 0 \<Longrightarrow> 32 \<le> card (free_frames L)"
  shows "\<exists>s' L' pg n fr'. fill_cache me s = Some s' \<and> physmem_inv s' L'
    \<and> caches s' = (caches s)[me := (caches s ! me)\<lparr>pc_pages := pg, pc_count := n\<rparr>]
    \<and> sync_initialized s' = sync_initialized s \<and> physmem_lock s' = physmem_lock s
    \<and> length pg = 64 \<and> 0 < n \<and> n \<le> 64 \<and> take n pg = map frame_addr fr' \<and> distinct fr'
    \<and> set fr' \<inter> free_frames L' = {} \<and> set fr' \<union> free_frames L' = set fr \<union> free_frames L"
proof (cases "pc_count (caches s ! me) = 0")
  case False
  have "caches s ! me = (caches s ! me)\<lparr>pc_pages := pc_pages (caches s ! me), pc_count := pc_count (caches s ! me)\<rparr>"
    by simp
  then show ?thesis using False assms
    by (intro exI[of _ s] exI[of _ L] exI[of _ "pc_pages (caches s ! me)"] exI[of _ "pc_count (caches s ! me)"]
        exI[of _ fr]) (simp add: fill_cache_def)
next
  case True
  obtain new s' L' pg where r: "refill_cache me 32 s = Some s'" "physmem_inv s' L'" "length new = 32" "distinct new"
     "set new \<subseteq> free_frames L" "free_frames L' = free_frames L - set new"
     "caches s' = (caches s)[me := (caches s ! me)\<lparr>pc_pages := pg\<rparr>]" "length pg = 64"
     "take 32 pg = map frame_addr new"
     "sync_initialized s' = sync_initialized s" "physmem_lock s' = physmem_lock s"
    using refill_cache_inv[OF inv me c(1) _ enough[OF True]] by auto
  have "fr = []" using fr(1) True by simp
  then show ?thesis using r True me
    by (intro exI[of _ "set_cache me ((caches s' ! me)\<lparr>pc_count := 32\<rparr>) s'"] exI[of _ L'] exI[of _ pg]
        exI[of _ 32] exI[of _ new]) (auto simp: fill_cache_def LOCAL_CACHE_REFILL_def set_cache_def)
qed

lemma physmem_alloc_inv:
  assumes ok: "physmem_ok s L" and me: "me < length (caches s)"
    and enough: "pc_count (caches s ! me) = 0 \<Longrightarrow> 32 \<le> card (free_frames L)"
  shows "\<exists>i s' L'. physmem_alloc me s = Some (frame_addr i, s') \<and> physmem_ok s' L' \<and> i < n_frames
    \<and> i \<in> available s L \<and> available s' L' = available s L - {i} \<and> length (caches s') = length (caches s)"
proof -
  let ?c = "caches s ! me" and ?lock = "sync_initialized s \<or> pc_lock (caches s ! me)"
  note co = physmem_ok_cache[OF ok me] and ca = cache_frames_addrs[OF physmem_ok_cache(1)[OF ok me]]
  obtain s1 where s1: "cache_lock_acquire me s = Some s1" "physmem_inv s1 L"
    "sync_initialized s1 = sync_initialized s" "physmem_lock s1 = physmem_lock s"
    "caches s1 = (caches s)[me := ?c\<lparr>pc_lock := ?lock\<rparr>]"
    by (rule cache_lock_acquire_ok[OF ok me])
  define s2 where "s2 = s1\<lparr>frames_alloced := frames_alloced s1 + 1\<rparr>"
  have s2: "physmem_inv s2 L" "sync_initialized s2 \<longrightarrow> \<not> physmem_lock s2" "me < length (caches s2)"
    "caches s2 ! me = ?c\<lparr>pc_lock := ?lock\<rparr>"
    using s1 ok me by (auto simp: s2_def physmem_ok_def)
  obtain s3 L3 pg n fr where s3: "fill_cache me s2 = Some s3" "physmem_inv s3 L3"
      "caches s3 = (caches s2)[me := (caches s2 ! me)\<lparr>pc_pages := pg, pc_count := n\<rparr>]"
      "sync_initialized s3 = sync_initialized s2" "physmem_lock s3 = physmem_lock s2"
      "length pg = 64" "0 < n" "n \<le> 64" "take n pg = map frame_addr fr" "distinct fr"
      "set fr \<inter> free_frames L3 = {}" "set fr \<union> free_frames L3 = set (cache_frames ?c) \<union> free_frames L"
    using fill_cache_inv[OF s2(1-3), of "cache_frames ?c"] s2(4) co ca enough
    by (auto simp: cache_ok_def LOCAL_CACHE_SIZE_def)
  obtain fr1 i where fr: "fr = fr1 @ [i]" "length fr1 = n - 1"
    using s3(6-9) by (metis Suc_pred' length_Suc_conv_rev length_map length_take min.absorb2)
  have pg: "take (n - 1) pg = map frame_addr fr1" "pg ! (n - 1) = frame_addr i"
    using s3(6-9) fr take_Suc_conv_app_nth[of "n - 1" pg] by auto
  have bound: "\<forall>j \<in> set fr. j < n_frames"
    using s3(12) ca(2) free_frames_bound[OF s1(2)] by blast
  define c' where "c' = ?c\<lparr>pc_lock := \<not> sync_initialized s \<and> pc_lock ?c, pc_pages := pg, pc_count := n - 1\<rparr>"
  have c': "cache_frames c' = fr1" "cache_ok (sync_initialized s) c'"
    using pg s3(6,8) bound fr is_frame_addr
    by (auto simp: cache_frames_def c'_def cache_ok_def LOCAL_CACHE_SIZE_def list_all_iff intro!: map_idI)
  define s4 where "s4 = cache_lock_release me (set_cache me ((caches s3 ! me)\<lparr>pc_count := n - 1\<rparr>) s3)"
  have s4: "physmem_inv s4 L3" "caches s4 = (caches s)[me := c']" "sync_initialized s4 = sync_initialized s"
    "physmem_lock s4 = physmem_lock s"
    using s1(3-5) s3(2-5) s2(4) me
    by (cases "caches s ! me", auto simp: s4_def cache_lock_release_def set_cache_def c'_def s2_def)+
  have "physmem_alloc me s = Some (frame_addr i, s4)"
    using s1(1) s3(1,3) s2(3) pg(2) by (simp add: physmem_alloc_def s2_def[symmetric] s4_def Let_def)
  moreover have "i \<in> set (cache_frames ?c) \<union> free_frames L" using s3(12) fr by auto
  moreover have "set fr1 \<union> free_frames L3 = set (cache_frames ?c) \<union> free_frames L - {i}"
    using s3(10-12) fr by auto
  ultimately show ?thesis
    using physmem_ok_update[OF ok me s4 c'(2), of "{}"] c'(1) s3(10,11) fr co(4) bound s4(2)
    by (intro exI[of _ i] exI[of _ s4] exI[of _ L3]) (auto simp: available_def)
qed

lemma make_cache_room_inv:
  assumes inv: "physmem_inv s L" "sync_initialized s \<longrightarrow> \<not> physmem_lock s" and me: "me < length (caches s)"
    and c: "length (pc_pages (caches s ! me)) = 64" "pc_count (caches s ! me) \<le> 64"
    and fr: "take (pc_count (caches s ! me)) (pc_pages (caches s ! me)) = map frame_addr fr" "distinct fr"
      "set fr \<inter> free_frames L = {}" "\<forall>i \<in> set fr. i < n_frames"
  shows "\<exists>s' L' n fr'. make_cache_room me s = Some s' \<and> physmem_inv s' L'
    \<and> caches s' = (caches s)[me := (caches s ! me)\<lparr>pc_count := n\<rparr>]
    \<and> sync_initialized s' = sync_initialized s \<and> physmem_lock s' = physmem_lock s
    \<and> n < 64 \<and> take n (pc_pages (caches s ! me)) = map frame_addr fr' \<and> distinct fr'
    \<and> set fr' \<inter> free_frames L' = {} \<and> set fr' \<union> free_frames L' = set fr \<union> free_frames L"
proof (cases "pc_count (caches s ! me) = 64")
  case False
  then show ?thesis using assms cache_count_self[of "caches s" me]
    by (intro exI[of _ s] exI[of _ L] exI[of _ "pc_count (caches s ! me)"] exI[of _ fr])
      (simp add: make_cache_room_def LOCAL_CACHE_SIZE_def)
next
  case True
  have len: "length fr = 64" using fr(1) c True by (metis length_map length_take min.idem)
  obtain s' L' where r: "flush_cache me 64 s = Some s'" "physmem_inv s' L'"
     "free_frames L' = free_frames L \<union> set (drop 31 fr)"
     "caches s' = (caches s)[me := (caches s ! me)\<lparr>pc_count := 31\<rparr>]"
     "sync_initialized s' = sync_initialized s" "physmem_lock s' = physmem_lock s"
    using flush_cache_inv[OF inv me, of 64 fr] fr len c True by auto
  have "take 31 (pc_pages (caches s ! me)) = map frame_addr (take 31 fr)"
    using arg_cong[OF fr(1), of "take 31"] True by (simp add: take_map)
  moreover have "distinct (take 31 fr)" "set (take 31 fr) \<inter> set (drop 31 fr) = {}"
    using fr(2) set_take_disj_set_drop_if_distinct[of fr 31 31] by auto
  moreover have "set (take 31 fr) \<union> set (drop 31 fr) = set fr" by (metis append_take_drop_id set_append)
  ultimately show ?thesis using r True fr(3)
    by (intro exI[of _ s'] exI[of _ L'] exI[of _ 31] exI[of _ "take 31 fr"])
      (auto simp: make_cache_room_def LOCAL_CACHE_SIZE_def)
qed

lemma physmem_free_inv:
  assumes ok: "physmem_ok s L" and me: "me < length (caches s)"
    and i: "i < n_frames" "i \<notin> available s L"
  shows "\<exists>s' L'. physmem_free me (frame_addr i) s = Some s' \<and> physmem_ok s' L'
    \<and> available s' L' = available s L \<union> {i}"
proof -
  let ?c = "caches s ! me" and ?lock = "sync_initialized s \<or> pc_lock (caches s ! me)"
  note co = physmem_ok_cache[OF ok me] and ca = cache_frames_addrs[OF physmem_ok_cache(1)[OF ok me]]
  obtain s1 where s1: "cache_lock_acquire me s = Some s1" "physmem_inv s1 L"
    "sync_initialized s1 = sync_initialized s" "physmem_lock s1 = physmem_lock s"
    "caches s1 = (caches s)[me := ?c\<lparr>pc_lock := ?lock\<rparr>]"
    by (rule cache_lock_acquire_ok[OF ok me])
  define s2 where "s2 = s1\<lparr>frames_freed := frames_freed s1 + 1\<rparr>"
  have s2: "physmem_inv s2 L" "sync_initialized s2 \<longrightarrow> \<not> physmem_lock s2" "me < length (caches s2)"
    "caches s2 ! me = ?c\<lparr>pc_lock := ?lock\<rparr>"
    using s1 ok me by (auto simp: s2_def physmem_ok_def)
  have pgl: "length (pc_pages ?c) = 64" using co(1) by (simp add: cache_ok_def LOCAL_CACHE_SIZE_def)
  obtain s3 L3 n fr where s3: "make_cache_room me s2 = Some s3" "physmem_inv s3 L3"
      "caches s3 = (caches s2)[me := (caches s2 ! me)\<lparr>pc_count := n\<rparr>]"
      "sync_initialized s3 = sync_initialized s2" "physmem_lock s3 = physmem_lock s2"
      "n < 64" "take n (pc_pages ?c) = map frame_addr fr" "distinct fr"
      "set fr \<inter> free_frames L3 = {}" "set fr \<union> free_frames L3 = set (cache_frames ?c) \<union> free_frames L"
    using make_cache_room_inv[OF s2(1-3), of "cache_frames ?c"] s2(4) co ca
    by (auto simp: cache_ok_def LOCAL_CACHE_SIZE_def)
  define c' where "c' = ?c\<lparr>pc_lock := \<not> sync_initialized s \<and> pc_lock ?c,
      pc_pages := (pc_pages ?c)[n := frame_addr i], pc_count := n + 1\<rparr>"
  have bound: "\<forall>j \<in> set fr. j < n_frames"
    using s3(10) ca(2) free_frames_bound[OF s1(2)] by blast
  have tk: "take (n + 1) ((pc_pages ?c)[n := frame_addr i]) = map frame_addr (fr @ [i])"
    using s3(6,7) pgl by (simp add: take_Suc_conv_app_nth)
  have c': "cache_frames c' = fr @ [i]" "cache_ok (sync_initialized s) c'"
    using tk s3(6) bound is_frame_addr i(1) pgl
    by (auto simp: cache_frames_def c'_def cache_ok_def LOCAL_CACHE_SIZE_def list_all_iff intro!: map_idI)
  define s4 where "s4 = cache_lock_release me (set_cache me
      ((caches s3 ! me)\<lparr>pc_pages := (pc_pages (caches s3 ! me))[n := frame_addr i], pc_count := n + 1\<rparr>) s3)"
  have s4: "physmem_inv s4 L3" "caches s4 = (caches s)[me := c']" "sync_initialized s4 = sync_initialized s"
    "physmem_lock s4 = physmem_lock s"
    using s1(3-5) s3(2-5) s2(4) me
    by (cases "caches s ! me", auto simp: s4_def cache_lock_release_def set_cache_def c'_def s2_def)+
  have "physmem_free me (frame_addr i) s = Some s4"
    using s1(1) s3(1,3) s2(3) frame_addr_nonnull[OF i(1)] is_frame_addr[OF i(1)]
    by (simp add: physmem_free_def s2_def[symmetric] s4_def Let_def)
  moreover have fresh: "i \<notin> set fr" "i \<notin> free_frames L3" using i(2) s3(10) co(4) by (auto simp: available_def)
  have "set (fr @ [i]) \<union> free_frames L3 = set (cache_frames ?c) \<union> free_frames L \<union> {i}" using s3(10) by auto
  ultimately show ?thesis
    using physmem_ok_update[OF ok me s4 c'(2), of "{i}"] c'(1) s3(8,9) co(4) i(2) fresh
    by (intro exI[of _ s4] exI[of _ L3]) (auto simp: available_def)
qed


section \<open>The allocator\<close>

text \<open>C11.  Initialisation, started with the zeroed bitmap of the kernel image, returns with
  every physical frame in exactly one free block, every block aligned to its size, and
  empty caches.\<close>

theorem physmem_init_all_free:
  assumes "free_page_bitmap s = replicate FREE_PAGE_BITMAP_SIZE 0" "sync_initialized s \<longrightarrow> \<not> physmem_lock s"
    "\<forall>c \<in> set (caches s). sync_initialized s \<longrightarrow> \<not> pc_lock c"
  shows "\<exists>s' L. physmem_init s = Some s' \<and> physmem_ok s' L \<and> free_frames L = {0..<n_frames}
    \<and> cached_frames s' = []"
proof -
  obtain s' L where s': "physmem_init s = Some s'" "physmem_inv s' L" "free_frames L = {0..<n_frames}"
    "caches s' = map (\<lambda>c. c\<lparr>pc_count := 0, pc_pages := replicate LOCAL_CACHE_SIZE NULL\<rparr>) (caches s)"
    "sync_initialized s' = sync_initialized s" "physmem_lock s' = physmem_lock s"
    using physmem_init_inv[OF assms(1)] by blast
  have "cached_frames s' = []" using s'(4) by (auto simp: cached_frames_def cache_frames_def)
  then have "physmem_ok s' L"
    using s' assms(2,3) by (auto simp: physmem_ok_def cache_ok_def)
  then show ?thesis using s' \<open>cached_frames s' = []\<close> by blast
qed

text \<open>C8.  When some free block is at least as large as the request, allocating a block of
  order \<open>k\<close> returns an aligned block of \<open>2^k\<close> frames that were all free; afterwards exactly
  these frames are no longer free, and the free lists and the bitmap are consistent
  again.  When there is no such block the kernel panics.\<close>

theorem physmem_alloc_order_takes_block:
  assumes "physmem_inv s L" "sync_initialized s \<longrightarrow> \<not> physmem_lock s" "k \<le> 14"
  shows "if \<exists>j. k \<le> j \<and> j \<le> 14 \<and> L j \<noteq> []
    then \<exists>i s' L'. physmem_alloc_order (int k) s = Some (frame_addr i, s') \<and> physmem_inv s' L'
      \<and> 2 ^ k dvd i \<and> i + 2 ^ k \<le> n_frames \<and> block_frames k i \<subseteq> free_frames L
      \<and> free_frames L' = free_frames L - block_frames k i \<and> caches s' = caches s
    else physmem_alloc_order (int k) s = None"
proof (cases "\<exists>j. k \<le> j \<and> j \<le> 14 \<and> L j \<noteq> []")
  case True
  then show ?thesis using physmem_alloc_order_inv[OF assms] by (fastforce simp: same_rest_def)
next
  case False
  have "find_free_order k (s1\<lparr>order_allocs := x\<rparr>) = None" if "physmem_inv s1 L" for s1 x
    using find_free_order_None[of "s1\<lparr>order_allocs := x\<rparr>" L k] that False assms(3) by auto
  then have "physmem_alloc_order (int k) s = None"
    using assms by (auto simp: physmem_alloc_order_def physmem_lock_acquire_def PHYS_FRAME_MAX_ORDER_def Let_def)
  then show ?thesis using False by auto
qed

text \<open>C9.  Freeing an aligned block none of whose frames is free returns, makes exactly its
  frames free in addition, and keeps free lists and bitmap consistent, however far the
  block is merged with its buddies.\<close>

theorem physmem_free_order_returns_block:
  assumes "physmem_inv s L" "sync_initialized s \<longrightarrow> \<not> physmem_lock s"
    "k \<le> 14" "i + 2 ^ k \<le> n_frames" "2 ^ k dvd i" "block_frames k i \<inter> free_frames L = {}"
  shows "\<exists>s' L'. physmem_free_order (frame_addr i) (int k) s = Some s' \<and> physmem_inv s' L'
    \<and> free_frames L' = free_frames L \<union> block_frames k i \<and> caches s' = caches s"
  using physmem_free_order_inv[OF assms] by (fastforce simp: same_rest_def)

text \<open>C10.  Allocating a page through a core's cache returns a frame that was available and
  makes exactly this frame unavailable, whether it came from the cache or from a refill;
  no frame is ever handed out twice.\<close>

theorem physmem_alloc_takes_page:
  assumes "physmem_ok s L" "me < length (caches s)"
    "pc_count (caches s ! me) = 0 \<longrightarrow> 32 \<le> card (free_frames L)"
  shows "\<exists>i s' L'. physmem_alloc me s = Some (frame_addr i, s') \<and> physmem_ok s' L' \<and> i < n_frames
    \<and> i \<in> available s L \<and> available s' L' = available s L - {i}"
  using physmem_alloc_inv[OF assms(1,2)] assms(3) by blast

text \<open>C11.  Freeing a page that is not available returns, and makes exactly this page
  available again, also when a full cache is flushed on the way.\<close>

theorem physmem_free_returns_page:
  assumes "physmem_ok s L" "me < length (caches s)" "i < n_frames" "i \<notin> available s L"
  shows "\<exists>s' L'. physmem_free me (frame_addr i) s = Some s' \<and> physmem_ok s' L'
    \<and> available s' L' = available s L \<union> {i}"
  using physmem_free_inv[OF assms] .

text \<open>The allocator as the kernel image starts it, on four cores.\<close>

definition boot_physmem :: physmem where
  "boot_physmem = \<lparr>free_page_list = [], free_page_bitmap = replicate FREE_PAGE_BITMAP_SIZE 0,
     page_nodes = (\<lambda>_. \<lparr>fp_prev = 0, fp_next = 0, fp_free_order = 0\<rparr>),
     frames_alloced = 0, frames_freed = 0, frames_leaked = 0,
     order_allocs = replicate 15 0, order_frees = replicate 15 0, order_leaks = replicate 15 0,
     sync_initialized = False, physmem_lock = False,
     caches = replicate 4 \<lparr>pc_pages = [], pc_count = 0, pc_lock = False\<rparr>\<rparr>"

lemma boot_physmem_ready:
  obtains s L where "physmem_init boot_physmem = Some s" "physmem_inv s L" "free_frames L = {0..<n_frames}"
    "sync_initialized s \<longrightarrow> \<not> physmem_lock s" "physmem_ok s L" "length (caches s) = 4" "cached_frames s = []"
proof -
  obtain s L where s: "physmem_init boot_physmem = Some s" "physmem_inv s L" "free_frames L = {0..<n_frames}"
    "caches s = map (\<lambda>c. c\<lparr>pc_count := 0, pc_pages := replicate LOCAL_CACHE_SIZE NULL\<rparr>) (caches boot_physmem)"
    "sync_initialized s = sync_initialized boot_physmem" "physmem_lock s = physmem_lock boot_physmem"
    using physmem_init_inv[of boot_physmem] by (auto simp: boot_physmem_def)
  have "cached_frames s = []" using s(4) by (auto simp: cached_frames_def cache_frames_def boot_physmem_def)
  then show thesis using that[OF s(1-3)] s by (auto simp: physmem_ok_def cache_ok_def boot_physmem_def)
qed

theorem physmem_init_all_free_witness:
  "\<exists>s' L. physmem_init boot_physmem = Some s' \<and> physmem_ok s' L \<and> free_frames L = {0..<n_frames}"
  using physmem_init_all_free[of boot_physmem] by (auto simp: boot_physmem_def)

theorem physmem_alloc_order_takes_block_witness:
  "\<exists>s i s'. physmem_init boot_physmem = Some s \<and> physmem_alloc_order 0 s = Some (frame_addr i, s') \<and> i + 1 \<le> n_frames"
proof -
  obtain s L where s: "physmem_init boot_physmem = Some s" "physmem_inv s L" "free_frames L = {0..<n_frames}"
    "sync_initialized s \<longrightarrow> \<not> physmem_lock s" by (rule boot_physmem_ready)
  obtain j where "j \<le> 14" "L j \<noteq> []" using free_block_exists[OF s(2)] s(3) by auto
  then show ?thesis using physmem_alloc_order_takes_block[OF s(2,4), of 0] s(1) by (auto split: if_splits)
qed

theorem physmem_free_order_returns_block_witness:
  "\<exists>s0 s i s'. physmem_init boot_physmem = Some s0 \<and> physmem_alloc_order 0 s0 = Some (frame_addr i, s)
     \<and> physmem_free_order (frame_addr i) 0 s = Some s'"
proof -
  obtain s0 L0 where s0: "physmem_init boot_physmem = Some s0" "physmem_inv s0 L0" "free_frames L0 = {0..<n_frames}"
    "sync_initialized s0 \<longrightarrow> \<not> physmem_lock s0" by (rule boot_physmem_ready)
  obtain j where j: "0 \<le> j" "j \<le> 14" "L0 j \<noteq> []" using free_block_exists[OF s0(2)] s0(3) by auto
  obtain i s L where s: "physmem_alloc_order 0 s0 = Some (frame_addr i, s)" "physmem_inv s L" "i < n_frames"
    "free_frames L = free_frames L0 - {i}" "same_rest (s0\<lparr>order_allocs := bump 0 (order_allocs s0)\<rparr>) s"
    using physmem_alloc_order_inv[OF s0(2,4) _ j] by auto
  have "sync_initialized s \<longrightarrow> \<not> physmem_lock s" using s(5) s0(4) by (simp add: same_rest_def)
  from physmem_free_order_returns_block[OF s(2) this, of 0 i] s s0(1) show ?thesis by auto
qed

theorem physmem_alloc_takes_page_witness:
  "\<exists>s i s'. physmem_init boot_physmem = Some s \<and> physmem_alloc 2 s = Some (frame_addr i, s') \<and> i < n_frames"
proof -
  obtain s L where s: "physmem_init boot_physmem = Some s" "free_frames L = {0..<n_frames}" "physmem_ok s L"
    "length (caches s) = 4" by (rule boot_physmem_ready)
  then show ?thesis using physmem_alloc_takes_page[OF s(3), of 2] by auto
qed

theorem physmem_free_returns_page_witness:
  "\<exists>s0 i s s'. physmem_init boot_physmem = Some s0 \<and> physmem_alloc 2 s0 = Some (frame_addr i, s)
     \<and> physmem_free 1 (frame_addr i) s = Some s'"
proof -
  obtain s0 L0 where s0: "physmem_init boot_physmem = Some s0" "free_frames L0 = {0..<n_frames}" "physmem_ok s0 L0"
    "length (caches s0) = 4" by (rule boot_physmem_ready)
  obtain i s L where s: "physmem_alloc 2 s0 = Some (frame_addr i, s)" "physmem_ok s L" "i < n_frames"
    "available s L = available s0 L0 - {i}"
      "length (caches s) = 4"
    using physmem_alloc_inv[OF s0(3), of 2] s0(2,4) by auto
  then show ?thesis using physmem_free_returns_page[OF s(2), of 1 i] s s0(1) by auto
qed

end
