(* ===== verification/Vmem.thy ===== *)
theory Vmem
  imports Prelude
begin

text \<open>
  The mapped regions of an address space: the sorted list of \<open>struct VME\<close> that
  \<open>kernel/vmem.c\<close> keeps per thread, the four operations that map a region and the
  search of \<open>munmap\<close>, and \<open>user_range_ok\<close> of \<open>kernel/sys.c\<close>, the check that guards every
  copy between kernel and user memory.  A VME belongs to one list, so the chain is a
  list; a cloned handle of a file denotes the same file.  Addresses are 32-bit words and
  every sum is the wrapping sum of the source.
\<close>

section \<open>Data\<close>

definition PAGE_SIZE :: u32 where "PAGE_SIZE = 4096"
definition UINT_MAX :: u32 where "UINT_MAX = 0xFFFFFFFF"
definition KERNEL_VMEM_START :: u32 where "KERNEL_VMEM_START = 0x10000000"
definition KERNEL_VMEM_END :: u32 where "KERNEL_VMEM_END = 0x7FFFFFFF"
definition USER_VMEM_START :: u32 where "USER_VMEM_START = 0x80000000"
definition USER_VMEM_END :: u32 where "USER_VMEM_END = 0xFFFFFFFF"

definition MMAP_SHARED :: u32 where "MMAP_SHARED = 0x01"
definition MMAP_READ :: u32 where "MMAP_READ = 0x04"
definition MMAP_WRITE :: u32 where "MMAP_WRITE = 0x08"
definition MMAP_EXEC :: u32 where "MMAP_EXEC = 0x10"
definition MMAP_USER :: u32 where "MMAP_USER = 0x20"

definition has_flag :: "u32 \<Rightarrow> u32 \<Rightarrow> bool" where
  "has_flag flags f \<longleftrightarrow> flags AND f \<noteq> 0"

record vme =
  vme_start :: u32
  vme_end :: u32
  vme_size :: u32
  vme_flags :: u32
  vme_file :: addr
  vme_file_offset :: u32
  vme_paddr :: u32


section \<open>Ranges\<close>

definition vmem_range_start :: "u32 \<Rightarrow> u32" where
  "vmem_range_start flags = (if has_flag flags MMAP_USER then USER_VMEM_START else KERNEL_VMEM_START)"

definition vmem_range_end :: "u32 \<Rightarrow> u32" where
  "vmem_range_end flags = (if has_flag flags MMAP_USER then USER_VMEM_END else KERNEL_VMEM_END)"

definition vmem_range_topdown_limit :: "u32 \<Rightarrow> u32" where
  "vmem_range_topdown_limit flags =
     (let range_end = vmem_range_end flags in
      if range_end = UINT_MAX then UINT_MAX - (PAGE_SIZE - 1) else range_end + 1)"

definition vmem_range_can_hold :: "u32 \<Rightarrow> u32 \<Rightarrow> u32 \<Rightarrow> u32 \<Rightarrow> bool" where
  "vmem_range_can_hold start rounded_size range_start range_end =
     (if start < range_start \<or> start > range_end then False
      else if start > UINT_MAX - rounded_size then False
      else start + rounded_size - 1 \<le> range_end)"

definition round_up_page :: "u32 \<Rightarrow> u32" where
  "round_up_page sz = (sz + PAGE_SIZE - 1) AND NOT (PAGE_SIZE - 1)"


section \<open>Creating and inserting\<close>

definition vme_create :: "u32 \<Rightarrow> u32 \<Rightarrow> u32 \<Rightarrow> addr \<Rightarrow> u32 \<Rightarrow> u32 \<Rightarrow> u32 \<Rightarrow> vme option" where
  "vme_create start stop sz file file_offset flags paddr = do {
     kassert (start mod PAGE_SIZE = 0);
     kassert (stop mod PAGE_SIZE = 0);
     kassert (stop > start);
     kassert (file = NULL \<or> file_offset mod PAGE_SIZE = 0);
     kassert (paddr \<noteq> 0 \<longrightarrow> file = NULL);
     Some \<lparr>vme_start = start, vme_end = stop, vme_size = sz, vme_flags = flags,
       vme_file = file, vme_file_offset = file_offset, vme_paddr = paddr\<rparr>
   }"

text \<open>A position in the list is the list of the VMEs before it, last first (its head is
  \<open>prev\<close>), and the list of those from \<open>cur_vme\<close> on.\<close>

definition vme_insert :: "vme list \<Rightarrow> vme \<Rightarrow> vme list \<Rightarrow> vme list" where
  "vme_insert before v after = rev before @ v # after"

fun vme_skip :: "u32 \<Rightarrow> vme list \<Rightarrow> vme list \<Rightarrow> vme list \<times> vme list" where
  "vme_skip bound before [] = (before, [])"
| "vme_skip bound before (cur_vme # rest) =
     (if vme_end cur_vme \<le> bound then vme_skip bound (cur_vme # before) rest
      else (before, cur_vme # rest))"

fun first_fit :: "u32 \<Rightarrow> u32 \<Rightarrow> u32 \<Rightarrow> vme list \<Rightarrow> vme list \<Rightarrow> (u32 \<times> vme list \<times> vme list) option" where
  "first_fit rounded_size range_end last_end before [] = Some (last_end, before, [])"
| "first_fit rounded_size range_end last_end before (cur_vme # rest) = do {
     kassert (vme_start cur_vme \<ge> last_end);
     if vme_start cur_vme > range_end then Some (last_end, before, cur_vme # rest)
     else if vme_start cur_vme - last_end \<ge> rounded_size then Some (last_end, before, cur_vme # rest)
     else first_fit rounded_size range_end (vme_end cur_vme) (cur_vme # before) rest
   }"

definition mmap :: "u32 \<Rightarrow> addr \<Rightarrow> u32 \<Rightarrow> u32 \<Rightarrow> vme list \<Rightarrow> (addr \<times> vme list) option" where
  "mmap sz file file_offset flags vmes =
     (if sz = 0 then Some (NULL, vmes)
      else do {
        let rounded_size = round_up_page sz;
        let range_start = vmem_range_start flags;
        let range_end = vmem_range_end flags;
        let (before, cur_vme) = vme_skip range_start [] vmes;
        (last_end, before, after) \<leftarrow> first_fit rounded_size range_end range_start before cur_vme;
        kassert (vmem_range_can_hold last_end rounded_size range_start range_end);
        v \<leftarrow> vme_create last_end (last_end + rounded_size) sz file file_offset flags 0;
        Some (last_end, vme_insert before v after)
      })"

definition mmap_physmem :: "u32 \<Rightarrow> u32 \<Rightarrow> u32 \<Rightarrow> vme list \<Rightarrow> (addr \<times> vme list) option" where
  "mmap_physmem sz paddr flags vmes =
     (if sz = 0 then Some (NULL, vmes)
      else do {
        let rounded_size = round_up_page sz;
        let range_start = vmem_range_start flags;
        let range_end = vmem_range_end flags;
        let (before, cur_vme) = vme_skip range_start [] vmes;
        (last_end, before, after) \<leftarrow> first_fit rounded_size range_end range_start before cur_vme;
        kassert (vmem_range_can_hold last_end rounded_size range_start range_end);
        v \<leftarrow> vme_create last_end (last_end + rounded_size) sz NULL 0 flags paddr;
        Some (last_end, vme_insert before v after)
      })"

text \<open>The stack search remembers the highest gap that is large enough: the start of the
  stack in it and the VMEs on both sides.\<close>

type_synonym stack_gap = "(u32 \<times> vme list \<times> vme list) option"

fun stack_fit :: "u32 \<Rightarrow> u32 \<Rightarrow> u32 \<Rightarrow> stack_gap \<Rightarrow> vme list \<Rightarrow> vme list
    \<Rightarrow> (u32 \<times> stack_gap \<times> vme list \<times> vme list) option" where
  "stack_fit rounded_size range_limit gap_start found before [] = Some (gap_start, found, before, [])"
| "stack_fit rounded_size range_limit gap_start found before (cur_vme # rest) = do {
     kassert (vme_start cur_vme \<ge> gap_start);
     let gap_end = (if vme_start cur_vme > range_limit then range_limit else vme_start cur_vme);
     let found = (if gap_end \<ge> gap_start \<and> gap_end - gap_start \<ge> rounded_size
                  then Some (gap_end - rounded_size, before, cur_vme # rest) else found);
     if vme_start cur_vme \<ge> range_limit then Some (gap_start, found, before, cur_vme # rest)
     else stack_fit rounded_size range_limit (vme_end cur_vme) found (cur_vme # before) rest
   }"

definition mmap_stack :: "u32 \<Rightarrow> u32 \<Rightarrow> vme list \<Rightarrow> (addr \<times> vme list) option" where
  "mmap_stack sz flags vmes =
     (if sz = 0 then Some (NULL, vmes)
      else do {
        kassert (has_flag flags MMAP_USER);
        kassert (\<not> has_flag flags MMAP_SHARED);
        let rounded_size = round_up_page sz;
        let range_start = vmem_range_start flags;
        let range_end = vmem_range_end flags;
        let range_limit = vmem_range_topdown_limit flags;
        let (before, cur_vme) = vme_skip range_start [] vmes;
        (gap_start, found, before, after) \<leftarrow> stack_fit rounded_size range_limit range_start None before cur_vme;
        let found = (if gap_start \<le> range_limit \<and> range_limit - gap_start \<ge> rounded_size
                     then Some (range_limit - rounded_size, before, after) else found);
        (stack_start, before, after) \<leftarrow> found;
        kassert (vmem_range_can_hold stack_start rounded_size range_start range_end);
        v \<leftarrow> vme_create stack_start (stack_start + rounded_size) sz NULL 0 flags 0;
        Some (stack_start, vme_insert before v after)
      })"

text \<open>\<open>mmap_at\<close> returns the VME it made, or none for an empty request.\<close>

definition mmap_at :: "u32 \<Rightarrow> addr \<Rightarrow> u32 \<Rightarrow> u32 \<Rightarrow> u32 \<Rightarrow> vme list \<Rightarrow> (vme option \<times> vme list) option" where
  "mmap_at sz file file_offset flags vaddr vmes =
     (if sz = 0 then Some (None, vmes)
      else do {
        let rounded_size = round_up_page sz;
        kassert (vmem_range_can_hold vaddr rounded_size (vmem_range_start flags) (vmem_range_end flags));
        let stop = vaddr + rounded_size;
        let (before, after) = vme_skip vaddr [] vmes;
        kassert (after = [] \<or> \<not> vme_start (hd after) < stop);
        v \<leftarrow> vme_create vaddr stop sz file file_offset flags 0;
        Some (Some v, vme_insert before v after)
      })"

text \<open>The search and unlink loop of \<open>munmap\<close>: the VME that starts at \<open>p\<close>, and the list
  without it.  An address that starts no VME panics.\<close>

fun munmap_unlink :: "addr \<Rightarrow> vme list \<Rightarrow> (vme \<times> vme list) option" where
  "munmap_unlink p [] = None"
| "munmap_unlink p (cur_vme # rest) =
     (if vme_start cur_vme = p then do {
        kassert (\<not> (has_flag (vme_flags cur_vme) MMAP_SHARED \<and> vme_file cur_vme = NULL));
        Some (cur_vme, rest)
      } else do {
        (v, rest') \<leftarrow> munmap_unlink p rest;
        Some (v, cur_vme # rest')
      })"

text \<open>The copy loop of \<open>vmem_fork\<close> over the VME list.\<close>

fun fork_vmes :: "vme list \<Rightarrow> vme list option" where
  "fork_vmes [] = Some []"
| "fork_vmes (v # vs) = do {
     v' \<leftarrow> vme_create (vme_start v) (vme_end v) (vme_size v) (vme_file v) (vme_file_offset v)
            (vme_flags v) (vme_paddr v);
     vs' \<leftarrow> fork_vmes vs;
     Some (v' # vs')
   }"

definition shared_vme_page_bytes :: "vme \<Rightarrow> u32 \<Rightarrow> u32 option" where
  "shared_vme_page_bytes v va = do {
     kassert (vme_file v \<noteq> NULL);
     kassert (va \<ge> vme_start v \<and> va < vme_end v);
     let vme_offset = va - vme_start v;
     Some (if vme_size v > vme_offset \<and> vme_size v - vme_offset < PAGE_SIZE
           then vme_size v - vme_offset else PAGE_SIZE)
   }"


section \<open>The guard of user copies\<close>

fun vme_covering :: "u32 \<Rightarrow> vme list \<Rightarrow> vme option" where
  "vme_covering cur [] = None"
| "vme_covering cur (v # vs) = (if vme_end v \<le> cur then vme_covering cur vs else Some v)"

lemma vme_covering_SomeD: "vme_covering cur vs = Some v \<Longrightarrow> v \<in> set vs \<and> cur < vme_end v"
  by (induction vs) (auto split: if_splits)

function user_range_loop :: "vme list \<Rightarrow> u32 \<Rightarrow> u32 \<Rightarrow> u32 \<Rightarrow> bool" where
  "user_range_loop vmes required_flags cur last_byte =
     (case vme_covering cur vmes of
        None \<Rightarrow> False
      | Some v \<Rightarrow>
          if vme_start v > cur \<or> \<not> has_flag (vme_flags v) MMAP_USER then False
          else if has_flag required_flags MMAP_READ \<and> \<not> has_flag (vme_flags v) MMAP_READ then False
          else if has_flag required_flags MMAP_WRITE \<and> \<not> has_flag (vme_flags v) MMAP_WRITE then False
          else if vme_end v - 1 \<ge> last_byte then True
          else user_range_loop vmes required_flags (vme_end v) last_byte)"
  by pat_completeness auto
termination
  by (relation "measure (\<lambda>(_, _, cur, _). 2 ^ 32 - unat cur)")
    (auto dest!: vme_covering_SomeD simp: word_less_nat_alt intro!: diff_less_mono2)

declare user_range_loop.simps [simp del]

definition user_range_ok :: "vme list \<Rightarrow> addr \<Rightarrow> u32 \<Rightarrow> u32 \<Rightarrow> bool" where
  "user_range_ok vmes user_ptr n required_flags =
     (if n = 0 then True
      else if user_ptr < USER_VMEM_START then False
      else if n - 1 > USER_VMEM_END - user_ptr then False
      else user_range_loop vmes required_flags user_ptr (user_ptr + n - 1))"


section \<open>The invariant of a VME list\<close>

text \<open>Every VME is page aligned, not empty and within one half of the address space; the
  list is sorted by address and its regions do not overlap.\<close>

definition vme_ok :: "vme \<Rightarrow> bool" where
  "vme_ok v \<longleftrightarrow> vme_start v mod PAGE_SIZE = 0 \<and> vme_end v mod PAGE_SIZE = 0 \<and> vme_start v < vme_end v
     \<and> KERNEL_VMEM_START \<le> vme_start v \<and> (vme_end v \<le> USER_VMEM_START \<or> USER_VMEM_START \<le> vme_start v)
     \<and> (vme_file v = NULL \<or> vme_file_offset v mod PAGE_SIZE = 0) \<and> (vme_paddr v \<noteq> 0 \<longrightarrow> vme_file v = NULL)"

definition vmes_ok :: "vme list \<Rightarrow> bool" where
  "vmes_ok vs \<longleftrightarrow> list_all vme_ok vs \<and> sorted_wrt (\<lambda>a b. vme_end a \<le> vme_start b) vs"

definition bytes_of :: "vme \<Rightarrow> nat set" where
  "bytes_of v = {unat (vme_start v)..<unat (vme_end v)}"

lemmas range_consts = PAGE_SIZE_def UINT_MAX_def KERNEL_VMEM_START_def KERNEL_VMEM_END_def
  USER_VMEM_START_def USER_VMEM_END_def

lemma mod_page: "(w :: u32) mod PAGE_SIZE = 0 \<longleftrightarrow> 4096 dvd unat w"
  unfolding word_unat_eq_iff by (simp add: unat_mod PAGE_SIZE_def dvd_eq_mod_eq_0)

lemma and_not_mask: "(w :: u32) AND NOT (mask n) = w - take_bit n w"
proof -
  have "w AND NOT (mask n) = push_bit n (drop_bit n w)"
    by (intro bit_word_eqI) (auto simp: bit_and_iff bit_not_iff bit_mask_iff bit_push_bit_iff bit_drop_bit_eq)
  then show ?thesis using bits_ident[of n w] by (metis add_diff_cancel_right')
qed

lemma unat_and_not_page: "unat ((w :: u32) AND NOT (PAGE_SIZE - 1)) = unat w div 4096 * 4096"
proof -
  have m: "PAGE_SIZE - 1 = mask 12" by (simp add: PAGE_SIZE_def mask_eq_exp_minus_1)
  have t: "unat (take_bit 12 w) = unat w mod 4096" by (simp add: unsigned_take_bit_eq take_bit_eq_mod unat_mod)
  have "take_bit 12 w \<le> w" using t by (simp add: word_le_nat_alt)
  then have "unat (w - take_bit 12 w) = unat w - unat w mod 4096" using t by (simp add: unat_sub)
  then show ?thesis unfolding m and_not_mask by (simp add: minus_mod_eq_div_mult)
qed

lemma round_up_page_spec:
  assumes "sz \<noteq> 0"
  shows "4096 dvd unat (round_up_page sz)"
    and "unat sz \<le> 2 ^ 32 - 4096 \<Longrightarrow> unat sz \<le> unat (round_up_page sz) \<and> unat (round_up_page sz) < unat sz + 4096"
    and "\<not> unat sz \<le> 2 ^ 32 - 4096 \<Longrightarrow> round_up_page sz = 0"
proof -
  have r: "unat (round_up_page sz) = unat (sz + PAGE_SIZE - 1) div 4096 * 4096"
    by (simp add: round_up_page_def unat_and_not_page)
  have e: "sz + PAGE_SIZE - 1 = of_nat (unat sz + 4095)" by (simp add: PAGE_SIZE_def)
  show "4096 dvd unat (round_up_page sz)" using r by simp
  show "unat sz \<le> unat (round_up_page sz) \<and> unat (round_up_page sz) < unat sz + 4096" if "unat sz \<le> 2 ^ 32 - 4096"
  proof -
    have "unat (sz + PAGE_SIZE - 1) = unat sz + 4095" unfolding e using that by (intro unat_of_nat_u32) simp
    moreover have "(unat sz + 4095) div 4096 * 4096 + (unat sz + 4095) mod 4096 = unat sz + 4095"
      "(unat sz + 4095) mod 4096 < 4096" by (rule div_mult_mod_eq, simp)
    ultimately show ?thesis unfolding r by linarith
  qed
  show "round_up_page sz = 0" if b: "\<not> unat sz \<le> 2 ^ 32 - 4096"
  proof -
    have lt: "unat sz < 4294967296" "4294967296 \<le> unat sz + 4095" using b by auto
    have "unat (sz + PAGE_SIZE - 1) = (unat sz + 4095) mod 4294967296" unfolding e unat_of_nat by simp
    also have "\<dots> = unat sz + 4095 - 4294967296"
      unfolding le_mod_geq[OF lt(2)] by (rule mod_less) (use lt in linarith)
    finally have "unat (sz + PAGE_SIZE - 1) < 4096" using lt by linarith
    then show ?thesis using r by (simp add: word_unat_eq_iff)
  qed
qed

lemma can_hold_iff:
  assumes "r \<noteq> 0"
  shows "vmem_range_can_hold st r rs re \<longleftrightarrow>
    rs \<le> st \<and> unat st + unat r \<le> unat re + 1 \<and> unat st + unat r < 2 ^ 32"
proof -
  have r0: "0 < unat r" using assms by (simp add: unat_gt_0)
  have "unat (UINT_MAX - r) = 4294967295 - unat r"
    by (subst unat_sub) (auto simp: word_le_nat_alt UINT_MAX_def)
  then have "st > UINT_MAX - r \<longleftrightarrow> \<not> unat st + unat r < 4294967296"
    unfolding word_less_nat_alt using unat_word32_le[of r] by (intro iffI) linarith+
  then have m: "st > UINT_MAX - r \<longleftrightarrow> \<not> unat st + unat r < 2 ^ 32" by simp
  show ?thesis
  proof (cases "unat st + unat r < 2 ^ 32")
    case False
    then show ?thesis using m by (auto simp: vmem_range_can_hold_def)
  next
    case True
    then have a: "unat (st + r) = unat st + unat r" by (intro unat_add_u32) simp
    then have "st + r \<noteq> 0" using r0 by (metis add_is_0 less_numeral_extra(3) unat_0)
    then have "unat (st + r - 1) = unat st + unat r - 1" using a unat_minus_one by metis
    then show ?thesis using True m r0
      unfolding vmem_range_can_hold_def word_less_nat_alt word_le_nat_alt by auto
  qed
qed


section \<open>Positions in a list\<close>

lemma vmes_ok_append:
  "vmes_ok (xs @ ys) \<longleftrightarrow> vmes_ok xs \<and> vmes_ok ys
     \<and> (\<forall>x \<in> set xs. \<forall>y \<in> set ys. vme_end x \<le> vme_start y)"
  by (auto simp: vmes_ok_def sorted_wrt_append)

lemma vmes_ok_Cons:
  "vmes_ok (v # vs) \<longleftrightarrow> vme_ok v \<and> vmes_ok vs \<and> (\<forall>y \<in> set vs. vme_end v \<le> vme_start y)"
  by (auto simp: vmes_ok_def)

lemma vme_ok_nonempty: "vme_ok v \<Longrightarrow> vme_start v < vme_end v"
  by (simp add: vme_ok_def)

text \<open>A position where a region from \<open>st\<close> of \<open>r\<close> bytes fits.\<close>

definition fits_between :: "vme list \<Rightarrow> nat \<Rightarrow> nat \<Rightarrow> vme list \<Rightarrow> bool" where
  "fits_between b st r a \<longleftrightarrow> (\<forall>x \<in> set b. unat (vme_end x) \<le> st)
     \<and> (\<forall>y \<in> set a. st + r \<le> unat (vme_start y))"

lemma vmes_ok_insert:
  assumes "vmes_ok (rev before @ after)" "vme_ok v"
    "fits_between before (unat (vme_start v)) (unat (vme_end v) - unat (vme_start v)) after"
  shows "vmes_ok (vme_insert before v after)"
proof -
  have "unat (vme_start v) \<le> unat (vme_end v)" using vme_ok_nonempty[OF assms(2)] by (simp add: word_less_nat_alt)
  moreover have "\<forall>x \<in> set before. \<forall>y \<in> set after. vme_end x \<le> vme_start y"
    using assms(1) by (auto simp: vmes_ok_append)
  ultimately show ?thesis using assms
    by (auto simp: vme_insert_def vmes_ok_append vmes_ok_Cons fits_between_def word_le_nat_alt)
qed

lemma vme_skip_spec:
  "vme_skip bound before vs = (b, a) \<Longrightarrow> rev b @ a = rev before @ vs
     \<and> (\<forall>x \<in> set b. x \<in> set before \<or> vme_end x \<le> bound) \<and> (a \<noteq> [] \<longrightarrow> bound < vme_end (hd a))"
  by (induction bound before vs rule: vme_skip.induct) (auto split: if_splits)

text \<open>What the skipping loop leaves lies at or above the start of the half.\<close>

lemma vme_skip_range:
  assumes "vmes_ok vs" "vme_skip (vmem_range_start flags) [] vs = (b, a)"
  shows "rev b @ a = vs" "\<forall>x \<in> set b. vme_end x \<le> vmem_range_start flags"
    "\<forall>y \<in> set a. vmem_range_start flags \<le> vme_start y"
proof -
  note sk = vme_skip_spec[OF assms(2)]
  show vs: "rev b @ a = vs" "\<forall>x \<in> set b. vme_end x \<le> vmem_range_start flags" using sk by auto
  show "\<forall>y \<in> set a. vmem_range_start flags \<le> vme_start y"
  proof (cases a)
    case (Cons v w)
    have v: "vme_ok v" "\<forall>y \<in> set w. vme_end v \<le> vme_start y"
      using assms(1) vs(1) Cons by (auto simp: vmes_ok_append vmes_ok_Cons)
    have "vmem_range_start flags \<le> vme_start v"
      using sk Cons v(1) by (auto simp: vmem_range_start_def vme_ok_def KERNEL_VMEM_START_def USER_VMEM_START_def)
    moreover have "vme_start v \<le> vme_end v" using vme_ok_nonempty[OF v(1)] by simp
    ultimately show ?thesis using v(2) Cons by (auto intro: order_trans)
  qed simp
qed

lemma first_fit_spec:
  assumes "vmes_ok curs" "\<forall>y \<in> set curs. le0 \<le> vme_start y" "\<forall>x \<in> set b0. vme_end x \<le> le0" "le0 mod PAGE_SIZE = 0"
  shows "\<exists>le b a. first_fit r re le0 b0 curs = Some (le, b, a) \<and> rev b @ a = rev b0 @ curs
    \<and> le0 \<le> le \<and> le mod PAGE_SIZE = 0 \<and> (\<forall>x \<in> set b. vme_end x \<le> le)
    \<and> (\<forall>y \<in> set a. vme_start y > re \<or> unat le + unat r \<le> unat (vme_start y))
    \<and> (\<forall>x. unat le0 \<le> x \<longrightarrow> x + unat r \<le> unat re + 1 \<longrightarrow>
         (\<forall>v \<in> set curs. x + unat r \<le> unat (vme_start v) \<or> unat (vme_end v) \<le> x) \<longrightarrow> unat le \<le> x)"
  using assms
proof (induction curs arbitrary: le0 b0)
  case Nil
  then show ?case by (intro exI[of _ le0] exI[of _ b0] exI[of _ "[]"]) simp
next
  case (Cons v w)
  have v: "vme_ok v" "vmes_ok w" "\<forall>y \<in> set w. vme_end v \<le> vme_start y" "le0 \<le> vme_start v"
    using Cons.prems by (auto simp: vmes_ok_Cons)
  have ve: "vme_start v < vme_end v" by (rule vme_ok_nonempty[OF v(1)])
  have up: "\<forall>y \<in> set w. vme_start v \<le> vme_start y" using v(3) ve by (meson less_imp_le order_trans)
  have gap: "unat (vme_start v - le0) = unat (vme_start v) - unat le0" using v(4) by (rule unat_sub)
  show ?case
  proof (cases "vme_start v > re \<or> vme_start v - le0 \<ge> r")
    case True
    then have "\<forall>y \<in> set (v # w). vme_start y > re \<or> unat le0 + unat r \<le> unat (vme_start y)"
      using up v(4) gap by (auto simp: word_le_nat_alt word_less_nat_alt)
    then show ?thesis using True Cons.prems(3,4) v(4)
      by (intro exI[of _ le0] exI[of _ b0] exI[of _ "v # w"]) auto
  next
    case False
    have ih: "\<forall>x \<in> set (v # b0). vme_end x \<le> vme_end v" "vme_end v mod PAGE_SIZE = 0"
      using Cons.prems(3) v(1,4) ve by (auto simp: vme_ok_def intro: order_trans less_imp_le)
    from Cons.IH[OF v(2,3) ih] obtain le b a where r: "first_fit r re (vme_end v) (v # b0) w = Some (le, b, a)"
      "rev b @ a = rev (v # b0) @ w" "vme_end v \<le> le" "le mod PAGE_SIZE = 0" "\<forall>x \<in> set b. vme_end x \<le> le"
      "\<forall>y \<in> set a. vme_start y > re \<or> unat le + unat r \<le> unat (vme_start y)"
      "\<forall>x. unat (vme_end v) \<le> x \<longrightarrow> x + unat r \<le> unat re + 1 \<longrightarrow>
         (\<forall>v \<in> set w. x + unat r \<le> unat (vme_start v) \<or> unat (vme_end v) \<le> x) \<longrightarrow> unat le \<le> x"
      by (elim exE conjE) (rule that; assumption)
    have "unat le \<le> x" if x: "unat le0 \<le> x" "x + unat r \<le> unat re + 1"
      "\<forall>v \<in> set (v # w). x + unat r \<le> unat (vme_start v) \<or> unat (vme_end v) \<le> x" for x
    proof -
      have "unat (vme_start v) - unat le0 < unat r" using False gap by (auto simp: word_le_nat_alt)
      then have "unat (vme_end v) \<le> x" using x by auto
      then show ?thesis using r(7) x by auto
    qed
    moreover have "first_fit r re le0 b0 (v # w) = Some (le, b, a)" using False v(4) r(1) by simp
    moreover have "le0 \<le> le" using v(4) ve r(3) by (meson less_imp_le order_trans)
    ultimately show ?thesis using r by auto
  qed
qed


section \<open>Mapping at the first fit\<close>

lemma range_start_aligned: "vmem_range_start flags mod PAGE_SIZE = 0"
  by (simp add: vmem_range_start_def range_consts)

lemma first_fit_place:
  assumes ok: "vmes_ok vs"
  obtains b0 a0 le b a where "vme_skip (vmem_range_start flags) [] vs = (b0, a0)"
    "first_fit r (vmem_range_end flags) (vmem_range_start flags) b0 a0 = Some (le, b, a)"
    "rev b @ a = vs" "le mod PAGE_SIZE = 0"
    "unat le + unat r \<le> unat (vmem_range_end flags) + 1 \<Longrightarrow> fits_between b (unat le) (unat r) a"
    "\<And>x. unat (vmem_range_start flags) \<le> x \<Longrightarrow> x + unat r \<le> unat (vmem_range_end flags) + 1 \<Longrightarrow>
       (\<forall>v \<in> set vs. x + unat r \<le> unat (vme_start v) \<or> unat (vme_end v) \<le> x) \<Longrightarrow> unat le \<le> x"
    "vmem_range_start flags \<le> le"
proof -
  let ?rs = "vmem_range_start flags" and ?re = "vmem_range_end flags"
  obtain b0 a0 where sk: "vme_skip ?rs [] vs = (b0, a0)" by (metis surj_pair)
  note sr = vme_skip_range[OF ok sk]
  have ok0: "vmes_ok a0" using ok sr(1) vmes_ok_append by metis
  obtain le b a where ff: "first_fit r ?re ?rs b0 a0 = Some (le, b, a)" "rev b @ a = rev b0 @ a0"
     "?rs \<le> le" "le mod PAGE_SIZE = 0" "\<forall>x \<in> set b. vme_end x \<le> le"
     "\<forall>y \<in> set a. vme_start y > ?re \<or> unat le + unat r \<le> unat (vme_start y)"
     "\<forall>x. unat ?rs \<le> x \<longrightarrow> x + unat r \<le> unat ?re + 1 \<longrightarrow>
         (\<forall>v \<in> set a0. x + unat r \<le> unat (vme_start v) \<or> unat (vme_end v) \<le> x) \<longrightarrow> unat le \<le> x"
    using first_fit_spec[OF ok0 sr(3,2) range_start_aligned, of r ?re] by (elim exE conjE) (rule that; assumption)
  show thesis
  proof (rule that[OF sk ff(1) _ ff(4) _ _ ff(3)])
    show "rev b @ a = vs" using ff(2) sr(1) by simp
    show "fits_between b (unat le) (unat r) a" if "unat le + unat r \<le> unat ?re + 1"
      using ff(5,6) that by (fastforce simp: fits_between_def word_le_nat_alt word_less_nat_alt)
    show "unat le \<le> x" if "unat ?rs \<le> x" "x + unat r \<le> unat ?re + 1"
      "\<forall>v \<in> set vs. x + unat r \<le> unat (vme_start v) \<or> unat (vme_end v) \<le> x" for x
      using ff(7) that sr(1) by auto
  qed
qed

text \<open>A region of \<open>r\<close> bytes, \<open>r\<close> a page multiple, at an aligned address that the range can hold.\<close>

lemma vme_create_placed:
  assumes "vmem_range_can_hold st r (vmem_range_start flags) (vmem_range_end flags)"
    "st mod PAGE_SIZE = 0" "4096 dvd unat r" "r \<noteq> 0"
    "file = NULL \<or> file_offset mod PAGE_SIZE = 0" "paddr \<noteq> 0 \<longrightarrow> file = NULL"
    and v_def: "v = \<lparr>vme_start = st, vme_end = st + r, vme_size = sz, vme_flags = flags,
       vme_file = file, vme_file_offset = file_offset, vme_paddr = paddr\<rparr>"
  shows "vme_create st (st + r) sz file file_offset flags paddr = Some v" "vme_ok v"
    "unat (st + r) = unat st + unat r"
proof -
  note h = assms(1)[unfolded can_hold_iff[OF assms(4)]]
  show e: "unat (st + r) = unat st + unat r" using h by (intro unat_add_u32) simp
  have r: "0 < unat r" using assms(4) by (simp add: unat_gt_0)
  have al: "(st + r) mod PAGE_SIZE = 0" using assms(2,3) e by (simp add: mod_page)
  have lt: "st < st + r" using e r by (simp add: word_less_nat_alt)
  show "vme_create st (st + r) sz file file_offset flags paddr = Some v"
    using assms al lt by (auto simp: vme_create_def v_def)
  have "vmem_range_end flags = KERNEL_VMEM_END \<Longrightarrow> st + r \<le> USER_VMEM_START"
    using h e by (simp add: word_le_nat_alt range_consts)
  then show "vme_ok v"
    using assms(2,5,6) al lt h
    by (auto simp: vme_ok_def v_def vmem_range_start_def vmem_range_end_def range_consts word_le_nat_alt split: if_splits)
qed

lemma vme_create_size: "vme_create st (st + r) sz file file_offset flags paddr = Some v \<Longrightarrow> r \<noteq> 0"
  by (auto simp: vme_create_def)

lemma placed_range:
  assumes "vmem_range_can_hold st r (vmem_range_start flags) (vmem_range_end flags)" "r \<noteq> 0"
  shows "st + r - 1 \<le> vmem_range_end flags" "vmem_range_start flags \<le> st"
  using assms by (auto simp: vmem_range_can_hold_def split: if_splits)

text \<open>What a successful mapping did to the list, in the words of all four operations.\<close>

definition maps_region :: "u32 \<Rightarrow> u32 \<Rightarrow> addr \<Rightarrow> vme list \<Rightarrow> vme list \<Rightarrow> bool" where
  "maps_region sz flags a vs vs' \<longleftrightarrow> vmes_ok vs' \<and> (\<exists>b v c. vs = b @ c \<and> vs' = b @ v # c
     \<and> vme_start v = a \<and> vme_size v = sz \<and> vme_flags v = flags \<and> unat a + unat sz \<le> unat (vme_end v)
     \<and> vmem_range_start flags \<le> a \<and> vme_end v - 1 \<le> vmem_range_end flags)"

lemma maps_region_placed:
  assumes ok: "vmes_ok vs" and vs: "rev b @ a = vs" and sz: "sz \<noteq> 0"
    and st: "st mod PAGE_SIZE = 0" "fits_between b (unat st) (unat (round_up_page sz)) a"
    and hold: "vmem_range_can_hold st (round_up_page sz) (vmem_range_start flags) (vmem_range_end flags)"
    and cr: "vme_create st (st + round_up_page sz) sz file file_offset flags paddr = Some v"
  shows "maps_region sz flags st vs (vme_insert b v a)"
proof -
  let ?r = "round_up_page sz"
  have r0: "?r \<noteq> 0" by (rule vme_create_size[OF cr])
  then have small: "unat sz \<le> unat ?r" using round_up_page_spec[OF sz] by blast
  have f: "file = NULL \<or> file_offset mod PAGE_SIZE = 0" "paddr \<noteq> 0 \<longrightarrow> file = NULL"
    using cr by (auto simp: vme_create_def)
  note p = vme_create_placed[where sz = sz, OF hold st(1) round_up_page_spec(1)[OF sz] r0 f refl]
  have v: "v = \<lparr>vme_start = st, vme_end = st + ?r, vme_size = sz, vme_flags = flags,
       vme_file = file, vme_file_offset = file_offset, vme_paddr = paddr\<rparr>" using p(1) cr by simp
  have "vmes_ok (vme_insert b v a)"
    by (rule vmes_ok_insert) (use ok vs p(2) v st(2) p(3) in auto)
  moreover have "vme_insert b v a = rev b @ v # a" by (simp add: vme_insert_def)
  ultimately show ?thesis
    unfolding maps_region_def using vs small p(3) placed_range[OF hold r0]
    by (intro conjI exI[of _ "rev b"] exI[of _ v] exI[of _ a]) (auto simp: v)
qed

lemma mmap_maps:
  assumes "vmes_ok vs" "sz \<noteq> 0" "mmap sz file file_offset flags vs = Some (a, vs')"
  shows "maps_region sz flags a vs vs'"
proof -
  let ?r = "round_up_page sz"
  obtain b0 a0 le b c where ff: "vme_skip (vmem_range_start flags) [] vs = (b0, a0)"
    "first_fit ?r (vmem_range_end flags) (vmem_range_start flags) b0 a0 = Some (le, b, c)"
    "rev b @ c = vs" "le mod PAGE_SIZE = 0"
    "unat le + unat ?r \<le> unat (vmem_range_end flags) + 1 \<Longrightarrow> fits_between b (unat le) (unat ?r) c"
    using first_fit_place[OF assms(1), of flags ?r] by metis
  from assms(2,3) ff(1,2) obtain v where m: "a = le" "vs' = vme_insert b v c"
    "vmem_range_can_hold le ?r (vmem_range_start flags) (vmem_range_end flags)"
    "vme_create le (le + ?r) sz file file_offset flags 0 = Some v"
    by (auto simp: mmap_def Let_def Option.bind_eq_Some_conv)
  have "fits_between b (unat le) (unat ?r) c"
    using ff(5) m(3) can_hold_iff[OF vme_create_size[OF m(4)]] by blast
  then show ?thesis using maps_region_placed[OF assms(1) ff(3) assms(2) ff(4) _ m(3,4)] m(1,2) by simp
qed

lemma mmap_physmem_maps:
  assumes "vmes_ok vs" "sz \<noteq> 0" "mmap_physmem sz paddr flags vs = Some (a, vs')"
  shows "maps_region sz flags a vs vs'"
proof -
  let ?r = "round_up_page sz"
  obtain b0 a0 le b c where ff: "vme_skip (vmem_range_start flags) [] vs = (b0, a0)"
    "first_fit ?r (vmem_range_end flags) (vmem_range_start flags) b0 a0 = Some (le, b, c)"
    "rev b @ c = vs" "le mod PAGE_SIZE = 0"
    "unat le + unat ?r \<le> unat (vmem_range_end flags) + 1 \<Longrightarrow> fits_between b (unat le) (unat ?r) c"
    using first_fit_place[OF assms(1), of flags ?r] by metis
  from assms(2,3) ff(1,2) obtain v where m: "a = le" "vs' = vme_insert b v c"
    "vmem_range_can_hold le ?r (vmem_range_start flags) (vmem_range_end flags)"
    "vme_create le (le + ?r) sz NULL 0 flags paddr = Some v"
    by (auto simp: mmap_physmem_def Let_def Option.bind_eq_Some_conv)
  have "fits_between b (unat le) (unat ?r) c"
    using ff(5) m(3) can_hold_iff[OF vme_create_size[OF m(4)]] by blast
  then show ?thesis using maps_region_placed[OF assms(1) ff(3) assms(2) ff(4) _ m(3,4)] m(1,2) by simp
qed

lemma mmap_first_fit:
  assumes ok: "vmes_ok vs" and sz: "sz \<noteq> 0" "unat sz \<le> 2 ^ 32 - 4096" and f: "file = NULL \<or> file_offset mod PAGE_SIZE = 0"
    and x: "unat (vmem_range_start flags) \<le> x" "x + unat (round_up_page sz) \<le> unat (vmem_range_end flags) + 1"
      "x + unat (round_up_page sz) < 2 ^ 32"
      "\<forall>v \<in> set vs. x + unat (round_up_page sz) \<le> unat (vme_start v) \<or> unat (vme_end v) \<le> x"
  shows "\<exists>a vs'. mmap sz file file_offset flags vs = Some (a, vs') \<and> unat a \<le> x"
proof -
  let ?r = "round_up_page sz"
  obtain b0 a0 le b c where ff: "vme_skip (vmem_range_start flags) [] vs = (b0, a0)"
    "first_fit ?r (vmem_range_end flags) (vmem_range_start flags) b0 a0 = Some (le, b, c)"
    "le mod PAGE_SIZE = 0" "unat le \<le> x" "vmem_range_start flags \<le> le"
    using first_fit_place[OF ok, of flags ?r] x(1,2,4) by metis
  have "0 < unat sz" using sz(1) by (simp add: unat_gt_0)
  then have r0: "?r \<noteq> 0" using round_up_page_spec(2)[OF sz] by auto
  then have hold: "vmem_range_can_hold le ?r (vmem_range_start flags) (vmem_range_end flags)"
    using can_hold_iff[OF r0] ff(4,5) x(2,3) by auto
  show ?thesis
    using ff hold sz(1) vme_create_placed(1)[where sz = sz, OF hold ff(3) round_up_page_spec(1)[OF sz(1)] r0 f _ refl, of 0]
    by (auto simp: mmap_def)
qed

text \<open>C13.  A region that \<open>mmap\<close> or \<open>mmap_physmem\<close> returns was free, lies in the half the flags ask
  for, holds at least the requested bytes, and joins the list as one more VME; the list stays
  sorted, aligned and free of overlaps.\<close>

theorem mmap_region_was_free:
  assumes "vmes_ok vs" "sz \<noteq> 0"
    "mmap sz file file_offset flags vs = Some (a, vs') \<or> mmap_physmem sz paddr flags vs = Some (a, vs')"
  shows "vmes_ok vs' \<and> (\<exists>b v c. vs = b @ c \<and> vs' = b @ v # c
     \<and> vme_start v = a \<and> vme_size v = sz \<and> vme_flags v = flags \<and> unat a + unat sz \<le> unat (vme_end v)
     \<and> vmem_range_start flags \<le> a \<and> vme_end v - 1 \<le> vmem_range_end flags)"
  unfolding maps_region_def[symmetric]
  using mmap_maps[OF assms(1,2)] mmap_physmem_maps[OF assms(1,2)] assms(3) by metis

text \<open>C14.  \<open>mmap\<close> is first fit: whenever the half has a gap for the request, the call succeeds,
  and it returns an address not above any such gap.\<close>

theorem mmap_finds_lowest_gap:
  assumes "vmes_ok vs" "sz \<noteq> 0" "unat sz \<le> 2 ^ 32 - 4096" "file = NULL \<or> file_offset mod PAGE_SIZE = 0"
    "unat (vmem_range_start flags) \<le> x" "x + unat (round_up_page sz) \<le> unat (vmem_range_end flags) + 1"
    "x + unat (round_up_page sz) < 2 ^ 32"
    "\<forall>v \<in> set vs. x + unat (round_up_page sz) \<le> unat (vme_start v) \<or> unat (vme_end v) \<le> x"
  shows "\<exists>a vs'. mmap sz file file_offset flags vs = Some (a, vs') \<and> unat a \<le> x"
  using assms by (rule mmap_first_fit)


section \<open>Mapping at a given address\<close>

lemma vme_skip_at:
  assumes "vmes_ok vs" "vme_skip st [] vs = (b, a)"
  shows "rev b @ a = vs" "\<forall>x \<in> set b. vme_end x \<le> st"
    "\<forall>y \<in> set a. st < vme_end y \<and> vme_start (hd a) \<le> vme_start y"
proof -
  note sk = vme_skip_spec[OF assms(2)]
  show vs: "rev b @ a = vs" "\<forall>x \<in> set b. vme_end x \<le> st" using sk by auto
  show "\<forall>y \<in> set a. st < vme_end y \<and> vme_start (hd a) \<le> vme_start y"
  proof (cases a)
    case (Cons v w)
    have v: "vme_ok v" "\<forall>y \<in> set w. vme_end v \<le> vme_start y \<and> vme_ok y"
      using assms(1) vs(1) Cons by (auto simp: vmes_ok_append vmes_ok_Cons) (auto simp: vmes_ok_def list_all_iff)
    have lt: "st < vme_end v" "vme_start v < vme_end v" using sk Cons vme_ok_nonempty[OF v(1)] by auto
    have "st < vme_end y \<and> vme_start v \<le> vme_start y" if y: "y \<in> set w" for y
    proof -
      have "vme_end v \<le> vme_start y" "vme_start y < vme_end y" using v(2) y vme_ok_nonempty by auto
      then show ?thesis using lt by (meson less_imp_le less_le_trans order_trans)
    qed
    then show ?thesis using Cons lt by auto
  qed simp
qed

lemma skip_free_iff:
  assumes ok: "vmes_ok vs" and sk: "vme_skip st [] vs = (b, a)" and r: "0 < r"
  shows "(\<forall>v \<in> set vs. bytes_of v \<inter> {unat st..<unat st + r} = {}) \<longleftrightarrow>
        a = [] \<or> unat st + r \<le> unat (vme_start (hd a))"
    and "a = [] \<or> unat st + r \<le> unat (vme_start (hd a)) \<Longrightarrow> fits_between b (unat st) r a"
proof -
  note at = vme_skip_at[OF ok sk]
  have fit: "fits_between b (unat st) r a" if "a = [] \<or> unat st + r \<le> unat (vme_start (hd a))"
    using that at(2,3) unfolding fits_between_def word_le_nat_alt by (auto intro: order_trans)
  then show "a = [] \<or> unat st + r \<le> unat (vme_start (hd a)) \<Longrightarrow> fits_between b (unat st) r a" .
  show "(\<forall>v \<in> set vs. bytes_of v \<inter> {unat st..<unat st + r} = {}) \<longleftrightarrow>
        a = [] \<or> unat st + r \<le> unat (vme_start (hd a))"
  proof (cases "a = [] \<or> unat st + r \<le> unat (vme_start (hd a))")
    case True
    have "set vs = set b \<union> set a" using at(1) by (metis set_append set_rev)
    then show ?thesis using True fit[OF True] by (fastforce simp: bytes_of_def fits_between_def)
  next
    case False
    then have m: "hd a \<in> set a" "hd a \<in> set vs" using at(1) by auto
    then have "unat (vme_start (hd a)) < unat (vme_end (hd a))" "unat st < unat (vme_end (hd a))"
      using ok at(3) vme_ok_nonempty by (auto simp: vmes_ok_def list_all_iff word_less_nat_alt)
    then have "max (unat st) (unat (vme_start (hd a))) \<in> bytes_of (hd a) \<inter> {unat st..<unat st + r}"
      using False r by (auto simp: bytes_of_def)
    then show ?thesis using m False by blast
  qed
qed

lemma page_rounded:
  assumes "sz \<noteq> 0" "unat sz \<le> 2 ^ 32 - 4096"
  shows "unat (round_up_page sz) = (unat sz + 4095) div 4096 * 4096" "round_up_page sz \<noteq> 0"
proof -
  note r = round_up_page_spec(1)[OF assms(1)] round_up_page_spec(2)[OF assms]
  then obtain k where k: "unat (round_up_page sz) = 4096 * k" by (auto elim: dvdE)
  then have "unat sz + 4095 = 4096 * k + (unat sz + 4095 - 4096 * k)" "unat sz + 4095 - 4096 * k < 4096" using r(2) by auto
  then have "(unat sz + 4095) div 4096 = k" by (intro div_nat_eqI) auto
  then show "unat (round_up_page sz) = (unat sz + 4095) div 4096 * 4096" using k by simp
  have "0 < unat sz" using assms(1) by (simp add: unat_gt_0)
  then show "round_up_page sz \<noteq> 0" using r(2) by auto
qed

lemma mmap_at_overflow: "sz \<noteq> 0 \<Longrightarrow> \<not> unat sz \<le> 2 ^ 32 - 4096 \<Longrightarrow> mmap_at sz file file_offset flags vaddr vs = None"
  by (simp add: mmap_at_def round_up_page_spec(3) vme_create_def split: prod.splits Option.bind_splits)

lemma mmap_at_misaligned:
  "sz \<noteq> 0 \<Longrightarrow> vaddr mod PAGE_SIZE \<noteq> 0 \<or> (file \<noteq> NULL \<and> file_offset mod PAGE_SIZE \<noteq> 0) \<Longrightarrow> mmap_at sz file file_offset flags vaddr vs = None"
  by (auto simp: mmap_at_def vme_create_def Let_def split: prod.splits Option.bind_splits)

text \<open>The addresses of the half that the flags name, and the pages of a request at an address.\<close>

definition half :: "u32 \<Rightarrow> nat set" where
  "half flags = (if has_flag flags MMAP_USER then {0x80000000..0xFFFFFFFF} else {0x10000000..0x7FFFFFFF})"

definition page_range :: "u32 \<Rightarrow> u32 \<Rightarrow> nat set" where
  "page_range vaddr sz = {unat vaddr..<unat vaddr + (unat sz + 4095) div 4096 * 4096}"

lemma half_range:
  assumes "r \<noteq> 0"
  shows "vmem_range_can_hold vaddr r (vmem_range_start flags) (vmem_range_end flags) \<longleftrightarrow>
    {unat vaddr..<unat vaddr + unat r} \<subseteq> half flags \<and> unat vaddr + unat r < 2 ^ 32"
proof -
  have r: "0 < unat r" using assms by (simp add: unat_gt_0)
  have "{unat vaddr..<unat vaddr + unat r} \<subseteq> {a..b} \<longleftrightarrow> a \<le> unat vaddr \<and> unat vaddr + unat r \<le> b + 1" for a b
  proof
    assume s: "{unat vaddr..<unat vaddr + unat r} \<subseteq> {a..b}"
    have "unat vaddr \<in> {a..b}" "unat vaddr + unat r - 1 \<in> {a..b}" by (rule subsetD[OF s], use r in simp)+
    then show "a \<le> unat vaddr \<and> unat vaddr + unat r \<le> b + 1" by auto
  qed auto
  then show ?thesis unfolding can_hold_iff[OF assms]
    by (auto simp: half_def vmem_range_start_def vmem_range_end_def range_consts word_le_nat_alt)
qed

lemma mmap_at_placed:
  assumes "vmes_ok vs" "sz \<noteq> 0" "vaddr mod PAGE_SIZE = 0" "file = NULL \<or> file_offset mod PAGE_SIZE = 0" "round_up_page sz \<noteq> 0"
    and hold: "vmem_range_can_hold vaddr (round_up_page sz) (vmem_range_start flags) (vmem_range_end flags)"
  shows "if \<forall>v \<in> set vs. bytes_of v \<inter> {unat vaddr..<unat vaddr + unat (round_up_page sz)} = {}
    then \<exists>v vs'. mmap_at sz file file_offset flags vaddr vs = Some (Some v, vs') \<and> v \<in> set vs' \<and> maps_region sz flags vaddr vs vs'
    else mmap_at sz file file_offset flags vaddr vs = None"
proof -
  let ?r = "round_up_page sz"
  obtain b a where sk: "vme_skip vaddr [] vs = (b, a)" by (metis surj_pair)
  have r: "0 < unat ?r" using assms(5) by (simp add: unat_gt_0)
  note free = skip_free_iff[OF assms(1) sk r]
  note p = vme_create_placed[where sz = sz and paddr = 0, OF hold assms(3) round_up_page_spec(1)[OF assms(2)] assms(5,4) _ refl]
  have e: "(\<not> vme_start (hd a) < vaddr + ?r) = (unat vaddr + unat ?r \<le> unat (vme_start (hd a)))"
    using p(3) by (simp add: word_less_nat_alt not_less)
  obtain v where v: "vme_create vaddr (vaddr + ?r) sz file file_offset flags 0 = Some v" using p(1) by simp
  have run: "mmap_at sz file file_offset flags vaddr vs =
      (if a = [] \<or> unat vaddr + unat ?r \<le> unat (vme_start (hd a)) then Some (Some v, vme_insert b v a) else None)"
    using assms(2) hold sk v by (simp add: mmap_at_def Let_def e del: not_less)
  show ?thesis
  proof (cases "a = [] \<or> unat vaddr + unat ?r \<le> unat (vme_start (hd a))")
    case fit: True
    have "maps_region sz flags vaddr vs (vme_insert b v a)"
      using maps_region_placed[OF assms(1) vme_skip_at(1)[OF assms(1) sk] assms(2,3) free(2)[OF fit] hold v] .
    moreover have "v \<in> set (vme_insert b v a)" by (simp add: vme_insert_def)
    ultimately show ?thesis unfolding free(1) run using fit by simp
  next
    case False
    then show ?thesis unfolding free(1) run by simp
  qed
qed

text \<open>C15.  A mapping of a non-zero size at a fixed address succeeds exactly when the address is page
  aligned, the file offset is page aligned when there is a file, the request rounded up to pages lies in
  the half that the flags name and does not contain the last address (the end of a VME is exclusive and must
  be representable), and no VME overlaps it; then it is added and the list invariant is kept.  In every other case the kernel panics.\<close>

theorem mmap_at_iff_free:
  assumes "vmes_ok vs" "sz \<noteq> 0"
  shows "if unat vaddr mod 4096 = 0 \<and> (file = NULL \<or> unat file_offset mod 4096 = 0)
       \<and> page_range vaddr sz \<subseteq> half flags \<and> 0xFFFFFFFF \<notin> page_range vaddr sz
       \<and> (\<forall>v \<in> set vs. bytes_of v \<inter> page_range vaddr sz = {})
    then \<exists>v vs'. mmap_at sz file file_offset flags vaddr vs = Some (Some v, vs') \<and> v \<in> set vs'
       \<and> maps_region sz flags vaddr vs vs'
    else mmap_at sz file file_offset flags vaddr vs = None"
proof (cases "unat sz \<le> 2 ^ 32 - 4096 \<and> vaddr mod PAGE_SIZE = 0 \<and> (file = NULL \<or> file_offset mod PAGE_SIZE = 0)")
  case True
  note r = page_rounded[OF assms(2) conjunct1[OF True]]
  have range: "page_range vaddr sz = {unat vaddr..<unat vaddr + unat (round_up_page sz)}" by (simp add: page_range_def r(1))
  have "unat vaddr + unat (round_up_page sz) < 2 ^ 32 \<longleftrightarrow> 0xFFFFFFFF \<notin> page_range vaddr sz" unfolding range using unat_word32_less[of vaddr] by auto
  note hold = half_range[OF r(2), of vaddr flags, folded range, unfolded this]
  have f: "vaddr mod PAGE_SIZE = 0" "file = NULL \<or> file_offset mod PAGE_SIZE = 0" using True by auto
  have al: "unat vaddr mod 4096 = 0 \<and> (file = NULL \<or> unat file_offset mod 4096 = 0)" using True by (simp add: mod_page dvd_eq_mod_eq_0)
  show ?thesis
  proof (cases "vmem_range_can_hold vaddr (round_up_page sz) (vmem_range_start flags) (vmem_range_end flags)")
    case h: True
    then show ?thesis using mmap_at_placed[OF assms f r(2) h, folded range] al hold by simp
  next
    case False
    then show ?thesis using assms(2) hold by (auto simp: mmap_at_def)
  qed
next
  case False
  have "\<not> unat sz \<le> 2 ^ 32 - 4096 \<Longrightarrow> 2 ^ 32 \<le> (unat sz + 4095) div 4096 * 4096" by simp
  then have "\<not> unat sz \<le> 2 ^ 32 - 4096 \<Longrightarrow> 0xFFFFFFFF \<in> page_range vaddr sz" using unat_word32_less[of vaddr] by (auto simp: page_range_def)
  then show ?thesis using False mmap_at_overflow[OF assms(2)] mmap_at_misaligned[OF assms(2)] by (auto simp: mod_page dvd_eq_mod_eq_0)
qed

section \<open>Mapping a stack at the highest fit\<close>

definition free_at :: "vme list \<Rightarrow> nat \<Rightarrow> nat \<Rightarrow> bool" where
  "free_at vs x r \<longleftrightarrow> (\<forall>v \<in> set vs. x + r \<le> unat (vme_start v) \<or> unat (vme_end v) \<le> x)"

text \<open>The loop's invariant: the remembered position is a good one, and no place below the
  current gap beats it.\<close>

definition good_gap :: "vme list \<Rightarrow> nat \<Rightarrow> u32 \<Rightarrow> u32 \<Rightarrow> u32 \<times> vme list \<times> vme list \<Rightarrow> bool" where
  "good_gap vs r rs lim = (\<lambda>(st, b, a). rev b @ a = vs \<and> fits_between b (unat st) r a
     \<and> unat st + r \<le> unat lim \<and> rs \<le> st \<and> st mod PAGE_SIZE = 0)"

definition best_below :: "vme list \<Rightarrow> nat \<Rightarrow> u32 \<Rightarrow> u32 \<Rightarrow> u32 \<Rightarrow> stack_gap \<Rightarrow> bool" where
  "best_below vs r rs lim gs found \<longleftrightarrow> (\<forall>g. found = Some g \<longrightarrow> good_gap vs r rs lim g)
     \<and> (\<forall>x. unat rs \<le> x \<longrightarrow> x + r \<le> unat lim \<longrightarrow> free_at vs x r \<longrightarrow>
          unat gs \<le> x \<or> (\<exists>g. found = Some g \<and> x \<le> unat (fst g)))"

lemma best_belowI:
  assumes "best_below vs r rs lim gs found" "good_gap vs r rs lim g"
    "\<And>x. unat rs \<le> x \<Longrightarrow> x + r \<le> unat lim \<Longrightarrow> free_at vs x r \<Longrightarrow> unat gs' \<le> x \<or> x \<le> unat (fst g)"
  shows "best_below vs r rs lim gs' (Some g)"
  using assms by (auto simp: best_below_def)

lemma gap_top_aligned:
  assumes "e mod PAGE_SIZE = 0" "4096 dvd unat r" "r \<le> (e :: u32)"
  shows "(e - r) mod PAGE_SIZE = 0" "unat (e - r) = unat e - unat r"
  using assms by (auto simp: mod_page unat_sub word_le_nat_alt)

lemma good_gap_top:
  assumes "rev b @ a = vs" "\<forall>x \<in> set b. vme_end x \<le> gs" "\<forall>y \<in> set a. e \<le> vme_start y" "e \<le> lim"
    "gs \<le> e" "r \<le> e - gs" "rs \<le> gs" "e mod PAGE_SIZE = 0" "4096 dvd unat r"
  shows "good_gap vs (unat r) rs lim (e - r, b, a)" "unat gs \<le> unat (e - r)" "unat (e - r) = unat e - unat r"
proof -
  have d: "unat (e - gs) = unat e - unat gs" using assms(5) by (simp add: unat_sub word_le_nat_alt)
  then have re: "r \<le> e" "unat gs + unat r \<le> unat e"
    using assms(5,6) unfolding word_le_nat_alt by linarith+
  note t = gap_top_aligned[OF assms(8,9) re(1)]
  show u: "unat (e - r) = unat e - unat r" by (rule t(2))
  show g: "unat gs \<le> unat (e - r)" using u re(2) by linarith
  show "good_gap vs (unat r) rs lim (e - r, b, a)"
    using assms(1-4,7) t g u re(2) unfolding good_gap_def fits_between_def word_le_nat_alt
    by (auto intro: order_trans)
qed

lemma stack_fit_spec:
  assumes "vmes_ok curs" "\<forall>y \<in> set curs. gs \<le> vme_start y" "\<forall>x \<in> set b0. vme_end x \<le> gs"
    "gs mod PAGE_SIZE = 0" "lim mod PAGE_SIZE = 0" "4096 dvd unat r" "rs \<le> gs" "rev b0 @ curs = vs"
    "best_below vs (unat r) rs lim gs found"
  shows "\<exists>gs' found' b a. stack_fit r lim gs found b0 curs = Some (gs', found', b, a) \<and> rev b @ a = vs
    \<and> rs \<le> gs' \<and> (\<forall>x \<in> set b. vme_end x \<le> gs') \<and> (\<forall>y \<in> set a. lim \<le> vme_start y)
    \<and> best_below vs (unat r) rs lim gs' found'"
  using assms
proof (induction curs arbitrary: gs b0 found)
  case Nil
  then show ?case by auto
next
  case (Cons v w)
  have v: "vme_ok v" "vmes_ok w" "\<forall>y \<in> set w. vme_end v \<le> vme_start y" "gs \<le> vme_start v"
    using Cons.prems by (auto simp: vmes_ok_Cons)
  have ve: "vme_start v < vme_end v" by (rule vme_ok_nonempty[OF v(1)])
  have up: "\<forall>y \<in> set (v # w). vme_start v \<le> vme_start y" using v(3) ve by (auto intro: order_trans less_imp_le)
  define e where "e = (if vme_start v > lim then lim else vme_start v)"
  define fd where "fd = (if e \<ge> gs \<and> e - gs \<ge> r then Some (e - r, b0, v # w) else found)"
  have e: "e \<le> lim" "\<forall>y \<in> set (v # w). e \<le> vme_start y" "e mod PAGE_SIZE = 0"
    using up Cons.prems(5) v(1) by (auto simp: e_def vme_ok_def intro: order_trans less_imp_le)
  have bb: "best_below vs (unat r) rs lim gs' fd" if gs': "gs' = gs \<or> gs' = vme_end v" for gs'
  proof -
    have fit: "unat vme_end' \<le> x \<or> x + unat r \<le> unat e"
      if "free_at vs x (unat r)" "x + unat r \<le> unat lim" "vme_end' = vme_end v" for x vme_end'
    proof -
      have "v \<in> set vs" using Cons.prems(8) by auto
      then have "x + unat r \<le> unat (vme_start v) \<or> unat (vme_end v) \<le> x" using that(1) by (simp add: free_at_def)
      then show ?thesis using that(2,3) by (auto simp: e_def)
    qed
    show ?thesis
    proof (cases "e \<ge> gs \<and> e - gs \<ge> r")
      case True
      note g = good_gap_top[OF Cons.prems(8,3) e(2,1) _ _ Cons.prems(7) e(3) Cons.prems(6)]
      have "best_below vs (unat r) rs lim gs' (Some (e - r, b0, v # w))"
      proof (rule best_belowI[OF Cons.prems(9)])
        show "good_gap vs (unat r) rs lim (e - r, b0, v # w)" using g True by blast
        show "unat gs' \<le> x \<or> x \<le> unat (fst (e - r, b0, v # w))"
          if "x + unat r \<le> unat lim" "free_at vs x (unat r)" for x
          using fit[OF that(2,1) refl] g(2,3) True gs' by auto
      qed
      then show ?thesis using True by (simp add: fd_def)
    next
      case False
      have "unat (vme_end v) \<le> x" if x: "unat gs \<le> x" "x + unat r \<le> unat lim" "free_at vs x (unat r)" for x
      proof (rule ccontr)
        assume "\<not> unat (vme_end v) \<le> x"
        then have "x + unat r \<le> unat e" using fit[OF x(3,2) refl] by simp
        then show False using False x(1) by (auto simp: word_le_nat_alt unat_sub)
      qed
      then show ?thesis using False gs' Cons.prems(9) by (auto simp: fd_def best_below_def)
    qed
  qed
  show ?case
  proof (cases "vme_start v \<ge> lim")
    case True
    then have "stack_fit r lim gs found b0 (v # w) = Some (gs, fd, b0, v # w)"
      using v(4) by (simp add: Let_def e_def fd_def)
    then show ?thesis using Cons.prems(3,7,8) True up bb[of gs] by (auto intro: order_trans)
  next
    case False
    have run: "stack_fit r lim gs found b0 (v # w) = stack_fit r lim (vme_end v) fd (v # b0) w"
      using v(4) False by (simp add: Let_def e_def fd_def)
    have le: "gs \<le> vme_end v" using v(4) ve by (meson less_imp_le order_trans)
    show ?thesis unfolding run
      by (rule Cons.IH[OF v(2,3)])
        (use Cons.prems le v(1) bb[of "vme_end v"] in \<open>auto simp: vme_ok_def intro: order_trans\<close>)
  qed
qed

lemma user_range:
  assumes "has_flag flags MMAP_USER"
  shows "vmem_range_start flags = 0x80000000" "vmem_range_end flags = 0xFFFFFFFF"
    "vmem_range_topdown_limit flags = 0xFFFFF000"
  using assms by (simp_all add: vmem_range_start_def vmem_range_end_def vmem_range_topdown_limit_def range_consts)

lemma best_final:
  assumes "rev b @ a = vs" "rs \<le> gs" "\<forall>x \<in> set b. vme_end x \<le> gs" "\<forall>y \<in> set a. lim \<le> vme_start y"
    "best_below vs (unat r) rs lim gs fd" "lim mod PAGE_SIZE = 0" "4096 dvd unat r"
    and fin: "fin = (if gs \<le> lim \<and> lim - gs \<ge> r then Some (lim - r, b, a) else fd)"
  shows "fin = Some g \<Longrightarrow> good_gap vs (unat r) rs lim g"
    and "unat rs \<le> x \<Longrightarrow> x + unat r \<le> unat lim \<Longrightarrow> free_at vs x (unat r) \<Longrightarrow> \<exists>g. fin = Some g \<and> x \<le> unat (fst g)"
proof -
  have old: "\<And>g. fd = Some g \<Longrightarrow> good_gap vs (unat r) rs lim g"
    "\<And>x. unat rs \<le> x \<Longrightarrow> x + unat r \<le> unat lim \<Longrightarrow> free_at vs x (unat r) \<Longrightarrow>
       unat gs \<le> x \<or> (\<exists>g. fd = Some g \<and> x \<le> unat (fst g))"
    using assms(5) unfolding best_below_def by blast+
  note top = good_gap_top[OF assms(1,3,4) order_refl _ _ assms(2,6,7)]
  show "good_gap vs (unat r) rs lim g" if "fin = Some g"
    using that top(1) old(1) by (cases "gs \<le> lim \<and> lim - gs \<ge> r") (auto simp: fin)
  assume x: "unat rs \<le> x" "x + unat r \<le> unat lim" "free_at vs x (unat r)"
  show "\<exists>g. fin = Some g \<and> x \<le> unat (fst g)"
  proof (cases "gs \<le> lim \<and> lim - gs \<ge> r")
    case True
    then show ?thesis using top(3) x(2) by (auto simp: fin)
  next
    case False
    have "\<not> unat gs \<le> x"
    proof
      assume "unat gs \<le> x"
      then show False using False x(2) by (auto simp: word_le_nat_alt unat_sub)
    qed
    then show ?thesis using old(2)[OF x] False by (auto simp: fin)
  qed
qed

text \<open>A user stack goes to the highest gap of the user half: the call panics only when no gap
  holds the stack, and otherwise the region it adds was free, ends below the last page, and
  starts at or above every other place where the stack would fit.\<close>

theorem mmap_stack_highest_gap:
  assumes "vmes_ok vs" "sz \<noteq> 0" "round_up_page sz \<noteq> 0" "has_flag flags MMAP_USER" "\<not> has_flag flags MMAP_SHARED"
  shows "case mmap_stack sz flags vs of
      None \<Rightarrow> \<not> (\<exists>x \<ge> 0x80000000. x + unat (round_up_page sz) \<le> 0xFFFFF000 \<and> free_at vs x (unat (round_up_page sz)))
    | Some (a, vs') \<Rightarrow> maps_region sz flags a vs vs' \<and> unat a + unat sz \<le> 0xFFFFF000
        \<and> (\<forall>x \<ge> 0x80000000. x + unat (round_up_page sz) \<le> 0xFFFFF000 \<longrightarrow>
             free_at vs x (unat (round_up_page sz)) \<longrightarrow> x \<le> unat a)"
proof -
  let ?r = "round_up_page sz" and ?rs = "vmem_range_start flags"
  note ur = user_range[OF assms(4)]
  note rd = round_up_page_spec(1)[OF assms(2)]
  define lim where "lim = vmem_range_topdown_limit flags"
  have lim: "lim mod PAGE_SIZE = 0" "unat lim = 0xFFFFF000" by (simp_all add: lim_def ur PAGE_SIZE_def)
  obtain b0 a0 where sk: "vme_skip ?rs [] vs = (b0, a0)" by (metis surj_pair)
  note sr = vme_skip_range[OF assms(1) sk]
  have ok0: "vmes_ok a0" using assms(1) sr(1) vmes_ok_append by metis
  have bb0: "best_below vs (unat ?r) ?rs lim ?rs None" by (simp add: best_below_def)
  obtain gs fd b a where sf: "stack_fit ?r lim ?rs None b0 a0 = Some (gs, fd, b, a)" "rev b @ a = vs"
    "?rs \<le> gs" "\<forall>x \<in> set b. vme_end x \<le> gs" "\<forall>y \<in> set a. lim \<le> vme_start y"
    "best_below vs (unat ?r) ?rs lim gs fd"
    using stack_fit_spec[OF ok0 sr(3,2) range_start_aligned lim(1) rd order_refl sr(1) bb0]
    by (elim exE conjE) (rule that; assumption)
  define fin where "fin = (if gs \<le> lim \<and> lim - gs \<ge> ?r then Some (lim - ?r, b, a) else fd)"
  note bf = best_final[OF sf(2-6) lim(1) rd fin_def]
  have good: "good_gap vs (unat ?r) ?rs lim g" if "fin = Some g" for g using bf(1)[OF that] .
  have best: "\<exists>g. fin = Some g \<and> x \<le> unat (fst g)"
    if x: "0x80000000 \<le> x" "x + unat ?r \<le> 0xFFFFF000" "free_at vs x (unat ?r)" for x
    by (rule bf(2)) (use x lim(2) in \<open>simp_all add: ur\<close>)
  have run: "mmap_stack sz flags vs = do { (st, b, a) \<leftarrow> fin;
        kassert (vmem_range_can_hold st ?r ?rs (vmem_range_end flags));
        v \<leftarrow> vme_create st (st + ?r) sz NULL 0 flags 0;
        Some (st, vme_insert b v a) }"
    using assms(2,4,5) sk sf(1) by (simp add: mmap_stack_def Let_def lim_def fin_def)
  show ?thesis
  proof (cases fin)
    case None
    then show ?thesis using best by (auto simp: run)
  next
    case (Some g)
    obtain st b1 a1 where g: "g = (st, b1, a1)" by (cases g)
    have gg: "rev b1 @ a1 = vs" "fits_between b1 (unat st) (unat ?r) a1" "unat st + unat ?r \<le> 0xFFFFF000"
      "?rs \<le> st" "st mod PAGE_SIZE = 0"
      using good[OF Some] lim(2) by (auto simp: g good_gap_def)
    have hold: "vmem_range_can_hold st ?r ?rs (vmem_range_end flags)"
      using gg(3,4) by (simp add: can_hold_iff[OF assms(3)] ur)
    obtain v where v: "vme_create st (st + ?r) sz NULL 0 flags 0 = Some v"
      using vme_create_placed(1)[OF hold gg(5) rd assms(3) _ _ refl] by blast
    have "unat sz \<le> unat ?r" using round_up_page_spec[OF assms(2)] assms(3) by blast
    then show ?thesis
      using maps_region_placed[OF assms(1) gg(1) assms(2) gg(5,2) hold v] best gg(3) by (auto simp: run Some g hold v)
  qed
qed

section \<open>Unmapping and forking\<close>

lemma munmap_unlink_at:
  assumes "vmes_ok (b @ v # c)" "\<not> (has_flag (vme_flags v) MMAP_SHARED \<and> vme_file v = NULL)"
  shows "munmap_unlink (vme_start v) (b @ v # c) = Some (v, b @ c)"
  using assms
proof (induction b)
  case (Cons u b)
  have "vme_start u < vme_end u" "vme_end u \<le> vme_start v"
    using Cons.prems(1) vme_ok_nonempty by (auto simp: vmes_ok_Cons)
  then have "vme_start u \<noteq> vme_start v" by auto
  then show ?case using Cons by (simp add: vmes_ok_Cons)
qed simp

lemma mmap_file:
  assumes "vmes_ok vs" "mmap sz file file_offset flags vs = Some (a, vs')" "sz \<noteq> 0"
  shows "\<exists>b v c. vs' = b @ v # c \<and> vme_start v = a \<and> vme_file v = file \<and> vme_flags v = flags \<and> vs = b @ c"
proof -
  obtain b0 a0 le b c where "vme_skip (vmem_range_start flags) [] vs = (b0, a0)" "rev b @ c = vs"
    "first_fit (round_up_page sz) (vmem_range_end flags) (vmem_range_start flags) b0 a0 = Some (le, b, c)"
    using first_fit_place[OF assms(1), of flags "round_up_page sz"] by metis
  with assms(2,3) obtain v where "vs' = rev b @ v # c" "vme_start v = a" "vme_file v = file" "vme_flags v = flags"
    by (auto simp: mmap_def Let_def vme_create_def vme_insert_def Option.bind_eq_Some_conv)
  then show ?thesis using \<open>rev b @ c = vs\<close> by blast
qed

text \<open>C16.  \<open>munmap\<close> undoes \<open>mmap\<close>: unmapping the returned address finds the VME of that very call
  and leaves the list as it was before.  (Anonymous shared regions are refused by \<open>munmap\<close>.)\<close>

theorem munmap_undoes_mmap:
  assumes "vmes_ok vs" "sz \<noteq> 0" "mmap sz file file_offset flags vs = Some (a, vs')"
    "has_flag flags MMAP_SHARED \<longrightarrow> file \<noteq> NULL"
  shows "\<exists>v. munmap_unlink a vs' = Some (v, vs) \<and> vme_start v = a \<and> v \<notin> set vs"
proof -
  obtain b v c where v: "vs' = b @ v # c" "vme_start v = a" "vme_file v = file" "vme_flags v = flags" "vs = b @ c"
    using mmap_file[OF assms(1,3,2)] by blast
  have ok: "vmes_ok vs'" using mmap_maps[OF assms(1-3)] by (simp add: maps_region_def)
  have "v \<notin> set vs"
    using ok v(1,5) vme_ok_nonempty[of v] by (auto simp: vmes_ok_append vmes_ok_Cons not_less[symmetric])
  then show ?thesis using munmap_unlink_at[of b v c] ok v assms(4) by auto
qed

text \<open>A fork copies the VME list exactly, and never panics on a well-formed one.\<close>

lemma fork_vmes_copies:
  assumes "vmes_ok vs"
  shows "fork_vmes vs = Some vs"
  using assms by (induction vs) (auto simp: vmes_ok_Cons vme_ok_def vme_create_def)


section \<open>Correctness of the user range check\<close>

definition grants :: "u32 \<Rightarrow> vme \<Rightarrow> bool" where
  "grants required_flags v \<longleftrightarrow> has_flag (vme_flags v) MMAP_USER
     \<and> (has_flag required_flags MMAP_READ \<longrightarrow> has_flag (vme_flags v) MMAP_READ)
     \<and> (has_flag required_flags MMAP_WRITE \<longrightarrow> has_flag (vme_flags v) MMAP_WRITE)"

lemma vme_covering_unique:
  assumes "vmes_ok vs" "w \<in> set vs" "unat cur \<in> bytes_of w"
  shows "vme_covering cur vs = Some w"
  using assms
  by (induction vs) (fastforce simp: vmes_ok_Cons bytes_of_def word_le_nat_alt)+

lemma covered_iff:
  assumes "vmes_ok vs"
  shows "(\<exists>w \<in> set vs. unat cur \<in> bytes_of w \<and> P w) \<longleftrightarrow>
    (case vme_covering cur vs of None \<Rightarrow> False | Some v \<Rightarrow> vme_start v \<le> cur \<and> P v)"
proof (cases "vme_covering cur vs")
  case None
  then show ?thesis using vme_covering_unique[OF assms, of _ cur] by auto
next
  case (Some v)
  note v = vme_covering_SomeD[OF Some]
  have "unat cur \<in> bytes_of v \<longleftrightarrow> vme_start v \<le> cur"
    using v by (auto simp: bytes_of_def word_le_nat_alt word_less_nat_alt)
  moreover have "w = v" if "w \<in> set vs" "unat cur \<in> bytes_of w" for w
    using vme_covering_unique[OF assms that] Some by simp
  ultimately have "(\<exists>w \<in> set vs. unat cur \<in> bytes_of w \<and> P w) \<longleftrightarrow> vme_start v \<le> cur \<and> P v"
    using v by blast
  then show ?thesis using Some by simp
qed

lemma user_range_loop_spec:
  assumes "vmes_ok vs" "cur \<le> last_byte"
  shows "user_range_loop vs req cur last_byte \<longleftrightarrow>
    (\<forall>x \<in> {unat cur..unat last_byte}. \<exists>v \<in> set vs. x \<in> bytes_of v \<and> grants req v)"
  using assms
proof (induction vs req cur last_byte rule: user_range_loop.induct)
  case (1 vs req cur last_byte)
  note cov = covered_iff[OF 1(2), of cur "grants req"]
  have step: "user_range_loop vs req cur last_byte \<longleftrightarrow> (case vme_covering cur vs of None \<Rightarrow> False
      | Some v \<Rightarrow> vme_start v \<le> cur \<and> grants req v \<and>
          (last_byte \<le> vme_end v - 1 \<or> user_range_loop vs req (vme_end v) last_byte))"
    by (subst user_range_loop.simps) (auto simp: grants_def split: option.split)
  show ?case
  proof (cases "\<exists>v. vme_covering cur vs = Some v \<and> vme_start v \<le> cur \<and> grants req v")
    case False
    then have "\<not> (\<exists>w \<in> set vs. unat cur \<in> bytes_of w \<and> grants req w)" unfolding cov by (auto split: option.splits)
    moreover have "unat cur \<in> {unat cur..unat last_byte}" using 1(3) by (simp add: word_le_nat_alt)
    ultimately show ?thesis unfolding step using False by (auto split: option.splits)
  next
    case True
    then obtain v where v: "vme_covering cur vs = Some v" "vme_start v \<le> cur" "grants req v" by blast
    note vs = vme_covering_SomeD[OF v(1)]
    have e: "unat (vme_end v - 1) = unat (vme_end v) - 1" by (rule unat_minus_one) (use vs in auto)
    have b: "x \<in> bytes_of v \<and> v \<in> set vs" if "unat cur \<le> x" "x < unat (vme_end v)" for x
      using that v(2) vs by (simp add: bytes_of_def word_le_nat_alt)
    show ?thesis
    proof (cases "last_byte \<le> vme_end v - 1")
      case True
      then have "unat last_byte < unat (vme_end v)" using e vs by (auto simp: word_le_nat_alt word_less_nat_alt)
      then show ?thesis unfolding step using v True b by (auto intro!: bexI[of _ v])
    next
      case False
      then have le: "vme_end v \<le> last_byte" using e by (simp add: word_le_nat_alt)
      have "user_range_loop vs req (vme_end v) last_byte \<longleftrightarrow>
        (\<forall>x \<in> {unat (vme_end v)..unat last_byte}. \<exists>v \<in> set vs. x \<in> bytes_of v \<and> grants req v)"
        by (rule 1(1)[OF v(1)]) (use v False 1(2) le in \<open>auto simp: grants_def\<close>)
      moreover have "{unat cur..unat last_byte} = {unat cur..<unat (vme_end v)} \<union> {unat (vme_end v)..unat last_byte}"
        using le vs by (auto simp: word_le_nat_alt word_less_nat_alt)
      moreover have "\<forall>x \<in> {unat cur..<unat (vme_end v)}. \<exists>v \<in> set vs. x \<in> bytes_of v \<and> grants req v"
        using b v(3) by (auto intro!: bexI[of _ v])
      ultimately show ?thesis unfolding step using v False by (simp add: ball_Un)
    qed
  qed
qed

text \<open>C12.  The check of a user buffer is exact: on a well-formed list it accepts a range if and
  only if the range is empty, or it lies in the user half without wrapping around and every
  byte of it belongs to a user region that grants the required access.\<close>

theorem user_range_ok_exact:
  assumes "vmes_ok vs"
  shows "user_range_ok vs user_ptr n required_flags \<longleftrightarrow> n = 0 \<or>
    (USER_VMEM_START \<le> user_ptr \<and> unat user_ptr + unat n \<le> 2 ^ 32 \<and>
     (\<forall>x \<in> {unat user_ptr..<unat user_ptr + unat n}. \<exists>v \<in> set vs. x \<in> bytes_of v \<and> grants required_flags v))"
proof (cases "n = 0 \<or> user_ptr < USER_VMEM_START")
  case True
  then show ?thesis by (auto simp: user_range_ok_def)
next
  case False
  then have n: "0 < unat n" "unat (n - 1) = unat n - 1" using unat_minus_one[of n] by (auto simp: unat_gt_0)
  have d: "unat (USER_VMEM_END - user_ptr) = 4294967295 - unat user_ptr"
    by (subst unat_sub) (auto simp: word_le_nat_alt USER_VMEM_END_def)
  have fits: "n - 1 > USER_VMEM_END - user_ptr \<longleftrightarrow> \<not> unat user_ptr + unat n \<le> 4294967296"
    unfolding word_less_nat_alt d n(2) using n(1) unat_word32_le[of user_ptr] by (intro iffI) linarith+
  show ?thesis
  proof (cases "unat user_ptr + unat n \<le> 4294967296")
    case False
    then show ?thesis using \<open>\<not> (n = 0 \<or> user_ptr < USER_VMEM_START)\<close> fits by (simp add: user_range_ok_def)
  next
    case True
    have l: "user_ptr + n - 1 = user_ptr + (n - 1)" by (rule add_diff_eq[symmetric])
    have "unat (user_ptr + (n - 1)) = unat user_ptr + unat (n - 1)"
      by (rule unat_add_u32) (use True n in linarith)
    then have "unat (user_ptr + n - 1) = unat user_ptr + unat n - 1" unfolding l n(2) using n(1) by linarith
    moreover have "{unat user_ptr..unat user_ptr + unat n - 1} = {unat user_ptr..<unat user_ptr + unat n}"
      using n(1) by auto
    ultimately show ?thesis
      using user_range_loop_spec[OF assms, of user_ptr "user_ptr + n - 1" required_flags] False True fits n(1)
      by (auto simp: user_range_ok_def word_le_nat_alt word_less_nat_alt not_less)
  qed
qed


section \<open>Instances\<close>

text \<open>An address space with a program region and a stack page.\<close>

definition ex_text :: vme where
  "ex_text = \<lparr>vme_start = 0x80000000, vme_end = 0x80002000, vme_size = 0x1800, vme_flags = 0x24,
     vme_file = 0, vme_file_offset = 0, vme_paddr = 0\<rparr>"

definition ex_data :: vme where
  "ex_data = \<lparr>vme_start = 0x80004000, vme_end = 0x80005000, vme_size = 0x1000, vme_flags = 0x2C,
     vme_file = 0, vme_file_offset = 0, vme_paddr = 0\<rparr>"

lemmas ex_vmes = ex_text_def ex_data_def

lemma ex_vmes_ok: "vmes_ok [ex_text, ex_data]"
  by code_simp

definition ex_new :: vme where
  "ex_new = \<lparr>vme_start = 0x80002000, vme_end = 0x80003000, vme_size = 100, vme_flags = 0x2C,
     vme_file = 0, vme_file_offset = 0, vme_paddr = 0\<rparr>"

definition ex_stack :: vme where
  "ex_stack = \<lparr>vme_start = 0xFFFF7000, vme_end = 0xFFFFF000, vme_size = 0x8000, vme_flags = 0x2C,
     vme_file = 0, vme_file_offset = 0, vme_paddr = 0\<rparr>"

lemma ex_mmap: "mmap 100 0 0 0x2C [ex_text, ex_data] = Some (0x80002000, [ex_text, ex_new, ex_data])"
  by code_simp

theorem mmap_region_was_free_witness:
  "mmap 100 0 0 0x2C [ex_text, ex_data] = Some (0x80002000, [ex_text, ex_new, ex_data])
   \<and> vmes_ok [ex_text, ex_new, ex_data]"
  using mmap_region_was_free[OF ex_vmes_ok _ disjI1[OF ex_mmap]] ex_mmap by simp

theorem mmap_finds_lowest_gap_witness:
  "\<exists>a vs'. mmap 0x2000 0 0 0x2C [ex_text, ex_data] = Some (a, vs') \<and> unat a \<le> 0x80002000"
proof (rule mmap_finds_lowest_gap[OF ex_vmes_ok])
  have r: "round_up_page 0x2000 = 0x2000" by code_simp
  show "0x80002000 + unat (round_up_page 0x2000) \<le> unat (vmem_range_end 0x2C) + 1"
    "\<forall>v\<in>set [ex_text, ex_data]. 0x80002000 + unat (round_up_page 0x2000) \<le> unat (vme_start v) \<or> unat (vme_end v) \<le> 0x80002000"
    "0x80002000 + unat (round_up_page 0x2000) < 2 ^ 32" "unat (vmem_range_start 0x2C) \<le> 0x80002000"
    unfolding r by (simp_all add: ex_vmes vmem_range_end_def vmem_range_start_def has_flag_def MMAP_USER_def range_consts)
qed simp_all

theorem mmap_at_iff_free_witness:
  "mmap_at 100 0 0 0x2C 0x80001000 [ex_text, ex_data] = None \<and> mmap_at 100 0 0 0x2C 0xFFFFF000 [ex_text, ex_data] = None
   \<and> (\<exists>v vs'. mmap_at 100 0 0 0x2C 0x80002000 [ex_text, ex_data] = Some (Some v, vs') \<and> v \<in> set vs'
       \<and> maps_region 100 0x2C 0x80002000 [ex_text, ex_data] vs')"
proof -
  have "has_flag 0x2C MMAP_USER" by code_simp
  then have r: "half 0x2C = {0x80000000..0xFFFFFFFF}" "page_range 0x80001000 100 = {0x80001000..<0x80002000}"
    "page_range 0x80002000 100 = {0x80002000..<0x80003000}" "0xFFFFFFFF \<in> page_range 0xFFFFF000 100"
    by (simp_all add: half_def page_range_def)
  have "{0x80002000..<0x80003000} \<subseteq> {0x80000000..0xFFFFFFFF :: nat}" by auto
  moreover have "bytes_of ex_text \<inter> {0x80001000..<0x80002000} \<noteq> {}" "\<forall>v \<in> set [ex_text, ex_data]. bytes_of v \<inter> {0x80002000..<0x80003000} = {}"
    by (auto simp: bytes_of_def ex_vmes)
  ultimately show ?thesis
    using mmap_at_iff_free[OF ex_vmes_ok, of 100 "0x80001000" 0 0 "0x2C"] mmap_at_iff_free[OF ex_vmes_ok, of 100 "0x80002000" 0 0 "0x2C"]
      mmap_at_iff_free[OF ex_vmes_ok, of 100 "0xFFFFF000" 0 0 "0x2C"]
    unfolding r by (simp add: r(4))
qed

theorem mmap_stack_highest_gap_witness:
  "mmap_stack 0x8000 0x2C [ex_text, ex_data] = Some (0xFFFF7000, [ex_text, ex_data, ex_stack])
   \<and> maps_region 0x8000 0x2C 0xFFFF7000 [ex_text, ex_data] [ex_text, ex_data, ex_stack]"
proof -
  have m: "mmap_stack 0x8000 0x2C [ex_text, ex_data] = Some (0xFFFF7000, [ex_text, ex_data, ex_stack])"
    by code_simp
  have h: "round_up_page 0x8000 \<noteq> 0" "has_flag 0x2C MMAP_USER" "\<not> has_flag 0x2C MMAP_SHARED" by code_simp+
  show ?thesis using mmap_stack_highest_gap[OF ex_vmes_ok _ h] m by simp
qed

theorem munmap_undoes_mmap_witness:
  "mmap 100 0 0 0x2C [ex_text, ex_data] = Some (0x80002000, [ex_text, ex_new, ex_data])
   \<and> (\<exists>v. munmap_unlink 0x80002000 [ex_text, ex_new, ex_data] = Some (v, [ex_text, ex_data])
        \<and> vme_start v = 0x80002000 \<and> v \<notin> set [ex_text, ex_data])"
proof -
  have "\<not> has_flag 0x2C MMAP_SHARED" by code_simp
  then show ?thesis using munmap_undoes_mmap[OF ex_vmes_ok _ ex_mmap] ex_mmap by auto
qed

theorem user_range_ok_exact_witness:
  "user_range_ok [ex_text, ex_data] 0x80001FFF 1 MMAP_READ \<and> \<not> user_range_ok [ex_text, ex_data] 0x80001FFF 2 MMAP_READ"
proof -
  have "grants MMAP_READ ex_text" by code_simp
  then show ?thesis
    unfolding user_range_ok_exact[OF ex_vmes_ok]
    by (auto simp: bytes_of_def ex_vmes USER_VMEM_START_def intro!: bexI[of _ "0x80002000"])
qed

end
