(* ===== verification/Bytes.thy ===== *)
theory Bytes
  imports Prelude
begin

text \<open>
  Byte buffers: \<open>memcpy\<close> into a part of a buffer, the part of a buffer, and the
  little-endian encoding of 16 and 32 bit fields, for the components that lay out
  structures in disk blocks and files.
\<close>

section \<open>Parts of a buffer\<close>

type_synonym bytes = "u8 list"

definition chunk :: "nat \<Rightarrow> nat \<Rightarrow> 'a list \<Rightarrow> 'a list" where
  "chunk off n bs = take n (drop off bs)"

text \<open>\<open>memcpy(bs + off, xs, |xs|)\<close>.\<close>

definition patch :: "nat \<Rightarrow> 'a list \<Rightarrow> 'a list \<Rightarrow> 'a list" where
  "patch off xs bs = take off bs @ xs @ drop (off + length xs) bs"

named_theorems buffer_simps \<open>reading and writing parts of a buffer\<close>

lemma length_chunk [simp]: "length (chunk off n bs) = min n (length bs - off)"
  by (simp add: chunk_def)

lemma chunk_all [simp]: "chunk 0 (length bs) bs = bs"
  by (simp add: chunk_def)

lemma nth_chunk [simp]: "i < n \<Longrightarrow> off + i < length bs \<Longrightarrow> chunk off n bs ! i = bs ! (off + i)"
  by (simp add: chunk_def)

lemma length_patch [simp]: "off + length xs \<le> length bs \<Longrightarrow> length (patch off xs bs) = length bs"
  by (simp add: patch_def)

lemma nth_patch:
  "off + length xs \<le> length bs \<Longrightarrow> i < length bs \<Longrightarrow>
   patch off xs bs ! i = (if off \<le> i \<and> i < off + length xs then xs ! (i - off) else bs ! i)"
  by (auto simp: patch_def nth_append)

lemma chunk_patch_same [buffer_simps]:
  "off + length xs \<le> length bs \<Longrightarrow> n = length xs \<Longrightarrow> chunk off n (patch off xs bs) = xs"
  by (simp add: chunk_def patch_def)

lemma chunk_patch_other [buffer_simps]:
  assumes "off + length xs \<le> length bs" "o2 + n \<le> off \<or> off + length xs \<le> o2"
  shows "chunk o2 n (patch off xs bs) = chunk o2 n bs"
  by (rule nth_equalityI) (use assms in \<open>auto simp: nth_patch\<close>)

lemma chunk_patch_within:
  assumes "off + length xs \<le> length bs" "o2 \<le> off" "off + length xs \<le> o2 + n" "o2 + n \<le> length bs"
  shows "chunk o2 n (patch off xs bs) = patch (off - o2) xs (chunk o2 n bs)"
  by (rule nth_equalityI) (use assms in \<open>auto simp: nth_patch add.commute\<close>)

lemma patch_whole [simp]: "length xs = length bs \<Longrightarrow> patch 0 xs bs = xs"
  by (simp add: patch_def)

lemma patch_chunk [simp]: "off + n \<le> length bs \<Longrightarrow> patch off (chunk off n bs) bs = bs"
  by (rule nth_equalityI) (auto simp: nth_patch)

lemma patch_nil [simp]: "patch off [] bs = bs"
  by (simp add: patch_def)

lemma chunk_chunk: "o2 + n2 \<le> n \<Longrightarrow> chunk o2 n2 (chunk off n bs) = chunk (off + o2) n2 bs"
  by (rule nth_equalityI) (auto simp: add.assoc)

lemma chunk_append_left: "off + n \<le> length xs \<Longrightarrow> chunk off n (xs @ ys) = chunk off n xs"
  by (simp add: chunk_def)

lemma chunk_append_right: "length xs \<le> off \<Longrightarrow> chunk off n (xs @ ys) = chunk (off - length xs) n ys"
  by (simp add: chunk_def)


section \<open>Little-endian numbers\<close>

primrec le_nat :: "nat \<Rightarrow> nat \<Rightarrow> bytes" where
  "le_nat 0 x = []"
| "le_nat (Suc n) x = of_nat x # le_nat n (x div 256)"

primrec nat_of_le :: "bytes \<Rightarrow> nat" where
  "nat_of_le [] = 0"
| "nat_of_le (b # bs) = unat b + 256 * nat_of_le bs"

lemma length_le_nat [simp]: "length (le_nat n x) = n"
  by (induction n arbitrary: x) auto

lemma unat_of_nat_u8: "unat (of_nat x :: u8) = x mod 256"
  by (simp add: unat_of_nat)

lemma nat_of_le_le_nat: "nat_of_le (le_nat n x) = x mod 256 ^ n"
proof (induction n arbitrary: x)
  case (Suc n)
  then show ?case by (simp add: unat_of_nat_u8 mod_mult2_eq)
qed simp

lemma nat_of_le_less: "nat_of_le bs < 256 ^ length bs"
proof (induction bs)
  case (Cons b bs)
  have "unat b < 256" using unsigned_less[of b] by simp
  then have "unat b + 256 * nat_of_le bs < 256 + 256 * nat_of_le bs" by simp
  also have "\<dots> \<le> 256 * 256 ^ length bs" using Cons by (metis Suc_leI mult_Suc_right mult_le_mono2)
  finally show ?case by simp
qed simp

lemma le_nat_nat_of_le: "n = length bs \<Longrightarrow> le_nat n (nat_of_le bs) = bs"
proof (induction bs arbitrary: n)
  case (Cons b bs)
  have "unat b < 256" using unsigned_less[of b] by simp
  then have "(unat b + 256 * nat_of_le bs) div 256 = nat_of_le bs" "(unat b + 256 * nat_of_le bs) mod 256 = unat b"
    by simp_all
  moreover have "(256 :: u8) * x = 0" for x
  proof -
    have "(256 :: u8) = 0" by (simp add: word_unat_eq_iff)
    then show ?thesis by (simp only: mult_zero_left)
  qed
  ultimately show ?case using Cons by simp
qed simp

definition enc16 :: "u16 \<Rightarrow> bytes" where "enc16 w = le_nat 2 (unat w)"
definition enc32 :: "u32 \<Rightarrow> bytes" where "enc32 w = le_nat 4 (unat w)"
definition dec16 :: "bytes \<Rightarrow> u16" where "dec16 bs = of_nat (nat_of_le bs)"
definition dec32 :: "bytes \<Rightarrow> u32" where "dec32 bs = of_nat (nat_of_le bs)"

lemma length_enc [simp]: "length (enc16 w) = 2" "length (enc32 v) = 4"
  by (simp_all add: enc16_def enc32_def)

lemma dec16_enc16 [simp]: "dec16 (enc16 w) = w"
proof -
  have "unat w < 65536" using unsigned_less[of w, where 'a = nat] by simp
  then show ?thesis by (simp add: dec16_def enc16_def nat_of_le_le_nat)
qed

lemma dec32_enc32 [simp]: "dec32 (enc32 w) = w"
  by (simp add: dec32_def enc32_def nat_of_le_le_nat)

lemma enc16_dec16: "length bs = 2 \<Longrightarrow> enc16 (dec16 bs) = bs"
  using nat_of_le_less[of bs] by (simp add: dec16_def enc16_def unat_of_nat le_nat_nat_of_le)

lemma enc32_dec32: "length bs = 4 \<Longrightarrow> enc32 (dec32 bs) = bs"
  using nat_of_le_less[of bs] by (simp add: dec32_def enc32_def unat_of_nat le_nat_nat_of_le)

lemma enc32_inject [simp]: "enc32 v = enc32 w \<longleftrightarrow> v = w"
  by (metis dec32_enc32)

text \<open>A field of a structure at a byte offset.\<close>

definition get16 :: "nat \<Rightarrow> bytes \<Rightarrow> u16" where "get16 off bs = dec16 (chunk off 2 bs)"
definition get32 :: "nat \<Rightarrow> bytes \<Rightarrow> u32" where "get32 off bs = dec32 (chunk off 4 bs)"
definition put16 :: "nat \<Rightarrow> u16 \<Rightarrow> bytes \<Rightarrow> bytes" where "put16 off w bs = patch off (enc16 w) bs"
definition put32 :: "nat \<Rightarrow> u32 \<Rightarrow> bytes \<Rightarrow> bytes" where "put32 off w bs = patch off (enc32 w) bs"

lemma length_put [simp]:
  "off + 2 \<le> length bs \<Longrightarrow> length (put16 off v bs) = length bs"
  "off + 4 \<le> length bs \<Longrightarrow> length (put32 off w bs) = length bs"
  by (simp_all add: put16_def put32_def)

lemma get_put_same [simp, buffer_simps]:
  "off + 2 \<le> length bs \<Longrightarrow> get16 off (put16 off v bs) = v"
  "off + 4 \<le> length bs \<Longrightarrow> get32 off (put32 off w bs) = w"
  by (simp_all add: get16_def put16_def get32_def put32_def chunk_patch_same)

lemma get_put_other [buffer_simps]:
  "off + 2 \<le> length bs \<Longrightarrow> o2 + 2 \<le> off \<or> off + 2 \<le> o2 \<Longrightarrow> get16 o2 (put16 off v bs) = get16 o2 bs"
  "off + 2 \<le> length bs \<Longrightarrow> o2 + 4 \<le> off \<or> off + 2 \<le> o2 \<Longrightarrow> get32 o2 (put16 off v bs) = get32 o2 bs"
  "off + 4 \<le> length bs \<Longrightarrow> o2 + 2 \<le> off \<or> off + 4 \<le> o2 \<Longrightarrow> get16 o2 (put32 off w bs) = get16 o2 bs"
  "off + 4 \<le> length bs \<Longrightarrow> o2 + 4 \<le> off \<or> off + 4 \<le> o2 \<Longrightarrow> get32 o2 (put32 off w bs) = get32 o2 bs"
  by (simp_all add: get16_def put16_def get32_def put32_def chunk_patch_other)


section \<open>Arrays of words\<close>

text \<open>A block of pointers as the array of its words.\<close>

definition words_of :: "bytes \<Rightarrow> u32 list" where
  "words_of bs = map (\<lambda>i. get32 (4 * i) bs) [0..<length bs div 4]"

definition bytes_of_words :: "u32 list \<Rightarrow> bytes" where
  "bytes_of_words ws = concat (map enc32 ws)"

lemma length_words_of [simp]: "length (words_of bs) = length bs div 4"
  by (simp add: words_of_def)

lemma length_bytes_of_words [simp]: "length (bytes_of_words ws) = 4 * length ws"
  by (induction ws) (auto simp: bytes_of_words_def)

lemma chunk_bytes_of_words: "i < length ws \<Longrightarrow> chunk (4 * i) 4 (bytes_of_words ws) = enc32 (ws ! i)"
proof (induction ws arbitrary: i)
  case (Cons w ws)
  then show ?case
    by (cases i) (auto simp: bytes_of_words_def chunk_def)
qed simp

lemma words_of_bytes_of_words [simp]: "words_of (bytes_of_words ws) = ws"
  by (rule nth_equalityI) (auto simp: words_of_def get32_def chunk_bytes_of_words)

lemma bytes_of_words_of:
  assumes "4 dvd length bs"
  shows "bytes_of_words (words_of bs) = bs"
proof (rule nth_equalityI)
  show len: "length (bytes_of_words (words_of bs)) = length bs" using assms by simp
  fix k assume "k < length (bytes_of_words (words_of bs))"
  then have k: "k < length bs" using len by simp
  let ?i = "k div 4"
  have i: "?i < length bs div 4" using k assms by auto
  have sl: "chunk (4 * ?i) 4 (bytes_of_words (words_of bs)) = chunk (4 * ?i) 4 bs"
    using i assms by (subst chunk_bytes_of_words) (auto simp: words_of_def get32_def enc32_dec32)
  have e: "4 * ?i + k mod 4 = k" "k mod 4 < 4" by simp_all
  have "chunk (4 * ?i) 4 (bytes_of_words (words_of bs)) ! (k mod 4) = bytes_of_words (words_of bs) ! k"
    "chunk (4 * ?i) 4 bs ! (k mod 4) = bs ! k"
    using e k len by (metis nth_chunk)+
  then show "bytes_of_words (words_of bs) ! k = bs ! k" using sl by simp
qed

lemma nat_of_le_zero [simp]: "nat_of_le (replicate k 0) = 0"
  by (induction k) auto

lemma words_of_zero [simp]: "4 dvd n \<Longrightarrow> words_of (replicate n 0) = replicate (n div 4) 0"
proof (rule nth_equalityI)
  fix i assume "4 dvd n" "i < length (words_of (replicate n 0))"
  then have "chunk (4 * i) 4 (replicate n (0 :: u8)) = replicate 4 0" by (auto simp: chunk_def)
  then show "words_of (replicate n 0) ! i = replicate (n div 4) 0 ! i"
    using \<open>i < _\<close> by (simp add: words_of_def get32_def dec32_def)
qed simp

end
