(* ===== verification/Ext2_Bcache.thy ===== *)
theory Ext2_Bcache
  imports Bytes
begin

text \<open>
  The block cache of \<open>kernel/ext.c\<close>: 32 slots of ext2 blocks with pseudo-LRU ages in
  front of the SD drive, written through.  The drive is seen through the contract of
  \<open>sd_read_blocks\<close> and \<open>sd_write_blocks\<close>: sectors of 512 bytes, a return code per command.
  Leaving the bounds of a buffer is \<open>None\<close>, like a failed assert.  \<open>bcache_get\<close> drops its
  lock around the read, so it is modelled in its two locked sections.
\<close>

section \<open>The drive\<close>

record sd_drive =
  sd_sector :: "u32 \<Rightarrow> bytes"
  sd_rc :: "u32 \<Rightarrow> u32"

definition sd_read_blocks :: "sd_drive \<Rightarrow> u32 \<Rightarrow> u32 \<Rightarrow> u32 \<times> bytes" where
  "sd_read_blocks d start n =
     (sd_rc d start, concat (map (\<lambda>k. sd_sector d (start + of_nat k)) [0..<unat n]))"

definition sd_write_blocks :: "sd_drive \<Rightarrow> u32 \<Rightarrow> u32 \<Rightarrow> bytes \<Rightarrow> u32 \<times> sd_drive" where
  "sd_write_blocks d start n src =
     (sd_rc d start, d\<lparr>sd_sector := (\<lambda>s. if s - start < n then chunk (512 * unat (s - start)) 512 src
                                       else sd_sector d s)\<rparr>)"

definition SD_SECTOR_SIZE_BYTES :: u32 where "SD_SECTOR_SIZE_BYTES = 512"

definition BCACHE_SIZE :: nat where "BCACHE_SIZE = 32"


section \<open>The cache\<close>

record block_cache =
  bc_tags :: "u32 list"
  bc_ages :: "u8 list"
  bc_slots :: "bytes list"
  bc_lock :: bool
  bc_block_size :: u32

definition bcache_lock_acquire :: "block_cache \<Rightarrow> block_cache option" where
  "bcache_lock_acquire c = do { kassert (\<not> bc_lock c); Some (c\<lparr>bc_lock := True\<rparr>) }"

definition bcache_lock_release :: "block_cache \<Rightarrow> block_cache" where
  "bcache_lock_release c = c\<lparr>bc_lock := False\<rparr>"

text \<open>The slots come from \<open>malloc\<close>, so their contents are whatever the heap had.\<close>

definition bcache_init :: "u32 \<Rightarrow> bytes list \<Rightarrow> block_cache" where
  "bcache_init block_size heap_bytes =
     \<lparr>bc_tags = replicate BCACHE_SIZE (- 1), bc_ages = map of_nat [0..<BCACHE_SIZE],
      bc_slots = heap_bytes, bc_lock = False, bc_block_size = block_size\<rparr>"

text \<open>The search loop runs to the end, so the last match wins.\<close>

definition bcache_find :: "u32 \<Rightarrow> block_cache \<Rightarrow> nat option" where
  "bcache_find block_num c =
     fold (\<lambda>i r. if block_num = bc_tags c ! i then Some i else r) [0..<BCACHE_SIZE] None"

definition bcache_touch :: "nat \<Rightarrow> block_cache \<Rightarrow> block_cache" where
  "bcache_touch result c =
     c\<lparr>bc_ages := (map (\<lambda>a. if a < bc_ages c ! result then a + 1 else a) (bc_ages c))[result := 0]\<rparr>"

text \<open>Ages every slot; the victim is the slot whose age reaches the size of the cache.\<close>

definition bcache_oldest :: "u8 list \<Rightarrow> nat" where
  "bcache_oldest ages = fold (\<lambda>i r. if ages ! i + 1 = of_nat BCACHE_SIZE then i else r) [0..<BCACHE_SIZE] 0"

definition bcache_evict :: "u32 \<Rightarrow> block_cache \<Rightarrow> nat \<times> block_cache" where
  "bcache_evict block_num c =
     (let result = bcache_oldest (bc_ages c) in
      (result, c\<lparr>bc_ages := (map (\<lambda>a. a + 1) (bc_ages c))[result := 0],
                 bc_tags := (bc_tags c)[result := block_num]\<rparr>))"

text \<open>\<open>memcpy\<close> of \<open>n\<close> bytes into a slot at an offset.\<close>

definition bcache_store :: "nat \<Rightarrow> nat \<Rightarrow> bytes \<Rightarrow> nat \<Rightarrow> block_cache \<Rightarrow> block_cache option" where
  "bcache_store result off src n c = do {
     kassert (n \<le> length src \<and> off + n \<le> length (bc_slots c ! result));
     Some (c\<lparr>bc_slots := (bc_slots c)[result := patch off (take n src) (bc_slots c ! result)]\<rparr>)
   }"

definition block_sector :: "u32 \<Rightarrow> u32 \<Rightarrow> u32" where
  "block_sector block_size block_num = block_num * block_size div SD_SECTOR_SIZE_BYTES"

text \<open>The first locked section of \<open>bcache_get\<close>: the block on a hit, nothing on a miss.\<close>

definition bcache_get_begin :: "u32 \<Rightarrow> block_cache \<Rightarrow> (bytes option \<times> block_cache) option" where
  "bcache_get_begin block_num c = do {
     c \<leftarrow> bcache_lock_acquire c;
     case bcache_find block_num c of
       Some result \<Rightarrow>
         (let c = bcache_touch result c in
          Some (Some (take (unat (bc_block_size c)) (bc_slots c ! result)), bcache_lock_release c))
     | None \<Rightarrow> Some (None, bcache_lock_release c)
   }"

text \<open>The second one installs what the drive returned.\<close>

definition bcache_get_finish :: "u32 \<Rightarrow> bytes \<Rightarrow> block_cache \<Rightarrow> block_cache option" where
  "bcache_get_finish block_num dest c = do {
     c \<leftarrow> bcache_lock_acquire c;
     let (result, c) = bcache_evict block_num c;
     c \<leftarrow> bcache_store result 0 dest (unat (bc_block_size c)) c;
     Some (bcache_lock_release c)
   }"

definition bcache_get :: "u32 \<Rightarrow> block_cache \<Rightarrow> sd_drive \<Rightarrow> (bytes \<times> block_cache) option" where
  "bcache_get block_num c d = do {
     (hit, c) \<leftarrow> bcache_get_begin block_num c;
     case hit of
       Some data \<Rightarrow> Some (data, c)
     | None \<Rightarrow> do {
         let (rc, dest) = sd_read_blocks d (block_sector (bc_block_size c) block_num)
                            (bc_block_size c div SD_SECTOR_SIZE_BYTES);
         kassert (rc = 0);
         c \<leftarrow> bcache_get_finish block_num dest c;
         Some (dest, c)
       }
   }"

definition bcache_write_size :: "u32 \<Rightarrow> u32 \<Rightarrow> u32 \<Rightarrow> u32" where
  "bcache_write_size block_size offset sz =
     (if sz \<ge> block_size - offset then block_size - offset else sz)"

definition bcache_set :: "u32 \<Rightarrow> bytes \<Rightarrow> u32 \<Rightarrow> u32 \<Rightarrow> block_cache \<Rightarrow> sd_drive
    \<Rightarrow> (block_cache \<times> sd_drive) option" where
  "bcache_set block_num src offset sz c d = do {
     c \<leftarrow> bcache_lock_acquire c;
     let found = bcache_find block_num c;
     let write_size = bcache_write_size (bc_block_size c) offset sz;
     let sector = block_sector (bc_block_size c) block_num;
     let sectors = bc_block_size c div SD_SECTOR_SIZE_BYTES;
     if found \<noteq> None \<or> (sz \<ge> bc_block_size c \<and> offset = 0) then do {
       let (result, c) = (case found of
            Some r \<Rightarrow> (r, (bcache_touch r c)\<lparr>bc_tags := (bc_tags c)[r := block_num]\<rparr>)
          | None \<Rightarrow> bcache_evict block_num c);
       c \<leftarrow> bcache_store result (unat offset) src (unat write_size) c;
       let block_buf = take (unat (bc_block_size c)) (bc_slots c ! result);
       let (rc, d) = sd_write_blocks d sector sectors block_buf;
       kassert (rc = 0);
       Some (bcache_lock_release c, d)
     } else do {
       let (rc, block_buf) = sd_read_blocks d sector sectors;
       kassert (rc = 0);
       let (result, c) = bcache_evict block_num c;
       c \<leftarrow> bcache_store result 0 block_buf (unat (bc_block_size c)) c;
       c \<leftarrow> bcache_store result (unat offset) src (unat write_size) c;
       kassert (unat write_size \<le> length src \<and> unat offset + unat write_size \<le> length block_buf);
       let block_buf = patch (unat offset) (take (unat write_size) src) block_buf;
       let (rc, d) = sd_write_blocks d sector sectors block_buf;
       kassert (rc = 0);
       Some (bcache_lock_release c, d)
     }
   }"


section \<open>Blocks on the drive\<close>

definition drive_ok :: "sd_drive \<Rightarrow> bool" where
  "drive_ok d \<longleftrightarrow> (\<forall>s. length (sd_sector d s) = 512 \<and> sd_rc d s = 0)"

definition drive_block :: "u32 \<Rightarrow> sd_drive \<Rightarrow> u32 \<Rightarrow> bytes" where
  "drive_block bs d b = snd (sd_read_blocks d (block_sector bs b) (bs div SD_SECTOR_SIZE_BYTES))"

definition block_size_ok :: "u32 \<Rightarrow> bool" where
  "block_size_ok bs \<longleftrightarrow> bs \<noteq> 0 \<and> 512 dvd unat bs"

text \<open>A block whose last byte has a 32-bit offset on the drive.\<close>

definition block_valid :: "u32 \<Rightarrow> u32 \<Rightarrow> bool" where
  "block_valid bs b \<longleftrightarrow> unat b * unat bs + unat bs \<le> 4294967296"

lemma block_valid_not_empty_tag: "block_size_ok bs \<Longrightarrow> block_valid bs b \<Longrightarrow> b \<noteq> - 1"
proof
  assume "block_size_ok bs" "block_valid bs b" "b = - 1"
  then have b: "unat b = 4294967295" and "0 < unat bs" "512 dvd unat bs" "unat b * unat bs + unat bs \<le> 4294967296"
    by (auto simp: block_size_ok_def block_valid_def unat_gt_0)
  then show False by (auto elim!: dvdE)
qed

lemma unat_block_sectors: "unat (bs div SD_SECTOR_SIZE_BYTES) = unat bs div 512"
  by (simp add: SD_SECTOR_SIZE_BYTES_def unat_div)

lemma unat_block_sector:
  assumes "block_size_ok bs" "block_valid bs b"
  shows "unat (block_sector bs b) = unat b * (unat bs div 512)"
proof -
  have "0 < unat bs" using assms(1) by (simp add: block_size_ok_def unat_gt_0)
  then have "unat b * unat bs < 4294967296" using assms(2) by (simp add: block_valid_def)
  then have "unat (b * bs) = unat b * unat bs" by (simp add: unat_mult_lem[THEN iffD1])
  moreover have "512 dvd unat bs" using assms(1) by (simp add: block_size_ok_def)
  ultimately show ?thesis
    by (simp add: block_sector_def SD_SECTOR_SIZE_BYTES_def unat_div div_mult_swap)
qed

text \<open>Cutting a block into sectors and putting it together again.\<close>

lemma concat_chunks: "length src = m * n \<Longrightarrow> concat (map (\<lambda>k. chunk (m * k) m src) [0..<n]) = src"
proof (induction n arbitrary: src)
  case (Suc n)
  let ?f = "take (m * n) src"
  have "concat (map (\<lambda>k. chunk (m * k) m src) [0..<n]) = concat (map (\<lambda>k. chunk (m * k) m ?f) [0..<n])"
  proof (rule arg_cong[where f = concat], rule map_cong)
    fix k assume "k \<in> set [0..<n]"
    then have "m * k + m \<le> m * n" by (metis atLeastLessThan_iff mult_Suc_right Suc_leI mult_le_mono2 add.commute set_upt)
    then show "chunk (m * k) m src = chunk (m * k) m ?f" by (simp add: chunk_def drop_take min_absorb2)
  qed simp
  also have "concat (map (\<lambda>k. chunk (m * k) m ?f) [0..<n]) = ?f" using Suc by (intro Suc.IH) simp
  finally have "concat (map (\<lambda>k. chunk (m * k) m src) [0..<n]) = ?f" .
  moreover have "chunk (m * n) m src = drop (m * n) src" using Suc.prems by (simp add: chunk_def)
  ultimately show ?case by simp
qed simp

lemma length_concat_const: "(\<And>k. k < n \<Longrightarrow> length (f k) = m) \<Longrightarrow> length (concat (map f [0..<n])) = m * n"
  by (induction n) auto

lemma block_size_split: "block_size_ok bs \<Longrightarrow> unat bs = 512 * (unat bs div 512)"
  by (simp add: block_size_ok_def)

lemma length_drive_block [simp]:
  assumes "drive_ok d" "block_size_ok bs"
  shows "length (drive_block bs d b) = unat bs"
proof -
  have "length (drive_block bs d b) = 512 * (unat bs div 512)"
    using assms(1) unfolding drive_block_def sd_read_blocks_def snd_conv unat_block_sectors drive_ok_def
    by (intro length_concat_const) simp
  then show ?thesis using block_size_split[OF assms(2)] by simp
qed

lemma sd_read_block [simp]:
  "drive_ok d \<Longrightarrow> sd_read_blocks d (block_sector bs b) (bs div SD_SECTOR_SIZE_BYTES) = (0, drive_block bs d b)"
  by (simp add: drive_block_def sd_read_blocks_def drive_ok_def)

text \<open>The drive with one block replaced.\<close>

definition write_block :: "u32 \<Rightarrow> u32 \<Rightarrow> bytes \<Rightarrow> sd_drive \<Rightarrow> sd_drive" where
  "write_block bs b src d = snd (sd_write_blocks d (block_sector bs b) (bs div SD_SECTOR_SIZE_BYTES) src)"

lemma sd_write_block [simp]:
  "drive_ok d \<Longrightarrow> sd_write_blocks d (block_sector bs b) (bs div SD_SECTOR_SIZE_BYTES) src = (0, write_block bs b src d)"
  by (simp add: write_block_def sd_write_blocks_def drive_ok_def)

lemma drive_ok_write [simp]:
  assumes "drive_ok d" "block_size_ok bs" "length src = unat bs"
  shows "drive_ok (write_block bs b src d)"
proof -
  have fit: "512 * k + 512 \<le> length src" if "k < unat bs div 512" for k
  proof -
    have "512 * (k + 1) \<le> 512 * (unat bs div 512)" using that by (intro mult_le_mono) auto
    then show ?thesis using assms(2,3) by (simp add: block_size_ok_def)
  qed
  have "length (chunk (512 * unat (s - t)) 512 src) = 512" if "s - t < bs div SD_SECTOR_SIZE_BYTES" for s t
    using fit[of "unat (s - t)"] that by (simp add: word_less_nat_alt unat_block_sectors)
  then show ?thesis using assms(1)
    by (auto simp: drive_ok_def write_block_def sd_write_blocks_def simp del: length_chunk)
qed

lemma sector_offset:
  assumes "block_size_ok bs" "block_valid bs b" "block_valid bs b'" "k < unat bs div 512"
  shows "block_sector bs b' + of_nat k - block_sector bs b < bs div SD_SECTOR_SIZE_BYTES \<longleftrightarrow> b' = b"
    and "b' = b \<Longrightarrow> unat (block_sector bs b' + of_nat k - block_sector bs b) = k"
proof -
  let ?n = "unat bs div 512"
  have n: "unat bs = 512 * ?n" by (rule block_size_split[OF assms(1)])
  have lt: "unat c * ?n + ?n \<le> 8388608" if "block_valid bs c" for c
  proof -
    have "unat c * (512 * ?n) + 512 * ?n \<le> 4294967296" using that n by (simp add: block_valid_def)
    then have "512 * (unat c * ?n + ?n) \<le> 512 * 8388608" by (simp add: algebra_simps)
    then show ?thesis by simp
  qed
  note b = unat_block_sector[OF assms(1,2)] lt[OF assms(2)] and b' = unat_block_sector[OF assms(1,3)] lt[OF assms(3)]
  have k: "unat (of_nat k :: u32) = k" using assms(4) b(2) by (intro unat_of_nat_u32) simp
  have s: "unat (block_sector bs b' + of_nat k) = unat b' * ?n + k"
    using unat_add_u32[of "block_sector bs b'" "of_nat k"] b' k assms(4) by simp
  show "b' = b \<Longrightarrow> unat (block_sector bs b' + of_nat k - block_sector bs b) = k"
    using k by simp
  show "block_sector bs b' + of_nat k - block_sector bs b < bs div SD_SECTOR_SIZE_BYTES \<longleftrightarrow> b' = b"
  proof (cases "unat b" "unat b'" rule: linorder_cases)
    case less
    then have "(unat b + 1) * ?n \<le> unat b' * ?n" by (intro mult_le_mono) auto
    then show ?thesis using s b(1) less assms(4) by (auto simp: word_less_nat_alt unat_block_sectors unat_diff_u32)
  next
    case equal
    then have "b' = b" by (simp add: word_unat_eq_iff)
    then show ?thesis using k assms(4) by (simp add: word_less_nat_alt unat_block_sectors)
  next
    case greater
    then have "(unat b' + 1) * ?n \<le> unat b * ?n" by (intro mult_le_mono) auto
    then show ?thesis using s b greater assms(4) by (auto simp: word_less_nat_alt unat_block_sectors unat_diff_u32)
  qed
qed

lemma drive_block_write:
  assumes "block_size_ok bs" "block_valid bs b" "block_valid bs b'" "length src = unat bs"
  shows "drive_block bs (write_block bs b src d) b' = (if b' = b then src else drive_block bs d b')"
proof -
  let ?n = "unat bs div 512"
  have "sd_sector (write_block bs b src d) (block_sector bs b' + of_nat k) =
      (if b' = b then chunk (512 * k) 512 src else sd_sector d (block_sector bs b' + of_nat k))" if "k < ?n" for k
    using sector_offset[OF assms(1-3) that] by (simp add: write_block_def sd_write_blocks_def)
  then have "drive_block bs (write_block bs b src d) b' = concat (map (\<lambda>k. if b' = b then chunk (512 * k) 512 src
      else sd_sector d (block_sector bs b' + of_nat k)) [0..<?n])"
    by (auto simp: drive_block_def sd_read_blocks_def unat_block_sectors intro!: arg_cong[where f = concat] map_cong)
  moreover have "concat (map (\<lambda>k. chunk (512 * k) 512 src) [0..<?n]) = src"
    by (rule concat_chunks) (use assms(1,4) block_size_split in simp)
  ultimately show ?thesis by (auto simp: drive_block_def sd_read_blocks_def unat_block_sectors)
qed


section \<open>Ages\<close>

definition ages_ok :: "u8 list \<Rightarrow> bool" where
  "ages_ok ages \<longleftrightarrow> length ages = BCACHE_SIZE \<and> distinct ages \<and> (\<forall>a \<in> set ages. unat a < BCACHE_SIZE)"

lemma unat_u8_less: "unat (a :: u8) < 256"
  using unsigned_less[of a, where 'a = nat] by simp

lemma unat_u8_plus_one: "unat (a :: u8) < 255 \<Longrightarrow> unat (a + 1) = unat a + 1"
  by (rule unat_plus_one) (auto simp: unsigned_minus_1_eq_mask mask_eq_exp_minus_1)

lemma ages_touch:
  assumes "ages_ok ages" "r < BCACHE_SIZE"
  shows "ages_ok ((map (\<lambda>a. if a < ages ! r then a + 1 else a) ages)[r := 0])"
proof -
  let ?f = "\<lambda>a. if a < ages ! r then a + 1 else a" and ?l = "length ages"
  have len: "?l = BCACHE_SIZE" and inj: "distinct ages" and lt: "\<And>i. i < ?l \<Longrightarrow> unat (ages ! i) < 32"
    using assms(1) by (auto simp: ages_ok_def BCACHE_SIZE_def)
  have r: "r < ?l" using assms(2) len by simp
  have f: "unat (?f (ages ! i)) = (if unat (ages ! i) < unat (ages ! r) then unat (ages ! i) + 1 else unat (ages ! i))"
    if "i < ?l" for i
    using lt[OF that] by (simp add: word_less_nat_alt unat_u8_plus_one)
  have ne: "unat (ages ! i) \<noteq> unat (ages ! j)" if "i < ?l" "j < ?l" "i \<noteq> j" for i j
    using inj that by (auto simp: distinct_conv_nth unat_eq_iff)
  have g: "unat ((map ?f ages)[r := 0] ! i) = (if i = r then 0 else unat (?f (ages ! i)))" if "i < ?l" for i
    using that r by (cases "i = r") simp_all
  have "distinct ((map ?f ages)[r := 0])" unfolding distinct_conv_nth
  proof (intro allI impI)
    fix i j assume ij: "i < length ((map ?f ages)[r := 0])" "j < length ((map ?f ages)[r := 0])" "i \<noteq> j"
    have pos: "unat (?f (ages ! i)) \<noteq> 0" if "i < ?l" "i \<noteq> r" for i using f[OF that(1)] ne[OF that(1) r that(2)] by auto
    have "unat (?f (ages ! i)) \<noteq> unat (?f (ages ! j))" if "i \<noteq> r" "j \<noteq> r"
      using f ne[of i j] ne[of i r] ne[of j r] ij r that by auto
    then show "(map ?f ages)[r := 0] ! i \<noteq> (map ?f ages)[r := 0] ! j"
      unfolding unat_eq_iff[symmetric] using pos[of i] pos[of j] ij g[of i] g[of j] by (auto split: if_splits)
  qed
  moreover have "unat ((map ?f ages)[r := 0] ! i) < 32" if "i < ?l" for i
    using f[OF that] lt[OF that] lt[OF r] g[OF that] by auto
  ultimately show ?thesis using len by (auto simp: ages_ok_def BCACHE_SIZE_def in_set_conv_nth)
qed

lemma ages_onto:
  assumes "ages_ok ages" "k < BCACHE_SIZE"
  shows "\<exists>i < BCACHE_SIZE. unat (ages ! i) = k"
proof -
  have "card (unat ` set ages) = BCACHE_SIZE"
    using assms(1) by (auto simp: ages_ok_def card_image inj_on_def distinct_card unat_eq_iff)
  moreover have "unat ` set ages \<subseteq> {..<BCACHE_SIZE}" using assms(1) by (auto simp: ages_ok_def)
  ultimately have "unat ` set ages = {..<BCACHE_SIZE}" by (intro card_subset_eq) auto
  then have "k \<in> unat ` set ages" using assms(2) by simp
  then show ?thesis using assms(1) by (auto simp: in_set_conv_nth ages_ok_def)
qed

text \<open>The last index that satisfies a test, as the loops find it.\<close>

lemma fold_last:
  "fold (\<lambda>i r. if P i then f i else r) [0..<n] z = (if \<exists>i < n. P i then f (GREATEST i. i < n \<and> P i) else z)"
proof (induction n)
  case (Suc n)
  show ?case
  proof (cases "P n")
    case True
    then have "(GREATEST i. i < Suc n \<and> P i) = n" by (intro Greatest_equality) auto
    then show ?thesis using True by auto
  next
    case False
    then have "(\<lambda>i. i < Suc n \<and> P i) = (\<lambda>i. i < n \<and> P i)" by (auto simp: less_Suc_eq)
    then show ?thesis using False Suc by (auto simp: less_Suc_eq)
  qed
qed simp

lemma fold_unique:
  assumes "i < n" "P i" "\<And>j. j < n \<Longrightarrow> P j \<Longrightarrow> j = i"
  shows "fold (\<lambda>i r. if P i then f i else r) [0..<n] z = f i"
proof -
  have "(GREATEST i. i < n \<and> P i) = i"
  proof (rule Greatest_equality)
    fix y assume "y < n \<and> P y"
    then show "y \<le> i" using assms(3)[of y] by simp
  qed (use assms(1,2) in simp)
  then show ?thesis unfolding fold_last using assms(1,2) by auto
qed

lemma oldest_spec:
  assumes "ages_ok ages" "i < BCACHE_SIZE" "unat (ages ! i) = 31"
  shows "bcache_oldest ages = i"
  unfolding bcache_oldest_def
proof (rule fold_unique[OF assms(2)])
  have eq: "ages ! j + 1 = of_nat BCACHE_SIZE \<longleftrightarrow> unat (ages ! j) = 31" if "j < BCACHE_SIZE" for j
  proof -
    have "unat (ages ! j) < 32" using assms(1) that by (auto simp: ages_ok_def BCACHE_SIZE_def)
    then show ?thesis by (simp add: word_unat_eq_iff unat_u8_plus_one BCACHE_SIZE_def)
  qed
  show "ages ! i + 1 = of_nat BCACHE_SIZE" using eq[OF assms(2)] assms(3) by simp
  show "j = i" if "j < BCACHE_SIZE" "ages ! j + 1 = of_nat BCACHE_SIZE" for j
  proof -
    have "ages ! j = ages ! i" using that eq[OF that(1)] assms(3) unat_eq_iff by metis
    then show ?thesis using assms(1,2) that(1) by (simp add: ages_ok_def nth_eq_iff_index_eq)
  qed
qed

lemma ages_evict:
  assumes "ages_ok ages"
  shows "bcache_oldest ages < BCACHE_SIZE" "unat (ages ! bcache_oldest ages) = 31"
    "ages_ok ((map (\<lambda>a. a + 1) ages)[bcache_oldest ages := 0])"
proof -
  obtain i where i: "i < BCACHE_SIZE" "unat (ages ! i) = 31"
    using ages_onto[OF assms, of 31] by (auto simp: BCACHE_SIZE_def)
  have o: "bcache_oldest ages = i" by (rule oldest_spec[OF assms i])
  show "bcache_oldest ages < BCACHE_SIZE" "unat (ages ! bcache_oldest ages) = 31" using o i by auto
  have l: "length ages = BCACHE_SIZE" "\<And>j. j < length ages \<Longrightarrow> unat (ages ! j) < 32"
    using assms by (auto simp: ages_ok_def BCACHE_SIZE_def)
  have ne: "unat (ages ! j) \<noteq> unat (ages ! k)" if "j < BCACHE_SIZE" "k < BCACHE_SIZE" "j \<noteq> k" for j k
    using assms that unfolding unat_eq_iff by (simp add: ages_ok_def nth_eq_iff_index_eq)
  have lt: "unat (ages ! j) < 31" if "j < BCACHE_SIZE" "j \<noteq> i" for j
  proof -
    have "unat (ages ! j) \<noteq> unat (ages ! i)" by (rule ne[OF that(1) i(1) that(2)])
    then show ?thesis using l that i by fastforce
  qed
  have up: "unat (ages ! j + 1) = unat (ages ! j) + 1" if "j < BCACHE_SIZE" for j
    using l(1) l(2)[of j] that by (intro unat_u8_plus_one) simp
  have g: "unat ((map (\<lambda>a. a + 1) ages)[i := 0] ! j) = (if j = i then 0 else unat (ages ! j) + 1)" if "j < BCACHE_SIZE" for j
    using that i l up by (cases "j = i") simp_all
  have "distinct ((map (\<lambda>a. a + 1) ages)[i := 0])" unfolding distinct_conv_nth
  proof (intro allI impI)
    fix j k assume jk: "j < length ((map (\<lambda>a. a + 1) ages)[i := 0])" "k < length ((map (\<lambda>a. a + 1) ages)[i := 0])" "j \<noteq> k"
    then have "unat (ages ! j) \<noteq> unat (ages ! k)" using ne l by simp
    then show "(map (\<lambda>a. a + 1) ages)[i := 0] ! j \<noteq> (map (\<lambda>a. a + 1) ages)[i := 0] ! k"
      unfolding unat_eq_iff[symmetric] using g[of j] g[of k] jk l by auto
  qed
  moreover have "unat ((map (\<lambda>a. a + 1) ages)[i := 0] ! j) < BCACHE_SIZE" if "j < BCACHE_SIZE" for j
    using g[OF that] lt[OF that] by (simp add: BCACHE_SIZE_def)
  ultimately show "ages_ok ((map (\<lambda>a. a + 1) ages)[bcache_oldest ages := 0])"
    using l by (auto simp: o ages_ok_def in_set_conv_nth)
qed


section \<open>Coherence\<close>

text \<open>Every slot that has a tag holds what the drive holds, and no block has two slots.\<close>

definition bcache_inv :: "block_cache \<Rightarrow> sd_drive \<Rightarrow> bool" where
  "bcache_inv c d \<longleftrightarrow> drive_ok d \<and> block_size_ok (bc_block_size c) \<and> \<not> bc_lock c
     \<and> length (bc_tags c) = BCACHE_SIZE \<and> length (bc_slots c) = BCACHE_SIZE \<and> ages_ok (bc_ages c)
     \<and> (\<forall>i < BCACHE_SIZE. length (bc_slots c ! i) = unat (bc_block_size c))
     \<and> (\<forall>i < BCACHE_SIZE. bc_tags c ! i \<noteq> - 1 \<longrightarrow> block_valid (bc_block_size c) (bc_tags c ! i)
          \<and> bc_slots c ! i = drive_block (bc_block_size c) d (bc_tags c ! i))
     \<and> (\<forall>i < BCACHE_SIZE. \<forall>j < BCACHE_SIZE. bc_tags c ! i = bc_tags c ! j \<longrightarrow> bc_tags c ! i \<noteq> - 1 \<longrightarrow> i = j)"

lemma bcache_invD:
  assumes "bcache_inv c d"
  shows "drive_ok d" "block_size_ok (bc_block_size c)" "\<not> bc_lock c"
    "length (bc_tags c) = BCACHE_SIZE" "length (bc_slots c) = BCACHE_SIZE" "ages_ok (bc_ages c)"
    "\<And>i. i < BCACHE_SIZE \<Longrightarrow> length (bc_slots c ! i) = unat (bc_block_size c)"
    "\<And>i. i < BCACHE_SIZE \<Longrightarrow> bc_tags c ! i \<noteq> - 1 \<Longrightarrow> block_valid (bc_block_size c) (bc_tags c ! i)"
    "\<And>i. i < BCACHE_SIZE \<Longrightarrow> bc_tags c ! i \<noteq> - 1 \<Longrightarrow> bc_slots c ! i = drive_block (bc_block_size c) d (bc_tags c ! i)"
    "\<And>i j. i < BCACHE_SIZE \<Longrightarrow> j < BCACHE_SIZE \<Longrightarrow> bc_tags c ! i = bc_tags c ! j \<Longrightarrow> bc_tags c ! i \<noteq> - 1 \<Longrightarrow> i = j"
  using assms unfolding bcache_inv_def by blast+

lemma bcache_find_Some:
  assumes "bcache_inv c d" "bcache_find b c = Some r"
  shows "r < BCACHE_SIZE" "bc_tags c ! r = b"
proof -
  have "\<exists>i < BCACHE_SIZE. b = bc_tags c ! i" "r = (GREATEST i. i < BCACHE_SIZE \<and> b = bc_tags c ! i)"
    using assms(2) unfolding bcache_find_def fold_last by (auto split: if_splits)
  then show "r < BCACHE_SIZE" "bc_tags c ! r = b"
    using GreatestI_ex_nat[of "\<lambda>i. i < BCACHE_SIZE \<and> b = bc_tags c ! i" BCACHE_SIZE] by auto
qed

lemma bcache_find_None: "bcache_find b c = None \<Longrightarrow> i < BCACHE_SIZE \<Longrightarrow> bc_tags c ! i \<noteq> b"
  unfolding bcache_find_def fold_last by (auto split: if_splits)

text \<open>Giving slot \<open>r\<close> to block \<open>b\<close> with new contents, while the drive's block \<open>b\<close> gets the same.\<close>

lemma bcache_inv_slot:
  assumes inv: "bcache_inv c d" and r: "r < BCACHE_SIZE" and b: "block_valid (bc_block_size c) b"
    and free: "\<And>i. i < BCACHE_SIZE \<Longrightarrow> i \<noteq> r \<Longrightarrow> bc_tags c ! i \<noteq> b"
    and x: "length x = unat (bc_block_size c)" and ages: "ages_ok ages"
    and d': "d' = d \<and> x = drive_block (bc_block_size c) d b \<or> d' = write_block (bc_block_size c) b x d"
  shows "bcache_inv (c\<lparr>bc_tags := (bc_tags c)[r := b], bc_ages := ages, bc_slots := (bc_slots c)[r := x]\<rparr>) d'"
proof -
  note I = bcache_invD[OF inv]
  have d: "drive_ok d'" using d' I(1,2) x by auto
  have same: "drive_block (bc_block_size c) d' b' = (if b' = b then x else drive_block (bc_block_size c) d b')"
    if "block_valid (bc_block_size c) b'" for b'
    using d' drive_block_write[OF I(2) b that x] by auto
  let ?t = "(bc_tags c)[r := b]" and ?s = "(bc_slots c)[r := x]"
  have "block_valid (bc_block_size c) (?t ! i) \<and> ?s ! i = drive_block (bc_block_size c) d' (?t ! i)"
    if i: "i < BCACHE_SIZE" "?t ! i \<noteq> - 1" for i
    using I(4,5,8,9) i r b same free by (cases "i = r") auto
  moreover have "i = j" if "i < BCACHE_SIZE" "j < BCACHE_SIZE" "?t ! i = ?t ! j" "?t ! i \<noteq> - 1" for i j
    using that I(4) I(10)[of i j] free[of i] free[of j] r by (cases "i = r"; cases "j = r") auto
  moreover have "length (?s ! i) = unat (bc_block_size c)" if "i < BCACHE_SIZE" for i
    using that I(5,7) x r by (cases "i = r") auto
  ultimately show ?thesis using I(2,3,4,5) d ages by (simp add: bcache_inv_def)
qed

text \<open>What is not part of the invariant: the lock between acquire and release.\<close>

lemma bcache_inv_relock:
  "bcache_inv (c\<lparr>bc_lock := False\<rparr>) d = bcache_inv c d" if "\<not> bc_lock c"
  using that by (cases c) simp

lemma evict_store:
  assumes inv: "bcache_inv c d" and none: "bcache_find b c = None" and b: "block_valid (bc_block_size c) b"
    and x: "length x = unat (bc_block_size c)"
    and d': "d' = d \<and> x = drive_block (bc_block_size c) d b \<or> d' = write_block (bc_block_size c) b x d"
    and ev: "bcache_evict b (c\<lparr>bc_lock := True\<rparr>) = (r, c1)"
  shows "r < BCACHE_SIZE" "bc_slots c1 = bc_slots c" "bc_block_size c1 = bc_block_size c"
    "bcache_inv (bcache_lock_release (c1\<lparr>bc_slots := (bc_slots c)[r := x]\<rparr>)) d'"
    "set (bc_tags c1) \<subseteq> insert b (set (bc_tags c))"
proof -
  note I = bcache_invD[OF inv]
  note ag = ages_evict[OF I(6)]
  have r: "r = bcache_oldest (bc_ages c)"
    and c1: "c1 = c\<lparr>bc_lock := True, bc_ages := (map (\<lambda>a. a + 1) (bc_ages c))[r := 0], bc_tags := (bc_tags c)[r := b]\<rparr>"
    using ev by (auto simp: bcache_evict_def Let_def)
  show rl: "r < BCACHE_SIZE" and "bc_slots c1 = bc_slots c" "bc_block_size c1 = bc_block_size c"
    using ag(1) by (auto simp: r c1)
  show "set (bc_tags c1) \<subseteq> insert b (set (bc_tags c))" by (simp add: c1 set_update_subset_insert)
  have "bcache_inv (c\<lparr>bc_tags := (bc_tags c)[r := b], bc_ages := (map (\<lambda>a. a + 1) (bc_ages c))[r := 0],
      bc_slots := (bc_slots c)[r := x]\<rparr>) d'"
    by (rule bcache_inv_slot[OF inv rl b _ x _ d']) (use bcache_find_None[OF none] ag(3) r in auto)
  moreover have "bcache_lock_release (c1\<lparr>bc_slots := (bc_slots c)[r := x]\<rparr>) =
      c\<lparr>bc_tags := (bc_tags c)[r := b], bc_ages := (map (\<lambda>a. a + 1) (bc_ages c))[r := 0],
      bc_slots := (bc_slots c)[r := x]\<rparr>"
    using I(3) by (cases c) (simp add: c1 bcache_lock_release_def)
  ultimately show "bcache_inv (bcache_lock_release (c1\<lparr>bc_slots := (bc_slots c)[r := x]\<rparr>)) d'" by simp
qed

lemma find_locked [simp]: "bcache_find b (c\<lparr>bc_lock := l\<rparr>) = bcache_find b c"
  by (simp add: bcache_find_def)

lemma acquire_eq: "\<not> bc_lock c \<Longrightarrow> bcache_lock_acquire c = Some (c\<lparr>bc_lock := True\<rparr>)"
  by (simp add: bcache_lock_acquire_def)

lemma touch_slot:
  assumes inv: "bcache_inv c d" and find: "bcache_find b c = Some r" and b: "block_valid (bc_block_size c) b"
    and x: "length x = unat (bc_block_size c)"
    and d': "d' = d \<and> x = drive_block (bc_block_size c) d b \<or> d' = write_block (bc_block_size c) b x d"
  shows "bcache_inv (bcache_lock_release ((bcache_touch r (c\<lparr>bc_lock := True\<rparr>))\<lparr>bc_tags := (bc_tags c)[r := b],
      bc_slots := (bc_slots c)[r := x]\<rparr>)) d'"
proof -
  note I = bcache_invD[OF inv] and F = bcache_find_Some[OF inv find]
  have nb: "b \<noteq> - 1" by (rule block_valid_not_empty_tag[OF I(2) b])
  let ?a = "(map (\<lambda>a. if a < bc_ages c ! r then a + 1 else a) (bc_ages c))[r := 0]"
  have "bcache_inv (c\<lparr>bc_tags := (bc_tags c)[r := b], bc_ages := ?a, bc_slots := (bc_slots c)[r := x]\<rparr>) d'"
    by (rule bcache_inv_slot[OF inv F(1) b _ x ages_touch[OF I(6) F(1)] d']) (use I(10) F nb in metis)
  moreover have "bcache_lock_release ((bcache_touch r (c\<lparr>bc_lock := True\<rparr>))\<lparr>bc_tags := (bc_tags c)[r := b],
      bc_slots := (bc_slots c)[r := x]\<rparr>) = c\<lparr>bc_tags := (bc_tags c)[r := b], bc_ages := ?a, bc_slots := (bc_slots c)[r := x]\<rparr>"
    using I(3) by (cases c) (simp add: bcache_touch_def bcache_lock_release_def)
  ultimately show ?thesis by simp
qed

lemma bcache_get_spec:
  assumes inv: "bcache_inv c d" and b: "block_valid (bc_block_size c) b"
  shows "\<exists>c'. bcache_get b c d = Some (drive_block (bc_block_size c) d b, c') \<and> bcache_inv c' d
    \<and> bc_block_size c' = bc_block_size c \<and> set (bc_tags c') \<subseteq> insert b (set (bc_tags c))"
proof (cases "bcache_find b c")
  case (Some r)
  note I = bcache_invD[OF inv] and F = bcache_find_Some[OF inv Some]
  have "b \<noteq> - 1" by (rule block_valid_not_empty_tag[OF I(2) b])
  then have sl: "bc_slots c ! r = drive_block (bc_block_size c) d b" using I(9) F by metis
  have upd: "(bc_slots c)[r := drive_block (bc_block_size c) d b] = bc_slots c" "(bc_tags c)[r := b] = bc_tags c"
    using sl F(2) by (metis list_update_id)+
  have "bcache_inv (bcache_lock_release (bcache_touch r (c\<lparr>bc_lock := True\<rparr>))) d"
    using touch_slot[OF inv Some b, of "drive_block (bc_block_size c) d b" d, unfolded upd] I(1,2)
    by (cases c) (auto simp: bcache_touch_def bcache_lock_release_def)
  then show ?thesis using Some I(1-3) F(1) sl I(5)
    by (auto simp: bcache_get_def bcache_get_begin_def acquire_eq bcache_touch_def bcache_lock_release_def)
next
  case None
  note I = bcache_invD[OF inv]
  have un: "\<not> bc_lock (bcache_lock_release (c\<lparr>bc_lock := True\<rparr>))" by (simp add: bcache_lock_release_def)
  have un2: "bcache_lock_release (c\<lparr>bc_lock := True\<rparr>) = c" using I(3) by (cases c) (simp add: bcache_lock_release_def)
  obtain r c1 where ev: "bcache_evict b (c\<lparr>bc_lock := True\<rparr>) = (r, c1)" by (metis surj_pair)
  let ?x = "drive_block (bc_block_size c) d b"
  have x: "length ?x = unat (bc_block_size c)" using I(1,2) by simp
  note E = evict_store[OF inv None b x _ ev, of d, simplified]
  have "bcache_store r 0 ?x (unat (bc_block_size c1)) c1 = Some (c1\<lparr>bc_slots := (bc_slots c)[r := ?x]\<rparr>)"
    using E(1-3) I(7)[OF E(1)] x by (simp add: bcache_store_def)
  then show ?thesis using None I(1,3) ev E
    by (simp add: bcache_get_def bcache_get_begin_def bcache_get_finish_def acquire_eq un2 bcache_lock_release_def)
qed

lemma bcache_set_miss:
  assumes inv: "bcache_inv c d" and b: "block_valid (bc_block_size c) b" and miss: "bcache_find b c = None"
    and sz: "unat offset + unat sz \<le> unat (bc_block_size c)" "unat sz \<le> length src"
    and x: "x = patch (unat offset) (take (unat sz) src) (drive_block (bc_block_size c) d b)" and r: "r = bcache_oldest (bc_ages c)"
  shows "bcache_set b src offset sz c d = Some (c\<lparr>bc_ages := (map (\<lambda>a. a + 1) (bc_ages c))[r := 0], bc_tags := (bc_tags c)[r := b],
    bc_slots := (bc_slots c)[r := x]\<rparr>, write_block (bc_block_size c) b x d)"
proof -
  note I = bcache_invD[OF inv]
  let ?bs = "bc_block_size c" and ?y = "drive_block (bc_block_size c) d b"
  have rl: "r < BCACHE_SIZE" using ages_evict(1)[OF I(6)] r by simp
  have bl: "length ?y = unat ?bs" using I(1,2) by simp
  have xl: "length x = unat ?bs" using x sz bl by simp
  have "offset \<le> ?bs" using sz(1) by (simp add: word_le_nat_alt)
  then have "unat (?bs - offset) = unat ?bs - unat offset" by (rule unat_sub)
  then have ws: "bcache_write_size ?bs offset sz = sz" using sz(1) by (auto simp: bcache_write_size_def word_le_nat_alt word_unat_eq_iff)
  show ?thesis
  proof (cases "?bs \<le> sz \<and> offset = 0")
    case True
    then have "unat sz = unat ?bs" using sz(1) by (simp add: word_le_nat_alt)
    then have "patch 0 (take (unat sz) src) (bc_slots c ! r) = x" "unat sz \<le> length (bc_slots c ! r)"
      using True x bl sz I(7)[OF rl] by (auto simp: patch_def)
    then show ?thesis using True miss I(1,3,5) xl ws sz rl r
      by (simp add: bcache_set_def acquire_eq Let_def bcache_lock_release_def bcache_evict_def bcache_store_def)
  next
    case False
    then show ?thesis using miss I(1,3,5) I(7)[OF rl] xl ws sz bl rl r
      by (auto simp: bcache_set_def acquire_eq Let_def bcache_lock_release_def bcache_evict_def bcache_store_def x)
  qed
qed

lemma bcache_set_spec:
  assumes inv: "bcache_inv c d" and b: "block_valid (bc_block_size c) b"
    and sz: "unat offset + unat sz \<le> unat (bc_block_size c)" "unat sz \<le> length src"
    and x: "x = patch (unat offset) (take (unat sz) src) (drive_block (bc_block_size c) d b)"
  shows "\<exists>c'. bcache_set b src offset sz c d = Some (c', write_block (bc_block_size c) b x d)
    \<and> bcache_inv c' (write_block (bc_block_size c) b x d) \<and> bc_block_size c' = bc_block_size c
    \<and> set (bc_tags c') \<subseteq> insert b (set (bc_tags c))"
proof -
  note I = bcache_invD[OF inv]
  let ?bs = "bc_block_size c"
  have bl: "length (drive_block ?bs d b) = unat ?bs" using I(1,2) by simp
  have xl: "length x = unat ?bs" using x sz bl by simp
  have nb: "b \<noteq> - 1" by (rule block_valid_not_empty_tag[OF I(2) b])
  have "offset \<le> ?bs" using sz(1) by (simp add: word_le_nat_alt)
  then have "unat (?bs - offset) = unat ?bs - unat offset" by (rule unat_sub)
  then have ws: "bcache_write_size ?bs offset sz = sz"
    using sz(1) by (auto simp: bcache_write_size_def word_le_nat_alt word_unat_eq_iff)
  show ?thesis
  proof (cases "bcache_find b c")
    case (Some r)
    note F = bcache_find_Some[OF inv Some]
    have sl: "bc_slots c ! r = drive_block ?bs d b" using I(9) F nb by metis
    define c1 where "c1 = (bcache_touch r (c\<lparr>bc_lock := True\<rparr>))\<lparr>bc_tags := (bc_tags c)[r := b]\<rparr>"
    have c1: "bc_slots c1 = bc_slots c" "bc_block_size c1 = ?bs" "set (bc_tags c1) \<subseteq> insert b (set (bc_tags c))"
      by (simp_all add: c1_def bcache_touch_def set_update_subset_insert)
    have "bcache_store r (unat offset) src (unat sz) c1 = Some (c1\<lparr>bc_slots := (bc_slots c)[r := x]\<rparr>)"
      using sz bl by (simp add: bcache_store_def c1 sl x)
    then show ?thesis using touch_slot[OF inv Some b xl, of "write_block ?bs b x d"] F(1) I(1,3,5) Some c1 xl ws
      by (simp add: bcache_set_def acquire_eq c1_def[symmetric] bcache_lock_release_def Let_def)
  next
    case None
    obtain r c1 where ev: "bcache_evict b (c\<lparr>bc_lock := True\<rparr>) = (r, c1)" by (metis surj_pair)
    note E = evict_store[OF inv None b xl _ ev, of "write_block ?bs b x d", simplified]
    have r: "r = bcache_oldest (bc_ages c)" "bcache_lock_release (c1\<lparr>bc_slots := (bc_slots c)[r := x]\<rparr>) =
        c\<lparr>bc_ages := (map (\<lambda>a. a + 1) (bc_ages c))[r := 0], bc_tags := (bc_tags c)[r := b], bc_slots := (bc_slots c)[r := x]\<rparr>"
      using ev I(3) by (auto simp: bcache_evict_def Let_def bcache_lock_release_def)
    show ?thesis using bcache_set_miss[OF inv b None sz x r(1), folded r(2)] E I(1,3,5) xl by (simp add: bcache_lock_release_def)
  qed
qed

lemma bcache_init_inv:
  assumes "drive_ok d" "block_size_ok bs" "length heap = BCACHE_SIZE" "\<And>i. i < BCACHE_SIZE \<Longrightarrow> length (heap ! i) = unat bs"
  shows "bcache_inv (bcache_init bs heap) d"
proof -
  have "ages_ok (map of_nat [0..<32])" by code_simp
  then show ?thesis using assms by (auto simp: bcache_inv_def bcache_init_def BCACHE_SIZE_def)
qed

section \<open>The cache as a store of blocks\<close>

text \<open>The contract that the code above the cache relies on.  A state gives every valid block a
  content; reading returns it and changes no content, writing a range changes only that block.\<close>

locale block_store =
  fixes get :: "u32 \<Rightarrow> 's \<Rightarrow> (bytes \<times> 's) option"
    and put :: "u32 \<Rightarrow> bytes \<Rightarrow> u32 \<Rightarrow> u32 \<Rightarrow> 's \<Rightarrow> 's option"
    and inv :: "'s \<Rightarrow> bool"
    and bsize :: "'s \<Rightarrow> u32"
    and valid :: "'s \<Rightarrow> u32 \<Rightarrow> bool"
    and content :: "'s \<Rightarrow> u32 \<Rightarrow> bytes"
  assumes content_length: "inv s \<Longrightarrow> length (content s b) = unat (bsize s)"
    and get_content: "inv s \<Longrightarrow> valid s b \<Longrightarrow> \<exists>s'. get b s = Some (content s b, s') \<and> inv s' \<and> bsize s' = bsize s
       \<and> valid s' = valid s \<and> content s' = content s"
    and put_content: "inv s \<Longrightarrow> valid s b \<Longrightarrow> unat offset + unat sz \<le> unat (bsize s) \<Longrightarrow> unat sz \<le> length src \<Longrightarrow>
       \<exists>s'. put b src offset sz s = Some s' \<and> inv s' \<and> bsize s' = bsize s \<and> valid s' = valid s
       \<and> (\<forall>b'. valid s b' \<longrightarrow> content s' b' =
            (if b' = b then patch (unat offset) (take (unat sz) src) (content s b) else content s b'))"
begin

lemma put_then_get:
  assumes "inv s" "valid s b" "unat offset + unat sz \<le> unat (bsize s)" "unat sz \<le> length src" "valid s b'"
  shows "\<exists>s' s''. put b src offset sz s = Some s' \<and> inv s' \<and> get b' s' = Some
    (if b' = b then patch (unat offset) (take (unat sz) src) (content s b) else content s b', s'') \<and> inv s''"
proof -
  obtain s' where s': "put b src offset sz s = Some s'" "inv s'" "valid s' = valid s"
    "content s' b' = (if b' = b then patch (unat offset) (take (unat sz) src) (content s b) else content s b')"
    using put_content[OF assms(1-4)] assms(5) by blast
  moreover obtain s'' where "get b' s' = Some (content s' b', s'')" "inv s''"
    using get_content[OF s'(2), of b'] s'(3) assms(5) by auto
  ultimately show ?thesis by auto
qed

end

interpretation bcache: block_store "\<lambda>b (c, d). map_option (\<lambda>(x, c'). (x, c', d)) (bcache_get b c d)"
    "\<lambda>b src offset sz (c, d). bcache_set b src offset sz c d"
    "\<lambda>(c, d). bcache_inv c d" "\<lambda>(c, d). bc_block_size c"
    "\<lambda>(c, d). block_valid (bc_block_size c)" "\<lambda>(c, d). drive_block (bc_block_size c) d"
proof (unfold_locales, goal_cases)
  case (1 s b)
  then show ?case using bcache_invD(1,2) by (auto split: prod.splits)
next
  case (2 s b)
  obtain c d where s: "s = (c, d)" by (cases s)
  show ?case using bcache_get_spec[of c d b] 2 by (auto simp: s)
next
  case (3 s b offset sz src)
  obtain c d where s: "s = (c, d)" by (cases s)
  define x where "x = patch (unat offset) (take (unat sz) src) (drive_block (bc_block_size c) d b)"
  have inv: "bcache_inv c d" and v: "block_valid (bc_block_size c) b" using 3(1,2) by (auto simp: s)
  have sz: "unat offset + unat sz \<le> unat (bc_block_size c)" "unat sz \<le> length src" using 3(3,4) by (auto simp: s)
  note I = bcache_invD(1,2)[OF inv]
  have "length x = unat (bc_block_size c)" using sz I by (simp add: x_def)
  then have "drive_block (bc_block_size c) (write_block (bc_block_size c) b x d) b' =
      (if b' = b then x else drive_block (bc_block_size c) d b')" if "block_valid (bc_block_size c) b'" for b'
    using drive_block_write[OF I(2) v that] by simp
  then show ?case using bcache_set_spec[OF inv v sz x_def] by (auto simp: s x_def)
qed

text \<open>C20.  The write-through cache is transparent.  From any coherent state, a write to a byte range
  of a block succeeds, and reading any block afterwards returns the patched block or, for every
  other block, its old contents; the cache stays coherent with the drive and the ages stay a
  permutation.\<close>

theorem bcache_set_then_get:
  assumes "bcache_inv c d" "block_valid (bc_block_size c) b" "unat offset + unat sz \<le> unat (bc_block_size c)"
    "unat sz \<le> length src" "block_valid (bc_block_size c) b'"
  shows "\<exists>c' d' c''. bcache_set b src offset sz c d = Some (c', d') \<and> bcache_inv c' d' \<and> bcache_get b' c' d' = Some
    (if b' = b then patch (unat offset) (take (unat sz) src) (drive_block (bc_block_size c) d b)
     else drive_block (bc_block_size c) d b', c'') \<and> bcache_inv c'' d'"
  using bcache.put_then_get[of "(c, d)" b offset sz src b'] assms by (auto simp: case_prod_beta)


section \<open>A lost update\<close>

lemma unlocked_same: "\<not> bc_lock c \<Longrightarrow> c\<lparr>bc_lock := False\<rparr> = c"
  by (cases c) simp

lemma bcache_find_greatest:
  assumes "r < BCACHE_SIZE" "bc_tags c ! r = b" "\<And>j. r < j \<Longrightarrow> j < BCACHE_SIZE \<Longrightarrow> bc_tags c ! j \<noteq> b"
  shows "bcache_find b c = Some r"
proof -
  have "(GREATEST i. i < BCACHE_SIZE \<and> b = bc_tags c ! i) = r"
    by (rule Greatest_equality) (use assms in \<open>auto simp: not_less[symmetric]\<close>)
  then show ?thesis unfolding bcache_find_def fold_last using assms(1,2) by auto
qed

lemma bcache_get_hit:
  "\<not> bc_lock c \<Longrightarrow> bcache_find b c = Some r \<Longrightarrow> \<exists>c'. bcache_get b c d = Some (take (unat (bc_block_size c)) (bc_slots c ! r), c')"
  by (simp add: bcache_get_def bcache_get_begin_def acquire_eq bcache_touch_def)

text \<open>C21.  \<open>bcache_get\<close> releases the lock while it reads the drive.  When another thread writes any part of the same
  block in that window, the block is cached twice: the writer fills the oldest slot with the new contents, and the reader
  then fills the next one with the contents from before the write.  The cache is no longer coherent, and every read returns the
  old contents when the reader's slot has the higher index, although the drive has the new ones; otherwise it
  returns the new contents.\<close>

theorem bcache_get_race_hides_write:
  assumes "bcache_inv c d" "block_valid (bc_block_size c) b" "bcache_find b c = None"
    "writer < BCACHE_SIZE" "unat (bc_ages c ! writer) = 31" "reader < BCACHE_SIZE" "unat (bc_ages c ! reader) = 30"
    "unat offset + unat sz \<le> unat (bc_block_size c)" "unat sz \<le> length src" "old = drive_block (bc_block_size c) d b"
    "new = patch (unat offset) (take (unat sz) src) old"
  shows "\<exists>c1 d1 c2 c3. bcache_get_begin b c = Some (None, c)
    \<and> sd_read_blocks d (block_sector (bc_block_size c) b) (bc_block_size c div SD_SECTOR_SIZE_BYTES) = (0, old)
    \<and> bcache_set b src offset sz c d = Some (c1, d1) \<and> drive_block (bc_block_size c) d1 b = new
    \<and> bcache_get_finish b old c1 = Some c2 \<and> \<not> bcache_inv c2 d1
    \<and> bc_tags c2 ! writer = b \<and> bc_slots c2 ! writer = new \<and> bc_tags c2 ! reader = b \<and> bc_slots c2 ! reader = old
    \<and> bcache_get b c2 d1 = Some (if writer < reader then old else new, c3)"
proof -
  note I = bcache_invD[OF assms(1)]
  let ?bs = "bc_block_size c"
  let ?a1 = "(map (\<lambda>a. a + 1) (bc_ages c))[writer := 0]"
  define d1 where "d1 = write_block ?bs b new d"
  have la: "length (bc_ages c) = BCACHE_SIZE" using I(6) by (simp add: ages_ok_def)
  have ne: "reader \<noteq> writer" using assms(5,7) by auto
  have nb: "b \<noteq> - 1" by (rule block_valid_not_empty_tag[OF I(2) assms(2)])
  have old: "length old = unat ?bs" using I(1,2) assms(10) by simp
  have new: "length new = unat ?bs" using assms(8,9,11) old by simp
  have o1: "bcache_oldest (bc_ages c) = writer" by (rule oldest_spec[OF I(6) assms(4,5)])
  have a1: "ages_ok ?a1" using ages_evict(3)[OF I(6)] o1 by simp
  have "unat (?a1 ! reader) = 31" using la assms(6,7) ne by (simp add: unat_u8_plus_one)
  then have o2: "bcache_oldest ?a1 = reader" by (rule oldest_spec[OF a1 assms(6)])
  define c1 where "c1 = c\<lparr>bc_ages := ?a1, bc_tags := (bc_tags c)[writer := b], bc_slots := (bc_slots c)[writer := new]\<rparr>"
  define c2 where "c2 = c1\<lparr>bc_ages := (map (\<lambda>a. a + 1) ?a1)[reader := 0], bc_tags := (bc_tags c1)[reader := b],
    bc_slots := (bc_slots c1)[reader := old]\<rparr>"
  have miss: "bcache_get_begin b c = Some (None, c)"
    using I(3) assms(3) unlocked_same[OF I(3)] by (simp add: bcache_get_begin_def acquire_eq bcache_lock_release_def)
  have set: "bcache_set b src offset sz c d = Some (c1, d1)"
    using bcache_set_miss[OF assms(1,2,3,8,9), of new writer] assms(10,11) o1 by (simp add: c1_def d1_def)
  have fin: "bcache_get_finish b old c1 = Some c2"
    using I(3,5) I(7)[OF assms(6)] old o2 ne
    by (simp add: bcache_get_finish_def acquire_eq Let_def bcache_evict_def bcache_store_def c1_def c2_def bcache_lock_release_def)
  have slots: "bc_tags c2 ! writer = b" "bc_slots c2 ! writer = new" "bc_tags c2 ! reader = b" "bc_slots c2 ! reader = old"
    using I(4,5) assms(4,6) ne by (simp_all add: c2_def c1_def)
  have out: "bc_tags c2 ! j \<noteq> b" if "j < BCACHE_SIZE" "j \<noteq> writer" "j \<noteq> reader" for j
    using bcache_find_None[OF assms(3)] that I(4) by (simp add: c2_def c1_def)
  have "bc_tags c2 ! max writer reader = b" using slots by (simp add: max_def)
  then have "bcache_find b c2 = Some (max writer reader)" by (intro bcache_find_greatest) (use out assms(4,6) in simp_all)
  moreover have "\<not> bc_lock c2" "bc_block_size c2 = ?bs" using I(3) by (simp_all add: c2_def c1_def)
  ultimately obtain c3 where "bcache_get b c2 d1 = Some (if writer < reader then old else new, c3)"
    using bcache_get_hit[of c2 b "max writer reader" d1] slots old new ne by (auto simp: max_def split: if_splits)
  moreover have "drive_block ?bs d1 b = new" using drive_block_write[OF I(2) assms(2,2) new] by (simp add: d1_def)
  moreover have "\<not> bcache_inv c2 d1" using bcache_invD(10)[of c2 d1 writer reader] slots assms(4,6) ne nb by auto
  ultimately show ?thesis using miss set fin slots I(1) assms(10) by auto
qed


section \<open>Instances\<close>

definition zero_drive :: sd_drive where
  "zero_drive = \<lparr>sd_sector = (\<lambda>_. replicate 512 0), sd_rc = (\<lambda>_. 0)\<rparr>"

text \<open>A cache of 512-byte blocks where slot 0 is the oldest and slot 31 the next.\<close>

definition rotated_cache :: block_cache where
  "rotated_cache = \<lparr>bc_tags = replicate 32 (- 1), bc_ages = map of_nat (31 # [0..<31]),
     bc_slots = replicate 32 (replicate 512 0), bc_lock = False, bc_block_size = 512\<rparr>"

lemma rotated_cache_inv: "bcache_inv rotated_cache zero_drive"
proof -
  have "ages_ok (map of_nat (31 # [0..<31]))" by code_simp
  moreover have "drive_ok zero_drive" by (simp add: drive_ok_def zero_drive_def)
  ultimately show ?thesis
    by (simp add: bcache_inv_def rotated_cache_def block_size_ok_def BCACHE_SIZE_def)
qed

lemma zero_drive_block: "drive_block 512 zero_drive b = replicate 512 0"
  by (simp add: drive_block_def sd_read_blocks_def SD_SECTOR_SIZE_BYTES_def zero_drive_def word_div_def)

theorem bcache_set_then_get_witness:
  "\<exists>c' d' c''. bcache_set 5 [7, 8] 10 2 rotated_cache zero_drive = Some (c', d') \<and> bcache_inv c' d'
    \<and> bcache_get 5 c' d' = Some (patch 10 [7, 8] (replicate 512 0), c'') \<and> bcache_inv c'' d'"
  using bcache_set_then_get[OF rotated_cache_inv, of 5 10 2 "[7, 8]" 5]
  by (simp add: rotated_cache_def block_valid_def zero_drive_block)

theorem bcache_get_race_hides_write_witness:
  "\<exists>c1 d1 c2 c3. bcache_get_begin 5 rotated_cache = Some (None, rotated_cache)
    \<and> bcache_set 5 [7, 8] 10 2 rotated_cache zero_drive = Some (c1, d1) \<and> drive_block 512 d1 5 = patch 10 [7, 8] (replicate 512 0)
    \<and> bcache_get_finish 5 (replicate 512 0) c1 = Some c2 \<and> bcache_get 5 c2 d1 = Some (replicate 512 0, c3)"
proof -
  have "bcache_find 5 rotated_cache = None" "unat (bc_ages rotated_cache ! 0) = 31" "unat (bc_ages rotated_cache ! 31) = 30" by code_simp+
  moreover have "bc_block_size rotated_cache = 512" "block_valid 512 5" by (simp_all add: rotated_cache_def block_valid_def)
  ultimately show ?thesis
    using bcache_get_race_hides_write[OF rotated_cache_inv, of 5 0 31 10 2 "[7, 8]" "replicate 512 0" "patch 10 [7, 8] (replicate 512 0)"] by (auto simp: zero_drive_block BCACHE_SIZE_def)
qed

end
