(* ===== verification/Ext2_Fs.thy ===== *)
theory Ext2_Fs
  imports Ext2_Bcache Bitmaps
begin

text \<open>
  The mounted ext2 file system of \<open>kernel/ext.c\<close>: superblock, block group descriptors and
  bitmaps in memory, their write-back, and the allocation of inode numbers and blocks.  The
  superblock, the descriptor table and an inode are byte images with the layout of
  \<open>kernel/ext2_structs.h\<close>, so writing one back is writing its bytes.
\<close>

section \<open>Structures\<close>

definition sb_blocks_count :: "bytes \<Rightarrow> u32" where "sb_blocks_count sb = get32 4 sb"
definition sb_free_blocks_count :: "bytes \<Rightarrow> u32" where "sb_free_blocks_count sb = get32 12 sb"
definition sb_free_inodes_count :: "bytes \<Rightarrow> u32" where "sb_free_inodes_count sb = get32 16 sb"
definition sb_first_data_block :: "bytes \<Rightarrow> u32" where "sb_first_data_block sb = get32 20 sb"
definition sb_log_block_size :: "bytes \<Rightarrow> u32" where "sb_log_block_size sb = get32 24 sb"
definition sb_blocks_per_group :: "bytes \<Rightarrow> u32" where "sb_blocks_per_group sb = get32 32 sb"
definition sb_inodes_per_group :: "bytes \<Rightarrow> u32" where "sb_inodes_per_group sb = get32 40 sb"
definition sb_magic :: "bytes \<Rightarrow> u16" where "sb_magic sb = get16 56 sb"
definition sb_inode_size :: "bytes \<Rightarrow> u16" where "sb_inode_size sb = get16 88 sb"

definition set_sb_free_blocks_count :: "u32 \<Rightarrow> bytes \<Rightarrow> bytes" where "set_sb_free_blocks_count = put32 12"
definition set_sb_free_inodes_count :: "u32 \<Rightarrow> bytes \<Rightarrow> bytes" where "set_sb_free_inodes_count = put32 16"

text \<open>Entry \<open>i\<close> of the descriptor table, 32 bytes each.\<close>

definition bgd_block_bitmap :: "nat \<Rightarrow> bytes \<Rightarrow> u32" where "bgd_block_bitmap i t = get32 (32 * i) t"
definition bgd_inode_bitmap :: "nat \<Rightarrow> bytes \<Rightarrow> u32" where "bgd_inode_bitmap i t = get32 (32 * i + 4) t"
definition bgd_inode_table :: "nat \<Rightarrow> bytes \<Rightarrow> u32" where "bgd_inode_table i t = get32 (32 * i + 8) t"
definition bgd_free_blocks_count :: "nat \<Rightarrow> bytes \<Rightarrow> u16" where "bgd_free_blocks_count i t = get16 (32 * i + 12) t"
definition bgd_free_inodes_count :: "nat \<Rightarrow> bytes \<Rightarrow> u16" where "bgd_free_inodes_count i t = get16 (32 * i + 14) t"
definition bgd_used_dirs_count :: "nat \<Rightarrow> bytes \<Rightarrow> u16" where "bgd_used_dirs_count i t = get16 (32 * i + 16) t"

definition set_bgd_free_blocks_count :: "nat \<Rightarrow> u16 \<Rightarrow> bytes \<Rightarrow> bytes" where
  "set_bgd_free_blocks_count i = put16 (32 * i + 12)"
definition set_bgd_free_inodes_count :: "nat \<Rightarrow> u16 \<Rightarrow> bytes \<Rightarrow> bytes" where
  "set_bgd_free_inodes_count i = put16 (32 * i + 14)"
definition set_bgd_used_dirs_count :: "nat \<Rightarrow> u16 \<Rightarrow> bytes \<Rightarrow> bytes" where
  "set_bgd_used_dirs_count i = put16 (32 * i + 16)"

definition EXT2_S_MASK :: u16 where "EXT2_S_MASK = 0xF000"
definition EXT2_S_IFDIR :: u16 where "EXT2_S_IFDIR = 0x4000"
definition EXT2_S_IFLNK :: u16 where "EXT2_S_IFLNK = 0xA000"

text \<open>The in-memory file system; \<open>fs_drive\<close> is the drive it is mounted from.\<close>

record ext2 =
  superblock :: bytes
  num_block_groups :: u32
  bgd_offset :: u32
  bgd_table :: bytes
  inode_bitmaps :: "bytes list"
  block_bitmaps :: "bytes list"
  fs_bcache :: block_cache
  metadata_lock :: bool
  inode_lock :: bool
  initialized :: bool
  fs_drive :: sd_drive

definition ext2_get_block_size :: "ext2 \<Rightarrow> u32" where
  "ext2_get_block_size fs = push_bit (unat (sb_log_block_size (superblock fs))) 1024"

definition ext2_get_inode_size :: "ext2 \<Rightarrow> u32" where
  "ext2_get_inode_size fs = ucast (sb_inode_size (superblock fs))"

definition ext2_bitmap_bytes :: "u32 \<Rightarrow> u32" where
  "ext2_bitmap_bytes entries_per_group = (entries_per_group + 7) div 8"

definition ext2_block_group_start :: "ext2 \<Rightarrow> u32 \<Rightarrow> u32" where
  "ext2_block_group_start fs group_index =
     sb_first_data_block (superblock fs) + group_index * sb_blocks_per_group (superblock fs)"

definition ext2_block_group_index :: "ext2 \<Rightarrow> u32 \<Rightarrow> u32 option" where
  "ext2_block_group_index fs block_num = do {
     kassert (block_num \<ge> sb_first_data_block (superblock fs));
     Some ((block_num - sb_first_data_block (superblock fs)) div sb_blocks_per_group (superblock fs))
   }"

definition ext2_block_local_index :: "ext2 \<Rightarrow> u32 \<Rightarrow> u32 option" where
  "ext2_block_local_index fs block_num = do {
     kassert (block_num \<ge> sb_first_data_block (superblock fs));
     Some ((block_num - sb_first_data_block (superblock fs)) mod sb_blocks_per_group (superblock fs))
   }"


section \<open>Write-back of the metadata\<close>

definition metadata_lock_acquire :: "ext2 \<Rightarrow> ext2 option" where
  "metadata_lock_acquire fs = do { kassert (\<not> metadata_lock fs); Some (fs\<lparr>metadata_lock := True\<rparr>) }"

definition metadata_lock_release :: "ext2 \<Rightarrow> ext2" where
  "metadata_lock_release fs = fs\<lparr>metadata_lock := False\<rparr>"

text \<open>A write whose failure panics.\<close>

definition fs_write_sectors :: "u32 \<Rightarrow> u32 \<Rightarrow> bytes \<Rightarrow> ext2 \<Rightarrow> ext2 option" where
  "fs_write_sectors start n src fs = do {
     let (rc, d) = sd_write_blocks (fs_drive fs) start n src;
     kassert (rc = 0);
     Some (fs\<lparr>fs_drive := d\<rparr>)
   }"

definition ext2_write_superblock :: "ext2 \<Rightarrow> ext2 option" where
  "ext2_write_superblock fs = fs_write_sectors 2 2 (superblock fs) fs"

definition bgd_table_sectors :: "u32 \<Rightarrow> u32" where
  "bgd_table_sectors groups = (groups * 32 + SD_SECTOR_SIZE_BYTES - 1) div SD_SECTOR_SIZE_BYTES"

definition ext2_write_bgd_table :: "ext2 \<Rightarrow> ext2 option" where
  "ext2_write_bgd_table fs =
     fs_write_sectors (bgd_offset fs div SD_SECTOR_SIZE_BYTES) (bgd_table_sectors (num_block_groups fs)) (bgd_table fs) fs"

definition write_bitmap :: "u32 \<Rightarrow> bytes \<Rightarrow> ext2 \<Rightarrow> ext2 option" where
  "write_bitmap block bitmap fs =
     fs_write_sectors (block_sector (ext2_get_block_size fs) block)
       (ext2_get_block_size fs div SD_SECTOR_SIZE_BYTES) bitmap fs"


text \<open>Every allocation and release ends with these three writes.\<close>

definition flush_metadata :: "u32 \<Rightarrow> bytes \<Rightarrow> ext2 \<Rightarrow> ext2 option" where
  "flush_metadata block bitmap fs = do {
     fs \<leftarrow> ext2_write_bgd_table fs;
     fs \<leftarrow> ext2_write_superblock fs;
     write_bitmap block bitmap fs
   }"


section \<open>Scanning a bitmap\<close>

text \<open>The inner loop over the bits of byte \<open>j\<close>, and the loop over the bytes.  The outer loop
  ends when the number it computed is not the value it started from.\<close>

fun scan_bits :: "nat \<Rightarrow> bytes \<Rightarrow> nat \<Rightarrow> nat list \<Rightarrow> nat option" where
  "scan_bits per_group bm j [] = None"
| "scan_bits per_group bm j (k # ks) =
     (let local_index = j * 8 + k in
      if local_index \<ge> per_group then None
      else if bm ! j AND push_bit k 1 = 0 then Some local_index
      else scan_bits per_group bm j ks)"

fun scan_bitmap :: "nat \<Rightarrow> u32 \<Rightarrow> u32 \<Rightarrow> bytes \<Rightarrow> nat list \<Rightarrow> u32 \<times> bytes" where
  "scan_bitmap per_group base none bm [] = (none, bm)"
| "scan_bitmap per_group base none bm (j # js) =
     (let (num, bm) = (case (if bm ! j \<noteq> 0xFF then scan_bits per_group bm j [0..<8] else None) of
            None \<Rightarrow> (none, bm)
          | Some l \<Rightarrow> (base + of_nat l, bitmap_set bm l)) in
      if num \<noteq> none then (num, bm) else scan_bitmap per_group base none bm js)"

fun find_group :: "(nat \<Rightarrow> bool) \<Rightarrow> nat list \<Rightarrow> nat option" where
  "find_group has_free [] = None"
| "find_group has_free (i # is') = (if has_free i then Some i else find_group has_free is')"


section \<open>Inode numbers\<close>

definition alloc_inumber :: "u16 \<Rightarrow> ext2 \<Rightarrow> (u32 \<times> ext2) option" where
  "alloc_inumber mode fs = do {
     let ipg = sb_inodes_per_group (superblock fs);
     let bitmap_bytes = ext2_bitmap_bytes ipg;
     fs \<leftarrow> metadata_lock_acquire fs;
     i \<leftarrow> find_group (\<lambda>i. bgd_free_inodes_count i (bgd_table fs) > 0) [0..<unat (num_block_groups fs)];
     let fs = fs\<lparr>bgd_table := set_bgd_free_inodes_count i (bgd_free_inodes_count i (bgd_table fs) - 1) (bgd_table fs),
                superblock := set_sb_free_inodes_count (sb_free_inodes_count (superblock fs) - 1) (superblock fs)\<rparr>;
     let (inumber, bm) = scan_bitmap (unat ipg) (of_nat i * ipg + 1) 0 (inode_bitmaps fs ! i) [0..<unat bitmap_bytes];
     let fs = fs\<lparr>inode_bitmaps := (inode_bitmaps fs)[i := bm]\<rparr>;
     let fs = (if mode AND EXT2_S_MASK = EXT2_S_IFDIR
               then fs\<lparr>bgd_table := set_bgd_used_dirs_count i (bgd_used_dirs_count i (bgd_table fs) + 1) (bgd_table fs)\<rparr>
               else fs);
     fs \<leftarrow> flush_metadata (bgd_inode_bitmap i (bgd_table fs)) (inode_bitmaps fs ! i) fs;
     let fs = metadata_lock_release fs;
     kassert (inumber \<noteq> 0);
     Some (inumber, fs)
   }"

definition dealloc_inumber :: "u32 \<Rightarrow> u16 \<Rightarrow> ext2 \<Rightarrow> ext2 option" where
  "dealloc_inumber inumber mode fs = do {
     fs \<leftarrow> metadata_lock_acquire fs;
     let ipg = sb_inodes_per_group (superblock fs);
     let group_index = unat ((inumber - 1) div ipg);
     let local_index = unat ((inumber - 1) mod ipg);
     kassert (group_index < length (inode_bitmaps fs));
     let fs = fs\<lparr>inode_bitmaps := (inode_bitmaps fs)[group_index := bitmap_clear (inode_bitmaps fs ! group_index) local_index],
                bgd_table := set_bgd_free_inodes_count group_index
                   (bgd_free_inodes_count group_index (bgd_table fs) + 1) (bgd_table fs),
                superblock := set_sb_free_inodes_count (sb_free_inodes_count (superblock fs) + 1) (superblock fs)\<rparr>;
     let fs = (if mode AND EXT2_S_MASK = EXT2_S_IFDIR
               then fs\<lparr>bgd_table := set_bgd_used_dirs_count group_index
                   (bgd_used_dirs_count group_index (bgd_table fs) - 1) (bgd_table fs)\<rparr>
               else fs);
     fs \<leftarrow> flush_metadata (bgd_inode_bitmap group_index (bgd_table fs)) (inode_bitmaps fs ! group_index) fs;
     Some (metadata_lock_release fs)
   }"


section \<open>Blocks\<close>

definition fs_bcache_get :: "u32 \<Rightarrow> ext2 \<Rightarrow> (bytes \<times> ext2) option" where
  "fs_bcache_get block_num fs = do {
     (x, c) \<leftarrow> bcache_get block_num (fs_bcache fs) (fs_drive fs);
     Some (x, fs\<lparr>fs_bcache := c\<rparr>)
   }"

definition fs_bcache_set :: "u32 \<Rightarrow> bytes \<Rightarrow> u32 \<Rightarrow> u32 \<Rightarrow> ext2 \<Rightarrow> ext2 option" where
  "fs_bcache_set block_num src offset sz fs = do {
     (c, d) \<leftarrow> bcache_set block_num src offset sz (fs_bcache fs) (fs_drive fs);
     Some (fs\<lparr>fs_bcache := c, fs_drive := d\<rparr>)
   }"

definition alloc_block :: "ext2 \<Rightarrow> (u32 \<times> ext2) option" where
  "alloc_block fs = do {
     let bpg = sb_blocks_per_group (superblock fs);
     let bitmap_bytes = ext2_bitmap_bytes bpg;
     fs \<leftarrow> metadata_lock_acquire fs;
     i \<leftarrow> find_group (\<lambda>i. bgd_free_blocks_count i (bgd_table fs) > 0) [0..<unat (num_block_groups fs)];
     let fs = fs\<lparr>bgd_table := set_bgd_free_blocks_count i (bgd_free_blocks_count i (bgd_table fs) - 1) (bgd_table fs),
                superblock := set_sb_free_blocks_count (sb_free_blocks_count (superblock fs) - 1) (superblock fs)\<rparr>;
     let (block_num, bm) = scan_bitmap (unat bpg) (ext2_block_group_start fs (of_nat i)) (- 1)
                             (block_bitmaps fs ! i) [0..<unat bitmap_bytes];
     let fs = fs\<lparr>block_bitmaps := (block_bitmaps fs)[i := bm]\<rparr>;
     fs \<leftarrow> flush_metadata (bgd_block_bitmap i (bgd_table fs)) (block_bitmaps fs ! i) fs;
     let zero_block = replicate (unat (ext2_get_block_size fs)) 0;
     fs \<leftarrow> fs_bcache_set block_num zero_block 0 (ext2_get_block_size fs) fs;
     let fs = metadata_lock_release fs;
     kassert (block_num \<noteq> - 1);
     Some (block_num, fs)
   }"

definition dealloc_block :: "u32 \<Rightarrow> ext2 \<Rightarrow> ext2 option" where
  "dealloc_block block_num fs = do {
     fs \<leftarrow> metadata_lock_acquire fs;
     group_index \<leftarrow> map_option unat (ext2_block_group_index fs block_num);
     local_index \<leftarrow> map_option unat (ext2_block_local_index fs block_num);
     kassert (group_index < length (block_bitmaps fs));
     let fs = fs\<lparr>block_bitmaps := (block_bitmaps fs)[group_index := bitmap_clear (block_bitmaps fs ! group_index) local_index],
                bgd_table := set_bgd_free_blocks_count group_index
                   (bgd_free_blocks_count group_index (bgd_table fs) + 1) (bgd_table fs),
                superblock := set_sb_free_blocks_count (sb_free_blocks_count (superblock fs) + 1) (superblock fs)\<rparr>;
     fs \<leftarrow> flush_metadata (bgd_block_bitmap group_index (bgd_table fs)) (block_bitmaps fs ! group_index) fs;
     Some (metadata_lock_release fs)
   }"

section \<open>What a scan finds\<close>

lemma scan_bits_spec:
  assumes "a \<le> 8"
  shows "case scan_bits n bm j [a..<8] of
      None \<Rightarrow> \<forall>l. j * 8 + a \<le> l \<longrightarrow> l < j * 8 + 8 \<longrightarrow> l < n \<longrightarrow> bitmap_test bm l
    | Some l \<Rightarrow> j * 8 + a \<le> l \<and> l < j * 8 + 8 \<and> l < n \<and> \<not> bitmap_test bm l
        \<and> (\<forall>l'. j * 8 + a \<le> l' \<longrightarrow> l' < l \<longrightarrow> bitmap_test bm l')"
  using assms
proof (induction "8 - a" arbitrary: a)
  case (Suc x)
  then have a: "a < 8" "[a..<8] = a # [Suc a..<8]" by (auto simp: upt_conv_Cons)
  have t: "bitmap_test bm (j * 8 + a) \<longleftrightarrow> bm ! j AND push_bit a 1 \<noteq> 0"
    using a(1) by (simp add: bitmap_test_def)
  have split: "j * 8 + a \<le> l \<longleftrightarrow> l = j * 8 + a \<or> j * 8 + Suc a \<le> l" for l by auto
  have IH: "case scan_bits n bm j [Suc a..<8] of
      None \<Rightarrow> \<forall>l. j * 8 + Suc a \<le> l \<longrightarrow> l < j * 8 + 8 \<longrightarrow> l < n \<longrightarrow> bitmap_test bm l
    | Some l \<Rightarrow> j * 8 + Suc a \<le> l \<and> l < j * 8 + 8 \<and> l < n \<and> \<not> bitmap_test bm l
        \<and> (\<forall>l'. j * 8 + Suc a \<le> l' \<longrightarrow> l' < l \<longrightarrow> bitmap_test bm l')"
    using Suc.hyps(1)[of "Suc a"] Suc.hyps(2) a(1) by simp
  consider "n \<le> j * 8 + a" | "j * 8 + a < n" "\<not> bitmap_test bm (j * 8 + a)"
    | "j * 8 + a < n" "bitmap_test bm (j * 8 + a)" by linarith
  then show ?case
  proof cases
    case 1
    then show ?thesis by (simp add: a(2))
  next
    case 2
    then show ?thesis using t a(1) by (simp add: a(2) Let_def)
  next
    case 3
    then have "scan_bits n bm j [a..<8] = scan_bits n bm j [Suc a..<8]" using t by (simp add: a(2) Let_def)
    then show ?thesis using IH 3 unfolding split by (auto split: option.splits)
  qed
qed simp

lemma bitmap_test_full: "bm ! j = 0xFF \<Longrightarrow> l div 8 = j \<Longrightarrow> bitmap_test bm l"
proof -
  assume "bm ! j = 0xFF" "l div 8 = j"
  moreover have "bit (0xFF :: u8) k" if "k < 8" for k
  proof -
    have "(0xFF :: u8) = mask 8" by (simp add: mask_eq_exp_minus_1)
    then show ?thesis using that by (simp only: bit_mask_iff) simp
  qed
  ultimately show ?thesis by (simp add: bitmap_test_bit)
qed

lemma scan_byte_spec:
  "case (if bm ! j \<noteq> 0xFF then scan_bits n bm j [0..<8] else None) of
      None \<Rightarrow> \<forall>l. j * 8 \<le> l \<longrightarrow> l < j * 8 + 8 \<longrightarrow> l < n \<longrightarrow> bitmap_test bm l
    | Some l \<Rightarrow> j * 8 \<le> l \<and> l < j * 8 + 8 \<and> l < n \<and> \<not> bitmap_test bm l
        \<and> (\<forall>l'. j * 8 \<le> l' \<longrightarrow> l' < l \<longrightarrow> bitmap_test bm l')"
proof (cases "bm ! j = 0xFF")
  case True
  have "bitmap_test bm l" if "j * 8 \<le> l" "l < j * 8 + 8" for l
    by (rule bitmap_test_full[OF True]) (use that in auto)
  then show ?thesis using True by simp
next
  case False
  then show ?thesis using scan_bits_spec[where a = 0 and n = n and bm = bm and j = j] by (simp split: option.splits)
qed

text \<open>A scan takes the lowest clear bit, if there is one.\<close>

lemma scan_bitmap_spec:
  assumes "\<And>l. l < n \<Longrightarrow> base + of_nat l \<noteq> none" "n \<le> 8 * m" "j \<le> m" "\<And>l. l < 8 * j \<Longrightarrow> l < n \<Longrightarrow> bitmap_test bm l"
  shows "(\<exists>l < n. \<not> bitmap_test bm l \<and> (\<forall>l' < l. bitmap_test bm l')
      \<and> scan_bitmap n base none bm [j..<m] = (base + of_nat l, bitmap_set bm l))
    \<or> (\<forall>l < n. bitmap_test bm l) \<and> scan_bitmap n base none bm [j..<m] = (none, bm)"
  using assms(3,4)
proof (induction "m - j" arbitrary: j)
  case 0
  then show ?case using assms(2) by auto
next
  case (Suc x)
  then have j: "j < m" "[j..<m] = j # [Suc j..<m]" by (auto simp: upt_conv_Cons)
  let ?r = "if bm ! j \<noteq> 0xFF then scan_bits n bm j [0..<8] else None"
  note sb = scan_byte_spec[where n = n and bm = bm and j = j]
  show ?case
  proof (cases ?r)
    case None
    have "bitmap_test bm l" if "l < 8 * Suc j" "l < n" for l
      using that Suc.prems(2)[of l] sb[unfolded None] by (cases "l < 8 * j") (auto simp: mult.commute)
    moreover have "scan_bitmap n base none bm [j..<m] = scan_bitmap n base none bm [Suc j..<m]"
      unfolding j(2) scan_bitmap.simps None by simp
    ultimately show ?thesis using Suc.hyps(1)[of "Suc j"] Suc.hyps(2) j(1) by simp
  next
    case (Some l)
    then have l: "j * 8 \<le> l" "l < n" "\<not> bitmap_test bm l" "\<And>l'. j * 8 \<le> l' \<Longrightarrow> l' < l \<Longrightarrow> bitmap_test bm l'"
      using sb by auto
    have "bitmap_test bm l'" if "l' < l" for l'
      using that l(2) l(4)[of l'] Suc.prems(2)[of l'] by (cases "l' < 8 * j") (auto simp: mult.commute)
    moreover have "scan_bitmap n base none bm [j..<m] = (base + of_nat l, bitmap_set bm l)"
      unfolding j(2) scan_bitmap.simps Some using assms(1)[OF l(2)] by simp
    ultimately show ?thesis using l by blast
  qed
qed

lemma find_group_Some: "find_group P is' = Some i \<Longrightarrow> i \<in> set is' \<and> P i"
  by (induction is') (auto split: if_splits)

lemma find_group_None: "find_group P is' = None \<longleftrightarrow> (\<forall>i \<in> set is'. \<not> P i)"
  by (induction is') auto

section \<open>The invariant of a mounted file system\<close>

text \<open>Sectors that a write of \<open>n\<close> sectors from \<open>st\<close> touches.\<close>

definition sectors :: "u32 \<Rightarrow> u32 \<Rightarrow> u32 set" where
  "sectors st n = {s. s - st < n}"

definition block_sectors :: "u32 \<Rightarrow> u32 \<Rightarrow> u32 set" where
  "block_sectors bs b = sectors (block_sector bs b) (bs div SD_SECTOR_SIZE_BYTES)"

text \<open>The regions of the drive that hold a copy of the metadata.\<close>

definition meta_sectors :: "ext2 \<Rightarrow> u32 set" where
  "meta_sectors fs = sectors 2 2
     \<union> sectors (bgd_offset fs div SD_SECTOR_SIZE_BYTES) (bgd_table_sectors (num_block_groups fs))
     \<union> (\<Union>i < unat (num_block_groups fs). block_sectors (ext2_get_block_size fs) (bgd_block_bitmap i (bgd_table fs)))
     \<union> (\<Union>i < unat (num_block_groups fs). block_sectors (ext2_get_block_size fs) (bgd_inode_bitmap i (bgd_table fs)))"

text \<open>A block that may hold file data or pointers: it is on the drive and no metadata lives in it.\<close>

definition data_block :: "ext2 \<Rightarrow> u32 \<Rightarrow> bool" where
  "data_block fs b \<longleftrightarrow> block_valid (ext2_get_block_size fs) b
     \<and> block_sectors (ext2_get_block_size fs) b \<inter> meta_sectors fs = {}"

text \<open>The block of the inode table that holds inode \<open>l\<close> of group \<open>g\<close>, and all of them.  The inode
  tables are read and written past the block cache.\<close>

definition inodes_per_block :: "ext2 \<Rightarrow> u32" where
  "inodes_per_block fs = ext2_get_block_size fs div ext2_get_inode_size fs"

definition inode_block_at :: "ext2 \<Rightarrow> nat \<Rightarrow> nat \<Rightarrow> u32" where
  "inode_block_at fs g l = bgd_inode_table g (bgd_table fs) + of_nat (l div unat (inodes_per_block fs))"

definition itable_blocks :: "ext2 \<Rightarrow> u32 set" where
  "itable_blocks fs = {inode_block_at fs g l | g l. g < unat (num_block_groups fs) \<and> l < unat (sb_inodes_per_group (superblock fs))}"

text \<open>A block for the contents of files.\<close>

definition file_block :: "ext2 \<Rightarrow> u32 \<Rightarrow> bool" where
  "file_block fs b \<longleftrightarrow> data_block fs b \<and> b \<notin> itable_blocks fs"

definition block_at :: "ext2 \<Rightarrow> nat \<Rightarrow> nat \<Rightarrow> u32" where
  "block_at fs g l = ext2_block_group_start fs (of_nat g) + of_nat l"

definition free_blocks :: "ext2 \<Rightarrow> u32 set" where
  "free_blocks fs = {block_at fs g l | g l. g < unat (num_block_groups fs)
     \<and> l < unat (sb_blocks_per_group (superblock fs)) \<and> \<not> bitmap_test (block_bitmaps fs ! g) l}"

definition inumber_at :: "ext2 \<Rightarrow> nat \<Rightarrow> nat \<Rightarrow> u32" where
  "inumber_at fs g l = of_nat g * sb_inodes_per_group (superblock fs) + 1 + of_nat l"

definition free_inumbers :: "ext2 \<Rightarrow> u32 set" where
  "free_inumbers fs = {inumber_at fs g l | g l. g < unat (num_block_groups fs)
     \<and> l < unat (sb_inodes_per_group (superblock fs)) \<and> \<not> bitmap_test (inode_bitmaps fs ! g) l}"

text \<open>The shape of the file system: nothing that an operation changes.\<close>

definition geometry_ok :: "ext2 \<Rightarrow> bool" where
  "geometry_ok fs \<longleftrightarrow> block_size_ok (ext2_get_block_size fs)
     \<and> length (superblock fs) = 1024
     \<and> length (bgd_table fs) = 512 * unat (bgd_table_sectors (num_block_groups fs))
     \<and> 32 * unat (num_block_groups fs) \<le> length (bgd_table fs)
     \<and> sb_blocks_per_group (superblock fs) \<noteq> 0 \<and> sb_inodes_per_group (superblock fs) \<noteq> 0
     \<and> unat (sb_blocks_per_group (superblock fs)) \<le> 8 * unat (ext2_get_block_size fs)
     \<and> unat (sb_inodes_per_group (superblock fs)) \<le> 8 * unat (ext2_get_block_size fs)
     \<and> unat (sb_blocks_per_group (superblock fs)) < 65536 \<and> unat (sb_inodes_per_group (superblock fs)) < 65536
     \<and> unat (sb_first_data_block (superblock fs))
         + unat (num_block_groups fs) * unat (sb_blocks_per_group (superblock fs)) < 4294967295
     \<and> unat (num_block_groups fs) * unat (sb_inodes_per_group (superblock fs)) < 4294967295"

definition free_count :: "nat \<Rightarrow> bytes \<Rightarrow> nat" where
  "free_count n bm = card {l. l < n \<and> \<not> bitmap_test bm l}"

text \<open>The bitmaps and the counters that summarise them.\<close>

definition meta_inv :: "ext2 \<Rightarrow> bool" where
  "meta_inv fs \<longleftrightarrow> geometry_ok fs
     \<and> length (block_bitmaps fs) = unat (num_block_groups fs)
     \<and> length (inode_bitmaps fs) = unat (num_block_groups fs)
     \<and> (\<forall>g < unat (num_block_groups fs).
          length (block_bitmaps fs ! g) = unat (ext2_get_block_size fs)
        \<and> length (inode_bitmaps fs ! g) = unat (ext2_get_block_size fs)
        \<and> unat (bgd_free_blocks_count g (bgd_table fs)) = free_count (unat (sb_blocks_per_group (superblock fs))) (block_bitmaps fs ! g)
        \<and> unat (bgd_free_inodes_count g (bgd_table fs)) = free_count (unat (sb_inodes_per_group (superblock fs))) (inode_bitmaps fs ! g))"

text \<open>The block cache holds blocks of files only.\<close>

definition cache_ok :: "ext2 \<Rightarrow> bool" where
  "cache_ok fs \<longleftrightarrow> bcache_inv (fs_bcache fs) (fs_drive fs) \<and> bc_block_size (fs_bcache fs) = ext2_get_block_size fs
     \<and> (\<forall>b \<in> set (bc_tags (fs_bcache fs)). b \<noteq> - 1 \<longrightarrow> file_block fs b)"

definition fs_inv :: "ext2 \<Rightarrow> bool" where
  "fs_inv fs \<longleftrightarrow> meta_inv fs \<and> cache_ok fs \<and> \<not> metadata_lock fs \<and> (\<forall>b \<in> free_blocks fs. file_block fs b)"

definition fs_block :: "ext2 \<Rightarrow> u32 \<Rightarrow> bytes" where
  "fs_block fs b = drive_block (ext2_get_block_size fs) (fs_drive fs) b"


section \<open>Reading back what was written\<close>

lemma sd_read_agree:
  "(\<And>s. s \<in> sectors st n \<Longrightarrow> sd_sector d' s = sd_sector d s) \<Longrightarrow> snd (sd_read_blocks d' st n) = snd (sd_read_blocks d st n)"
proof -
  assume a: "\<And>s. s \<in> sectors st n \<Longrightarrow> sd_sector d' s = sd_sector d s"
  have "unat (of_nat k :: u32) = k" if "k < unat n" for k using that unat_word32_less[of n] by (intro unat_of_nat_u32) linarith
  then have "sd_sector d' (st + of_nat k) = sd_sector d (st + of_nat k)" if "k < unat n" for k
    using that by (intro a) (simp add: sectors_def word_less_nat_alt)
  then show ?thesis by (auto simp: sd_read_blocks_def intro!: arg_cong[where f = concat])
qed

lemma sd_read_written:
  assumes "length src = 512 * unat n"
  shows "snd (sd_read_blocks (snd (sd_write_blocks d st n src)) st n) = src"
proof -
  have u: "unat (of_nat k :: u32) = k" if "k < unat n" for k using that unat_word32_less[of n] by (intro unat_of_nat_u32) linarith
  have "sd_sector (snd (sd_write_blocks d st n src)) (st + of_nat k) = chunk (512 * k) 512 src" if "k < unat n" for k
    using u[OF that] that by (simp add: sd_write_blocks_def word_less_nat_alt)
  then have "snd (sd_read_blocks (snd (sd_write_blocks d st n src)) st n) = concat (map (\<lambda>k. chunk (512 * k) 512 src) [0..<unat n])"
    by (auto simp: sd_read_blocks_def intro!: arg_cong[where f = concat])
  then show ?thesis using concat_chunks[OF assms] by simp
qed

text \<open>Two drives that differ at most in the sectors \<open>M\<close>.\<close>

definition agree_outside :: "u32 set \<Rightarrow> sd_drive \<Rightarrow> sd_drive \<Rightarrow> bool" where
  "agree_outside M d d' \<longleftrightarrow> (\<forall>s. s \<notin> M \<longrightarrow> sd_sector d' s = sd_sector d s)"

lemma agree_outside_trans: "agree_outside M d d' \<Longrightarrow> agree_outside N d' d'' \<Longrightarrow> agree_outside (M \<union> N) d d''"
  by (auto simp: agree_outside_def)

lemma agree_outside_mono: "agree_outside M d d' \<Longrightarrow> M \<subseteq> N \<Longrightarrow> agree_outside N d d'"
  by (auto simp: agree_outside_def)

lemma agree_write: "agree_outside (sectors st n) d (snd (sd_write_blocks d st n src))"
  by (auto simp: agree_outside_def sd_write_blocks_def sectors_def)

lemma agree_read:
  "agree_outside M d d' \<Longrightarrow> sectors st n \<inter> M = {} \<Longrightarrow> snd (sd_read_blocks d' st n) = snd (sd_read_blocks d st n)"
  by (rule sd_read_agree) (auto simp: agree_outside_def)

lemma agree_drive_block:
  "agree_outside M d d' \<Longrightarrow> block_sectors bs b \<inter> M = {} \<Longrightarrow> drive_block bs d' b = drive_block bs d b"
  unfolding drive_block_def block_sectors_def by (rule agree_read)

lemma drive_ok_sd_write:
  assumes "drive_ok d" "length src = 512 * unat n"
  shows "drive_ok (snd (sd_write_blocks d st n src))" "fst (sd_write_blocks d st n src) = 0"
proof -
  have "length (chunk (512 * unat (s - st)) 512 src) = 512" if "s - st < n" for s
  proof -
    have "512 * (unat (s - st) + 1) \<le> 512 * unat n" using that by (intro mult_le_mono) (auto simp: word_less_nat_alt)
    then show ?thesis using assms(2) by simp
  qed
  then show "drive_ok (snd (sd_write_blocks d st n src))"
    using assms(1) by (auto simp: drive_ok_def sd_write_blocks_def simp del: length_chunk)
  show "fst (sd_write_blocks d st n src) = 0" using assms(1) by (simp add: sd_write_blocks_def drive_ok_def)
qed

lemma bcache_inv_agree:
  assumes "bcache_inv c d" "drive_ok d'"
    "\<And>i. i < BCACHE_SIZE \<Longrightarrow> bc_tags c ! i \<noteq> - 1 \<Longrightarrow> drive_block (bc_block_size c) d' (bc_tags c ! i) =
      drive_block (bc_block_size c) d (bc_tags c ! i)"
  shows "bcache_inv c d'"
  using assms(1,2) assms(3) by (auto simp: bcache_inv_def)

end
