(* ===== verification/Ext2_Alloc.thy ===== *)
theory Ext2_Alloc
  imports Ext2_Fs
begin

text \<open>
  Correctness of the ext2 allocators: an allocation takes exactly one free block or inode
  number, a release returns it, and the copies of the metadata on the drive follow.
\<close>

section \<open>Shape\<close>

definition same_shape :: "ext2 \<Rightarrow> ext2 \<Rightarrow> bool" where
  "same_shape fs fs' \<longleftrightarrow> length (superblock fs') = length (superblock fs)
     \<and> sb_first_data_block (superblock fs') = sb_first_data_block (superblock fs)
     \<and> sb_log_block_size (superblock fs') = sb_log_block_size (superblock fs)
     \<and> sb_blocks_per_group (superblock fs') = sb_blocks_per_group (superblock fs)
     \<and> sb_inodes_per_group (superblock fs') = sb_inodes_per_group (superblock fs)
     \<and> sb_inode_size (superblock fs') = sb_inode_size (superblock fs)
     \<and> num_block_groups fs' = num_block_groups fs \<and> bgd_offset fs' = bgd_offset fs
     \<and> inode_lock fs' = inode_lock fs \<and> initialized fs' = initialized fs
     \<and> length (bgd_table fs') = length (bgd_table fs)
     \<and> (\<forall>i < unat (num_block_groups fs). bgd_block_bitmap i (bgd_table fs') = bgd_block_bitmap i (bgd_table fs)
          \<and> bgd_inode_bitmap i (bgd_table fs') = bgd_inode_bitmap i (bgd_table fs)
          \<and> bgd_inode_table i (bgd_table fs') = bgd_inode_table i (bgd_table fs))"

lemma same_shape_refl [simp]: "same_shape fs fs"
  by (simp add: same_shape_def)

lemma same_shape_trans: "same_shape a b \<Longrightarrow> same_shape b c \<Longrightarrow> same_shape a c"
  by (auto simp: same_shape_def)

lemma same_shapeD:
  assumes "same_shape fs fs'"
  shows "ext2_get_block_size fs' = ext2_get_block_size fs"
    "block_at fs' = block_at fs" "inumber_at fs' = inumber_at fs"
    "num_block_groups fs' = num_block_groups fs" "bgd_offset fs' = bgd_offset fs"
    "sb_blocks_per_group (superblock fs') = sb_blocks_per_group (superblock fs)"
    "sb_inodes_per_group (superblock fs') = sb_inodes_per_group (superblock fs)"
    "meta_sectors fs' = meta_sectors fs" "geometry_ok fs' = geometry_ok fs" "data_block fs' = data_block fs"
    "ext2_get_inode_size fs' = ext2_get_inode_size fs" "itable_blocks fs' = itable_blocks fs" "file_block fs' = file_block fs"
proof -
  show bs: "ext2_get_block_size fs' = ext2_get_block_size fs"
    using assms by (simp add: same_shape_def ext2_get_block_size_def)
  show "block_at fs' = block_at fs" "inumber_at fs' = inumber_at fs"
    "num_block_groups fs' = num_block_groups fs" "bgd_offset fs' = bgd_offset fs"
    "sb_blocks_per_group (superblock fs') = sb_blocks_per_group (superblock fs)"
    "sb_inodes_per_group (superblock fs') = sb_inodes_per_group (superblock fs)"
    using assms by (auto simp: same_shape_def block_at_def inumber_at_def ext2_block_group_start_def fun_eq_iff)
  show m: "meta_sectors fs' = meta_sectors fs"
    using assms by (auto simp: meta_sectors_def bs same_shape_def)
  show "geometry_ok fs' = geometry_ok fs"
    using assms by (simp add: geometry_ok_def bs same_shape_def)
  show db: "data_block fs' = data_block fs" by (simp add: data_block_def bs m fun_eq_iff)
  show isz: "ext2_get_inode_size fs' = ext2_get_inode_size fs"
    using assms by (simp add: same_shape_def ext2_get_inode_size_def)
  show it: "itable_blocks fs' = itable_blocks fs"
  proof -
    have "inode_block_at fs' g l = inode_block_at fs g l" if "g < unat (num_block_groups fs)" for g l
      using assms that by (simp add: inode_block_at_def inodes_per_block_def bs isz same_shape_def)
    moreover have "num_block_groups fs' = num_block_groups fs"
      "sb_inodes_per_group (superblock fs') = sb_inodes_per_group (superblock fs)" using assms by (auto simp: same_shape_def)
    ultimately show ?thesis unfolding itable_blocks_def by (metis (no_types, lifting))
  qed
  show "file_block fs' = file_block fs" by (simp add: file_block_def db it fun_eq_iff)
qed

lemma set_sb_fields:
  assumes "length sb = 1024" "f = set_sb_free_blocks_count v \<or> f = set_sb_free_inodes_count v"
  shows "length (f sb) = 1024" "sb_first_data_block (f sb) = sb_first_data_block sb"
    "sb_log_block_size (f sb) = sb_log_block_size sb" "sb_blocks_per_group (f sb) = sb_blocks_per_group sb"
    "sb_inodes_per_group (f sb) = sb_inodes_per_group sb" "sb_inode_size (f sb) = sb_inode_size sb"
  using assms
  by (auto simp: set_sb_free_blocks_count_def set_sb_free_inodes_count_def sb_first_data_block_def
    sb_log_block_size_def sb_blocks_per_group_def sb_inodes_per_group_def sb_inode_size_def get_put_other)

lemma set_bgd_fields:
  assumes "32 * n \<le> length t" "i < n" "j < n"
    "f = set_bgd_free_blocks_count i v \<or> f = set_bgd_free_inodes_count i v \<or> f = set_bgd_used_dirs_count i v"
  shows "length (f t) = length t" "bgd_block_bitmap j (f t) = bgd_block_bitmap j t"
    "bgd_inode_bitmap j (f t) = bgd_inode_bitmap j t" "bgd_inode_table j (f t) = bgd_inode_table j t"
proof -
  have i: "32 * i + 32 \<le> length t" using assms(1,2) by linarith
  have ij: "i = j \<or> 32 * i + 32 \<le> 32 * j \<or> 32 * j + 32 \<le> 32 * i" by linarith
  show "length (f t) = length t" "bgd_block_bitmap j (f t) = bgd_block_bitmap j t"
    "bgd_inode_bitmap j (f t) = bgd_inode_bitmap j t" "bgd_inode_table j (f t) = bgd_inode_table j t"
    using assms(4) i ij
    by (auto simp: set_bgd_free_blocks_count_def set_bgd_free_inodes_count_def set_bgd_used_dirs_count_def
      bgd_block_bitmap_def bgd_inode_bitmap_def bgd_inode_table_def intro!: get_put_other)
qed

text \<open>Each counter changes only through its own setter.\<close>

lemma set_bgd_counts:
  assumes "32 * n \<le> length t" "i < n" "j < n"
  shows "bgd_free_blocks_count j (set_bgd_free_blocks_count i v t) = (if j = i then v else bgd_free_blocks_count j t)"
    "bgd_free_inodes_count j (set_bgd_free_inodes_count i v t) = (if j = i then v else bgd_free_inodes_count j t)"
    "bgd_free_blocks_count j (set_bgd_free_inodes_count i v t) = bgd_free_blocks_count j t"
    "bgd_free_inodes_count j (set_bgd_free_blocks_count i v t) = bgd_free_inodes_count j t"
    "bgd_free_blocks_count j (set_bgd_used_dirs_count i v t) = bgd_free_blocks_count j t"
    "bgd_free_inodes_count j (set_bgd_used_dirs_count i v t) = bgd_free_inodes_count j t"
proof -
  have i: "32 * i + 32 \<le> length t" using assms(1,2) by linarith
  have ij: "i = j \<or> 32 * i + 32 \<le> 32 * j \<or> 32 * j + 32 \<le> 32 * i" by linarith
  note defs = set_bgd_free_blocks_count_def set_bgd_free_inodes_count_def set_bgd_used_dirs_count_def
      bgd_free_blocks_count_def bgd_free_inodes_count_def
  show "bgd_free_blocks_count j (set_bgd_free_blocks_count i v t) = (if j = i then v else bgd_free_blocks_count j t)"
    "bgd_free_inodes_count j (set_bgd_free_inodes_count i v t) = (if j = i then v else bgd_free_inodes_count j t)"
    using i ij by (auto simp: defs intro!: get_put_other)
  show "bgd_free_blocks_count j (set_bgd_free_inodes_count i v t) = bgd_free_blocks_count j t"
    "bgd_free_inodes_count j (set_bgd_free_blocks_count i v t) = bgd_free_inodes_count j t"
    "bgd_free_blocks_count j (set_bgd_used_dirs_count i v t) = bgd_free_blocks_count j t"
    "bgd_free_inodes_count j (set_bgd_used_dirs_count i v t) = bgd_free_inodes_count j t"
    using i ij by (auto simp: defs intro!: get_put_other)
qed

section \<open>The copies on the drive\<close>

definition bitmap_blocks :: "ext2 \<Rightarrow> u32 list" where
  "bitmap_blocks fs = map (\<lambda>i. bgd_block_bitmap i (bgd_table fs)) [0..<unat (num_block_groups fs)]
     @ map (\<lambda>i. bgd_inode_bitmap i (bgd_table fs)) [0..<unat (num_block_groups fs)]"

abbreviation table_sectors :: "ext2 \<Rightarrow> u32 set" where
  "table_sectors fs \<equiv> sectors (bgd_offset fs div SD_SECTOR_SIZE_BYTES) (bgd_table_sectors (num_block_groups fs))"

text \<open>The metadata regions do not overlap.\<close>

definition layout_ok :: "ext2 \<Rightarrow> bool" where
  "layout_ok fs \<longleftrightarrow> distinct (bitmap_blocks fs) \<and> sectors 2 2 \<inter> table_sectors fs = {}
     \<and> (\<forall>b \<in> set (bitmap_blocks fs). block_valid (ext2_get_block_size fs) b
          \<and> block_sectors (ext2_get_block_size fs) b \<inter> (sectors 2 2 \<union> table_sectors fs) = {})"

text \<open>What is on the drive is what is in memory.\<close>

definition fs_synced :: "ext2 \<Rightarrow> bool" where
  "fs_synced fs \<longleftrightarrow> layout_ok fs
     \<and> snd (sd_read_blocks (fs_drive fs) 2 2) = superblock fs
     \<and> snd (sd_read_blocks (fs_drive fs) (bgd_offset fs div SD_SECTOR_SIZE_BYTES) (bgd_table_sectors (num_block_groups fs)))
         = bgd_table fs
     \<and> (\<forall>g < unat (num_block_groups fs).
          drive_block (ext2_get_block_size fs) (fs_drive fs) (bgd_block_bitmap g (bgd_table fs)) = block_bitmaps fs ! g
        \<and> drive_block (ext2_get_block_size fs) (fs_drive fs) (bgd_inode_bitmap g (bgd_table fs)) = inode_bitmaps fs ! g)"

lemma bitmap_blocks_meta:
  "b \<in> set (bitmap_blocks fs) \<Longrightarrow> block_sectors (ext2_get_block_size fs) b \<subseteq> meta_sectors fs"
  by (auto simp: bitmap_blocks_def meta_sectors_def)

lemma same_shape_layout: "same_shape fs fs' \<Longrightarrow> layout_ok fs' = layout_ok fs"
proof -
  assume s: "same_shape fs fs'"
  have "bitmap_blocks fs' = bitmap_blocks fs" using s by (auto simp: bitmap_blocks_def same_shape_def)
  then show ?thesis using same_shapeD[OF s] by (simp add: layout_ok_def)
qed

lemma block_sectors_disjoint:
  assumes "block_size_ok bs" "block_valid bs b" "block_valid bs b'" "b \<noteq> b'"
  shows "block_sectors bs b \<inter> block_sectors bs b' = {}"
proof -
  have False if s: "s - block_sector bs b < bs div SD_SECTOR_SIZE_BYTES" "s - block_sector bs b' < bs div SD_SECTOR_SIZE_BYTES" for s
  proof -
    define k where "k = unat (s - block_sector bs b')"
    have k: "k < unat bs div 512" using s(2) by (simp add: k_def word_less_nat_alt unat_block_sectors)
    have "s = block_sector bs b' + of_nat k" by (simp add: k_def)
    then show False using sector_offset(1)[OF assms(1,2,3) k] s(1) assms(4) by simp
  qed
  then show ?thesis by (auto simp: block_sectors_def sectors_def)
qed

lemma fs_write_sectors_ok:
  assumes "drive_ok (fs_drive fs)" "length src = 512 * unat n"
  shows "fs_write_sectors st n src fs = Some (fs\<lparr>fs_drive := snd (sd_write_blocks (fs_drive fs) st n src)\<rparr>)"
  using drive_ok_sd_write[OF assms, of st] by (simp add: fs_write_sectors_def case_prod_beta)

lemma flush_metadata_spec:
  assumes d: "drive_ok (fs_drive fs)" and geo: "geometry_ok fs" and b: "b \<in> set (bitmap_blocks fs)"
    and bm: "length bm = unat (ext2_get_block_size fs)"
  shows "\<exists>d'. flush_metadata b bm fs = Some (fs\<lparr>fs_drive := d'\<rparr>) \<and> drive_ok d'
    \<and> agree_outside (meta_sectors fs) (fs_drive fs) d'
    \<and> (layout_ok fs \<longrightarrow> snd (sd_read_blocks d' 2 2) = superblock fs
        \<and> snd (sd_read_blocks d' (bgd_offset fs div SD_SECTOR_SIZE_BYTES) (bgd_table_sectors (num_block_groups fs))) = bgd_table fs
        \<and> (\<forall>b' \<in> set (bitmap_blocks fs). drive_block (ext2_get_block_size fs) d' b' =
              (if b' = b then bm else drive_block (ext2_get_block_size fs) (fs_drive fs) b')))"
proof -
  let ?bs = "ext2_get_block_size fs" and ?t = "bgd_offset fs div SD_SECTOR_SIZE_BYTES"
  let ?n = "bgd_table_sectors (num_block_groups fs)"
  have bs: "block_size_ok ?bs" and len: "length (superblock fs) = 512 * unat (2 :: u32)" "length (bgd_table fs) = 512 * unat ?n"
    using geo by (auto simp: geometry_ok_def)
  have lb: "length bm = 512 * unat (?bs div SD_SECTOR_SIZE_BYTES)"
    using bm bs by (simp add: unat_block_sectors block_size_ok_def)
  define d1 where "d1 = snd (sd_write_blocks (fs_drive fs) ?t ?n (bgd_table fs))"
  define d2 where "d2 = snd (sd_write_blocks d1 2 2 (superblock fs))"
  define d3 where "d3 = snd (sd_write_blocks d2 (block_sector ?bs b) (?bs div SD_SECTOR_SIZE_BYTES) bm)"
  have ok1: "drive_ok d1" unfolding d1_def by (rule drive_ok_sd_write(1)[OF d len(2)])
  have ok2: "drive_ok d2" unfolding d2_def by (rule drive_ok_sd_write(1)[OF ok1 len(1)])
  have ok3: "drive_ok d3" unfolding d3_def by (rule drive_ok_sd_write(1)[OF ok2 lb])
  have fl: "flush_metadata b bm fs = Some (fs\<lparr>fs_drive := d3\<rparr>)"
    using d ok1 ok2 len lb
    by (simp del: sd_write_block add: flush_metadata_def ext2_write_bgd_table_def ext2_write_superblock_def write_bitmap_def
      fs_write_sectors_ok d1_def[symmetric] d2_def[symmetric] ext2_get_block_size_def d3_def)
  have ag: "agree_outside (sectors ?t ?n) (fs_drive fs) d1" "agree_outside (sectors 2 2) d1 d2"
    "agree_outside (block_sectors ?bs b) d2 d3"
    unfolding d1_def d2_def d3_def block_sectors_def by (rule agree_write)+
  have "agree_outside (meta_sectors fs) (fs_drive fs) d3"
    by (rule agree_outside_mono[OF agree_outside_trans[OF agree_outside_trans[OF ag(1,2)] ag(3)]])
      (use bitmap_blocks_meta[OF b] in \<open>auto simp: meta_sectors_def\<close>)
  moreover {
    assume lay: "layout_ok fs"
    have L: "distinct (bitmap_blocks fs)" "sectors 2 2 \<inter> sectors ?t ?n = {}"
      "\<And>b. b \<in> set (bitmap_blocks fs) \<Longrightarrow> block_valid ?bs b \<and> block_sectors ?bs b \<inter> (sectors 2 2 \<union> sectors ?t ?n) = {}"
      using lay by (auto simp: layout_ok_def)
    have r2: "snd (sd_read_blocks d3 2 2) = superblock fs"
      using agree_read[OF ag(3), of 2 2] L(3)[OF b] sd_read_written[OF len(1), of d1 2] by (auto simp: d2_def)
    have "snd (sd_read_blocks d3 ?t ?n) = snd (sd_read_blocks d2 ?t ?n)" using agree_read[OF ag(3), of ?t ?n] L(3)[OF b] by auto
    also have "\<dots> = snd (sd_read_blocks d1 ?t ?n)" using agree_read[OF ag(2), of ?t ?n] L(2) by auto
    also have "\<dots> = bgd_table fs" using sd_read_written[OF len(2)] by (simp add: d1_def)
    finally have rt: "snd (sd_read_blocks d3 ?t ?n) = bgd_table fs" .
    have "drive_block ?bs d3 b' = (if b' = b then bm else drive_block ?bs (fs_drive fs) b')"
      if b': "b' \<in> set (bitmap_blocks fs)" for b'
    proof (cases "b' = b")
      case True
      then show ?thesis using sd_read_written[OF lb] by (simp del: sd_read_block sd_write_block add: drive_block_def d3_def)
    next
      case False
      have "drive_block ?bs d3 b' = drive_block ?bs d2 b'"
        by (rule agree_drive_block[OF ag(3)]) (use block_sectors_disjoint[OF bs, of b' b] L(3) b b' False in auto)
      also have "\<dots> = drive_block ?bs (fs_drive fs) b'"
        by (rule agree_drive_block[OF agree_outside_trans[OF ag(1,2)]]) (use L(3)[OF b'] in auto)
      finally show ?thesis using False by simp
    qed
    with r2 rt have "snd (sd_read_blocks d3 2 2) = superblock fs \<and> snd (sd_read_blocks d3 ?t ?n) = bgd_table fs
      \<and> (\<forall>b' \<in> set (bitmap_blocks fs). drive_block ?bs d3 b' = (if b' = b then bm else drive_block ?bs (fs_drive fs) b'))"
      by blast }
  ultimately show ?thesis using fl ok3 by blast
qed

section \<open>Numbers of blocks and inodes\<close>

lemma geometry_groups:
  assumes "geometry_ok fs" "g < unat (num_block_groups fs)"
  shows "l < unat (sb_blocks_per_group (superblock fs)) \<Longrightarrow>
      unat (block_at fs g l) = unat (sb_first_data_block (superblock fs)) + g * unat (sb_blocks_per_group (superblock fs)) + l"
    and "l < unat (sb_inodes_per_group (superblock fs)) \<Longrightarrow>
      unat (inumber_at fs g l) = g * unat (sb_inodes_per_group (superblock fs)) + 1 + l"
proof -
  have lim: "unat (sb_first_data_block (superblock fs)) + unat (num_block_groups fs) * unat (sb_blocks_per_group (superblock fs)) < 4294967295"
    "unat (num_block_groups fs) * unat (sb_inodes_per_group (superblock fs)) < 4294967295"
    using assms(1) by (auto simp: geometry_ok_def)
  have step: "g * m + m \<le> unat (num_block_groups fs) * m" for m
    using assms(2) by (metis Suc_leI mult_Suc add.commute mult_le_mono1)
  show "unat (block_at fs g l) = unat (sb_first_data_block (superblock fs)) + g * unat (sb_blocks_per_group (superblock fs)) + l"
    if "l < unat (sb_blocks_per_group (superblock fs))"
  proof -
    let ?x = "unat (sb_first_data_block (superblock fs)) + g * unat (sb_blocks_per_group (superblock fs)) + l"
    have "block_at fs g l = of_nat ?x" by (simp add: block_at_def ext2_block_group_start_def)
    moreover have "?x < 4294967296" using that lim(1) step[of "unat (sb_blocks_per_group (superblock fs))"] by linarith
    ultimately show ?thesis using unat_of_nat_u32 by metis
  qed
  show "unat (inumber_at fs g l) = g * unat (sb_inodes_per_group (superblock fs)) + 1 + l"
    if "l < unat (sb_inodes_per_group (superblock fs))"
  proof -
    let ?x = "g * unat (sb_inodes_per_group (superblock fs)) + 1 + l"
    have "inumber_at fs g l = of_nat ?x" by (simp add: inumber_at_def)
    moreover have "?x < 4294967296" using that lim(2) step[of "unat (sb_inodes_per_group (superblock fs))"] by linarith
    ultimately show ?thesis using unat_of_nat_u32 by metis
  qed
qed

lemma block_at_not_none:
  assumes "geometry_ok fs" "g < unat (num_block_groups fs)" "l < unat (sb_blocks_per_group (superblock fs))"
  shows "block_at fs g l \<noteq> - 1"
proof
  assume "block_at fs g l = - 1"
  then have "unat (sb_first_data_block (superblock fs)) + g * unat (sb_blocks_per_group (superblock fs)) + l = 4294967295"
    using geometry_groups(1)[OF assms] by simp
  moreover have "g * unat (sb_blocks_per_group (superblock fs)) + unat (sb_blocks_per_group (superblock fs))
      \<le> unat (num_block_groups fs) * unat (sb_blocks_per_group (superblock fs))"
    using assms(2) by (metis Suc_leI mult_Suc add.commute mult_le_mono1)
  ultimately show False using assms(1,3) by (auto simp: geometry_ok_def)
qed

lemma group_local_unique:
  "l < m \<Longrightarrow> l' < m \<Longrightarrow> g * m + l = g' * m + l' \<Longrightarrow> g = g' \<and> l = (l' :: nat)"
  by (metis add.commute div_mult_self3 mod_less mod_mult_self3 div_less add_cancel_right_left less_nat_zero_code mult.commute)

lemma block_at_inject:
  assumes "geometry_ok fs" "g < unat (num_block_groups fs)" "g' < unat (num_block_groups fs)"
    "l < unat (sb_blocks_per_group (superblock fs))" "l' < unat (sb_blocks_per_group (superblock fs))"
  shows "block_at fs g l = block_at fs g' l' \<longleftrightarrow> g = g' \<and> l = l'"
proof
  assume "block_at fs g l = block_at fs g' l'"
  then have "unat (block_at fs g l) = unat (block_at fs g' l')" by simp
  then show "g = g' \<and> l = l'"
    using geometry_groups(1)[OF assms(1,2,4)] geometry_groups(1)[OF assms(1,3,5)] group_local_unique[OF assms(4,5), of g g'] by simp
qed simp

lemma inumber_at_inject:
  assumes "geometry_ok fs" "g < unat (num_block_groups fs)" "g' < unat (num_block_groups fs)"
    "l < unat (sb_inodes_per_group (superblock fs))" "l' < unat (sb_inodes_per_group (superblock fs))"
  shows "inumber_at fs g l = inumber_at fs g' l' \<longleftrightarrow> g = g' \<and> l = l'"
proof
  assume "inumber_at fs g l = inumber_at fs g' l'"
  then have "unat (inumber_at fs g l) = unat (inumber_at fs g' l')" by simp
  then show "g = g' \<and> l = l'"
    using geometry_groups(2)[OF assms(1,2,4)] geometry_groups(2)[OF assms(1,3,5)] group_local_unique[OF assms(4,5), of g g'] by simp
qed simp

lemma bitmap_bytes_cover:
  assumes "unat n < 65536"
  shows "unat n \<le> 8 * unat (ext2_bitmap_bytes n)"
proof -
  have "unat (n + 7) = unat n + 7" using unat_add_u32[of n 7] assms by simp
  then show ?thesis by (simp add: ext2_bitmap_bytes_def unat_div)
qed

lemma free_count_set:
  assumes "l < n" "l < 8 * length bm" "\<not> bitmap_test bm l"
  shows "free_count n bm = Suc (free_count n (bitmap_set bm l))"
proof -
  have "{k. k < n \<and> \<not> bitmap_test bm k} = insert l {k. k < n \<and> \<not> bitmap_test (bitmap_set bm l) k}"
    using assms by (auto simp: bitmap_test_set)
  moreover have "l \<notin> {k. k < n \<and> \<not> bitmap_test (bitmap_set bm l) k}" using assms(2) by (simp add: bitmap_test_set)
  ultimately show ?thesis by (simp add: free_count_def)
qed

lemma free_count_clear:
  assumes "l < n" "l < 8 * length bm" "bitmap_test bm l"
  shows "free_count n (bitmap_clear bm l) = Suc (free_count n bm)"
proof -
  have "{k. k < n \<and> \<not> bitmap_test (bitmap_clear bm l) k} = insert l {k. k < n \<and> \<not> bitmap_test bm k}"
    using assms by (auto simp: bitmap_test_clear)
  then show ?thesis using assms(3) by (simp add: free_count_def)
qed

lemma free_count_le: "free_count n bm \<le> n"
proof -
  have "free_count n bm \<le> card {..<n}" unfolding free_count_def by (rule card_mono) auto
  then show ?thesis by simp
qed

lemma free_count_pos: "0 < free_count n bm \<longleftrightarrow> (\<exists>l < n. \<not> bitmap_test bm l)"
  by (auto simp: free_count_def card_gt_0_iff)

section \<open>Taking and giving back one entry\<close>

text \<open>One bit of a bitmap flips and the group's counter follows.\<close>

definition entry_flip :: "bytes \<Rightarrow> nat \<Rightarrow> u16 \<Rightarrow> bytes \<Rightarrow> u16 \<Rightarrow> bool" where
  "entry_flip bm l cnt bm' cnt' \<longleftrightarrow> \<not> bitmap_test bm l \<and> bm' = bitmap_set bm l \<and> cnt' = cnt - 1
     \<or> bitmap_test bm l \<and> bm' = bitmap_clear bm l \<and> cnt' = cnt + 1"

lemma entry_flip_count:
  assumes "entry_flip bm l cnt bm' cnt'" "l < n" "n \<le> 8 * length bm" "n < 65536" "unat cnt = free_count n bm"
  shows "length bm' = length bm" "unat cnt' = free_count n bm'" "bitmap_test bm' k \<longleftrightarrow> bitmap_test bm k \<noteq> (k = l)"
proof -
  have l: "l < 8 * length bm" using assms(2,3) by linarith
  show "length bm' = length bm" "bitmap_test bm' k \<longleftrightarrow> bitmap_test bm k \<noteq> (k = l)"
    using assms(1) l by (auto simp: entry_flip_def bitmap_test_set bitmap_test_clear)
  show "unat cnt' = free_count n bm'"
  proof (cases "bitmap_test bm l")
    case True
    then have "free_count n bm' = Suc (unat cnt)" "bm' = bitmap_clear bm l" "cnt' = cnt + 1"
      using free_count_clear[OF assms(2) l] assms(1,5) by (auto simp: entry_flip_def)
    moreover from this have "unat cnt < 65535" using free_count_le[of n bm'] assms(4) by linarith
    then have "cnt \<noteq> - 1" by (auto simp: unsigned_minus_1_eq_mask mask_eq_exp_minus_1)
    ultimately show ?thesis by (simp add: unat_plus_one)
  next
    case False
    then have "unat cnt = Suc (free_count n bm')" "cnt' = cnt - 1"
      using free_count_set[OF assms(2) l] assms(1,5) by (auto simp: entry_flip_def)
    then show ?thesis by (subst \<open>cnt' = cnt - 1\<close>, subst unat_minus_one) auto
  qed
qed

lemma meta_invD:
  assumes "meta_inv fs"
  shows "geometry_ok fs" "length (block_bitmaps fs) = unat (num_block_groups fs)"
    "length (inode_bitmaps fs) = unat (num_block_groups fs)"
    "\<And>g. g < unat (num_block_groups fs) \<Longrightarrow> length (block_bitmaps fs ! g) = unat (ext2_get_block_size fs)"
    "\<And>g. g < unat (num_block_groups fs) \<Longrightarrow> length (inode_bitmaps fs ! g) = unat (ext2_get_block_size fs)"
    "\<And>g. g < unat (num_block_groups fs) \<Longrightarrow> unat (bgd_free_blocks_count g (bgd_table fs)) =
       free_count (unat (sb_blocks_per_group (superblock fs))) (block_bitmaps fs ! g)"
    "\<And>g. g < unat (num_block_groups fs) \<Longrightarrow> unat (bgd_free_inodes_count g (bgd_table fs)) =
       free_count (unat (sb_inodes_per_group (superblock fs))) (inode_bitmaps fs ! g)"
  using assms unfolding meta_inv_def by blast+

lemma geometryD:
  assumes "geometry_ok fs"
  shows "block_size_ok (ext2_get_block_size fs)" "length (superblock fs) = 1024"
    "32 * unat (num_block_groups fs) \<le> length (bgd_table fs)"
    "unat (sb_blocks_per_group (superblock fs)) \<le> 8 * unat (ext2_get_block_size fs)"
    "unat (sb_inodes_per_group (superblock fs)) \<le> 8 * unat (ext2_get_block_size fs)"
    "unat (sb_blocks_per_group (superblock fs)) < 65536" "unat (sb_inodes_per_group (superblock fs)) < 65536"
    "sb_blocks_per_group (superblock fs) \<noteq> 0" "sb_inodes_per_group (superblock fs) \<noteq> 0"
  using assms unfolding geometry_ok_def by blast+

lemma free_blocks_iff:
  assumes "geometry_ok fs" "g < unat (num_block_groups fs)" "l < unat (sb_blocks_per_group (superblock fs))"
  shows "block_at fs g l \<in> free_blocks fs \<longleftrightarrow> \<not> bitmap_test (block_bitmaps fs ! g) l"
  unfolding free_blocks_def mem_Collect_eq using block_at_inject[OF assms(1,2) _ assms(3)] assms(2,3) by blast

lemma free_inumbers_iff:
  assumes "geometry_ok fs" "g < unat (num_block_groups fs)" "l < unat (sb_inodes_per_group (superblock fs))"
  shows "inumber_at fs g l \<in> free_inumbers fs \<longleftrightarrow> \<not> bitmap_test (inode_bitmaps fs ! g) l"
  unfolding free_inumbers_def mem_Collect_eq using inumber_at_inject[OF assms(1,2) _ assms(3)] assms(2,3) by blast

lemma same_shapeI:
  assumes "geometry_ok fs" "g < unat (num_block_groups fs)" "num_block_groups fs1 = num_block_groups fs" "bgd_offset fs1 = bgd_offset fs"
    "inode_lock fs1 = inode_lock fs" "initialized fs1 = initialized fs"
    and t: "bgd_table fs1 = f (bgd_table fs)"
      "f = set_bgd_free_blocks_count g v \<or> f = set_bgd_free_inodes_count g v \<or> f = set_bgd_used_dirs_count g v"
    and s: "superblock fs1 = superblock fs \<or> superblock fs1 = h (superblock fs)"
      "h = set_sb_free_blocks_count w \<or> h = set_sb_free_inodes_count w"
  shows "same_shape fs fs1"
  unfolding same_shape_def
  using assms(1-6) t(1) s(1) geometryD(2)[OF assms(1)] set_sb_fields[OF geometryD(2)[OF assms(1)] s(2)]
    set_bgd_fields[OF geometryD(3)[OF assms(1)] assms(2) _ t(2)] by auto

lemma flip_block:
  assumes inv: "meta_inv fs" and g: "g < unat (num_block_groups fs)" and l: "l < unat (sb_blocks_per_group (superblock fs))"
    and flip: "entry_flip (block_bitmaps fs ! g) l (bgd_free_blocks_count g (bgd_table fs)) bm' cnt'"
    and fs1: "fs1 = fs\<lparr>bgd_table := set_bgd_free_blocks_count g cnt' (bgd_table fs),
        superblock := set_sb_free_blocks_count w (superblock fs), block_bitmaps := (block_bitmaps fs)[g := bm']\<rparr>"
  shows "meta_inv fs1" "same_shape fs fs1" "free_inumbers fs1 = free_inumbers fs"
    "free_blocks fs1 = (if bitmap_test (block_bitmaps fs ! g) l then insert (block_at fs g l) (free_blocks fs)
       else free_blocks fs - {block_at fs g l})"
proof -
  note M = meta_invD[OF inv] and G = geometryD[OF meta_invD(1)[OF inv]]
  note E = entry_flip_count[OF flip l _ G(6) M(6)[OF g], unfolded M(4)[OF g], OF G(4)]
  show sh: "same_shape fs fs1"
    by (rule same_shapeI[OF M(1) g, where f = "set_bgd_free_blocks_count g cnt'" and v = cnt'
      and h = "set_sb_free_blocks_count w" and w = w]) (simp_all add: fs1)
  note S = same_shapeD[OF sh]
  have bb: "block_bitmaps fs1 ! h = (if h = g then bm' else block_bitmaps fs ! h)" if "h < unat (num_block_groups fs)" for h
    using M(2) g by (simp add: fs1)
  show "meta_inv fs1"
    unfolding meta_inv_def S using M E bb set_bgd_counts[OF G(3) g] by (auto simp: fs1)
  show "free_inumbers fs1 = free_inumbers fs" unfolding free_inumbers_def S by (simp add: fs1)
  have key: "block_at fs h k \<in> free_blocks fs1 \<longleftrightarrow> \<not> bitmap_test (block_bitmaps fs1 ! h) k"
    "block_at fs h k \<in> free_blocks fs \<longleftrightarrow> \<not> bitmap_test (block_bitmaps fs ! h) k"
    if "h < unat (num_block_groups fs)" "k < unat (sb_blocks_per_group (superblock fs))" for h k
    using free_blocks_iff[of fs h k] free_blocks_iff[of fs1 h k] that M(1) by (simp_all add: S)
  have dom: "\<exists>h k. b = block_at fs h k \<and> h < unat (num_block_groups fs) \<and> k < unat (sb_blocks_per_group (superblock fs))"
    if "b \<in> free_blocks fs1 \<union> free_blocks fs \<union> {block_at fs g l}" for b
    using that g l unfolding free_blocks_def S by auto
  show "free_blocks fs1 = (if bitmap_test (block_bitmaps fs ! g) l then insert (block_at fs g l) (free_blocks fs)
       else free_blocks fs - {block_at fs g l})" (is "_ = ?R")
  proof (rule set_eqI)
    fix b show "b \<in> free_blocks fs1 \<longleftrightarrow> b \<in> ?R"
    proof (cases "b \<in> free_blocks fs1 \<union> free_blocks fs \<union> {block_at fs g l}")
      case True
      then obtain h k where hk: "b = block_at fs h k" "h < unat (num_block_groups fs)" "k < unat (sb_blocks_per_group (superblock fs))"
        using dom by blast
      show ?thesis using key[OF hk(2,3)] bb[OF hk(2)] E(3)[of k] block_at_inject[OF M(1) hk(2) g hk(3) l] unfolding hk(1) by auto
    qed auto
  qed
qed

lemma flip_inode:
  assumes inv: "meta_inv fs" and g: "g < unat (num_block_groups fs)" and l: "l < unat (sb_inodes_per_group (superblock fs))"
    and flip: "entry_flip (inode_bitmaps fs ! g) l (bgd_free_inodes_count g (bgd_table fs)) bm' cnt'"
    and fs1: "fs1 = fs\<lparr>bgd_table := set_bgd_free_inodes_count g cnt' (bgd_table fs),
        superblock := set_sb_free_inodes_count w (superblock fs), inode_bitmaps := (inode_bitmaps fs)[g := bm']\<rparr>"
  shows "meta_inv fs1" "same_shape fs fs1" "free_blocks fs1 = free_blocks fs"
    "free_inumbers fs1 = (if bitmap_test (inode_bitmaps fs ! g) l then insert (inumber_at fs g l) (free_inumbers fs)
       else free_inumbers fs - {inumber_at fs g l})"
proof -
  note M = meta_invD[OF inv] and G = geometryD[OF meta_invD(1)[OF inv]]
  note E = entry_flip_count[OF flip l _ G(7) M(7)[OF g], unfolded M(5)[OF g], OF G(5)]
  show sh: "same_shape fs fs1"
    by (rule same_shapeI[OF M(1) g, where f = "set_bgd_free_inodes_count g cnt'" and v = cnt'
      and h = "set_sb_free_inodes_count w" and w = w]) (simp_all add: fs1)
  note S = same_shapeD[OF sh]
  have bb: "inode_bitmaps fs1 ! h = (if h = g then bm' else inode_bitmaps fs ! h)" if "h < unat (num_block_groups fs)" for h
    using M(3) g by (simp add: fs1)
  show "meta_inv fs1"
    unfolding meta_inv_def S using M E bb set_bgd_counts[OF G(3) g] by (auto simp: fs1)
  show "free_blocks fs1 = free_blocks fs" unfolding free_blocks_def S by (simp add: fs1)
  have key: "inumber_at fs h k \<in> free_inumbers fs1 \<longleftrightarrow> \<not> bitmap_test (inode_bitmaps fs1 ! h) k"
    "inumber_at fs h k \<in> free_inumbers fs \<longleftrightarrow> \<not> bitmap_test (inode_bitmaps fs ! h) k"
    if "h < unat (num_block_groups fs)" "k < unat (sb_inodes_per_group (superblock fs))" for h k
    using free_inumbers_iff[of fs h k] free_inumbers_iff[of fs1 h k] that M(1) by (simp_all add: S)
  have dom: "\<exists>h k. b = inumber_at fs h k \<and> h < unat (num_block_groups fs) \<and> k < unat (sb_inodes_per_group (superblock fs))"
    if "b \<in> free_inumbers fs1 \<union> free_inumbers fs \<union> {inumber_at fs g l}" for b
    using that g l unfolding free_inumbers_def S by auto
  show "free_inumbers fs1 = (if bitmap_test (inode_bitmaps fs ! g) l then insert (inumber_at fs g l) (free_inumbers fs)
       else free_inumbers fs - {inumber_at fs g l})" (is "_ = ?R")
  proof (rule set_eqI)
    fix b show "b \<in> free_inumbers fs1 \<longleftrightarrow> b \<in> ?R"
    proof (cases "b \<in> free_inumbers fs1 \<union> free_inumbers fs \<union> {inumber_at fs g l}")
      case True
      then obtain h k where hk: "b = inumber_at fs h k" "h < unat (num_block_groups fs)" "k < unat (sb_inodes_per_group (superblock fs))"
        using dom by blast
      show ?thesis using key[OF hk(2,3)] bb[OF hk(2)] E(3)[of k] inumber_at_inject[OF M(1) hk(2) g hk(3) l] unfolding hk(1) by auto
    qed auto
  qed
qed

section \<open>Blocks through the cache\<close>

lemma cache_ok_agree:
  assumes c: "cache_ok fs" and sh: "same_shape fs fs'" and "fs_bcache fs' = fs_bcache fs" "drive_ok (fs_drive fs')"
    and ag: "agree_outside (meta_sectors fs) (fs_drive fs) (fs_drive fs')"
  shows "cache_ok fs'" "data_block fs b \<Longrightarrow> fs_block fs' b = fs_block fs b"
proof -
  note S = same_shapeD[OF sh]
  have same: "drive_block (ext2_get_block_size fs) (fs_drive fs') b = drive_block (ext2_get_block_size fs) (fs_drive fs) b"
    if "data_block fs b" for b
    by (rule agree_drive_block[OF ag]) (use that in \<open>auto simp: data_block_def\<close>)
  then show "data_block fs b \<Longrightarrow> fs_block fs' b = fs_block fs b" by (simp add: fs_block_def S)
  have "bcache_inv (fs_bcache fs) (fs_drive fs')"
    by (rule bcache_inv_agree[of _ "fs_drive fs"]) (use c assms(4) same bcache_invD(4) in \<open>auto simp: cache_ok_def file_block_def\<close>)
  then show "cache_ok fs'" using c assms(3) by (simp add: cache_ok_def S)
qed

lemma data_block_update [simp]:
  "data_block (fs\<lparr>fs_bcache := c\<rparr>) = data_block fs" "data_block (fs\<lparr>fs_bcache := c, fs_drive := d\<rparr>) = data_block fs"
  "data_block (fs\<lparr>fs_drive := d\<rparr>) = data_block fs" "data_block (fs\<lparr>metadata_lock := l\<rparr>) = data_block fs"
  by (auto simp: data_block_def meta_sectors_def ext2_get_block_size_def fun_eq_iff)

lemma file_block_update [simp]:
  "file_block (fs\<lparr>fs_bcache := c\<rparr>) = file_block fs" "file_block (fs\<lparr>fs_bcache := c, fs_drive := d\<rparr>) = file_block fs"
  "file_block (fs\<lparr>fs_drive := d\<rparr>) = file_block fs" "file_block (fs\<lparr>metadata_lock := l\<rparr>) = file_block fs"
  by (auto simp: file_block_def itable_blocks_def inode_block_at_def inodes_per_block_def ext2_get_block_size_def
    ext2_get_inode_size_def fun_eq_iff)

lemma block_size_update [simp]:
  "ext2_get_block_size (fs\<lparr>fs_bcache := c\<rparr>) = ext2_get_block_size fs"
  "ext2_get_block_size (fs\<lparr>fs_drive := d\<rparr>) = ext2_get_block_size fs"
  "ext2_get_block_size (fs\<lparr>metadata_lock := l\<rparr>) = ext2_get_block_size fs"
  by (auto simp: ext2_get_block_size_def)

lemma fs_bcache_get_spec:
  assumes c: "cache_ok fs" and b: "file_block fs b"
  shows "\<exists>c'. fs_bcache_get b fs = Some (fs_block fs b, fs\<lparr>fs_bcache := c'\<rparr>) \<and> cache_ok (fs\<lparr>fs_bcache := c'\<rparr>)"
proof -
  have inv: "bcache_inv (fs_bcache fs) (fs_drive fs)" "bc_block_size (fs_bcache fs) = ext2_get_block_size fs"
    "block_valid (bc_block_size (fs_bcache fs)) b" using c b by (auto simp: cache_ok_def file_block_def data_block_def)
  from bcache_get_spec[OF inv(1,3)] obtain c' where
    "bcache_get b (fs_bcache fs) (fs_drive fs) = Some (fs_block fs b, c')" "bcache_inv c' (fs_drive fs)"
    "bc_block_size c' = bc_block_size (fs_bcache fs)" "set (bc_tags c') \<subseteq> insert b (set (bc_tags (fs_bcache fs)))"
    unfolding fs_block_def inv(2) by blast
  then show ?thesis using c b inv(2) by (auto simp: fs_bcache_get_def cache_ok_def)
qed

lemma fs_bcache_set_spec:
  assumes c: "cache_ok fs" and b: "file_block fs b"
    and sz: "unat offset + unat sz \<le> unat (ext2_get_block_size fs)" "unat sz \<le> length src"
  shows "\<exists>c' d'. fs_bcache_set b src offset sz fs = Some (fs\<lparr>fs_bcache := c', fs_drive := d'\<rparr>)
    \<and> cache_ok (fs\<lparr>fs_bcache := c', fs_drive := d'\<rparr>)
    \<and> agree_outside (block_sectors (ext2_get_block_size fs) b) (fs_drive fs) d'
    \<and> (\<forall>b'. block_valid (ext2_get_block_size fs) b' \<longrightarrow> drive_block (ext2_get_block_size fs) d' b' =
         (if b' = b then patch (unat offset) (take (unat sz) src) (fs_block fs b) else fs_block fs b'))"
proof -
  let ?bs = "ext2_get_block_size fs"
  have inv: "bcache_inv (fs_bcache fs) (fs_drive fs)" "bc_block_size (fs_bcache fs) = ?bs" "block_valid ?bs b"
    using c b by (auto simp: cache_ok_def file_block_def data_block_def)
  define x where "x = patch (unat offset) (take (unat sz) src) (fs_block fs b)"
  note D = bcache_invD(1,2)[OF inv(1)]
  have xl: "length x = unat ?bs" using sz D inv(2) by (simp add: x_def fs_block_def)
  from bcache_set_spec[OF inv(1), of b offset sz src x] inv sz obtain c' where c':
    "bcache_set b src offset sz (fs_bcache fs) (fs_drive fs) = Some (c', write_block ?bs b x (fs_drive fs))"
    "bcache_inv c' (write_block ?bs b x (fs_drive fs))" "bc_block_size c' = ?bs"
    "set (bc_tags c') \<subseteq> insert b (set (bc_tags (fs_bcache fs)))"
    by (auto simp: x_def fs_block_def)
  have "agree_outside (block_sectors ?bs b) (fs_drive fs) (write_block ?bs b x (fs_drive fs))"
    unfolding write_block_def block_sectors_def by (rule agree_write)
  moreover have "drive_block ?bs (write_block ?bs b x (fs_drive fs)) b' = (if b' = b then x else fs_block fs b')"
    if "block_valid ?bs b'" for b'
    using drive_block_write[OF _ inv(3) that xl] D(2) inv(2) by (simp add: fs_block_def)
  ultimately show ?thesis using c' c b
    by (intro exI[of _ c'] exI[of _ "write_block ?bs b x (fs_drive fs)"])
      (auto simp: fs_bcache_set_def cache_ok_def x_def[symmetric])
qed

lemma fs_synced_flush:
  assumes sy: "fs_synced fs0" and sh: "same_shape fs0 fs1" and dr: "fs_drive fs1 = fs_drive fs0"
    and rd: "snd (sd_read_blocks d' 2 2) = superblock fs1"
      "snd (sd_read_blocks d' (bgd_offset fs1 div SD_SECTOR_SIZE_BYTES) (bgd_table_sectors (num_block_groups fs1))) = bgd_table fs1"
      "\<forall>b' \<in> set (bitmap_blocks fs1). drive_block (ext2_get_block_size fs1) d' b' =
              (if b' = b then bm else drive_block (ext2_get_block_size fs1) (fs_drive fs1) b')"
    and bm: "\<And>g. g < unat (num_block_groups fs0) \<Longrightarrow> block_bitmaps fs1 ! g =
         (if bgd_block_bitmap g (bgd_table fs0) = b then bm else block_bitmaps fs0 ! g)"
      "\<And>g. g < unat (num_block_groups fs0) \<Longrightarrow> inode_bitmaps fs1 ! g =
         (if bgd_inode_bitmap g (bgd_table fs0) = b then bm else inode_bitmaps fs0 ! g)"
  shows "fs_synced (fs1\<lparr>fs_drive := d'\<rparr>)"
proof -
  note S = same_shapeD[OF sh]
  have tb: "bgd_block_bitmap g (bgd_table fs1) = bgd_block_bitmap g (bgd_table fs0)"
    "bgd_inode_bitmap g (bgd_table fs1) = bgd_inode_bitmap g (bgd_table fs0)" if "g < unat (num_block_groups fs0)" for g
    using sh that by (auto simp: same_shape_def)
  have inb: "bgd_block_bitmap g (bgd_table fs1) \<in> set (bitmap_blocks fs1)" "bgd_inode_bitmap g (bgd_table fs1) \<in> set (bitmap_blocks fs1)"
    if "g < unat (num_block_groups fs0)" for g
    using that by (auto simp: bitmap_blocks_def S)
  have "layout_ok (fs1\<lparr>fs_drive := d'\<rparr>) = layout_ok fs1"
    by (simp add: layout_ok_def bitmap_blocks_def)
  moreover have "layout_ok fs1" using same_shape_layout[OF sh] sy by (simp add: fs_synced_def)
  moreover have "drive_block (ext2_get_block_size fs1) d' (bgd_block_bitmap g (bgd_table fs1)) = block_bitmaps fs1 ! g"
    "drive_block (ext2_get_block_size fs1) d' (bgd_inode_bitmap g (bgd_table fs1)) = inode_bitmaps fs1 ! g"
    if g: "g < unat (num_block_groups fs0)" for g
    using rd(3) inb[OF g] bm[OF g] tb[OF g] sy g by (auto simp: fs_synced_def dr S)
  ultimately show ?thesis using rd(1,2) by (simp add: fs_synced_def S)
qed

text \<open>Writing a data block leaves every copy of the metadata alone.\<close>

lemma fs_synced_data_write:
  assumes sy: "fs_synced fs" and b: "data_block fs b" and ag: "agree_outside (block_sectors (ext2_get_block_size fs) b) (fs_drive fs) d'"
  shows "fs_synced (fs\<lparr>fs_bcache := c, fs_drive := d'\<rparr>)"
proof -
  let ?bs = "ext2_get_block_size fs" and ?fs = "fs\<lparr>fs_bcache := c, fs_drive := d'\<rparr>"
  have bs: "ext2_get_block_size ?fs = ?bs" by (simp add: ext2_get_block_size_def)
  have dis: "M \<inter> block_sectors ?bs b = {}" if "M \<subseteq> meta_sectors fs" for M using b that by (auto simp: data_block_def)
  have bl: "drive_block ?bs d' b' = drive_block ?bs (fs_drive fs) b'" if "b' \<in> set (bitmap_blocks fs)" for b'
    by (rule agree_drive_block[OF ag dis[OF bitmap_blocks_meta[OF that]]])
  have rd: "snd (sd_read_blocks d' st n) = snd (sd_read_blocks (fs_drive fs) st n)" if "sectors st n \<subseteq> meta_sectors fs" for st n
    by (rule agree_read[OF ag dis[OF that]])
  have "snd (sd_read_blocks d' 2 2) = superblock fs"
    "snd (sd_read_blocks d' (bgd_offset fs div SD_SECTOR_SIZE_BYTES) (bgd_table_sectors (num_block_groups fs))) = bgd_table fs"
    using sy rd[of 2 2] rd[of "bgd_offset fs div SD_SECTOR_SIZE_BYTES" "bgd_table_sectors (num_block_groups fs)"]
    by (auto simp: fs_synced_def meta_sectors_def)
  moreover have "layout_ok ?fs" using sy by (simp add: fs_synced_def layout_ok_def bitmap_blocks_def bs)
  moreover have "bgd_block_bitmap g (bgd_table fs) \<in> set (bitmap_blocks fs)" "bgd_inode_bitmap g (bgd_table fs) \<in> set (bitmap_blocks fs)"
    if "g < unat (num_block_groups fs)" for g using that by (auto simp: bitmap_blocks_def)
  ultimately show ?thesis using sy bl by (simp add: fs_synced_def bs)
qed

section \<open>Allocating and releasing a block\<close>

definition keeps_data :: "ext2 \<Rightarrow> ext2 \<Rightarrow> bool" where
  "keeps_data fs fs' \<longleftrightarrow> (\<forall>b. data_block fs b \<longrightarrow> fs_block fs' b = fs_block fs b)"

text \<open>The part shared by all four operations: metadata changed in memory, then written back.\<close>

lemma flush_step:
  assumes fs: "cache_ok fs" and sh: "same_shape fs fs1" and same: "fs_bcache fs1 = fs_bcache fs" "fs_drive fs1 = fs_drive fs"
    and meta: "meta_inv fs1" and b: "b \<in> set (bitmap_blocks fs1)" and bm: "length bm = unat (ext2_get_block_size fs1)"
  shows "\<exists>d'. flush_metadata b bm fs1 = Some (fs1\<lparr>fs_drive := d'\<rparr>) \<and> cache_ok (fs1\<lparr>fs_drive := d'\<rparr>)
    \<and> same_shape fs (fs1\<lparr>fs_drive := d'\<rparr>) \<and> meta_inv (fs1\<lparr>fs_drive := d'\<rparr>) \<and> keeps_data fs (fs1\<lparr>fs_drive := d'\<rparr>)
    \<and> free_blocks (fs1\<lparr>fs_drive := d'\<rparr>) = free_blocks fs1 \<and> free_inumbers (fs1\<lparr>fs_drive := d'\<rparr>) = free_inumbers fs1
    \<and> (fs_synced fs \<longrightarrow>
        (\<forall>g < unat (num_block_groups fs). block_bitmaps fs1 ! g =
           (if bgd_block_bitmap g (bgd_table fs) = b then bm else block_bitmaps fs ! g)) \<longrightarrow>
        (\<forall>g < unat (num_block_groups fs). inode_bitmaps fs1 ! g =
           (if bgd_inode_bitmap g (bgd_table fs) = b then bm else inode_bitmaps fs ! g)) \<longrightarrow>
        fs_synced (fs1\<lparr>fs_drive := d'\<rparr>))"
proof -
  have d: "drive_ok (fs_drive fs1)" using fs same(2) by (simp add: cache_ok_def bcache_inv_def)
  obtain d' where f: "flush_metadata b bm fs1 = Some (fs1\<lparr>fs_drive := d'\<rparr>)" "drive_ok d'"
    "agree_outside (meta_sectors fs1) (fs_drive fs1) d'"
    "layout_ok fs1 \<longrightarrow> snd (sd_read_blocks d' 2 2) = superblock fs1
        \<and> snd (sd_read_blocks d' (bgd_offset fs1 div SD_SECTOR_SIZE_BYTES) (bgd_table_sectors (num_block_groups fs1))) = bgd_table fs1
        \<and> (\<forall>b' \<in> set (bitmap_blocks fs1). drive_block (ext2_get_block_size fs1) d' b' =
              (if b' = b then bm else drive_block (ext2_get_block_size fs1) (fs_drive fs1) b'))"
    using flush_metadata_spec[OF d meta_invD(1)[OF meta] b bm] by blast
  let ?fs = "fs1\<lparr>fs_drive := d'\<rparr>"
  have sh1: "same_shape fs ?fs" using sh by (simp add: same_shape_def)
  note S = same_shapeD[OF sh]
  have "agree_outside (meta_sectors fs) (fs_drive fs) (fs_drive ?fs)" using f(3) by (simp add: S same(2))
  from cache_ok_agree[OF fs sh1 _ _ this] have c: "cache_ok ?fs" and k: "keeps_data fs ?fs"
    using same(1) f(2) by (auto simp: keeps_data_def)
  have m: "meta_inv ?fs" using meta by (simp add: meta_inv_def geometry_ok_def)
  have fb: "free_blocks ?fs = free_blocks fs1" "free_inumbers ?fs = free_inumbers fs1"
    by (simp_all add: free_blocks_def free_inumbers_def block_at_def inumber_at_def ext2_block_group_start_def)
  have sy: "fs_synced ?fs" if "fs_synced fs"
    "\<forall>g < unat (num_block_groups fs). block_bitmaps fs1 ! g = (if bgd_block_bitmap g (bgd_table fs) = b then bm else block_bitmaps fs ! g)"
    "\<forall>g < unat (num_block_groups fs). inode_bitmaps fs1 ! g = (if bgd_inode_bitmap g (bgd_table fs) = b then bm else inode_bitmaps fs ! g)"
  proof -
    have "layout_ok fs1" using same_shape_layout[OF sh] that(1) by (simp add: fs_synced_def)
    then show ?thesis using f(4) that(2,3) by (intro fs_synced_flush[OF that(1) sh same(2)]) auto
  qed
  show ?thesis using f(1) c sh1 m k fb sy by blast
qed

lemma bitmap_block_unique:
  assumes "layout_ok fs" "g < unat (num_block_groups fs)" "i < unat (num_block_groups fs)"
  shows "bgd_block_bitmap g (bgd_table fs) = bgd_block_bitmap i (bgd_table fs) \<longleftrightarrow> g = i"
    "bgd_inode_bitmap g (bgd_table fs) = bgd_inode_bitmap i (bgd_table fs) \<longleftrightarrow> g = i"
    "bgd_inode_bitmap g (bgd_table fs) \<noteq> bgd_block_bitmap i (bgd_table fs)"
    "bgd_block_bitmap g (bgd_table fs) \<noteq> bgd_inode_bitmap i (bgd_table fs)"
proof -
  let ?n = "unat (num_block_groups fs)"
  let ?f = "\<lambda>i. bgd_block_bitmap i (bgd_table fs)" and ?h = "\<lambda>i. bgd_inode_bitmap i (bgd_table fs)"
  have d: "distinct (map ?f [0..<?n])" "distinct (map ?h [0..<?n])" "set (map ?f [0..<?n]) \<inter> set (map ?h [0..<?n]) = {}"
    using assms(1) by (auto simp: layout_ok_def bitmap_blocks_def)
  show "?f g = ?f i \<longleftrightarrow> g = i" "?h g = ?h i \<longleftrightarrow> g = i"
    using d(1,2) assms(2,3) inj_on_eq_iff[of ?f "{0..<?n}" g i] inj_on_eq_iff[of ?h "{0..<?n}" g i]
    by (simp_all add: distinct_map)
  show "?h g \<noteq> ?f i" "?f g \<noteq> ?h i" using d(3) assms(2,3) by force+
qed

lemma locked_same:
  "meta_inv (fs\<lparr>metadata_lock := l\<rparr>) = meta_inv fs" "cache_ok (fs\<lparr>metadata_lock := l\<rparr>) = cache_ok fs"
  "same_shape fs (fs\<lparr>metadata_lock := l\<rparr>)" "fs_synced (fs\<lparr>metadata_lock := l\<rparr>) = fs_synced fs"
  "keeps_data fs (fs\<lparr>metadata_lock := l\<rparr>)" "free_blocks (fs\<lparr>metadata_lock := l\<rparr>) = free_blocks fs"
  "free_inumbers (fs\<lparr>metadata_lock := l\<rparr>) = free_inumbers fs" "fs_block (fs\<lparr>metadata_lock := l\<rparr>) = fs_block fs"
  by (auto simp: meta_inv_def geometry_ok_def cache_ok_def same_shape_def fs_synced_def layout_ok_def bitmap_blocks_def
    keeps_data_def fs_block_def free_blocks_def free_inumbers_def block_at_def inumber_at_def ext2_block_group_start_def)

lemma data_update_same:
  "meta_inv (fs\<lparr>fs_bcache := c, fs_drive := d\<rparr>) = meta_inv fs"
  "same_shape fs0 (fs\<lparr>fs_bcache := c, fs_drive := d\<rparr>) = same_shape fs0 fs"
  "same_shape fs0 (fs\<lparr>metadata_lock := l\<rparr>) = same_shape fs0 fs"
  "free_blocks (fs\<lparr>fs_bcache := c, fs_drive := d\<rparr>) = free_blocks fs"
  "free_inumbers (fs\<lparr>fs_bcache := c, fs_drive := d\<rparr>) = free_inumbers fs"
  by (auto simp: meta_inv_def geometry_ok_def same_shape_def ext2_get_block_size_def
    free_blocks_def free_inumbers_def block_at_def inumber_at_def ext2_block_group_start_def)

text \<open>What one operation on the metadata keeps.\<close>

definition step_ok :: "ext2 \<Rightarrow> ext2 \<Rightarrow> bool" where
  "step_ok fs fs' \<longleftrightarrow> meta_inv fs' \<and> cache_ok fs' \<and> same_shape fs fs' \<and> keeps_data fs fs' \<and> (fs_synced fs \<longrightarrow> fs_synced fs')"

lemma flush_block_group:
  assumes fs: "cache_ok fs" "length (block_bitmaps fs) = unat (num_block_groups fs)" and sh: "same_shape fs fs1"
    and st: "fs_bcache fs1 = fs_bcache fs" "fs_drive fs1 = fs_drive fs"
    and meta: "meta_inv fs1" and i: "i < unat (num_block_groups fs)"
    and bm: "block_bitmaps fs1 = (block_bitmaps fs)[i := bm]" "inode_bitmaps fs1 = inode_bitmaps fs"
  shows "\<exists>d'. flush_metadata (bgd_block_bitmap i (bgd_table fs1)) (block_bitmaps fs1 ! i) fs1 = Some (fs1\<lparr>fs_drive := d'\<rparr>)
    \<and> step_ok fs (fs1\<lparr>fs_drive := d'\<rparr>) \<and> free_blocks (fs1\<lparr>fs_drive := d'\<rparr>) = free_blocks fs1
    \<and> free_inumbers (fs1\<lparr>fs_drive := d'\<rparr>) = free_inumbers fs1"
proof -
  note S = same_shapeD[OF sh]
  have tb: "bgd_block_bitmap i (bgd_table fs1) = bgd_block_bitmap i (bgd_table fs)" using sh i by (simp add: same_shape_def)
  have bin: "bgd_block_bitmap i (bgd_table fs1) \<in> set (bitmap_blocks fs1)" using i by (auto simp: bitmap_blocks_def S)
  have bl: "length (block_bitmaps fs1 ! i) = unat (ext2_get_block_size fs1)" using meta_invD(4)[OF meta] i by (simp add: S)
  have "(\<forall>g < unat (num_block_groups fs). block_bitmaps fs1 ! g =
           (if bgd_block_bitmap g (bgd_table fs) = bgd_block_bitmap i (bgd_table fs1) then block_bitmaps fs1 ! i else block_bitmaps fs ! g))"
    "(\<forall>g < unat (num_block_groups fs). inode_bitmaps fs1 ! g =
           (if bgd_inode_bitmap g (bgd_table fs) = bgd_block_bitmap i (bgd_table fs1) then block_bitmaps fs1 ! i else inode_bitmaps fs ! g))"
    if "fs_synced fs"
    using that bitmap_block_unique(1,3)[of fs _ i] tb i bm fs(2) by (auto simp: fs_synced_def)
  then show ?thesis using flush_step[OF fs(1) sh st meta bin bl] unfolding step_ok_def by blast
qed

lemma flush_inode_group:
  assumes fs: "cache_ok fs" "length (inode_bitmaps fs) = unat (num_block_groups fs)" and sh: "same_shape fs fs1"
    and st: "fs_bcache fs1 = fs_bcache fs" "fs_drive fs1 = fs_drive fs"
    and meta: "meta_inv fs1" and i: "i < unat (num_block_groups fs)"
    and bm: "inode_bitmaps fs1 = (inode_bitmaps fs)[i := bm]" "block_bitmaps fs1 = block_bitmaps fs"
  shows "\<exists>d'. flush_metadata (bgd_inode_bitmap i (bgd_table fs1)) (inode_bitmaps fs1 ! i) fs1 = Some (fs1\<lparr>fs_drive := d'\<rparr>)
    \<and> step_ok fs (fs1\<lparr>fs_drive := d'\<rparr>) \<and> free_blocks (fs1\<lparr>fs_drive := d'\<rparr>) = free_blocks fs1
    \<and> free_inumbers (fs1\<lparr>fs_drive := d'\<rparr>) = free_inumbers fs1"
proof -
  note S = same_shapeD[OF sh]
  have tb: "bgd_inode_bitmap i (bgd_table fs1) = bgd_inode_bitmap i (bgd_table fs)" using sh i by (simp add: same_shape_def)
  have bin: "bgd_inode_bitmap i (bgd_table fs1) \<in> set (bitmap_blocks fs1)" using i by (auto simp: bitmap_blocks_def S)
  have bl: "length (inode_bitmaps fs1 ! i) = unat (ext2_get_block_size fs1)" using meta_invD(5)[OF meta] i by (simp add: S)
  have "(\<forall>g < unat (num_block_groups fs). block_bitmaps fs1 ! g =
           (if bgd_block_bitmap g (bgd_table fs) = bgd_inode_bitmap i (bgd_table fs1) then inode_bitmaps fs1 ! i else block_bitmaps fs ! g))"
    "(\<forall>g < unat (num_block_groups fs). inode_bitmaps fs1 ! g =
           (if bgd_inode_bitmap g (bgd_table fs) = bgd_inode_bitmap i (bgd_table fs1) then inode_bitmaps fs1 ! i else inode_bitmaps fs ! g))"
    if "fs_synced fs"
    using that bitmap_block_unique(2,4)[of fs _ i] tb i bm fs(2) by (auto simp: fs_synced_def)
  then show ?thesis using flush_step[OF fs(1) sh st meta bin bl] unfolding step_ok_def by blast
qed

text \<open>Writing part of a block through the cache.\<close>

lemma fs_block_length: "cache_ok fs \<Longrightarrow> length (fs_block fs b) = unat (ext2_get_block_size fs)"
  by (auto simp: cache_ok_def bcache_inv_def fs_block_def)

lemma fs_bcache_write:
  assumes ok: "cache_ok fs" and b: "file_block fs b"
    and sz: "unat offset + unat sz \<le> unat (ext2_get_block_size fs)" "unat sz \<le> length src"
  shows "\<exists>c d. fs_bcache_set b src offset sz fs = Some (fs\<lparr>fs_bcache := c, fs_drive := d\<rparr>)
    \<and> cache_ok (fs\<lparr>fs_bcache := c, fs_drive := d\<rparr>) \<and> (fs_synced fs \<longrightarrow> fs_synced (fs\<lparr>fs_bcache := c, fs_drive := d\<rparr>))
    \<and> (\<forall>b'. data_block fs b' \<longrightarrow> fs_block (fs\<lparr>fs_bcache := c, fs_drive := d\<rparr>) b' =
         (if b' = b then patch (unat offset) (take (unat sz) src) (fs_block fs b) else fs_block fs b'))"
proof -
  let ?bs = "ext2_get_block_size fs"
  obtain c d where C: "fs_bcache_set b src offset sz fs = Some (fs\<lparr>fs_bcache := c, fs_drive := d\<rparr>)"
    "cache_ok (fs\<lparr>fs_bcache := c, fs_drive := d\<rparr>)" "agree_outside (block_sectors ?bs b) (fs_drive fs) d"
    "\<forall>b'. block_valid ?bs b' \<longrightarrow> drive_block ?bs d b' =
       (if b' = b then patch (unat offset) (take (unat sz) src) (fs_block fs b) else fs_block fs b')"
    using fs_bcache_set_spec[OF ok b sz] by blast
  have "fs_block (fs\<lparr>fs_bcache := c, fs_drive := d\<rparr>) b' =
      (if b' = b then patch (unat offset) (take (unat sz) src) (fs_block fs b) else fs_block fs b')" if "data_block fs b'" for b'
    using C(4) that by (simp add: fs_block_def[of "fs\<lparr>fs_bcache := c, fs_drive := d\<rparr>"] data_block_def)
  moreover have "data_block fs b" using b by (simp add: file_block_def)
  ultimately show ?thesis using C(1,2) fs_synced_data_write[OF _ _ C(3)] by blast
qed

lemma alloc_block_take:
  assumes inv: "fs_inv fs" and i: "i < unat (num_block_groups fs)" and l: "l < unat (sb_blocks_per_group (superblock fs))"
    and free: "\<not> bitmap_test (block_bitmaps fs ! i) l" and b_def: "b = block_at fs i l"
    and fg: "find_group (\<lambda>i. bgd_free_blocks_count i (bgd_table fs) > 0) [0..<unat (num_block_groups fs)] = Some i"
    and scan: "scan_bitmap (unat (sb_blocks_per_group (superblock fs))) (ext2_block_group_start fs (of_nat i)) (- 1) (block_bitmaps fs ! i)
        [0..<unat (ext2_bitmap_bytes (sb_blocks_per_group (superblock fs)))] = (b, bitmap_set (block_bitmaps fs ! i) l)"
  shows "\<exists>fs'. alloc_block fs = Some (b, fs') \<and> fs_inv fs' \<and> same_shape fs fs'
       \<and> free_blocks fs' = free_blocks fs - {b} \<and> free_inumbers fs' = free_inumbers fs
       \<and> (\<forall>b'. data_block fs b' \<longrightarrow> fs_block fs' b' =
            (if b' = b then replicate (unat (ext2_get_block_size fs)) 0 else fs_block fs b'))
       \<and> (fs_synced fs \<longrightarrow> fs_synced fs')"
proof -
  have I: "meta_inv fs" "cache_ok fs" "\<not> metadata_lock fs" "\<forall>b \<in> free_blocks fs. file_block fs b"
    using inv by (auto simp: fs_inv_def)
  note M = meta_invD[OF I(1)] and G = geometryD[OF meta_invD(1)[OF I(1)]]
  let ?bm = "bitmap_set (block_bitmaps fs ! i) l" and ?bs = "ext2_get_block_size fs"
  define fs0 where "fs0 = fs\<lparr>metadata_lock := True\<rparr>"
  define fs1 where "fs1 = fs0\<lparr>bgd_table := set_bgd_free_blocks_count i (bgd_free_blocks_count i (bgd_table fs) - 1) (bgd_table fs0),
      superblock := set_sb_free_blocks_count (sb_free_blocks_count (superblock fs) - 1) (superblock fs0),
      block_bitmaps := (block_bitmaps fs0)[i := ?bm]\<rparr>"
  have fs0: "meta_inv fs0" "cache_ok fs0" "same_shape fs fs0" "fs_synced fs0 = fs_synced fs" "fs_block fs0 = fs_block fs"
      "free_blocks fs0 = free_blocks fs" "free_inumbers fs0 = free_inumbers fs" "data_block fs0 = data_block fs"
    using I(1,2) by (simp_all add: locked_same fs0_def)
  have f0: "superblock fs0 = superblock fs" "bgd_table fs0 = bgd_table fs" "num_block_groups fs0 = num_block_groups fs"
      "block_bitmaps fs0 = block_bitmaps fs" "block_at fs0 = block_at fs"
    using same_shapeD(2)[OF fs0(3)] by (simp_all add: fs0_def)
  have flip: "entry_flip (block_bitmaps fs0 ! i) l (bgd_free_blocks_count i (bgd_table fs0)) ?bm (bgd_free_blocks_count i (bgd_table fs) - 1)"
    using free by (simp add: entry_flip_def f0)
  have F: "meta_inv fs1" "same_shape fs0 fs1" "free_inumbers fs1 = free_inumbers fs" "free_blocks fs1 = free_blocks fs - {b}"
    using flip_block[OF fs0(1) _ _ flip fs1_def] i l free fs0(6,7) by (simp_all add: f0 b_def)
  obtain d where D: "flush_metadata (bgd_block_bitmap i (bgd_table fs1)) (block_bitmaps fs1 ! i) fs1 = Some (fs1\<lparr>fs_drive := d\<rparr>)"
    "step_ok fs0 (fs1\<lparr>fs_drive := d\<rparr>)" "free_blocks (fs1\<lparr>fs_drive := d\<rparr>) = free_blocks fs1"
    "free_inumbers (fs1\<lparr>fs_drive := d\<rparr>) = free_inumbers fs1"
    using flush_block_group[OF fs0(2) _ F(2) _ _ F(1), of i ?bm] i M(2) by (auto simp: fs1_def f0)
  define fs2 where "fs2 = fs1\<lparr>fs_drive := d\<rparr>"
  have st: "meta_inv fs2" "cache_ok fs2" "same_shape fs fs2" "keeps_data fs fs2" "fs_synced fs \<longrightarrow> fs_synced fs2"
    using D(2) fs0 same_shape_trans[OF fs0(3)] by (auto simp: step_ok_def keeps_data_def fs2_def)
  note S = same_shapeD[OF st(3)]
  have bd: "file_block fs2 b" using I(4) free_blocks_iff[OF M(1) i l] free b_def by (simp add: S)
  obtain c d2 where C: "fs_bcache_set b (replicate (unat ?bs) 0) 0 ?bs fs2 = Some (fs2\<lparr>fs_bcache := c, fs_drive := d2\<rparr>)"
    "cache_ok (fs2\<lparr>fs_bcache := c, fs_drive := d2\<rparr>)" "fs_synced fs2 \<longrightarrow> fs_synced (fs2\<lparr>fs_bcache := c, fs_drive := d2\<rparr>)"
    "\<forall>b'. data_block fs b' \<longrightarrow> fs_block (fs2\<lparr>fs_bcache := c, fs_drive := d2\<rparr>) b' =
      (if b' = b then replicate (unat ?bs) 0 else fs_block fs2 b')"
    using fs_bcache_write[OF st(2) bd, of 0 ?bs "replicate (unat ?bs) 0"] fs_block_length[OF st(2)] by (auto simp: S)
  define fs' where "fs' = (fs2\<lparr>fs_bcache := c, fs_drive := d2\<rparr>)\<lparr>metadata_lock := False\<rparr>"
  have gs: "ext2_block_group_start (fs0\<lparr>bgd_table := t, superblock := set_sb_free_blocks_count v (superblock fs)\<rparr>) x
        = ext2_block_group_start fs x" for t v x
    using set_sb_fields[OF G(2), of "set_sb_free_blocks_count v" v] by (simp add: ext2_block_group_start_def)
  have "alloc_block fs = do {
       fs \<leftarrow> flush_metadata (bgd_block_bitmap i (bgd_table fs1)) (block_bitmaps fs1 ! i) fs1;
       fs \<leftarrow> fs_bcache_set b (replicate (unat (ext2_get_block_size fs)) 0) 0 (ext2_get_block_size fs) fs;
       kassert (b \<noteq> - 1);
       Some (b, fs\<lparr>metadata_lock := False\<rparr>) }"
    using I(3) fg scan
    by (simp add: alloc_block_def metadata_lock_acquire_def metadata_lock_release_def Let_def fs0_def[symmetric] f0 gs fs1_def)
  then have run: "alloc_block fs = Some (b, fs')"
    using D(1) C(1) S(1) block_at_not_none[OF M(1) i l] b_def by (simp add: fs'_def fs2_def)
  have upd: "meta_inv fs'" "cache_ok fs'" "same_shape fs fs'" "free_blocks fs' = free_blocks fs - {b}"
    "free_inumbers fs' = free_inumbers fs" "\<not> metadata_lock fs'"
    using C(2) F D(3,4) st by (simp_all add: fs'_def fs2_def[symmetric] locked_same data_update_same)
  have "fs_inv fs'" using upd I(4) same_shapeD(13)[OF upd(3)] by (simp add: fs_inv_def)
  moreover have "fs_synced fs \<longrightarrow> fs_synced fs'" using st(5) C(3) by (simp add: fs'_def locked_same)
  moreover have "fs_block fs' b' = (if b' = b then replicate (unat ?bs) 0 else fs_block fs b')" if "data_block fs b'" for b'
    using C(4) st(4) that by (simp add: fs'_def locked_same keeps_data_def)
  ultimately show ?thesis using run upd by blast
qed

lemma alloc_block_spec:
  assumes inv: "fs_inv fs"
  shows "free_blocks fs = {} \<and> alloc_block fs = None
    \<or> (\<exists>b fs'. alloc_block fs = Some (b, fs') \<and> b \<in> free_blocks fs \<and> fs_inv fs' \<and> same_shape fs fs'
       \<and> free_blocks fs' = free_blocks fs - {b} \<and> free_inumbers fs' = free_inumbers fs
       \<and> (\<forall>b'. data_block fs b' \<longrightarrow> fs_block fs' b' =
            (if b' = b then replicate (unat (ext2_get_block_size fs)) 0 else fs_block fs b'))
       \<and> (fs_synced fs \<longrightarrow> fs_synced fs'))"
proof -
  have I: "meta_inv fs" "cache_ok fs" "\<not> metadata_lock fs" "\<forall>b \<in> free_blocks fs. file_block fs b"
    using inv by (auto simp: fs_inv_def)
  note M = meta_invD[OF I(1)] and G = geometryD[OF meta_invD(1)[OF I(1)]]
  let ?n = "unat (num_block_groups fs)" and ?bpg = "sb_blocks_per_group (superblock fs)"
  let ?P = "\<lambda>i. bgd_free_blocks_count i (bgd_table fs) > 0"
  have P: "?P i \<longleftrightarrow> (\<exists>l < unat ?bpg. \<not> bitmap_test (block_bitmaps fs ! i) l)" if "i < ?n" for i
    using M(6)[OF that] free_count_pos[of "unat ?bpg" "block_bitmaps fs ! i"] by (simp add: word_less_nat_alt)
  show ?thesis
  proof (cases "find_group ?P [0..<?n]")
    case None
    then have "\<forall>i < ?n. \<not> ?P i" by (auto simp: find_group_None)
    then have "free_blocks fs = {}" using P by (auto simp: free_blocks_def)
    moreover have "alloc_block fs = None"
      using None I(3) by (simp add: alloc_block_def metadata_lock_acquire_def Let_def)
    ultimately show ?thesis by blast
  next
    case (Some i)
    then have i: "i < ?n" "?P i" using find_group_Some[OF Some] by auto
    have base: "ext2_block_group_start fs (of_nat i) + of_nat l \<noteq> - 1" if "l < unat ?bpg" for l
    proof -
      have "block_at fs i l \<noteq> - 1" by (rule block_at_not_none[OF M(1) i(1) that])
      then show ?thesis by (simp add: block_at_def)
    qed
    obtain l where l: "l < unat ?bpg" "\<not> bitmap_test (block_bitmaps fs ! i) l"
      "scan_bitmap (unat ?bpg) (ext2_block_group_start fs (of_nat i)) (- 1) (block_bitmaps fs ! i) [0..<unat (ext2_bitmap_bytes ?bpg)] =
        (block_at fs i l, bitmap_set (block_bitmaps fs ! i) l)"
      using scan_bitmap_spec[where j = 0, OF base bitmap_bytes_cover[OF G(6)]] P[OF i(1)] i(2) unfolding block_at_def by auto
    show ?thesis using alloc_block_take[OF inv i(1) l(1,2) refl Some l(3)] free_blocks_iff[OF M(1) i(1) l(1)] l(2) by blast
  qed
qed

text \<open>A block that some group's bitmap has marked.\<close>

definition used_blocks :: "ext2 \<Rightarrow> u32 set" where
  "used_blocks fs = {block_at fs g l | g l. g < unat (num_block_groups fs)
     \<and> l < unat (sb_blocks_per_group (superblock fs)) \<and> bitmap_test (block_bitmaps fs ! g) l}"

definition used_inumbers :: "ext2 \<Rightarrow> u32 set" where
  "used_inumbers fs = {inumber_at fs g l | g l. g < unat (num_block_groups fs)
     \<and> l < unat (sb_inodes_per_group (superblock fs)) \<and> bitmap_test (inode_bitmaps fs ! g) l}"

lemma div_mod_group: "l < (m :: nat) \<Longrightarrow> (g * m + l) div m = g \<and> (g * m + l) mod m = l"
  by simp

lemma block_at_index:
  assumes "geometry_ok fs" "g < unat (num_block_groups fs)" "l < unat (sb_blocks_per_group (superblock fs))"
  shows "ext2_block_group_index fs (block_at fs g l) = Some (of_nat g)" "unat (of_nat g :: u32) = g"
    "ext2_block_local_index fs (block_at fs g l) = Some (of_nat l)" "unat (of_nat l :: u32) = l"
proof -
  let ?m = "sb_blocks_per_group (superblock fs)" and ?f = "sb_first_data_block (superblock fs)"
  have u: "unat (block_at fs g l) = unat ?f + g * unat ?m + l" by (rule geometry_groups(1)[OF assms])
  then have ge: "?f \<le> block_at fs g l" by (simp add: word_le_nat_alt)
  then have d: "unat (block_at fs g l - ?f) = g * unat ?m + l" using u by (simp add: unat_sub)
  show gl: "unat (of_nat g :: u32) = g" "unat (of_nat l :: u32) = l"
    using assms(2,3) unat_word32_less[of "num_block_groups fs"] unat_word32_less[of ?m] by (intro unat_of_nat_u32; linarith)+
  have "(block_at fs g l - ?f) div ?m = of_nat g" "(block_at fs g l - ?f) mod ?m = of_nat l"
    unfolding word_unat_eq_iff using d gl div_mod_group[OF assms(3), of g] by (simp_all add: unat_div unat_mod)
  then show "ext2_block_group_index fs (block_at fs g l) = Some (of_nat g)" "ext2_block_local_index fs (block_at fs g l) = Some (of_nat l)"
    using ge by (simp_all add: ext2_block_group_index_def ext2_block_local_index_def)
qed

lemma dealloc_block_spec:
  assumes inv: "fs_inv fs" and b: "b \<in> used_blocks fs" "file_block fs b"
  shows "\<exists>fs'. dealloc_block b fs = Some fs' \<and> fs_inv fs' \<and> same_shape fs fs' \<and> free_blocks fs' = insert b (free_blocks fs)
    \<and> free_inumbers fs' = free_inumbers fs \<and> keeps_data fs fs' \<and> (fs_synced fs \<longrightarrow> fs_synced fs')"
proof -
  have I: "meta_inv fs" "cache_ok fs" "\<not> metadata_lock fs" "\<forall>b \<in> free_blocks fs. file_block fs b"
    using inv by (auto simp: fs_inv_def)
  note M = meta_invD[OF I(1)]
  obtain i l where i: "i < unat (num_block_groups fs)" and l: "l < unat (sb_blocks_per_group (superblock fs))"
    and used: "bitmap_test (block_bitmaps fs ! i) l" and b_def: "b = block_at fs i l"
    using b(1) by (auto simp: used_blocks_def)
  let ?bm = "bitmap_clear (block_bitmaps fs ! i) l"
  define fs0 where "fs0 = fs\<lparr>metadata_lock := True\<rparr>"
  define fs1 where "fs1 = fs0\<lparr>block_bitmaps := (block_bitmaps fs0)[i := ?bm],
      bgd_table := set_bgd_free_blocks_count i (bgd_free_blocks_count i (bgd_table fs) + 1) (bgd_table fs0),
      superblock := set_sb_free_blocks_count (sb_free_blocks_count (superblock fs) + 1) (superblock fs0)\<rparr>"
  have fs1: "fs1 = fs0\<lparr>bgd_table := set_bgd_free_blocks_count i (bgd_free_blocks_count i (bgd_table fs) + 1) (bgd_table fs0),
      superblock := set_sb_free_blocks_count (sb_free_blocks_count (superblock fs) + 1) (superblock fs0),
      block_bitmaps := (block_bitmaps fs0)[i := ?bm]\<rparr>" by (simp add: fs1_def)
  have fs0: "meta_inv fs0" "cache_ok fs0" "same_shape fs fs0" "fs_synced fs0 = fs_synced fs" "fs_block fs0 = fs_block fs"
      "free_blocks fs0 = free_blocks fs" "free_inumbers fs0 = free_inumbers fs" "data_block fs0 = data_block fs"
    using I(1,2) by (simp_all add: locked_same fs0_def)
  have f0: "superblock fs0 = superblock fs" "bgd_table fs0 = bgd_table fs" "num_block_groups fs0 = num_block_groups fs"
      "block_bitmaps fs0 = block_bitmaps fs" "block_at fs0 = block_at fs"
    using same_shapeD(2)[OF fs0(3)] by (simp_all add: fs0_def)
  have flip: "entry_flip (block_bitmaps fs0 ! i) l (bgd_free_blocks_count i (bgd_table fs0)) ?bm (bgd_free_blocks_count i (bgd_table fs) + 1)"
    using used by (simp add: entry_flip_def f0)
  have F: "meta_inv fs1" "same_shape fs0 fs1" "free_inumbers fs1 = free_inumbers fs" "free_blocks fs1 = insert b (free_blocks fs)"
    using flip_block[OF fs0(1) _ _ flip fs1] i l used fs0(6,7) by (simp_all add: f0 b_def)
  obtain d where D: "flush_metadata (bgd_block_bitmap i (bgd_table fs1)) (block_bitmaps fs1 ! i) fs1 = Some (fs1\<lparr>fs_drive := d\<rparr>)"
    "step_ok fs0 (fs1\<lparr>fs_drive := d\<rparr>)" "free_blocks (fs1\<lparr>fs_drive := d\<rparr>) = free_blocks fs1"
    "free_inumbers (fs1\<lparr>fs_drive := d\<rparr>) = free_inumbers fs1"
    using flush_block_group[OF fs0(2) _ F(2) _ _ F(1), of i ?bm] i M(2) by (auto simp: fs1_def f0)
  define fs' where "fs' = fs1\<lparr>fs_drive := d, metadata_lock := False\<rparr>"
  have upd: "meta_inv fs'" "cache_ok fs'" "same_shape fs fs'" "keeps_data fs fs'" "fs_synced fs \<longrightarrow> fs_synced fs'" "\<not> metadata_lock fs'"
    "free_blocks fs' = insert b (free_blocks fs)" "free_inumbers fs' = free_inumbers fs"
    using D(2-4) F fs0 same_shape_trans[OF fs0(3)] by (auto simp: step_ok_def keeps_data_def fs'_def locked_same data_update_same)
  note ix = block_at_index[OF M(1) i l]
  have "ext2_block_group_index fs0 b = Some (of_nat i)" "ext2_block_local_index fs0 b = Some (of_nat l)"
    using ix by (simp_all add: b_def fs0_def ext2_block_group_index_def ext2_block_local_index_def)
  then have "dealloc_block b fs = Some fs'"
    using I(3) D(1) ix(2,4) i M(2)
    by (simp add: dealloc_block_def metadata_lock_acquire_def metadata_lock_release_def Let_def fs0_def[symmetric] f0 fs1_def fs'_def)
  moreover have "fs_inv fs'" using upd I(4) b(2) same_shapeD(13)[OF upd(3)] by (auto simp: fs_inv_def)
  ultimately show ?thesis using upd by blast
qed

section \<open>Allocating and releasing an inode number\<close>

lemma count_dir:
  assumes inv: "meta_inv fs" and i: "i < unat (num_block_groups fs)"
    and fs1: "fs1 = (if dir then fs\<lparr>bgd_table := set_bgd_used_dirs_count i v (bgd_table fs)\<rparr> else fs)"
  shows "meta_inv fs1" "same_shape fs fs1" "free_blocks fs1 = free_blocks fs" "free_inumbers fs1 = free_inumbers fs"
    "block_bitmaps fs1 = block_bitmaps fs" "inode_bitmaps fs1 = inode_bitmaps fs"
    "fs_bcache fs1 = fs_bcache fs" "fs_drive fs1 = fs_drive fs" "superblock fs1 = superblock fs"
proof -
  note M = meta_invD[OF inv] and G = geometryD[OF meta_invD(1)[OF inv]]
  show sh: "same_shape fs fs1"
  proof (cases dir)
    case True
    show ?thesis
      by (rule same_shapeI[OF M(1) i, where f = "set_bgd_used_dirs_count i v" and v = v
        and h = "set_sb_free_inodes_count 0" and w = 0]) (simp_all add: fs1 True)
  qed (simp add: fs1)
  note S = same_shapeD[OF sh]
  show "meta_inv fs1" unfolding meta_inv_def S using M set_bgd_counts(5,6)[OF G(3) i] by (auto simp: fs1)
  show "free_blocks fs1 = free_blocks fs" "free_inumbers fs1 = free_inumbers fs"
    unfolding free_blocks_def free_inumbers_def S by (simp_all add: fs1)
  show "block_bitmaps fs1 = block_bitmaps fs" "inode_bitmaps fs1 = inode_bitmaps fs"
    "fs_bcache fs1 = fs_bcache fs" "fs_drive fs1 = fs_drive fs" "superblock fs1 = superblock fs" by (simp_all add: fs1)
qed

lemma flip_inode_flush:
  assumes inv: "fs_inv fs" and i: "i < unat (num_block_groups fs)" and l: "l < unat (sb_inodes_per_group (superblock fs))"
    and flip: "entry_flip (inode_bitmaps fs ! i) l (bgd_free_inodes_count i (bgd_table fs)) bm' cnt'"
    and fs1: "fs1 = fs\<lparr>metadata_lock := True, bgd_table := set_bgd_free_inodes_count i cnt' (bgd_table fs),
        superblock := set_sb_free_inodes_count w (superblock fs), inode_bitmaps := (inode_bitmaps fs)[i := bm']\<rparr>"
    and fs2: "fs2 = (if dir then fs1\<lparr>bgd_table := set_bgd_used_dirs_count i v (bgd_table fs1)\<rparr> else fs1)"
  shows "\<exists>d. flush_metadata (bgd_inode_bitmap i (bgd_table fs2)) (inode_bitmaps fs2 ! i) fs2 = Some (fs2\<lparr>fs_drive := d\<rparr>)
    \<and> fs_inv (fs2\<lparr>fs_drive := d, metadata_lock := False\<rparr>) \<and> same_shape fs (fs2\<lparr>fs_drive := d, metadata_lock := False\<rparr>)
    \<and> keeps_data fs (fs2\<lparr>fs_drive := d, metadata_lock := False\<rparr>)
    \<and> (fs_synced fs \<longrightarrow> fs_synced (fs2\<lparr>fs_drive := d, metadata_lock := False\<rparr>))
    \<and> free_blocks (fs2\<lparr>fs_drive := d, metadata_lock := False\<rparr>) = free_blocks fs
    \<and> free_inumbers (fs2\<lparr>fs_drive := d, metadata_lock := False\<rparr>) =
      (if bitmap_test (inode_bitmaps fs ! i) l then insert (inumber_at fs i l) (free_inumbers fs)
       else free_inumbers fs - {inumber_at fs i l})"
proof -
  have I: "meta_inv fs" "cache_ok fs" "\<not> metadata_lock fs" "\<forall>b \<in> free_blocks fs. file_block fs b"
    using inv by (auto simp: fs_inv_def)
  define fs0 where "fs0 = fs\<lparr>metadata_lock := True\<rparr>"
  have fs0: "meta_inv fs0" "cache_ok fs0" "same_shape fs fs0" "fs_synced fs0 = fs_synced fs" "fs_block fs0 = fs_block fs"
      "free_blocks fs0 = free_blocks fs" "free_inumbers fs0 = free_inumbers fs" "data_block fs0 = data_block fs"
    using I(1,2) by (simp_all add: locked_same fs0_def)
  have f0: "superblock fs0 = superblock fs" "bgd_table fs0 = bgd_table fs" "num_block_groups fs0 = num_block_groups fs"
      "inode_bitmaps fs0 = inode_bitmaps fs" "inumber_at fs0 = inumber_at fs"
    using same_shapeD(3)[OF fs0(3)] by (simp_all add: fs0_def)
  have fs1': "fs1 = fs0\<lparr>bgd_table := set_bgd_free_inodes_count i cnt' (bgd_table fs0),
        superblock := set_sb_free_inodes_count w (superblock fs0), inode_bitmaps := (inode_bitmaps fs0)[i := bm']\<rparr>"
    by (simp add: fs1 fs0_def)
  note F = flip_inode[OF fs0(1) _ _ _ fs1', of l, unfolded f0, OF i l flip]
  have i1: "i < unat (num_block_groups fs1)" using i by (simp add: fs1)
  note U = count_dir[OF F(1) i1 fs2]
  obtain d where D: "flush_metadata (bgd_inode_bitmap i (bgd_table fs2)) (inode_bitmaps fs2 ! i) fs2 = Some (fs2\<lparr>fs_drive := d\<rparr>)"
    "step_ok fs0 (fs2\<lparr>fs_drive := d\<rparr>)" "free_blocks (fs2\<lparr>fs_drive := d\<rparr>) = free_blocks fs2"
    "free_inumbers (fs2\<lparr>fs_drive := d\<rparr>) = free_inumbers fs2"
    using flush_inode_group[OF fs0(2) _ same_shape_trans[OF F(2) U(2)] _ _ U(1), of i bm'] i meta_invD(3)[OF I(1)] U(5-8)
    by (auto simp: fs1 fs0_def)
  define fs' where "fs' = fs2\<lparr>fs_drive := d, metadata_lock := False\<rparr>"
  have upd: "meta_inv fs'" "cache_ok fs'" "same_shape fs fs'" "keeps_data fs fs'" "fs_synced fs \<longrightarrow> fs_synced fs'" "\<not> metadata_lock fs'"
    "free_blocks fs' = free_blocks fs" "free_inumbers fs' = free_inumbers fs2"
    using D(2-4) F U fs0 same_shape_trans[OF fs0(3)] by (auto simp: step_ok_def keeps_data_def fs'_def locked_same data_update_same)
  have "fs_inv fs'" using upd I(4) same_shapeD(13)[OF upd(3)] by (auto simp: fs_inv_def)
  then show ?thesis using upd D(1) F(4) U(4) fs0(7) unfolding fs'_def by auto
qed

lemma alloc_inumber_spec:
  assumes inv: "fs_inv fs"
  shows "free_inumbers fs = {} \<and> alloc_inumber mode fs = None
    \<or> (\<exists>n fs'. alloc_inumber mode fs = Some (n, fs') \<and> n \<in> free_inumbers fs \<and> n \<noteq> 0 \<and> fs_inv fs' \<and> same_shape fs fs'
       \<and> free_inumbers fs' = free_inumbers fs - {n} \<and> free_blocks fs' = free_blocks fs
       \<and> keeps_data fs fs' \<and> (fs_synced fs \<longrightarrow> fs_synced fs'))"
proof -
  have I: "meta_inv fs" "\<not> metadata_lock fs" using inv by (auto simp: fs_inv_def)
  note M = meta_invD[OF I(1)] and G = geometryD[OF meta_invD(1)[OF I(1)]]
  let ?n = "unat (num_block_groups fs)" and ?ipg = "sb_inodes_per_group (superblock fs)"
  let ?P = "\<lambda>i. bgd_free_inodes_count i (bgd_table fs) > 0"
  have P: "?P i \<longleftrightarrow> (\<exists>l < unat ?ipg. \<not> bitmap_test (inode_bitmaps fs ! i) l)" if "i < ?n" for i
    using M(7)[OF that] free_count_pos[of "unat ?ipg" "inode_bitmaps fs ! i"] by (simp add: word_less_nat_alt)
  show ?thesis
  proof (cases "find_group ?P [0..<?n]")
    case None
    then have "\<forall>i < ?n. \<not> ?P i" by (auto simp: find_group_None)
    then have "free_inumbers fs = {}" using P by (auto simp: free_inumbers_def)
    moreover have "alloc_inumber mode fs = None"
      using None I(2) by (simp add: alloc_inumber_def metadata_lock_acquire_def Let_def)
    ultimately show ?thesis by blast
  next
    case (Some i)
    then have i: "i < ?n" "?P i" using find_group_Some[OF Some] by auto
    have nz: "of_nat i * ?ipg + 1 + of_nat l \<noteq> (0 :: u32)" if "l < unat ?ipg" for l
      using geometry_groups(2)[OF M(1) i(1) that] by (auto simp: inumber_at_def)
    obtain l where l: "l < unat ?ipg" "\<not> bitmap_test (inode_bitmaps fs ! i) l"
      "scan_bitmap (unat ?ipg) (of_nat i * ?ipg + 1) 0 (inode_bitmaps fs ! i) [0..<unat (ext2_bitmap_bytes ?ipg)] =
        (inumber_at fs i l, bitmap_set (inode_bitmaps fs ! i) l)"
      using scan_bitmap_spec[where j = 0, OF nz bitmap_bytes_cover[OF G(7)]] P[OF i(1)] i(2) unfolding inumber_at_def by auto
    have flip: "entry_flip (inode_bitmaps fs ! i) l (bgd_free_inodes_count i (bgd_table fs)) (bitmap_set (inode_bitmaps fs ! i) l)
        (bgd_free_inodes_count i (bgd_table fs) - 1)" using l(2) by (simp add: entry_flip_def)
    define fs1 where "fs1 = fs\<lparr>metadata_lock := True,
      bgd_table := set_bgd_free_inodes_count i (bgd_free_inodes_count i (bgd_table fs) - 1) (bgd_table fs),
      superblock := set_sb_free_inodes_count (sb_free_inodes_count (superblock fs) - 1) (superblock fs),
      inode_bitmaps := (inode_bitmaps fs)[i := bitmap_set (inode_bitmaps fs ! i) l]\<rparr>"
    define fs2 where "fs2 = (if mode AND EXT2_S_MASK = EXT2_S_IFDIR
      then fs1\<lparr>bgd_table := set_bgd_used_dirs_count i (bgd_used_dirs_count i (bgd_table fs1) + 1) (bgd_table fs1)\<rparr> else fs1)"
    have run: "alloc_inumber mode fs = do {
        s \<leftarrow> flush_metadata (bgd_inode_bitmap i (bgd_table fs2)) (inode_bitmaps fs2 ! i) fs2;
        kassert (inumber_at fs i l \<noteq> 0);
        Some (inumber_at fs i l, s\<lparr>metadata_lock := False\<rparr>) }"
      using I(2) Some l(3)
      by (simp add: alloc_inumber_def metadata_lock_acquire_def metadata_lock_release_def Let_def fs1_def[symmetric] fs2_def)
    have nz: "inumber_at fs i l \<noteq> 0" using nz[OF l(1)] by (simp add: inumber_at_def)
    have "inumber_at fs i l \<in> free_inumbers fs" using free_inumbers_iff[OF M(1) i(1) l(1)] l(2) by simp
    then show ?thesis using flip_inode_flush[OF inv i(1) l(1) flip fs1_def fs2_def] run nz l(2) by auto
  qed
qed

lemma inumber_at_index:
  assumes "geometry_ok fs" "g < unat (num_block_groups fs)" "l < unat (sb_inodes_per_group (superblock fs))"
  shows "unat ((inumber_at fs g l - 1) div sb_inodes_per_group (superblock fs)) = g"
    "unat ((inumber_at fs g l - 1) mod sb_inodes_per_group (superblock fs)) = l"
proof -
  have u: "unat (inumber_at fs g l) = g * unat (sb_inodes_per_group (superblock fs)) + 1 + l" by (rule geometry_groups(2)[OF assms])
  then have "inumber_at fs g l \<noteq> 0" by auto
  then have "unat (inumber_at fs g l - 1) = g * unat (sb_inodes_per_group (superblock fs)) + l" using u by (simp add: unat_minus_one)
  then show "unat ((inumber_at fs g l - 1) div sb_inodes_per_group (superblock fs)) = g"
    "unat ((inumber_at fs g l - 1) mod sb_inodes_per_group (superblock fs)) = l"
    using div_mod_group[OF assms(3), of g] by (simp_all add: unat_div unat_mod)
qed

lemma dealloc_inumber_spec:
  assumes inv: "fs_inv fs" and n: "n \<in> used_inumbers fs"
  shows "\<exists>fs'. dealloc_inumber n mode fs = Some fs' \<and> fs_inv fs' \<and> same_shape fs fs' \<and> free_inumbers fs' = insert n (free_inumbers fs)
    \<and> free_blocks fs' = free_blocks fs \<and> keeps_data fs fs' \<and> (fs_synced fs \<longrightarrow> fs_synced fs')"
proof -
  have I: "meta_inv fs" "\<not> metadata_lock fs" using inv by (auto simp: fs_inv_def)
  note M = meta_invD[OF I(1)]
  obtain i l where i: "i < unat (num_block_groups fs)" and l: "l < unat (sb_inodes_per_group (superblock fs))"
    and used: "bitmap_test (inode_bitmaps fs ! i) l" and n_def: "n = inumber_at fs i l"
    using n by (auto simp: used_inumbers_def)
  let ?bm = "bitmap_clear (inode_bitmaps fs ! i) l"
  have flip: "entry_flip (inode_bitmaps fs ! i) l (bgd_free_inodes_count i (bgd_table fs)) ?bm (bgd_free_inodes_count i (bgd_table fs) + 1)"
    using used by (simp add: entry_flip_def)
  define fs1 where "fs1 = fs\<lparr>metadata_lock := True, inode_bitmaps := (inode_bitmaps fs)[i := ?bm],
      bgd_table := set_bgd_free_inodes_count i (bgd_free_inodes_count i (bgd_table fs) + 1) (bgd_table fs),
      superblock := set_sb_free_inodes_count (sb_free_inodes_count (superblock fs) + 1) (superblock fs)\<rparr>"
  define fs2 where "fs2 = (if mode AND EXT2_S_MASK = EXT2_S_IFDIR
      then fs1\<lparr>bgd_table := set_bgd_used_dirs_count i (bgd_used_dirs_count i (bgd_table fs1) - 1) (bgd_table fs1)\<rparr> else fs1)"
  have fs1: "fs1 = fs\<lparr>metadata_lock := True,
      bgd_table := set_bgd_free_inodes_count i (bgd_free_inodes_count i (bgd_table fs) + 1) (bgd_table fs),
      superblock := set_sb_free_inodes_count (sb_free_inodes_count (superblock fs) + 1) (superblock fs),
      inode_bitmaps := (inode_bitmaps fs)[i := ?bm]\<rparr>" by (simp add: fs1_def)
  have "dealloc_inumber n mode fs = do {
        s \<leftarrow> flush_metadata (bgd_inode_bitmap i (bgd_table fs2)) (inode_bitmaps fs2 ! i) fs2;
        Some (s\<lparr>metadata_lock := False\<rparr>) }"
    using I(2) inumber_at_index[OF M(1) i l] i M(3)
    by (simp add: dealloc_inumber_def metadata_lock_acquire_def metadata_lock_release_def Let_def fs1_def[symmetric] fs2_def n_def)
  then show ?thesis using flip_inode_flush[OF inv i l flip fs1 fs2_def] used n_def by auto
qed

section \<open>Properties\<close>

text \<open>C17.  On a consistent file system \<open>alloc_block\<close> panics exactly when no block is free.  Otherwise
  it returns a block that was free and takes only that block; the block reads as zeros, every other
  data block keeps its contents, the counters still agree with the bitmaps, no lock stays held, and
  the metadata on the drive still equals the metadata in memory.\<close>

theorem alloc_block_exact:
  assumes "fs_inv fs" "fs_synced fs"
  shows "case alloc_block fs of
      None \<Rightarrow> free_blocks fs = {}
    | Some (b, fs') \<Rightarrow> b \<in> free_blocks fs \<and> free_blocks fs' = free_blocks fs - {b} \<and> free_inumbers fs' = free_inumbers fs
        \<and> (\<forall>b'. data_block fs b' \<longrightarrow> fs_block fs' b' =
             (if b' = b then replicate (unat (ext2_get_block_size fs)) 0 else fs_block fs b'))
        \<and> fs_inv fs' \<and> fs_synced fs'"
  using alloc_block_spec[OF assms(1)] assms(2) by auto

text \<open>C18.  Releasing the block that was just allocated restores the set of free blocks; no other
  block changes on the way, and the file system stays consistent in memory and on the drive.\<close>

theorem dealloc_block_undoes_alloc:
  assumes "fs_inv fs" "fs_synced fs" "alloc_block fs = Some (b, fs1)"
  shows "\<exists>fs2. dealloc_block b fs1 = Some fs2 \<and> free_blocks fs2 = free_blocks fs \<and> fs_inv fs2 \<and> fs_synced fs2
    \<and> (\<forall>b'. data_block fs b' \<longrightarrow> b' \<noteq> b \<longrightarrow> fs_block fs2 b' = fs_block fs b')"
proof -
  have A: "b \<in> free_blocks fs" "fs_inv fs1" "same_shape fs fs1" "free_blocks fs1 = free_blocks fs - {b}" "fs_synced fs1"
    "\<forall>b'. data_block fs b' \<longrightarrow> fs_block fs1 b' = (if b' = b then replicate (unat (ext2_get_block_size fs)) 0 else fs_block fs b')"
    using alloc_block_spec[OF assms(1)] assms(2,3) by auto
  note S = same_shapeD[OF A(3)]
  have bd: "file_block fs1 b" using A(1) assms(1) by (simp add: fs_inv_def S)
  obtain g l where gl: "b = block_at fs g l" "g < unat (num_block_groups fs)" "l < unat (sb_blocks_per_group (superblock fs))"
    using A(1) by (auto simp: free_blocks_def)
  have geo: "geometry_ok fs1" using A(2) by (auto simp: fs_inv_def meta_inv_def)
  have "bitmap_test (block_bitmaps fs1 ! g) l"
    using free_blocks_iff[OF geo, of g l] gl A(4) by (simp add: S)
  then have "b \<in> used_blocks fs1" unfolding used_blocks_def S using gl by blast
  from dealloc_block_spec[OF A(2) this bd] obtain fs2 where "dealloc_block b fs1 = Some fs2" "fs_inv fs2"
    "free_blocks fs2 = insert b (free_blocks fs1)" "keeps_data fs1 fs2" "fs_synced fs2" using A(5) by blast
  then show ?thesis using A(1,4,6) by (auto simp: keeps_data_def S)
qed

text \<open>C19.  \<open>alloc_inumber\<close> panics exactly when no inode number is free; otherwise it takes one free
  number, never zero, and releasing that number with \<open>dealloc_inumber\<close> gives the set of free numbers
  back.  Neither call touches a data block or a free block, and both leave memory and drive consistent.\<close>

theorem inumber_alloc_dealloc:
  assumes "fs_inv fs" "fs_synced fs"
  shows "case alloc_inumber mode fs of
      None \<Rightarrow> free_inumbers fs = {}
    | Some (n, fs1) \<Rightarrow> n \<in> free_inumbers fs \<and> n \<noteq> 0 \<and> free_inumbers fs1 = free_inumbers fs - {n}
        \<and> free_blocks fs1 = free_blocks fs \<and> keeps_data fs fs1 \<and> fs_inv fs1 \<and> fs_synced fs1
        \<and> (\<exists>fs2. dealloc_inumber n mode' fs1 = Some fs2 \<and> free_inumbers fs2 = free_inumbers fs
             \<and> free_blocks fs2 = free_blocks fs \<and> keeps_data fs1 fs2 \<and> fs_inv fs2 \<and> fs_synced fs2)"
proof (cases "alloc_inumber mode fs")
  case None
  then show ?thesis using alloc_inumber_spec[OF assms(1), of mode] by auto
next
  case (Some r)
  obtain n fs1 where r: "r = (n, fs1)" by (cases r)
  have A: "n \<in> free_inumbers fs" "n \<noteq> 0" "fs_inv fs1" "same_shape fs fs1" "free_inumbers fs1 = free_inumbers fs - {n}"
    "free_blocks fs1 = free_blocks fs" "keeps_data fs fs1" "fs_synced fs1"
    using alloc_inumber_spec[OF assms(1), of mode] assms(2) Some r by auto
  note S = same_shapeD[OF A(4)]
  obtain g l where gl: "n = inumber_at fs g l" "g < unat (num_block_groups fs)" "l < unat (sb_inodes_per_group (superblock fs))"
    using A(1) by (auto simp: free_inumbers_def)
  have geo: "geometry_ok fs1" using A(3) by (auto simp: fs_inv_def meta_inv_def)
  have "bitmap_test (inode_bitmaps fs1 ! g) l"
    using free_inumbers_iff[OF geo, of g l] gl A(5) by (simp add: S)
  then have "n \<in> used_inumbers fs1" unfolding used_inumbers_def S using gl by blast
  from dealloc_inumber_spec[OF A(3) this] obtain fs2 where "dealloc_inumber n mode' fs1 = Some fs2" "fs_inv fs2"
    "free_inumbers fs2 = insert n (free_inumbers fs1)" "free_blocks fs2 = free_blocks fs1" "keeps_data fs1 fs2" "fs_synced fs2"
    using A(8) by blast
  then show ?thesis using A Some r by auto
qed

end
