(* ===== verification/Ext2_Image.thy ===== *)
theory Ext2_Image
  imports Ext2_Alloc
begin

text \<open>
  A small ext2 image, mounted: one group of sixteen 1 KiB blocks, of which 8 to 16 are free, and
  eight inodes, of which the last five are free.  It shows that the invariants of the file
  system can hold and serves as the instance of its theorems.
\<close>

definition ex_sb :: bytes where
  "ex_sb = put32 4 17 (put32 12 9 (put32 16 5 (put32 20 1 (put32 32 16 (put32 40 8 (put16 56 0xEF53 (put16 88 128
     (replicate 1024 0))))))))"

definition ex_bgd :: bytes where
  "ex_bgd = put32 0 3 (put32 4 4 (put32 8 5 (put16 12 9 (put16 14 5 (put16 16 1 (replicate 512 0))))))"

definition ex_block_bitmap :: bytes where "ex_block_bitmap = 0x7F # replicate 1023 0"
definition ex_inode_bitmap :: bytes where "ex_inode_bitmap = 0x07 # replicate 1023 0"

definition ex_drive :: sd_drive where
  "ex_drive = snd (sd_write_blocks (snd (sd_write_blocks (snd (sd_write_blocks (snd (sd_write_blocks zero_drive
     2 2 ex_sb)) 4 1 ex_bgd)) 6 2 ex_block_bitmap)) 8 2 ex_inode_bitmap)"

definition ex_fs :: ext2 where
  "ex_fs = \<lparr>superblock = ex_sb, num_block_groups = 1, bgd_offset = 2048, bgd_table = ex_bgd,
     inode_bitmaps = [ex_inode_bitmap], block_bitmaps = [ex_block_bitmap],
     fs_bcache = bcache_init 1024 (replicate 32 (replicate 1024 0)), metadata_lock = False, inode_lock = False,
     initialized = True, fs_drive = ex_drive\<rparr>"

lemma ex_sb_fields: "length ex_sb = 1024" "sb_first_data_block ex_sb = 1" "sb_log_block_size ex_sb = 0"
  "sb_blocks_per_group ex_sb = 16" "sb_inodes_per_group ex_sb = 8" "sb_inode_size ex_sb = 128"
proof -
  have z: "get32 24 (replicate 1024 0) = 0" by (simp add: get32_def dec32_def chunk_def)
  show "length ex_sb = 1024" "sb_first_data_block ex_sb = 1" "sb_log_block_size ex_sb = 0"
    "sb_blocks_per_group ex_sb = 16" "sb_inodes_per_group ex_sb = 8" "sb_inode_size ex_sb = 128"
    by (simp_all add: ex_sb_def sb_first_data_block_def sb_log_block_size_def sb_blocks_per_group_def sb_inodes_per_group_def
      sb_inode_size_def buffer_simps z)
qed

lemma ex_bgd_fields: "length ex_bgd = 512" "bgd_block_bitmap 0 ex_bgd = 3" "bgd_inode_bitmap 0 ex_bgd = 4"
  "bgd_inode_table 0 ex_bgd = 5"
  "bgd_free_blocks_count 0 ex_bgd = 9" "bgd_free_inodes_count 0 ex_bgd = 5"
  by (simp_all add: ex_bgd_def bgd_block_bitmap_def bgd_inode_bitmap_def bgd_inode_table_def
    bgd_free_blocks_count_def bgd_free_inodes_count_def buffer_simps)

lemma ex_block_size: "ext2_get_block_size ex_fs = 1024"
  by (simp add: ext2_get_block_size_def ex_fs_def ex_sb_fields)

lemma free_count_code: "free_count n bm = length (filter (\<lambda>l. \<not> bitmap_test bm l) [0..<n])"
proof -
  have "{l. l < n \<and> \<not> bitmap_test bm l} = set (filter (\<lambda>l. \<not> bitmap_test bm l) [0..<n])" by auto
  then show ?thesis unfolding free_count_def by (simp only: distinct_card distinct_filter distinct_upt)
qed

lemma ex_bits: "l < 16 \<Longrightarrow> bitmap_test ex_block_bitmap l \<longleftrightarrow> l < 7" "l < 8 \<Longrightarrow> bitmap_test ex_inode_bitmap l \<longleftrightarrow> l < 3"
proof -
  have "\<forall>l \<in> set [0..<16]. bitmap_test (0x7F # replicate 1023 0) l \<longleftrightarrow> l < 7" by code_simp
  then show "l < 16 \<Longrightarrow> bitmap_test ex_block_bitmap l \<longleftrightarrow> l < 7" by (auto simp: ex_block_bitmap_def)
  have "\<forall>l \<in> set [0..<8]. bitmap_test (0x07 # replicate 1023 0) l \<longleftrightarrow> l < 3" by code_simp
  then show "l < 8 \<Longrightarrow> bitmap_test ex_inode_bitmap l \<longleftrightarrow> l < 3" by (auto simp: ex_inode_bitmap_def)
qed

lemma sectors_apart:
  assumes "unat st + unat n \<le> unat st'" "unat st' + unat n' \<le> 4294967296"
  shows "sectors st n \<inter> sectors st' n' = {}" "sectors st' n' \<inter> sectors st n = {}"
proof -
  have "False" if "s - st < n" "s - st' < n'" for s
    using that assms unat_word32_less[of s] by (auto simp: word_less_nat_alt unat_diff_u32 split: if_splits)
  then show "sectors st n \<inter> sectors st' n' = {}" "sectors st' n' \<inter> sectors st n = {}" by (auto simp: sectors_def)
qed

lemma ex_regions: "block_sectors 1024 3 = sectors 6 2" "block_sectors 1024 4 = sectors 8 2"
  "bgd_offset ex_fs div SD_SECTOR_SIZE_BYTES = 4" "bgd_table_sectors 1 = 1" "num_block_groups ex_fs = 1"
  by (simp_all add: block_sectors_def block_sector_def SD_SECTOR_SIZE_BYTES_def ex_fs_def bgd_table_sectors_def)

lemma ex_meta_sectors: "meta_sectors ex_fs = sectors 2 2 \<union> sectors 4 1 \<union> sectors 6 2 \<union> sectors 8 2"
  using ex_regions by (simp add: meta_sectors_def ex_block_size ex_bgd_fields) (simp add: ex_fs_def ex_bgd_fields ex_regions lessThan_Suc)

lemma ex_data_block:
  fixes b :: u32
  assumes "5 \<le> b" "b \<le> 16"
  shows "data_block ex_fs b"
proof -
  have b: "5 \<le> unat b" "unat b \<le> 16" using assms by (simp_all add: word_le_nat_alt)
  have "unat (block_sector 1024 b) = 2 * unat b"
    using b by (simp add: block_sector_def SD_SECTOR_SIZE_BYTES_def unat_div unat_mult_u32)
  moreover have "1024 div SD_SECTOR_SIZE_BYTES = 2" by (simp add: SD_SECTOR_SIZE_BYTES_def)
  ultimately obtain s where s: "block_sectors 1024 b = sectors s 2" "unat s = 2 * unat b" by (auto simp: block_sectors_def)
  have "sectors 2 2 \<inter> sectors s 2 = {}" "sectors 4 1 \<inter> sectors s 2 = {}" "sectors 6 2 \<inter> sectors s 2 = {}" "sectors 8 2 \<inter> sectors s 2 = {}"
    using b s(2) by (intro sectors_apart; simp)+
  then show ?thesis using b by (auto simp: data_block_def ex_block_size ex_meta_sectors s(1) block_valid_def)
qed

lemma ex_itable_blocks: "itable_blocks ex_fs = {5}"
proof -
  have "inode_block_at ex_fs 0 l = 5" if "l < 8" for l
    using that by (simp add: inode_block_at_def inodes_per_block_def ex_block_size) (simp add: ext2_get_inode_size_def ex_fs_def ex_sb_fields ex_bgd_fields)
  moreover have "unat (num_block_groups ex_fs) = 1" "unat (sb_inodes_per_group (superblock ex_fs)) = 8"
    by (simp_all add: ex_fs_def ex_sb_fields)
  ultimately show ?thesis unfolding itable_blocks_def by (auto intro: exI[of _ 0])
qed

lemma ex_file_block: "8 \<le> b \<Longrightarrow> b \<le> 16 \<Longrightarrow> file_block ex_fs b"
  by (auto simp: file_block_def ex_itable_blocks word_le_nat_alt intro!: ex_data_block)

lemma ex_free_blocks: "free_blocks ex_fs = {8..16}"
proof -
  have at: "block_at ex_fs 0 l = 1 + of_nat l" for l by (simp add: block_at_def ext2_block_group_start_def ex_fs_def ex_sb_fields)
  have bm: "block_bitmaps ex_fs ! 0 = ex_block_bitmap" "unat (sb_blocks_per_group (superblock ex_fs)) = 16"
    by (simp_all add: ex_fs_def ex_sb_fields)
  have "free_blocks ex_fs = (\<lambda>l. 1 + of_nat l) ` {7..<16}"
    unfolding free_blocks_def ex_regions using ex_bits(1) by (fastforce simp: at bm)
  also have "\<dots> = {8..16}"
  proof (intro set_eqI iffI)
    fix x :: u32 assume "x \<in> {8..16}"
    then have "x = 1 + of_nat (unat x - 1)" "unat x - 1 \<in> {7..<16}" by (auto simp: word_le_nat_alt word_unat_eq_iff unat_word_ariths)
    then show "x \<in> (\<lambda>l. 1 + of_nat l) ` {7..<16}" by (rule image_eqI)
  qed (auto simp: word_le_nat_alt unat_word_ariths unat_of_nat)
  finally show ?thesis .
qed

lemma ex_meta_inv: "meta_inv ex_fs"
proof -
  have "free_count 16 ex_block_bitmap = 9" "free_count 8 ex_inode_bitmap = 5"
    unfolding free_count_code ex_block_bitmap_def ex_inode_bitmap_def by code_simp+
  moreover have "geometry_ok ex_fs"
    unfolding geometry_ok_def ex_block_size ex_regions
    by (simp add: ex_fs_def ex_sb_fields ex_bgd_fields block_size_ok_def)
  ultimately show ?thesis
    unfolding meta_inv_def ex_block_size ex_regions
    by (simp add: ex_fs_def ex_sb_fields ex_bgd_fields ex_block_bitmap_def ex_inode_bitmap_def)
qed

lemma ex_drive_ok: "drive_ok ex_drive"
proof -
  have "drive_ok zero_drive" by (simp add: drive_ok_def zero_drive_def)
  then show ?thesis unfolding ex_drive_def
    by (intro drive_ok_sd_write(1)) (simp_all add: ex_sb_fields ex_bgd_fields ex_block_bitmap_def ex_inode_bitmap_def)
qed

lemma ex_fs_inv: "fs_inv ex_fs"
proof -
  have "bcache_inv (fs_bcache ex_fs) (fs_drive ex_fs)"
    unfolding ex_fs_def ext2.select_convs by (rule bcache_init_inv) (simp_all add: ex_drive_ok block_size_ok_def BCACHE_SIZE_def)
  then have "cache_ok ex_fs"
    by (simp add: cache_ok_def ex_block_size) (simp add: ex_fs_def bcache_init_def BCACHE_SIZE_def)
  moreover have "\<forall>b \<in> free_blocks ex_fs. file_block ex_fs b" using ex_file_block by (simp add: ex_free_blocks)
  ultimately show ?thesis using ex_meta_inv by (simp add: fs_inv_def) (simp add: ex_fs_def)
qed

lemma ex_layout: "layout_ok ex_fs"
proof -
  have b: "bitmap_blocks ex_fs = [3, 4]" by (simp add: bitmap_blocks_def ex_regions) (simp add: ex_fs_def ex_bgd_fields)
  have "sectors 2 2 \<inter> sectors 4 1 = {}" "sectors 6 2 \<inter> sectors 2 2 = {}" "sectors 8 2 \<inter> sectors 2 2 = {}"
    "sectors 6 2 \<inter> sectors 4 1 = {}" "sectors 8 2 \<inter> sectors 4 1 = {}"
    by (rule sectors_apart; simp)+
  then show ?thesis by (auto simp: layout_ok_def b ex_regions ex_block_size block_valid_def)
qed

lemma ex_synced: "fs_synced ex_fs"
proof -
  let ?d1 = "snd (sd_write_blocks zero_drive 2 2 ex_sb)"
  let ?d2 = "snd (sd_write_blocks ?d1 4 1 ex_bgd)"
  let ?d3 = "snd (sd_write_blocks ?d2 6 2 ex_block_bitmap)"
  have len: "length ex_sb = 512 * unat (2 :: u32)" "length ex_bgd = 512 * unat (1 :: u32)"
    "length ex_block_bitmap = 512 * unat (2 :: u32)" "length ex_inode_bitmap = 512 * unat (2 :: u32)"
    by (simp_all add: ex_sb_fields ex_bgd_fields ex_block_bitmap_def ex_inode_bitmap_def)
  have ap: "sectors 2 2 \<inter> sectors 4 1 = {}" "sectors 2 2 \<inter> sectors 6 2 = {}" "sectors 2 2 \<inter> sectors 8 2 = {}"
    "sectors 4 1 \<inter> sectors 6 2 = {}" "sectors 4 1 \<inter> sectors 8 2 = {}" "sectors 6 2 \<inter> sectors 8 2 = {}"
    by (rule sectors_apart; simp)+
  note w = agree_read[OF agree_write]
  have "snd (sd_read_blocks ex_drive 2 2) = ex_sb"
    unfolding ex_drive_def w[OF ap(3)] w[OF ap(2)] w[OF ap(1)] by (rule sd_read_written[OF len(1)])
  moreover have "snd (sd_read_blocks ex_drive 4 1) = ex_bgd"
    unfolding ex_drive_def w[OF ap(5)] w[OF ap(4)] by (rule sd_read_written[OF len(2)])
  moreover have "snd (sd_read_blocks ex_drive 6 2) = ex_block_bitmap"
    unfolding ex_drive_def w[OF ap(6)] by (rule sd_read_written[OF len(3)])
  moreover have "snd (sd_read_blocks ex_drive 8 2) = ex_inode_bitmap"
    unfolding ex_drive_def by (rule sd_read_written[OF len(4)])
  moreover have "block_sector 1024 3 = 6" "block_sector 1024 4 = 8" "1024 div SD_SECTOR_SIZE_BYTES = 2"
    by (simp_all add: block_sector_def SD_SECTOR_SIZE_BYTES_def)
  ultimately show ?thesis
    unfolding fs_synced_def ex_regions ex_block_size drive_block_def
    by (simp add: ex_layout) (simp add: ex_fs_def ex_bgd_fields)
qed

theorem alloc_block_exact_witness:
  "\<exists>b fs'. alloc_block ex_fs = Some (b, fs') \<and> b \<in> {8..16} \<and> free_blocks fs' = {8..16} - {b} \<and> fs_block fs' b = replicate 1024 0 \<and> fs_synced fs'"
proof (cases "alloc_block ex_fs")
  case None
  then show ?thesis using alloc_block_exact[OF ex_fs_inv ex_synced] ex_free_blocks by simp
next
  case (Some r)
  then show ?thesis using alloc_block_exact[OF ex_fs_inv ex_synced] ex_free_blocks ex_file_block
    by (cases r) (auto simp: ex_block_size file_block_def)
qed

lemma ex_alloc: "\<exists>b fs'. alloc_block ex_fs = Some (b, fs')"
  using alloc_block_spec[OF ex_fs_inv] ex_free_blocks by auto

theorem dealloc_block_undoes_alloc_witness:
  "\<exists>b fs1 fs2. alloc_block ex_fs = Some (b, fs1) \<and> dealloc_block b fs1 = Some fs2 \<and> free_blocks fs2 = {8..16} \<and> fs_inv fs2"
proof -
  obtain b fs1 where "alloc_block ex_fs = Some (b, fs1)" using ex_alloc by blast
  then show ?thesis using dealloc_block_undoes_alloc[OF ex_fs_inv ex_synced, of b fs1] ex_free_blocks by auto
qed

theorem inumber_alloc_dealloc_witness:
  "\<exists>n fs1 fs2. alloc_inumber 0x41ED ex_fs = Some (n, fs1) \<and> n \<in> free_inumbers ex_fs
     \<and> dealloc_inumber n 0x41ED fs1 = Some fs2 \<and> free_inumbers fs2 = free_inumbers ex_fs"
proof -
  have "inumber_at ex_fs 0 3 \<in> free_inumbers ex_fs"
    unfolding free_inumbers_def ex_regions using ex_bits(2)[of 3] by (auto simp: ex_fs_def ex_sb_fields intro!: exI[of _ 3])
  then show ?thesis
    using inumber_alloc_dealloc[OF ex_fs_inv ex_synced, of "0x41ED" "0x41ED"]
    by (auto split: option.splits)
qed

end
