(* ===== verification/Ext2_Tree.thy ===== *)
theory Ext2_Tree
  imports Prelude Bytes
begin

text \<open>
  The shape of an ext2 block map: pointer trees of a fixed fan-out \<open>e\<close>, packed from the left,
  and a row of such trees of different depths.  A tree lives in a store \<open>m\<close> that gives the
  pointers in a block; its blocks are distinct.  Nothing here depends on the file system code.
\<close>

section \<open>Trees\<close>

text \<open>The block number at leaf \<open>r\<close> of the tree with root \<open>b\<close>, zero when a pointer on the way is zero.\<close>

primrec leaf :: "nat \<Rightarrow> (u32 \<Rightarrow> u32 list) \<Rightarrow> nat \<Rightarrow> u32 \<Rightarrow> nat \<Rightarrow> u32" where
  "leaf e m 0 b r = b"
| "leaf e m (Suc d) b r = (if b = 0 then 0 else leaf e m d (m b ! (r div e ^ d)) (r mod e ^ d))"

text \<open>All blocks of a tree, pointer blocks and leaves.\<close>

primrec tree_set :: "nat \<Rightarrow> (u32 \<Rightarrow> u32 list) \<Rightarrow> nat \<Rightarrow> u32 \<Rightarrow> u32 set" where
  "tree_set e m 0 b = (if b = 0 then {} else {b})"
| "tree_set e m (Suc d) b = (if b = 0 then {} else insert b (\<Union>k < e. tree_set e m d (m b ! k)))"

text \<open>A tree with \<open>n\<close> leaves, packed from the left, none of whose blocks occurs twice.\<close>

primrec tree_ok :: "nat \<Rightarrow> (u32 \<Rightarrow> u32 list) \<Rightarrow> nat \<Rightarrow> u32 \<Rightarrow> nat \<Rightarrow> bool" where
  "tree_ok e m 0 b n \<longleftrightarrow> n \<le> 1 \<and> (b = 0 \<longleftrightarrow> n = 0)"
| "tree_ok e m (Suc d) b n \<longleftrightarrow> n \<le> e * e ^ d \<and> (b = 0 \<longleftrightarrow> n = 0) \<and>
     (b \<noteq> 0 \<longrightarrow> length (m b) = e
        \<and> (\<forall>k < e. tree_ok e m d (m b ! k) (min (e ^ d) (n - k * e ^ d)))
        \<and> (\<forall>k < e. b \<notin> tree_set e m d (m b ! k))
        \<and> (\<forall>j < e. \<forall>k < e. j \<noteq> k \<longrightarrow> tree_set e m d (m b ! j) \<inter> tree_set e m d (m b ! k) = {}))"

lemma zero_notin_tree [simp]: "0 \<notin> tree_set e m d b"
  by (induction d arbitrary: b) auto

lemma leaf_zero [simp]: "leaf e m d 0 r = 0"
  by (cases d) auto

lemma tree_set_zero [simp]: "tree_set e m d 0 = {}"
  by (cases d) auto

lemma tree_ok_zero: "tree_ok e m d b n \<Longrightarrow> b = 0 \<longleftrightarrow> n = 0"
  by (cases d) auto

lemma tree_ok_zero0 [simp]: "tree_ok e m d 0 n \<longleftrightarrow> n = 0"
  by (cases d) auto

lemma tree_ok_le: "tree_ok e m d b n \<Longrightarrow> n \<le> e ^ d"
  by (cases d) auto

lemma root_in_tree: "b \<noteq> 0 \<Longrightarrow> b \<in> tree_set e m d b"
  by (cases d) auto

text \<open>The pointer blocks of a tree.\<close>

primrec tree_nodes :: "nat \<Rightarrow> (u32 \<Rightarrow> u32 list) \<Rightarrow> nat \<Rightarrow> u32 \<Rightarrow> u32 set" where
  "tree_nodes e m 0 b = {}"
| "tree_nodes e m (Suc d) b = (if b = 0 then {} else insert b (\<Union>k < e. tree_nodes e m d (m b ! k)))"

lemma tree_nodes_subset: "tree_nodes e m d b \<subseteq> tree_set e m d b"
proof (induction d arbitrary: b)
  case (Suc d)
  then show ?case by (simp add: subset_iff) blast
qed simp

lemma zero_notin_nodes [simp]: "0 \<notin> tree_nodes e m d b"
  using tree_nodes_subset[of e m d b] zero_notin_tree by blast

lemma tree_agree_nodes:
  "(\<And>x. x \<in> tree_nodes e m d b \<Longrightarrow> m' x = m x) \<Longrightarrow>
    tree_set e m' d b = tree_set e m d b \<and> (\<forall>r < e ^ d. leaf e m' d b r = leaf e m d b r)
    \<and> (\<forall>n. tree_ok e m' d b n = tree_ok e m d b n) \<and> tree_nodes e m' d b = tree_nodes e m d b"
proof (induction d arbitrary: b)
  case (Suc d)
  have k: "tree_set e m' d (m b ! k) = tree_set e m d (m b ! k) \<and> (\<forall>r < e ^ d. leaf e m' d (m b ! k) r = leaf e m d (m b ! k) r)
    \<and> (\<forall>n. tree_ok e m' d (m b ! k) n = tree_ok e m d (m b ! k) n) \<and> tree_nodes e m' d (m b ! k) = tree_nodes e m d (m b ! k)"
    if "k < e" "b \<noteq> 0" for k
    by (rule Suc.IH) (use that Suc.prems in auto)
  have b: "m' b = m b" if "b \<noteq> 0" using that Suc.prems by auto
  have "r div e ^ d < e \<and> r mod e ^ d < e ^ d" if "r < e ^ Suc d" for r
    using that by (cases "e = 0") (auto simp: less_mult_imp_div_less)
  then show ?case using k b by (cases "b = 0") auto
qed auto

lemma tree_agree:
  "(\<And>x. x \<in> tree_set e m d b \<Longrightarrow> m' x = m x) \<Longrightarrow>
    tree_set e m' d b = tree_set e m d b \<and> (\<forall>r < e ^ d. leaf e m' d b r = leaf e m d b r)
    \<and> (\<forall>n. tree_ok e m' d b n = tree_ok e m d b n)"
  using tree_agree_nodes[of e m d b m'] tree_nodes_subset[of e m d b] by blast

lemmas tree_set_agree = tree_agree[THEN conjunct1]
lemmas leaf_agree = tree_agree[THEN conjunct2, THEN conjunct1, rule_format]
lemmas tree_ok_agree = tree_agree[THEN conjunct2, THEN conjunct2, rule_format]

text \<open>Past the last leaf there is nothing.\<close>

lemma leaf_beyond: "tree_ok e m d b n \<Longrightarrow> r < e ^ d \<Longrightarrow> leaf e m d b r = 0 \<longleftrightarrow> n \<le> r"
proof (induction d arbitrary: b n r)
  case (Suc d)
  show ?case
  proof (cases "b = 0")
    case False
    let ?k = "r div e ^ d"
    have e: "e \<noteq> 0" using Suc.prems(2) by (cases e) auto
    have k: "?k < e" "r mod e ^ d < e ^ d" using Suc.prems(2) e by (auto simp: less_mult_imp_div_less)
    have "tree_ok e m d (m b ! ?k) (min (e ^ d) (n - ?k * e ^ d))" using Suc.prems(1) False k by simp
    from Suc.IH[OF this k(2)] have "leaf e m (Suc d) b r = 0 \<longleftrightarrow> n - ?k * e ^ d \<le> r mod e ^ d"
      using False k(2) by auto
    moreover have "r = ?k * e ^ d + r mod e ^ d" by (simp only: div_mult_mod_eq)
    ultimately show ?thesis by linarith
  qed (use Suc.prems in simp)
qed auto

lemma leaf_in_tree: "r < e ^ d \<Longrightarrow> leaf e m d b r \<noteq> 0 \<Longrightarrow> leaf e m d b r \<in> tree_set e m d b"
proof (induction d arbitrary: b r)
  case (Suc d)
  have e: "e \<noteq> 0" using Suc.prems(1) by (cases e) auto
  have k: "r div e ^ d < e" "r mod e ^ d < e ^ d" using Suc.prems(1) e by (auto simp: less_mult_imp_div_less)
  show ?case using Suc.IH[OF k(2), of "m b ! (r div e ^ d)"] Suc.prems(2) k(1) by (auto split: if_splits)
qed auto

lemma leaf_no_node: "tree_ok e m d b n \<Longrightarrow> r < e ^ d \<Longrightarrow> leaf e m d b r \<notin> tree_nodes e m d b"
proof (induction d arbitrary: b n r)
  case (Suc d)
  show ?case
  proof (cases "b = 0")
    case False
    let ?k = "r div e ^ d" and ?l = "leaf e m (Suc d) b r"
    have e: "e \<noteq> 0" using Suc.prems(2) by (cases e) auto
    have k: "?k < e" "r mod e ^ d < e ^ d" using Suc.prems(2) e by (auto simp: less_mult_imp_div_less)
    have l: "?l = leaf e m d (m b ! ?k) (r mod e ^ d)" using False by simp
    have ok: "tree_ok e m d (m b ! ?k) (min (e ^ d) (n - ?k * e ^ d))" using Suc.prems(1) False k by simp
    have "?l \<notin> tree_nodes e m d (m b ! j)" if "j < e" for j
    proof (cases "j = ?k \<or> ?l = 0")
      case True
      then show ?thesis using Suc.IH[OF ok k(2)] l tree_nodes_subset[of e m d "m b ! j"] zero_notin_tree by (metis subsetD)
    next
      case False
      then have "?l \<in> tree_set e m d (m b ! ?k)" using leaf_in_tree[OF k(2)] l by metis
      moreover have "tree_set e m d (m b ! j) \<inter> tree_set e m d (m b ! ?k) = {}" using Suc.prems(1) \<open>b \<noteq> 0\<close> k(1) that False by simp
      ultimately show ?thesis using tree_nodes_subset[of e m d "m b ! j"] by blast
    qed
    moreover have "?l \<noteq> b"
    proof
      assume "?l = b"
      then have "b \<in> tree_set e m d (m b ! ?k)" using leaf_in_tree[OF k(2), of m "m b ! ?k"] l False by metis
      then show False using Suc.prems(1) False k(1) by simp
    qed
    ultimately show ?thesis using False by auto
  qed simp
qed auto

text \<open>Different leaves hold different blocks.\<close>

lemma leaf_inj:
  "tree_ok e m d b n \<Longrightarrow> r < e ^ d \<Longrightarrow> r' < e ^ d \<Longrightarrow> leaf e m d b r = leaf e m d b r' \<Longrightarrow> leaf e m d b r \<noteq> 0 \<Longrightarrow> r = r'"
proof (induction d arbitrary: b n r r')
  case (Suc d)
  let ?k = "r div e ^ d" and ?k' = "r' div e ^ d"
  have e: "e \<noteq> 0" using Suc.prems(2) by (cases e) auto
  have b: "b \<noteq> 0" using Suc.prems(5) by auto
  have k: "?k < e" "r mod e ^ d < e ^ d" "?k' < e" "r' mod e ^ d < e ^ d"
    using Suc.prems(2,3) e by (auto simp: less_mult_imp_div_less)
  have l: "leaf e m d (m b ! ?k) (r mod e ^ d) = leaf e m d (m b ! ?k') (r' mod e ^ d)" "leaf e m d (m b ! ?k) (r mod e ^ d) \<noteq> 0"
    using Suc.prems(4,5) b by auto
  have "?k = ?k'"
  proof (rule ccontr)
    assume "?k \<noteq> ?k'"
    then have "tree_set e m d (m b ! ?k) \<inter> tree_set e m d (m b ! ?k') = {}" using Suc.prems(1) b k by simp
    then show False using leaf_in_tree[OF k(2) l(2)] leaf_in_tree[OF k(4), of m "m b ! ?k'"] l by auto
  qed
  moreover have "tree_ok e m d (m b ! ?k) (min (e ^ d) (n - ?k * e ^ d))" using Suc.prems(1) b k by simp
  from Suc.IH[OF this k(2,4)] have "r mod e ^ d = r' mod e ^ d" using l \<open>?k = ?k'\<close> by simp
  ultimately show ?case by (metis div_mult_mod_eq)
qed auto


section \<open>Rows of trees\<close>

text \<open>Tree \<open>k\<close> of a row has depth \<open>dep k\<close> and holds the leaves from \<open>base k\<close> on.\<close>

definition row_ok :: "nat \<Rightarrow> (nat \<Rightarrow> nat) \<Rightarrow> (nat \<Rightarrow> nat) \<Rightarrow> nat \<Rightarrow> (u32 \<Rightarrow> u32 list) \<Rightarrow> (nat \<Rightarrow> u32) \<Rightarrow> nat \<Rightarrow> bool" where
  "row_ok N dep base e m f n \<longleftrightarrow>
     (\<forall>k < N. tree_ok e m (dep k) (f k) (min (e ^ dep k) (n - base k)))
     \<and> (\<forall>j < N. \<forall>k < N. j \<noteq> k \<longrightarrow> tree_set e m (dep j) (f j) \<inter> tree_set e m (dep k) (f k) = {})"

definition row_set :: "nat \<Rightarrow> (nat \<Rightarrow> nat) \<Rightarrow> nat \<Rightarrow> (u32 \<Rightarrow> u32 list) \<Rightarrow> (nat \<Rightarrow> u32) \<Rightarrow> u32 set" where
  "row_set N dep e m f = (\<Union>k < N. tree_set e m (dep k) (f k))"

lemma tree_ok_row:
  "tree_ok e m (Suc d) b n \<longleftrightarrow> n \<le> e ^ Suc d \<and> (b = 0 \<longleftrightarrow> n = 0) \<and>
     (b \<noteq> 0 \<longrightarrow> length (m b) = e \<and> b \<notin> row_set e (\<lambda>_. d) e m ((!) (m b))
        \<and> row_ok e (\<lambda>_. d) (\<lambda>k. k * e ^ d) e m ((!) (m b)) n)"
  by (auto simp: row_ok_def row_set_def)

text \<open>Replacing the tree in slot \<open>k\<close>, the one that holds leaf \<open>n\<close>, by one that has that leaf.\<close>

lemma row_ok_step:
  assumes ok: "row_ok N dep base e m f n" and k: "k < N" "base k \<le> n" "n < base k + e ^ dep k"
    and base: "\<And>j. Suc j < N \<Longrightarrow> base (Suc j) = base j + e ^ dep j"
    and c: "tree_ok e m' (dep k) c (Suc (n - base k))"
    and same: "\<And>j x. j < N \<Longrightarrow> j \<noteq> k \<Longrightarrow> x \<in> tree_set e m (dep j) (f j) \<Longrightarrow> m' x = m x \<and> x \<notin> tree_set e m' (dep k) c"
  shows "row_ok N dep base e m' (f(k := c)) (Suc n)"
    "row_set N dep e m' (f(k := c)) = tree_set e m' (dep k) c \<union> (\<Union>j \<in> {..<N} - {k}. tree_set e m (dep j) (f j))"
proof -
  have mono: "base i + e ^ dep i \<le> base j" if "i < j" "j < N" for i j
    using that
  proof (induction j)
    case (Suc j)
    then show ?case using base[of j] by (cases "i = j") auto
  qed simp
  have other: "tree_set e m' (dep j) (f j) = tree_set e m (dep j) (f j)"
    "tree_ok e m' (dep j) (f j) n' = tree_ok e m (dep j) (f j) n'" if "j < N" "j \<noteq> k" for j n'
    using tree_agree[of e m "dep j" "f j" m'] same that by auto
  have cnt: "min (e ^ dep j) (Suc n - base j) = min (e ^ dep j) (n - base j)" if "j < N" "j \<noteq> k" for j
    using mono[of j k] mono[of k j] that k by (cases "j < k") auto
  have apart: "tree_set e m' (dep k) c \<inter> tree_set e m' (dep j) (f j) = {}" if "j < N" "j \<noteq> k" for j
    using same[OF that] other(1)[OF that] by blast
  have cntk: "min (e ^ dep k) (Suc n - base k) = Suc (n - base k)" using k by auto
  show "row_ok N dep base e m' (f(k := c)) (Suc n)"
    unfolding row_ok_def
  proof (intro conjI allI impI)
    fix j assume "j < N"
    then show "tree_ok e m' (dep j) ((f(k := c)) j) (min (e ^ dep j) (Suc n - base j))"
      using c cntk cnt[of j] other(2)[of j] ok by (cases "j = k") (auto simp: row_ok_def)
  next
    fix i j assume "i < N" "j < N" "i \<noteq> j"
    then show "tree_set e m' (dep i) ((f(k := c)) i) \<inter> tree_set e m' (dep j) ((f(k := c)) j) = {}"
      using apart[of i] apart[of j] other(1)[of i] other(1)[of j] ok by (cases "i = k"; cases "j = k") (auto simp: row_ok_def)
  qed
  show "row_set N dep e m' (f(k := c)) = tree_set e m' (dep k) c \<union> (\<Union>j \<in> {..<N} - {k}. tree_set e m (dep j) (f j))"
    using k(1) other(1) by (auto simp: row_set_def split: if_splits)
qed


lemma row_cong:
  assumes "\<And>k. k < N \<Longrightarrow> f k = g k"
  shows "row_ok N dep base e m f n = row_ok N dep base e m g n" "row_set N dep e m f = row_set N dep e m g"
  using assms by (auto simp: row_ok_def row_set_def)

lemma row_set_zero: "(\<And>k. k < N \<Longrightarrow> f k = 0) \<Longrightarrow> row_set N dep e m f = {}"
  by (simp add: row_set_def)

lemma row_ok_zero: "(\<And>k. k < N \<Longrightarrow> f k = 0) \<Longrightarrow> row_ok N dep base e m f 0"
  by (simp add: row_ok_def)

text \<open>The same one level up: a tree grows by one leaf when the subtree of that leaf does.\<close>

lemma tree_close:
  assumes row: "row_ok e (\<lambda>_. d) (\<lambda>k. k * e ^ d) e m ((!) (m b)) n" and b: "b \<noteq> 0" "length (m b) = e" "n < e ^ Suc d"
    and k: "k = n div e ^ d" and c: "tree_ok e m' d c (Suc (n mod e ^ d))" "m' b = (m b)[k := c]" "b \<notin> tree_set e m' d c"
    and out: "b \<notin> row_set e (\<lambda>_. d) e m ((!) (m b))"
    and same: "\<And>x. x \<in> row_set e (\<lambda>_. d) e m ((!) (m b)) \<Longrightarrow> x \<notin> tree_set e m d (m b ! k) \<Longrightarrow>
        m' x = m x \<and> x \<notin> tree_set e m' d c"
  shows "tree_ok e m' (Suc d) b (Suc n)"
    "tree_set e m' (Suc d) b = insert b (tree_set e m' d c \<union> (row_set e (\<lambda>_. d) e m ((!) (m b)) - tree_set e m d (m b ! k)))"
    "q < e ^ Suc d \<Longrightarrow> leaf e m' (Suc d) b q = (if q div e ^ d = k then leaf e m' d c (q mod e ^ d) else leaf e m (Suc d) b q)"
proof -
  have e: "0 < e ^ d" using b(3) by (cases "e = 0") auto
  have r: "n mod e ^ d = n - k * e ^ d" unfolding k by (rule modulo_nat_def)
  have lk: "k < e" "k * e ^ d \<le> n" "n < k * e ^ d + e ^ d"
    using b(3) e mod_less_divisor[OF e, of n] r unfolding k by (auto simp: less_mult_imp_div_less)
  have apart: "x \<notin> tree_set e m d (m b ! k)" if "j < e" "j \<noteq> k" "x \<in> tree_set e m d (m b ! j)" for j x
    using row lk(1) that by (auto simp: row_ok_def)
  have oth: "m' x = m x \<and> x \<notin> tree_set e m' d c" if "j < e" "j \<noteq> k" "x \<in> tree_set e m d (m b ! j)" for j x
    by (rule same) (use that apart[OF that] in \<open>auto simp: row_set_def\<close>)
  have step: "row_ok e (\<lambda>_. d) (\<lambda>k. k * e ^ d) e m' (((!) (m b))(k := c)) (Suc n)"
    "row_set e (\<lambda>_. d) e m' (((!) (m b))(k := c)) = tree_set e m' d c \<union> (\<Union>j \<in> {..<e} - {k}. tree_set e m d (m b ! j))"
    by (rule row_ok_step[OF row lk]; use c(1) oth r in simp)+
  have f: "((!) (m' b)) j = (((!) (m b))(k := c)) j" if "j < e" for j using that b(2) lk(1) by (simp add: c(2) nth_list_update)
  have U: "(\<Union>j \<in> {..<e} - {k}. tree_set e m d (m b ! j)) = row_set e (\<lambda>_. d) e m ((!) (m b)) - tree_set e m d (m b ! k)"
    using apart lk(1) by (fastforce simp: row_set_def)
  have rs: "row_set e (\<lambda>_. d) e m' ((!) (m' b)) = tree_set e m' d c \<union> (row_set e (\<lambda>_. d) e m ((!) (m b)) - tree_set e m d (m b ! k))"
    using row_cong(2)[of e "(!) (m' b)" "((!) (m b))(k := c)" "\<lambda>_. d" e m', OF f] step(2) U by simp
  show "tree_ok e m' (Suc d) b (Suc n)"
    unfolding tree_ok_row rs
    using step(1) b c(2,3) out row_cong(1)[of e "(!) (m' b)" "((!) (m b))(k := c)", OF f] by auto
  show "tree_set e m' (Suc d) b = insert b (tree_set e m' d c \<union> (row_set e (\<lambda>_. d) e m ((!) (m b)) - tree_set e m d (m b ! k)))"
    using rs b(1) by (simp add: row_set_def)
  assume q: "q < e ^ Suc d"
  then have qd: "q div e ^ d < e" "q mod e ^ d < e ^ d" using e by (auto simp: less_mult_imp_div_less)
  have "leaf e m' d (m b ! (q div e ^ d)) (q mod e ^ d) = leaf e m d (m b ! (q div e ^ d)) (q mod e ^ d)" if "q div e ^ d \<noteq> k"
    by (rule leaf_agree[OF _ qd(2)]) (use oth[OF qd(1) that] in blast)
  then show "leaf e m' (Suc d) b q = (if q div e ^ d = k then leaf e m' d c (q mod e ^ d) else leaf e m (Suc d) b q)"
    using f[OF qd(1)] b(1) by simp
qed


declare leaf.simps(2) [simp del] tree_set.simps(2) [simp del] tree_nodes.simps(2) [simp del] tree_ok.simps(2) [simp del]

end
