(* ===== verification/Ext2_Inode.thy ===== *)
theory Ext2_Inode
  imports Ext2_Alloc Ext2_Tree
begin

text \<open>
  Inodes of \<open>kernel/ext.c\<close>: the cached inode, the block map with its direct and indirect tiers
  (reading, writing and appending blocks, releasing them all, counting them), and the write-back
  of an inode into the inode table.  \<open>kernel/ext2_structs.h\<close> gives the layout of the 128 bytes.
\<close>

section \<open>Structures\<close>

definition inode_mode :: "bytes \<Rightarrow> u16" where "inode_mode i = get16 0 i"
definition inode_size :: "bytes \<Rightarrow> u32" where "inode_size i = get32 4 i"
definition inode_links_count :: "bytes \<Rightarrow> u16" where "inode_links_count i = get16 26 i"
definition inode_blocks :: "bytes \<Rightarrow> u32" where "inode_blocks i = get32 28 i"
definition inode_block :: "bytes \<Rightarrow> nat \<Rightarrow> u32" where "inode_block i k = get32 (40 + 4 * k) i"

definition set_inode_mode :: "u16 \<Rightarrow> bytes \<Rightarrow> bytes" where "set_inode_mode = put16 0"
definition set_inode_size :: "u32 \<Rightarrow> bytes \<Rightarrow> bytes" where "set_inode_size = put32 4"
definition set_inode_links_count :: "u16 \<Rightarrow> bytes \<Rightarrow> bytes" where "set_inode_links_count = put16 26"
definition set_inode_blocks :: "u32 \<Rightarrow> bytes \<Rightarrow> bytes" where "set_inode_blocks = put32 28"
definition set_inode_block :: "nat \<Rightarrow> u32 \<Rightarrow> bytes \<Rightarrow> bytes" where "set_inode_block k = put32 (40 + 4 * k)"

definition EXT2_S_IFREG :: u16 where "EXT2_S_IFREG = 0x8000"
definition EXT2_BAD_INO :: u32 where "EXT2_BAD_INO = 1"
definition EXT2_ROOT_INO :: u32 where "EXT2_ROOT_INO = 2"

record cached_inode =
  ci_inumber :: u32
  ci_inode :: bytes
  ci_data_block_count :: u32
  ci_refcount :: u32
  ci_valid :: bool
  ci_delete_pending :: bool
  ci_lock :: bool

definition cached_inode_init :: "u32 \<Rightarrow> bytes \<Rightarrow> u32 \<Rightarrow> cached_inode" where
  "cached_inode_init inumber garbage garbage_count = \<lparr>ci_inumber = inumber, ci_inode = garbage,
     ci_data_block_count = garbage_count, ci_refcount = 1, ci_valid = False, ci_delete_pending = False, ci_lock = False\<rparr>"

definition ci_lock_acquire :: "cached_inode \<Rightarrow> cached_inode option" where
  "ci_lock_acquire ci = do { kassert (\<not> ci_lock ci); Some (ci\<lparr>ci_lock := True\<rparr>) }"

definition ci_lock_release :: "cached_inode \<Rightarrow> cached_inode" where
  "ci_lock_release ci = ci\<lparr>ci_lock := False\<rparr>"

definition node_is_dir :: "cached_inode \<Rightarrow> bool" where
  "node_is_dir ci \<longleftrightarrow> inode_mode (ci_inode ci) AND EXT2_S_MASK = EXT2_S_IFDIR"

definition node_is_file :: "cached_inode \<Rightarrow> bool" where
  "node_is_file ci \<longleftrightarrow> inode_mode (ci_inode ci) AND EXT2_S_MASK = EXT2_S_IFREG"

definition node_is_symlink :: "cached_inode \<Rightarrow> bool" where
  "node_is_symlink ci \<longleftrightarrow> inode_mode (ci_inode ci) AND EXT2_S_MASK = EXT2_S_IFLNK"

definition node_size_in_bytes :: "cached_inode \<Rightarrow> u32" where
  "node_size_in_bytes ci = inode_size (ci_inode ci)"


section \<open>Writing an inode back\<close>

definition inode_lock_acquire :: "ext2 \<Rightarrow> ext2 option" where
  "inode_lock_acquire fs = do { kassert (\<not> inode_lock fs); Some (fs\<lparr>inode_lock := True\<rparr>) }"

definition inode_lock_release :: "ext2 \<Rightarrow> ext2" where
  "inode_lock_release fs = fs\<lparr>inode_lock := False\<rparr>"

definition inode_table_sector :: "u32 \<Rightarrow> ext2 \<Rightarrow> u32" where
  "inode_table_sector inumber fs =
     (let ipg = sb_inodes_per_group (superblock fs);
          block_group = (inumber - 1) div ipg;
          block_group_inode_index = (inumber - 1) mod ipg in
      (bgd_inode_table (unat block_group) (bgd_table fs) + block_group_inode_index div inodes_per_block fs)
        * ext2_get_block_size fs div SD_SECTOR_SIZE_BYTES)"

definition inode_offset :: "u32 \<Rightarrow> ext2 \<Rightarrow> u32" where
  "inode_offset inumber fs =
     ext2_get_inode_size fs * ((inumber - 1) mod sb_inodes_per_group (superblock fs) mod inodes_per_block fs)"

text \<open>Read-modify-write of the block of the inode table that holds the inode.\<close>

definition icache_set :: "cached_inode \<Rightarrow> ext2 \<Rightarrow> ext2 option" where
  "icache_set ci fs = do {
     let n = ext2_get_block_size fs div SD_SECTOR_SIZE_BYTES;
     let sector = inode_table_sector (ci_inumber ci) fs;
     fs \<leftarrow> inode_lock_acquire fs;
     let (rc, inode_table_buf) = sd_read_blocks (fs_drive fs) sector n;
     kassert (rc = 0);
     let inode_table_buf = patch (unat (inode_offset (ci_inumber ci) fs)) (ci_inode ci) inode_table_buf;
     fs \<leftarrow> fs_write_sectors sector n inode_table_buf fs;
     Some (inode_lock_release fs)
   }"

definition node_sync_inode :: "cached_inode \<Rightarrow> ext2 \<Rightarrow> ext2 option" where
  "node_sync_inode = icache_set"

text \<open>The inode as it is on the drive.\<close>

definition inode_read :: "u32 \<Rightarrow> ext2 \<Rightarrow> bytes option" where
  "inode_read inumber fs = do {
     let (rc, inode_table_buf) = sd_read_blocks (fs_drive fs) (inode_table_sector inumber fs)
                                   (ext2_get_block_size fs div SD_SECTOR_SIZE_BYTES);
     kassert (rc = 0);
     Some (chunk (unat (inode_offset inumber fs)) 128 inode_table_buf)
   }"


section \<open>Reading a block of a file\<close>

definition read_sectors :: "u32 \<Rightarrow> ext2 \<Rightarrow> (bytes \<times> ext2) option" where
  "read_sectors = fs_bcache_get"

definition read_sectors_or_zero :: "u32 \<Rightarrow> ext2 \<Rightarrow> (bytes \<times> ext2) option" where
  "read_sectors_or_zero block_num fs =
     (if block_num = 0 then Some (replicate (unat (ext2_get_block_size fs)) 0, fs) else read_sectors block_num fs)"

definition entries_per_block :: "ext2 \<Rightarrow> u32" where
  "entries_per_block fs = ext2_get_block_size fs div 4"

text \<open>A pointer block read as an array of block numbers.\<close>

definition read_pointers :: "u32 \<Rightarrow> ext2 \<Rightarrow> (u32 list \<times> ext2) option" where
  "read_pointers block_num fs = do { (x, fs) \<leftarrow> read_sectors block_num fs; Some (words_of x, fs) }"

definition zero_block :: "ext2 \<Rightarrow> (bytes \<times> ext2) option" where
  "zero_block fs = Some (replicate (unat (ext2_get_block_size fs)) 0, fs)"

definition read_direct_block :: "cached_inode \<Rightarrow> u32 \<Rightarrow> ext2 \<Rightarrow> (bytes \<times> ext2) option" where
  "read_direct_block ci index fs = do {
     kassert (index < 12);
     read_sectors_or_zero (inode_block (ci_inode ci) (unat index)) fs
   }"

definition read_indirect_block :: "cached_inode \<Rightarrow> u32 \<Rightarrow> ext2 \<Rightarrow> (bytes \<times> ext2) option" where
  "read_indirect_block ci index fs = do {
     let e = entries_per_block fs;
     kassert (index \<ge> 12);
     kassert (index < 12 + e);
     let real_index = index - 12;
     if inode_block (ci_inode ci) 12 = 0 then zero_block fs
     else do {
       (direct_pointers, fs) \<leftarrow> read_pointers (inode_block (ci_inode ci) 12) fs;
       read_sectors_or_zero (direct_pointers ! unat real_index) fs
     }
   }"

definition read_double_indirect_block :: "cached_inode \<Rightarrow> u32 \<Rightarrow> ext2 \<Rightarrow> (bytes \<times> ext2) option" where
  "read_double_indirect_block ci index fs = do {
     let e = entries_per_block fs;
     kassert (index \<ge> 12 + e);
     kassert (index < 12 + e * (1 + e));
     let real_index = index - (12 + e);
     if inode_block (ci_inode ci) 13 = 0 then zero_block fs
     else do {
       (indirect_pointers, fs) \<leftarrow> read_pointers (inode_block (ci_inode ci) 13) fs;
       if indirect_pointers ! unat (real_index div e) = 0 then zero_block fs
       else do {
         (direct_pointers, fs) \<leftarrow> read_pointers (indirect_pointers ! unat (real_index div e)) fs;
         read_sectors_or_zero (direct_pointers ! unat (real_index mod e)) fs
       }
     }
   }"

definition read_triple_indirect_block :: "cached_inode \<Rightarrow> u32 \<Rightarrow> ext2 \<Rightarrow> (bytes \<times> ext2) option" where
  "read_triple_indirect_block ci index fs = do {
     let e = entries_per_block fs;
     kassert (index \<ge> 12 + e * (1 + e));
     kassert (index < 12 + e * (1 + e * (1 + e)));
     let real_index = index - (12 + e * (1 + e));
     if inode_block (ci_inode ci) 14 = 0 then zero_block fs
     else do {
       (double_indirect_pointers, fs) \<leftarrow> read_pointers (inode_block (ci_inode ci) 14) fs;
       if double_indirect_pointers ! unat (real_index div (e * e)) = 0 then zero_block fs
       else do {
         (indirect_pointers, fs) \<leftarrow> read_pointers (double_indirect_pointers ! unat (real_index div (e * e))) fs;
         if indirect_pointers ! unat (real_index div e mod e) = 0 then zero_block fs
         else do {
           (direct_pointers, fs) \<leftarrow> read_pointers (indirect_pointers ! unat (real_index div e mod e)) fs;
           read_sectors_or_zero (direct_pointers ! unat (real_index mod e)) fs
         }
       }
     }
   }"

definition node_read_block_locked :: "cached_inode \<Rightarrow> u32 \<Rightarrow> ext2 \<Rightarrow> (bytes \<times> ext2) option" where
  "node_read_block_locked ci block_num fs = do {
     kassert (ci_lock ci);
     let e = entries_per_block fs;
     if block_num < 12 then read_direct_block ci block_num fs
     else if block_num < 12 + e then read_indirect_block ci block_num fs
     else if block_num < 12 + e * (1 + e) then read_double_indirect_block ci block_num fs
     else if block_num < 12 + e * (1 + e * (1 + e)) then read_triple_indirect_block ci block_num fs
     else None
   }"

definition node_read_block :: "cached_inode \<Rightarrow> u32 \<Rightarrow> ext2 \<Rightarrow> (bytes \<times> cached_inode \<times> ext2) option" where
  "node_read_block ci block_num fs = do {
     ci \<leftarrow> ci_lock_acquire ci;
     (dest, fs) \<leftarrow> node_read_block_locked ci block_num fs;
     Some (dest, ci_lock_release ci, fs)
   }"


section \<open>Writing a block of a file\<close>

definition write_sectors :: "u32 \<Rightarrow> bytes \<Rightarrow> u32 \<Rightarrow> u32 \<Rightarrow> ext2 \<Rightarrow> ext2 option" where
  "write_sectors = fs_bcache_set"

definition write_direct_block :: "cached_inode \<Rightarrow> u32 \<Rightarrow> bytes \<Rightarrow> u32 \<Rightarrow> u32 \<Rightarrow> ext2 \<Rightarrow> ext2 option" where
  "write_direct_block ci index buffer offset sz fs = do {
     kassert (index < 12);
     kassert (inode_block (ci_inode ci) (unat index) \<noteq> 0);
     write_sectors (inode_block (ci_inode ci) (unat index)) buffer offset sz fs
   }"

definition write_indirect_block :: "cached_inode \<Rightarrow> u32 \<Rightarrow> bytes \<Rightarrow> u32 \<Rightarrow> u32 \<Rightarrow> ext2 \<Rightarrow> ext2 option" where
  "write_indirect_block ci index buffer offset sz fs = do {
     let e = entries_per_block fs;
     kassert (index \<ge> 12);
     kassert (index < 12 + e);
     let real_index = index - 12;
     kassert (inode_block (ci_inode ci) 12 \<noteq> 0);
     (direct_pointers, fs) \<leftarrow> read_pointers (inode_block (ci_inode ci) 12) fs;
     kassert (direct_pointers ! unat real_index \<noteq> 0);
     write_sectors (direct_pointers ! unat real_index) buffer offset sz fs
   }"

definition write_double_indirect_block :: "cached_inode \<Rightarrow> u32 \<Rightarrow> bytes \<Rightarrow> u32 \<Rightarrow> u32 \<Rightarrow> ext2 \<Rightarrow> ext2 option" where
  "write_double_indirect_block ci index buffer offset sz fs = do {
     let e = entries_per_block fs;
     kassert (index \<ge> 12 + e);
     kassert (index < 12 + e * (1 + e));
     let real_index = index - (12 + e);
     kassert (inode_block (ci_inode ci) 13 \<noteq> 0);
     (indirect_pointers, fs) \<leftarrow> read_pointers (inode_block (ci_inode ci) 13) fs;
     kassert (indirect_pointers ! unat (real_index div e) \<noteq> 0);
     (direct_pointers, fs) \<leftarrow> read_pointers (indirect_pointers ! unat (real_index div e)) fs;
     kassert (direct_pointers ! unat (real_index mod e) \<noteq> 0);
     write_sectors (direct_pointers ! unat (real_index mod e)) buffer offset sz fs
   }"

definition write_triple_indirect_block :: "cached_inode \<Rightarrow> u32 \<Rightarrow> bytes \<Rightarrow> u32 \<Rightarrow> u32 \<Rightarrow> ext2 \<Rightarrow> ext2 option" where
  "write_triple_indirect_block ci index buffer offset sz fs = do {
     let e = entries_per_block fs;
     kassert (index \<ge> 12 + e * (1 + e));
     kassert (index < 12 + e * (1 + e * (1 + e)));
     let real_index = index - (12 + e * (1 + e));
     kassert (inode_block (ci_inode ci) 14 \<noteq> 0);
     (double_indirect_pointers, fs) \<leftarrow> read_pointers (inode_block (ci_inode ci) 14) fs;
     kassert (double_indirect_pointers ! unat (real_index div (e * e)) \<noteq> 0);
     (indirect_pointers, fs) \<leftarrow> read_pointers (double_indirect_pointers ! unat (real_index div (e * e))) fs;
     kassert (indirect_pointers ! unat (real_index div e mod e) \<noteq> 0);
     (direct_pointers, fs) \<leftarrow> read_pointers (indirect_pointers ! unat (real_index div e mod e)) fs;
     kassert (direct_pointers ! unat (real_index mod e) \<noteq> 0);
     write_sectors (direct_pointers ! unat (real_index mod e)) buffer offset sz fs
   }"

definition node_write_block_locked :: "cached_inode \<Rightarrow> u32 \<Rightarrow> bytes \<Rightarrow> u32 \<Rightarrow> u32 \<Rightarrow> ext2 \<Rightarrow> ext2 option" where
  "node_write_block_locked ci block_num src offset sz fs = do {
     kassert (ci_lock ci);
     let e = entries_per_block fs;
     if block_num < 12 then write_direct_block ci block_num src offset sz fs
     else if block_num < 12 + e then write_indirect_block ci block_num src offset sz fs
     else if block_num < 12 + e * (1 + e) then write_double_indirect_block ci block_num src offset sz fs
     else if block_num < 12 + e * (1 + e * (1 + e)) then write_triple_indirect_block ci block_num src offset sz fs
     else None
   }"

definition node_write_block :: "cached_inode \<Rightarrow> u32 \<Rightarrow> bytes \<Rightarrow> u32 \<Rightarrow> u32 \<Rightarrow> ext2 \<Rightarrow> (cached_inode \<times> ext2) option" where
  "node_write_block ci block_num src offset sz fs = do {
     ci \<leftarrow> ci_lock_acquire ci;
     fs \<leftarrow> node_write_block_locked ci block_num src offset sz fs;
     Some (ci_lock_release ci, fs)
   }"


section \<open>Appending a block\<close>

definition ext2_sectors_per_block :: "ext2 \<Rightarrow> u32" where
  "ext2_sectors_per_block fs = ext2_get_block_size fs div SD_SECTOR_SIZE_BYTES"

definition ext2_zero_pointer_block :: "u32 \<Rightarrow> u32 list" where
  "ext2_zero_pointer_block entries = replicate (unat entries) 0"

text \<open>A pointer array written to its block.\<close>

definition write_pointers :: "u32 \<Rightarrow> u32 list \<Rightarrow> ext2 \<Rightarrow> ext2 option" where
  "write_pointers block_num ptrs fs = fs_bcache_set block_num (bytes_of_words ptrs) 0 (ext2_get_block_size fs) fs"

text \<open>The data block is in the map: count its sectors and those of new pointer blocks.\<close>

definition block_added :: "u32 \<Rightarrow> cached_inode \<Rightarrow> ext2 \<Rightarrow> (bool \<times> cached_inode \<times> ext2) option" where
  "block_added reserved_blocks ci fs = Some (True,
     ci\<lparr>ci_inode := set_inode_blocks (inode_blocks (ci_inode ci) + reserved_blocks * ext2_sectors_per_block fs) (ci_inode ci),
       ci_data_block_count := ci_data_block_count ci + 1\<rparr>, fs)"

definition put_root :: "nat \<Rightarrow> u32 \<Rightarrow> cached_inode \<Rightarrow> cached_inode" where
  "put_root k b ci = ci\<lparr>ci_inode := set_inode_block k b (ci_inode ci)\<rparr>"

definition add_direct_block :: "u32 \<Rightarrow> u32 \<Rightarrow> cached_inode \<Rightarrow> ext2 \<Rightarrow> (bool \<times> cached_inode \<times> ext2) option" where
  "add_direct_block logical_block block_num ci fs = block_added 1 (put_root (unat logical_block) block_num ci) fs"

text \<open>The root of an indirect tier: allocated on its first use, else read.\<close>

definition tier_root :: "nat \<Rightarrow> bool \<Rightarrow> cached_inode \<Rightarrow> ext2 \<Rightarrow> (bool \<times> u32 list \<times> u32 \<times> cached_inode \<times> ext2) option" where
  "tier_root slot first ci fs =
     (if first then do {
        (new_block, fs) \<leftarrow> alloc_block fs;
        if new_block = - 1 then Some (False, [], 0, ci, fs)
        else Some (True, ext2_zero_pointer_block (entries_per_block fs), 1, put_root slot new_block ci, fs)
      } else do {
        (ptrs, fs) \<leftarrow> read_pointers (inode_block (ci_inode ci) slot) fs;
        Some (True, ptrs, 0, ci, fs)
      })"

text \<open>One level down from the pointer block \<open>parent\<close>: a fresh child is linked at once.\<close>

definition tier_child :: "bool \<Rightarrow> u32 \<Rightarrow> u32 list \<Rightarrow> u32 \<Rightarrow> ext2 \<Rightarrow> (bool \<times> u32 list \<times> u32 list \<times> u32 \<times> ext2) option" where
  "tier_child first parent ptrs index fs =
     (if first then do {
        (new_block, fs) \<leftarrow> alloc_block fs;
        if new_block = - 1 then Some (False, ptrs, [], 0, fs)
        else do {
          let ptrs = ptrs[unat index := new_block];
          fs \<leftarrow> write_pointers parent ptrs fs;
          Some (True, ptrs, ext2_zero_pointer_block (entries_per_block fs), 1, fs)
        }
      } else do {
        (child, fs) \<leftarrow> read_pointers (ptrs ! unat index) fs;
        Some (True, ptrs, child, 0, fs)
      })"

definition add_single_block :: "u32 \<Rightarrow> u32 \<Rightarrow> cached_inode \<Rightarrow> ext2 \<Rightarrow> (bool \<times> cached_inode \<times> ext2) option" where
  "add_single_block logical_block block_num ci fs = do {
     (ok, single_indirect, fresh, ci, fs) \<leftarrow> tier_root 12 (logical_block = 12) ci fs;
     if \<not> ok then Some (False, ci, fs)
     else do {
       let single_indirect = single_indirect[unat (logical_block - 12) := block_num];
       fs \<leftarrow> write_pointers (inode_block (ci_inode ci) 12) single_indirect fs;
       block_added (1 + fresh) ci fs
     }
   }"

definition add_double_block :: "u32 \<Rightarrow> u32 \<Rightarrow> cached_inode \<Rightarrow> ext2 \<Rightarrow> (bool \<times> cached_inode \<times> ext2) option" where
  "add_double_block logical_block block_num ci fs = do {
     let e = entries_per_block fs;
     let single_limit = 12 + e;
     let double_index = logical_block - single_limit;
     let indirect_index = double_index div e;
     let direct_index = double_index mod e;
     (ok, double_indirect, fresh, ci, fs) \<leftarrow> tier_root 13 (logical_block = single_limit) ci fs;
     if \<not> ok then Some (False, ci, fs)
     else do {
       (ok, double_indirect, single_indirect, fresh', fs) \<leftarrow>
         tier_child (direct_index = 0) (inode_block (ci_inode ci) 13) double_indirect indirect_index fs;
       if \<not> ok then Some (False, ci, fs)
       else do {
         let single_indirect = single_indirect[unat direct_index := block_num];
         fs \<leftarrow> write_pointers (double_indirect ! unat indirect_index) single_indirect fs;
         block_added (1 + fresh + fresh') ci fs
       }
     }
   }"

definition add_triple_block :: "u32 \<Rightarrow> u32 \<Rightarrow> cached_inode \<Rightarrow> ext2 \<Rightarrow> (bool \<times> cached_inode \<times> ext2) option" where
  "add_triple_block logical_block block_num ci fs = do {
     let e = entries_per_block fs;
     let double_span = e * e;
     let double_limit = 12 + e + double_span;
     let triple_index = logical_block - double_limit;
     let outer_index = triple_index div double_span;
     let middle_index = (triple_index div e) mod e;
     let direct_index = triple_index mod e;
     (ok, triple_indirect, fresh, ci, fs) \<leftarrow> tier_root 14 (logical_block = double_limit) ci fs;
     if \<not> ok then Some (False, ci, fs)
     else do {
       (ok, triple_indirect, double_indirect, fresh', fs) \<leftarrow>
         tier_child (triple_index mod double_span = 0) (inode_block (ci_inode ci) 14) triple_indirect outer_index fs;
       if \<not> ok then Some (False, ci, fs)
       else do {
         (ok, double_indirect, single_indirect, fresh'', fs) \<leftarrow>
           tier_child (direct_index = 0) (triple_indirect ! unat outer_index) double_indirect middle_index fs;
         if \<not> ok then Some (False, ci, fs)
         else do {
           let single_indirect = single_indirect[unat direct_index := block_num];
           fs \<leftarrow> write_pointers (double_indirect ! unat middle_index) single_indirect fs;
           block_added (1 + fresh + fresh' + fresh'') ci fs
         }
       }
     }
   }"

definition node_add_block :: "u32 \<Rightarrow> cached_inode \<Rightarrow> ext2 \<Rightarrow> (bool \<times> cached_inode \<times> ext2) option" where
  "node_add_block block_num ci fs =
     (let e = entries_per_block fs;
          single_limit = 12 + e;
          double_span = e * e;
          double_limit = single_limit + double_span;
          triple_span = double_span * e;
          triple_limit = double_limit + triple_span;
          logical_block = ci_data_block_count ci in
      if logical_block < 12 then add_direct_block logical_block block_num ci fs
      else if logical_block < single_limit then add_single_block logical_block block_num ci fs
      else if logical_block < double_limit then add_double_block logical_block block_num ci fs
      else if logical_block < triple_limit then add_triple_block logical_block block_num ci fs
      else Some (False, ci, fs))"


section \<open>Releasing all blocks\<close>

text \<open>A loop over the pointers of a block.\<close>

fun free_each :: "(u32 \<Rightarrow> ext2 \<Rightarrow> ext2 option) \<Rightarrow> u32 list \<Rightarrow> ext2 \<Rightarrow> ext2 option" where
  "free_each release [] fs = Some fs"
| "free_each release (p # ps) fs =
     (if p = 0 then free_each release ps fs else do { fs \<leftarrow> release p fs; free_each release ps fs })"

fun ext2_free_indirect_tree :: "u32 \<Rightarrow> nat \<Rightarrow> ext2 \<Rightarrow> ext2 option" where
  "ext2_free_indirect_tree pointer_block_num levels fs = do {
     kassert (levels \<ge> 1 \<and> levels \<le> 3);
     kassert (pointer_block_num \<noteq> 0);
     (pointers, fs) \<leftarrow> read_pointers pointer_block_num fs;
     fs \<leftarrow> free_each (if levels = 1 then dealloc_block
                     else if levels \<ge> 2 then (\<lambda>p. ext2_free_indirect_tree p (levels - 1)) else (\<lambda>_ _. None)) pointers fs;
     dealloc_block pointer_block_num fs
   }"

definition fast_symlink :: "cached_inode \<Rightarrow> bool" where
  "fast_symlink ci \<longleftrightarrow> node_is_symlink ci \<and> inode_size (ci_inode ci) \<le> 60"

definition node_dealloc_blocks :: "cached_inode \<Rightarrow> ext2 \<Rightarrow> (cached_inode \<times> ext2) option" where
  "node_dealloc_blocks ci fs = do {
     fs \<leftarrow> (if fast_symlink ci then Some fs
      else do {
        fs \<leftarrow> free_each dealloc_block (map (inode_block (ci_inode ci)) [0..<12]) fs;
        fs \<leftarrow> (if inode_block (ci_inode ci) 12 \<noteq> 0 then ext2_free_indirect_tree (inode_block (ci_inode ci) 12) 1 fs else Some fs);
        fs \<leftarrow> (if inode_block (ci_inode ci) 13 \<noteq> 0 then ext2_free_indirect_tree (inode_block (ci_inode ci) 13) 2 fs else Some fs);
        (if inode_block (ci_inode ci) 14 \<noteq> 0 then ext2_free_indirect_tree (inode_block (ci_inode ci) 14) 3 fs else Some fs)
      });
     let i = patch 40 (replicate 60 0) (ci_inode ci);
     Some (ci\<lparr>ci_inode := set_inode_size 0 (set_inode_blocks 0 i), ci_data_block_count := 0\<rparr>, fs)
   }"


section \<open>Counting the blocks\<close>

function count_entries :: "u32 list \<Rightarrow> u32 \<Rightarrow> u32 \<Rightarrow> u32" where
  "count_entries block entries count =
     (if count < entries \<and> block ! unat count \<noteq> 0 then count_entries block entries (count + 1) else count)"
  by pat_completeness auto

lemma word_Suc_less: "(c :: u32) < n \<Longrightarrow> unat (c + 1) = Suc (unat c)"
proof -
  assume "c < n"
  then have "c \<noteq> - 1" using word_order.extremum[of n] by auto
  then show ?thesis by (simp add: unat_plus_one)
qed

termination count_entries
  by (relation "measure (\<lambda>(_, entries, count). unat entries - unat count)")
    (auto simp: word_Suc_less word_less_nat_alt)

definition ext2_count_indirect_entries :: "u32 list \<Rightarrow> u32 \<Rightarrow> u32" where
  "ext2_count_indirect_entries block entries = count_entries block entries 0"

text \<open>The loop over the leaves below one double-indirect block; the flag says that it returned early.\<close>

fun scan_leaves :: "u32 \<Rightarrow> u32 list \<Rightarrow> u32 \<Rightarrow> ext2 \<Rightarrow> (bool \<times> u32 \<times> ext2) option" where
  "scan_leaves entries [] count fs = Some (False, count, fs)"
| "scan_leaves entries (p # ps) count fs =
     (if p = 0 then Some (True, count, fs)
      else do {
        (single_indirect, fs) \<leftarrow> read_pointers p fs;
        let single_count = ext2_count_indirect_entries single_indirect entries;
        if single_count < entries then Some (True, count + single_count, fs)
        else scan_leaves entries ps (count + single_count) fs
      })"

fun scan_doubles :: "u32 \<Rightarrow> u32 list \<Rightarrow> u32 \<Rightarrow> ext2 \<Rightarrow> (bool \<times> u32 \<times> ext2) option" where
  "scan_doubles entries [] count fs = Some (False, count, fs)"
| "scan_doubles entries (p # ps) count fs =
     (if p = 0 then Some (True, count, fs)
      else do {
        (double_indirect, fs) \<leftarrow> read_pointers p fs;
        (done, count, fs) \<leftarrow> scan_leaves entries (take (unat entries) double_indirect) count fs;
        if done then Some (True, count, fs) else scan_doubles entries ps count fs
      })"

definition node_scan_data_block_count :: "bytes \<Rightarrow> ext2 \<Rightarrow> (u32 \<times> ext2) option" where
  "node_scan_data_block_count i fs = do {
     let e = entries_per_block fs;
     let count = count_entries (map (inode_block i) [0..<15]) 12 0;
     if count < 12 \<or> inode_block i 12 = 0 then Some (count, fs)
     else do {
       (single_indirect, fs) \<leftarrow> read_pointers (inode_block i 12) fs;
       let single_count = ext2_count_indirect_entries single_indirect e;
       let count = count + single_count;
       if single_count < e \<or> inode_block i 13 = 0 then Some (count, fs)
       else do {
         (double_indirect, fs) \<leftarrow> read_pointers (inode_block i 13) fs;
         (done, count, fs) \<leftarrow> scan_leaves e (take (unat e) double_indirect) count fs;
         if done \<or> inode_block i 14 = 0 then Some (count, fs)
         else do {
           (triple_indirect, fs) \<leftarrow> read_pointers (inode_block i 14) fs;
           (done, count, fs) \<leftarrow> scan_doubles e (take (unat e) triple_indirect) count fs;
           Some (count, fs)
         }
       }
     }
   }"

text \<open>A new wrapper counts the blocks of the inode it wraps.\<close>

definition node_init :: "cached_inode \<Rightarrow> ext2 \<Rightarrow> (cached_inode \<times> ext2) option" where
  "node_init ci fs = do {
     (n, fs) \<leftarrow> node_scan_data_block_count (ci_inode ci) fs;
     Some (ci\<lparr>ci_data_block_count := n\<rparr>, fs)
   }"

end
