(* ===== verification/Ext2_Map.thy ===== *)
theory Ext2_Map
  imports Ext2_Inode
begin

text \<open>
  Correctness of the block map: what reading, writing and appending through the direct and the
  indirect tiers do to the pointer trees of \<open>Ext2_Tree\<close>.
\<close>

section \<open>Steps of the file system\<close>

text \<open>The inode tables lie apart from all other metadata and from each other.\<close>

definition itable_ok :: "ext2 \<Rightarrow> bool" where
  "itable_ok fs \<longleftrightarrow> 128 \<le> unat (ext2_get_inode_size fs) \<and> unat (ext2_get_inode_size fs) \<le> unat (ext2_get_block_size fs)
     \<and> (\<forall>b \<in> itable_blocks fs. data_block fs b)
     \<and> (\<forall>g < unat (num_block_groups fs). \<forall>g' < unat (num_block_groups fs).
        \<forall>l < unat (sb_inodes_per_group (superblock fs)). \<forall>l' < unat (sb_inodes_per_group (superblock fs)).
          inode_block_at fs g l = inode_block_at fs g' l' \<longrightarrow>
          g = g' \<and> l div unat (inodes_per_block fs) = l' div unat (inodes_per_block fs))"

text \<open>A mounted file system between two operations.  Block 0 is the boot block and never free.\<close>

definition fs_good :: "ext2 \<Rightarrow> bool" where
  "fs_good fs \<longleftrightarrow> fs_inv fs \<and> fs_synced fs \<and> itable_ok fs \<and> unat (ext2_get_block_size fs) \<le> 4096
     \<and> 0 \<notin> free_blocks fs \<and> \<not> inode_lock fs"

text \<open>A step that may write the blocks \<open>W\<close> and that takes the free blocks \<open>new\<close>.\<close>

definition fs_step :: "u32 set \<Rightarrow> u32 set \<Rightarrow> ext2 \<Rightarrow> ext2 \<Rightarrow> bool" where
  "fs_step W new fs fs' \<longleftrightarrow> fs_good fs' \<and> same_shape fs fs' \<and> new \<subseteq> free_blocks fs \<and> free_blocks fs' = free_blocks fs - new
     \<and> free_inumbers fs' = free_inumbers fs
     \<and> (\<forall>b. data_block fs b \<longrightarrow> b \<notin> W \<longrightarrow> b \<notin> new \<longrightarrow> fs_block fs' b = fs_block fs b)"

definition ptrs :: "ext2 \<Rightarrow> u32 \<Rightarrow> u32 list" where
  "ptrs fs b = words_of (fs_block fs b)"

definition epb :: "ext2 \<Rightarrow> nat" where
  "epb fs = unat (entries_per_block fs)"

text \<open>Blocks that belong to files.\<close>

definition owned :: "ext2 \<Rightarrow> u32 set \<Rightarrow> bool" where
  "owned fs X \<longleftrightarrow> (\<forall>b \<in> X. b \<in> used_blocks fs \<and> file_block fs b)"

lemma used_blocks_alt:
  assumes "geometry_ok fs"
  shows "used_blocks fs = {block_at fs g l | g l. g < unat (num_block_groups fs) \<and> l < unat (sb_blocks_per_group (superblock fs))} - free_blocks fs"
  using free_blocks_iff[OF assms] unfolding used_blocks_def by blast

lemma fs_goodD:
  assumes "fs_good fs"
  shows "fs_inv fs" "fs_synced fs" "itable_ok fs" "unat (ext2_get_block_size fs) \<le> 4096" "0 \<notin> free_blocks fs" "\<not> inode_lock fs"
    "meta_inv fs" "geometry_ok fs" "cache_ok fs" "\<forall>b \<in> free_blocks fs. file_block fs b"
  using assms by (auto simp: fs_good_def fs_inv_def meta_inv_def)

lemma used_after_step:
  assumes "fs_good fs" "fs_step W new fs fs'"
  shows "used_blocks fs' = used_blocks fs \<union> new" "used_blocks fs \<inter> free_blocks fs = {}"
proof -
  have g: "geometry_ok fs" "geometry_ok fs'" using assms fs_goodD(8) by (auto simp: fs_step_def)
  have sh: "same_shape fs fs'" using assms(2) by (simp add: fs_step_def)
  let ?all = "{block_at fs g l | g l. g < unat (num_block_groups fs) \<and> l < unat (sb_blocks_per_group (superblock fs))}"
  have "free_blocks fs \<subseteq> ?all" by (auto simp: free_blocks_def)
  then show "used_blocks fs' = used_blocks fs \<union> new"
    using assms(2) unfolding used_blocks_alt[OF g(1)] used_blocks_alt[OF g(2)] same_shapeD[OF sh] by (auto simp: fs_step_def)
  show "used_blocks fs \<inter> free_blocks fs = {}" unfolding used_blocks_alt[OF g(1)] by auto
qed

lemma same_shape_epb: "same_shape fs fs' \<Longrightarrow> epb fs' = epb fs"
  by (simp add: epb_def entries_per_block_def same_shapeD)

lemma fs_stepD:
  assumes "fs_step W new fs fs'"
  shows "fs_good fs'" "same_shape fs fs'" "new \<subseteq> free_blocks fs" "free_blocks fs' = free_blocks fs - new"
    "free_inumbers fs' = free_inumbers fs" "epb fs' = epb fs" "file_block fs' = file_block fs" "data_block fs' = data_block fs"
    "ext2_get_block_size fs' = ext2_get_block_size fs" "entries_per_block fs' = entries_per_block fs"
    "\<And>b. data_block fs b \<Longrightarrow> b \<notin> W \<Longrightarrow> b \<notin> new \<Longrightarrow> fs_block fs' b = fs_block fs b"
  using assms same_shapeD[of fs fs'] same_shape_epb[of fs fs'] by (auto simp: fs_step_def entries_per_block_def)

lemma fs_step_trans:
  assumes "fs_step W new fs fs1" "fs_step W' new' fs1 fs2"
  shows "fs_step (W \<union> W') (new \<union> new') fs fs2"
  using fs_stepD[OF assms(1)] fs_stepD[OF assms(2)] same_shape_trans[of fs fs1 fs2]
  unfolding fs_step_def by auto

lemma fs_step_mono: "fs_step W new fs fs' \<Longrightarrow> W \<subseteq> W' \<union> new \<Longrightarrow> fs_step W' new fs fs'"
  unfolding fs_step_def by blast

lemma fs_step_refl: "fs_good fs \<Longrightarrow> fs_step {} {} fs fs"
  by (simp add: fs_step_def)

lemma owned_step: "owned fs X \<Longrightarrow> fs_good fs \<Longrightarrow> fs_step W new fs fs' \<Longrightarrow> owned fs' X"
  using used_after_step(1)[of fs W new fs'] fs_stepD(7)[of W new fs fs'] by (auto simp: owned_def)

lemma owned_not_free: "owned fs X \<Longrightarrow> fs_good fs \<Longrightarrow> X \<inter> free_blocks fs = {}"
  unfolding owned_def used_blocks_alt[OF fs_goodD(8)] using used_blocks_alt[OF fs_goodD(8)] by auto

lemma owned_new:
  assumes "fs_good fs" "fs_step W new fs fs'"
  shows "owned fs' new"
  using used_after_step(1)[OF assms] fs_stepD[OF assms(2)] fs_goodD(10)[OF assms(1)] by (auto simp: owned_def)

lemma owned_union [simp]: "owned fs (X \<union> Y) \<longleftrightarrow> owned fs X \<and> owned fs Y"
  by (auto simp: owned_def)

lemma owned_insert [simp]: "owned fs (insert b Y) \<longleftrightarrow> b \<in> used_blocks fs \<and> file_block fs b \<and> owned fs Y"
  by (auto simp: owned_def)

lemma owned_empty [simp]: "owned fs {}"
  by (simp add: owned_def)

lemma owned_subset: "owned fs X \<Longrightarrow> Y \<subseteq> X \<Longrightarrow> owned fs Y"
  by (auto simp: owned_def)

section \<open>Sizes\<close>

lemma good_sizes:
  assumes "fs_good fs"
  shows "unat (ext2_get_block_size fs) = 4 * epb fs" "128 \<le> epb fs" "epb fs \<le> 1024"
    "length (fs_block fs b) = 4 * epb fs" "length (ptrs fs b) = epb fs"
proof -
  let ?bs = "unat (ext2_get_block_size fs)"
  have ok: "ext2_get_block_size fs \<noteq> 0" "512 dvd ?bs" using geometryD(1)[OF fs_goodD(8)[OF assms]] by (auto simp: block_size_ok_def)
  then obtain k where k: "?bs = 512 * k" by (auto elim: dvdE)
  moreover have "0 < ?bs" using ok(1) by (simp add: unat_gt_0)
  ultimately have k0: "0 < k" by simp
  have e: "epb fs = ?bs div 4" by (simp add: epb_def entries_per_block_def unat_div)
  show bs: "?bs = 4 * epb fs" using k e by simp
  show "128 \<le> epb fs" using k e k0 by simp
  show "epb fs \<le> 1024" using fs_goodD(4)[OF assms] e by simp
  show "length (fs_block fs b) = 4 * epb fs" using fs_block_length[OF fs_goodD(9)[OF assms], of b] bs by simp
  then show "length (ptrs fs b) = epb fs" by (simp add: ptrs_def)
qed

section \<open>Primitive operations as steps\<close>

lemma update_same:
  "same_shape fs (fs\<lparr>fs_bcache := c\<rparr>)" "same_shape fs (fs\<lparr>fs_bcache := c, fs_drive := d\<rparr>)" "same_shape fs (fs\<lparr>fs_drive := d\<rparr>)"
  "free_blocks (fs\<lparr>fs_bcache := c\<rparr>) = free_blocks fs" "free_inumbers (fs\<lparr>fs_bcache := c\<rparr>) = free_inumbers fs"
  "meta_inv (fs\<lparr>fs_bcache := c\<rparr>) = meta_inv fs" "fs_synced (fs\<lparr>fs_bcache := c\<rparr>) = fs_synced fs"
  "fs_block (fs\<lparr>fs_bcache := c\<rparr>) = fs_block fs"
  by (auto simp: same_shape_def free_blocks_def free_inumbers_def block_at_def inumber_at_def ext2_block_group_start_def
    meta_inv_def geometry_ok_def fs_synced_def layout_ok_def bitmap_blocks_def fs_block_def)

lemma itable_ok_same: "same_shape fs fs' \<Longrightarrow> itable_ok fs' = itable_ok fs"
proof -
  assume sh: "same_shape fs fs'"
  note S = same_shapeD[OF sh]
  have "inode_block_at fs' g l = inode_block_at fs g l" if "g < unat (num_block_groups fs)" for g l
    using sh that by (simp add: inode_block_at_def inodes_per_block_def S same_shape_def)
  moreover have "inodes_per_block fs' = inodes_per_block fs" by (simp add: inodes_per_block_def S)
  ultimately show ?thesis unfolding itable_ok_def S by simp
qed

lemma fs_goodI:
  assumes "fs_good fs" "same_shape fs fs'" "fs_inv fs'" "fs_synced fs'" "free_blocks fs' \<subseteq> free_blocks fs"
  shows "fs_good fs'"
  using assms itable_ok_same[OF assms(2)] same_shapeD(1)[OF assms(2)]
  by (auto simp: fs_good_def same_shape_def)

lemma fs_bcache_get_step:
  assumes g: "fs_good fs" and b: "file_block fs b"
  shows "\<exists>fs'. fs_bcache_get b fs = Some (fs_block fs b, fs') \<and> fs_step {} {} fs fs'"
proof -
  note G = fs_goodD[OF g]
  obtain c where c: "fs_bcache_get b fs = Some (fs_block fs b, fs\<lparr>fs_bcache := c\<rparr>)" "cache_ok (fs\<lparr>fs_bcache := c\<rparr>)"
    using fs_bcache_get_spec[OF G(9) b] by blast
  have "fs_inv (fs\<lparr>fs_bcache := c\<rparr>)" using G(1,7) c(2) by (auto simp: fs_inv_def update_same)
  then have "fs_good (fs\<lparr>fs_bcache := c\<rparr>)" using G(2) by (intro fs_goodI[OF g update_same(1)]) (auto simp: update_same)
  then show ?thesis using c(1) by (auto simp: fs_step_def update_same)
qed

lemma fs_bcache_set_step:
  assumes g: "fs_good fs" and b: "file_block fs b"
    and sz: "unat offset + unat sz \<le> unat (ext2_get_block_size fs)" "unat sz \<le> length src"
  shows "\<exists>fs'. fs_bcache_set b src offset sz fs = Some fs' \<and> fs_step {b} {} fs fs'
    \<and> fs_block fs' b = patch (unat offset) (take (unat sz) src) (fs_block fs b)"
proof -
  note G = fs_goodD[OF g]
  obtain c d where c: "fs_bcache_set b src offset sz fs = Some (fs\<lparr>fs_bcache := c, fs_drive := d\<rparr>)"
    "cache_ok (fs\<lparr>fs_bcache := c, fs_drive := d\<rparr>)" "fs_synced fs \<longrightarrow> fs_synced (fs\<lparr>fs_bcache := c, fs_drive := d\<rparr>)"
    "\<forall>b'. data_block fs b' \<longrightarrow> fs_block (fs\<lparr>fs_bcache := c, fs_drive := d\<rparr>) b' =
         (if b' = b then patch (unat offset) (take (unat sz) src) (fs_block fs b) else fs_block fs b')"
    using fs_bcache_write[OF G(9) b sz] by blast
  have "fs_inv (fs\<lparr>fs_bcache := c, fs_drive := d\<rparr>)" using G(1,7) c(2) by (auto simp: fs_inv_def data_update_same)
  then have "fs_good (fs\<lparr>fs_bcache := c, fs_drive := d\<rparr>)"
    using G(2) c(3) by (intro fs_goodI[OF g update_same(2)]) (auto simp: data_update_same)
  then show ?thesis using c(1,4) b by (auto simp: fs_step_def update_same data_update_same file_block_def)
qed

lemma alloc_block_step:
  assumes g: "fs_good fs"
  shows "free_blocks fs = {} \<and> alloc_block fs = None
    \<or> (\<exists>b fs'. alloc_block fs = Some (b, fs') \<and> fs_step {} {b} fs fs' \<and> b \<noteq> 0 \<and> b \<noteq> - 1 \<and> file_block fs b
         \<and> fs_block fs' b = replicate (unat (ext2_get_block_size fs)) 0)"
proof -
  note G = fs_goodD[OF g]
  from alloc_block_spec[OF G(1)] show ?thesis
  proof (elim disjE exE conjE)
    fix b fs' assume A: "alloc_block fs = Some (b, fs')" "b \<in> free_blocks fs" "fs_inv fs'" "same_shape fs fs'"
      "free_blocks fs' = free_blocks fs - {b}" "free_inumbers fs' = free_inumbers fs"
      "\<forall>b'. data_block fs b' \<longrightarrow> fs_block fs' b' =
            (if b' = b then replicate (unat (ext2_get_block_size fs)) 0 else fs_block fs b')"
      "fs_synced fs \<longrightarrow> fs_synced fs'"
    have b: "file_block fs b" "data_block fs b" using G(10) A(2) by (auto simp: file_block_def)
    then have "b \<noteq> - 1" using block_valid_not_empty_tag geometryD(1)[OF G(8)] by (auto simp: data_block_def)
    moreover have "fs_good fs'" using A G(2) by (intro fs_goodI[OF g A(4)]) auto
    ultimately show ?thesis using A b G(5) by (auto simp: fs_step_def)
  qed auto
qed


lemma ptrs_step: "fs_step W new fs fs' \<Longrightarrow> data_block fs b \<Longrightarrow> b \<notin> W \<Longrightarrow> b \<notin> new \<Longrightarrow> ptrs fs' b = ptrs fs b"
  by (simp add: ptrs_def fs_stepD(11))

lemma read_pointers_step:
  "fs_good fs \<Longrightarrow> file_block fs b \<Longrightarrow> \<exists>fs'. read_pointers b fs = Some (ptrs fs b, fs') \<and> fs_step {} {} fs fs'"
  using fs_bcache_get_step[of fs b] by (auto simp: read_pointers_def read_sectors_def ptrs_def)

lemma write_pointers_step:
  assumes g: "fs_good fs" "file_block fs b" and ps: "length ps = epb fs"
  shows "\<exists>fs'. write_pointers b ps fs = Some fs' \<and> fs_step {b} {} fs fs' \<and> ptrs fs' b = ps"
proof -
  note z = good_sizes[OF g(1)]
  obtain fs' where f: "write_pointers b ps fs = Some fs'" "fs_step {b} {} fs fs'"
    "fs_block fs' b = patch 0 (take (unat (ext2_get_block_size fs)) (bytes_of_words ps)) (fs_block fs b)"
    using fs_bcache_set_step[OF g, of 0 "ext2_get_block_size fs" "bytes_of_words ps"] ps z(1) by (auto simp: write_pointers_def)
  have "fs_block fs' b = bytes_of_words ps" using f(3) ps z by simp
  then show ?thesis using f(1,2) by (auto simp: ptrs_def)
qed

lemma ptrs_zero: "fs_good fs \<Longrightarrow> fs_block fs b = replicate (unat (ext2_get_block_size fs)) 0 \<Longrightarrow> ptrs fs b = replicate (epb fs) 0"
  using good_sizes(1)[of fs] by (simp add: ptrs_def)

section \<open>Growing a tree\<close>

text \<open>The blocks below the pointer block \<open>b\<close>, the root of a tree of depth \<open>Suc d\<close>.\<close>

definition kids :: "ext2 \<Rightarrow> nat \<Rightarrow> u32 \<Rightarrow> u32 set" where
  "kids fs d b = row_set (epb fs) (\<lambda>_. d) (epb fs) (ptrs fs) ((!) (ptrs fs b))"

text \<open>A tree that is about to get leaf \<open>n\<close>, the block \<open>blk\<close>.  Its root may still be empty.\<close>

definition open_tree :: "ext2 \<Rightarrow> nat \<Rightarrow> u32 \<Rightarrow> nat \<Rightarrow> u32 \<Rightarrow> bool" where
  "open_tree fs d b n blk \<longleftrightarrow> fs_good fs \<and> b \<noteq> 0 \<and> n < epb fs ^ Suc d \<and> b \<notin> kids fs d b
     \<and> row_ok (epb fs) (\<lambda>_. d) (\<lambda>k. k * epb fs ^ d) (epb fs) (ptrs fs) ((!) (ptrs fs b)) n
     \<and> owned fs (insert b (kids fs d b)) \<and> owned fs {blk} \<and> blk \<noteq> 0 \<and> blk \<notin> insert b (kids fs d b)"

text \<open>The tree after that.\<close>

definition grown :: "ext2 \<Rightarrow> nat \<Rightarrow> u32 \<Rightarrow> nat \<Rightarrow> u32 \<Rightarrow> ext2 \<Rightarrow> u32 set \<Rightarrow> bool" where
  "grown fs d b n blk fs' new \<longleftrightarrow> fs_step (insert b (kids fs d b)) new fs fs'
     \<and> tree_ok (epb fs) (ptrs fs') (Suc d) b (Suc n)
     \<and> tree_set (epb fs) (ptrs fs') (Suc d) b = insert b (kids fs d b) \<union> {blk} \<union> new
     \<and> (\<forall>q < epb fs ^ Suc d. leaf (epb fs) (ptrs fs') (Suc d) b q =
          (if q = n then blk else leaf (epb fs) (ptrs fs) (Suc d) b q))
     \<and> (\<forall>q < epb fs ^ Suc d. leaf (epb fs) (ptrs fs) (Suc d) b q \<noteq> 0 \<longrightarrow>
          fs_block fs' (leaf (epb fs) (ptrs fs) (Suc d) b q) = fs_block fs (leaf (epb fs) (ptrs fs) (Suc d) b q))"

lemma leaf_in_kids:
  assumes "q < epb fs ^ Suc d" "leaf (epb fs) (ptrs fs) (Suc d) b q \<noteq> 0" "0 < epb fs"
  shows "leaf (epb fs) (ptrs fs) (Suc d) b q \<in> tree_set (epb fs) (ptrs fs) d (ptrs fs b ! (q div epb fs ^ d))" "q div epb fs ^ d < epb fs"
    "leaf (epb fs) (ptrs fs) (Suc d) b q \<in> kids fs d b"
proof -
  show k: "q div epb fs ^ d < epb fs" using assms(1,3) by (simp add: less_mult_imp_div_less)
  show l: "leaf (epb fs) (ptrs fs) (Suc d) b q \<in> tree_set (epb fs) (ptrs fs) d (ptrs fs b ! (q div epb fs ^ d))"
    using leaf_in_tree[of "q mod epb fs ^ d" "epb fs" d "ptrs fs" "ptrs fs b ! (q div epb fs ^ d)"] assms(2,3)
    by (simp add: leaf.simps split: if_splits)
  show "leaf (epb fs) (ptrs fs) (Suc d) b q \<in> kids fs d b" unfolding kids_def row_set_def using k l by blast
qed

lemma leaf_slot_grown:
  assumes o: "open_tree fs 0 b n blk"
  shows "\<exists>fs'. write_pointers b ((ptrs fs b)[n := blk]) fs = Some fs' \<and> grown fs 0 b n blk fs' {}"
proof -
  let ?e = "epb fs" and ?m = "ptrs fs"
  have O: "fs_good fs" "b \<noteq> 0" "n < ?e" "b \<notin> kids fs 0 b" "file_block fs b" "blk \<noteq> 0" "blk \<notin> kids fs 0 b" "blk \<noteq> b"
    "row_ok ?e (\<lambda>_. 0) (\<lambda>k. k * ?e ^ 0) ?e ?m ((!) (?m b)) n" "owned fs (kids fs 0 b)"
    using o by (auto simp: open_tree_def)
  have len: "length (?m b) = ?e" using good_sizes(5)[OF O(1)] .
  obtain fs' where w: "write_pointers b ((?m b)[n := blk]) fs = Some fs'" "fs_step {b} {} fs fs'" "ptrs fs' b = (?m b)[n := blk]"
    using write_pointers_step[OF O(1,5), of "(?m b)[n := blk]"] len by auto
  have same: "ptrs fs' x = ?m x" if "x \<in> kids fs 0 b" for x
    using ptrs_step[OF w(2), of x] that O(4,10) by (auto simp: owned_def file_block_def)
  have n: "n div ?e ^ 0 = n" "n mod ?e ^ 0 = 0" by simp_all
  note T = tree_close[OF O(9,2) len, of n "ptrs fs'" blk, unfolded kids_def[symmetric], OF _ n(1)[symmetric]]
  have T': "tree_ok ?e (ptrs fs') (Suc 0) b (Suc n)"
    "tree_set ?e (ptrs fs') (Suc 0) b = insert b (tree_set ?e (ptrs fs') 0 blk \<union> (kids fs 0 b - tree_set ?e ?m 0 (?m b ! n)))"
    "q < ?e ^ Suc 0 \<Longrightarrow> leaf ?e (ptrs fs') (Suc 0) b q =
       (if q div ?e ^ 0 = n then leaf ?e (ptrs fs') 0 blk (q mod ?e ^ 0) else leaf ?e ?m (Suc 0) b q)" for q
    by (rule T; use O same w(3) in auto)+
  have "tree_ok ?e ?m 0 (?m b ! n) (min (?e ^ 0) (n - n * ?e ^ 0))" using O(3,9) by (auto simp: row_ok_def)
  then have z: "?m b ! n = 0" by simp
  have "fs_block fs' (leaf ?e ?m (Suc 0) b q) = fs_block fs (leaf ?e ?m (Suc 0) b q)" if "q < ?e ^ Suc 0" "leaf ?e ?m (Suc 0) b q \<noteq> 0" for q
  proof -
    have "leaf ?e ?m (Suc 0) b q \<in> kids fs 0 b"
      using leaf_in_kids(3)[OF that] good_sizes(2)[OF O(1)] by simp
    then show ?thesis by (intro fs_stepD(11)[OF w(2)]) (use O(4,10) in \<open>auto simp: owned_def file_block_def\<close>)
  qed
  then have "grown fs 0 b n blk fs' {}"
    unfolding grown_def using T' O(6,7) z fs_step_mono[OF w(2), of "insert b (kids fs 0 b)"] by auto
  then show ?thesis using w(1) by blast
qed


lemma tree_set_kids: "c \<noteq> 0 \<Longrightarrow> tree_set (epb fs) (ptrs fs) (Suc d) c = insert c (kids fs d c)"
  by (auto simp: kids_def row_set_def tree_set.simps)

lemma tree_set_subset_kids: "k < epb fs \<Longrightarrow> tree_set (epb fs) (ptrs fs) d (ptrs fs b ! k) \<subseteq> kids fs d b"
  by (auto simp: kids_def row_set_def)

text \<open>One level down: \<open>c\<close> is the root of the subtree for leaf \<open>n\<close>, old or fresh.\<close>

definition descend :: "ext2 \<Rightarrow> nat \<Rightarrow> u32 \<Rightarrow> nat \<Rightarrow> u32 \<Rightarrow> u32 \<Rightarrow> ext2 \<Rightarrow> u32 set \<Rightarrow> bool" where
  "descend fs d b n blk c fs' new \<longleftrightarrow> fs_step {b} new fs fs'
     \<and> ptrs fs' b = (ptrs fs b)[n div epb fs ^ Suc d := c] \<and> open_tree fs' d c (n mod epb fs ^ Suc d) blk
     \<and> insert c (kids fs' d c) = new \<union> tree_set (epb fs) (ptrs fs) (Suc d) (ptrs fs b ! (n div epb fs ^ Suc d))
     \<and> (\<forall>x < epb fs ^ Suc d. leaf (epb fs) (ptrs fs') (Suc d) c x =
          leaf (epb fs) (ptrs fs) (Suc d) (ptrs fs b ! (n div epb fs ^ Suc d)) x)"

lemma open_treeD:
  assumes "open_tree fs d b n blk"
  shows "fs_good fs" "b \<noteq> 0" "n < epb fs ^ Suc d" "b \<notin> kids fs d b" "file_block fs b" "owned fs (insert b (kids fs d b))"
    "row_ok (epb fs) (\<lambda>_. d) (\<lambda>k. k * epb fs ^ d) (epb fs) (ptrs fs) ((!) (ptrs fs b)) n"
    "owned fs {blk}" "blk \<noteq> 0" "blk \<noteq> b" "blk \<notin> kids fs d b" "length (ptrs fs b) = epb fs"
    "n div epb fs ^ d < epb fs" "n mod epb fs ^ d < epb fs ^ d"
    "tree_ok (epb fs) (ptrs fs) d (ptrs fs b ! (n div epb fs ^ d)) (n mod epb fs ^ d)"
proof -
  show O: "fs_good fs" "b \<noteq> 0" "n < epb fs ^ Suc d" "b \<notin> kids fs d b" "file_block fs b" "owned fs (insert b (kids fs d b))"
    "row_ok (epb fs) (\<lambda>_. d) (\<lambda>k. k * epb fs ^ d) (epb fs) (ptrs fs) ((!) (ptrs fs b)) n"
    "owned fs {blk}" "blk \<noteq> 0" "blk \<noteq> b" "blk \<notin> kids fs d b"
    using assms by (auto simp: open_tree_def)
  show "length (ptrs fs b) = epb fs" by (rule good_sizes(5)[OF O(1)])
  have e: "0 < epb fs ^ d" using good_sizes(2)[OF O(1)] by simp
  show k: "n div epb fs ^ d < epb fs" using O(3) e by (simp add: less_mult_imp_div_less)
  show r: "n mod epb fs ^ d < epb fs ^ d" using e by simp
  have "min (epb fs ^ d) (n - n div epb fs ^ d * epb fs ^ d) = n mod epb fs ^ d" using r by (simp add: modulo_nat_def)
  then show "tree_ok (epb fs) (ptrs fs) d (ptrs fs b ! (n div epb fs ^ d)) (n mod epb fs ^ d)"
    using O(7) k by (auto simp: row_ok_def)
qed

text \<open>A block that was just allocated is the root of an empty tree.\<close>

lemma open_fresh:
  assumes g: "fs_good fs" and st: "fs_step W {c} fs fs'" and c: "c \<noteq> 0" "ptrs fs' c = replicate (epb fs) 0"
    and blk: "owned fs {blk}" "blk \<noteq> 0"
  shows "open_tree fs' d c 0 blk" "kids fs' d c = {}" "x < epb fs ^ Suc d \<Longrightarrow> leaf (epb fs) (ptrs fs') (Suc d) c x = 0"
proof -
  note S = fs_stepD[OF st]
  have e: "0 < epb fs" using good_sizes(2)[OF g] by simp
  show k: "kids fs' d c = {}" unfolding kids_def by (rule row_set_zero) (simp add: S(6) c(2))
  have "blk \<noteq> c" using owned_not_free[OF blk(1) g] S(3) by auto
  then show "open_tree fs' d c 0 blk"
    using S(1) c k owned_new[OF g st] owned_step[OF blk(1) g st] blk(2) e
    by (auto simp: open_tree_def S(6) intro!: row_ok_zero)
  assume "x < epb fs ^ Suc d"
  then have "x div epb fs ^ d < epb fs" using e by (simp add: less_mult_imp_div_less)
  then show "leaf (epb fs) (ptrs fs') (Suc d) c x = 0" by (simp add: leaf.simps c(2))
qed

lemma tier_child_fresh:
  assumes o: "open_tree fs (Suc d) b n blk" and k: "unat index = n div epb fs ^ Suc d" and r: "n mod epb fs ^ Suc d = 0"
  shows "free_blocks fs = {} \<and> tier_child True b (ptrs fs b) index fs = None
    \<or> (\<exists>c fs'. tier_child True b (ptrs fs b) index fs = Some (True, (ptrs fs b)[n div epb fs ^ Suc d := c], ptrs fs' c, 1, fs')
         \<and> descend fs d b n blk c fs' {c})"
proof (cases "alloc_block fs")
  case None
  then show ?thesis using alloc_block_step[OF open_treeD(1)[OF o]] by (auto simp: tier_child_def)
next
  case (Some res)
  let ?k = "n div epb fs ^ Suc d"
  note O = open_treeD[OF o]
  obtain c fs1 where a: "alloc_block fs = Some (c, fs1)" "fs_step {} {c} fs fs1" "c \<noteq> 0" "c \<noteq> - 1" "file_block fs c"
    "fs_block fs1 c = replicate (unat (ext2_get_block_size fs)) 0"
    using alloc_block_step[OF O(1)] Some by auto
  note S = fs_stepD[OF a(2)]
  have "file_block fs1 b" "length ((ptrs fs b)[?k := c]) = epb fs1" using O(5,12) by (simp_all add: S)
  from write_pointers_step[OF S(1) this] obtain fs2 where w: "write_pointers b ((ptrs fs b)[?k := c]) fs1 = Some fs2"
    "fs_step {b} {} fs1 fs2" "ptrs fs2 b = (ptrs fs b)[?k := c]" by blast
  have st: "fs_step {b} {c} fs fs2" using fs_step_trans[OF a(2) w(2)] by simp
  have cb: "c \<noteq> b" using owned_not_free[OF O(6,1)] S(3) by auto
  have "ptrs fs2 c = ptrs fs1 c" by (rule ptrs_step[OF w(2)]) (use cb a(5) in \<open>auto simp: S file_block_def\<close>)
  then have z: "ptrs fs2 c = replicate (epb fs) 0" using ptrs_zero[OF S(1), of c] a(6) by (simp add: S)
  note F = open_fresh[OF O(1) st a(3) z O(8,9), where d = d]
  have "ptrs fs b ! ?k = 0" using O(15) r tree_ok_zero by fastforce
  then have "descend fs d b n blk c fs2 {c}"
    unfolding descend_def using st w(3) F r by auto
  moreover have "tier_child True b (ptrs fs b) index fs = Some (True, (ptrs fs b)[?k := c], ptrs fs2 c, 1, fs2)"
    using a(1,4) w(1) z fs_stepD(6)[OF st] by (simp add: tier_child_def k Let_def ext2_zero_pointer_block_def epb_def)
  ultimately show ?thesis by blast
qed

text \<open>A step leaves a tree alone when it does not write its blocks.\<close>

lemma tree_same_step:
  assumes g: "fs_good fs" and st: "fs_step W new fs fs'" and own: "owned fs (tree_set e (ptrs fs) d b)"
    and W: "tree_set e (ptrs fs) d b \<inter> W = {}"
  shows "tree_set e (ptrs fs') d b = tree_set e (ptrs fs) d b"
    "r < e ^ d \<Longrightarrow> leaf e (ptrs fs') d b r = leaf e (ptrs fs) d b r" "tree_ok e (ptrs fs') d b n = tree_ok e (ptrs fs) d b n"
proof -
  have "ptrs fs' x = ptrs fs x" if "x \<in> tree_set e (ptrs fs) d b" for x
    using ptrs_step[OF st, of x] that own W owned_not_free[OF own g] fs_stepD(3)[OF st] by (auto simp: owned_def file_block_def)
  note A = tree_agree[of e "ptrs fs" d b "ptrs fs'", OF this]
  show "tree_set e (ptrs fs') d b = tree_set e (ptrs fs) d b"
    "r < e ^ d \<Longrightarrow> leaf e (ptrs fs') d b r = leaf e (ptrs fs) d b r" "tree_ok e (ptrs fs') d b n = tree_ok e (ptrs fs) d b n"
    using A by auto
qed

text \<open>An existing subtree that is not full.\<close>

lemma open_existing:
  assumes t: "tree_ok (epb fs) (ptrs fs) (Suc d) c r" "r \<noteq> 0" "r < epb fs ^ Suc d" and g: "fs_good fs" and st: "fs_step {} {} fs fs'"
    and own: "owned fs (tree_set (epb fs) (ptrs fs) (Suc d) c)" "owned fs {blk}" "blk \<noteq> 0" "blk \<notin> tree_set (epb fs) (ptrs fs) (Suc d) c"
  shows "open_tree fs' d c r blk" "insert c (kids fs' d c) = tree_set (epb fs) (ptrs fs) (Suc d) c"
    "x < epb fs ^ Suc d \<Longrightarrow> leaf (epb fs) (ptrs fs') (Suc d) c x = leaf (epb fs) (ptrs fs) (Suc d) c x"
proof -
  note S = fs_stepD[OF st]
  have c: "c \<noteq> 0" using tree_ok_zero[OF t(1)] t(2) by simp
  have A: "tree_set (epb fs) (ptrs fs') (Suc d) c = tree_set (epb fs) (ptrs fs) (Suc d) c"
    "\<And>x. x < epb fs ^ Suc d \<Longrightarrow> leaf (epb fs) (ptrs fs') (Suc d) c x = leaf (epb fs) (ptrs fs) (Suc d) c x"
    "tree_ok (epb fs) (ptrs fs') (Suc d) c r = tree_ok (epb fs) (ptrs fs) (Suc d) c r"
    using tree_same_step[OF g st own(1)] by auto
  show k: "insert c (kids fs' d c) = tree_set (epb fs) (ptrs fs) (Suc d) c"
    using A tree_set_kids[OF c, of fs' d] by (simp add: S)
  show "x < epb fs ^ Suc d \<Longrightarrow> leaf (epb fs) (ptrs fs') (Suc d) c x = leaf (epb fs) (ptrs fs) (Suc d) c x" using A by blast
  have "tree_ok (epb fs) (ptrs fs') (Suc d) c r" using A t(1) by blast
  then have "c \<notin> kids fs' d c" "row_ok (epb fs') (\<lambda>_. d) (\<lambda>k. k * epb fs' ^ d) (epb fs') (ptrs fs') ((!) (ptrs fs' c)) r"
    unfolding tree_ok_row kids_def using c by (simp_all add: S)
  moreover have "owned fs' (insert c (kids fs' d c))" "owned fs' {blk}" "blk \<notin> insert c (kids fs' d c)"
    unfolding k using owned_step[OF own(1) g st] owned_step[OF own(2) g st] own(4) by auto
  ultimately show "open_tree fs' d c r blk"
    unfolding open_tree_def using S(1,6) c t(3) own(3) by simp
qed

lemma tier_child_existing:
  assumes o: "open_tree fs (Suc d) b n blk" and k: "unat index = n div epb fs ^ Suc d" and r: "n mod epb fs ^ Suc d \<noteq> 0"
  shows "\<exists>c fs'. tier_child False b (ptrs fs b) index fs = Some (True, (ptrs fs b)[n div epb fs ^ Suc d := c], ptrs fs' c, 0, fs')
         \<and> descend fs d b n blk c fs' {}"
proof -
  let ?k = "n div epb fs ^ Suc d"
  note O = open_treeD[OF o]
  define c where "c = ptrs fs b ! ?k"
  have sub: "tree_set (epb fs) (ptrs fs) (Suc d) c \<subseteq> kids fs (Suc d) b" unfolding c_def by (rule tree_set_subset_kids[OF O(13)])
  have "c \<noteq> 0" using tree_ok_zero[OF O(15)] r by (simp add: c_def)
  then have "c \<in> kids fs (Suc d) b" using sub root_in_tree[of c "epb fs" "ptrs fs" "Suc d"] by blast
  then have "file_block fs c" using O(6) by (auto simp: owned_def)
  from read_pointers_step[OF O(1) this] obtain fs' where f: "read_pointers c fs = Some (ptrs fs c, fs')" "fs_step {} {} fs fs'" by blast
  note E = open_existing[OF O(15)[folded c_def] r O(14,1) f(2) owned_subset[OF O(6)] O(8,9)]
  have "descend fs d b n blk c fs' {}"
    unfolding descend_def
  proof (intro conjI allI impI)
    show "fs_step {b} {} fs fs'" using fs_step_mono[OF f(2)] by simp
    have "ptrs fs' b = ptrs fs b" using ptrs_step[OF f(2), of b] O(5) by (simp add: file_block_def)
    then show "ptrs fs' b = (ptrs fs b)[?k := c]" by (simp add: c_def)
    show "open_tree fs' d c (n mod epb fs ^ Suc d) blk" "insert c (kids fs' d c) = {} \<union> tree_set (epb fs) (ptrs fs) (Suc d) (ptrs fs b ! ?k)"
      "\<And>x. x < epb fs ^ Suc d \<Longrightarrow> leaf (epb fs) (ptrs fs') (Suc d) c x = leaf (epb fs) (ptrs fs) (Suc d) (ptrs fs b ! ?k) x"
      using E sub O(11) by (auto simp: c_def)
  qed
  moreover have "file_block fs c" by fact
  then have "ptrs fs' c = ptrs fs c" using ptrs_step[OF f(2), of c] by (simp add: file_block_def)
  moreover have "tier_child False b (ptrs fs b) index fs = Some (True, (ptrs fs b)[?k := c], ptrs fs c, 0, fs')"
    using f(1) by (simp add: tier_child_def k c_def)
  ultimately show ?thesis by (intro exI[of _ c] exI[of _ fs']) simp
qed


lemma tier_child_step:
  assumes o: "open_tree fs (Suc d) b n blk" and k: "unat index = n div epb fs ^ Suc d"
    and r: "first \<longleftrightarrow> n mod epb fs ^ Suc d = 0"
  shows "free_blocks fs = {} \<and> tier_child first b (ptrs fs b) index fs = None
    \<or> (\<exists>c fs' new. tier_child first b (ptrs fs b) index fs =
           Some (True, (ptrs fs b)[n div epb fs ^ Suc d := c], ptrs fs' c, of_nat (card new), fs')
         \<and> descend fs d b n blk c fs' new \<and> card new \<le> 1)"
proof (cases first)
  case True
  then have "n mod epb fs ^ Suc d = 0" using r by simp
  from tier_child_fresh[OF o k this] show ?thesis
  proof (elim disjE exE conjE)
    fix c fs' assume "tier_child True b (ptrs fs b) index fs = Some (True, (ptrs fs b)[n div epb fs ^ Suc d := c], ptrs fs' c, 1, fs')"
      "descend fs d b n blk c fs' {c}"
    then show ?thesis by (intro disjI2 exI[of _ c] exI[of _ fs'] exI[of _ "{c}"]) (simp add: True)
  qed (use True r in simp_all)
next
  case False
  then obtain c fs' where "tier_child False b (ptrs fs b) index fs = Some (True, (ptrs fs b)[n div epb fs ^ Suc d := c], ptrs fs' c, 0, fs')"
    "descend fs d b n blk c fs' {}" using tier_child_existing[OF o k] r by auto
  then show ?thesis by (intro disjI2 exI[of _ c] exI[of _ fs'] exI[of _ "{}"]) (simp add: False)
qed

text \<open>When the subtree has its leaf, so has the tree.\<close>

lemma grown_up:
  assumes o: "open_tree fs (Suc d) b n blk" and de: "descend fs d b n blk c fs1 new"
    and gr: "grown fs1 d c (n mod epb fs ^ Suc d) blk fs2 new'"
  shows "grown fs (Suc d) b n blk fs2 (new \<union> new')"
proof -
  let ?e = "epb fs" and ?m = "ptrs fs" and ?m' = "ptrs fs2" and ?w = "epb fs ^ Suc d" and ?k = "n div epb fs ^ Suc d"
  note O = open_treeD[OF o]
  have D: "fs_step {b} new fs fs1" "ptrs fs1 b = (?m b)[?k := c]" "open_tree fs1 d c (n mod ?w) blk"
    "insert c (kids fs1 d c) = new \<union> tree_set ?e ?m (Suc d) (?m b ! ?k)"
    "\<And>x. x < ?w \<Longrightarrow> leaf ?e (ptrs fs1) (Suc d) c x = leaf ?e ?m (Suc d) (?m b ! ?k) x"
    using de by (auto simp: descend_def)
  note S = fs_stepD[OF D(1)]
  have G: "fs_step (insert c (kids fs1 d c)) new' fs1 fs2" "tree_ok ?e ?m' (Suc d) c (Suc (n mod ?w))"
    "tree_set ?e ?m' (Suc d) c = insert c (kids fs1 d c) \<union> {blk} \<union> new'"
    "\<And>q. q < ?w \<Longrightarrow> leaf ?e ?m' (Suc d) c q = (if q = n mod ?w then blk else leaf ?e (ptrs fs1) (Suc d) c q)"
    "\<And>q. q < ?w \<Longrightarrow> leaf ?e (ptrs fs1) (Suc d) c q \<noteq> 0 \<Longrightarrow>
       fs_block fs2 (leaf ?e (ptrs fs1) (Suc d) c q) = fs_block fs1 (leaf ?e (ptrs fs1) (Suc d) c q)"
    using gr by (auto simp: grown_def S(6))
  note S' = fs_stepD[OF G(1)]
  have K: "tree_set ?e ?m (Suc d) (?m b ! ?k) \<subseteq> kids fs (Suc d) b" by (rule tree_set_subset_kids[OF O(13)])
  have nf: "b \<notin> free_blocks fs" "kids fs (Suc d) b \<inter> free_blocks fs = {}" using owned_not_free[OF O(6,1)] by auto
  have new: "new \<subseteq> free_blocks fs" "new' \<subseteq> free_blocks fs" using S(3,4) S'(3) by auto
  have keep: "?m' x = (if x = b then (?m b)[?k := c] else ?m x)"
    if "x \<in> insert b (kids fs (Suc d) b)" "x \<notin> tree_set ?e ?m (Suc d) (?m b ! ?k)" for x
  proof -
    have x: "data_block fs x" "x \<notin> new" "x \<notin> new'" "x \<notin> insert c (kids fs1 d c)"
      using that O(6) nf new D(4) by (auto simp: owned_def file_block_def)
    then have "?m' x = ptrs fs1 x" by (intro ptrs_step[OF G(1)]) (auto simp: S)
    then show ?thesis using D(2) x ptrs_step[OF D(1), of x] by auto
  qed
  have bt: "b \<notin> tree_set ?e ?m (Suc d) (?m b ! ?k)" using K O(4) by auto
  note T = tree_close[OF O(7,2,12,3), of ?k ?m' c, unfolded kids_def[symmetric], OF refl G(2)]
  have "b \<notin> tree_set ?e ?m' (Suc d) c" unfolding G(3) D(4) using bt nf new O(10) by auto
  moreover have "?m' x = ?m x \<and> x \<notin> tree_set ?e ?m' (Suc d) c" if "x \<in> kids fs (Suc d) b" "x \<notin> tree_set ?e ?m (Suc d) (?m b ! ?k)" for x
    unfolding G(3) D(4) using keep[of x] that nf new O(4,11) by auto
  moreover have "?m' b = (?m b)[?k := c]" using keep[of b] bt by simp
  ultimately have T': "tree_ok ?e ?m' (Suc (Suc d)) b (Suc n)"
    "tree_set ?e ?m' (Suc (Suc d)) b = insert b (tree_set ?e ?m' (Suc d) c \<union> (kids fs (Suc d) b - tree_set ?e ?m (Suc d) (?m b ! ?k)))"
    "\<And>q. q < ?e ^ Suc (Suc d) \<Longrightarrow> leaf ?e ?m' (Suc (Suc d)) b q =
       (if q div ?w = ?k then leaf ?e ?m' (Suc d) c (q mod ?w) else leaf ?e ?m (Suc (Suc d)) b q)"
    using T O(4) by blast+
  have "fs_step (insert b (kids fs (Suc d) b)) (new \<union> new') fs fs2"
    by (rule fs_step_mono[OF fs_step_trans[OF D(1) G(1)]]) (use D(4) K in auto)
  moreover have "tree_set ?e ?m' (Suc (Suc d)) b = insert b (kids fs (Suc d) b) \<union> {blk} \<union> (new \<union> new')"
    unfolding T'(2) G(3) D(4) using K by auto
  moreover have "leaf ?e ?m' (Suc (Suc d)) b q = (if q = n then blk else leaf ?e ?m (Suc (Suc d)) b q)" if q: "q < ?e ^ Suc (Suc d)" for q
  proof (cases "q div ?w = ?k")
    case True
    have w: "q mod ?w < ?w" using good_sizes(2)[OF O(1)] by simp
    have "q = n \<longleftrightarrow> q mod ?w = n mod ?w" using True by (metis div_mult_mod_eq)
    then show ?thesis unfolding T'(3)[OF q] using True G(4)[OF w] D(5)[OF w] O(2) by (simp add: leaf.simps(2)[of _ _ "Suc d"])
  next
    case False
    then show ?thesis unfolding T'(3)[OF q] by auto
  qed
  moreover have "fs_block fs2 (leaf ?e ?m (Suc (Suc d)) b q) = fs_block fs (leaf ?e ?m (Suc (Suc d)) b q)"
    if q: "q < ?e ^ Suc (Suc d)" "leaf ?e ?m (Suc (Suc d)) b q \<noteq> 0" for q
  proof -
    let ?x = "leaf ?e ?m (Suc (Suc d)) b q" and ?j = "q div ?w"
    have e: "0 < ?e" using good_sizes(2)[OF O(1)] by simp
    note X = leaf_in_kids[OF q e]
    have x: "?x \<noteq> b" "data_block fs ?x" "?x \<notin> new" "?x \<notin> new'"
      using X(3) O(4,6) nf new by (auto simp: owned_def file_block_def)
    have s1: "fs_block fs1 ?x = fs_block fs ?x" by (rule S(11)) (use x in auto)
    show ?thesis
    proof (cases "?j = ?k")
      case True
      have "q mod ?w < ?w" using e by simp
      moreover have "leaf ?e (ptrs fs1) (Suc d) c (q mod ?w) = ?x"
        using D(5)[of "q mod ?w"] True O(2) e by (simp add: leaf.simps(2)[of _ _ "Suc d"])
      ultimately show ?thesis using G(5)[of "q mod ?w"] q(2) s1 by simp
    next
      case False
      then have "tree_set ?e ?m (Suc d) (?m b ! ?j) \<inter> tree_set ?e ?m (Suc d) (?m b ! ?k) = {}" using O(7,13) X(2) by (auto simp: row_ok_def)
      then have "?x \<notin> tree_set ?e ?m (Suc d) (?m b ! ?k)" using X(1) by blast
      then have "fs_block fs2 ?x = fs_block fs1 ?x" by (intro S'(11)) (use x D(4) in \<open>auto simp: S\<close>)
      then show ?thesis using s1 by simp
    qed
  qed
  ultimately show ?thesis unfolding grown_def using T'(1) by blast
qed


section \<open>The block map of a file\<close>

text \<open>Slots 0 to 11 of the inode hold data blocks, slots 12 to 14 the roots of trees of depth 1 to 3.\<close>

definition fdep :: "nat \<Rightarrow> nat" where
  "fdep s = (if s < 12 then 0 else s - 11)"

definition fbase :: "nat \<Rightarrow> nat \<Rightarrow> nat" where
  "fbase e s = (if s \<le> 12 then s else if s = 13 then 12 + e else 12 + e + e * e)"

definition fslot :: "nat \<Rightarrow> nat \<Rightarrow> nat" where
  "fslot e j = (if j < 12 then j else if j < 12 + e then 12 else if j < 12 + e + e * e then 13 else 14)"

definition fmax :: "nat \<Rightarrow> nat" where
  "fmax e = 12 + e + e * e + e * e * e"

definition file_ptr :: "ext2 \<Rightarrow> cached_inode \<Rightarrow> nat \<Rightarrow> u32" where
  "file_ptr fs ci j = leaf (epb fs) (ptrs fs) (fdep (fslot (epb fs) j)) (inode_block (ci_inode ci) (fslot (epb fs) j))
     (j - fbase (epb fs) (fslot (epb fs) j))"

definition file_blocks :: "ext2 \<Rightarrow> cached_inode \<Rightarrow> u32 set" where
  "file_blocks fs ci = row_set 15 fdep (epb fs) (ptrs fs) (inode_block (ci_inode ci))"

definition file_inv :: "ext2 \<Rightarrow> cached_inode \<Rightarrow> bool" where
  "file_inv fs ci \<longleftrightarrow> length (ci_inode ci) = 128 \<and> unat (ci_data_block_count ci) \<le> fmax (epb fs)
     \<and> row_ok 15 fdep (fbase (epb fs)) (epb fs) (ptrs fs) (inode_block (ci_inode ci)) (unat (ci_data_block_count ci))
     \<and> owned fs (file_blocks fs ci)"

lemma fbase_step: "Suc j < 15 \<Longrightarrow> fbase e (Suc j) = fbase e j + e ^ fdep j"
  unfolding fbase_def fdep_def by (auto simp: numeral_eq_Suc less_Suc_eq)

lemma fslot_range:
  assumes "j < fmax e"
  shows "fslot e j < 15" "fbase e (fslot e j) \<le> j" "j < fbase e (fslot e j) + e ^ fdep (fslot e j)"
  using assms by (auto simp: fslot_def fbase_def fdep_def fmax_def numeral_eq_Suc)

lemma fslot_unique:
  assumes "s < 15" "fbase e s \<le> j" "j < fbase e s + e ^ fdep s"
  shows "fslot e j = s"
proof -
  consider "s < 12" | "s = 12" | "s = 13" | "s = 14" using assms(1) by linarith
  then show ?thesis using assms by cases (auto simp: fslot_def fbase_def fdep_def numeral_eq_Suc)
qed

lemma fslot_max: "s < 15 \<Longrightarrow> j < fbase e s + e ^ fdep s \<Longrightarrow> j < fmax e"
proof -
  assume a: "s < 15" "j < fbase e s + e ^ fdep s"
  then consider "s < 12" | "s = 12" | "s = 13" | "s = 14" by linarith
  then show ?thesis using a(2) by cases (auto simp: fmax_def fbase_def fdep_def power2_eq_square power3_eq_cube)
qed

text \<open>A block is appended when the tree in the slot of the next index gets it as its next leaf.\<close>

lemma file_grown:
  assumes g: "fs_good fs" and inv: "file_inv fs ci" and s: "s < 15" "fbase (epb fs) s \<le> n" "n < fbase (epb fs) s + epb fs ^ fdep s"
    and n: "n = unat (ci_data_block_count ci)"
    and st: "fs_step (tree_set (epb fs) (ptrs fs) (fdep s) (inode_block (ci_inode ci) s)) new fs fs'"
    and c: "tree_ok (epb fs) (ptrs fs') (fdep s) c (Suc (n - fbase (epb fs) s))"
      "tree_set (epb fs) (ptrs fs') (fdep s) c = tree_set (epb fs) (ptrs fs) (fdep s) (inode_block (ci_inode ci) s) \<union> {blk} \<union> new"
      "\<And>q. q < epb fs ^ fdep s \<Longrightarrow> leaf (epb fs) (ptrs fs') (fdep s) c q =
         (if q = n - fbase (epb fs) s then blk else leaf (epb fs) (ptrs fs) (fdep s) (inode_block (ci_inode ci) s) q)"
    and blk: "owned fs {blk}" "blk \<notin> file_blocks fs ci"
    and ci': "length (ci_inode ci') = 128" "unat (ci_data_block_count ci') = Suc n"
      "\<And>j. j < 15 \<Longrightarrow> inode_block (ci_inode ci') j = (if j = s then c else inode_block (ci_inode ci) j)"
  shows "file_inv fs' ci'" "file_blocks fs' ci' = file_blocks fs ci \<union> {blk} \<union> new"
    "j < fmax (epb fs) \<Longrightarrow> file_ptr fs' ci' j = (if j = n then blk else file_ptr fs ci j)"
proof -
  let ?e = "epb fs" and ?m = "ptrs fs" and ?m' = "ptrs fs'" and ?f = "inode_block (ci_inode ci)"
  note S = fs_stepD[OF st]
  have I: "row_ok 15 fdep (fbase ?e) ?e ?m ?f n" "owned fs (file_blocks fs ci)" using inv n by (auto simp: file_inv_def)
  have sub: "tree_set ?e ?m (fdep j) (?f j) \<subseteq> file_blocks fs ci" if "j < 15" for j using that by (auto simp: file_blocks_def row_set_def)
  have nf: "file_blocks fs ci \<inter> free_blocks fs = {}" by (rule owned_not_free[OF I(2) g])
  have apart: "tree_set ?e ?m (fdep j) (?f j) \<inter> tree_set ?e ?m (fdep s) (?f s) = {}" if "j < 15" "j \<noteq> s" for j
    using I(1) that s(1) by (auto simp: row_ok_def)
  have same: "?m' x = ?m x \<and> x \<notin> tree_set ?e ?m' (fdep s) c" if "j < 15" "j \<noteq> s" "x \<in> tree_set ?e ?m (fdep j) (?f j)" for j x
  proof -
    have x: "x \<in> file_blocks fs ci" "x \<notin> tree_set ?e ?m (fdep s) (?f s)" using that sub[OF that(1)] apart[OF that(1,2)] by auto
    then have "x \<notin> new" "data_block fs x" using nf S(3) I(2) by (auto simp: owned_def file_block_def)
    then show ?thesis using x ptrs_step[OF st] blk(2) unfolding c(2) by auto
  qed
  have step: "row_ok 15 fdep (fbase ?e) ?e ?m' (?f(s := c)) (Suc n)"
    "row_set 15 fdep ?e ?m' (?f(s := c)) = tree_set ?e ?m' (fdep s) c \<union> (\<Union>j \<in> {..<15} - {s}. tree_set ?e ?m (fdep j) (?f j))"
    using row_ok_step[OF I(1) s fbase_step c(1) same] by auto
  have cong: "row_ok 15 fdep (fbase ?e) ?e ?m' (inode_block (ci_inode ci')) (Suc n)"
    "row_set 15 fdep ?e ?m' (inode_block (ci_inode ci')) = row_set 15 fdep ?e ?m' (?f(s := c))"
    using step(1) row_cong[of 15 "inode_block (ci_inode ci')" "?f(s := c)"] ci'(3) by auto
  have "(\<Union>j \<in> {..<15} - {s}. tree_set ?e ?m (fdep j) (?f j)) \<union> tree_set ?e ?m (fdep s) (?f s) = file_blocks fs ci"
    using s(1) by (auto simp: file_blocks_def row_set_def)
  then show fb: "file_blocks fs' ci' = file_blocks fs ci \<union> {blk} \<union> new"
    unfolding file_blocks_def[of fs'] S(6) cong(2) step(2) c(2) by auto
  have "owned fs' (file_blocks fs' ci')"
    unfolding fb using owned_step[OF I(2) g st] owned_step[OF blk(1) g st] owned_new[OF g st] by simp
  moreover have "Suc n \<le> fmax ?e" using fslot_max[OF s(1,3)] by simp
  ultimately show "file_inv fs' ci'" unfolding file_inv_def S(6) using cong(1) ci'(1,2) by simp
  assume j: "j < fmax ?e"
  note F = fslot_range[OF j]
  show "file_ptr fs' ci' j = (if j = n then blk else file_ptr fs ci j)"
  proof (cases "fslot ?e j = s")
    case True
    have "j - fbase ?e s = n - fbase ?e s \<longleftrightarrow> j = n" using F(2) s(2) True by auto
    then show ?thesis using c(3)[of "j - fbase ?e s"] F True ci'(3)[OF s(1)] by (auto simp: file_ptr_def S(6))
  next
    case False
    then have "j \<noteq> n" using fslot_unique[OF s] by auto
    moreover have "leaf ?e ?m' (fdep (fslot ?e j)) (?f (fslot ?e j)) (j - fbase ?e (fslot ?e j)) =
        leaf ?e ?m (fdep (fslot ?e j)) (?f (fslot ?e j)) (j - fbase ?e (fslot ?e j))"
      by (rule leaf_agree) (use same[OF F(1) False] F(2,3) in auto)
    ultimately show ?thesis using ci'(3)[OF F(1)] False by (simp add: file_ptr_def S(6))
  qed
qed


section \<open>Fields of an inode\<close>

lemma inode_field_length:
  assumes "length i = 128"
  shows "length (set_inode_size v i) = 128" "length (set_inode_blocks v i) = 128" "length (set_inode_links_count w i) = 128"
    "k < 15 \<Longrightarrow> length (set_inode_block k v i) = 128"
  using assms by (auto simp: set_inode_size_def set_inode_blocks_def set_inode_links_count_def set_inode_block_def)

lemma inode_block_fields:
  assumes "length i = 128" "k < 15"
  shows "inode_block (set_inode_size v i) k = inode_block i k" "inode_block (set_inode_blocks v i) k = inode_block i k"
    "inode_block (set_inode_links_count w i) k = inode_block i k"
    "j < 15 \<Longrightarrow> inode_block (set_inode_block j v i) k = (if k = j then v else inode_block i k)"
proof -
  show "inode_block (set_inode_size v i) k = inode_block i k" "inode_block (set_inode_blocks v i) k = inode_block i k"
    "inode_block (set_inode_links_count w i) k = inode_block i k"
    using assms by (auto simp: inode_block_def set_inode_size_def set_inode_blocks_def set_inode_links_count_def get_put_other)
  assume "j < 15"
  then show "inode_block (set_inode_block j v i) k = (if k = j then v else inode_block i k)"
    using assms by (auto simp: inode_block_def set_inode_block_def intro!: get_put_other)
qed

lemma inode_other_fields:
  assumes "length i = 128"
  shows "k < 15 \<Longrightarrow> inode_size (set_inode_block k v i) = inode_size i" "k < 15 \<Longrightarrow> inode_mode (set_inode_block k v i) = inode_mode i"
    "k < 15 \<Longrightarrow> inode_blocks (set_inode_block k v i) = inode_blocks i"
    "k < 15 \<Longrightarrow> inode_links_count (set_inode_block k v i) = inode_links_count i"
    "inode_size (set_inode_blocks v i) = inode_size i" "inode_mode (set_inode_blocks v i) = inode_mode i"
    "inode_links_count (set_inode_blocks v i) = inode_links_count i" "inode_blocks (set_inode_blocks v i) = v"
    "inode_mode (set_inode_size v i) = inode_mode i" "inode_size (set_inode_size v i) = v" "inode_blocks (set_inode_size v i) = inode_blocks i"
    "inode_links_count (set_inode_size v i) = inode_links_count i"
  using assms
  by (auto simp: inode_size_def inode_mode_def inode_blocks_def inode_links_count_def set_inode_size_def set_inode_blocks_def
    set_inode_block_def get_put_other)

lemmas inode_fields = inode_field_length inode_block_fields inode_other_fields

lemma set_inode_block_same: "length i = 128 \<Longrightarrow> k < 15 \<Longrightarrow> set_inode_block k (inode_block i k) i = i"
  by (simp add: set_inode_block_def inode_block_def put32_def get32_def enc32_dec32)

section \<open>Appending a block to a file\<close>

text \<open>The limits of the tiers as the code computes them do not wrap.\<close>

lemma tier_limits:
  assumes "fs_good fs"
  shows "unat (12 + entries_per_block fs) = 12 + epb fs"
    "unat (entries_per_block fs * entries_per_block fs) = epb fs * epb fs"
    "unat (12 + entries_per_block fs + entries_per_block fs * entries_per_block fs) = 12 + epb fs + epb fs * epb fs"
    "unat (entries_per_block fs * entries_per_block fs * entries_per_block fs) = epb fs * epb fs * epb fs"
    "unat (12 + entries_per_block fs + entries_per_block fs * entries_per_block fs
       + entries_per_block fs * entries_per_block fs * entries_per_block fs) = fmax (epb fs)"
    "fmax (epb fs) \<le> 1074791436"
proof -
  let ?w = "entries_per_block fs" and ?e = "epb fs"
  have e: "unat ?w = ?e" "?e \<le> 1024" using good_sizes(3)[OF assms] by (simp_all add: epb_def)
  have e2: "?e * ?e \<le> 1048576" using mult_le_mono[OF e(2) e(2)] by simp
  have e3: "?e * ?e * ?e \<le> 1073741824" using mult_le_mono[OF e2 e(2)] by simp
  show w2: "unat (?w * ?w) = ?e * ?e" using e2 by (simp add: unat_word_ariths e(1))
  show w3: "unat (?w * ?w * ?w) = ?e * ?e * ?e" using e3 e2 by (simp add: unat_word_ariths e(1))
  show "unat (12 + ?w) = 12 + ?e" using e by (simp add: unat_word_ariths)
  show "unat (12 + ?w + ?w * ?w) = 12 + ?e + ?e * ?e" using e e2 by (simp add: unat_word_ariths)
  show "unat (12 + ?w + ?w * ?w + ?w * ?w * ?w) = fmax ?e" using e e2 e3 by (simp add: unat_word_ariths fmax_def)
  show "fmax ?e \<le> 1074791436" using e(2) e2 e3 by (simp add: fmax_def)
qed


text \<open>What appending the block \<open>blk\<close> does to a file.  The blocks \<open>new\<close> are its new pointer blocks.\<close>

definition added :: "ext2 \<Rightarrow> cached_inode \<Rightarrow> u32 \<Rightarrow> ext2 \<Rightarrow> cached_inode \<Rightarrow> u32 set \<Rightarrow> bool" where
  "added fs ci blk fs' ci' new \<longleftrightarrow> fs_step (file_blocks fs ci) new fs fs' \<and> file_inv fs' ci'
     \<and> unat (ci_data_block_count ci') = Suc (unat (ci_data_block_count ci))
     \<and> file_blocks fs' ci' = file_blocks fs ci \<union> {blk} \<union> new
     \<and> (\<forall>j < fmax (epb fs). file_ptr fs' ci' j = (if j = unat (ci_data_block_count ci) then blk else file_ptr fs ci j))
     \<and> (\<forall>j < fmax (epb fs). file_ptr fs ci j \<noteq> 0 \<longrightarrow> fs_block fs' (file_ptr fs ci j) = fs_block fs (file_ptr fs ci j))
     \<and> inode_size (ci_inode ci') = inode_size (ci_inode ci) \<and> inode_mode (ci_inode ci') = inode_mode (ci_inode ci)
     \<and> inode_links_count (ci_inode ci') = inode_links_count (ci_inode ci)
     \<and> inode_blocks (ci_inode ci') = inode_blocks (ci_inode ci) + of_nat (Suc (card new)) * ext2_sectors_per_block fs
     \<and> ci_inumber ci' = ci_inumber ci \<and> ci_lock ci' = ci_lock ci \<and> ci_delete_pending ci' = ci_delete_pending ci
     \<and> ci_refcount ci' = ci_refcount ci \<and> ci_valid ci' = ci_valid ci"

text \<open>What an append needs.\<close>

definition addable :: "ext2 \<Rightarrow> cached_inode \<Rightarrow> u32 \<Rightarrow> bool" where
  "addable fs ci blk \<longleftrightarrow> fs_good fs \<and> file_inv fs ci \<and> unat (ci_data_block_count ci) < fmax (epb fs)
     \<and> owned fs {blk} \<and> blk \<noteq> 0 \<and> blk \<notin> file_blocks fs ci"

lemma addableD:
  assumes "addable fs ci blk"
  shows "fs_good fs" "file_inv fs ci" "unat (ci_data_block_count ci) < fmax (epb fs)" "owned fs {blk}" "blk \<noteq> 0"
    "blk \<notin> file_blocks fs ci" "length (ci_inode ci) = 128" "owned fs (file_blocks fs ci)"
    "unat (ci_data_block_count ci + 1) = Suc (unat (ci_data_block_count ci))"
proof -
  show A: "fs_good fs" "file_inv fs ci" "unat (ci_data_block_count ci) < fmax (epb fs)" "owned fs {blk}" "blk \<noteq> 0"
    "blk \<notin> file_blocks fs ci" "length (ci_inode ci) = 128" "owned fs (file_blocks fs ci)"
    using assms by (auto simp: addable_def file_inv_def)
  have "ci_data_block_count ci \<noteq> - 1" using A(3) tier_limits(6)[OF A(1)] by auto
  then show "unat (ci_data_block_count ci + 1) = Suc (unat (ci_data_block_count ci))" by (simp add: unat_plus_one)
qed

lemma block_added_file:
  assumes ad: "addable fs ci blk" and s: "s < 15" "s = fslot (epb fs) (unat (ci_data_block_count ci))"
    and st: "fs_step (tree_set (epb fs) (ptrs fs) (fdep s) (inode_block (ci_inode ci) s)) new fs fs'"
    and c: "tree_ok (epb fs) (ptrs fs') (fdep s) c (Suc (unat (ci_data_block_count ci) - fbase (epb fs) s))"
      "tree_set (epb fs) (ptrs fs') (fdep s) c = tree_set (epb fs) (ptrs fs) (fdep s) (inode_block (ci_inode ci) s) \<union> {blk} \<union> new"
      "\<And>q. q < epb fs ^ fdep s \<Longrightarrow> leaf (epb fs) (ptrs fs') (fdep s) c q =
         (if q = unat (ci_data_block_count ci) - fbase (epb fs) s then blk
          else leaf (epb fs) (ptrs fs) (fdep s) (inode_block (ci_inode ci) s) q)"
    and d: "\<And>q. q < epb fs ^ fdep s \<Longrightarrow> leaf (epb fs) (ptrs fs) (fdep s) (inode_block (ci_inode ci) s) q \<noteq> 0 \<Longrightarrow>
        fs_block fs' (leaf (epb fs) (ptrs fs) (fdep s) (inode_block (ci_inode ci) s) q) =
        fs_block fs (leaf (epb fs) (ptrs fs) (fdep s) (inode_block (ci_inode ci) s) q)"
    and k: "k = of_nat (Suc (card new))"
  shows "\<exists>ci'. block_added k (put_root s c ci) fs' = Some (True, ci', fs') \<and> added fs ci blk fs' ci' new"
proof -
  note A = addableD[OF ad] and S = fs_stepD[OF st] and F = fslot_range[OF addableD(3)[OF ad], folded s(2)]
  define ci' where "ci' = (put_root s c ci)\<lparr>
       ci_inode := set_inode_blocks (inode_blocks (ci_inode (put_root s c ci)) + k * ext2_sectors_per_block fs') (ci_inode (put_root s c ci)),
       ci_data_block_count := ci_data_block_count ci + 1\<rparr>"
  have run: "block_added k (put_root s c ci) fs' = Some (True, ci', fs')" by (simp add: block_added_def ci'_def put_root_def)
  have i: "length (ci_inode ci') = 128" "unat (ci_data_block_count ci') = Suc (unat (ci_data_block_count ci))"
    "\<And>j. j < 15 \<Longrightarrow> inode_block (ci_inode ci') j = (if j = s then c else inode_block (ci_inode ci) j)"
    using A(7,9) s(1) by (auto simp: ci'_def put_root_def inode_fields)
  note G = file_grown[OF A(1,2) F refl st c A(4,6) i]
  have spb: "ext2_sectors_per_block fs' = ext2_sectors_per_block fs" by (simp add: ext2_sectors_per_block_def S(9))
  have sub: "tree_set (epb fs) (ptrs fs) (fdep s) (inode_block (ci_inode ci) s) \<subseteq> file_blocks fs ci"
    using s(1) by (auto simp: file_blocks_def row_set_def)
  have data: "fs_block fs' (file_ptr fs ci j) = fs_block fs (file_ptr fs ci j)" if j: "j < fmax (epb fs)" "file_ptr fs ci j \<noteq> 0" for j
  proof (cases "fslot (epb fs) j = s")
    case True
    then show ?thesis using d[of "j - fbase (epb fs) s"] fslot_range[OF j(1)] j(2) by (auto simp: file_ptr_def)
  next
    case False
    let ?t = "fslot (epb fs) j"
    note R = fslot_range[OF j(1)]
    have "file_ptr fs ci j \<in> tree_set (epb fs) (ptrs fs) (fdep ?t) (inode_block (ci_inode ci) ?t)"
      using leaf_in_tree[of "j - fbase (epb fs) ?t" "epb fs" "fdep ?t"] R(2,3) j(2) by (auto simp: file_ptr_def)
    then have "file_ptr fs ci j \<notin> tree_set (epb fs) (ptrs fs) (fdep s) (inode_block (ci_inode ci) s)" "file_ptr fs ci j \<in> file_blocks fs ci"
      using A(2) False s(1) R(1) by (auto simp: file_inv_def row_ok_def file_blocks_def row_set_def)
    then show ?thesis by (intro S(11)) (use S(3) A(8) owned_not_free[OF A(8,1)] in \<open>auto simp: owned_def file_block_def\<close>)
  qed
  have "added fs ci blk fs' ci' new"
    unfolding added_def
  proof (intro conjI allI impI)
    show "\<And>j. j < fmax (epb fs) \<Longrightarrow> file_ptr fs ci j \<noteq> 0 \<Longrightarrow> fs_block fs' (file_ptr fs ci j) = fs_block fs (file_ptr fs ci j)" by (rule data)
    show "fs_step (file_blocks fs ci) new fs fs'" using fs_step_mono[OF st] sub by blast
    show "file_inv fs' ci'" "unat (ci_data_block_count ci') = Suc (unat (ci_data_block_count ci))"
      "file_blocks fs' ci' = file_blocks fs ci \<union> {blk} \<union> new"
      "\<And>j. j < fmax (epb fs) \<Longrightarrow> file_ptr fs' ci' j = (if j = unat (ci_data_block_count ci) then blk else file_ptr fs ci j)"
      using G i(2) by auto
  qed (use A(7) s(1) k in \<open>simp_all add: ci'_def put_root_def inode_fields spb\<close>)
  then show ?thesis using run by blast
qed

lemma add_direct_block_file:
  assumes ad: "addable fs ci blk" and n: "unat (ci_data_block_count ci) < 12"
  shows "\<exists>ci'. add_direct_block (ci_data_block_count ci) blk ci fs = Some (True, ci', fs) \<and> added fs ci blk fs ci' {}"
proof -
  let ?n = "unat (ci_data_block_count ci)"
  note A = addableD[OF ad]
  have s: "fslot (epb fs) ?n = ?n" "fbase (epb fs) ?n = ?n" "fdep ?n = 0" using n by (auto simp: fslot_def fbase_def fdep_def)
  have "tree_ok (epb fs) (ptrs fs) (fdep ?n) (inode_block (ci_inode ci) ?n) (min (epb fs ^ fdep ?n) (?n - fbase (epb fs) ?n))"
    using A(2) n by (auto simp: file_inv_def row_ok_def)
  then have z: "inode_block (ci_inode ci) ?n = 0" by (simp add: s)
  have "fs_step (tree_set (epb fs) (ptrs fs) (fdep ?n) (inode_block (ci_inode ci) ?n)) {} fs fs" using fs_step_refl[OF A(1)] by (simp add: z)
  then show ?thesis unfolding add_direct_block_def
    by (rule block_added_file[OF ad, rotated 2]) (use n s z A(5) in auto)
qed


text \<open>The root of the tier for the next block, old or fresh.\<close>

definition root_ready :: "ext2 \<Rightarrow> cached_inode \<Rightarrow> nat \<Rightarrow> nat \<Rightarrow> u32 \<Rightarrow> u32 \<Rightarrow> ext2 \<Rightarrow> u32 set \<Rightarrow> bool" where
  "root_ready fs ci s d blk c fs' new \<longleftrightarrow> fs_step {} new fs fs'
     \<and> open_tree fs' d c (unat (ci_data_block_count ci) - fbase (epb fs) s) blk
     \<and> insert c (kids fs' d c) = new \<union> tree_set (epb fs) (ptrs fs) (Suc d) (inode_block (ci_inode ci) s)
     \<and> (\<forall>x < epb fs ^ Suc d. leaf (epb fs) (ptrs fs') (Suc d) c x = leaf (epb fs) (ptrs fs) (Suc d) (inode_block (ci_inode ci) s) x)"

lemma tier_root_step:
  assumes ad: "addable fs ci blk" and s: "12 \<le> s" "s < 15" "s = fslot (epb fs) (unat (ci_data_block_count ci))" "fdep s = Suc d"
    and first: "first \<longleftrightarrow> unat (ci_data_block_count ci) = fbase (epb fs) s"
  shows "free_blocks fs = {} \<and> tier_root s first ci fs = None
    \<or> (\<exists>c fs' new. tier_root s first ci fs = Some (True, ptrs fs' c, of_nat (card new), put_root s c ci, fs')
         \<and> root_ready fs ci s d blk c fs' new \<and> card new \<le> 1)"
proof -
  let ?n = "unat (ci_data_block_count ci)" and ?r = "inode_block (ci_inode ci) s" and ?e = "epb fs"
  note A = addableD[OF ad] and F = fslot_range[OF addableD(3)[OF ad], folded s(3)]
  have cnt: "min (?e ^ fdep s) (?n - fbase ?e s) = ?n - fbase ?e s" using F by simp
  then have t: "tree_ok ?e (ptrs fs) (Suc d) ?r (?n - fbase ?e s)" using A(2) s(2,4) by (auto simp: file_inv_def row_ok_def)
  have sub: "tree_set ?e (ptrs fs) (Suc d) ?r \<subseteq> file_blocks fs ci" using s(2,4) by (auto simp: file_blocks_def row_set_def)
  show ?thesis
  proof (cases first)
    case True
    then have z: "?n - fbase ?e s = 0" "?r = 0" using first tree_ok_zero[OF t] by auto
    show ?thesis
    proof (cases "alloc_block fs")
      case None
      then show ?thesis using alloc_block_step[OF A(1)] True by (auto simp: tier_root_def)
    next
      case (Some res)
      then obtain c fs1 where a: "alloc_block fs = Some (c, fs1)" "fs_step {} {c} fs fs1" "c \<noteq> 0" "c \<noteq> - 1"
        "fs_block fs1 c = replicate (unat (ext2_get_block_size fs)) 0"
        using alloc_block_step[OF A(1)] by auto
      note S = fs_stepD[OF a(2)]
      have p: "ptrs fs1 c = replicate ?e 0" using ptrs_zero[OF S(1), of c] a(5) by (simp add: S)
      note O = open_fresh[OF A(1) a(2,3) p A(4,5), where d = d]
      have "root_ready fs ci s d blk c fs1 {c}" unfolding root_ready_def using a(2) O z by auto
      moreover have "tier_root s first ci fs = Some (True, ptrs fs1 c, 1, put_root s c ci, fs1)"
        using a(1,4) True p S(6) by (simp add: tier_root_def ext2_zero_pointer_block_def epb_def)
      ultimately show ?thesis by (intro disjI2 exI[of _ c] exI[of _ fs1] exI[of _ "{c}"]) simp
    qed
  next
    case False
    then have r: "?n - fbase ?e s \<noteq> 0" using first F(2) by auto
    then have c: "?r \<noteq> 0" using tree_ok_zero[OF t] by simp
    have "file_block fs ?r" using root_in_tree[OF c, of ?e "ptrs fs" "Suc d"] sub A(8) by (auto simp: owned_def)
    from read_pointers_step[OF A(1) this] obtain fs1 where f: "read_pointers ?r fs = Some (ptrs fs ?r, fs1)" "fs_step {} {} fs fs1" by blast
    have "?n - fbase ?e s < ?e ^ Suc d" "blk \<notin> tree_set ?e (ptrs fs) (Suc d) ?r" using F s(4) A(6) sub by auto
    note E = open_existing[OF t r this(1) A(1) f(2) owned_subset[OF A(8) sub] A(4,5) this(2)]
    have "root_ready fs ci s d blk ?r fs1 {}" unfolding root_ready_def using f(2) E by auto
    moreover have "put_root s ?r ci = ci" using set_inode_block_same[OF A(7) s(2)] by (simp add: put_root_def)
    moreover have "ptrs fs1 ?r = ptrs fs ?r" using ptrs_step[OF f(2), of ?r] \<open>file_block fs ?r\<close> by (simp add: file_block_def)
    ultimately show ?thesis using f(1) False by (intro disjI2 exI[of _ ?r] exI[of _ fs1] exI[of _ "{}"]) (simp add: tier_root_def)
  qed
qed

lemma card_new:
  assumes "fs_step W new fs fs1" "fs_step W' new' fs1 fs2"
  shows "card (new \<union> new') = card new + card new'"
  by (rule card_Un_disjoint) (use fs_stepD(3,4)[OF assms(1)] fs_stepD(3)[OF assms(2)] in auto)

lemma root_grown:
  assumes ad: "addable fs ci blk" and s: "s < 15" "s = fslot (epb fs) (unat (ci_data_block_count ci))" "fdep s = Suc d"
    and rr: "root_ready fs ci s d blk c fs1 new"
    and gr: "grown fs1 d c (unat (ci_data_block_count ci) - fbase (epb fs) s) blk fs2 new'"
    and k: "k = of_nat (Suc (card new + card new'))"
  shows "\<exists>ci'. block_added k (put_root s c ci) fs2 = Some (True, ci', fs2) \<and> added fs ci blk fs2 ci' (new \<union> new')"
proof -
  let ?e = "epb fs" and ?t = "tree_set (epb fs) (ptrs fs) (Suc d) (inode_block (ci_inode ci) s)"
  have R: "fs_step {} new fs fs1" "insert c (kids fs1 d c) = new \<union> ?t"
    "\<And>x. x < ?e ^ Suc d \<Longrightarrow> leaf ?e (ptrs fs1) (Suc d) c x = leaf ?e (ptrs fs) (Suc d) (inode_block (ci_inode ci) s) x"
    using rr by (auto simp: root_ready_def)
  have G: "fs_step (insert c (kids fs1 d c)) new' fs1 fs2" "tree_ok ?e (ptrs fs2) (Suc d) c (Suc (unat (ci_data_block_count ci) - fbase ?e s))"
    "tree_set ?e (ptrs fs2) (Suc d) c = insert c (kids fs1 d c) \<union> {blk} \<union> new'"
    "\<And>q. q < ?e ^ Suc d \<Longrightarrow> leaf ?e (ptrs fs2) (Suc d) c q =
          (if q = unat (ci_data_block_count ci) - fbase ?e s then blk else leaf ?e (ptrs fs1) (Suc d) c q)"
    "\<And>q. q < ?e ^ Suc d \<Longrightarrow> leaf ?e (ptrs fs1) (Suc d) c q \<noteq> 0 \<Longrightarrow>
       fs_block fs2 (leaf ?e (ptrs fs1) (Suc d) c q) = fs_block fs1 (leaf ?e (ptrs fs1) (Suc d) c q)"
    using gr fs_stepD(6)[OF R(1)] by (auto simp: grown_def)
  have own: "owned fs ?t"
    by (rule owned_subset[OF addableD(8)[OF ad]]) (use s(1,3) in \<open>auto simp: file_blocks_def row_set_def\<close>)
  have d: "fs_block fs2 (leaf ?e (ptrs fs) (Suc d) (inode_block (ci_inode ci) s) q) = fs_block fs (leaf ?e (ptrs fs) (Suc d) (inode_block (ci_inode ci) s) q)"
    if q: "q < ?e ^ Suc d" "leaf ?e (ptrs fs) (Suc d) (inode_block (ci_inode ci) s) q \<noteq> 0" for q
  proof -
    let ?x = "leaf ?e (ptrs fs) (Suc d) (inode_block (ci_inode ci) s) q"
    have "?x \<in> ?t" by (rule leaf_in_tree[OF q])
    then have "?x \<notin> new" "data_block fs ?x"
      using own owned_not_free[OF own addableD(1)[OF ad]] fs_stepD(3)[OF R(1)] by (auto simp: owned_def file_block_def)
    then have "fs_block fs1 ?x = fs_block fs ?x" by (intro fs_stepD(11)[OF R(1)]) auto
    then show ?thesis using G(5)[OF q(1)] R(3)[OF q(1)] q(2) by simp
  qed
  have "fs_step ?t (new \<union> new') fs fs2"
    by (rule fs_step_mono[OF fs_step_trans[OF R(1) G(1)]]) (use R(2) in auto)
  then show ?thesis
    by (intro block_added_file[OF ad s(1,2)]) (use G R d k s(3) card_new[OF R(1) G(1)] in auto)
qed


lemma put_root_block: "length (ci_inode ci) = 128 \<Longrightarrow> s < 15 \<Longrightarrow> inode_block (ci_inode (put_root s c ci)) s = c"
  by (simp add: put_root_def inode_fields)

text \<open>How a tier ends: enough free blocks, or a panic.\<close>

definition add_outcome :: "ext2 \<Rightarrow> cached_inode \<Rightarrow> u32 \<Rightarrow> (bool \<times> cached_inode \<times> ext2) option \<Rightarrow> bool" where
  "add_outcome fs ci blk r \<longleftrightarrow> card (free_blocks fs) < 3 \<and> r = None
     \<or> (\<exists>ci' fs' new. r = Some (True, ci', fs') \<and> added fs ci blk fs' ci' new \<and> card new \<le> 3)"

lemma add_outcome_None: "fs_step W new fs fs' \<Longrightarrow> free_blocks fs' = {} \<Longrightarrow> card new \<le> 2 \<Longrightarrow> add_outcome fs ci blk None"
proof -
  assume a: "fs_step W new fs fs'" "free_blocks fs' = {}" "card new \<le> 2"
  then have "free_blocks fs = new" using fs_stepD(3,4)[OF a(1)] by auto
  then show ?thesis using a(3) by (simp add: add_outcome_def)
qed

lemma add_single_block_file:
  assumes ad: "addable fs ci blk" and n: "fslot (epb fs) (unat (ci_data_block_count ci)) = 12"
  shows "add_outcome fs ci blk (add_single_block (ci_data_block_count ci) blk ci fs)"
proof -
  let ?n = "unat (ci_data_block_count ci)" and ?e = "epb fs"
  note A = addableD[OF ad] and F = fslot_range[OF addableD(3)[OF ad], unfolded n]
  have b: "fbase ?e 12 = 12" "fdep 12 = Suc 0" by (auto simp: fbase_def fdep_def)
  have idx: "unat (ci_data_block_count ci - 12) = ?n - 12" "ci_data_block_count ci = 12 \<longleftrightarrow> ?n = fbase ?e 12"
    using F(2) b by (auto simp: unat_diff_u32 word_unat_eq_iff)
  have l: "(12 :: nat) < 15" by simp
  from tier_root_step[OF ad order_refl l n[symmetric] b(2) idx(2)] show ?thesis
  proof (elim disjE exE conjE)
    assume "free_blocks fs = {}" "tier_root 12 (ci_data_block_count ci = 12) ci fs = None"
    then show ?thesis by (simp add: add_single_block_def add_outcome_def)
  next
    fix c fs1 new assume r: "tier_root 12 (ci_data_block_count ci = 12) ci fs = Some (True, ptrs fs1 c, of_nat (card new), put_root 12 c ci, fs1)"
      "root_ready fs ci 12 0 blk c fs1 new" "card new \<le> 1"
    then have "open_tree fs1 0 c (?n - 12) blk" by (simp add: root_ready_def b)
    from leaf_slot_grown[OF this] obtain fs2 where w: "write_pointers c ((ptrs fs1 c)[?n - 12 := blk]) fs1 = Some fs2"
      "grown fs1 0 c (?n - 12) blk fs2 {}" by blast
    from root_grown[OF ad _ n[symmetric] b(2) r(2), of fs2 "{}" "1 + of_nat (card new)"] w(2) obtain ci' where
      "block_added (1 + of_nat (card new)) (put_root 12 c ci) fs2 = Some (True, ci', fs2)" "added fs ci blk fs2 ci' new"
      by (auto simp: b)
    then show ?thesis using r(1,3) w(1) idx(1) A(7)
      by (auto simp: add_single_block_def add_outcome_def put_root_block Let_def intro!: exI[of _ new])
  qed
qed


lemma add_double_block_file:
  assumes ad: "addable fs ci blk" and n: "fslot (epb fs) (unat (ci_data_block_count ci)) = 13"
  shows "add_outcome fs ci blk (add_double_block (ci_data_block_count ci) blk ci fs)"
proof -
  let ?n = "unat (ci_data_block_count ci)" and ?e = "epb fs" and ?w = "entries_per_block fs" and ?c = "ci_data_block_count ci"
  note A = addableD[OF ad] and F = fslot_range[OF addableD(3)[OF ad], unfolded n] and L = tier_limits[OF addableD(1)[OF ad]]
  define r where "r = ?n - (12 + ?e)"
  have b: "fbase ?e 13 = 12 + ?e" "fdep 13 = Suc 1" by (auto simp: fbase_def fdep_def)
  have e: "unat ?w = ?e" by (simp add: epb_def)
  have ix: "unat (?c - (12 + ?w)) = r" using F(2) b L(1) by (simp add: unat_diff_u32 r_def)
  have idx: "?c = 12 + ?w \<longleftrightarrow> ?n = fbase ?e 13" "unat ((?c - (12 + ?w)) div ?w) = r div ?e" "unat ((?c - (12 + ?w)) mod ?w) = r mod ?e"
    using b L(1) ix e by (auto simp: word_unat_eq_iff unat_div unat_mod)
  have z: "(?c - (12 + ?w)) mod ?w = 0 \<longleftrightarrow> r mod ?e = 0" using idx(3) by (metis unat_eq_zero)
  have l: "12 \<le> (13 :: nat)" "(13 :: nat) < 15" by simp_all
  from tier_root_step[OF ad l n[symmetric] b(2) idx(1)] show ?thesis
  proof (elim disjE exE conjE)
    assume "free_blocks fs = {}" "tier_root 13 (?c = 12 + ?w) ci fs = None"
    then show ?thesis by (simp add: add_double_block_def add_outcome_def Let_def)
  next
    fix c fs1 new assume t: "tier_root 13 (?c = 12 + ?w) ci fs = Some (True, ptrs fs1 c, of_nat (card new), put_root 13 c ci, fs1)"
      "root_ready fs ci 13 1 blk c fs1 new" "card new \<le> 1"
    then have o: "open_tree fs1 (Suc 0) c r blk" "fs_step {} new fs fs1" by (auto simp: root_ready_def b r_def)
    have e1: "epb fs1 = ?e" using fs_stepD(6)[OF o(2)] .
    have q: "unat ((?c - (12 + ?w)) div ?w) = r div epb fs1 ^ Suc 0" "(?c - (12 + ?w)) mod ?w = 0 \<longleftrightarrow> r mod epb fs1 ^ Suc 0 = 0"
      using idx(2) z by (simp_all add: e1)
    have pb: "inode_block (ci_inode (put_root 13 c ci)) 13 = c" using put_root_block[OF A(7)] by simp
    from tier_child_step[OF o(1) q] show ?thesis
    proof (elim disjE exE conjE)
      assume "free_blocks fs1 = {}" "tier_child ((?c - (12 + ?w)) mod ?w = 0) c (ptrs fs1 c) ((?c - (12 + ?w)) div ?w) fs1 = None"
      then show ?thesis using add_outcome_None[OF o(2)] t pb by (simp add: add_double_block_def Let_def)
    next
      fix c2 fs2 new2 assume d: "tier_child ((?c - (12 + ?w)) mod ?w = 0) c (ptrs fs1 c) ((?c - (12 + ?w)) div ?w) fs1 =
           Some (True, (ptrs fs1 c)[r div epb fs1 ^ Suc 0 := c2], ptrs fs2 c2, of_nat (card new2), fs2)"
         "descend fs1 0 c r blk c2 fs2 new2" "card new2 \<le> 1"
      then have "open_tree fs2 0 c2 (r mod ?e) blk" by (simp add: descend_def e1)
      from leaf_slot_grown[OF this] obtain fs3 where w: "write_pointers c2 ((ptrs fs2 c2)[r mod ?e := blk]) fs2 = Some fs3"
        "grown fs2 0 c2 (r mod ?e) blk fs3 {}" by blast
      have "grown fs1 1 c r blk fs3 new2" using grown_up[OF o(1) d(2), of fs3 "{}"] w(2) by (simp add: e1)
      then obtain ci' where ba: "block_added (1 + of_nat (card new) + of_nat (card new2)) (put_root 13 c ci) fs3 = Some (True, ci', fs3)"
        "added fs ci blk fs3 ci' (new \<union> new2)"
        using root_grown[OF ad l(2) n[symmetric] b(2) t(2), of fs3 new2 "1 + of_nat (card new) + of_nat (card new2)"]
        by (auto simp: b r_def)
      have "(ptrs fs1 c)[r div ?e := c2] ! (r div ?e) = c2" using open_treeD(12,13)[OF o(1)] by (simp add: e1)
      then have "add_double_block ?c blk ci fs = Some (True, ci', fs3)"
        using t(1) d(1) w(1) ba(1) pb idx(2,3) by (simp add: add_double_block_def Let_def e1)
      moreover have "card (new \<union> new2) \<le> 3" using card_Un_le[of new new2] t(3) d(3) by simp
      ultimately show ?thesis unfolding add_outcome_def using ba(2) by blast
    qed
  qed
qed


lemma mod_square: "(r :: nat) div e mod e = r mod (e * e) div e" "r mod (e * e) mod e = r mod e"
  by (cases "e = 0"; simp add: mod_mult2_eq)+

lemma add_triple_block_file:
  assumes ad: "addable fs ci blk" and n: "fslot (epb fs) (unat (ci_data_block_count ci)) = 14"
  shows "add_outcome fs ci blk (add_triple_block (ci_data_block_count ci) blk ci fs)"
proof -
  let ?n = "unat (ci_data_block_count ci)" and ?e = "epb fs" and ?w = "entries_per_block fs" and ?c = "ci_data_block_count ci"
  let ?t = "?c - (12 + ?w + ?w * ?w)"
  note A = addableD[OF ad] and F = fslot_range[OF addableD(3)[OF ad], unfolded n] and L = tier_limits[OF addableD(1)[OF ad]]
  define r where "r = ?n - (12 + ?e + ?e * ?e)"
  have b: "fbase ?e 14 = 12 + ?e + ?e * ?e" "fdep 14 = Suc 2" by (auto simp: fbase_def fdep_def)
  have e: "unat ?w = ?e" "?e ^ Suc 1 = ?e * ?e" by (simp_all add: epb_def)
  have ix: "unat ?t = r" using F(2) b L(3) by (simp add: unat_diff_u32 r_def)
  have idx: "?c = 12 + ?w + ?w * ?w \<longleftrightarrow> ?n = fbase ?e 14" "unat (?t div (?w * ?w)) = r div (?e * ?e)" "unat (?t mod ?w) = r mod ?e"
    "unat (?t div ?w mod ?w) = r mod (?e * ?e) div ?e" "unat (?t mod (?w * ?w)) = r mod (?e * ?e)"
    using b L(2,3) ix e by (auto simp: word_unat_eq_iff unat_div unat_mod mod_square)
  have z: "?t mod ?w = 0 \<longleftrightarrow> r mod ?e = 0" "?t mod (?w * ?w) = 0 \<longleftrightarrow> r mod (?e * ?e) = 0"
    using idx(3,5) by (metis unat_eq_zero)+
  have l: "12 \<le> (14 :: nat)" "(14 :: nat) < 15" by simp_all
  from tier_root_step[OF ad l n[symmetric] b(2) idx(1)] show ?thesis
  proof (elim disjE exE conjE)
    assume "free_blocks fs = {}" "tier_root 14 (?c = 12 + ?w + ?w * ?w) ci fs = None"
    then show ?thesis by (simp add: add_triple_block_def add_outcome_def Let_def)
  next
    fix c fs1 new assume t: "tier_root 14 (?c = 12 + ?w + ?w * ?w) ci fs = Some (True, ptrs fs1 c, of_nat (card new), put_root 14 c ci, fs1)"
      "root_ready fs ci 14 2 blk c fs1 new" "card new \<le> 1"
    then have o: "open_tree fs1 (Suc 1) c r blk" "fs_step {} new fs fs1" by (auto simp: root_ready_def b r_def numeral_2_eq_2)
    have e1: "epb fs1 = ?e" using fs_stepD(6)[OF o(2)] .
    have q: "unat (?t div (?w * ?w)) = r div epb fs1 ^ Suc 1" "?t mod (?w * ?w) = 0 \<longleftrightarrow> r mod epb fs1 ^ Suc 1 = 0"
      using idx(2) z by (simp_all add: e1)
    have pb: "inode_block (ci_inode (put_root 14 c ci)) 14 = c" using put_root_block[OF A(7)] by simp
    from tier_child_step[OF o(1) q] show ?thesis
    proof (elim disjE exE conjE)
      assume "free_blocks fs1 = {}" "tier_child (?t mod (?w * ?w) = 0) c (ptrs fs1 c) (?t div (?w * ?w)) fs1 = None"
      then show ?thesis using add_outcome_None[OF o(2)] t pb by (simp add: add_triple_block_def Let_def)
    next
      fix c2 fs2 new2 assume d: "tier_child (?t mod (?w * ?w) = 0) c (ptrs fs1 c) (?t div (?w * ?w)) fs1 =
           Some (True, (ptrs fs1 c)[r div epb fs1 ^ Suc 1 := c2], ptrs fs2 c2, of_nat (card new2), fs2)"
         "descend fs1 1 c r blk c2 fs2 new2" "card new2 \<le> 1"
      then have o2: "open_tree fs2 (Suc 0) c2 (r mod (?e * ?e)) blk" "fs_step {c} new2 fs1 fs2" by (auto simp: descend_def e1)
      have st2: "fs_step ({} \<union> {c}) (new \<union> new2) fs fs2" by (rule fs_step_trans[OF o(2) o2(2)])
      have e2: "epb fs2 = ?e" using fs_stepD(6)[OF st2] .
      have q2: "unat (?t div ?w mod ?w) = r mod (?e * ?e) div epb fs2 ^ Suc 0" "?t mod ?w = 0 \<longleftrightarrow> r mod (?e * ?e) mod epb fs2 ^ Suc 0 = 0"
        using idx(4) z by (simp_all add: e2 mod_square)
      have pk: "(ptrs fs1 c)[r div epb fs1 ^ Suc 1 := c2] ! unat (?t div (?w * ?w)) = c2"
        using open_treeD(12,13)[OF o(1)] idx(2) by (simp add: e1)
      have run2: "add_triple_block ?c blk ci fs = do {
           (ok, double_indirect, single_indirect, fresh'', fs) \<leftarrow> tier_child (?t mod ?w = 0) c2 (ptrs fs2 c2) (?t div ?w mod ?w) fs2;
           if \<not> ok then Some (False, put_root 14 c ci, fs)
           else do {
             fs \<leftarrow> write_pointers (double_indirect ! unat (?t div ?w mod ?w)) (single_indirect[unat (?t mod ?w) := blk]) fs;
             block_added (1 + of_nat (card new) + of_nat (card new2) + fresh'') (put_root 14 c ci) fs
           } }"
        by (simp only: add_triple_block_def Let_def t(1) d(1) pb pk bind.bind_lunit prod.case not_True_eq_False if_False)
      have cn: "card (new \<union> new2) \<le> 2" using card_Un_le[of new new2] t(3) d(3) by simp
      from tier_child_step[OF o2(1) q2] show ?thesis
      proof (elim disjE exE conjE)
        assume "free_blocks fs2 = {}" "tier_child (?t mod ?w = 0) c2 (ptrs fs2 c2) (?t div ?w mod ?w) fs2 = None"
        then show ?thesis using add_outcome_None[OF st2] cn run2 by simp
      next
        fix c3 fs3 new3 assume f: "tier_child (?t mod ?w = 0) c2 (ptrs fs2 c2) (?t div ?w mod ?w) fs2 =
             Some (True, (ptrs fs2 c2)[r mod (?e * ?e) div epb fs2 ^ Suc 0 := c3], ptrs fs3 c3, of_nat (card new3), fs3)"
           "descend fs2 0 c2 (r mod (?e * ?e)) blk c3 fs3 new3" "card new3 \<le> 1"
        then have "open_tree fs3 0 c3 (r mod ?e) blk" by (simp add: descend_def e2 mod_square)
        from leaf_slot_grown[OF this] obtain fs4 where w: "write_pointers c3 ((ptrs fs3 c3)[r mod ?e := blk]) fs3 = Some fs4"
          "grown fs3 0 c3 (r mod ?e) blk fs4 {}" by blast
        have "grown fs2 1 c2 (r mod (?e * ?e)) blk fs4 new3"
          using grown_up[OF o2(1) f(2), of fs4 "{}"] w(2) by (simp add: e2 mod_square)
        then have "grown fs1 2 c r blk fs4 (new2 \<union> new3)" using grown_up[OF o(1) d(2), of fs4 new3] by (simp add: e1 numeral_2_eq_2)
        moreover have "fs_step {c2} new3 fs2 fs3" using f(2) by (simp add: descend_def)
        from card_new[OF o2(2) this] have "card (new2 \<union> new3) = card new2 + card new3" .
        ultimately obtain ci' where
          ba: "block_added (1 + of_nat (card new) + of_nat (card new2) + of_nat (card new3)) (put_root 14 c ci) fs4 = Some (True, ci', fs4)"
            "added fs ci blk fs4 ci' (new \<union> (new2 \<union> new3))"
          using root_grown[OF ad l(2) n[symmetric] b(2) t(2), of fs4 "new2 \<union> new3"
              "1 + of_nat (card new) + of_nat (card new2) + of_nat (card new3)"] by (auto simp: b r_def add.assoc)
        have "(ptrs fs2 c2)[r mod (?e * ?e) div ?e := c3] ! (r mod (?e * ?e) div ?e) = c3"
          using open_treeD(12,13)[OF o2(1)] by (simp add: e2)
        then have "add_triple_block ?c blk ci fs = Some (True, ci', fs4)"
          unfolding run2 using f(1) w(1) ba(1) idx(3,4) by (simp add: e2)
        moreover have "card (new \<union> (new2 \<union> new3)) \<le> 3" using card_Un_le[of "new \<union> new2" new3] cn f(3) by (simp add: Un_assoc)
        ultimately show ?thesis unfolding add_outcome_def using ba(2) by blast
      qed
    qed
  qed
qed

lemma node_add_block_file:
  assumes ad: "addable fs ci blk"
  shows "add_outcome fs ci blk (node_add_block blk ci fs)"
proof -
  let ?n = "unat (ci_data_block_count ci)" and ?e = "epb fs"
  note A = addableD[OF ad] and L = tier_limits[OF addableD(1)[OF ad]]
  consider "?n < 12" | "12 \<le> ?n" "?n < 12 + ?e" | "12 + ?e \<le> ?n" "?n < 12 + ?e + ?e * ?e" | "12 + ?e + ?e * ?e \<le> ?n"
    by linarith
  then show ?thesis
  proof cases
    case 1
    then show ?thesis using add_direct_block_file[OF ad 1]
      by (force simp: node_add_block_def Let_def word_less_nat_alt add_outcome_def)
  next
    case 2
    then show ?thesis using add_single_block_file[OF ad] by (simp add: fslot_def node_add_block_def Let_def word_less_nat_alt L)
  next
    case 3
    then show ?thesis using add_double_block_file[OF ad] by (simp add: fslot_def node_add_block_def Let_def word_less_nat_alt L)
  next
    case 4
    then show ?thesis using add_triple_block_file[OF ad] A(3) by (simp add: fslot_def node_add_block_def Let_def word_less_nat_alt L)
  qed
qed


section \<open>Reading and writing a block of a file\<close>

text \<open>The walk down a tree that the four tiers unroll.\<close>

primrec read_tree :: "nat \<Rightarrow> nat \<Rightarrow> u32 \<Rightarrow> nat \<Rightarrow> ext2 \<Rightarrow> (bytes \<times> ext2) option" where
  "read_tree e 0 b r = read_sectors_or_zero b"
| "read_tree e (Suc d) b r = (\<lambda>fs.
      if b = 0 then zero_block fs
      else do { (ps, fs') \<leftarrow> read_pointers b fs; read_tree e d (ps ! (r div e ^ d)) (r mod e ^ d) fs' })"

primrec write_tree :: "nat \<Rightarrow> nat \<Rightarrow> u32 \<Rightarrow> nat \<Rightarrow> bytes \<Rightarrow> u32 \<Rightarrow> u32 \<Rightarrow> ext2 \<Rightarrow> ext2 option" where
  "write_tree e 0 b r src offset sz = (\<lambda>fs. do { kassert (b \<noteq> 0); write_sectors b src offset sz fs })"
| "write_tree e (Suc d) b r src offset sz = (\<lambda>fs. do {
     kassert (b \<noteq> 0);
     (ps, fs') \<leftarrow> read_pointers b fs;
     write_tree e d (ps ! (r div e ^ d)) (r mod e ^ d) src offset sz fs'
   })"

definition block_or_zero :: "ext2 \<Rightarrow> u32 \<Rightarrow> bytes" where
  "block_or_zero fs b = (if b = 0 then replicate (unat (ext2_get_block_size fs)) 0 else fs_block fs b)"

lemma block_or_zero_step: "fs_step {} {} fs fs' \<Longrightarrow> b = 0 \<or> data_block fs b \<Longrightarrow> block_or_zero fs' b = block_or_zero fs b"
  using fs_stepD(9,11)[of "{}" "{}" fs fs'] by (auto simp: block_or_zero_def)

lemma leaf_owned: "owned fs (tree_set e m d b) \<Longrightarrow> r < e ^ d \<Longrightarrow> leaf e m d b r = 0 \<or> file_block fs (leaf e m d b r)"
  using leaf_in_tree[of r e d m b] by (auto simp: owned_def)

lemma tree_down:
  assumes "b \<noteq> 0" "r < epb fs ^ Suc d" "owned fs (tree_set (epb fs) (ptrs fs) (Suc d) b)" "fs_good fs"
  shows "r div epb fs ^ d < epb fs" "r mod epb fs ^ d < epb fs ^ d" "file_block fs b"
    "owned fs (tree_set (epb fs) (ptrs fs) d (ptrs fs b ! (r div epb fs ^ d)))"
proof -
  show k: "r div epb fs ^ d < epb fs" "r mod epb fs ^ d < epb fs ^ d"
    using assms(2) good_sizes(2)[OF assms(4)] by (auto simp: less_mult_imp_div_less)
  show "file_block fs b" "owned fs (tree_set (epb fs) (ptrs fs) d (ptrs fs b ! (r div epb fs ^ d)))"
    using assms(1,3) k(1) by (auto simp: tree_set.simps owned_def)
qed

lemma read_tree_step:
  "fs_good fs \<Longrightarrow> owned fs (tree_set (epb fs) (ptrs fs) d b) \<Longrightarrow> r < epb fs ^ d \<Longrightarrow>
   \<exists>fs'. read_tree (epb fs) d b r fs = Some (block_or_zero fs (leaf (epb fs) (ptrs fs) d b r), fs') \<and> fs_step {} {} fs fs'"
proof (induction d arbitrary: b r fs)
  case 0
  then show ?case using fs_bcache_get_step[of fs b] fs_step_refl[of fs]
    by (auto simp: read_sectors_or_zero_def block_or_zero_def read_sectors_def)
next
  case (Suc d)
  show ?case
  proof (cases "b = 0")
    case True
    then show ?thesis using fs_step_refl[OF Suc.prems(1)] by (simp add: zero_block_def block_or_zero_def)
  next
    case False
    let ?c = "ptrs fs b ! (r div epb fs ^ d)" and ?q = "r mod epb fs ^ d"
    note D = tree_down[OF False Suc.prems(3,2,1)]
    from read_pointers_step[OF Suc.prems(1) D(3)] obtain fs1 where f: "read_pointers b fs = Some (ptrs fs b, fs1)" "fs_step {} {} fs fs1" by blast
    note S = fs_stepD[OF f(2)]
    note T = tree_same_step[OF Suc.prems(1) f(2) D(4)]
    have "owned fs1 (tree_set (epb fs1) (ptrs fs1) d ?c)" using owned_step[OF D(4) Suc.prems(1) f(2)] T(1) by (simp add: S)
    from Suc.IH[OF S(1) this, of ?q] D(2) obtain fs2 where g: "read_tree (epb fs) d ?c ?q fs1 = Some (block_or_zero fs1 (leaf (epb fs) (ptrs fs1) d ?c ?q), fs2)"
      "fs_step {} {} fs1 fs2" by (auto simp: S)
    have l: "leaf (epb fs) (ptrs fs1) d ?c ?q = leaf (epb fs) (ptrs fs) (Suc d) b r" using T(2)[OF _ D(2)] False by (simp add: leaf.simps)
    moreover have "block_or_zero fs1 (leaf (epb fs) (ptrs fs) (Suc d) b r) = block_or_zero fs (leaf (epb fs) (ptrs fs) (Suc d) b r)"
      by (rule block_or_zero_step[OF f(2)]) (use leaf_owned[OF Suc.prems(2,3)] in \<open>auto simp: file_block_def\<close>)
    ultimately show ?thesis using f(1) g(1) False fs_step_trans[OF f(2) g(2)] by auto
  qed
qed

lemma write_tree_step:
  "fs_good fs \<Longrightarrow> owned fs (tree_set (epb fs) (ptrs fs) d b) \<Longrightarrow> r < epb fs ^ d \<Longrightarrow>
   leaf (epb fs) (ptrs fs) d b r \<noteq> 0 \<Longrightarrow> unat offset + unat sz \<le> unat (ext2_get_block_size fs) \<Longrightarrow> unat sz \<le> length src \<Longrightarrow>
   \<exists>fs'. write_tree (epb fs) d b r src offset sz fs = Some fs' \<and> fs_step {leaf (epb fs) (ptrs fs) d b r} {} fs fs'
     \<and> fs_block fs' (leaf (epb fs) (ptrs fs) d b r) = patch (unat offset) (take (unat sz) src) (fs_block fs (leaf (epb fs) (ptrs fs) d b r))"
proof (induction d arbitrary: b r fs)
  case 0
  then show ?case using fs_bcache_set_step[of fs b offset sz src] by (auto simp: write_sectors_def)
next
  case (Suc d)
  let ?c = "ptrs fs b ! (r div epb fs ^ d)" and ?q = "r mod epb fs ^ d" and ?l = "leaf (epb fs) (ptrs fs) (Suc d) b r"
  have b: "b \<noteq> 0" using Suc.prems(4) by auto
  note D = tree_down[OF b Suc.prems(3,2,1)]
  from read_pointers_step[OF Suc.prems(1) D(3)] obtain fs1 where f: "read_pointers b fs = Some (ptrs fs b, fs1)" "fs_step {} {} fs fs1" by blast
  note S = fs_stepD[OF f(2)]
  note T = tree_same_step[OF Suc.prems(1) f(2) D(4)]
  have l: "leaf (epb fs1) (ptrs fs1) d ?c ?q = ?l" using T(2)[OF _ D(2)] b by (simp add: leaf.simps S)
  have "owned fs1 (tree_set (epb fs1) (ptrs fs1) d ?c)" using owned_step[OF D(4) Suc.prems(1) f(2)] T(1) by (simp add: S)
  from Suc.IH[OF S(1) this, of ?q, unfolded l] D(2) Suc.prems(4,5,6) obtain fs2 where g: "write_tree (epb fs) d ?c ?q src offset sz fs1 = Some fs2"
    "fs_step {?l} {} fs1 fs2" "fs_block fs2 ?l = patch (unat offset) (take (unat sz) src) (fs_block fs1 ?l)" by (auto simp: S)
  have "fs_block fs1 ?l = fs_block fs ?l"
    using S(11)[of ?l] leaf_owned[OF Suc.prems(2,3)] Suc.prems(4) by (auto simp: file_block_def)
  then show ?case using f(1) g b fs_step_trans[OF f(2) g(2)] by auto
qed

text \<open>The four tiers are these walks.\<close>

lemma file_slot_owned: "file_inv fs ci \<Longrightarrow> s < 15 \<Longrightarrow> owned fs (tree_set (epb fs) (ptrs fs) (fdep s) (inode_block (ci_inode ci) s))"
  by (rule owned_subset[of _ "file_blocks fs ci"]) (auto simp: file_inv_def file_blocks_def row_set_def)

lemma tier_limits':
  assumes "fs_good fs"
  shows "unat (12 + entries_per_block fs * (1 + entries_per_block fs)) = 12 + epb fs + epb fs * epb fs"
    "unat (12 + entries_per_block fs * (1 + entries_per_block fs * (1 + entries_per_block fs))) = fmax (epb fs)"
proof -
  have "12 + entries_per_block fs * (1 + entries_per_block fs) = 12 + entries_per_block fs + entries_per_block fs * entries_per_block fs"
    "12 + entries_per_block fs * (1 + entries_per_block fs * (1 + entries_per_block fs)) =
      12 + entries_per_block fs + entries_per_block fs * entries_per_block fs + entries_per_block fs * entries_per_block fs * entries_per_block fs"
    by (simp_all add: algebra_simps)
  then show "unat (12 + entries_per_block fs * (1 + entries_per_block fs)) = 12 + epb fs + epb fs * epb fs"
    "unat (12 + entries_per_block fs * (1 + entries_per_block fs * (1 + entries_per_block fs))) = fmax (epb fs)"
    by (simp_all only: tier_limits(3,5)[OF assms])
qed

text \<open>The residues of an index within its tier.\<close>

lemma tier_index:
  assumes g: "fs_good fs"
  shows "12 \<le> unat j \<Longrightarrow> unat (j - 12) = unat j - fbase (epb fs) 12"
    "12 + epb fs \<le> unat j \<Longrightarrow> unat (j - (12 + entries_per_block fs)) = unat j - fbase (epb fs) 13"
    "12 + epb fs + epb fs * epb fs \<le> unat j \<Longrightarrow>
      unat (j - (12 + entries_per_block fs * (1 + entries_per_block fs))) = unat j - fbase (epb fs) 14"
  using tier_limits(1)[OF g] tier_limits'(1)[OF g] by (simp_all add: unat_diff_u32 fbase_def)

lemma tier_residues:
  assumes g: "fs_good fs" and r: "unat r = n"
  shows "unat (r div entries_per_block fs) = n div epb fs" "unat (r mod entries_per_block fs) = n mod epb fs"
    "unat (r div (entries_per_block fs * entries_per_block fs)) = n div (epb fs * epb fs)"
    "unat (r div entries_per_block fs mod entries_per_block fs) = n mod (epb fs * epb fs) div epb fs"
  using tier_limits(2)[OF g] r by (simp_all add: unat_div unat_mod epb_def[symmetric] mod_square)

lemma tree_levels:
  "read_tree e 1 b r = (\<lambda>fs. if b = 0 then zero_block fs else do { (ps, fs) \<leftarrow> read_pointers b fs; read_sectors_or_zero (ps ! r) fs })"
  "read_tree e 2 b r = (\<lambda>fs. if b = 0 then zero_block fs else do { (ps, fs) \<leftarrow> read_pointers b fs; read_tree e 1 (ps ! (r div e)) (r mod e) fs })"
  "read_tree e 3 b r = (\<lambda>fs. if b = 0 then zero_block fs
     else do { (ps, fs) \<leftarrow> read_pointers b fs; read_tree e 2 (ps ! (r div (e * e))) (r mod (e * e)) fs })"
  "write_tree e 1 b r src offset sz = (\<lambda>fs.
     do { kassert (b \<noteq> 0); (ps, fs) \<leftarrow> read_pointers b fs; kassert (ps ! r \<noteq> 0); write_sectors (ps ! r) src offset sz fs })"
  "write_tree e 2 b r src offset sz = (\<lambda>fs.
     do { kassert (b \<noteq> 0); (ps, fs) \<leftarrow> read_pointers b fs; write_tree e 1 (ps ! (r div e)) (r mod e) src offset sz fs })"
  "write_tree e 3 b r src offset sz = (\<lambda>fs.
     do { kassert (b \<noteq> 0); (ps, fs) \<leftarrow> read_pointers b fs; write_tree e 2 (ps ! (r div (e * e))) (r mod (e * e)) src offset sz fs })"
  by (simp_all add: numeral_2_eq_2 numeral_3_eq_3 fun_eq_iff cong: if_cong)

lemma read_tiers:
  assumes g: "fs_good fs"
  shows "unat j < 12 \<Longrightarrow> read_direct_block ci j fs = read_tree (epb fs) 0 (inode_block (ci_inode ci) (unat j)) 0 fs"
    "12 \<le> unat j \<Longrightarrow> unat j < 12 + epb fs \<Longrightarrow>
      read_indirect_block ci j fs = read_tree (epb fs) 1 (inode_block (ci_inode ci) 12) (unat j - fbase (epb fs) 12) fs"
    "12 + epb fs \<le> unat j \<Longrightarrow> unat j < 12 + epb fs + epb fs * epb fs \<Longrightarrow>
      read_double_indirect_block ci j fs = read_tree (epb fs) 2 (inode_block (ci_inode ci) 13) (unat j - fbase (epb fs) 13) fs"
    "12 + epb fs + epb fs * epb fs \<le> unat j \<Longrightarrow> unat j < fmax (epb fs) \<Longrightarrow>
      read_triple_indirect_block ci j fs = read_tree (epb fs) 3 (inode_block (ci_inode ci) 14) (unat j - fbase (epb fs) 14) fs"
proof -
  note L = tier_limits(1)[OF g] tier_limits'[OF g] and X = tier_index[OF g, of j]
  show "unat j < 12 \<Longrightarrow> read_direct_block ci j fs = read_tree (epb fs) 0 (inode_block (ci_inode ci) (unat j)) 0 fs"
    by (simp add: read_direct_block_def word_less_nat_alt)
  show "12 \<le> unat j \<Longrightarrow> unat j < 12 + epb fs \<Longrightarrow>
      read_indirect_block ci j fs = read_tree (epb fs) 1 (inode_block (ci_inode ci) 12) (unat j - fbase (epb fs) 12) fs"
    unfolding tree_levels by (simp add: read_indirect_block_def word_less_nat_alt word_le_nat_alt Let_def L X)
  show "12 + epb fs \<le> unat j \<Longrightarrow> unat j < 12 + epb fs + epb fs * epb fs \<Longrightarrow>
      read_double_indirect_block ci j fs = read_tree (epb fs) 2 (inode_block (ci_inode ci) 13) (unat j - fbase (epb fs) 13) fs"
    unfolding tree_levels
    by (simp add: read_double_indirect_block_def word_less_nat_alt word_le_nat_alt Let_def L tier_residues[OF g X(2)] cong: if_cong)
  show "12 + epb fs + epb fs * epb fs \<le> unat j \<Longrightarrow> unat j < fmax (epb fs) \<Longrightarrow>
      read_triple_indirect_block ci j fs = read_tree (epb fs) 3 (inode_block (ci_inode ci) 14) (unat j - fbase (epb fs) 14) fs"
    unfolding tree_levels
    by (simp add: read_triple_indirect_block_def word_less_nat_alt word_le_nat_alt Let_def L tier_residues[OF g X(3)] mod_square cong: if_cong)
qed

lemma write_tiers:
  assumes g: "fs_good fs"
  shows "unat j < 12 \<Longrightarrow> write_direct_block ci j src o' sz fs = write_tree (epb fs) 0 (inode_block (ci_inode ci) (unat j)) 0 src o' sz fs"
    "12 \<le> unat j \<Longrightarrow> unat j < 12 + epb fs \<Longrightarrow>
      write_indirect_block ci j src o' sz fs = write_tree (epb fs) 1 (inode_block (ci_inode ci) 12) (unat j - fbase (epb fs) 12) src o' sz fs"
    "12 + epb fs \<le> unat j \<Longrightarrow> unat j < 12 + epb fs + epb fs * epb fs \<Longrightarrow>
      write_double_indirect_block ci j src o' sz fs =
        write_tree (epb fs) 2 (inode_block (ci_inode ci) 13) (unat j - fbase (epb fs) 13) src o' sz fs"
    "12 + epb fs + epb fs * epb fs \<le> unat j \<Longrightarrow> unat j < fmax (epb fs) \<Longrightarrow>
      write_triple_indirect_block ci j src o' sz fs =
        write_tree (epb fs) 3 (inode_block (ci_inode ci) 14) (unat j - fbase (epb fs) 14) src o' sz fs"
proof -
  note L = tier_limits(1)[OF g] tier_limits'[OF g] and X = tier_index[OF g, of j]
  show "unat j < 12 \<Longrightarrow> write_direct_block ci j src o' sz fs = write_tree (epb fs) 0 (inode_block (ci_inode ci) (unat j)) 0 src o' sz fs"
    by (simp add: write_direct_block_def word_less_nat_alt)
  show "12 \<le> unat j \<Longrightarrow> unat j < 12 + epb fs \<Longrightarrow>
      write_indirect_block ci j src o' sz fs = write_tree (epb fs) 1 (inode_block (ci_inode ci) 12) (unat j - fbase (epb fs) 12) src o' sz fs"
    unfolding tree_levels by (simp add: write_indirect_block_def word_less_nat_alt word_le_nat_alt Let_def L X)
  show "12 + epb fs \<le> unat j \<Longrightarrow> unat j < 12 + epb fs + epb fs * epb fs \<Longrightarrow>
      write_double_indirect_block ci j src o' sz fs =
        write_tree (epb fs) 2 (inode_block (ci_inode ci) 13) (unat j - fbase (epb fs) 13) src o' sz fs"
    unfolding tree_levels
    by (simp add: write_double_indirect_block_def word_less_nat_alt word_le_nat_alt Let_def L tier_residues[OF g X(2)] cong: if_cong)
  show "12 + epb fs + epb fs * epb fs \<le> unat j \<Longrightarrow> unat j < fmax (epb fs) \<Longrightarrow>
      write_triple_indirect_block ci j src o' sz fs =
        write_tree (epb fs) 3 (inode_block (ci_inode ci) 14) (unat j - fbase (epb fs) 14) src o' sz fs"
    unfolding tree_levels
    by (simp add: write_triple_indirect_block_def word_less_nat_alt word_le_nat_alt Let_def L tier_residues[OF g X(3)] mod_square cong: if_cong)
qed


text \<open>Block \<open>j\<close> of a file; a hole reads as zeros.\<close>

definition file_data :: "ext2 \<Rightarrow> cached_inode \<Rightarrow> nat \<Rightarrow> bytes" where
  "file_data fs ci j = block_or_zero fs (file_ptr fs ci j)"

lemma index_tiers:
  assumes "j < fmax e"
  obtains (direct) "j < 12" "fslot e j = j" "fdep (fslot e j) = 0" "fbase e (fslot e j) = j"
    | (single) "12 \<le> j" "j < 12 + e" "fslot e j = 12" "fdep (fslot e j) = 1"
    | (double) "12 + e \<le> j" "j < 12 + e + e * e" "fslot e j = 13" "fdep (fslot e j) = 2"
    | (triple) "12 + e + e * e \<le> j" "fslot e j = 14" "fdep (fslot e j) = 3"
proof -
  consider "j < 12" | "12 \<le> j" "j < 12 + e" | "12 + e \<le> j" "j < 12 + e + e * e" | "12 + e + e * e \<le> j" by linarith
  then show thesis
  proof cases
    case 1 then show ?thesis by (intro direct) (auto simp: fslot_def fdep_def fbase_def)
  next
    case 2 then show ?thesis by (intro single) (auto simp: fslot_def fdep_def fbase_def)
  next
    case 3 then show ?thesis by (intro double) (auto simp: fslot_def fdep_def fbase_def)
  next
    case 4 then show ?thesis by (intro triple) (auto simp: fslot_def fdep_def fbase_def)
  qed
qed

lemma node_read_block_step:
  assumes g: "fs_good fs" and f: "file_inv fs ci" and j: "unat j < fmax (epb fs)" and l: "ci_lock ci"
  shows "\<exists>fs'. node_read_block_locked ci j fs = Some (file_data fs ci (unat j), fs') \<and> fs_step {} {} fs fs'"
proof -
  let ?s = "fslot (epb fs) (unat j)"
  note F = fslot_range[OF j] and L = tier_limits(1)[OF g] tier_limits'[OF g]
  have r: "unat j - fbase (epb fs) ?s < epb fs ^ fdep ?s" using F by linarith
  have "node_read_block_locked ci j fs = read_tree (epb fs) (fdep ?s) (inode_block (ci_inode ci) ?s) (unat j - fbase (epb fs) ?s) fs"
    using j
  proof (cases rule: index_tiers)
    case direct
    then show ?thesis using l read_tiers(1)[OF g, of j] by (simp add: node_read_block_locked_def word_less_nat_alt Let_def)
  next
    case single
    then show ?thesis using l read_tiers(2)[OF g, of j] by (simp add: node_read_block_locked_def word_less_nat_alt Let_def L)
  next
    case double
    then show ?thesis using l read_tiers(3)[OF g, of j] by (simp add: node_read_block_locked_def word_less_nat_alt Let_def L)
  next
    case triple
    then show ?thesis using l read_tiers(4)[OF g, of j] j by (simp add: node_read_block_locked_def word_less_nat_alt Let_def L)
  qed
  then show ?thesis using read_tree_step[OF g file_slot_owned[OF f F(1)] r] by (simp add: file_data_def file_ptr_def)
qed

lemma node_write_block_step:
  assumes g: "fs_good fs" and f: "file_inv fs ci" and j: "unat j < fmax (epb fs)" and l: "ci_lock ci"
    and p: "file_ptr fs ci (unat j) \<noteq> 0" and sz: "unat offset + unat sz \<le> unat (ext2_get_block_size fs)" "unat sz \<le> length src"
  shows "\<exists>fs'. node_write_block_locked ci j src offset sz fs = Some fs' \<and> fs_step {file_ptr fs ci (unat j)} {} fs fs'
    \<and> fs_block fs' (file_ptr fs ci (unat j)) = patch (unat offset) (take (unat sz) src) (fs_block fs (file_ptr fs ci (unat j)))"
proof -
  let ?s = "fslot (epb fs) (unat j)"
  note F = fslot_range[OF j] and L = tier_limits(1)[OF g] tier_limits'[OF g]
  have r: "unat j - fbase (epb fs) ?s < epb fs ^ fdep ?s" using F by linarith
  have "node_write_block_locked ci j src offset sz fs =
      write_tree (epb fs) (fdep ?s) (inode_block (ci_inode ci) ?s) (unat j - fbase (epb fs) ?s) src offset sz fs"
    using j
  proof (cases rule: index_tiers)
    case direct
    then show ?thesis using l write_tiers(1)[OF g, of j] by (simp add: node_write_block_locked_def word_less_nat_alt Let_def)
  next
    case single
    then show ?thesis using l write_tiers(2)[OF g, of j] by (simp add: node_write_block_locked_def word_less_nat_alt Let_def L)
  next
    case double
    then show ?thesis using l write_tiers(3)[OF g, of j] by (simp add: node_write_block_locked_def word_less_nat_alt Let_def L)
  next
    case triple
    then show ?thesis using l write_tiers(4)[OF g, of j] j by (simp add: node_write_block_locked_def word_less_nat_alt Let_def L)
  qed
  then show ?thesis using write_tree_step[OF g file_slot_owned[OF f F(1)] r _ sz] p by (simp add: file_ptr_def)
qed

end
