(* ===== verification/Ext2_File.thy ===== *)
theory Ext2_File
  imports Ext2_Map
begin

text \<open>
  Files of \<open>kernel/ext.c\<close> as arrays of bytes: the write-back of the inode, reading and writing any
  range, growing, shrinking and deleting.
\<close>

section \<open>Byte ranges of a file\<close>

text \<open>The part of block \<open>i\<close> that the bytes \<open>offset .. offset + size - 1\<close> cover.\<close>

definition part_offset :: "u32 \<Rightarrow> u32 \<Rightarrow> u32 \<Rightarrow> u32" where
  "part_offset block_size offset i = (if i = offset div block_size then offset mod block_size else 0)"

definition part_size :: "u32 \<Rightarrow> u32 \<Rightarrow> u32 \<Rightarrow> u32 \<Rightarrow> u32" where
  "part_size block_size offset sz i =
     (if i = (offset + sz - 1) div block_size
      then (offset + sz - 1) mod block_size - part_offset block_size offset i + 1
      else block_size - part_offset block_size offset i)"

text \<open>The indices of a loop \<open>for (i = start; i <= end; ++i)\<close>.\<close>

definition block_range :: "u32 \<Rightarrow> u32 \<Rightarrow> u32 list" where
  "block_range start_block end_block = map of_nat [unat start_block..<Suc (unat end_block)]"

primrec read_parts :: "cached_inode \<Rightarrow> u32 \<Rightarrow> u32 \<Rightarrow> u32 list \<Rightarrow> u32 \<Rightarrow> bytes \<Rightarrow> ext2 \<Rightarrow> (u32 \<times> bytes \<times> ext2) option" where
  "read_parts ci offset sz [] bytes_copied dest = (\<lambda>fs. Some (bytes_copied, dest, fs))"
| "read_parts ci offset sz (i # is) bytes_copied dest = (\<lambda>fs. do {
     let bs = ext2_get_block_size fs;
     (block_buf, fs) \<leftarrow> node_read_block_locked ci i fs;
     let copy_size = part_size bs offset sz i;
     let dest = patch (unat bytes_copied) (chunk (unat (part_offset bs offset i)) (unat copy_size) block_buf) dest;
     read_parts ci offset sz is (bytes_copied + copy_size) dest fs
   })"

definition node_read_all_locked :: "cached_inode \<Rightarrow> u32 \<Rightarrow> u32 \<Rightarrow> bytes \<Rightarrow> ext2 \<Rightarrow> (u32 \<times> bytes \<times> ext2) option" where
  "node_read_all_locked ci offset sz dest fs = do {
     kassert (ci_lock ci);
     if sz = 0 then Some (0, dest, fs)
     else if offset \<ge> inode_size (ci_inode ci) then Some (0, dest, fs)
     else do {
       let available = inode_size (ci_inode ci) - offset;
       let sz = (if sz > available then available else sz);
       let bs = ext2_get_block_size fs;
       read_parts ci offset sz (block_range (offset div bs) ((offset + sz - 1) div bs)) 0 dest fs
     }
   }"

definition node_read_all :: "cached_inode \<Rightarrow> u32 \<Rightarrow> u32 \<Rightarrow> bytes \<Rightarrow> ext2 \<Rightarrow> (u32 \<times> bytes \<times> cached_inode \<times> ext2) option" where
  "node_read_all ci offset sz dest fs = do {
     ci \<leftarrow> ci_lock_acquire ci;
     (cnt, dest, fs) \<leftarrow> node_read_all_locked ci offset sz dest fs;
     Some (cnt, dest, ci_lock_release ci, fs)
   }"

text \<open>Blocks are appended until \<open>end_block\<close> is in the map.\<close>

partial_function (option) grow_blocks :: "u32 \<Rightarrow> cached_inode \<Rightarrow> ext2 \<Rightarrow> (cached_inode \<times> ext2) option" where
  "grow_blocks end_block ci fs =
     (if end_block \<ge> ci_data_block_count ci then do {
        (block_num, fs) \<leftarrow> alloc_block fs;
        (added, ci, fs) \<leftarrow> node_add_block block_num ci fs;
        kassert added;
        grow_blocks end_block ci fs
      } else Some (ci, fs))"

primrec write_parts :: "cached_inode \<Rightarrow> u32 \<Rightarrow> u32 \<Rightarrow> u32 list \<Rightarrow> u32 \<Rightarrow> bytes \<Rightarrow> ext2 \<Rightarrow> ext2 option" where
  "write_parts ci offset sz [] bytes_copied src = (\<lambda>fs. Some fs)"
| "write_parts ci offset sz (i # is) bytes_copied src = (\<lambda>fs. do {
     let bs = ext2_get_block_size fs;
     let copy_size = part_size bs offset sz i;
     fs \<leftarrow> node_write_block_locked ci i (drop (unat bytes_copied) src) (part_offset bs offset i) copy_size fs;
     write_parts ci offset sz is (bytes_copied + copy_size) src fs
   })"

definition node_write_all :: "cached_inode \<Rightarrow> u32 \<Rightarrow> u32 \<Rightarrow> bytes \<Rightarrow> ext2 \<Rightarrow> (u32 \<times> cached_inode \<times> ext2) option" where
  "node_write_all ci offset sz src fs =
     (if sz = 0 then Some (0, ci, fs)
      else do {
        let bs = ext2_get_block_size fs;
        let start_block = offset div bs;
        let end_block = (offset + sz - 1) div bs;
        ci \<leftarrow> ci_lock_acquire ci;
        kassert (node_is_file ci \<or> node_is_symlink ci);
        (ci, fs) \<leftarrow> grow_blocks end_block ci fs;
        let ci = (if offset + sz > inode_size (ci_inode ci)
                  then ci\<lparr>ci_inode := set_inode_size (offset + sz) (ci_inode ci)\<rparr> else ci);
        fs \<leftarrow> node_sync_inode ci fs;
        fs \<leftarrow> write_parts ci offset sz (block_range start_block end_block) 0 src fs;
        Some (sz, ci_lock_release ci, fs)
      })"

definition node_shrink :: "cached_inode \<Rightarrow> u32 \<Rightarrow> ext2 \<Rightarrow> (bool \<times> cached_inode \<times> ext2) option" where
  "node_shrink ci new_size fs = do {
     kassert (node_is_file ci);
     ci \<leftarrow> ci_lock_acquire ci;
     if new_size > inode_size (ci_inode ci) then Some (False, ci_lock_release ci, fs)
     else do {
       let ci = ci\<lparr>ci_inode := set_inode_size new_size (ci_inode ci)\<rparr>;
       fs \<leftarrow> node_sync_inode ci fs;
       Some (True, ci_lock_release ci, fs)
     }
   }"


section \<open>The inode table\<close>

text \<open>Inode \<open>l\<close> of group \<open>g\<close> as it is on the drive.\<close>

definition disk_inode :: "ext2 \<Rightarrow> nat \<Rightarrow> nat \<Rightarrow> bytes" where
  "disk_inode fs g l = chunk (unat (ext2_get_inode_size fs) * (l mod unat (inodes_per_block fs))) 128 (fs_block fs (inode_block_at fs g l))"

definition inode_exists :: "ext2 \<Rightarrow> nat \<Rightarrow> nat \<Rightarrow> bool" where
  "inode_exists fs g l \<longleftrightarrow> g < unat (num_block_groups fs) \<and> l < unat (sb_inodes_per_group (superblock fs))"

lemma inode_place:
  assumes g: "fs_good fs" and e: "inode_exists fs g l" and n: "n = inumber_at fs g l"
  shows "inode_table_sector n fs = block_sector (ext2_get_block_size fs) (inode_block_at fs g l)"
    "unat (inode_offset n fs) = unat (ext2_get_inode_size fs) * (l mod unat (inodes_per_block fs))"
    "unat (ext2_get_inode_size fs) * (l mod unat (inodes_per_block fs)) + 128 \<le> unat (ext2_get_block_size fs)"
    "data_block fs (inode_block_at fs g l)" "inode_block_at fs g l \<in> itable_blocks fs"
proof -
  note G = fs_goodD[OF g]
  let ?bs = "ext2_get_block_size fs" and ?is = "ext2_get_inode_size fs" and ?ipb = "inodes_per_block fs"
  have gl: "g < unat (num_block_groups fs)" "l < unat (sb_inodes_per_group (superblock fs))" using e by (auto simp: inode_exists_def)
  have isz: "128 \<le> unat ?is" "unat ?is \<le> unat ?bs" using G(3) by (auto simp: itable_ok_def)
  have ipb: "unat ?ipb = unat ?bs div unat ?is" by (simp add: inodes_per_block_def unat_div)
  have pos: "0 < unat ?ipb" using isz ipb by (simp add: div_greater_zero_iff)
  show it: "inode_block_at fs g l \<in> itable_blocks fs" using gl by (auto simp: itable_blocks_def)
  then show "data_block fs (inode_block_at fs g l)" using G(3) by (auto simp: itable_ok_def)
  note X = inumber_at_index[OF G(8) gl]
  have "(n - 1) mod sb_inodes_per_group (superblock fs) div ?ipb = of_nat (l div unat ?ipb)"
    using X by (intro word_eq_of_natI) (simp add: n unat_div)
  then show "inode_table_sector n fs = block_sector ?bs (inode_block_at fs g l)"
    using X by (simp add: inode_table_sector_def Let_def block_sector_def inode_block_at_def n)
  have lt: "unat ?is * (l mod unat ?ipb) + unat ?is \<le> unat ?bs"
  proof -
    have "unat ?is * (l mod unat ?ipb) + unat ?is = unat ?is * Suc (l mod unat ?ipb)" by simp
    also have "\<dots> \<le> unat ?is * unat ?ipb" using pos by (intro mult_le_mono2) (simp add: Suc_le_eq)
    also have "\<dots> \<le> unat ?bs" unfolding ipb by simp
    finally show ?thesis .
  qed
  then show "unat ?is * (l mod unat ?ipb) + 128 \<le> unat ?bs" using isz by linarith
  have m: "unat ((n - 1) mod sb_inodes_per_group (superblock fs) mod ?ipb) = l mod unat ?ipb" using X by (simp add: n unat_mod)
  have "unat ?is * (l mod unat ?ipb) < 4294967296" using lt G(4) isz by linarith
  then show "unat (inode_offset n fs) = unat ?is * (l mod unat ?ipb)"
    unfolding inode_offset_def by (simp add: unat_mult_u32 m)
qed

lemma slots_apart: "(a :: nat) \<noteq> b \<Longrightarrow> w \<le> z \<Longrightarrow> z * a + w \<le> z * b \<or> z * b + w \<le> z * a"
proof -
  assume a: "a \<noteq> b" "w \<le> z"
  then have "z * Suc a \<le> z * b \<or> z * Suc b \<le> z * a" by (metis Suc_leI linorder_neq_iff mult_le_mono2)
  then show ?thesis using a(2) by auto
qed

lemma same_update: "\<not> inode_lock fs \<Longrightarrow> fs\<lparr>inode_lock := True, fs_drive := d, inode_lock := False\<rparr> = fs\<lparr>fs_drive := d\<rparr>"
  by (cases fs) simp

lemma drive_update_same: "meta_inv (fs\<lparr>fs_drive := d\<rparr>) = meta_inv fs" "free_blocks (fs\<lparr>fs_drive := d\<rparr>) = free_blocks fs"
  "free_inumbers (fs\<lparr>fs_drive := d\<rparr>) = free_inumbers fs"
  by (auto simp: meta_inv_def geometry_ok_def ext2_get_block_size_def
    free_blocks_def free_inumbers_def block_at_def inumber_at_def ext2_block_group_start_def)

lemma icache_set_step:
  assumes g: "fs_good fs" and e: "inode_exists fs g l" and n: "ci_inumber ci = inumber_at fs g l" and len: "length (ci_inode ci) = 128"
  shows "\<exists>fs'. icache_set ci fs = Some fs' \<and> fs_step (itable_blocks fs) {} fs fs'
    \<and> (\<forall>g' l'. inode_exists fs g' l' \<longrightarrow> disk_inode fs' g' l' = (if g' = g \<and> l' = l then ci_inode ci else disk_inode fs g' l'))"
proof -
  note G = fs_goodD[OF g] and P = inode_place[OF g e n]
  let ?bs = "ext2_get_block_size fs" and ?b = "inode_block_at fs g l" and ?o = "unat (ext2_get_inode_size fs) * (l mod unat (inodes_per_block fs))"
  let ?x = "patch ?o (ci_inode ci) (fs_block fs ?b)"
  define d' where "d' = write_block ?bs ?b ?x (fs_drive fs)"
  let ?fs = "fs\<lparr>fs_drive := d'\<rparr>"
  have ok: "drive_ok (fs_drive fs)" "block_size_ok ?bs" using G(9) geometryD(1)[OF G(8)] by (auto simp: cache_ok_def bcache_inv_def)
  have bl: "length (fs_block fs ?b) = unat ?bs" by (rule fs_block_length[OF G(9)])
  have xl: "length ?x = unat ?bs" using P(3) len bl by simp
  have s512: "unat ?bs = 512 * unat (?bs div SD_SECTOR_SIZE_BYTES)" using ok(2) by (auto simp: block_size_ok_def unat_div SD_SECTOR_SIZE_BYTES_def)
  have bv: "block_valid ?bs ?b" using P(4) by (simp add: data_block_def)
  have "sd_read_blocks (fs_drive fs) (block_sector ?bs ?b) (?bs div SD_SECTOR_SIZE_BYTES) = (0, fs_block fs ?b)"
    using ok(1) by (simp add: fs_block_def drive_block_def sd_read_blocks_def drive_ok_def)
  moreover have "sd_write_blocks (fs_drive fs) (block_sector ?bs ?b) (?bs div SD_SECTOR_SIZE_BYTES) ?x = (0, d')"
    using ok(1) by (simp add: d'_def)
  ultimately have run: "icache_set ci fs = Some ?fs"
    using G(6) P(1,2) n
    by (simp add: icache_set_def Let_def inode_lock_acquire_def inode_lock_release_def fs_write_sectors_def same_update
      inode_table_sector_def inode_offset_def ext2_get_block_size_def inodes_per_block_def ext2_get_inode_size_def)
  have ag: "agree_outside (block_sectors ?bs ?b) (fs_drive fs) d'"
    unfolding d'_def write_block_def block_sectors_def by (rule agree_write)
  have db: "drive_block ?bs d' b = (if b = ?b then ?x else fs_block fs b)" if "data_block fs b" for b
    using drive_block_write[OF ok(2) bv _ xl] that by (simp add: d'_def data_block_def fs_block_def)
  then have fb: "fs_block ?fs b = (if b = ?b then ?x else fs_block fs b)" if "data_block fs b" for b
    using that by (simp add: fs_block_def)
  have "drive_ok d'" unfolding d'_def write_block_def by (rule drive_ok_sd_write(1)[OF ok(1)]) (use xl s512 in simp)
  have inv: "bcache_inv (fs_bcache fs) (fs_drive fs)" "bc_block_size (fs_bcache fs) = ?bs" using G(9) by (auto simp: cache_ok_def)
  have "drive_block ?bs d' (bc_tags (fs_bcache fs) ! i) = drive_block ?bs (fs_drive fs) (bc_tags (fs_bcache fs) ! i)"
    if "i < BCACHE_SIZE" "bc_tags (fs_bcache fs) ! i \<noteq> - 1" for i
  proof -
    have "file_block fs (bc_tags (fs_bcache fs) ! i)" using G(9) that bcache_invD(4)[OF inv(1)] by (simp add: cache_ok_def)
    then have "data_block fs (bc_tags (fs_bcache fs) ! i)" "bc_tags (fs_bcache fs) ! i \<noteq> ?b" using P(5) by (auto simp: file_block_def)
    then show ?thesis using db by (simp add: fs_block_def)
  qed
  then have "bcache_inv (fs_bcache fs) d'" using inv \<open>drive_ok d'\<close> by (intro bcache_inv_agree[OF inv(1)]) auto
  then have "cache_ok ?fs" using G(9) by (simp add: cache_ok_def)
  moreover have "fs_synced ?fs" using fs_synced_data_write[OF G(2) P(4) ag, of "fs_bcache fs"] by simp
  ultimately have "fs_good ?fs" using G(1,7)
    by (intro fs_goodI[OF g update_same(3)]) (auto simp: fs_inv_def drive_update_same)
  then have st: "fs_step (itable_blocks fs) {} fs ?fs"
    using fb P(5) by (auto simp: fs_step_def update_same drive_update_same)
  have "disk_inode ?fs g' l' = (if g' = g \<and> l' = l then ci_inode ci else disk_inode fs g' l')" if e': "inode_exists fs g' l'" for g' l'
  proof -
    let ?p = "unat (inodes_per_block fs)" and ?z = "unat (ext2_get_inode_size fs)"
    note P' = inode_place[OF g e' refl]
    have u: "disk_inode ?fs g' l' = chunk (?z * (l' mod ?p)) 128 (if inode_block_at fs g' l' = ?b then ?x else fs_block fs (inode_block_at fs g' l'))"
      using fb[OF P'(4)] by (simp add: disk_inode_def inode_block_at_def inodes_per_block_def ext2_get_inode_size_def)
    show ?thesis
    proof (cases "inode_block_at fs g' l' = ?b")
      case True
      then have same: "g' = g" "l' div ?p = l div ?p" using G(3) e e' unfolding itable_ok_def inode_exists_def by blast+
      show ?thesis
      proof (cases "l' = l")
        case True
        then show ?thesis using u same P(3) len bl by (simp add: chunk_patch_same)
      next
        case False
        then have "l' mod ?p \<noteq> l mod ?p" using same(2) by (metis div_mult_mod_eq)
        moreover have "128 \<le> ?z" using G(3) by (simp add: itable_ok_def)
        ultimately have "?z * (l' mod ?p) + 128 \<le> ?o \<or> ?o + 128 \<le> ?z * (l' mod ?p)" by (rule slots_apart)
        then show ?thesis using u same(1) False True P(3) len bl by (simp add: chunk_patch_other disk_inode_def)
      qed
    next
      case False
      then show ?thesis using u by (auto simp: disk_inode_def)
    qed
  qed
  then show ?thesis using run st by blast
qed


section \<open>Files that a step leaves alone\<close>

definition file_nodes :: "ext2 \<Rightarrow> cached_inode \<Rightarrow> u32 set" where
  "file_nodes fs ci = (\<Union>k < 15. tree_nodes (epb fs) (ptrs fs) (fdep k) (inode_block (ci_inode ci) k))"

lemma file_invD:
  assumes "file_inv fs ci"
  shows "length (ci_inode ci) = 128" "unat (ci_data_block_count ci) \<le> fmax (epb fs)" "owned fs (file_blocks fs ci)"
    "row_ok 15 fdep (fbase (epb fs)) (epb fs) (ptrs fs) (inode_block (ci_inode ci)) (unat (ci_data_block_count ci))"
  using assms by (auto simp: file_inv_def)

lemma file_nodes_subset: "file_nodes fs ci \<subseteq> file_blocks fs ci"
  using tree_nodes_subset by (fastforce simp: file_nodes_def file_blocks_def row_set_def)

lemma file_ptr_props:
  assumes "file_inv fs ci" "j < fmax (epb fs)"
  shows "file_ptr fs ci j = 0 \<longleftrightarrow> unat (ci_data_block_count ci) \<le> j" "file_ptr fs ci j \<notin> file_nodes fs ci"
    "file_ptr fs ci j \<noteq> 0 \<Longrightarrow> file_ptr fs ci j \<in> file_blocks fs ci"
proof -
  let ?e = "epb fs" and ?s = "fslot (epb fs) j" and ?T = "\<lambda>k. tree_set (epb fs) (ptrs fs) (fdep k) (inode_block (ci_inode ci) k)"
  note F = fslot_range[OF assms(2)]
  have r: "j - fbase ?e ?s < ?e ^ fdep ?s" using F by linarith
  have ok: "tree_ok ?e (ptrs fs) (fdep ?s) (inode_block (ci_inode ci) ?s) (min (?e ^ fdep ?s) (unat (ci_data_block_count ci) - fbase ?e ?s))"
    using file_invD(4)[OF assms(1)] F(1) by (simp add: row_ok_def)
  show "file_ptr fs ci j = 0 \<longleftrightarrow> unat (ci_data_block_count ci) \<le> j"
    using leaf_beyond[OF ok r] F(2) r by (auto simp: file_ptr_def)
  have inT: "file_ptr fs ci j \<noteq> 0 \<Longrightarrow> file_ptr fs ci j \<in> ?T ?s" using leaf_in_tree[OF r] by (simp add: file_ptr_def)
  then show "file_ptr fs ci j \<noteq> 0 \<Longrightarrow> file_ptr fs ci j \<in> file_blocks fs ci" using F(1) by (auto simp: file_blocks_def row_set_def)
  have "file_ptr fs ci j \<notin> tree_nodes ?e (ptrs fs) (fdep k) (inode_block (ci_inode ci) k)" if "k < 15" for k
  proof (cases "k = ?s \<or> file_ptr fs ci j = 0")
    case True
    then show ?thesis using leaf_no_node[OF ok r] by (auto simp: file_ptr_def)
  next
    case False
    then have "?T k \<inter> ?T ?s = {}" using file_invD(4)[OF assms(1)] that F(1) by (simp add: row_ok_def)
    then show ?thesis using inT False tree_nodes_subset by blast
  qed
  then show "file_ptr fs ci j \<notin> file_nodes fs ci" by (simp add: file_nodes_def)
qed

lemma file_ptr_inj:
  assumes "file_inv fs ci" "j < fmax (epb fs)" "k < fmax (epb fs)" "file_ptr fs ci j = file_ptr fs ci k" "file_ptr fs ci j \<noteq> 0"
  shows "j = k"
proof -
  let ?e = "epb fs" and ?b = "inode_block (ci_inode ci)" and ?s = "fslot (epb fs) j" and ?t = "fslot (epb fs) k"
  note F = fslot_range[OF assms(2)] and H = fslot_range[OF assms(3)]
  have r: "j - fbase ?e ?s < ?e ^ fdep ?s" "k - fbase ?e ?t < ?e ^ fdep ?t" using F H by linarith+
  have "file_ptr fs ci j \<in> tree_set ?e (ptrs fs) (fdep ?s) (?b ?s)" "file_ptr fs ci k \<in> tree_set ?e (ptrs fs) (fdep ?t) (?b ?t)"
    using leaf_in_tree[OF r(1), of "ptrs fs" "?b ?s"] leaf_in_tree[OF r(2), of "ptrs fs" "?b ?t"] assms(4,5) by (simp_all add: file_ptr_def)
  then have s: "?s = ?t" using file_invD(4)[OF assms(1)] F(1) H(1) assms(4) by (auto simp: row_ok_def)
  have ok: "tree_ok ?e (ptrs fs) (fdep ?s) (?b ?s) (min (?e ^ fdep ?s) (unat (ci_data_block_count ci) - fbase ?e ?s))"
    using file_invD(4)[OF assms(1)] F(1) by (simp add: row_ok_def)
  have "j - fbase ?e ?s = k - fbase ?e ?s"
    by (rule leaf_inj[OF ok r(1)]) (use r(2) s assms(4,5) in \<open>auto simp: file_ptr_def\<close>)
  then show ?thesis using F(2) H(2) s by simp
qed

lemma file_keeps:
  assumes g: "fs_good fs" and f: "file_inv fs ci" and st: "fs_step W new fs fs'" and W: "file_nodes fs ci \<inter> W = {}"
  shows "file_inv fs' ci" "file_blocks fs' ci = file_blocks fs ci" "file_nodes fs' ci = file_nodes fs ci"
    "j < fmax (epb fs) \<Longrightarrow> file_ptr fs' ci j = file_ptr fs ci j"
proof -
  let ?e = "epb fs" and ?b = "inode_block (ci_inode ci)"
  note S = fs_stepD[OF st] and I = file_invD[OF f]
  have nf: "file_blocks fs ci \<inter> free_blocks fs = {}" by (rule owned_not_free[OF I(3) g])
  have m: "ptrs fs' x = ptrs fs x" if "x \<in> file_nodes fs ci" for x
    by (rule ptrs_step[OF st]) (use that W nf S(3) file_nodes_subset[of fs ci] I(3) in \<open>auto simp: owned_def file_block_def\<close>)
  then have A: "tree_set ?e (ptrs fs') (fdep k) (?b k) = tree_set ?e (ptrs fs) (fdep k) (?b k)
      \<and> (\<forall>r < ?e ^ fdep k. leaf ?e (ptrs fs') (fdep k) (?b k) r = leaf ?e (ptrs fs) (fdep k) (?b k) r)
      \<and> (\<forall>n. tree_ok ?e (ptrs fs') (fdep k) (?b k) n = tree_ok ?e (ptrs fs) (fdep k) (?b k) n)
      \<and> tree_nodes ?e (ptrs fs') (fdep k) (?b k) = tree_nodes ?e (ptrs fs) (fdep k) (?b k)" if "k < 15" for k
    using that by (intro tree_agree_nodes) (auto simp: file_nodes_def)
  show fb: "file_blocks fs' ci = file_blocks fs ci" "file_nodes fs' ci = file_nodes fs ci"
    using A by (simp_all add: file_blocks_def row_set_def file_nodes_def S(6))
  have "row_ok 15 fdep (fbase ?e) ?e (ptrs fs') ?b (unat (ci_data_block_count ci))"
    using I(4) A unfolding row_ok_def by simp
  then show "file_inv fs' ci" using I owned_step[OF I(3) g st] by (simp add: file_inv_def fb(1) S(6))
  assume "j < fmax ?e"
  then show "file_ptr fs' ci j = file_ptr fs ci j"
    using fslot_range[of j ?e] A[of "fslot ?e j"] by (simp add: file_ptr_def S(6))
qed

lemma file_data_keeps:
  assumes g: "fs_good fs" and f: "file_inv fs ci" and st: "fs_step W new fs fs'" and W: "file_blocks fs ci \<inter> W = {}"
    and j: "j < fmax (epb fs)"
  shows "file_data fs' ci j = file_data fs ci j"
proof -
  note S = fs_stepD[OF st]
  have "file_ptr fs' ci j = file_ptr fs ci j" by (rule file_keeps(4)[OF g f st _ j]) (use W file_nodes_subset[of fs ci] in blast)
  moreover have "fs_block fs' (file_ptr fs ci j) = fs_block fs (file_ptr fs ci j)" if "file_ptr fs ci j \<noteq> 0"
    by (rule S(11)) (use S(3) file_ptr_props(3)[OF f j that] W owned_not_free[OF file_invD(3)[OF f] g] file_invD(3)[OF f]
      in \<open>auto simp: owned_def file_block_def\<close>)
  ultimately show ?thesis by (simp add: file_data_def block_or_zero_def S(9))
qed


section \<open>Bytes of a file\<close>

text \<open>Byte \<open>p\<close> of the file, and \<open>n\<close> bytes from \<open>p\<close> on.\<close>

definition file_byte :: "ext2 \<Rightarrow> cached_inode \<Rightarrow> nat \<Rightarrow> u8" where
  "file_byte fs ci p = file_data fs ci (p div unat (ext2_get_block_size fs)) ! (p mod unat (ext2_get_block_size fs))"

definition file_bytes :: "ext2 \<Rightarrow> cached_inode \<Rightarrow> nat \<Rightarrow> nat \<Rightarrow> bytes" where
  "file_bytes fs ci p n = map (file_byte fs ci) [p..<p + n]"

lemma length_file_bytes [simp]: "length (file_bytes fs ci p n) = n"
  by (simp add: file_bytes_def)

lemma file_bytes_append: "file_bytes fs ci p m @ file_bytes fs ci (p + m) n = file_bytes fs ci p (m + n)"
  unfolding file_bytes_def map_append[symmetric] add.assoc[symmetric] by (subst upt_add_eq_append) auto

lemma patch_patch: "off + length xs \<le> length b \<Longrightarrow> patch (off + length xs) ys (patch off xs b) = patch off (xs @ ys) b"
  by (simp add: patch_def ac_simps)

lemma length_file_data:
  assumes "fs_good fs"
  shows "length (file_data fs ci j) = unat (ext2_get_block_size fs)"
  using good_sizes(1,4)[OF assms] by (simp add: file_data_def block_or_zero_def)

lemma chunk_file_data:
  assumes g: "fs_good fs" and n: "off + n \<le> unat (ext2_get_block_size fs)"
  shows "chunk off n (file_data fs ci j) = file_bytes fs ci (j * unat (ext2_get_block_size fs) + off) n"
proof (rule nth_equalityI)
  let ?b = "unat (ext2_get_block_size fs)"
  show "length (chunk off n (file_data fs ci j)) = length (file_bytes fs ci (j * ?b + off) n)"
    using length_file_data[OF g] n by simp
  fix i assume "i < length (chunk off n (file_data fs ci j))"
  then have i: "i < n" "off + i < ?b" using n by auto
  have "(j * ?b + off + i) div ?b = j" "(j * ?b + off + i) mod ?b = off + i" using i(2) by (simp_all add: add.assoc)
  then show "chunk off n (file_data fs ci j) ! i = file_bytes fs ci (j * ?b + off) n ! i"
    using i length_file_data[OF g] by (simp add: file_bytes_def file_byte_def)
qed

text \<open>Blocks have at least 1024 bytes, so that every 32-bit offset is in reach of the map.\<close>

lemma block_size_min:
  assumes "fs_good fs"
  shows "1024 \<le> unat (ext2_get_block_size fs)" "256 \<le> epb fs"
proof -
  have "unat (push_bit k (1024 :: u32)) = 1024 * 2 ^ k mod 4294967296" for k
  proof -
    have "push_bit k (1024 :: u32) = of_nat (1024 * 2 ^ k)" by (simp add: push_bit_eq_mult)
    then show ?thesis by (simp only: unat_of_nat) simp
  qed
  then have "1024 dvd unat (ext2_get_block_size fs)" by (simp add: ext2_get_block_size_def dvd_mod)
  moreover have "unat (ext2_get_block_size fs) \<noteq> 0" using good_sizes(1,2)[OF assms] by linarith
  ultimately show "1024 \<le> unat (ext2_get_block_size fs)" by (simp add: dvd_imp_le)
  then show "256 \<le> epb fs" using good_sizes(1)[OF assms] by simp
qed

lemma offset_in_reach:
  assumes g: "fs_good fs" and p: "p < 4294967296"
  shows "p div unat (ext2_get_block_size fs) < fmax (epb fs)"
proof -
  have e: "256 \<le> epb fs" "1024 \<le> unat (ext2_get_block_size fs)" by (fact block_size_min[OF g])+
  have "p div unat (ext2_get_block_size fs) \<le> p div 1024" using e(2) by (simp add: div_le_mono2)
  also have "\<dots> < 256 * 256 * 256" using p by simp
  also have "\<dots> \<le> epb fs * epb fs * epb fs" using mult_le_mono[OF mult_le_mono[OF e(1) e(1)] e(1)] by simp
  also have "\<dots> \<le> fmax (epb fs)" by (simp add: fmax_def)
  finally show ?thesis .
qed

text \<open>The parts of successive blocks are adjacent and make up the range.\<close>

lemma parts_nat:
  fixes p n b i :: nat
  assumes b: "0 < b" and n: "0 < n" and i: "p div b \<le> i" "i \<le> (p + n - 1) div b"
    and po: "po = (if i = p div b then p mod b else 0)"
    and ps: "ps = (if i = (p + n - 1) div b then (p + n - 1) mod b - po + 1 else b - po)"
  shows "p + min n (i * b - p) = i * b + po" "min n (Suc i * b - p) = min n (i * b - p) + ps" "po + ps \<le> b"
    "i = (p + n - 1) div b \<Longrightarrow> po \<le> (p + n - 1) mod b" "po < b"
proof -
  define X Q E r r' where "X = i * b" and "Q = p div b * b" and "E = (p + n - 1) div b * b" and "r = p mod b" and "r' = (p + n - 1) mod b"
  have l: "p = Q + r" "p + n = E + r' + 1" "r < b" "r' < b"
    using b n by (simp_all add: r_def r'_def Q_def E_def)
  have s: "i = p div b \<and> X = Q \<and> po = r \<or> i \<noteq> p div b \<and> Q + b \<le> X \<and> po = 0"
    using i(1) mult_le_mono1[of "Suc (p div b)" i b] po by (auto simp: X_def Q_def r_def Suc_le_eq)
  have e: "i = (p + n - 1) div b \<and> X = E \<and> ps = r' - po + 1 \<or> i \<noteq> (p + n - 1) div b \<and> X + b \<le> E \<and> ps = b - po"
    using i(2) mult_le_mono1[of "Suc i" "(p + n - 1) div b" b] ps by (auto simp: X_def E_def r'_def Suc_le_eq)
  show "p + min n (i * b - p) = i * b + po" using s e unfolding X_def[symmetric] by (elim disjE conjE) (use l n in simp_all)
  show "min n (Suc i * b - p) = min n (i * b - p) + ps" using s e unfolding mult_Suc X_def[symmetric] by (elim disjE conjE) (use l n in simp_all)
  show "po + ps \<le> b" using s e by (elim disjE conjE) (use l n in simp_all)
  show "i = (p + n - 1) div b \<Longrightarrow> po \<le> (p + n - 1) mod b" using l s e n unfolding r'_def[symmetric] by linarith
  show "po < b" using l s by linarith
qed

lemma parts:
  fixes bs offset sz :: u32
  assumes bs: "bs \<noteq> 0" and n: "sz \<noteq> 0" "unat offset + unat sz < 4294967296"
    and i: "unat offset div unat bs \<le> i" "i \<le> (unat offset + unat sz - 1) div unat bs"
  shows "unat offset + min (unat sz) (i * unat bs - unat offset) = i * unat bs + unat (part_offset bs offset (of_nat i))"
    "min (unat sz) (Suc i * unat bs - unat offset) = min (unat sz) (i * unat bs - unat offset) + unat (part_size bs offset sz (of_nat i))"
    "unat (part_offset bs offset (of_nat i)) + unat (part_size bs offset sz (of_nat i)) \<le> unat bs"
    "unat (of_nat i :: u32) = i"
proof -
  let ?b = "unat bs" and ?p = "unat offset" and ?n = "unat sz" and ?po = "part_offset bs offset (of_nat i)"
  have pos: "0 < ?b" "0 < ?n" using bs n(1) by (simp_all add: unat_gt_0)
  have "(?p + ?n - 1) div ?b \<le> ?p + ?n - 1" by simp
  then have "i < 4294967296" using i(2) n(2) by linarith
  then show ui: "unat (of_nat i :: u32) = i" by (simp add: unat_of_nat)
  have last: "unat (offset + sz - 1) = ?p + ?n - 1"
  proof -
    have s: "unat (offset + sz) = ?p + ?n" using n(2) by (simp add: unat_word_ariths)
    then have "offset + sz \<noteq> 0" using pos(2) by (metis add_is_0 less_numeral_extra(3) unat_0)
    then show ?thesis using s by (simp add: unat_minus_one)
  qed
  have eq: "of_nat i = (w :: u32) \<longleftrightarrow> i = unat w" for w using ui by (auto simp: word_unat_eq_iff)
  have po: "unat ?po = (if i = ?p div ?b then ?p mod ?b else 0)"
    by (simp add: part_offset_def eq unat_div unat_mod)
  note N = parts_nat[OF pos i po]
  have ps: "unat (part_size bs offset sz (of_nat i)) =
      (if i = (?p + ?n - 1) div ?b then (?p + ?n - 1) mod ?b - unat ?po + 1 else ?b - unat ?po)"
  proof (cases "i = (?p + ?n - 1) div ?b")
    case True
    let ?r = "(offset + sz - 1) mod bs"
    have r: "unat ?r = (?p + ?n - 1) mod ?b" by (simp add: unat_mod last)
    then have le: "?po \<le> ?r" using N(4)[OF refl True] by (simp add: word_le_nat_alt)
    have "?b < 4294967296" by simp
    then have "unat (?r - ?po) < 4294967295" using r unat_sub[OF le] mod_less_divisor[OF pos(1), of "?p + ?n - 1"] by linarith
    then have "unat (?r - ?po + 1) = unat ?r - unat ?po + 1" using unat_sub[OF le] by (simp add: unat_word_ariths)
    moreover have "of_nat i = (offset + sz - 1) div bs" using True unfolding eq by (simp add: unat_div last)
    ultimately show ?thesis using True unfolding part_size_def r by simp
  next
    case False
    have "?po \<le> bs" using N(5)[OF refl] by (simp add: word_le_nat_alt)
    then show ?thesis using False by (simp add: part_size_def eq unat_div last unat_sub)
  qed
  show "?p + min ?n (i * ?b - ?p) = i * ?b + unat ?po" by (rule N(1)[OF ps])
  show "min ?n (Suc i * ?b - ?p) = min ?n (i * ?b - ?p) + unat (part_size bs offset sz (of_nat i))" by (rule N(2)[OF ps])
  show "unat ?po + unat (part_size bs offset sz (of_nat i)) \<le> ?b" by (rule N(3)[OF ps])
qed

lemma file_byte_keeps:
  assumes "fs_good fs" "file_inv fs ci" "fs_step W new fs fs'" "file_blocks fs ci \<inter> W = {}" "p < 4294967296"
  shows "file_byte fs' ci p = file_byte fs ci p"
  using file_data_keeps[OF assms(1-4) offset_in_reach[OF assms(1,5)]] by (simp add: file_byte_def fs_stepD[OF assms(3)])

lemma file_bytes_keeps:
  assumes "fs_good fs" "file_inv fs ci" "fs_step W new fs fs'" "file_blocks fs ci \<inter> W = {}" "p + n \<le> 4294967296"
  shows "file_bytes fs' ci p n = file_bytes fs ci p n"
  unfolding file_bytes_def using file_byte_keeps[OF assms(1-4)] assms(5) by simp

lemma last_part: "(n :: nat) > 0 \<Longrightarrow> b > 0 \<Longrightarrow> min n (Suc ((p + n - 1) div b) * b - p) = n"
proof -
  assume a: "n > 0" "b > 0"
  have "p + n - 1 < Suc ((p + n - 1) div b) * b" using dividend_less_div_times[OF a(2), of "p + n - 1"] by simp
  then show ?thesis using a(1) by simp
qed

section \<open>Reading\<close>

lemma read_parts_step:
  fixes offset sz :: u32
  defines "p \<equiv> unat offset" and "n \<equiv> unat sz"
  assumes n: "sz \<noteq> 0" "p + n < 4294967296" and b: "b = unat (ext2_get_block_size fs)" and last: "e = (p + n - 1) div b"
    and i: "p div b \<le> i" "i \<le> Suc e" and c: "c = min n (i * b - p)"
    and g: "fs_good fs" "file_inv fs ci" "ci_lock ci" and d: "n \<le> length dest"
  shows "\<exists>fs'. read_parts ci offset sz (map of_nat [i..<Suc e]) (of_nat c) dest fs = Some (sz, patch c (file_bytes fs ci (p + c) (n - c)) dest, fs')
    \<and> fs_step {} {} fs fs'"
  using b i c g d
proof (induction "Suc e - i" arbitrary: i c dest fs)
  case 0
  have "0 < n" "0 < b" using n(1) good_sizes(1,2)[OF 0(6)] by (auto simp: n_def 0(2) unat_gt_0)
  moreover have "i = Suc e" using 0 by simp
  ultimately have "c = n" using last_part[of n b p] by (simp add: 0(5) last)
  then show ?case using \<open>i = Suc e\<close> fs_step_refl[OF 0(6)] by (simp add: file_bytes_def n_def)
next
  case (Suc k)
  let ?bs = "ext2_get_block_size fs"
  have bs0: "?bs \<noteq> 0" using good_sizes(1,2)[OF Suc(7)] by auto
  have ie: "i \<le> (p + n - 1) div b" using Suc(2) last by simp
  note P = parts[OF bs0 n[unfolded p_def n_def] Suc(4)[unfolded p_def Suc(3)] ie[unfolded p_def n_def Suc(3)],
      folded p_def n_def Suc(3)]
  let ?po = "part_offset ?bs offset (of_nat i)" and ?ps = "part_size ?bs offset sz (of_nat i)"
  have "p + n - 1 < 4294967296" using n(2) by simp
  from offset_in_reach[OF Suc(7) this, folded Suc(3)] have "i < fmax (epb fs)" using ie by (rule le_less_trans[rotated])
  then obtain fs1 where f: "node_read_block_locked ci (of_nat i) fs = Some (file_data fs ci i, fs1)" "fs_step {} {} fs fs1"
    using node_read_block_step[OF Suc(7,8) _ Suc(9), of "of_nat i"] P(4) by auto
  note S = fs_stepD[OF f(2)]
  have K: "file_inv fs1 ci" by (rule file_keeps(1)[OF Suc(7,8) f(2)]) simp
  let ?x = "file_bytes fs ci (p + c) (unat ?ps)" and ?c = "c + unat ?ps"
  have pc: "p + c = i * b + unat ?po" using P(1) by (simp only: Suc(6))
  have x: "chunk (unat ?po) (unat ?ps) (file_data fs ci i) = ?x"
    unfolding pc using chunk_file_data[OF Suc(7), of "unat ?po" "unat ?ps" ci i] P(3) by (simp add: Suc(3)[symmetric])
  have c': "?c = min n (Suc i * b - p)" using P(2) by (simp only: Suc(6))
  have cn: "?c \<le> n" by (simp add: c')
  have c32: "unat (of_nat c :: u32) = c" using cn n(2) by (simp add: unat_of_nat)
  have k: "k = Suc e - Suc i" and ii: "p div b \<le> Suc i" "Suc i \<le> Suc e" using Suc(2,4) by auto
  have xl: "length (patch c ?x dest) = length dest" using cn Suc(10) by simp
  from Suc(1)[OF k _ ii c' S(1) K Suc(9), of "patch c ?x dest"] Suc(10) xl
  obtain fs2 where h: "read_parts ci offset sz (map of_nat [Suc i..<Suc e]) (of_nat ?c) (patch c ?x dest) fs1 =
      Some (sz, patch ?c (file_bytes fs1 ci (p + ?c) (n - ?c)) (patch c ?x dest), fs2)" "fs_step {} {} fs1 fs2"
    by (auto simp: S Suc(3))
  have "file_bytes fs1 ci (p + ?c) (n - ?c) = file_bytes fs ci (p + c + unat ?ps) (n - ?c)"
    using file_bytes_keeps[OF Suc(7,8) f(2), of "p + ?c" "n - ?c"] cn n(2) by (simp add: add.assoc)
  moreover have "patch ?c (file_bytes fs ci (p + c + unat ?ps) (n - ?c)) (patch c ?x dest) = patch c (file_bytes fs ci (p + c) (n - c)) dest"
    using patch_patch[of c ?x dest] cn Suc(10) file_bytes_append[of fs ci "p + c" "unat ?ps" "n - ?c"] by simp
  moreover have "[i..<Suc e] = i # [Suc i..<Suc e]" using ii(2) by (simp add: upt_conv_Cons del: upt_Suc)
  ultimately show ?case using f(1) h c32 x fs_step_trans[OF f(2) h(2)] by (simp add: Let_def del: upt_Suc)
qed

lemma block_range_nat:
  assumes "unat a = p" "unat z = q"
  shows "block_range a z = map of_nat [p..<Suc q]"
  using assms by (simp add: block_range_def)

lemma last_byte:
  fixes offset sz :: u32
  assumes "sz \<noteq> 0" "unat offset + unat sz < 4294967296"
  shows "unat (offset + sz - 1) = unat offset + unat sz - 1" "unat (offset + sz) = unat offset + unat sz"
proof -
  show s: "unat (offset + sz) = unat offset + unat sz" using assms(2) by (simp add: unat_word_ariths)
  have "0 < unat sz" using assms(1) by (simp add: unat_gt_0)
  then have "offset + sz \<noteq> 0" using s by (metis add_is_0 less_numeral_extra(3) unat_0)
  then show "unat (offset + sz - 1) = unat offset + unat sz - 1" using s by (simp add: unat_minus_one)
qed

text \<open>Bytes that a read at \<open>offset\<close> delivers.\<close>

definition readable :: "cached_inode \<Rightarrow> u32 \<Rightarrow> u32 \<Rightarrow> nat" where
  "readable ci offset sz = min (unat sz) (unat (inode_size (ci_inode ci)) - unat offset)"

lemma read_all_parts:
  assumes n: "sz \<noteq> 0" "unat offset + unat sz < 4294967296" and g: "fs_good fs" "file_inv fs ci" "ci_lock ci" and d: "unat sz \<le> length dest"
  shows "\<exists>fs'. read_parts ci offset sz (block_range (offset div ext2_get_block_size fs) ((offset + sz - 1) div ext2_get_block_size fs)) 0 dest fs
      = Some (sz, patch 0 (file_bytes fs ci (unat offset) (unat sz)) dest, fs') \<and> fs_step {} {} fs fs'"
proof -
  let ?b = "unat (ext2_get_block_size fs)" and ?p = "unat offset" and ?n = "unat sz"
  have "0 < ?n" using n(1) by (simp add: unat_gt_0)
  then have le: "?p div ?b \<le> Suc ((?p + ?n - 1) div ?b)" by (intro le_SucI div_le_mono) simp
  have c: "0 = min ?n (?p div ?b * ?b - ?p)" by simp
  show ?thesis
    using read_parts_step[OF n refl refl le_refl le c g d]
    by (subst block_range_nat[of _ "?p div ?b" _ "(?p + ?n - 1) div ?b"]) (simp_all add: unat_div last_byte[OF n])
qed

lemma node_read_all_locked_step:
  assumes g: "fs_good fs" "file_inv fs ci" "ci_lock ci" and d: "unat sz \<le> length dest"
  shows "\<exists>fs'. node_read_all_locked ci offset sz dest fs =
      Some (of_nat (readable ci offset sz), patch 0 (file_bytes fs ci (unat offset) (readable ci offset sz)) dest, fs')
      \<and> fs_step {} {} fs fs'"
proof (cases "sz = 0 \<or> inode_size (ci_inode ci) \<le> offset")
  case True
  then have "readable ci offset sz = 0" by (auto simp: readable_def word_le_nat_alt)
  then show ?thesis using True fs_step_refl[OF g(1)] g(3) by (auto simp: node_read_all_locked_def file_bytes_def)
next
  case False
  let ?size = "inode_size (ci_inode ci)"
  have lt: "unat offset < unat ?size" "sz \<noteq> 0" using False by (simp_all add: word_le_nat_alt)
  define z where "z = (if sz > ?size - offset then ?size - offset else sz)"
  have av: "unat (?size - offset) = unat ?size - unat offset" using lt(1) by (simp add: unat_sub word_le_nat_alt)
  have zr: "unat z = readable ci offset sz" unfolding z_def readable_def by (auto simp: word_less_nat_alt av)
  have z0: "z \<noteq> 0" using lt av by (auto simp: z_def)
  have "unat ?size < 4294967296" by simp
  then have z32: "unat offset + unat z < 4294967296" using lt(1) unfolding zr readable_def by linarith
  have "unat z \<le> length dest" using d by (simp add: zr readable_def)
  from read_all_parts[OF z0 z32 g this] obtain fs' where r:
    "read_parts ci offset z (block_range (offset div ext2_get_block_size fs) ((offset + z - 1) div ext2_get_block_size fs)) 0 dest fs
      = Some (z, patch 0 (file_bytes fs ci (unat offset) (unat z)) dest, fs')" "fs_step {} {} fs fs'" by auto
  have "z = of_nat (readable ci offset sz)" by (simp flip: zr)
  then show ?thesis using False r zr g(3) by (auto simp: node_read_all_locked_def Let_def z_def[symmetric] not_le)
qed

lemma node_read_all_step:
  assumes g: "fs_good fs" "file_inv fs ci" "\<not> ci_lock ci" and d: "unat sz \<le> length dest"
  shows "\<exists>fs'. node_read_all ci offset sz dest fs =
      Some (of_nat (readable ci offset sz), patch 0 (file_bytes fs ci (unat offset) (readable ci offset sz)) dest, ci, fs')
      \<and> fs_step {} {} fs fs'"
proof -
  let ?ci = "ci\<lparr>ci_lock := True\<rparr>"
  have ci: "ci_lock_acquire ci = Some ?ci" "ci_lock_release ?ci = ci" using g(3) by (simp_all add: ci_lock_acquire_def ci_lock_release_def)
  have f: "file_inv fs ?ci" "ci_lock ?ci" "file_bytes fs ?ci = file_bytes fs ci" "readable ?ci = readable ci"
    using g(2) by (auto simp: file_inv_def file_blocks_def file_bytes_def file_byte_def file_data_def file_ptr_def readable_def fun_eq_iff)
  show ?thesis using node_read_all_locked_step[OF g(1) f(1,2) d, of offset] by (auto simp: node_read_all_def ci f(3,4))
qed


section \<open>Growing\<close>

text \<open>What the append loop keeps of a file, and the blocks \<open>new\<close> that it takes.\<close>

definition extended :: "ext2 \<Rightarrow> cached_inode \<Rightarrow> ext2 \<Rightarrow> cached_inode \<Rightarrow> u32 set \<Rightarrow> bool" where
  "extended fs ci fs' ci' new \<longleftrightarrow> fs_step (file_blocks fs ci) new fs fs' \<and> file_inv fs' ci'
     \<and> file_blocks fs' ci' = file_blocks fs ci \<union> new
     \<and> (\<forall>j < fmax (epb fs). file_data fs' ci' j = file_data fs ci j)
     \<and> inode_size (ci_inode ci') = inode_size (ci_inode ci) \<and> inode_mode (ci_inode ci') = inode_mode (ci_inode ci)
     \<and> inode_links_count (ci_inode ci') = inode_links_count (ci_inode ci)
     \<and> ci' = ci\<lparr>ci_inode := ci_inode ci', ci_data_block_count := ci_data_block_count ci'\<rparr>"

lemma extended_refl: "fs_good fs \<Longrightarrow> file_inv fs ci \<Longrightarrow> extended fs ci fs ci {}"
  using fs_step_mono[OF fs_step_refl, of fs "file_blocks fs ci"] by (simp add: extended_def)

lemma extended_trans:
  assumes a: "extended fs ci fs1 ci1 new1" and b: "extended fs1 ci1 fs2 ci2 new2"
  shows "extended fs ci fs2 ci2 (new1 \<union> new2)"
proof -
  have A: "fs_step (file_blocks fs ci) new1 fs fs1" "file_blocks fs1 ci1 = file_blocks fs ci \<union> new1" using a by (auto simp: extended_def)
  have B: "fs_step (file_blocks fs ci \<union> new1) new2 fs1 fs2" using b A(2) by (auto simp: extended_def)
  have "fs_step (file_blocks fs ci) (new1 \<union> new2) fs fs2" by (rule fs_step_mono[OF fs_step_trans[OF A(1) B]]) auto
  moreover have "ci2 = ci\<lparr>ci_inode := ci_inode ci2, ci_data_block_count := ci_data_block_count ci2\<rparr>"
  proof -
    have "ci1 = ci\<lparr>ci_inode := ci_inode ci1, ci_data_block_count := ci_data_block_count ci1\<rparr>"
      "ci2 = ci1\<lparr>ci_inode := ci_inode ci2, ci_data_block_count := ci_data_block_count ci2\<rparr>" using a b by (auto simp: extended_def)
    then show ?thesis by (metis cached_inode.surjective cached_inode.update_convs(2,3))
  qed
  ultimately show ?thesis using a b fs_stepD(6)[OF A(1)] by (auto simp: extended_def)
qed

text \<open>One round of the loop.\<close>

lemma append_step:
  assumes g: "fs_good fs" "file_inv fs ci" "unat (ci_data_block_count ci) < fmax (epb fs)" and free: "4 \<le> card (free_blocks fs)"
  shows "\<exists>blk fs1 ci2 fs2 new. alloc_block fs = Some (blk, fs1) \<and> node_add_block blk ci fs1 = Some (True, ci2, fs2)
    \<and> extended fs ci fs2 ci2 new \<and> card new \<le> 4 \<and> unat (ci_data_block_count ci2) = Suc (unat (ci_data_block_count ci))"
proof -
  let ?n = "unat (ci_data_block_count ci)"
  have "free_blocks fs \<noteq> {}" using free by auto
  then obtain blk fs1 where a: "alloc_block fs = Some (blk, fs1)" "fs_step {} {blk} fs fs1" "blk \<noteq> 0" "file_block fs blk"
    "fs_block fs1 blk = replicate (unat (ext2_get_block_size fs)) 0" using alloc_block_step[OF g(1)] by blast
  note S = fs_stepD[OF a(2)]
  note K = file_keeps[OF g(1,2) a(2), simplified]
  have bf: "blk \<in> free_blocks fs" using S(3) by simp
  then have nb: "blk \<notin> file_blocks fs ci" using owned_not_free[OF file_invD(3)[OF g(2)] g(1)] by blast
  have "owned fs1 {blk}" using owned_new[OF g(1) a(2)] by simp
  then have ad: "addable fs1 ci blk" using S K g(3) a(3) nb by (simp add: addable_def)
  have "finite (free_blocks fs)" using free by (metis card.infinite not_numeral_le_zero)
  then have "3 \<le> card (free_blocks fs1)" using S(4) bf free by simp
  then obtain ci2 fs2 new where o: "node_add_block blk ci fs1 = Some (True, ci2, fs2)" "added fs1 ci blk fs2 ci2 new" "card new \<le> 3"
    using node_add_block_file[OF ad] by (auto simp: add_outcome_def)
  note A = o(2)[unfolded added_def K(2)]
  have st: "fs_step (file_blocks fs ci) new fs1 fs2" using A by blast
  note S' = fs_stepD[OF st]
  have bn: "blk \<notin> new" using S'(3) S(4) by auto
  have "file_data fs2 ci2 j = file_data fs ci j" if j: "j < fmax (epb fs)" for j
  proof (cases "j = ?n")
    case True
    have "file_ptr fs ci j = 0" using file_ptr_props(1)[OF g(2) j] True by simp
    moreover have "file_ptr fs2 ci2 j = blk" using A j True by (simp add: S(6))
    moreover have "fs_block fs2 blk = fs_block fs1 blk" by (rule S'(11)) (use nb bn a(4) S(8) in \<open>auto simp: file_block_def\<close>)
    ultimately show ?thesis using a(3,5) by (simp add: file_data_def block_or_zero_def)
  next
    case False
    then have "file_ptr fs2 ci2 j = file_ptr fs1 ci j" "file_ptr fs1 ci j \<noteq> 0 \<Longrightarrow> fs_block fs2 (file_ptr fs1 ci j) = fs_block fs1 (file_ptr fs1 ci j)"
      using A j by (simp_all add: S(6))
    then have "file_data fs2 ci2 j = file_data fs1 ci j" by (simp add: file_data_def block_or_zero_def S'(9))
    then show ?thesis using file_data_keeps[OF g(1,2) a(2) _ j] by simp
  qed
  moreover have "fs_step (file_blocks fs ci) (insert blk new) fs fs2" using fs_step_trans[OF a(2) st] by simp
  moreover have "ci2 = ci\<lparr>ci_inode := ci_inode ci2, ci_data_block_count := ci_data_block_count ci2\<rparr>"
    using A by (cases ci; cases ci2) simp
  ultimately have "extended fs ci fs2 ci2 (insert blk new)" using A by (auto simp: extended_def)
  moreover have "card (insert blk new) \<le> 4" using o(3) card_insert_le_m1[of 4 new blk] by simp
  ultimately show ?thesis using a(1) o(1) A by blast
qed

lemma grow_blocks_step:
  assumes "fs_good fs" "file_inv fs ci" "unat e < fmax (epb fs)" "4 * (Suc (unat e) - unat (ci_data_block_count ci)) \<le> card (free_blocks fs)"
  shows "\<exists>ci' fs' new. grow_blocks e ci fs = Some (ci', fs') \<and> extended fs ci fs' ci' new
    \<and> unat e < unat (ci_data_block_count ci')"
  using assms
proof (induction "Suc (unat e) - unat (ci_data_block_count ci)" arbitrary: fs ci)
  case 0
  then show ?case using extended_refl[of fs ci] by (subst grow_blocks.simps) (force simp: word_le_nat_alt)
next
  case (Suc k)
  have le: "unat (ci_data_block_count ci) \<le> unat e" using Suc(2) by linarith
  then have "unat (ci_data_block_count ci) < fmax (epb fs)" "4 \<le> card (free_blocks fs)" using Suc(5,6) by auto
  from append_step[OF Suc(3,4) this] obtain blk fs1 ci2 fs2 new where o: "alloc_block fs = Some (blk, fs1)"
    "node_add_block blk ci fs1 = Some (True, ci2, fs2)" "extended fs ci fs2 ci2 new" "card new \<le> 4"
    "unat (ci_data_block_count ci2) = Suc (unat (ci_data_block_count ci))" by blast
  have st: "fs_step (file_blocks fs ci) new fs fs2" "file_inv fs2 ci2" using o(3) by (auto simp: extended_def)
  note S = fs_stepD[OF st(1)]
  have "card (free_blocks fs) - 4 \<le> card (free_blocks fs2)" unfolding S(4) using diff_card_le_card_Diff[OF finite[of new], of "free_blocks fs"] o(4) by linarith
  then have "4 * (Suc (unat e) - unat (ci_data_block_count ci2)) \<le> card (free_blocks fs2)" using Suc(6) o(5) le by simp
  moreover have "k = Suc (unat e) - unat (ci_data_block_count ci2)" using Suc(2) o(5) by simp
  ultimately obtain ci' fs' new' where r: "grow_blocks e ci2 fs2 = Some (ci', fs')"
    "extended fs2 ci2 fs' ci' new'" "unat e < unat (ci_data_block_count ci')" using Suc(1)[OF _ S(1) st(2)] Suc(5) by (auto simp: S)
  have "grow_blocks e ci fs = Some (ci', fs')" using le o(1,2) r(1) by (subst grow_blocks.simps) (simp add: word_le_nat_alt)
  then show ?case using extended_trans[OF o(3) r(2)] r(3) by blast
qed


section \<open>Writing\<close>

text \<open>One part of one block.\<close>

lemma file_data_write:
  assumes g: "fs_good fs" "file_inv fs ci" and i: "i < fmax (epb fs)" "file_ptr fs ci i \<noteq> 0"
    and st: "fs_step {file_ptr fs ci i} {} fs fs'" and w: "fs_block fs' (file_ptr fs ci i) = x"
  shows "file_inv fs' ci" "file_blocks fs' ci = file_blocks fs ci"
    "j < fmax (epb fs) \<Longrightarrow> file_ptr fs' ci j = file_ptr fs ci j"
    "j < fmax (epb fs) \<Longrightarrow> file_data fs' ci j = (if j = i then x else file_data fs ci j)"
proof -
  note P = file_ptr_props[OF g(2)] and S = fs_stepD[OF st]
  note K = file_keeps[OF g st, simplified, OF P(2)[OF i(1)]]
  show "file_inv fs' ci" "file_blocks fs' ci = file_blocks fs ci" "j < fmax (epb fs) \<Longrightarrow> file_ptr fs' ci j = file_ptr fs ci j"
    by (fact K)+
  assume j: "j < fmax (epb fs)"
  have "fs_block fs' (file_ptr fs ci j) = fs_block fs (file_ptr fs ci j)" if "j \<noteq> i" "file_ptr fs ci j \<noteq> 0"
    by (rule S(11)) (use file_ptr_inj[OF g(2) j i(1)] that P(3)[OF j] file_invD(3)[OF g(2)] in \<open>auto simp: owned_def file_block_def\<close>)
  then show "file_data fs' ci j = (if j = i then x else file_data fs ci j)"
    using K(4)[OF j] i(2) w by (auto simp: file_data_def block_or_zero_def S(9))
qed

lemma div_mod_range:
  assumes "(0 :: nat) < b" "lo + n \<le> b"
  shows "q div b = i \<and> lo \<le> q mod b \<and> q mod b < lo + n \<longleftrightarrow> i * b + lo \<le> q \<and> q < i * b + lo + n"
    "i * b + lo \<le> q \<Longrightarrow> q < i * b + lo + n \<Longrightarrow> q mod b - lo = q - (i * b + lo)"
proof -
  have q: "q = q div b * b + q mod b" by simp
  have dv: "q div b = i" if "i * b + lo \<le> q" "q < i * b + lo + n"
    by (rule div_nat_eqI) (use that assms in \<open>auto simp: mult.commute\<close>)
  then show "q div b = i \<and> lo \<le> q mod b \<and> q mod b < lo + n \<longleftrightarrow> i * b + lo \<le> q \<and> q < i * b + lo + n"
    using q by (metis add_le_cancel_left add_less_cancel_left add.assoc)
  show "i * b + lo \<le> q \<Longrightarrow> q < i * b + lo + n \<Longrightarrow> q mod b - lo = q - (i * b + lo)" using dv q by (metis diff_diff_left diff_add_inverse)
qed

lemma file_byte_write:
  assumes g: "fs_good fs" "file_inv fs ci" and i: "i < fmax (epb fs)" "file_ptr fs ci i \<noteq> 0"
    and st: "fs_step {file_ptr fs ci i} {} fs fs'"
    and w: "fs_block fs' (file_ptr fs ci i) = patch lo x (fs_block fs (file_ptr fs ci i))"
    and b: "b = unat (ext2_get_block_size fs)" "lo + length x \<le> b" and q: "q < 4294967296"
  shows "file_byte fs' ci q = (if i * b + lo \<le> q \<and> q < i * b + lo + length x then x ! (q - (i * b + lo)) else file_byte fs ci q)"
proof -
  have b0: "0 < b" using good_sizes(1,2)[OF g(1)] b(1) by simp
  note R = div_mod_range[OF b0 b(2), where q = q and i = i]
  have fd: "fs_block fs (file_ptr fs ci i) = file_data fs ci i" using i(2) by (simp add: file_data_def block_or_zero_def)
  have l: "length (file_data fs ci i) = b" using length_file_data[OF g(1)] b(1) by simp
  have "file_byte fs' ci q = (if q div b = i then patch lo x (file_data fs ci i) else file_data fs ci (q div b)) ! (q mod b)"
    using file_data_write(4)[OF g i st w offset_in_reach[OF g(1) q]] b(1) by (simp add: file_byte_def fs_stepD(9)[OF st] fd)
  also have "\<dots> = (if q div b = i \<and> lo \<le> q mod b \<and> q mod b < lo + length x then x ! (q mod b - lo) else file_byte fs ci q)"
    using b l b0 nth_patch[of lo x "file_data fs ci i" "q mod b"] by (simp add: file_byte_def)
  finally show ?thesis unfolding R(1) using R(2) by simp
qed

lemma write_parts_step:
  fixes offset sz :: u32
  defines "p \<equiv> unat offset" and "n \<equiv> unat sz"
  assumes n: "sz \<noteq> 0" "p + n < 4294967296" and b: "b = unat (ext2_get_block_size fs)" and last: "e = (p + n - 1) div b"
    and i: "p div b \<le> i" "i \<le> Suc e" and c: "c = min n (i * b - p)"
    and g: "fs_good fs" "file_inv fs ci" "ci_lock ci" and d: "n \<le> length src" and cnt: "e < unat (ci_data_block_count ci)"
  shows "\<exists>fs'. write_parts ci offset sz (map of_nat [i..<Suc e]) (of_nat c) src fs = Some fs'
    \<and> fs_step (file_blocks fs ci) {} fs fs' \<and> file_inv fs' ci \<and> file_blocks fs' ci = file_blocks fs ci
    \<and> (\<forall>q < 4294967296. file_byte fs' ci q = (if p + c \<le> q \<and> q < p + n then src ! (q - p) else file_byte fs ci q))"
  using b i c g
proof (induction "Suc e - i" arbitrary: i c fs)
  case 0
  have "0 < n" "0 < b" using n(1) good_sizes(1,2)[OF 0(6)] by (auto simp: n_def 0(2) unat_gt_0)
  moreover have "i = Suc e" using 0 by simp
  ultimately have "c = n" using last_part[of n b p] by (simp add: 0(5) last)
  then show ?case using \<open>i = Suc e\<close> 0(7) fs_step_mono[OF fs_step_refl[OF 0(6)], of "file_blocks fs ci"] by auto
next
  case (Suc k)
  let ?bs = "ext2_get_block_size fs" and ?B = "file_blocks fs ci"
  have bs0: "?bs \<noteq> 0" using good_sizes(1,2)[OF Suc(7)] by auto
  have ie: "i \<le> (p + n - 1) div b" using Suc(2) last by simp
  note P = parts[OF bs0 n[unfolded p_def n_def] Suc(4)[unfolded p_def Suc(3)] ie[unfolded p_def n_def Suc(3)],
      folded p_def n_def Suc(3)]
  let ?po = "part_offset ?bs offset (of_nat i)" and ?ps = "part_size ?bs offset sz (of_nat i)"
  have im: "i < fmax (epb fs)" "i < unat (ci_data_block_count ci)" using ie cnt last file_invD(2)[OF Suc(8)] by auto
  have ptr: "file_ptr fs ci i \<noteq> 0" using file_ptr_props(1)[OF Suc(8) im(1)] im(2) by simp
  have pc: "p + c = i * b + unat ?po" using P(1) by (simp only: Suc(6))
  have c': "c + unat ?ps = min n (Suc i * b - p)" using P(2) by (simp only: Suc(6))
  then have cn: "c + unat ?ps \<le> n" by simp
  have c32: "unat (of_nat c :: u32) = c" using cn n(2) by (simp add: unat_of_nat)
  have lx: "unat ?ps \<le> length (drop c src)" using cn d by simp
  obtain fs1 where f: "node_write_block_locked ci (of_nat i) (drop c src) ?po ?ps fs = Some fs1" "fs_step {file_ptr fs ci i} {} fs fs1"
    "fs_block fs1 (file_ptr fs ci i) = patch (unat ?po) (take (unat ?ps) (drop c src)) (fs_block fs (file_ptr fs ci i))"
    using node_write_block_step[OF Suc(7,8) _ Suc(9), of "of_nat i" ?po ?ps "drop c src"] P(3,4) im(1) ptr lx Suc(3) by auto
  note S = fs_stepD[OF f(2)] and K = file_data_write(1,2)[OF Suc(7,8) im(1) ptr f(2,3)]
  have w: "file_byte fs1 ci q = (if p + c \<le> q \<and> q < p + c + unat ?ps then src ! (q - p) else file_byte fs ci q)" if "q < 4294967296" for q
    using file_byte_write[OF Suc(7,8) im(1) ptr f(2,3) Suc(3) _ that] P(3) lx unfolding pc[symmetric] by auto
  have k: "k = Suc e - Suc i" and ii: "p div b \<le> Suc i" "Suc i \<le> Suc e" using Suc(2,4) by auto
  from Suc(1)[OF k _ ii c' S(1) K(1) Suc(9)] obtain fs2 where h:
    "write_parts ci offset sz (map of_nat [Suc i..<Suc e]) (of_nat (c + unat ?ps)) src fs1 = Some fs2"
    "fs_step ?B {} fs1 fs2" "file_inv fs2 ci" "file_blocks fs2 ci = ?B"
    "\<forall>q < 4294967296. file_byte fs2 ci q = (if p + (c + unat ?ps) \<le> q \<and> q < p + n then src ! (q - p) else file_byte fs1 ci q)"
    by (auto simp: S(9) Suc(3) K(2))
  have "fs_step ?B {} fs fs2"
    using fs_step_trans[OF f(2) h(2)] file_ptr_props(3)[OF Suc(8) im(1) ptr] by (simp add: insert_absorb)
  moreover have "file_byte fs2 ci q = (if p + c \<le> q \<and> q < p + n then src ! (q - p) else file_byte fs ci q)" if "q < 4294967296" for q
    using h(5)[rule_format, OF that] w[OF that] cn by auto
  moreover have "[i..<Suc e] = i # [Suc i..<Suc e]" using ii(2) by (simp add: upt_conv_Cons del: upt_Suc)
  ultimately show ?case using f(1) h c32 by (simp add: Let_def del: upt_Suc)
qed

lemma write_all_parts:
  assumes n: "sz \<noteq> 0" "unat offset + unat sz < 4294967296" and g: "fs_good fs" "file_inv fs ci" "ci_lock ci" and d: "unat sz \<le> length src"
    and cnt: "unat ((offset + sz - 1) div ext2_get_block_size fs) < unat (ci_data_block_count ci)"
  shows "\<exists>fs'. write_parts ci offset sz (block_range (offset div ext2_get_block_size fs) ((offset + sz - 1) div ext2_get_block_size fs)) 0 src fs
      = Some fs' \<and> fs_step (file_blocks fs ci) {} fs fs' \<and> file_inv fs' ci \<and> file_blocks fs' ci = file_blocks fs ci
    \<and> (\<forall>q < 4294967296. file_byte fs' ci q =
          (if unat offset \<le> q \<and> q < unat offset + unat sz then src ! (q - unat offset) else file_byte fs ci q))"
proof -
  let ?b = "unat (ext2_get_block_size fs)" and ?p = "unat offset" and ?n = "unat sz"
  have "0 < ?n" using n(1) by (simp add: unat_gt_0)
  then have le: "?p div ?b \<le> Suc ((?p + ?n - 1) div ?b)" by (intro le_SucI div_le_mono) simp
  have c: "0 = min ?n (?p div ?b * ?b - ?p)" by simp
  have cnt': "(?p + ?n - 1) div ?b < unat (ci_data_block_count ci)" using cnt by (simp add: unat_div last_byte[OF n])
  show ?thesis
    using write_parts_step[OF n refl refl le_refl le c g d cnt']
    by (subst block_range_nat[of _ "?p div ?b" _ "(?p + ?n - 1) div ?b"]) (simp_all add: unat_div last_byte[OF n])
qed

lemma disk_inode_keeps:
  assumes g: "fs_good fs" and st: "fs_step W new fs fs'" and W: "W \<inter> itable_blocks fs = {}" and e: "inode_exists fs g l"
  shows "disk_inode fs' g l = disk_inode fs g l"
proof -
  note S = fs_stepD[OF st] and P = inode_place[OF g e refl] and H = same_shapeD[OF fs_stepD(2)[OF st]]
  have "inode_block_at fs g l \<notin> new" using S(3) fs_goodD(10)[OF g] P(5) by (auto simp: file_block_def)
  then have "fs_block fs' (inode_block_at fs g l) = fs_block fs (inode_block_at fs g l)" by (intro S(11)) (use P(4,5) W in auto)
  moreover have "inode_block_at fs' g l = inode_block_at fs g l" "inodes_per_block fs' = inodes_per_block fs"
    using S(2,9) H e by (simp_all add: inodes_per_block_def inode_block_at_def same_shape_def inode_exists_def)
  ultimately show ?thesis using H(11) by (simp add: disk_inode_def)
qed

lemma file_inv_cong:
  assumes "ci_data_block_count ci' = ci_data_block_count ci" "length (ci_inode ci') = length (ci_inode ci)"
    "\<And>k. k < 15 \<Longrightarrow> inode_block (ci_inode ci') k = inode_block (ci_inode ci) k"
  shows "file_inv fs ci' = file_inv fs ci" "file_blocks fs ci' = file_blocks fs ci" "file_nodes fs ci' = file_nodes fs ci"
    "j < fmax (epb fs) \<Longrightarrow> file_data fs ci' j = file_data fs ci j"
proof -
  show fb: "file_blocks fs ci' = file_blocks fs ci" "file_nodes fs ci' = file_nodes fs ci"
    using assms(3) by (simp_all add: file_blocks_def row_set_def file_nodes_def)
  show "file_inv fs ci' = file_inv fs ci" using assms fb(1) by (simp add: file_inv_def row_ok_def)
  show "j < fmax (epb fs) \<Longrightarrow> file_data fs ci' j = file_data fs ci j" using assms(3) fslot_range(1)[of j "epb fs"]
    by (simp add: file_data_def file_ptr_def)
qed

lemma file_byte_cong:
  assumes "fs_good fs" "q < 4294967296" "\<And>j. j < fmax (epb fs) \<Longrightarrow> file_data fs' ci' j = file_data fs ci j"
    "ext2_get_block_size fs' = ext2_get_block_size fs"
  shows "file_byte fs' ci' q = file_byte fs ci q"
  using assms(3)[OF offset_in_reach[OF assms(1,2)]] assms(4) by (simp add: file_byte_def)

text \<open>What a write leaves of everything else: other inodes and other files.\<close>

definition others_kept :: "ext2 \<Rightarrow> cached_inode \<Rightarrow> nat \<Rightarrow> nat \<Rightarrow> ext2 \<Rightarrow> cached_inode \<Rightarrow> bool" where
  "others_kept fs ci g l fs' ci' \<longleftrightarrow>
     (\<forall>g' l'. inode_exists fs g' l' \<and> (g', l') \<noteq> (g, l) \<longrightarrow> disk_inode fs' g' l' = disk_inode fs g' l')
     \<and> (\<forall>other. file_inv fs other \<and> file_blocks fs other \<inter> file_blocks fs ci = {} \<longrightarrow>
          file_inv fs' other \<and> file_blocks fs' other \<inter> file_blocks fs' ci' = {}
          \<and> (\<forall>q < 4294967296. file_byte fs' other q = file_byte fs other q))"

lemma others_kept_step:
  assumes g: "fs_good fs" and st: "fs_step (file_blocks fs ci \<union> itable_blocks fs) new fs fs'"
    and fb: "file_blocks fs' ci' = file_blocks fs ci \<union> new"
    and di: "\<And>g' l'. inode_exists fs g' l' \<Longrightarrow> (g', l') \<noteq> (g0, l0) \<Longrightarrow> disk_inode fs' g' l' = disk_inode fs g' l'"
  shows "others_kept fs ci g0 l0 fs' ci'"
proof -
  have "file_inv fs' ot \<and> file_blocks fs' ot \<inter> file_blocks fs' ci' = {} \<and> (\<forall>q < 4294967296. file_byte fs' ot q = file_byte fs ot q)"
    if o: "file_inv fs ot" "file_blocks fs ot \<inter> file_blocks fs ci = {}" for ot
  proof -
    have it: "file_blocks fs ot \<inter> itable_blocks fs = {}" using file_invD(3)[OF o(1)] by (auto simp: owned_def file_block_def)
    then have W: "file_blocks fs ot \<inter> (file_blocks fs ci \<union> itable_blocks fs) = {}" using o(2) by blast
    then have N: "file_nodes fs ot \<inter> (file_blocks fs ci \<union> itable_blocks fs) = {}" using file_nodes_subset[of fs ot] by blast
    have "file_blocks fs ot \<inter> new = {}" using owned_not_free[OF file_invD(3)[OF o(1)] g] fs_stepD(3)[OF st] by blast
    then show ?thesis using file_keeps(1,2)[OF g o(1) st N] file_byte_keeps[OF g o(1) st W] o(2) fb by auto
  qed
  then show ?thesis using di by (auto simp: others_kept_def)
qed

text \<open>The write-back of the inode of a file.\<close>

lemma sync_file:
  assumes g: "fs_good fs" "file_inv fs ci" and e: "inode_exists fs g l" "ci_inumber ci = inumber_at fs g l"
  shows "\<exists>fs'. node_sync_inode ci fs = Some fs' \<and> fs_step (itable_blocks fs) {} fs fs' \<and> file_inv fs' ci
    \<and> file_blocks fs' ci = file_blocks fs ci \<and> (\<forall>q < 4294967296. file_byte fs' ci q = file_byte fs ci q)
    \<and> (\<forall>g' l'. inode_exists fs g' l' \<longrightarrow> disk_inode fs' g' l' = (if g' = g \<and> l' = l then ci_inode ci else disk_inode fs g' l'))"
proof -
  obtain fs' where s: "node_sync_inode ci fs = Some fs'" "fs_step (itable_blocks fs) {} fs fs'"
    "\<forall>g' l'. inode_exists fs g' l' \<longrightarrow> disk_inode fs' g' l' = (if g' = g \<and> l' = l then ci_inode ci else disk_inode fs g' l')"
    using icache_set_step[OF g(1) e file_invD(1)[OF g(2)]] by (auto simp: node_sync_inode_def)
  have W: "file_blocks fs ci \<inter> itable_blocks fs = {}" using file_invD(3)[OF g(2)] by (auto simp: owned_def file_block_def)
  have N: "file_nodes fs ci \<inter> itable_blocks fs = {}" using W file_nodes_subset[of fs ci] by blast
  show ?thesis using s file_keeps(1,2)[OF g s(2) N] file_byte_keeps[OF g s(2) W] by blast
qed

text \<open>A write needs free blocks for the new blocks, each with its at most three pointer blocks.\<close>

definition write_room :: "ext2 \<Rightarrow> cached_inode \<Rightarrow> u32 \<Rightarrow> u32 \<Rightarrow> nat" where
  "write_room fs ci offset sz = 4 * (Suc ((unat offset + unat sz - 1) div unat (ext2_get_block_size fs)) - unat (ci_data_block_count ci))"

definition written :: "ext2 \<Rightarrow> cached_inode \<Rightarrow> nat \<Rightarrow> nat \<Rightarrow> u32 \<Rightarrow> u32 \<Rightarrow> bytes \<Rightarrow> ext2 \<Rightarrow> cached_inode \<Rightarrow> bool" where
  "written fs ci g l offset sz src fs' ci' \<longleftrightarrow> fs_good fs' \<and> file_inv fs' ci' \<and> \<not> ci_lock ci'
     \<and> (\<forall>q < 4294967296. file_byte fs' ci' q =
          (if unat offset \<le> q \<and> q < unat offset + unat sz then src ! (q - unat offset) else file_byte fs ci q))
     \<and> inode_size (ci_inode ci') = max (inode_size (ci_inode ci)) (offset + sz)
     \<and> inode_mode (ci_inode ci') = inode_mode (ci_inode ci) \<and> inode_links_count (ci_inode ci') = inode_links_count (ci_inode ci)
     \<and> disk_inode fs' g l = ci_inode ci' \<and> others_kept fs ci g l fs' ci'"

lemma file_cong_lock: "file_inv fs (ci\<lparr>ci_lock := b\<rparr>) = file_inv fs ci" "file_blocks fs (ci\<lparr>ci_lock := b\<rparr>) = file_blocks fs ci"
  "file_data fs (ci\<lparr>ci_lock := b\<rparr>) = file_data fs ci" "file_byte fs (ci\<lparr>ci_lock := b\<rparr>) = file_byte fs ci"
  by (auto simp: file_inv_def file_blocks_def file_byte_def file_data_def file_ptr_def fun_eq_iff)

text \<open>The stages of a write: growing, then the new size.\<close>

definition resized :: "u32 \<Rightarrow> cached_inode \<Rightarrow> cached_inode" where
  "resized end_offset ci = (if end_offset > inode_size (ci_inode ci) then ci\<lparr>ci_inode := set_inode_size end_offset (ci_inode ci)\<rparr> else ci)"

lemma resized_same:
  assumes "file_inv fs ci"
  shows "inode_size (ci_inode (resized z ci)) = max (inode_size (ci_inode ci)) z"
    "inode_mode (ci_inode (resized z ci)) = inode_mode (ci_inode ci)" "inode_links_count (ci_inode (resized z ci)) = inode_links_count (ci_inode ci)"
    "ci_lock (resized z ci) = ci_lock ci" "ci_inumber (resized z ci) = ci_inumber ci" "ci_data_block_count (resized z ci) = ci_data_block_count ci"
    "file_inv fs (resized z ci)" "file_blocks fs (resized z ci) = file_blocks fs ci" "j < fmax (epb fs) \<Longrightarrow> file_data fs (resized z ci) j = file_data fs ci j"
proof -
  have l: "length (ci_inode ci) = 128" using file_invD(1)[OF assms] .
  show "inode_size (ci_inode (resized z ci)) = max (inode_size (ci_inode ci)) z"
    "inode_mode (ci_inode (resized z ci)) = inode_mode (ci_inode ci)" "inode_links_count (ci_inode (resized z ci)) = inode_links_count (ci_inode ci)"
    "ci_lock (resized z ci) = ci_lock ci" "ci_inumber (resized z ci) = ci_inumber ci" "ci_data_block_count (resized z ci) = ci_data_block_count ci"
    using l by (auto simp: resized_def inode_fields max_def)
  note C = file_inv_cong[of "resized z ci" ci]
  show "file_inv fs (resized z ci)" "file_blocks fs (resized z ci) = file_blocks fs ci" "j < fmax (epb fs) \<Longrightarrow> file_data fs (resized z ci) j = file_data fs ci j"
    using C assms l by (auto simp: resized_def inode_fields)
qed

lemma node_write_all_step:
  assumes g: "fs_good fs" "file_inv fs ci" "\<not> ci_lock ci" "node_is_file ci"
    and e: "inode_exists fs g l" "ci_inumber ci = inumber_at fs g l"
    and n: "sz \<noteq> 0" "unat offset + unat sz < 4294967296" and src: "unat sz \<le> length src"
    and room: "write_room fs ci offset sz \<le> card (free_blocks fs)"
  shows "\<exists>ci' fs'. node_write_all ci offset sz src fs = Some (sz, ci', fs') \<and> written fs ci g l offset sz src fs' ci'"
proof -
  let ?bs = "ext2_get_block_size fs" and ?e = "(offset + sz - 1) div ext2_get_block_size fs" and ?ci = "ci\<lparr>ci_lock := True\<rparr>"
  have ue: "unat ?e = (unat offset + unat sz - 1) div unat ?bs" by (simp add: unat_div last_byte[OF n])
  have "unat offset + unat sz - 1 < 4294967296" using n(2) by simp
  then have em: "unat ?e < fmax (epb fs)" unfolding ue by (rule offset_in_reach[OF g(1)])
  have f: "file_inv fs ?ci" using g(2) by (simp add: file_cong_lock)
  from grow_blocks_step[OF g(1) f em] room obtain ci1 fs1 new where gr: "grow_blocks ?e ?ci fs = Some (ci1, fs1)"
    "extended fs ?ci fs1 ci1 new" "unat ?e < unat (ci_data_block_count ci1)" by (auto simp: write_room_def ue)
  have X: "fs_step (file_blocks fs ci) new fs fs1" "file_inv fs1 ci1" "file_blocks fs1 ci1 = file_blocks fs ci \<union> new"
    "\<And>j. j < fmax (epb fs) \<Longrightarrow> file_data fs1 ci1 j = file_data fs ci j"
    and x1: "ci1 = ?ci\<lparr>ci_inode := ci_inode ci1, ci_data_block_count := ci_data_block_count ci1\<rparr>" "inode_size (ci_inode ci1) = inode_size (ci_inode ci)"
      "inode_mode (ci_inode ci1) = inode_mode (ci_inode ci)" "inode_links_count (ci_inode ci1) = inode_links_count (ci_inode ci)"
    using gr(2) by (simp_all add: extended_def file_cong_lock)
  have l1: "ci_lock ci1" "ci_inumber ci1 = ci_inumber ci"
    using arg_cong[OF x1(1), of ci_lock] arg_cong[OF x1(1), of ci_inumber] by simp_all
  note S1 = fs_stepD[OF X(1)] and H1 = same_shapeD[OF fs_stepD(2)[OF X(1)]]
  have e1: "inode_exists fs1 g' l' = inode_exists fs g' l'" for g' l' using H1(4,7) by (simp add: inode_exists_def)
  let ?ci2 = "resized (offset + sz) ci1"
  note R = resized_same[OF X(2), where z = "offset + sz"]
  from sync_file[OF S1(1) R(7) e(1)[folded e1]] l1 e(2) obtain fs2 where sy: "node_sync_inode ?ci2 fs1 = Some fs2" "fs_step (itable_blocks fs) {} fs1 fs2"
    "file_inv fs2 ?ci2" "file_blocks fs2 ?ci2 = file_blocks fs ci \<union> new" "\<forall>q < 4294967296. file_byte fs2 ?ci2 q = file_byte fs1 ?ci2 q"
    "\<forall>g' l'. inode_exists fs g' l' \<longrightarrow> disk_inode fs2 g' l' = (if g' = g \<and> l' = l then ci_inode ?ci2 else disk_inode fs1 g' l')"
    by (auto simp: e1 R(5,8) X(3) H1(3,12))
  note S2 = fs_stepD[OF sy(2)]
  have bs: "ext2_get_block_size fs2 = ?bs" using S1(9) S2(9) by simp
  have "unat ((offset + sz - 1) div ext2_get_block_size fs2) < unat (ci_data_block_count ?ci2)" using gr(3) R(6) bs by simp
  from write_all_parts[OF n S2(1) sy(3) _ src this] l1(1) obtain fs3 where w:
    "write_parts ?ci2 offset sz (block_range (offset div ?bs) ?e) 0 src fs2 = Some fs3"
    "fs_step (file_blocks fs ci \<union> new) {} fs2 fs3" "file_inv fs3 ?ci2" "file_blocks fs3 ?ci2 = file_blocks fs ci \<union> new"
    "\<forall>q < 4294967296. file_byte fs3 ?ci2 q =
        (if unat offset \<le> q \<and> q < unat offset + unat sz then src ! (q - unat offset) else file_byte fs2 ?ci2 q)"
    by (auto simp: bs sy(4) R(4))
  have run: "node_write_all ci offset sz src fs = Some (sz, ?ci2\<lparr>ci_lock := False\<rparr>, fs3)"
    using n(1) g(3,4) gr(1) sy(1) w(1)
    by (simp add: node_write_all_def ci_lock_acquire_def ci_lock_release_def Let_def node_is_file_def resized_def[symmetric])
  have gone: "file_blocks fs ci \<inter> itable_blocks fs = {}" "new \<inter> itable_blocks fs = {}"
    using file_invD(3)[OF g(2)] S1(3) fs_goodD(10)[OF g(1)] by (auto simp: owned_def file_block_def)
  have d3: "disk_inode fs3 g' l' = (if g' = g \<and> l' = l then ci_inode ?ci2 else disk_inode fs g' l')" if ex: "inode_exists fs g' l'" for g' l'
  proof -
    have it: "itable_blocks fs2 = itable_blocks fs" "inode_exists fs2 g' l'"
      using same_shapeD[OF S2(2)] H1(12) ex e1 by (simp_all add: inode_exists_def)
    have "disk_inode fs3 g' l' = disk_inode fs2 g' l'" by (rule disk_inode_keeps[OF S2(1) w(2) _ it(2)]) (use it(1) gone in blast)
    moreover have "disk_inode fs1 g' l' = disk_inode fs g' l'" by (rule disk_inode_keeps[OF g(1) X(1) gone(1) ex])
    ultimately show ?thesis using sy(6) ex by simp
  qed
  have st: "fs_step (file_blocks fs ci \<union> itable_blocks fs) new fs fs3"
    by (rule fs_step_mono[OF fs_step_trans[OF fs_step_trans[OF X(1) sy(2)] w(2), simplified]]) auto
  have "others_kept fs ci g l fs3 (?ci2\<lparr>ci_lock := False\<rparr>)"
    by (rule others_kept_step[OF g(1) st]) (use w(4) d3 in \<open>auto simp: file_cong_lock\<close>)
  moreover have "file_byte fs2 ?ci2 q = file_byte fs ci q" if q: "q < 4294967296" for q
  proof -
    have "file_byte fs1 ?ci2 q = file_byte fs ci q"
      by (rule file_byte_cong[OF g(1) q]) (use R(9) X(4) S1(6,9) in auto)
    then show ?thesis using sy(5) q by simp
  qed
  ultimately show ?thesis using run w(3,5) d3[OF e(1)] R(1-3) x1 fs_stepD(1)[OF w(2)] by (auto simp: written_def file_cong_lock)
qed

lemma file_byte_lock: "file_bytes fs (ci\<lparr>ci_lock := b\<rparr>) = file_bytes fs ci"
  by (simp add: file_bytes_def file_cong_lock fun_eq_iff)

text \<open>Shrinking changes the size and nothing else.\<close>

lemma node_shrink_step:
  assumes g: "fs_good fs" "file_inv fs ci" "\<not> ci_lock ci" "node_is_file ci" and e: "inode_exists fs g l" "ci_inumber ci = inumber_at fs g l"
    and z: "new_size \<le> inode_size (ci_inode ci)"
  shows "\<exists>ci' fs'. node_shrink ci new_size fs = Some (True, ci', fs') \<and> ci' = ci\<lparr>ci_inode := set_inode_size new_size (ci_inode ci)\<rparr>
    \<and> fs_good fs' \<and> file_inv fs' ci' \<and> disk_inode fs' g l = ci_inode ci' \<and> free_blocks fs' = free_blocks fs
    \<and> (\<forall>q < 4294967296. file_byte fs' ci' q = file_byte fs ci q)"
proof -
  let ?i = "set_inode_size new_size (ci_inode ci)" and ?ci = "ci\<lparr>ci_lock := True, ci_inode := set_inode_size new_size (ci_inode ci)\<rparr>"
  have l: "length (ci_inode ci) = 128" by (rule file_invD(1)[OF g(2)])
  note C = file_inv_cong[of ?ci ci, simplified]
  have f: "file_inv fs ?ci" using C(1)[of fs] g(2) l by (simp add: inode_fields)
  have b: "file_byte fs ?ci q = file_byte fs ci q" if "q < 4294967296" for q
    by (rule file_byte_cong[OF g(1) that _ refl]) (use C(4)[of _ fs] l in \<open>simp add: inode_fields\<close>)
  from sync_file[OF g(1) f e(1)] e(2) obtain fs' where s: "node_sync_inode ?ci fs = Some fs'" "fs_step (itable_blocks fs) {} fs fs'" "file_inv fs' ?ci"
    "\<forall>q < 4294967296. file_byte fs' ?ci q = file_byte fs ?ci q" "disk_inode fs' g l = ?i" using e(1) by auto
  have eq: "?ci\<lparr>ci_lock := False\<rparr> = ci\<lparr>ci_inode := ?i\<rparr>" using g(3) by (cases ci) simp
  have "node_shrink ci new_size fs = Some (True, ci\<lparr>ci_inode := ?i\<rparr>, fs')"
    using g(3,4) z s(1) eq by (simp add: node_shrink_def ci_lock_acquire_def ci_lock_release_def Let_def)
  moreover have "file_inv fs' (ci\<lparr>ci_inode := ?i\<rparr>)" "file_byte fs' (ci\<lparr>ci_inode := ?i\<rparr>) = file_byte fs' ?ci"
    unfolding eq[symmetric] using s(3) by (simp_all only: file_cong_lock)
  ultimately show ?thesis using s b fs_stepD(1,4)[OF s(2)] by auto
qed


section \<open>Properties\<close>

text \<open>
  C29.: \<open>node_write_all\<close> on a regular file, with room on the drive: it returns the size, exactly the
  bytes of the range become those of the source, the file grows to the end of the range, the
  inode on the drive is the cached one, and no other inode and no other file changes.
\<close>

theorem node_write_all_exact:
  assumes "fs_good fs" "file_inv fs ci" "\<not> ci_lock ci" "node_is_file ci" "inode_exists fs g l" "ci_inumber ci = inumber_at fs g l"
    "sz \<noteq> 0" "unat offset + unat sz < 4294967296" "unat sz \<le> length src" "write_room fs ci offset sz \<le> card (free_blocks fs)"
  shows "\<exists>ci' fs'. node_write_all ci offset sz src fs = Some (sz, ci', fs') \<and> written fs ci g l offset sz src fs' ci'"
  using node_write_all_step[OF assms] .

text \<open>
  C31.: \<open>node_read_all\<close> delivers the bytes of the range up to the end of the file, returns their
  number, and changes neither the file nor what is on the drive.
\<close>

theorem node_read_all_exact:
  assumes "fs_good fs" "file_inv fs ci" "\<not> ci_lock ci" "unat sz \<le> length dest"
  shows "\<exists>fs'. node_read_all ci offset sz dest fs =
      Some (of_nat (readable ci offset sz), patch 0 (file_bytes fs ci (unat offset) (readable ci offset sz)) dest, ci, fs')
      \<and> readable ci offset sz = min (unat sz) (unat (inode_size (ci_inode ci)) - unat offset) \<and> fs_step {} {} fs fs'"
  using node_read_all_step[OF assms] by (simp add: readable_def)

text \<open>
  C30.: what \<open>node_write_all\<close> wrote, \<open>node_read_all\<close> reads back.
\<close>

theorem node_write_then_read:
  assumes "fs_good fs" "file_inv fs ci" "\<not> ci_lock ci" "node_is_file ci" "inode_exists fs g l" "ci_inumber ci = inumber_at fs g l"
    "sz \<noteq> 0" "unat offset + unat sz < 4294967296" "length src = unat sz" "write_room fs ci offset sz \<le> card (free_blocks fs)"
    "length dest = unat sz"
  shows "\<exists>ci' fs' fs''. node_write_all ci offset sz src fs = Some (sz, ci', fs')
    \<and> node_read_all ci' offset sz dest fs' = Some (sz, src, ci', fs'')"
proof -
  have "unat sz \<le> length src" using assms(9) by simp
  from node_write_all_step[OF assms(1-8) this assms(10)] obtain ci' fs' where
    w: "node_write_all ci offset sz src fs = Some (sz, ci', fs')" "written fs ci g l offset sz src fs' ci'" by blast
  have W: "fs_good fs'" "file_inv fs' ci'" "\<not> ci_lock ci'" "inode_size (ci_inode ci') = max (inode_size (ci_inode ci)) (offset + sz)"
    "\<And>q. unat offset \<le> q \<Longrightarrow> q < unat offset + unat sz \<Longrightarrow> file_byte fs' ci' q = src ! (q - unat offset)"
    using w(2) assms(8) by (auto simp: written_def)
  have "offset + sz \<le> inode_size (ci_inode ci')" by (simp add: W(4))
  then have "unat offset + unat sz \<le> unat (inode_size (ci_inode ci'))" using last_byte(2)[OF assms(7,8)] by (simp add: word_le_nat_alt)
  then have r: "readable ci' offset sz = unat sz" by (simp add: readable_def)
  have "file_bytes fs' ci' (unat offset) (unat sz) = src"
    using W(5) assms(9) by (intro nth_equalityI) (auto simp: file_bytes_def)
  then show ?thesis using w(1) node_read_all_step[OF W(1-3), of sz dest offset] assms(9,11) by (auto simp: r)
qed

end
