(* ===== verification/Ext2_Release.thy ===== *)
theory Ext2_Release
  imports Ext2_File
begin

text \<open>
  Releasing all blocks of a file and counting them: the two walks of \<open>kernel/ext.c\<close> over the
  whole block map.
\<close>

section \<open>Releasing blocks\<close>

text \<open>A step that gives the blocks \<open>del\<close> back and changes no data.\<close>

definition fs_back :: "u32 set \<Rightarrow> ext2 \<Rightarrow> ext2 \<Rightarrow> bool" where
  "fs_back del fs fs' \<longleftrightarrow> fs_good fs' \<and> same_shape fs fs' \<and> owned fs del \<and> free_blocks fs' = free_blocks fs \<union> del
     \<and> free_inumbers fs' = free_inumbers fs \<and> (\<forall>b. data_block fs b \<longrightarrow> fs_block fs' b = fs_block fs b)"

lemma fs_backD:
  assumes "fs_back del fs fs'"
  shows "fs_good fs'" "same_shape fs fs'" "owned fs del" "free_blocks fs' = free_blocks fs \<union> del" "free_inumbers fs' = free_inumbers fs"
    "\<And>b. data_block fs b \<Longrightarrow> fs_block fs' b = fs_block fs b" "epb fs' = epb fs" "data_block fs' = data_block fs" "file_block fs' = file_block fs"
    "\<And>b. data_block fs b \<Longrightarrow> ptrs fs' b = ptrs fs b"
  using assms same_shapeD[of fs fs'] same_shape_epb[of fs fs'] by (auto simp: fs_back_def ptrs_def)

lemma used_after_back:
  assumes "fs_good fs" "fs_back del fs fs'"
  shows "used_blocks fs' = used_blocks fs - del"
proof -
  have g: "geometry_ok fs" "geometry_ok fs'" using assms fs_goodD(8) by (auto simp: fs_back_def)
  show ?thesis unfolding used_blocks_alt[OF g(1)] used_blocks_alt[OF g(2)] same_shapeD[OF fs_backD(2)[OF assms(2)]] fs_backD(4)[OF assms(2)] by blast
qed

lemma owned_back: "fs_good fs \<Longrightarrow> fs_back del fs fs' \<Longrightarrow> owned fs X \<Longrightarrow> X \<inter> del = {} \<Longrightarrow> owned fs' X"
  using used_after_back[of fs del fs'] fs_backD(9)[of del fs fs'] by (auto simp: owned_def)

lemma fs_back_trans:
  assumes "fs_good fs" "fs_back del fs fs1" "fs_back del' fs1 fs2"
  shows "fs_back (del \<union> del') fs fs2"
  using fs_backD[OF assms(2)] fs_backD[OF assms(3)] same_shape_trans[of fs fs1 fs2] used_after_back[OF assms(1,2)]
  unfolding fs_back_def by (auto simp: owned_def)

lemma fs_back_refl: "fs_good fs \<Longrightarrow> fs_back {} fs fs"
  by (simp add: fs_back_def)

lemma fs_back_read:
  assumes "fs_good fs" "fs_step {} {} fs fs1" "fs_back del fs1 fs2"
  shows "fs_back del fs fs2"
  using fs_stepD[OF assms(2)] fs_backD[OF assms(3)] same_shape_trans[of fs fs1 fs2] used_after_step(1)[OF assms(1,2)]
  unfolding fs_back_def by (auto simp: owned_def)

lemma dealloc_block_back:
  assumes g: "fs_good fs" and o: "owned fs {b}" and b: "b \<noteq> 0"
  shows "\<exists>fs'. dealloc_block b fs = Some fs' \<and> fs_back {b} fs fs'"
proof -
  obtain fs' where d: "dealloc_block b fs = Some fs'" "fs_inv fs'" "same_shape fs fs'" "free_blocks fs' = insert b (free_blocks fs)"
    "free_inumbers fs' = free_inumbers fs" "keeps_data fs fs'" "fs_synced fs \<longrightarrow> fs_synced fs'"
    using dealloc_block_spec[OF fs_goodD(1)[OF g], of b] o by auto
  have "fs_good fs'" using d fs_goodD[OF g] b itable_ok_same[OF d(3)] same_shapeD(1)[OF d(3)] d(3)
    by (simp add: fs_good_def same_shape_def)
  then show ?thesis using d o by (auto simp: fs_back_def keeps_data_def)
qed

text \<open>A loop that releases trees that do not overlap.\<close>

lemma free_each_back:
  assumes rel: "\<forall>p \<in> set ps. \<forall>D fs1. p \<noteq> 0 \<longrightarrow> fs_back D fs fs1 \<longrightarrow> D \<inter> T p = {} \<longrightarrow>
      (\<exists>fs2. release p fs1 = Some fs2 \<and> fs_back (T p) fs1 fs2)"
    and T0: "T 0 = {}" and g: "fs_good fs"
  shows "sorted_wrt (\<lambda>p q. T p \<inter> T q = {}) ps \<Longrightarrow> fs_back D fs fs1 \<Longrightarrow> (\<forall>p \<in> set ps. D \<inter> T p = {}) \<Longrightarrow>
    \<exists>fs2. free_each release ps fs1 = Some fs2 \<and> fs_back (\<Union>p \<in> set ps. T p) fs1 fs2"
  using rel
proof (induction ps arbitrary: D fs1)
  case Nil
  then show ?case using fs_back_refl[OF fs_backD(1)[OF Nil(2)]] by simp
next
  case (Cons p ps)
  have rel: "\<forall>p \<in> set ps. \<forall>D fs1. p \<noteq> 0 \<longrightarrow> fs_back D fs fs1 \<longrightarrow> D \<inter> T p = {} \<longrightarrow>
      (\<exists>fs2. release p fs1 = Some fs2 \<and> fs_back (T p) fs1 fs2)" using Cons(5) by simp
  have ds: "sorted_wrt (\<lambda>p q. T p \<inter> T q = {}) ps" "\<forall>q \<in> set ps. T p \<inter> T q = {}" using Cons(2) by auto
  show ?case
  proof (cases "p = 0")
    case True
    then show ?thesis using Cons(1)[OF ds(1) Cons(3) _ rel] Cons(4) T0 by simp
  next
    case False
    then obtain fs2 where f: "release p fs1 = Some fs2" "fs_back (T p) fs1 fs2" using Cons(5)[rule_format, of p D fs1] Cons(3,4) by auto
    have "fs_back (D \<union> T p) fs fs2" by (rule fs_back_trans[OF g Cons(3) f(2)])
    moreover have "\<forall>q \<in> set ps. (D \<union> T p) \<inter> T q = {}" using Cons(4) ds(2) by (simp add: Int_Un_distrib2)
    ultimately obtain fs3 where h: "free_each release ps fs2 = Some fs3" "fs_back (\<Union>p \<in> set ps. T p) fs2 fs3"
      using Cons(1)[OF ds(1) _ _ rel] by blast
    then show ?thesis using f False fs_back_trans[OF fs_backD(1)[OF Cons(3)] f(2) h(2)] by auto
  qed
qed

declare ext2_free_indirect_tree.simps [simp del]

lemma tree_back:
  assumes "fs_back D fs fs'" "owned fs (tree_set e (ptrs fs) d b)"
  shows "tree_set e (ptrs fs') d b = tree_set e (ptrs fs) d b" "tree_ok e (ptrs fs') d b n = tree_ok e (ptrs fs) d b n"
proof -
  have "ptrs fs' x = ptrs fs x" if "x \<in> tree_set e (ptrs fs) d b" for x
    using fs_backD(10)[OF assms(1), of x] that assms(2) by (auto simp: owned_def file_block_def)
  note A = tree_agree[of e "ptrs fs" d b "ptrs fs'", OF this]
  show "tree_set e (ptrs fs') d b = tree_set e (ptrs fs) d b" "tree_ok e (ptrs fs') d b n = tree_ok e (ptrs fs) d b n" using A by auto
qed

lemma kids_disjoint:
  assumes "tree_ok e m (Suc d) b n" "b \<noteq> 0"
  shows "sorted_wrt (\<lambda>p q. tree_set e m d p \<inter> tree_set e m d q = {}) (m b)"
    "tree_set e m (Suc d) b = (\<Union>p \<in> set (m b). tree_set e m d p) \<union> {b}" "b \<notin> (\<Union>p \<in> set (m b). tree_set e m d p)"
proof -
  have l: "length (m b) = e" using assms by (simp add: tree_ok.simps)
  show "sorted_wrt (\<lambda>p q. tree_set e m d p \<inter> tree_set e m d q = {}) (m b)"
    using assms l by (auto simp: tree_ok.simps sorted_wrt_iff_nth_less)
  have U: "(\<Union>p \<in> set (m b). tree_set e m d p) = (\<Union>k < e. tree_set e m d (m b ! k))" using l by (force simp: in_set_conv_nth)
  show "tree_set e m (Suc d) b = (\<Union>p \<in> set (m b). tree_set e m d p) \<union> {b}" unfolding U using assms(2) by (simp add: tree_set.simps)
  show "b \<notin> (\<Union>p \<in> set (m b). tree_set e m d p)" unfolding U using assms by (simp add: tree_ok.simps)
qed

lemma kid_ok: "tree_ok e m (Suc d) b n \<Longrightarrow> b \<noteq> 0 \<Longrightarrow> p \<in> set (m b) \<Longrightarrow> \<exists>n. tree_ok e m d p n"
  by (auto simp: tree_ok.simps in_set_conv_nth)

text \<open>One level: the children, then the pointer block itself.\<close>

lemma free_level:
  assumes g: "fs_good fs" and own: "owned fs (tree_set (epb fs) (ptrs fs) (Suc d) b)"
    and ok: "tree_ok (epb fs) (ptrs fs) (Suc d) b n" and b: "b \<noteq> 0"
    and rel: "\<And>p n fs'. p \<noteq> 0 \<Longrightarrow> fs_good fs' \<Longrightarrow> epb fs' = epb fs \<Longrightarrow> owned fs' (tree_set (epb fs) (ptrs fs') d p) \<Longrightarrow>
        tree_ok (epb fs) (ptrs fs') d p n \<Longrightarrow> \<exists>fs2. release p fs' = Some fs2 \<and> fs_back (tree_set (epb fs) (ptrs fs') d p) fs' fs2"
  shows "\<exists>fs'. do { (pointers, fs) \<leftarrow> read_pointers b fs; fs \<leftarrow> free_each release pointers fs; dealloc_block b fs } = Some fs'
    \<and> fs_back (tree_set (epb fs) (ptrs fs) (Suc d) b) fs fs'"
proof -
  let ?e = "epb fs" and ?m = "ptrs fs" and ?T = "tree_set (epb fs) (ptrs fs) d"
  note K = kids_disjoint[OF ok b]
  have ob: "owned fs {b}" using own unfolding K(2) by simp
  obtain fs1 where r: "read_pointers b fs = Some (?m b, fs1)" "fs_step {} {} fs fs1" using read_pointers_step[OF g, of b] ob by auto
  note S = fs_stepD[OF r(2)]
  have rel': "\<exists>fs3. release p fs2 = Some fs3 \<and> fs_back (?T p) fs2 fs3"
    if p: "p \<in> set (?m b)" "p \<noteq> 0" and D: "fs_back D fs1 fs2" "D \<inter> ?T p = {}" for p D fs2
  proof -
    have o: "owned fs (?T p)" using own p(1) unfolding K(2) by (auto simp: owned_def)
    then have o1: "owned fs1 (tree_set ?e (ptrs fs1) d p)" "tree_set ?e (ptrs fs1) d p = ?T p" "tree_ok ?e (ptrs fs1) d p n' = tree_ok ?e ?m d p n'" for n'
      using owned_step[OF o g r(2)] tree_same_step[OF g r(2) o] by simp_all
    have o2: "owned fs2 (?T p)" using owned_back[OF S(1) D(1), of "?T p"] o1(1,2) D(2) by auto
    obtain n' where "tree_ok ?e ?m d p n'" using kid_ok[OF ok b p(1)] by blast
    then show ?thesis
      using rel[OF p(2) fs_backD(1)[OF D(1)], of n'] tree_back[OF D(1) o1(1)] o1(2,3) o2 fs_backD(7)[OF D(1)] S(6) by simp
  qed
  obtain fs2 where f: "free_each release (?m b) fs1 = Some fs2" "fs_back (\<Union>p \<in> set (?m b). ?T p) fs1 fs2"
    using free_each_back[of "?m b" fs1 ?T release, OF _ _ S(1) K(1) fs_back_refl[OF S(1)]] rel' by auto
  have "owned fs2 {b}" using owned_back[OF S(1) f(2) owned_step[OF ob g r(2)]] K(3) by simp
  from dealloc_block_back[OF fs_backD(1)[OF f(2)] this b] obtain fs3 where d: "dealloc_block b fs2 = Some fs3" "fs_back {b} fs2 fs3" by blast
  have "fs_back (tree_set ?e ?m (Suc d) b) fs fs3"
    unfolding K(2) by (rule fs_back_read[OF g r(2) fs_back_trans[OF S(1) f(2) d(2)]])
  then show ?thesis using r(1) f(1) d(1) by simp
qed

lemma free_tree_back:
  "d < 3 \<Longrightarrow> fs_good fs \<Longrightarrow> owned fs (tree_set (epb fs) (ptrs fs) (Suc d) b) \<Longrightarrow> tree_ok (epb fs) (ptrs fs) (Suc d) b n \<Longrightarrow> b \<noteq> 0 \<Longrightarrow>
   \<exists>fs'. ext2_free_indirect_tree b (Suc d) fs = Some fs' \<and> fs_back (tree_set (epb fs) (ptrs fs) (Suc d) b) fs fs'"
proof (induction d arbitrary: b fs n)
  case 0
  have "\<exists>fs2. dealloc_block p fs' = Some fs2 \<and> fs_back (tree_set (epb fs) (ptrs fs') 0 p) fs' fs2"
    if "p \<noteq> 0" "fs_good fs'" "owned fs' (tree_set (epb fs) (ptrs fs') 0 p)" for p fs'
    using dealloc_block_back[OF that(2), of p] that by simp
  from free_level[OF 0(2-5), of dealloc_block] this 0(5) show ?case by (subst ext2_free_indirect_tree.simps) simp
next
  case (Suc d)
  have "\<exists>fs2. ext2_free_indirect_tree p (Suc d) fs' = Some fs2 \<and> fs_back (tree_set (epb fs) (ptrs fs') (Suc d) p) fs' fs2"
    if "p \<noteq> 0" "fs_good fs'" "epb fs' = epb fs" "owned fs' (tree_set (epb fs) (ptrs fs') (Suc d) p)" "tree_ok (epb fs) (ptrs fs') (Suc d) p n" for p n fs'
    using Suc(1)[of fs' p n] Suc(2) that by simp
  then have "\<exists>fs'. do { (pointers, fs) \<leftarrow> read_pointers b fs; fs \<leftarrow> free_each (\<lambda>p. ext2_free_indirect_tree p (Suc d)) pointers fs; dealloc_block b fs }
      = Some fs' \<and> fs_back (tree_set (epb fs) (ptrs fs) (Suc (Suc d)) b) fs fs'"
    by (rule free_level[OF Suc(3-6)])
  then show ?case using Suc(2,6) by (subst ext2_free_indirect_tree.simps) simp
qed

text \<open>The fifteen trees of a file, one after the other.\<close>

lemma slots_disjoint:
  assumes "file_inv fs ci" "i < 15" "j < 15" "i \<noteq> j"
  shows "tree_set (epb fs) (ptrs fs) (fdep i) (inode_block (ci_inode ci) i) \<inter> tree_set (epb fs) (ptrs fs) (fdep j) (inode_block (ci_inode ci) j) = {}"
  using file_invD(4)[OF assms(1)] assms(2-4) by (simp add: row_ok_def)

lemma slots_back:
  assumes g: "fs_good fs" and f: "file_inv fs ci" and k: "k \<le> 12"
  shows "\<exists>fs'. free_each dealloc_block (map (inode_block (ci_inode ci)) [0..<k]) fs = Some fs'
    \<and> fs_back (\<Union>j < k. tree_set (epb fs) (ptrs fs) (fdep j) (inode_block (ci_inode ci) j)) fs fs'"
proof -
  let ?b = "inode_block (ci_inode ci)"
  define T where "T = (\<lambda>p :: u32. if p = 0 then {} else {p})"
  have T0: "T 0 = {}" and T1: "p \<noteq> 0 \<Longrightarrow> T p = {p}" for p by (simp_all add: T_def)
  have TT: "tree_set (epb fs) (ptrs fs) (fdep j) (?b j) = T (?b j)" if "j < 12" for j using that by (simp add: fdep_def T_def)
  have row: "T (?b i) \<inter> T (?b j) = {}" if "i < j" "j < 12" for i j
    using slots_disjoint[OF f, of i j] TT[of i] TT[of j] that by simp
  have own: "owned fs {?b j}" if "j < 12" "?b j \<noteq> 0" for j
    using file_slot_owned[OF f, of j] TT[of j] that T1 by simp
  have rel: "\<exists>fs2. dealloc_block p fs1 = Some fs2 \<and> fs_back (T p) fs1 fs2"
    if "p \<in> set (map ?b [0..<k])" "p \<noteq> 0" "fs_back D fs fs1" "D \<inter> T p = {}" for p D fs1
  proof -
    have "owned fs {p}" using that(1,2) own k by auto
    then have "owned fs1 {p}" by (rule owned_back[OF g that(3)]) (use T1 that(2,4) in auto)
    then show ?thesis using dealloc_block_back[OF fs_backD(1)[OF that(3)]] that(2) T1 by simp
  qed
  have "sorted_wrt (\<lambda>p q. T p \<inter> T q = {}) (map ?b [0..<k])"
    unfolding sorted_wrt_iff_nth_less
  proof (intro allI impI)
    fix i j assume "i < j" "j < length (map ?b [0..<k])"
    then show "T (map ?b [0..<k] ! i) \<inter> T (map ?b [0..<k] ! j) = {}" using row[of i j] k by simp
  qed
  then obtain fs' where "free_each dealloc_block (map ?b [0..<k]) fs = Some fs'" "fs_back (\<Union>p \<in> set (map ?b [0..<k]). T p) fs fs'"
    using free_each_back[of "map ?b [0..<k]" fs T dealloc_block, OF _ T0 g _ fs_back_refl[OF g]] rel by blast
  moreover have "(\<Union>p \<in> set (map ?b [0..<k]). T p) = (\<Union>j < k. tree_set (epb fs) (ptrs fs) (fdep j) (?b j))"
    using TT k by (force simp: set_map)
  ultimately show ?thesis by metis
qed

lemma tier_back:
  assumes g: "fs_good fs" and f: "file_inv fs ci" and k: "12 \<le> k" "k < 15"
    and D: "fs_back (\<Union>j < k. tree_set (epb fs) (ptrs fs) (fdep j) (inode_block (ci_inode ci) j)) fs fs1"
  shows "\<exists>fs2. (if inode_block (ci_inode ci) k \<noteq> 0 then ext2_free_indirect_tree (inode_block (ci_inode ci) k) (k - 11) fs1 else Some fs1) = Some fs2
    \<and> fs_back (\<Union>j < Suc k. tree_set (epb fs) (ptrs fs) (fdep j) (inode_block (ci_inode ci) j)) fs fs2"
proof -
  let ?b = "inode_block (ci_inode ci)" and ?T = "\<lambda>j. tree_set (epb fs) (ptrs fs) (fdep j) (inode_block (ci_inode ci) j)"
  have dep: "fdep k = Suc (k - 12)" "k - 11 = Suc (k - 12)" using k by (auto simp: fdep_def)
  have "?T k \<inter> ?T j = {}" if "j < k" for j using slots_disjoint[OF f k(2), of j] that k(2) by simp
  then have ap: "?T k \<inter> (\<Union>j < k. ?T j) = {}" by blast
  have o: "owned fs (?T k)" by (rule file_slot_owned[OF f k(2)])
  have ok: "tree_ok (epb fs) (ptrs fs) (fdep k) (?b k) (min (epb fs ^ fdep k) (unat (ci_data_block_count ci) - fbase (epb fs) k))"
    using file_invD(4)[OF f] k(2) by (simp add: row_ok_def)
  note B = tree_back[OF D o]
  have U: "(\<Union>j < Suc k. ?T j) = (\<Union>j < k. ?T j) \<union> ?T k" by (auto simp: lessThan_Suc)
  show ?thesis
  proof (cases "?b k = 0")
    case True
    then show ?thesis using D unfolding U by simp
  next
    case False
    have e: "epb fs1 = epb fs" by (rule fs_backD(7)[OF D])
    have "owned fs1 (?T k)" by (rule owned_back[OF g D o ap])
    then have o1: "owned fs1 (tree_set (epb fs1) (ptrs fs1) (Suc (k - 12)) (?b k))" unfolding e dep(1)[symmetric] B(1) .
    have ok1: "tree_ok (epb fs1) (ptrs fs1) (Suc (k - 12)) (?b k) (min (epb fs ^ fdep k) (unat (ci_data_block_count ci) - fbase (epb fs) k))"
      unfolding e dep(1)[symmetric] B(2) by (fact ok)
    have k3: "k - 12 < 3" using k by simp
    from free_tree_back[OF k3 fs_backD(1)[OF D] o1 ok1 False] obtain fs2
      where "ext2_free_indirect_tree (?b k) (k - 11) fs1 = Some fs2" "fs_back (?T k) fs1 fs2"
      unfolding e dep(1)[symmetric] B(1) unfolding dep by blast
    then show ?thesis using fs_back_trans[OF g D] False unfolding U by auto
  qed
qed

text \<open>An inode without blocks.\<close>

lemma cleared_blocks:
  assumes "length i = 128"
  shows "length (set_inode_size 0 (set_inode_blocks 0 (patch 40 (replicate 60 0) i))) = 128"
    "k < 15 \<Longrightarrow> inode_block (set_inode_size 0 (set_inode_blocks 0 (patch 40 (replicate 60 0) i))) k = 0"
proof -
  have l: "length (patch 40 (replicate 60 0) i) = 128" using assms by simp
  then show "length (set_inode_size 0 (set_inode_blocks 0 (patch 40 (replicate 60 0) i))) = 128" by (simp add: inode_fields)
  assume k: "k < 15"
  then have "chunk (40 + 4 * k) 4 (patch 40 (replicate 60 0) i) = replicate 4 0"
    using assms by (intro nth_equalityI) (auto simp: nth_patch)
  then have "inode_block (patch 40 (replicate 60 0) i) k = 0" by (simp add: inode_block_def get32_def dec32_def numeral_eq_Suc)
  then show "inode_block (set_inode_size 0 (set_inode_blocks 0 (patch 40 (replicate 60 0) i))) k = 0" using l k by (simp add: inode_fields)
qed

lemma empty_file:
  assumes "length (ci_inode ci) = 128" "\<And>k. k < 15 \<Longrightarrow> inode_block (ci_inode ci) k = 0" "ci_data_block_count ci = 0"
  shows "file_inv fs ci" "file_blocks fs ci = {}"
proof -
  show fb: "file_blocks fs ci = {}" unfolding file_blocks_def by (rule row_set_zero) (fact assms(2))
  have "row_ok 15 fdep (fbase (epb fs)) (epb fs) (ptrs fs) (inode_block (ci_inode ci)) 0" by (rule row_ok_zero) (fact assms(2))
  then show "file_inv fs ci" using assms(1,3) fb by (simp add: file_inv_def)
qed

text \<open>
  C32. \<open>node_dealloc_blocks\<close> gives back exactly the blocks of the file, data and pointer blocks
  alike, each once; it leaves the contents of every block alone and the inode empty.
\<close>

theorem node_dealloc_blocks_exact:
  assumes "fs_good fs" "file_inv fs ci" "\<not> fast_symlink ci"
  shows "\<exists>ci' fs'. node_dealloc_blocks ci fs = Some (ci', fs') \<and> fs_good fs' \<and> same_shape fs fs'
    \<and> free_blocks fs' = free_blocks fs \<union> file_blocks fs ci \<and> free_blocks fs \<inter> file_blocks fs ci = {}
    \<and> (\<forall>b. data_block fs b \<longrightarrow> fs_block fs' b = fs_block fs b)
    \<and> file_inv fs' ci' \<and> file_blocks fs' ci' = {} \<and> inode_size (ci_inode ci') = 0 \<and> inode_blocks (ci_inode ci') = 0"
proof -
  let ?b = "inode_block (ci_inode ci)"
  obtain fs1 where a: "free_each dealloc_block (map ?b [0..<12]) fs = Some fs1"
    "fs_back (\<Union>j < 12. tree_set (epb fs) (ptrs fs) (fdep j) (?b j)) fs fs1" using slots_back[OF assms(1,2), of 12] by auto
  note T = tier_back[OF assms(1,2)]
  obtain fs2 where b: "(if ?b 12 \<noteq> 0 then ext2_free_indirect_tree (?b 12) 1 fs1 else Some fs1) = Some fs2"
    "fs_back (\<Union>j < 13. tree_set (epb fs) (ptrs fs) (fdep j) (?b j)) fs fs2" using T[OF _ _ a(2)] by (auto cong: if_cong)
  obtain fs3 where c: "(if ?b 13 \<noteq> 0 then ext2_free_indirect_tree (?b 13) 2 fs2 else Some fs2) = Some fs3"
    "fs_back (\<Union>j < 14. tree_set (epb fs) (ptrs fs) (fdep j) (?b j)) fs fs3" using T[OF _ _ b(2)] by (auto cong: if_cong)
  obtain fs4 where d: "(if ?b 14 \<noteq> 0 then ext2_free_indirect_tree (?b 14) 3 fs3 else Some fs3) = Some fs4"
    "fs_back (\<Union>j < 15. tree_set (epb fs) (ptrs fs) (fdep j) (?b j)) fs fs4" using T[OF _ _ c(2)] by (auto cong: if_cong)
  have B: "fs_back (file_blocks fs ci) fs fs4" using d(2) by (simp add: file_blocks_def row_set_def)
  let ?i = "set_inode_size 0 (set_inode_blocks 0 (patch 40 (replicate 60 0) (ci_inode ci)))"
  let ?ci = "ci\<lparr>ci_inode := ?i, ci_data_block_count := 0\<rparr>"
  have l: "length (ci_inode ci) = 128" by (rule file_invD(1)[OF assms(2)])
  have "node_dealloc_blocks ci fs = Some (?ci, fs4)"
    using assms(3) a(1) b(1) c(1) d(1) by (simp add: node_dealloc_blocks_def Let_def)
  moreover have "file_inv fs4 ?ci" "file_blocks fs4 ?ci = {}" using empty_file[of ?ci] cleared_blocks[OF l] by auto
  moreover have "inode_size ?i = 0" "inode_blocks ?i = 0" using l by (simp_all add: inode_fields)
  ultimately show ?thesis using fs_backD[OF B] owned_not_free[OF file_invD(3)[OF assms(2)] assms(1)] by auto
qed


section \<open>Counting blocks\<close>

text \<open>A block of which the first \<open>k\<close> entries are in use.\<close>

declare count_entries.simps [simp del]

lemma count_entries_packed:
  assumes "\<And>j. j < unat n \<Longrightarrow> ps ! j = 0 \<longleftrightarrow> k \<le> j" "k \<le> unat n" "unat c \<le> k"
  shows "count_entries ps n c = of_nat k"
  using assms(3)
proof (induction "k - unat c" arbitrary: c)
  case 0
  then have "unat c = k" by simp
  then have "\<not> (c < n \<and> ps ! unat c \<noteq> 0)" using assms(1)[of k] by (auto simp: word_less_nat_alt)
  moreover have "c = of_nat k" using \<open>unat c = k\<close> by auto
  ultimately show ?case by (subst count_entries.simps) auto
next
  case (Suc m)
  then have lt: "unat c < k" by simp
  then have c: "c < n" "ps ! unat c \<noteq> 0" using assms(1)[of "unat c"] assms(2) by (auto simp: word_less_nat_alt)
  then have "count_entries ps n (c + 1) = of_nat k" using Suc(1)[of "c + 1"] Suc(2) lt word_Suc_less[OF c(1)] by simp
  then show ?case using c by (subst count_entries.simps) simp
qed

lemma scan_single:
  assumes g: "fs_good fs" and b: "b \<noteq> 0" and own: "owned fs (tree_set (epb fs) (ptrs fs) 1 b)" and ok: "tree_ok (epb fs) (ptrs fs) 1 b n"
  shows "\<exists>fs'. read_pointers b fs = Some (ptrs fs b, fs') \<and> fs_step {} {} fs fs'
    \<and> ext2_count_indirect_entries (ptrs fs b) (entries_per_block fs) = of_nat n \<and> n \<le> epb fs"
proof -
  have fb: "file_block fs b" using own b root_in_tree[OF b] by (auto simp: owned_def)
  obtain fs' where r: "read_pointers b fs = Some (ptrs fs b, fs')" "fs_step {} {} fs fs'" using read_pointers_step[OF g fb] by blast
  have n: "n \<le> epb fs" using tree_ok_le[OF ok] by simp
  have "ptrs fs b ! j = 0 \<longleftrightarrow> n \<le> j" if "j < epb fs" for j
    using leaf_beyond[OF ok, of j] that b by (simp add: leaf.simps)
  then have "ext2_count_indirect_entries (ptrs fs b) (entries_per_block fs) = of_nat n"
    unfolding ext2_count_indirect_entries_def by (intro count_entries_packed) (use n in \<open>auto simp: epb_def\<close>)
  then show ?thesis using r n by blast
qed

text \<open>A row of trees of one depth, of which the first \<open>n\<close> leaves are in use.\<close>

definition row_packed :: "ext2 \<Rightarrow> nat \<Rightarrow> u32 list \<Rightarrow> nat \<Rightarrow> bool" where
  "row_packed fs d ps n \<longleftrightarrow> (\<forall>k < length ps. owned fs (tree_set (epb fs) (ptrs fs) d (ps ! k))
     \<and> tree_ok (epb fs) (ptrs fs) d (ps ! k) (min (epb fs ^ d) (n - k * epb fs ^ d)))"

lemma row_packed_Cons:
  "row_packed fs d (p # ps) n \<longleftrightarrow> owned fs (tree_set (epb fs) (ptrs fs) d p) \<and> tree_ok (epb fs) (ptrs fs) d p (min (epb fs ^ d) n)
     \<and> row_packed fs d ps (n - epb fs ^ d)"
  by (auto simp: row_packed_def nth_Cons' less_Suc_eq_0_disj)

lemma row_packed_step:
  assumes "fs_good fs" "fs_step {} {} fs fs'" "row_packed fs d ps n"
  shows "row_packed fs' d ps n"
  using assms(3) tree_same_step[OF assms(1,2)] owned_step[OF _ assms(1,2)] fs_stepD(6)[OF assms(2)]
  by (auto simp: row_packed_def)

lemma row_packed_kids:
  assumes "tree_ok (epb fs) (ptrs fs) (Suc d) b n" "owned fs (tree_set (epb fs) (ptrs fs) (Suc d) b)" "b \<noteq> 0"
  shows "row_packed fs d (ptrs fs b) n"
  using assms by (auto simp: row_packed_def tree_ok.simps tree_set.simps owned_def)

lemma of_nat_less_entries:
  assumes "fs_good fs" "k \<le> epb fs"
  shows "(of_nat k :: u32) < entries_per_block fs \<longleftrightarrow> k < epb fs"
proof -
  have "k < 4294967296" using assms good_sizes(3)[OF assms(1)] by simp
  then show ?thesis by (simp add: word_less_nat_alt unat_of_nat epb_def)
qed

lemma count_next: "e \<le> n \<Longrightarrow> (of_nat e :: u32) + of_nat (min (n - e) l) = of_nat (min n (e + l))"
proof -
  assume "e \<le> n"
  then have "e + min (n - e) l = min n (e + l)" by auto
  then show ?thesis by (metis of_nat_add)
qed

lemma scan_leaves_packed:
  "fs_good fs \<Longrightarrow> row_packed fs 1 ps n \<Longrightarrow>
   \<exists>fs'. scan_leaves (entries_per_block fs) ps c fs = Some (n < length ps * epb fs, c + of_nat (min n (length ps * epb fs)), fs')
     \<and> fs_step {} {} fs fs'"
proof (induction ps arbitrary: n c fs)
  case Nil
  then show ?case using fs_step_refl by simp
next
  case (Cons p ps)
  let ?e = "epb fs"
  have e0: "0 < ?e" using good_sizes(2)[OF Cons(2)] by simp
  have P: "owned fs (tree_set ?e (ptrs fs) 1 p)" "tree_ok ?e (ptrs fs) 1 p (min ?e n)" "row_packed fs 1 ps (n - ?e)"
    using Cons(3) by (auto simp: row_packed_Cons)
  show ?case
  proof (cases "p = 0")
    case True
    then have "n = 0" using P(2) e0 by simp
    then show ?thesis using True e0 fs_step_refl[OF Cons(2)] by simp
  next
    case False
    from scan_single[OF Cons(2) False P(1,2)] obtain fs1 where r: "read_pointers p fs = Some (ptrs fs p, fs1)" "fs_step {} {} fs fs1"
      "ext2_count_indirect_entries (ptrs fs p) (entries_per_block fs) = of_nat (min ?e n)" by blast
    note S = fs_stepD[OF r(2)]
    have lt: "(of_nat (min ?e n) :: u32) < entries_per_block fs \<longleftrightarrow> n < ?e" using of_nat_less_entries[OF Cons(2), of "min ?e n"] by auto
    show ?thesis
    proof (cases "n < ?e")
      case True
      then show ?thesis using False r lt by (simp add: Let_def min_def)
    next
      case ne: False
      obtain fs2 where d: "scan_leaves (entries_per_block fs) ps (c + of_nat ?e) fs1 =
          Some (n - ?e < length ps * ?e, c + of_nat ?e + of_nat (min (n - ?e) (length ps * ?e)), fs2)" "fs_step {} {} fs1 fs2"
        using Cons(1)[OF S(1) row_packed_step[OF Cons(2) r(2) P(3)], of "c + of_nat ?e"] by (auto simp: S)
      have "(of_nat ?e :: u32) + of_nat (min (n - ?e) (length ps * ?e)) = of_nat (min n (?e + length ps * ?e))"
        using ne by (intro count_next) simp
      moreover have "n - ?e < length ps * ?e \<longleftrightarrow> n < ?e + length ps * ?e" using ne by auto
      ultimately show ?thesis using False r lt ne d fs_step_trans[OF r(2) d(2)] by (simp add: Let_def add.assoc)
    qed
  qed
qed

lemma scan_doubles_packed:
  "fs_good fs \<Longrightarrow> row_packed fs 2 ps n \<Longrightarrow>
   \<exists>fs'. scan_doubles (entries_per_block fs) ps c fs =
       Some (n < length ps * (epb fs * epb fs), c + of_nat (min n (length ps * (epb fs * epb fs))), fs') \<and> fs_step {} {} fs fs'"
proof (induction ps arbitrary: n c fs)
  case Nil
  then show ?case using fs_step_refl by simp
next
  case (Cons p ps)
  let ?e = "epb fs" and ?q = "epb fs * epb fs"
  have e0: "0 < ?q" using good_sizes(2)[OF Cons(2)] by simp
  have P: "owned fs (tree_set ?e (ptrs fs) (Suc 1) p)" "tree_ok ?e (ptrs fs) (Suc 1) p (min ?q n)" "row_packed fs 2 ps (n - ?q)"
    using Cons(3) by (auto simp: row_packed_Cons power2_eq_square numeral_2_eq_2)
  show ?case
  proof (cases "p = 0")
    case True
    then have "min ?q n = 0" using P(2) by simp
    then have "n = 0" using e0 by linarith
    then show ?thesis using True e0 fs_step_refl[OF Cons(2)] by simp
  next
    case False
    have fb: "file_block fs p" using P(1) root_in_tree[OF False] by (auto simp: owned_def)
    obtain fs1 where r: "read_pointers p fs = Some (ptrs fs p, fs1)" "fs_step {} {} fs fs1" using read_pointers_step[OF Cons(2) fb] by blast
    note S = fs_stepD[OF r(2)]
    have len: "take (unat (entries_per_block fs)) (ptrs fs p) = ptrs fs p" "length (ptrs fs p) = ?e" using good_sizes(5)[OF Cons(2)] by (simp_all add: epb_def)
    from scan_leaves_packed[OF S(1) row_packed_step[OF Cons(2) r(2) row_packed_kids[OF P(2,1) False]], of c]
    obtain fs2 where l: "scan_leaves (entries_per_block fs) (ptrs fs p) c fs1 = Some (n < ?q, c + of_nat (min ?q n), fs2)" "fs_step {} {} fs1 fs2"
      by (auto simp: S len min_def split: if_splits)
    have st: "fs_step {} {} fs fs2" using fs_step_trans[OF r(2) l(2)] by simp
    note S' = fs_stepD[OF st]
    show ?thesis
    proof (cases "n < ?q")
      case True
      then show ?thesis using False r(1) l(1) st len by (simp add: min_def)
    next
      case ne: False
      obtain fs3 where d: "scan_doubles (entries_per_block fs) ps (c + of_nat ?q) fs2 =
          Some (n - ?q < length ps * ?q, c + of_nat ?q + of_nat (min (n - ?q) (length ps * ?q)), fs3)" "fs_step {} {} fs2 fs3"
        using Cons(1)[OF S'(1) row_packed_step[OF Cons(2) st P(3)], of "c + of_nat ?q"] by (auto simp: S')
      have "(of_nat ?q :: u32) + of_nat (min (n - ?q) (length ps * ?q)) = of_nat (min n (?q + length ps * ?q))"
        using ne by (intro count_next) simp
      moreover have "n - ?q < length ps * ?q \<longleftrightarrow> n < ?q + length ps * ?q" using ne by auto
      ultimately show ?thesis using False r(1) l(1) len ne d fs_step_trans[OF st d(2)] by (simp add: add.assoc)
    qed
  qed
qed

text \<open>The trees of a file in the terms of a scan.\<close>

lemma file_slot:
  assumes f: "file_inv fs ci" and s: "s < 15"
  defines "k \<equiv> min (epb fs ^ fdep s) (unat (ci_data_block_count ci) - fbase (epb fs) s)"
  shows "tree_ok (epb fs) (ptrs fs) (fdep s) (inode_block (ci_inode ci) s) k" "owned fs (tree_set (epb fs) (ptrs fs) (fdep s) (inode_block (ci_inode ci) s))"
    "inode_block (ci_inode ci) s = 0 \<longleftrightarrow> k = 0"
proof -
  show ok: "tree_ok (epb fs) (ptrs fs) (fdep s) (inode_block (ci_inode ci) s) k"
    using file_invD(4)[OF f] s by (simp add: row_ok_def k_def)
  show "owned fs (tree_set (epb fs) (ptrs fs) (fdep s) (inode_block (ci_inode ci) s))" by (rule file_slot_owned[OF f s])
  show "inode_block (ci_inode ci) s = 0 \<longleftrightarrow> k = 0" by (rule tree_ok_zero[OF ok])
qed

lemma slot_values: "fdep 12 = 1" "fdep 13 = 2" "fdep 14 = 3" "fbase e 12 = 12" "fbase e 13 = 12 + e" "fbase e 14 = 12 + e + e * e"
  by (auto simp: fdep_def fbase_def)

lemma scan_direct:
  assumes f: "file_inv fs ci"
  shows "count_entries (map (inode_block (ci_inode ci)) [0..<15]) 12 0 = of_nat (min 12 (unat (ci_data_block_count ci)))"
proof (rule count_entries_packed)
  fix j assume "j < unat (12 :: u32)"
  then have j: "j < 12" by simp
  then have "fdep j = 0" "fbase (epb fs) j = j" by (auto simp: fdep_def fbase_def)
  then show "map (inode_block (ci_inode ci)) [0..<15] ! j = 0 \<longleftrightarrow> min 12 (unat (ci_data_block_count ci)) \<le> j"
    using file_slot(3)[OF f, of j] j by (auto simp: min_def)
qed auto

lemma read_slot:
  assumes g: "fs_good fs" and f: "file_inv fs ci" and st: "fs_step {} {} fs fs1" and s: "s < 15" "fdep s = Suc d" "inode_block (ci_inode ci) s \<noteq> 0"
    and k: "k = min (epb fs ^ fdep s) (unat (ci_data_block_count ci) - fbase (epb fs) s)"
  shows "\<exists>ps fs2. read_pointers (inode_block (ci_inode ci) s) fs1 = Some (ps, fs2) \<and> fs_step {} {} fs fs2 \<and> length ps = epb fs
    \<and> row_packed fs2 d ps k"
proof -
  let ?b = "inode_block (ci_inode ci) s"
  note S = fs_stepD[OF st] and F = file_slot[OF f s(1)]
  have fb: "file_block fs1 ?b" using F(2) root_in_tree[OF s(3)] S(7) by (auto simp: owned_def)
  obtain fs2 where r: "read_pointers ?b fs1 = Some (ptrs fs1 ?b, fs2)" "fs_step {} {} fs1 fs2" using read_pointers_step[OF S(1) fb] by blast
  have st2: "fs_step {} {} fs fs2" using fs_step_trans[OF st r(2)] by simp
  have "ptrs fs1 ?b = ptrs fs ?b" by (rule ptrs_step[OF st]) (use fb S(7,8) in \<open>auto simp: file_block_def\<close>)
  moreover have "row_packed fs2 d (ptrs fs ?b) k"
    by (rule row_packed_step[OF g st2 row_packed_kids]) (use F s k in auto)
  ultimately show ?thesis using r st2 good_sizes(5)[OF g, of ?b] by auto
qed

lemma packed_count:
  assumes "row_packed fs 0 ps k" "length ps = unat e" "k \<le> unat e"
  shows "count_entries ps e 0 = of_nat k"
proof (rule count_entries_packed)
  fix j assume "j < unat e"
  then have "tree_ok (epb fs) (ptrs fs) 0 (ps ! j) (min 1 (k - j))" using assms(1,2) by (simp add: row_packed_def)
  then show "ps ! j = 0 \<longleftrightarrow> k \<le> j" using tree_ok_zero by fastforce
qed (use assms(3) in auto)

text \<open>The scan from the double-indirect tier on.\<close>

lemma scan_upper:
  assumes g: "fs_good fs" and f: "file_inv fs ci" and st: "fs_step {} {} fs fs1" and w: "w = entries_per_block fs"
    and n: "12 + epb fs \<le> unat (ci_data_block_count ci)" and b13: "inode_block (ci_inode ci) 13 \<noteq> 0"
  shows "\<exists>fs'. do {
      (double_indirect, fs) \<leftarrow> read_pointers (inode_block (ci_inode ci) 13) fs1;
      (done, count, fs) \<leftarrow> scan_leaves w (take (unat w) double_indirect) (12 + w) fs;
      if done \<or> inode_block (ci_inode ci) 14 = 0 then Some (count, fs)
      else do {
        (triple_indirect, fs) \<leftarrow> read_pointers (inode_block (ci_inode ci) 14) fs;
        (done, count, fs) \<leftarrow> scan_doubles w (take (unat w) triple_indirect) count fs;
        Some (count, fs)
      }
    } = Some (ci_data_block_count ci, fs') \<and> fs_step {} {} fs fs'"
proof -
  let ?b = "inode_block (ci_inode ci)" and ?e = "epb fs" and ?n = "unat (ci_data_block_count ci)"
  let ?k = "min (?e * ?e) (?n - (12 + ?e))" and ?j = "min (?e * ?e * ?e) (?n - (12 + ?e + ?e * ?e))"
  note F = file_slot(3)[OF f] and rd = read_slot[OF g f]
  have e: "unat w = ?e" "0 < ?e" using good_sizes(2)[OF g] w by (simp_all add: epb_def)
  obtain ps fs2 where r: "read_pointers (?b 13) fs1 = Some (ps, fs2)" "fs_step {} {} fs fs2" "length ps = ?e" "row_packed fs2 1 ps ?k"
    using rd[OF st, of 13 1] b13 by (auto simp: slot_values power2_eq_square)
  obtain fs3 where l: "scan_leaves w ps (12 + w) fs2 = Some (?k < ?e * ?e, 12 + w + of_nat ?k, fs3)" "fs_step {} {} fs2 fs3"
    using scan_leaves_packed[OF fs_stepD(1)[OF r(2)] r(4), of "12 + w"] fs_stepD(6,10)[OF r(2)] r(3) w by (auto simp: min_def split: if_splits)
  have st3: "fs_step {} {} fs fs3" using fs_step_trans[OF r(2) l(2)] by simp
  have wn: "w = of_nat ?e" by (simp flip: e(1))
  have sum: "12 + w + of_nat ?k + of_nat m = of_nat (12 + ?e + ?k + m)" for m unfolding wn by simp
  have low: "12 + w + of_nat ?k = ci_data_block_count ci" if "?n \<le> 12 + ?e + ?e * ?e"
  proof -
    have "12 + ?e + ?k + 0 = ?n" using that n by simp
    then show ?thesis using sum[of 0] by simp
  qed
  show ?thesis
  proof (cases "?k < ?e * ?e \<or> ?b 14 = 0")
    case True
    have "?n \<le> 12 + ?e + ?e * ?e"
    proof -
      have "0 < ?e * ?e * ?e" using e(2) by simp
      moreover have "?k < ?e * ?e \<or> min (?e * ?e * ?e) (?n - (12 + ?e + ?e * ?e)) = 0" using True F[of 14] by (auto simp: slot_values power3_eq_cube)
      ultimately show ?thesis by linarith
    qed
    then show ?thesis using True r(1,3) e(1) l(1) st3 low by auto
  next
    case False
    obtain qs fs4 where q: "read_pointers (?b 14) fs3 = Some (qs, fs4)" "fs_step {} {} fs fs4" "length qs = ?e" "row_packed fs4 2 qs ?j"
      using rd[OF st3, of 14 2] False by (auto simp: slot_values power3_eq_cube)
    obtain fs5 where d: "scan_doubles w qs (12 + w + of_nat ?k) fs4 = Some (?j < ?e * ?e * ?e, 12 + w + of_nat ?k + of_nat ?j, fs5)" "fs_step {} {} fs4 fs5"
      using scan_doubles_packed[OF fs_stepD(1)[OF q(2)] q(4), of "12 + w + of_nat ?k"] fs_stepD(6,10)[OF q(2)] q(3) w
      by (auto simp: min_def mult.assoc split: if_splits)
    have "12 + ?e + ?k + ?j = ?n" using False n file_invD(2)[OF f] by (simp add: fmax_def)
    then have "12 + w + of_nat ?k + of_nat ?j = of_nat ?n" by (simp only: sum)
    also have "\<dots> = ci_data_block_count ci" by simp
    finally have "12 + w + of_nat ?k + of_nat ?j = ci_data_block_count ci" .
    then show ?thesis using False r(1,3) e(1) l(1) q(1,3) d fs_step_trans[OF q(2) d(2)] by auto
  qed
qed

text \<open>
  The count that \<open>node_scan_data_block_count\<close> finds by walking the map is the count that
  \<open>node_add_block\<close> kept while it built it.
\<close>

theorem node_scan_counts_blocks:
  assumes g: "fs_good fs" and f: "file_inv fs ci"
  shows "\<exists>fs'. node_scan_data_block_count (ci_inode ci) fs = Some (ci_data_block_count ci, fs') \<and> fs_step {} {} fs fs'"
proof -
  let ?b = "inode_block (ci_inode ci)" and ?e = "epb fs" and ?n = "unat (ci_data_block_count ci)" and ?w = "entries_per_block fs"
  note F = file_slot(3)[OF f] and rd = read_slot[OF g f]
  have e: "0 < ?e" "unat ?w = ?e" using good_sizes(2)[OF g] by (simp_all add: epb_def)
  have n: "of_nat ?n = ci_data_block_count ci" by simp
  have c0: "(of_nat (min 12 ?n) :: u32) < 12 \<longleftrightarrow> ?n < 12" by (auto simp: word_less_nat_alt unat_of_nat min_def)
  consider "?n \<le> 12" | "12 < ?n" by linarith
  then show ?thesis
  proof cases
    case 1
    then have "of_nat (min 12 ?n) = ci_data_block_count ci" by simp
    moreover have "?n < 12 \<or> ?b 12 = 0" using 1 F[of 12] by (simp add: slot_values)
    ultimately show ?thesis using scan_direct[OF f] c0 fs_step_refl[OF g] by (auto simp: node_scan_data_block_count_def Let_def)
  next
    case 2
    then have b12: "?b 12 \<noteq> 0" using F[of 12] e by (simp add: slot_values)
    then obtain ps fs1 where r: "read_pointers (?b 12) fs = Some (ps, fs1)" "fs_step {} {} fs fs1" "length ps = ?e" "row_packed fs1 0 ps (min ?e (?n - 12))"
      using rd[OF fs_step_refl[OF g], of 12 0] by (auto simp: slot_values)
    have cnt: "ext2_count_indirect_entries ps ?w = of_nat (min ?e (?n - 12))"
      unfolding ext2_count_indirect_entries_def by (rule packed_count[OF r(4)]) (use e r(3) in auto)
    have lt: "(of_nat (min ?e (?n - 12)) :: u32) < ?w \<longleftrightarrow> ?n < 12 + ?e" using of_nat_less_entries[OF g, of "min ?e (?n - 12)"] 2 by auto
    show ?thesis
    proof (cases "?n < 12 + ?e \<or> ?b 13 = 0")
      case True
      then have "?n < 12 + ?e \<or> min (?e * ?e) (?n - (12 + ?e)) = 0" using F[of 13] by (auto simp: slot_values power2_eq_square)
      moreover have "0 < ?e * ?e" using e(1) by simp
      ultimately have "?n \<le> 12 + ?e" by linarith
      then have "12 + min ?e (?n - 12) = ?n" using 2 by simp
      then have "12 + of_nat (min ?e (?n - 12)) = ci_data_block_count ci" by (metis n of_nat_add of_nat_numeral)
      then show ?thesis using True scan_direct[OF f] c0 2 b12 r(1,2) cnt lt by (simp add: node_scan_data_block_count_def Let_def)
    next
      case False
      then have "min ?e (?n - 12) = ?e" "of_nat ?e = ?w" using 2 by (auto simp flip: e(2))
      then show ?thesis using False scan_upper[OF g f r(2) refl] scan_direct[OF f] c0 2 b12 r(1) cnt lt
        by (simp add: node_scan_data_block_count_def Let_def cong: if_cong)
    qed
  qed
qed

end
