(* ===== verification/Strings.thy ===== *)
theory Strings
  imports Bytes
begin

text \<open>
  \<open>kernel/string.c\<close> and \<open>kernel/string.s\<close>: C strings and the block copies in assembly.

  A string argument is the memory from the pointer on, as far as it is mapped; reading past
  its end is the value \<open>None\<close>.  The assembly routines work on the whole memory, a function
  from addresses to bytes.  Their loops run until the count is 0, so that the wide copies do
  not end when the count is no multiple of the width.
\<close>

section \<open>C strings\<close>

fun strlen :: "bytes \<Rightarrow> u32 option" where
  "strlen [] = None"
| "strlen (c # str) = (if c \<noteq> 0 then do { len \<leftarrow> strlen str; Some (len + 1) } else Some 0)"

fun streq :: "bytes \<Rightarrow> bytes \<Rightarrow> bool option" where
  "streq (a # str1) (b # str2) =
     (if a \<noteq> 0 \<and> b \<noteq> 0 then (if a \<noteq> b then Some False else streq str1 str2) else Some (a = 0 \<and> b = 0))"
| "streq _ _ = None"

fun strneq :: "bytes \<Rightarrow> bytes \<Rightarrow> nat \<Rightarrow> bool option" where
  "strneq str1 str2 0 = Some True"
| "strneq (a # str1) (b # str2) (Suc n) =
     (if a \<noteq> 0 \<and> b \<noteq> 0 then (if a \<noteq> b then Some False else strneq str1 str2 n) else Some (a = 0 \<and> b = 0))"
| "strneq _ _ (Suc n) = None"

fun strncpy :: "bytes \<Rightarrow> bytes \<Rightarrow> nat \<Rightarrow> bytes option" where
  "strncpy dest src 0 = Some dest"
| "strncpy (d # dest) (c # src) (Suc n) =
     (if c \<noteq> 0 then do { rest \<leftarrow> strncpy dest src n; Some (c # rest) } else Some (0 # dest))"
| "strncpy _ _ (Suc n) = None"

text \<open>A string in memory: its characters, the terminator, anything.\<close>

definition cstr :: "bytes \<Rightarrow> bytes \<Rightarrow> bytes" where
  "cstr s rest = s @ 0 # rest"

lemma strlen_cstr: "0 \<notin> set s \<Longrightarrow> strlen (cstr s rest) = Some (of_nat (length s))"
  by (induction s) (auto simp: cstr_def ac_simps)

lemma streq_cstr: "0 \<notin> set s \<Longrightarrow> 0 \<notin> set t \<Longrightarrow> streq (cstr s r) (cstr t q) = Some (s = t)"
proof (induction s arbitrary: t)
  case Nil
  then show ?case by (cases t) (auto simp: cstr_def)
next
  case (Cons c s)
  then show ?case by (cases t) (auto simp: cstr_def)
qed

lemma strneq_cstr: "0 \<notin> set s \<Longrightarrow> 0 \<notin> set t \<Longrightarrow> strneq (cstr s r) (cstr t q) n = Some (take n s = take n t)"
proof (induction s arbitrary: t n)
  case Nil
  then show ?case by (cases t; cases n) (auto simp: cstr_def)
next
  case (Cons c s)
  then show ?case by (cases t; cases n) (auto simp: cstr_def)
qed

text \<open>Names in directory records have no terminator: the length bounds the comparison.\<close>

lemma strneq_prefix:
  assumes "0 \<notin> set t" "length s = length t"
  shows "strneq (s @ r) (cstr t q) (length t) = Some (s = t)"
  using assms
proof (induction s arbitrary: t)
  case (Cons c s)
  then show ?case by (cases t) (auto simp: cstr_def)
qed (simp add: cstr_def)

lemma strncpy_copies:
  assumes "0 \<notin> set s" "length s \<le> n" "n \<le> length dest"
  shows "strncpy dest (cstr s r) n = Some (if length s = n then patch 0 s dest else patch 0 (s @ [0]) dest)"
  using assms
proof (induction s arbitrary: n dest)
  case Nil
  then show ?case by (cases n; cases dest) (auto simp: cstr_def patch_def)
next
  case (Cons c s)
  then show ?case by (cases n; cases dest) (auto simp: cstr_def patch_def)
qed


section \<open>Block copies\<close>

type_synonym memory = "u32 \<Rightarrow> u8"

text \<open>Loads and stores of 2 and 4 bytes round their address down to a multiple of the width.\<close>

definition align2 :: "u32 \<Rightarrow> u32" where "align2 a = a AND (- 2)"
definition align4 :: "u32 \<Rightarrow> u32" where "align4 a = a AND (- 4)"

definition copy1 :: "u32 \<Rightarrow> u32 \<Rightarrow> memory \<Rightarrow> memory" where
  "copy1 r1 r2 m = (let r5 = m r2 in m(r1 := r5))"

definition copy2 :: "u32 \<Rightarrow> u32 \<Rightarrow> memory \<Rightarrow> memory" where
  "copy2 r1 r2 m =
     (let s = align2 r2; d = align2 r1; b0 = m s; b1 = m (s + 1) in m(d := b0, d + 1 := b1))"

definition copy4 :: "u32 \<Rightarrow> u32 \<Rightarrow> memory \<Rightarrow> memory" where
  "copy4 r1 r2 m =
     (let s = align4 r2; d = align4 r1; b0 = m s; b1 = m (s + 1); b2 = m (s + 2); b3 = m (s + 3) in
      m(d := b0, d + 1 := b1, d + 2 := b2, d + 3 := b3))"

partial_function (option) memcpy_loop :: "u32 \<Rightarrow> u32 \<Rightarrow> u32 \<Rightarrow> memory \<Rightarrow> memory option" where
  "memcpy_loop r1 r2 r3 m =
     (if r3 = 0 then Some m else memcpy_loop (r1 + 1) (r2 + 1) (r3 + (- 1)) (copy1 r1 r2 m))"

partial_function (option) memcpy2_loop :: "u32 \<Rightarrow> u32 \<Rightarrow> u32 \<Rightarrow> memory \<Rightarrow> memory option" where
  "memcpy2_loop r1 r2 r3 m =
     (if r3 = 0 then Some m else memcpy2_loop (r1 + 2) (r2 + 2) (r3 + (- 2)) (copy2 r1 r2 m))"

partial_function (option) memcpy4_loop :: "u32 \<Rightarrow> u32 \<Rightarrow> u32 \<Rightarrow> memory \<Rightarrow> memory option" where
  "memcpy4_loop r1 r2 r3 m =
     (if r3 = 0 then Some m else memcpy4_loop (r1 + 4) (r2 + 4) (r3 + (- 4)) (copy4 r1 r2 m))"

definition memcpy :: "u32 \<Rightarrow> u32 \<Rightarrow> u32 \<Rightarrow> memory \<Rightarrow> (u32 \<times> memory) option" where
  "memcpy r1 r2 r3 m = do { let r4 = r1; m \<leftarrow> memcpy_loop r1 r2 r3 m; Some (r4, m) }"

definition memcpy2 :: "u32 \<Rightarrow> u32 \<Rightarrow> u32 \<Rightarrow> memory \<Rightarrow> (u32 \<times> memory) option" where
  "memcpy2 r1 r2 r3 m = do { let r4 = r1; m \<leftarrow> memcpy2_loop r1 r2 r3 m; Some (r4, m) }"

definition memcpy4 :: "u32 \<Rightarrow> u32 \<Rightarrow> u32 \<Rightarrow> memory \<Rightarrow> (u32 \<times> memory) option" where
  "memcpy4 r1 r2 r3 m = do { let r4 = r1; m \<leftarrow> memcpy4_loop r1 r2 r3 m; Some (r4, m) }"

partial_function (option) memset_loop :: "u32 \<Rightarrow> u32 \<Rightarrow> u32 \<Rightarrow> memory \<Rightarrow> memory option" where
  "memset_loop r1 r2 r3 m =
     (if r3 = 0 then Some m else memset_loop (r1 + 1) r2 (r3 + (- 1)) (m(r1 := ucast r2)))"

definition memset :: "u32 \<Rightarrow> u32 \<Rightarrow> u32 \<Rightarrow> memory \<Rightarrow> (u32 \<times> memory) option" where
  "memset r1 r2 r3 m = do { let r4 = r1; m \<leftarrow> memset_loop r1 r2 r3 m; Some (r4, m) }"


section \<open>A copy loop of any width\<close>

text \<open>Blocks that do not overlap.\<close>

definition apart :: "u32 \<Rightarrow> u32 \<Rightarrow> nat \<Rightarrow> bool" where
  "apart dest src n \<longleftrightarrow> (\<forall>i < n. n \<le> unat (src + of_nat i - dest))"

definition copied :: "u32 \<Rightarrow> u32 \<Rightarrow> nat \<Rightarrow> memory \<Rightarrow> memory" where
  "copied dest src n m = (\<lambda>a. if unat (a - dest) < n then m (src + (a - dest)) else m a)"

locale copy_loop =
  fixes w :: nat and unit :: "u32 \<Rightarrow> u32 \<Rightarrow> memory \<Rightarrow> memory" and loop :: "u32 \<Rightarrow> u32 \<Rightarrow> u32 \<Rightarrow> memory \<Rightarrow> memory option"
  assumes width: "0 < w" "w < 4294967296" "w dvd 4294967296"
    and unit: "w dvd unat d \<Longrightarrow> w dvd unat s \<Longrightarrow> unit d s m = copied d s w m"
    and loop: "loop d s n m = (if n = 0 then Some m else loop (d + of_nat w) (s + of_nat w) (n - of_nat w) (unit d s m))"
begin

lemma width_add: "w dvd unat (d :: u32) \<Longrightarrow> w dvd unat (d + of_nat w)"
  using width by (simp add: unat_word_ariths unat_of_nat dvd_mod)

lemma copied_next:
  assumes k: "w * Suc k < 4294967296" and ap: "apart d s (w * Suc k)"
  shows "copied (d + of_nat w) (s + of_nat w) (w * k) (copied d s w m) = copied d s (w * Suc k) m"
proof
  fix a
  let ?x = "a - d"
  have x: "unat (a - (d + of_nat w)) = (if w \<le> unat ?x then unat ?x - w else unat ?x + 4294967296 - w)"
    using width(2) by (simp add: diff_diff_eq[symmetric] unat_diff_u32 unat_of_nat)
  have s: "s + of_nat w + (a - (d + of_nat w)) = s + ?x" by simp
  have far: "\<not> unat (s + ?x - d) < w" if "unat ?x < w * Suc k"
  proof -
    have "w * Suc k \<le> unat (s + of_nat (unat ?x) - d)" using ap that unfolding apart_def by blast
    then show ?thesis by simp
  qed
  show "copied (d + of_nat w) (s + of_nat w) (w * k) (copied d s w m) a = copied d s (w * Suc k) m a"
    unfolding copied_def x s using far k by auto
qed

lemma loop_copies: "w * k < 4294967296 \<Longrightarrow> w dvd unat d \<Longrightarrow> w dvd unat s \<Longrightarrow> apart d s (w * k) \<Longrightarrow>
    loop d s (of_nat (w * k)) m = Some (copied d s (w * k) m)"
proof (induction k arbitrary: d s m)
  case 0
  then show ?case by (subst loop) (simp add: copied_def)
next
  case (Suc k)
  have "unat (of_nat (w * Suc k) :: u32) = w * Suc k" using Suc(2) by (subst unat_of_nat) simp
  moreover have "0 < w * Suc k" using width(1) by simp
  ultimately have "(of_nat (w * Suc k) :: u32) \<noteq> 0" by (metis less_numeral_extra(3) unat_0)
  moreover have "(of_nat (w * Suc k) :: u32) - of_nat w = of_nat (w * k)" by (simp add: algebra_simps)
  moreover have "apart (d + of_nat w) (s + of_nat w) (w * k)"
    unfolding apart_def
  proof (intro allI impI)
    fix i assume "i < w * k"
    then have "w * Suc k \<le> unat (s + of_nat i - d)" using Suc(5) by (simp add: apart_def)
    moreover have "s + of_nat w + of_nat i - (d + of_nat w) = s + of_nat i - d" by simp
    ultimately show "w * k \<le> unat (s + of_nat w + of_nat i - (d + of_nat w))" by (simp only:) simp
  qed
  ultimately show ?case using Suc(1)[of "d + of_nat w" "s + of_nat w"] Suc(2-4) copied_next[OF Suc(2,5)]
    by (subst loop) (simp add: width_add unit)
qed

lemma loop_returns: "w * k < 4294967296 \<Longrightarrow> \<exists>m'. loop d s (of_nat (w * k)) m = Some m'"
proof (induction k arbitrary: d s m)
  case 0
  then show ?case by (subst loop) simp
next
  case (Suc k)
  have "(of_nat (w * Suc k) :: u32) - of_nat w = of_nat (w * k)" by (simp add: algebra_simps)
  then show ?case using Suc(1)[of "d + of_nat w" "s + of_nat w" "unit d s m"] Suc(2) by (subst loop) simp
qed

lemma count_multiple:
  assumes "w dvd unat (n :: u32)"
  shows "\<exists>k. n = of_nat (w * k) \<and> unat n = w * k \<and> w * k < 4294967296"
proof -
  obtain k where k: "unat n = w * k" using assms by (auto elim: dvdE)
  moreover have "n = of_nat (unat n)" "unat n < 4294967296" by simp_all
  ultimately show ?thesis by metis
qed

lemma loop_copies_count:
  assumes "w dvd unat n" "w dvd unat d" "w dvd unat s" "apart d s (unat n)"
  shows "loop d s n m = Some (copied d s (unat n) m)"
  using count_multiple[OF assms(1)] loop_copies[of _ d s m] assms(2-4) by metis

lemma loop_returns_count: "w dvd unat n \<Longrightarrow> \<exists>m'. loop d s n m = Some m'"
  using count_multiple loop_returns by metis

end

lemma aligned_and_mask:
  fixes a :: u32
  assumes "2 ^ k dvd unat a"
  shows "a AND NOT (mask k) = a"
proof (rule bit_word_eqI)
  have "unat (take_bit k a) = take_bit k (unat a)" by (simp add: unsigned_take_bit_eq)
  also have "\<dots> = 0" using assms by (simp add: take_bit_eq_mod)
  finally have "unat (take_bit k a) = 0" .
  then have t: "take_bit k a = 0" by (simp add: unat_eq_0)
  fix n assume "n < LENGTH(32)"
  then show "bit (a AND NOT (mask k)) n \<longleftrightarrow> bit a n"
    using bit_take_bit_iff[of k a n] by (auto simp: bit_simps t)
qed

lemma align_multiple: "2 dvd unat a \<Longrightarrow> align2 a = a" "4 dvd unat a \<Longrightarrow> align4 a = a"
  using aligned_and_mask[of 1 a] aligned_and_mask[of 2 a] by (simp_all add: align2_def align4_def mask_eq_exp_minus_1 not_eq_complement)

lemma small_offset:
  fixes a d :: u32
  shows "unat (a - d) < 1 \<longleftrightarrow> a = d" "unat (a - d) < 2 \<longleftrightarrow> a = d \<or> a = d + 1"
    "unat (a - d) < 4 \<longleftrightarrow> a = d \<or> a = d + 1 \<or> a = d + 2 \<or> a = d + 3"
proof -
  have k: "a = d + k \<longleftrightarrow> a - d = k" for k by (auto simp: algebra_simps)
  have z: "a = d \<longleftrightarrow> a - d = 0" by simp
  have x: "unat x < 1 \<longleftrightarrow> x = 0" "unat x < 2 \<longleftrightarrow> x = 0 \<or> x = 1" "unat x < 4 \<longleftrightarrow> x = 0 \<or> x = 1 \<or> x = 2 \<or> x = 3" for x :: u32
    by (auto simp: word_unat_eq_iff)
  show "unat (a - d) < 1 \<longleftrightarrow> a = d" "unat (a - d) < 2 \<longleftrightarrow> a = d \<or> a = d + 1"
    "unat (a - d) < 4 \<longleftrightarrow> a = d \<or> a = d + 1 \<or> a = d + 2 \<or> a = d + 3"
    unfolding k unfolding z by (rule x)+
qed

interpretation mc1: copy_loop 1 copy1 memcpy_loop
proof unfold_locales
  show "copy1 d s m = copied d s 1 m" for d s m
    by (rule ext) (simp only: copy1_def copied_def small_offset Let_def fun_upd_def, simp)
  show "memcpy_loop d s n m = (if n = 0 then Some m else memcpy_loop (d + of_nat 1) (s + of_nat 1) (n - of_nat 1) (copy1 d s m))" for d s n m
    by (subst memcpy_loop.simps) simp
qed auto

interpretation mc2: copy_loop 2 copy2 memcpy2_loop
proof unfold_locales
  show "copy2 d s m = copied d s 2 m" if "2 dvd unat d" "2 dvd unat s" for d s m
    by (rule ext) (auto simp: copy2_def copied_def small_offset align_multiple that Let_def)
  show "memcpy2_loop d s n m = (if n = 0 then Some m else memcpy2_loop (d + of_nat 2) (s + of_nat 2) (n - of_nat 2) (copy2 d s m))" for d s n m
    by (subst memcpy2_loop.simps) simp
qed auto

interpretation mc4: copy_loop 4 copy4 memcpy4_loop
proof unfold_locales
  show "copy4 d s m = copied d s 4 m" if "4 dvd unat d" "4 dvd unat s" for d s m
    by (rule ext) (auto simp: copy4_def copied_def small_offset align_multiple that Let_def)
  show "memcpy4_loop d s n m = (if n = 0 then Some m else memcpy4_loop (d + of_nat 4) (s + of_nat 4) (n - of_nat 4) (copy4 d s m))" for d s n m
    by (subst memcpy4_loop.simps) simp
qed auto

lemma multiple_minus:
  fixes r :: u32
  assumes "k dvd unat (r - of_nat k)" "k dvd 4294967296" "k < 4294967296"
  shows "k dvd unat r"
proof (cases "k \<le> unat r")
  case True
  then have "k dvd (unat r - k) + k" using assms(1,3) by (intro dvd_add) (auto simp: unat_diff_u32 unat_of_nat)
  then show ?thesis using True by simp
next
  case False
  then have "k dvd unat r + 4294967296 - k" using assms(1,3) by (simp add: unat_diff_u32 unat_of_nat)
  then have "k dvd (unat r + 4294967296 - k) + k" by (rule dvd_add) simp
  then have "k dvd unat r + 4294967296" using assms(3) by simp
  then show ?thesis using assms(2) by (simp add: dvd_add_left_iff)
qed

lemma memcpy2_loop_even:
  assumes "memcpy2_loop r1 r2 r3 m = Some m'"
  shows "2 dvd unat r3"
proof (rule memcpy2_loop.raw_induct[where P = "\<lambda>r1 r2 r3 m m'. 2 dvd unat r3", OF _ assms])
  fix f :: "u32 \<Rightarrow> u32 \<Rightarrow> u32 \<Rightarrow> memory \<Rightarrow> memory option" and r1 r2 r3 m m'
  assume "\<And>r1 r2 r3 m m'. f r1 r2 r3 m = Some m' \<Longrightarrow> 2 dvd unat r3"
    and "(if r3 = 0 then Some m else f (r1 + 2) (r2 + 2) (r3 + (- 2)) (copy2 r1 r2 m)) = Some m'"
  then have "r3 = 0 \<or> 2 dvd unat (r3 + (- 2))" by (metis (no_types))
  then show "2 dvd unat r3" using multiple_minus[of 2 r3] by auto
qed

lemma memcpy4_loop_multiple:
  assumes "memcpy4_loop r1 r2 r3 m = Some m'"
  shows "4 dvd unat r3"
proof (rule memcpy4_loop.raw_induct[where P = "\<lambda>r1 r2 r3 m m'. 4 dvd unat r3", OF _ assms])
  fix f :: "u32 \<Rightarrow> u32 \<Rightarrow> u32 \<Rightarrow> memory \<Rightarrow> memory option" and r1 r2 r3 m m'
  assume "\<And>r1 r2 r3 m m'. f r1 r2 r3 m = Some m' \<Longrightarrow> 4 dvd unat r3"
    and "(if r3 = 0 then Some m else f (r1 + 4) (r2 + 4) (r3 + (- 4)) (copy4 r1 r2 m)) = Some m'"
  then have "r3 = 0 \<or> 4 dvd unat (r3 + (- 4))" by (metis (no_types))
  then show "4 dvd unat r3" using multiple_minus[of 4 r3] by auto
qed

lemma memset_loop_fills: "n < 4294967296 \<Longrightarrow> memset_loop d c (of_nat n) m = Some (\<lambda>a. if unat (a - d) < n then ucast c else m a)"
proof (induction n arbitrary: d m)
  case 0
  then show ?case by (subst memset_loop.simps) simp
next
  case (Suc n)
  have nz: "(of_nat (Suc n) :: u32) \<noteq> 0"
  proof -
    have "unat (of_nat (Suc n) :: u32) = Suc n" using Suc(2) by (subst unat_of_nat) simp
    then show ?thesis by (metis nat.distinct(1) unat_0)
  qed
  have "unat (a - (d + 1)) < n \<longleftrightarrow> a \<noteq> d \<and> unat (a - d) < Suc n" for a
  proof (cases "a = d")
    case True
    have "a - (d + 1) = - 1" using True by simp
    then show ?thesis using True Suc(2) by simp
  next
    case False
    then have "unat (a - d - 1) = unat (a - d) - 1" by (intro unat_minus_one) simp
    moreover have "0 < unat (a - d)" using False by (simp add: unat_gt_0)
    ultimately have "unat (a - (d + 1)) < n \<longleftrightarrow> unat (a - d) < Suc n" unfolding diff_diff_eq by linarith
    then show ?thesis using False by simp
  qed
  then have eq: "(\<lambda>a. if unat (a - (d + 1)) < n then ucast c else (m(d := ucast c)) a) = (\<lambda>a. if unat (a - d) < Suc n then ucast c else m a)"
    by (auto simp: fun_eq_iff)
  have "n < 4294967296" using Suc(2) by simp
  note r = Suc(1)[OF this, of "d + 1" "m(d := ucast c)", unfolded eq]
  have "of_nat (Suc n) + (- 1) = (of_nat n :: u32)" by simp
  then show ?case using r nz by (subst memset_loop.simps) (simp only: if_False)
qed


section \<open>Properties\<close>

text \<open>
  The comparison and length functions decide equality, equality of prefixes and length of
  terminated strings.
\<close>

theorem string_functions_exact:
  assumes "0 \<notin> set s" "0 \<notin> set t"
  shows "strlen (cstr s r) = Some (of_nat (length s)) \<and> streq (cstr s r) (cstr t q) = Some (s = t)
    \<and> strneq (cstr s r) (cstr t q) n = Some (take n s = take n t)
    \<and> (length s \<le> n \<and> n \<le> length dest \<longrightarrow>
       strncpy dest (cstr s r) n = Some (if length s = n then patch 0 s dest else patch 0 (s @ [0]) dest))"
  using assms by (simp_all add: strlen_cstr streq_cstr strneq_cstr strncpy_copies)

text \<open>
  C33. \<open>memcpy\<close> and \<open>memset\<close> return for every count; \<open>memcpy2\<close> returns exactly when the count is even
  and \<open>memcpy4\<close> exactly when it is a multiple of four.
\<close>

theorem block_copies_return:
  "(\<exists>r. memcpy dest src n m = Some r) \<and> (\<exists>r. memset dest c n m = Some r)
   \<and> ((\<exists>r. memcpy2 dest src n m = Some r) \<longleftrightarrow> 2 dvd unat n) \<and> ((\<exists>r. memcpy4 dest src n m = Some r) \<longleftrightarrow> 4 dvd unat n)"
proof -
  have "\<exists>r. memcpy dest src n m = Some r" using mc1.loop_returns_count[of n dest src m] by (auto simp: memcpy_def)
  moreover have "\<exists>r. memset dest c n m = Some r" using memset_loop_fills[of "unat n" dest c m] by (simp add: memset_def)
  moreover have "(\<exists>r. memcpy2 dest src n m = Some r) \<longleftrightarrow> 2 dvd unat n"
    using mc2.loop_returns_count[of n dest src m] memcpy2_loop_even[of dest src n m] by (auto simp: memcpy2_def split: bind_splits)
  moreover have "(\<exists>r. memcpy4 dest src n m = Some r) \<longleftrightarrow> 4 dvd unat n"
    using mc4.loop_returns_count[of n dest src m] memcpy4_loop_multiple[of dest src n m] by (auto simp: memcpy4_def split: bind_splits)
  ultimately show ?thesis by blast
qed

text \<open>
  C34. On blocks that do not overlap, and within the alignment that the wide variants document,
  the copies copy the block and change no byte outside it.  The fill stores the low byte of its
  argument in every byte of its range and changes no byte outside it.  All return the destination.
\<close>

theorem block_copies_exact:
  assumes "apart dest src (unat n)" "w dvd unat n" "w dvd unat dest" "w dvd unat src"
    "(w, copy) \<in> {(1, memcpy), (2, memcpy2), (4, memcpy4)}"
  shows "copy dest src n m = Some (dest, copied dest src (unat n) m)
    \<and> memset d v k m = Some (d, \<lambda>a. if unat (a - d) < unat k then ucast v else m a)"
proof
  show "copy dest src n m = Some (dest, copied dest src (unat n) m)"
    using assms mc1.loop_copies_count[of n dest src m] mc2.loop_copies_count[of n dest src m] mc4.loop_copies_count[of n dest src m]
    by (auto simp: memcpy_def memcpy2_def memcpy4_def)
  show "memset d v k m = Some (d, \<lambda>a. if unat (a - d) < unat k then ucast v else m a)"
    using memset_loop_fills[of "unat k" d v m] by (simp add: memset_def)
qed

theorem string_functions_exact_witness:
  "strlen [104, 105, 0, 7] = Some 2 \<and> streq [104, 105, 0, 7] [104, 105, 0] = Some True \<and> strneq [104, 105, 0, 7] [104, 0] 1 = Some True
   \<and> strncpy [9, 9, 9, 9] [104, 105, 0] 3 = Some [104, 105, 0, 9]"
  using string_functions_exact[of "[104, 105]" "[104, 105]" "[7]" "[]" 0] string_functions_exact[of "[104, 105]" "[104]" "[7]" "[]" 1]
    string_functions_exact[of "[104, 105]" "[]" "[]" "[]" 3 "[9, 9, 9, 9]"]
  by (simp add: cstr_def patch_def)

theorem block_copies_exact_witness:
  "memcpy4 0x100 0x200 8 (\<lambda>a. ucast a) = Some (0x100, copied 0x100 0x200 8 (\<lambda>a. ucast a))
   \<and> memset 0x300 0x2F 2 (\<lambda>a. 0) = Some (0x300, \<lambda>a. if unat (a - 0x300) < 2 then 0x2F else 0)"
proof -
  have "apart 0x100 0x200 (unat (8 :: u32))"
  proof -
    have "\<forall>i \<in> set [0..<8]. 8 \<le> unat (0x200 + of_nat i - 0x100 :: u32)" by code_simp
    then show ?thesis by (simp add: apart_def)
  qed
  then show ?thesis using block_copies_exact[of "0x100" "0x200" 8 4 memcpy4 "\<lambda>a. ucast a"]
      block_copies_exact[of "0x100" "0x200" 8 4 memcpy4 "\<lambda>a. 0" "0x300" "0x2F" 2] by (simp cong: if_cong)
qed

end
