(* ===== verification/Ext2_Dir.thy ===== *)
theory Ext2_Dir
  imports Ext2_File Strings
begin

text \<open>
  Directories of \<open>kernel/ext.c\<close>: records chained through the data blocks, and the operations that
  insert, remove and look up a name.  Names are C strings in memory, see \<open>Strings\<close>; the names in
  the records have no terminator.  A freshly allocated buffer and the local \<open>entry\<close> hold arbitrary
  bytes, given as an argument.
\<close>

section \<open>Records\<close>

definition EXT2_DIR_ENTRY_HEADER_SIZE :: u32 where "EXT2_DIR_ENTRY_HEADER_SIZE = 8"
definition EXT2_DIR_ENTRY_ALIGN_SIZE :: u32 where "EXT2_DIR_ENTRY_ALIGN_SIZE = 4"

definition ext2_name_is_dot :: "bytes \<Rightarrow> bool" where
  "ext2_name_is_dot name \<longleftrightarrow> name ! 0 = 46 \<and> name ! 1 = 0"

definition ext2_name_is_dot_dot :: "bytes \<Rightarrow> bool" where
  "ext2_name_is_dot_dot name \<longleftrightarrow> name ! 0 = 46 \<and> name ! 1 = 46 \<and> name ! 2 = 0"

definition ext2_name_has_separator :: "bytes \<Rightarrow> bool option" where
  "ext2_name_has_separator name = do {
     name_len \<leftarrow> strlen name;
     Some (list_ex (\<lambda>c. c = 47) (take (unat name_len) name))
   }"

definition ext2_dir_entry_min_size :: "u32 \<Rightarrow> u32" where
  "ext2_dir_entry_min_size name_len =
     (let size = EXT2_DIR_ENTRY_HEADER_SIZE + name_len;
          remainder = size mod EXT2_DIR_ENTRY_ALIGN_SIZE in
      if remainder \<noteq> 0 then size + (EXT2_DIR_ENTRY_ALIGN_SIZE - remainder) else size)"

text \<open>The fields of the record at an offset of a buffer.\<close>

definition de_inode :: "nat \<Rightarrow> bytes \<Rightarrow> u32" where "de_inode off buf = get32 off buf"
definition de_rec_len :: "nat \<Rightarrow> bytes \<Rightarrow> u16" where "de_rec_len off buf = get16 (off + 4) buf"
definition de_name_len :: "nat \<Rightarrow> bytes \<Rightarrow> u16" where "de_name_len off buf = get16 (off + 6) buf"
definition de_name :: "nat \<Rightarrow> bytes \<Rightarrow> bytes" where "de_name off buf = drop (off + 8) buf"

definition ext2_write_dir_entry :: "nat \<Rightarrow> u32 \<Rightarrow> bytes \<Rightarrow> u32 \<Rightarrow> bytes \<Rightarrow> bytes option" where
  "ext2_write_dir_entry dest rec_len name inumber buf = do {
     name_len \<leftarrow> strlen name;
     kassert (name_len \<le> 256);
     kassert (rec_len \<ge> ext2_dir_entry_min_size name_len);
     let buf = put32 dest inumber buf;
     let buf = put16 (dest + 4) (ucast rec_len) buf;
     let buf = put16 (dest + 6) (ucast name_len) buf;
     entry_name \<leftarrow> strncpy (de_name dest buf) name (unat name_len);
     Some (take (dest + 8) buf @ entry_name)
   }"


section \<open>Insertion\<close>

text \<open>The walk over one block; the result is the changed block, or \<open>None\<close> inside when no record has room.\<close>

partial_function (option) insert_scan :: "u32 \<Rightarrow> u32 \<Rightarrow> bytes \<Rightarrow> u32 \<Rightarrow> bytes \<Rightarrow> u32 \<Rightarrow> bytes option option" where
  "insert_scan block_size new_entry_size name inumber block_buf offset =
     (if offset < block_size then do {
        let record_length = (ucast (de_rec_len (unat offset) block_buf) :: u32);
        kassert (record_length \<ge> EXT2_DIR_ENTRY_HEADER_SIZE);
        kassert (record_length mod EXT2_DIR_ENTRY_ALIGN_SIZE = 0);
        kassert (offset + record_length \<le> block_size);
        if de_inode (unat offset) block_buf = 0 then
          (if record_length \<ge> new_entry_size then do {
             block_buf \<leftarrow> ext2_write_dir_entry (unat offset) record_length name inumber block_buf;
             Some (Some block_buf)
           } else insert_scan block_size new_entry_size name inumber block_buf (offset + record_length))
        else do {
          let ideal_length = ext2_dir_entry_min_size (ucast (de_name_len (unat offset) block_buf));
          if record_length \<ge> ideal_length + new_entry_size then do {
            let block_buf = put16 (unat offset + 4) (ucast ideal_length) block_buf;
            block_buf \<leftarrow> ext2_write_dir_entry (unat (offset + ideal_length)) (record_length - ideal_length) name inumber block_buf;
            Some (Some block_buf)
          } else insert_scan block_size new_entry_size name inumber block_buf (offset + record_length)
        }
      } else do {
        kassert (offset = block_size);
        Some None
      })"

definition dir_insert_entry_in_existing_block :: "cached_inode \<Rightarrow> u32 \<Rightarrow> bytes \<Rightarrow> u32 \<Rightarrow> ext2 \<Rightarrow> (bool \<times> ext2) option" where
  "dir_insert_entry_in_existing_block dir block_index name inumber fs = do {
     let block_size = ext2_get_block_size fs;
     name_len \<leftarrow> strlen name;
     let new_entry_size = ext2_dir_entry_min_size name_len;
     kassert (ci_lock dir);
     (block_buf, fs) \<leftarrow> node_read_block_locked dir block_index fs;
     r \<leftarrow> insert_scan block_size new_entry_size name inumber block_buf 0;
     case r of
       Some block_buf \<Rightarrow> do {
         fs \<leftarrow> node_write_block_locked dir block_index block_buf 0 block_size fs;
         Some (True, fs)
       }
     | None \<Rightarrow> Some (False, fs)
   }"

primrec insert_in_blocks :: "cached_inode \<Rightarrow> u32 list \<Rightarrow> bytes \<Rightarrow> u32 \<Rightarrow> ext2 \<Rightarrow> (bool \<times> ext2) option" where
  "insert_in_blocks dir [] name inumber = (\<lambda>fs. Some (False, fs))"
| "insert_in_blocks dir (i # is) name inumber = (\<lambda>fs. do {
     (done, fs) \<leftarrow> dir_insert_entry_in_existing_block dir i name inumber fs;
     if done then Some (True, fs) else insert_in_blocks dir is name inumber fs
   })"

text \<open>The indices of a loop \<open>for (i = 0; i < n; ++i)\<close>.\<close>

definition indices_below :: "u32 \<Rightarrow> u32 list" where
  "indices_below n = map of_nat [0..<unat n]"

definition dir_add_entry_locked :: "bytes \<Rightarrow> cached_inode \<Rightarrow> bytes \<Rightarrow> u32 \<Rightarrow> ext2 \<Rightarrow> (bool \<times> cached_inode \<times> ext2) option" where
  "dir_add_entry_locked fresh dir name inumber fs = do {
     let block_size = ext2_get_block_size fs;
     let logical_block_count = ci_data_block_count dir;
     kassert (node_is_dir dir);
     name_len \<leftarrow> strlen name;
     kassert (name_len > 0);
     kassert (\<not> ci_delete_pending dir);
     kassert (ci_lock dir);
     (done, fs) \<leftarrow> insert_in_blocks dir (indices_below logical_block_count) name inumber fs;
     if done then Some (True, dir, fs)
     else do {
       (new_block, fs) \<leftarrow> alloc_block fs;
       kassert (new_block \<noteq> - 1);
       (added, dir, fs) \<leftarrow> node_add_block new_block dir fs;
       kassert added;
       block_buf \<leftarrow> ext2_write_dir_entry 0 block_size name inumber fresh;
       fs \<leftarrow> node_write_block_locked dir logical_block_count block_buf 0 block_size fs;
       let dir = dir\<lparr>ci_inode := set_inode_size (inode_size (ci_inode dir) + block_size) (ci_inode dir)\<rparr>;
       fs \<leftarrow> node_sync_inode dir fs;
       Some (True, dir, fs)
     }
   }"

definition dir_add_entry :: "bytes \<Rightarrow> cached_inode \<Rightarrow> bytes \<Rightarrow> u32 \<Rightarrow> ext2 \<Rightarrow> (bool \<times> cached_inode \<times> ext2) option" where
  "dir_add_entry fresh dir name inumber fs = do {
     dir \<leftarrow> ci_lock_acquire dir;
     (rc, dir, fs) \<leftarrow> dir_add_entry_locked fresh dir name inumber fs;
     Some (rc, ci_lock_release dir, fs)
   }"


section \<open>Removal\<close>

text \<open>The walk over one block; \<open>prev\<close> is the offset of the record before, if any.\<close>

partial_function (option) remove_scan :: "u32 \<Rightarrow> bytes \<Rightarrow> bytes \<Rightarrow> u32 \<Rightarrow> u32 option \<Rightarrow> bytes option option" where
  "remove_scan block_size name block_buf offset prev =
     (if offset < block_size then do {
        let record_length = (ucast (de_rec_len (unat offset) block_buf) :: u32);
        kassert (record_length \<ge> EXT2_DIR_ENTRY_HEADER_SIZE);
        kassert (record_length mod EXT2_DIR_ENTRY_ALIGN_SIZE = 0);
        kassert (offset + record_length \<le> block_size);
        name_len \<leftarrow> strlen name;
        same \<leftarrow> (if de_inode (unat offset) block_buf \<noteq> 0 \<and> ucast (de_name_len (unat offset) block_buf) = name_len
                 then strneq (de_name (unat offset) block_buf) name (unat (de_name_len (unat offset) block_buf)) else Some False);
        if same then do {
          let block_buf = put32 (unat offset) 0 block_buf;
          let block_buf = (case prev of None \<Rightarrow> block_buf
            | Some p \<Rightarrow> put16 (unat p + 4) (de_rec_len (unat p) block_buf + de_rec_len (unat offset) block_buf) block_buf);
          Some (Some block_buf)
        } else remove_scan block_size name block_buf (offset + record_length) (Some offset)
      } else do {
        kassert (offset = block_size);
        Some None
      })"

primrec remove_in_blocks :: "cached_inode \<Rightarrow> u32 list \<Rightarrow> bytes \<Rightarrow> ext2 \<Rightarrow> (bool \<times> ext2) option" where
  "remove_in_blocks dir [] name = (\<lambda>fs. Some (False, fs))"
| "remove_in_blocks dir (i # is) name = (\<lambda>fs. do {
     (block_buf, fs) \<leftarrow> node_read_block_locked dir i fs;
     r \<leftarrow> remove_scan (ext2_get_block_size fs) name block_buf 0 None;
     case r of
       Some block_buf \<Rightarrow> do {
         fs \<leftarrow> node_write_block_locked dir i block_buf 0 (ext2_get_block_size fs) fs;
         Some (True, fs)
       }
     | None \<Rightarrow> remove_in_blocks dir is name fs
   })"

definition dir_remove_entry_locked :: "cached_inode \<Rightarrow> bytes \<Rightarrow> ext2 \<Rightarrow> (bool \<times> ext2) option" where
  "dir_remove_entry_locked dir name fs = do {
     kassert (node_is_dir dir);
     kassert (\<not> ci_delete_pending dir);
     kassert (ci_lock dir);
     remove_in_blocks dir (indices_below (ci_data_block_count dir)) name fs
   }"

definition dir_remove_entry :: "cached_inode \<Rightarrow> bytes \<Rightarrow> ext2 \<Rightarrow> (bool \<times> cached_inode \<times> ext2) option" where
  "dir_remove_entry dir name fs = do {
     dir \<leftarrow> ci_lock_acquire dir;
     (rc, fs) \<leftarrow> dir_remove_entry_locked dir name fs;
     Some (rc, ci_lock_release dir, fs)
   }"


section \<open>Lookup\<close>

text \<open>
  The loop over all records that \<open>dir_find_entry_locked\<close> and \<open>dir_has_entry_name\<close> share; it reads
  \<open>sizeof(struct DirEntry)\<close> = 264 bytes at a time.  \<open>dir_find_inumber\<close> is \<open>dir_find_entry_locked\<close> up
  to the point where the entry is found; its result is the inode number of the entry.
\<close>

partial_function (option) find_scan :: "cached_inode \<Rightarrow> bytes \<Rightarrow> u32 \<Rightarrow> u32 \<Rightarrow> bytes \<Rightarrow> ext2 \<Rightarrow> (u32 option \<times> ext2) option" where
  "find_scan dir name name_len index entry fs =
     (if index < node_size_in_bytes dir then do {
        (cnt, entry, fs) \<leftarrow> node_read_all_locked dir index 264 entry fs;
        kassert (sint cnt \<ge> 4);
        kassert (de_rec_len 0 entry \<ge> 8);
        same \<leftarrow> (if de_inode 0 entry \<noteq> 0 \<and> ucast (de_name_len 0 entry) = name_len
                 then strneq (de_name 0 entry) name (unat name_len) else Some False);
        if same then Some (Some (de_inode 0 entry), fs)
        else find_scan dir name name_len (index + ucast (de_rec_len 0 entry)) entry fs
      } else Some (None, fs))"

definition dir_find_inumber :: "bytes \<Rightarrow> cached_inode \<Rightarrow> bytes \<Rightarrow> ext2 \<Rightarrow> (u32 option \<times> ext2) option" where
  "dir_find_inumber entry dir name fs = do {
     name_len \<leftarrow> strlen name;
     kassert (node_is_dir dir);
     kassert (ci_lock dir);
     find_scan dir name name_len 0 entry fs
   }"

definition dir_has_entry_name :: "bytes \<Rightarrow> cached_inode \<Rightarrow> bytes \<Rightarrow> ext2 \<Rightarrow> (bool \<times> ext2) option" where
  "dir_has_entry_name entry dir name fs = do {
     name_len \<leftarrow> strlen name;
     kassert (node_is_dir dir);
     kassert (ci_lock dir);
     (r, fs) \<leftarrow> find_scan dir name name_len 0 entry fs;
     Some (r \<noteq> None, fs)
   }"

partial_function (option) empty_scan :: "cached_inode \<Rightarrow> u32 \<Rightarrow> bytes \<Rightarrow> ext2 \<Rightarrow> (bool \<times> ext2) option" where
  "empty_scan dir index entry fs =
     (if index < node_size_in_bytes dir then do {
        (cnt, entry, fs) \<leftarrow> node_read_all_locked dir index 264 entry fs;
        kassert (sint cnt \<ge> 4);
        kassert (ucast (de_rec_len 0 entry) \<ge> EXT2_DIR_ENTRY_HEADER_SIZE);
        kassert (ucast (de_rec_len 0 entry) mod EXT2_DIR_ENTRY_ALIGN_SIZE = 0);
        found \<leftarrow> (if de_inode 0 entry \<noteq> 0 then do {
          is_dot \<leftarrow> (if de_name_len 0 entry = 1 then strneq (de_name 0 entry) [46, 0] 1 else Some False);
          is_dot_dot \<leftarrow> (if de_name_len 0 entry = 2 then strneq (de_name 0 entry) [46, 46, 0] 2 else Some False);
          Some (\<not> is_dot \<and> \<not> is_dot_dot)
        } else Some False);
        if found then Some (False, fs)
        else empty_scan dir (index + ucast (de_rec_len 0 entry)) entry fs
      } else Some (True, fs))"

definition dir_is_empty_locked :: "bytes \<Rightarrow> cached_inode \<Rightarrow> ext2 \<Rightarrow> (bool \<times> ext2) option" where
  "dir_is_empty_locked entry dir fs = do {
     kassert (ci_lock dir);
     kassert (node_is_dir dir);
     empty_scan dir 0 entry fs
   }"

definition dir_is_empty :: "bytes \<Rightarrow> cached_inode \<Rightarrow> ext2 \<Rightarrow> (bool \<times> cached_inode \<times> ext2) option" where
  "dir_is_empty entry dir fs = do {
     dir \<leftarrow> ci_lock_acquire dir;
     kassert (node_is_dir dir);
     (r, fs) \<leftarrow> empty_scan dir 0 entry fs;
     Some (r, ci_lock_release dir, fs)
   }"


section \<open>Blocks as lists of records\<close>

datatype drec = Rec (r_ino: u32) (r_name: bytes) (r_slack: bytes)

definition rlen :: "drec \<Rightarrow> nat" where
  "rlen r = 8 + length (r_name r) + length (r_slack r)"

definition enc_rec :: "drec \<Rightarrow> bytes" where
  "enc_rec r = enc32 (r_ino r) @ enc16 (of_nat (rlen r)) @ enc16 (of_nat (length (r_name r))) @ r_name r @ r_slack r"

definition rec_ok :: "drec \<Rightarrow> bool" where
  "rec_ok r \<longleftrightarrow> 4 dvd rlen r \<and> rlen r < 65536 \<and> (r_ino r \<noteq> 0 \<longrightarrow> length (r_name r) \<le> 256)"

definition enc_recs :: "drec list \<Rightarrow> bytes" where
  "enc_recs rs = concat (map enc_rec rs)"

definition entries :: "drec list \<Rightarrow> (bytes \<times> u32) list" where
  "entries rs = map (\<lambda>r. (r_name r, r_ino r)) (filter (\<lambda>r. r_ino r \<noteq> 0) rs)"

lemma length_enc_rec [simp]: "length (enc_rec r) = rlen r"
  by (simp add: enc_rec_def rlen_def)

lemma enc_recs_simps [simp]: "enc_recs [] = []" "enc_recs (r # rs) = enc_rec r @ enc_recs rs" "enc_recs (rs @ qs) = enc_recs rs @ enc_recs qs"
  by (simp_all add: enc_recs_def)

lemma entries_simps [simp]: "entries [] = []" "entries (r # rs) = (if r_ino r \<noteq> 0 then [(r_name r, r_ino r)] else []) @ entries rs"
  "entries (rs @ qs) = entries rs @ entries qs"
  by (simp_all add: entries_def)

lemma rlen_min: "8 \<le> rlen r" "8 + length (r_name r) \<le> rlen r"
  by (simp_all add: rlen_def)

text \<open>Reading the record at an offset.\<close>

lemma chunk_app: "chunk (length pre + k) n (pre @ xs) = chunk k n xs"
  by (simp add: chunk_def)

lemma rec_fields:
  assumes "off = length pre" "rlen r < 65536"
  shows "de_inode off (pre @ enc_rec r @ post) = r_ino r"
    "unat (de_rec_len off (pre @ enc_rec r @ post)) = rlen r" "unat (de_name_len off (pre @ enc_rec r @ post)) = length (r_name r)"
    "de_name off (pre @ enc_rec r @ post) = r_name r @ r_slack r @ post"
proof -
  have n: "length (r_name r) < 65536" using rlen_min(2)[of r] assms(2) by linarith
  let ?b = "enc_rec r @ post"
  have c: "chunk 0 4 ?b = enc32 (r_ino r)" "chunk 4 2 ?b = enc16 (of_nat (rlen r))" "chunk 6 2 ?b = enc16 (of_nat (length (r_name r)))"
    "drop 8 ?b = r_name r @ r_slack r @ post"
    by (simp_all add: enc_rec_def chunk_def)
  show "de_inode off (pre @ ?b) = r_ino r" using c(1) chunk_app[of pre 0] by (simp add: de_inode_def get32_def assms(1))
  show "unat (de_rec_len off (pre @ ?b)) = rlen r" using c(2) chunk_app[of pre 4] assms(2)
    by (simp add: de_rec_len_def get16_def assms(1) unat_of_nat)
  show "unat (de_name_len off (pre @ ?b)) = length (r_name r)" using c(3) chunk_app[of pre 6] n
    by (simp add: de_name_len_def get16_def assms(1) unat_of_nat)
  show "de_name off (pre @ ?b) = r_name r @ r_slack r @ post" using c(4) by (simp add: de_name_def assms(1))
qed

lemma round_up_4:
  fixes x :: u32
  assumes "unat x < 4294967200"
  shows "unat (if x mod 4 \<noteq> 0 then x + (4 - x mod 4) else x) = 4 * ((unat x + 3) div 4)"
proof -
  have m: "unat (x mod 4) = unat x mod 4" by (simp add: unat_mod)
  show ?thesis
  proof (cases "x mod 4 = 0")
    case True
    then have "unat x mod 4 = 0" using m by simp
    then have "unat x = 4 * ((unat x + 3) div 4)" by presburger
    then show ?thesis using True by simp
  next
    case False
    then have nz: "unat x mod 4 \<noteq> 0" using m by (metis unat_eq_0)
    have "unat (4 - x mod 4) = 4 - unat x mod 4" using m by (simp add: unat_diff_u32)
    then have "unat (x + (4 - x mod 4)) = unat x + (4 - unat x mod 4)" using assms by (subst unat_word_ariths(1)) simp
    moreover have "unat x + (4 - unat x mod 4) = 4 * ((unat x + 3) div 4)" using nz by presburger
    ultimately show ?thesis using False by simp
  qed
qed

lemma min_size:
  assumes "n < 65536"
  shows "unat (ext2_dir_entry_min_size (of_nat n)) = 4 * ((n + 11) div 4)"
proof -
  have u: "unat (8 + of_nat n :: u32) = 8 + n" using assms by (simp add: unat_word_ariths unat_of_nat)
  have "unat (8 + of_nat n :: u32) < 4294967200" using assms u by simp
  note r = round_up_4[OF this, unfolded u]
  have "8 + n + 3 = n + 11" by simp
  then show ?thesis using r unfolding ext2_dir_entry_min_size_def Let_def EXT2_DIR_ENTRY_HEADER_SIZE_def EXT2_DIR_ENTRY_ALIGN_SIZE_def by (simp only:)
qed

text \<open>Writing a record over an old one of the same length.\<close>

lemma patch_app: "k + length xs \<le> length old \<Longrightarrow> patch (length pre + k) xs (pre @ old @ post) = pre @ patch k xs old @ post"
  by (simp add: patch_def)

lemma write_entry:
  assumes name: "name = cstr s q" "0 \<notin> set s" "length s \<le> 256"
    and off: "off = length pre" and old: "length old = unat rl" "unat rl < 65536" "4 dvd unat rl" "8 + length s \<le> unat rl"
  shows "ext2_write_dir_entry off rl name inumber (pre @ old @ post) = Some (pre @ enc_rec (Rec inumber s (drop (8 + length s) old)) @ post)"
proof -
  have len: "strlen name = Some (of_nat (length s))" using name strlen_cstr by simp
  have ul: "unat (of_nat (length s) :: u32) = length s" using name(3) by (simp add: unat_of_nat)
  have "unat (ext2_dir_entry_min_size (of_nat (length s))) = 4 * ((length s + 11) div 4)" using name(3) by (intro min_size) simp
  moreover have "4 * ((length s + 11) div 4) \<le> unat rl" using old(3,4) by presburger
  ultimately have a: "ext2_dir_entry_min_size (of_nat (length s)) \<le> rl" "(of_nat (length s) :: u32) \<le> 256"
    using name(3) ul by (simp_all add: word_le_nat_alt)
  obtain h rest where o: "old = h @ rest" "length h = 8" using old(1,4) by (metis append_take_drop_id le_add1 le_trans length_take min.absorb2)
  let ?h = "enc32 inumber @ enc16 (ucast rl) @ enc16 (ucast (of_nat (length s) :: u32))"
  have "put16 (off + 6) (ucast (of_nat (length s) :: u32)) (put16 (off + 4) (ucast rl) (put32 off inumber (pre @ old @ post))) = pre @ ?h @ rest @ post"
    using o(2) by (simp add: o(1) off put32_def put16_def patch_def)
  moreover have "strncpy (rest @ post) name (unat (of_nat (length s) :: u32)) = Some (s @ drop (length s) rest @ post)"
    using strncpy_copies[OF name(2), of "length s" "rest @ post" q] o old(1,4) ul name(1) by (simp add: patch_def)
  moreover have "take (off + 8) (pre @ ?h @ rest @ post) = pre @ ?h" "de_name off (pre @ ?h @ rest @ post) = rest @ post" by (simp_all add: off de_name_def)
  ultimately have "ext2_write_dir_entry off rl name inumber (pre @ old @ post) = Some (pre @ ?h @ s @ drop (length s) rest @ post)"
    using len a by (simp add: ext2_write_dir_entry_def Let_def)
  moreover have "?h @ s @ drop (length s) rest = enc_rec (Rec inumber s (drop (8 + length s) old))"
  proof -
    have "rlen (Rec inumber s (drop (8 + length s) old)) = unat rl" using old(1,4) by (simp add: rlen_def)
    moreover have "ucast rl = (of_nat (unat rl) :: u16)" "ucast (of_nat (length s) :: u32) = (of_nat (length s) :: u16)"
      by (simp, metis of_nat_unat ul)
    ultimately show ?thesis using o by (simp add: enc_rec_def)
  qed
  ultimately show ?thesis by simp
qed

text \<open>The length a name needs, and a record cut down to the length its name needs.\<close>

definition need :: "bytes \<Rightarrow> nat" where
  "need s = 4 * ((length s + 11) div 4)"

definition shrunk :: "drec \<Rightarrow> drec" where
  "shrunk r = Rec (r_ino r) (r_name r) (take (need (r_name r) - (8 + length (r_name r))) (r_slack r))"

fun insert_recs :: "bytes \<Rightarrow> u32 \<Rightarrow> drec list \<Rightarrow> drec list option" where
  "insert_recs s ino [] = None"
| "insert_recs s ino (r # rs) =
     (if r_ino r = 0 then
        (if need s \<le> rlen r then Some (Rec ino s (drop (8 + length s) (enc_rec r)) # rs)
         else map_option (Cons r) (insert_recs s ino rs))
      else if need (r_name r) + need s \<le> rlen r
        then Some (shrunk r # Rec ino s (drop (need (r_name r) + (8 + length s)) (enc_rec r)) # rs)
        else map_option (Cons r) (insert_recs s ino rs))"

lemma need_min: "8 + length s \<le> need s" "4 dvd need s" "need s \<le> length s + 11"
  unfolding need_def by presburger+

lemma shrink_block:
  assumes "need (r_name r) \<le> rlen r" "need (r_name r) < 65536"
  shows "put16 (length pre + 4) (of_nat (need (r_name r))) (pre @ enc_rec r @ post) = pre @ enc_rec (shrunk r) @ drop (need (r_name r)) (enc_rec r) @ post"
    "rlen (shrunk r) = need (r_name r)"
proof -
  let ?k = "need (r_name r) - (8 + length (r_name r))"
  have k: "?k \<le> length (r_slack r)" using assms(1) by (simp add: rlen_def)
  then show l: "rlen (shrunk r) = need (r_name r)" using need_min(1)[of "r_name r"] by (simp add: shrunk_def rlen_def)
  have d: "drop (need (r_name r)) (enc_rec r) = drop ?k (r_slack r)"
    using need_min(1)[of "r_name r"] by (simp add: enc_rec_def)
  show "put16 (length pre + 4) (of_nat (need (r_name r))) (pre @ enc_rec r @ post) = pre @ enc_rec (shrunk r) @ drop (need (r_name r)) (enc_rec r) @ post"
    unfolding d by (simp add: enc_rec_def l put16_def patch_def) (simp add: shrunk_def)
qed

lemma rec_len_word:
  assumes "off = length pre" "rlen r < 65536"
  shows "ucast (de_rec_len off (pre @ enc_rec r @ post)) = (of_nat (rlen r) :: u32)"
    "ucast (de_name_len off (pre @ enc_rec r @ post)) = (of_nat (length (r_name r)) :: u32)"
  using rec_fields(2,3)[OF assms, of post] by (metis of_nat_unat)+

text \<open>What the scans assert of every record.\<close>

lemma scan_asserts:
  fixes bs :: u32
  assumes "rec_ok r" "length pre + rlen r \<le> unat bs"
  shows "(of_nat (rlen r) :: u32) \<ge> EXT2_DIR_ENTRY_HEADER_SIZE" "(of_nat (rlen r) :: u32) mod EXT2_DIR_ENTRY_ALIGN_SIZE = 0"
    "of_nat (length pre) + of_nat (rlen r) \<le> bs" "of_nat (length pre) < bs" "unat (of_nat (length pre) :: u32) = length pre"
    "of_nat (length pre) + of_nat (rlen r) = (of_nat (length (pre @ enc_rec r)) :: u32)"
proof -
  have b: "unat bs < 4294967296" by simp
  have r: "rlen r < 65536" "rlen r mod 4 = 0" using assms(1) by (auto simp: rec_ok_def)
  have u: "unat (of_nat (rlen r) :: u32) = rlen r" using r(1) by (intro word_of_small) simp
  show "(of_nat (rlen r) :: u32) \<ge> EXT2_DIR_ENTRY_HEADER_SIZE" using u rlen_min(1)[of r] by (simp add: word_le_nat_alt EXT2_DIR_ENTRY_HEADER_SIZE_def)
  show "(of_nat (rlen r) :: u32) mod EXT2_DIR_ENTRY_ALIGN_SIZE = 0"
    using u r(2) by (simp add: EXT2_DIR_ENTRY_ALIGN_SIZE_def word_unat_eq_iff unat_mod)
  have p: "length pre < 4294967296" "length pre + rlen r < 4294967296" using assms(2) b by linarith+
  show up: "unat (of_nat (length pre) :: u32) = length pre" by (rule word_of_small[OF p(1)])
  show e: "of_nat (length pre) + of_nat (rlen r) = (of_nat (length (pre @ enc_rec r)) :: u32)" by simp
  have "unat (of_nat (length (pre @ enc_rec r)) :: u32) = length pre + rlen r" using p(2) by (simp add: unat_of_nat del: of_nat_add)
  then show "of_nat (length pre) + of_nat (rlen r) \<le> bs" unfolding e word_le_nat_alt using assms(2) by simp
  show "of_nat (length pre) < bs" unfolding word_less_nat_alt up using assms(2) rlen_min(1)[of r] by linarith
qed

lemma min_size_word: "n < 65536 \<Longrightarrow> length s = n \<Longrightarrow> ext2_dir_entry_min_size (of_nat n) = of_nat (need s)"
  using min_size[of n] by (metis need_def of_nat_unat ucast_id)

lemma map_option_bind: "map_option f x = do { y \<leftarrow> x; Some (f y) }"
  by (cases x) auto

text \<open>One round of the walk, on a record.\<close>

lemma insert_scan_step:
  assumes r: "rec_ok r" "rlen r < 65536" and fit: "length pre + rlen r \<le> unat bs" and ns: "need s < 65536"
  shows "insert_scan bs (of_nat (need s)) name ino (pre @ enc_rec r @ post) (of_nat (length pre)) =
     (if r_ino r = 0 then
        (if need s \<le> rlen r then map_option Some (ext2_write_dir_entry (length pre) (of_nat (rlen r)) name ino (pre @ enc_rec r @ post))
         else insert_scan bs (of_nat (need s)) name ino (pre @ enc_rec r @ post) (of_nat (length pre) + of_nat (rlen r)))
      else if need (r_name r) + need s \<le> rlen r
        then map_option Some (ext2_write_dir_entry (length pre + need (r_name r)) (of_nat (rlen r - need (r_name r))) name ino
               (put16 (length pre + 4) (of_nat (need (r_name r))) (pre @ enc_rec r @ post)))
        else insert_scan bs (of_nat (need s)) name ino (pre @ enc_rec r @ post) (of_nat (length pre) + of_nat (rlen r)))"
proof -
  note A = scan_asserts[OF r(1) fit] and F = rec_fields[OF refl r(2)] and L = rec_len_word[OF refl r(2)]
  let ?m = "need (r_name r)"
  have nr: "length (r_name r) < 65536" "?m < 65547" using need_min(3)[of "r_name r"] rlen_min(2)[of r] r(2) by linarith+
  have m: "ext2_dir_entry_min_size (of_nat (length (r_name r))) = of_nat ?m" using min_size_word[OF nr(1) refl] .
  have c: "(of_nat (need s) :: u32) \<le> of_nat (rlen r) \<longleftrightarrow> need s \<le> rlen r" using ns r(2) by (intro word_of_small(2)) auto
  have "(of_nat (?m + need s) :: u32) \<le> of_nat (rlen r) \<longleftrightarrow> ?m + need s \<le> rlen r" using ns r(2) nr by (intro word_of_small(2)) auto
  then have d: "of_nat ?m + of_nat (need s) \<le> (of_nat (rlen r) :: u32) \<longleftrightarrow> ?m + need s \<le> rlen r" by simp
  have e: "unat (of_nat (length pre) + of_nat ?m :: u32) = length pre + ?m" "ucast (of_nat ?m :: u32) = (of_nat ?m :: u16)"
    if "?m + need s \<le> rlen r"
  proof -
    have "unat bs < 4294967296" by simp
    then have "length pre + ?m < 4294967296" "?m < 4294967296" using fit that by linarith+
    note w = this[THEN word_of_small(1)]
    show "unat (of_nat (length pre) + of_nat ?m :: u32) = length pre + ?m" using w(1) by simp
    show "ucast (of_nat ?m :: u32) = (of_nat ?m :: u16)" using w(2) by (metis of_nat_unat)
  qed
  show ?thesis
    by (subst insert_scan.simps)
      (simp add: A(1-4) A(5) L F(1) m c d e Let_def map_option_bind cong: if_cong)
qed

lemma insert_scan_recs:
  assumes name: "name = cstr s q" "0 \<notin> set s" "length s \<le> 256" and bs: "unat bs \<le> 4096"
  shows "length pre + length (enc_recs rs) = unat bs \<Longrightarrow> \<forall>r \<in> set rs. rec_ok r \<Longrightarrow>
    insert_scan bs (of_nat (need s)) name ino (pre @ enc_recs rs) (of_nat (length pre)) =
      Some (map_option (\<lambda>rs'. pre @ enc_recs rs') (insert_recs s ino rs))"
proof (induction rs arbitrary: pre)
  case Nil
  then have "of_nat (length pre) = bs" by simp
  then show ?case by (subst insert_scan.simps) simp
next
  case (Cons r rs)
  have r: "rec_ok r" "rlen r < 65536" "4 dvd rlen r" "\<forall>r \<in> set rs. rec_ok r" using Cons(3) by (auto simp: rec_ok_def)
  have fit: "length pre + rlen r \<le> unat bs" using Cons(2) by simp
  note A = scan_asserts[OF r(1) fit]
  have ns: "need s < 65536" "need (r_name r) < 65536 + 11" using need_min(3)[of s] need_min(3)[of "r_name r"] name(3) rlen_min(2)[of r] r(2) by linarith+
  have IH: "insert_scan bs (of_nat (need s)) name ino (pre @ enc_recs (r # rs)) (of_nat (length pre) + of_nat (rlen r)) =
      Some (map_option (\<lambda>rs'. (pre @ enc_rec r) @ enc_recs rs') (insert_recs s ino rs))"
    using Cons(1)[of "pre @ enc_rec r"] Cons(2) r(4) unfolding A(6) by simp
  have step: "insert_scan bs (of_nat (need s)) name ino (pre @ enc_recs (r # rs)) (of_nat (length pre)) =
     (if r_ino r = 0 then
        (if need s \<le> rlen r then map_option Some (ext2_write_dir_entry (length pre) (of_nat (rlen r)) name ino (pre @ enc_rec r @ enc_recs rs))
         else insert_scan bs (of_nat (need s)) name ino (pre @ enc_recs (r # rs)) (of_nat (length pre) + of_nat (rlen r)))
      else if need (r_name r) + need s \<le> rlen r
        then map_option Some (ext2_write_dir_entry (length pre + need (r_name r)) (of_nat (rlen r - need (r_name r))) name ino
               (put16 (length pre + 4) (of_nat (need (r_name r))) (pre @ enc_rec r @ enc_recs rs)))
        else insert_scan bs (of_nat (need s)) name ino (pre @ enc_recs (r # rs)) (of_nat (length pre) + of_nat (rlen r)))"
    using insert_scan_step[OF r(1,2) fit] ns(1) by simp
  show ?case
  proof (cases "r_ino r = 0")
    case True
    show ?thesis
    proof (cases "need s \<le> rlen r")
      case fits: True
      have "ext2_write_dir_entry (length pre) (of_nat (rlen r)) name ino (pre @ enc_rec r @ enc_recs rs) =
          Some (pre @ enc_rec (Rec ino s (drop (8 + length s) (enc_rec r))) @ enc_recs rs)"
        by (rule write_entry[OF name refl]) (use r(2,3) fits need_min(1)[of s] in \<open>auto simp: unat_of_nat\<close>)
      then show ?thesis using step True fits by simp
    next
      case False
      then show ?thesis using step True IH by (simp add: option.map_comp comp_def)
    qed
  next
    case live: False
    show ?thesis
    proof (cases "need (r_name r) + need s \<le> rlen r")
      case fits: True
      have nr: "need (r_name r) \<le> rlen r" "need (r_name r) < 65536" using fits r(2) by auto
      note H = shrink_block[OF nr]
      define k where "k = rlen r - need (r_name r)"
      have k: "unat (of_nat k :: u32) = k" "k < 65536" "4 dvd k" "8 + length s \<le> k"
        using r(2,3) fits need_min[of s] need_min(2)[of "r_name r"] word_of_small(1)[of k] by (auto simp: k_def dvd_diff_nat)
      have "ext2_write_dir_entry (length pre + need (r_name r)) (of_nat k) name ino
          ((pre @ enc_rec (shrunk r)) @ drop (need (r_name r)) (enc_rec r) @ enc_recs rs) =
        Some ((pre @ enc_rec (shrunk r)) @ enc_rec (Rec ino s (drop (8 + length s) (drop (need (r_name r)) (enc_rec r)))) @ enc_recs rs)"
        by (rule write_entry[OF name]) (use k H(2) in \<open>auto simp: k_def[symmetric]\<close>)
      then show ?thesis using step live fits H(1)[of pre "enc_recs rs"] unfolding k_def by (simp add: add.commute)
    next
      case False
      then show ?thesis using step live IH by (simp add: option.map_comp comp_def)
    qed
  qed
qed

text \<open>The new entry is the only difference.\<close>

lemma insert_recs_ok:
  "insert_recs s ino rs = Some rs' \<Longrightarrow> length s \<le> 256 \<Longrightarrow> \<forall>r \<in> set rs. rec_ok r \<Longrightarrow>
    (\<forall>r \<in> set rs'. rec_ok r) \<and> length (enc_recs rs') = length (enc_recs rs)"
proof (induction rs arbitrary: rs')
  case (Cons r rs)
  have r: "rec_ok r" "rlen r < 65536" "4 dvd rlen r" using Cons(4) by (auto simp: rec_ok_def)
  have n: "8 + length s \<le> need s" by (rule need_min)
  show ?case
  proof (cases "r_ino r = 0 \<and> need s \<le> rlen r \<or> r_ino r \<noteq> 0 \<and> need (r_name r) + need s \<le> rlen r")
    case True
    then show ?thesis
    proof
      assume a: "r_ino r = 0 \<and> need s \<le> rlen r"
      then have "rlen (Rec ino s (drop (8 + length s) (enc_rec r))) = rlen r" using n by (simp add: rlen_def)
      then show ?thesis using a Cons(2,3,4) r by (auto simp: rec_ok_def)
    next
      assume a: "r_ino r \<noteq> 0 \<and> need (r_name r) + need s \<le> rlen r"
      have "need (r_name r) \<le> rlen r" "need (r_name r) < 65536" using a r(2) by auto
      note H = shrink_block(2)[OF this]
      let ?q = "Rec ino s (drop (need (r_name r) + (8 + length s)) (enc_rec r))"
      have q: "rlen ?q = rlen r - need (r_name r)" using a n by (simp add: rlen_def)
      have "rec_ok (shrunk r)" using H need_min(2)[of "r_name r"] a r Cons(4) by (auto simp: rec_ok_def shrunk_def)
      moreover have "rec_ok ?q" using q r Cons(3) need_min(2)[of "r_name r"] by (auto simp: rec_ok_def dvd_diff_nat)
      ultimately show ?thesis using a Cons(2,4) H q by auto
    qed
  next
    case False
    then obtain qs where "insert_recs s ino rs = Some qs" "rs' = r # qs" using Cons(2) by (auto split: if_splits)
    then show ?thesis using Cons(1)[of qs] Cons(3,4) by auto
  qed
qed simp

lemma insert_recs_entries:
  "insert_recs s ino rs = Some rs' \<Longrightarrow> ino \<noteq> 0 \<Longrightarrow> \<exists>a b. entries rs = a @ b \<and> entries rs' = a @ [(s, ino)] @ b"
proof (induction rs arbitrary: rs')
  case (Cons r rs)
  consider (hole) "r_ino r = 0" "need s \<le> rlen r" | (slack) "r_ino r \<noteq> 0" "need (r_name r) + need s \<le> rlen r"
    | (skip) qs where "insert_recs s ino rs = Some qs" "rs' = r # qs" using Cons(2) by (auto split: if_splits)
  then show ?case
  proof cases
    case hole
    then have "entries (r # rs) = [] @ entries rs" "entries rs' = [] @ [(s, ino)] @ entries rs" using Cons(2,3) by auto
    then show ?thesis by blast
  next
    case slack
    then have "entries (r # rs) = [(r_name r, r_ino r)] @ entries rs" "entries rs' = [(r_name r, r_ino r)] @ [(s, ino)] @ entries rs"
      using Cons(2,3) by (auto simp: shrunk_def)
    then show ?thesis by blast
  next
    case skip
    then obtain a b where "entries rs = a @ b" "entries qs = a @ [(s, ino)] @ b" using Cons(1,3) by blast
    then have "entries (r # rs) = (entries [r] @ a) @ b" "entries rs' = (entries [r] @ a) @ [(s, ino)] @ b" using skip(2) by auto
    then show ?thesis by blast
  qed
qed simp

text \<open>The walk of a removal.\<close>

definition matches :: "bytes \<Rightarrow> drec \<Rightarrow> bool" where
  "matches s r \<longleftrightarrow> r_ino r \<noteq> 0 \<and> r_name r = s"

definition killed :: "drec \<Rightarrow> drec" where
  "killed r = Rec 0 (r_name r) (r_slack r)"

definition merged :: "drec \<Rightarrow> drec \<Rightarrow> drec" where
  "merged p r = Rec (r_ino p) (r_name p) (r_slack p @ enc_rec (killed r))"

fun remove_after :: "bytes \<Rightarrow> drec \<Rightarrow> drec list \<Rightarrow> drec list option" where
  "remove_after s p [] = None"
| "remove_after s p (r # rs) = (if matches s r then Some (merged p r # rs) else map_option (Cons p) (remove_after s r rs))"

fun remove_recs :: "bytes \<Rightarrow> drec list \<Rightarrow> drec list option" where
  "remove_recs s [] = None"
| "remove_recs s (r # rs) = (if matches s r then Some (killed r # rs) else remove_after s r rs)"

lemma rlen_killed [simp]: "rlen (killed r) = rlen r"
  by (simp add: killed_def rlen_def)

lemma rlen_merged [simp]: "rlen (merged p r) = rlen p + rlen r"
  by (simp add: merged_def rlen_def killed_def)

lemma kill_block: "put32 (length pre) 0 (pre @ enc_rec r @ post) = pre @ enc_rec (killed r) @ post"
  by (simp add: put32_def patch_def enc_rec_def) (simp add: killed_def)

lemma merge_block: "put16 (length pre + 4) (of_nat (rlen p + rlen r)) (pre @ enc_rec p @ enc_rec (killed r) @ post) = pre @ enc_rec (merged p r) @ post"
  by (simp add: put16_def patch_def enc_rec_def[of p] enc_rec_def[of "merged p r"]) (simp add: merged_def)

lemma name_matches:
  assumes "name = cstr s q" "0 \<notin> set s" "length s \<le> 256" "rlen r < 65536"
  shows "strlen name = Some (of_nat (length s))"
    "(if r_ino r \<noteq> 0 \<and> of_nat (length (r_name r)) = (of_nat (length s) :: u32)
      then strneq (r_name r @ rest) name (length (r_name r)) else Some False) = Some (matches s r)"
proof -
  have l: "length (r_name r) < 4294967296" "length s < 4294967296" using rlen_min(2)[of r] assms(3,4) by simp_all
  note u = l[THEN word_of_small(1)]
  have e: "of_nat (length (r_name r)) = (of_nat (length s) :: u32) \<longleftrightarrow> length (r_name r) = length s"
  proof
    assume "of_nat (length (r_name r)) = (of_nat (length s) :: u32)"
    from arg_cong[OF this, of unat] show "length (r_name r) = length s" unfolding u .
  qed simp
  show "strlen name = Some (of_nat (length s))" using strlen_cstr[OF assms(2), of q] assms(1) by simp
  show "(if r_ino r \<noteq> 0 \<and> of_nat (length (r_name r)) = (of_nat (length s) :: u32)
      then strneq (r_name r @ rest) name (length (r_name r)) else Some False) = Some (matches s r)"
    unfolding e using strneq_prefix[OF assms(2), of "r_name r" rest q] assms(1) by (auto simp: matches_def)
qed

text \<open>One round, with the offset of the record before.\<close>

lemma remove_scan_step:
  assumes name: "name = cstr s q" "0 \<notin> set s" "length s \<le> 256" and r: "rec_ok r" "rlen r < 65536" and fit: "length pre + rlen r \<le> unat bs"
  shows "remove_scan bs name (pre @ enc_rec r @ post) (of_nat (length pre)) prev =
     (if matches s r then
        Some (Some (case prev of None \<Rightarrow> pre @ enc_rec (killed r) @ post
          | Some p \<Rightarrow> put16 (unat p + 4) (de_rec_len (unat p) (pre @ enc_rec (killed r) @ post) + of_nat (rlen r)) (pre @ enc_rec (killed r) @ post)))
      else remove_scan bs name (pre @ enc_rec r @ post) (of_nat (length pre) + of_nat (rlen r)) (Some (of_nat (length pre))))"
proof -
  note A = scan_asserts[OF r(1) fit] and F = rec_fields[OF refl r(2)] and L = rec_len_word[OF refl r(2)]
  have k: "rlen (killed r) < 65536" using r(2) by simp
  have D: "de_rec_len (length pre) (pre @ enc_rec (killed r) @ post) = of_nat (rlen r)"
    using rec_fields(2)[OF refl k, of pre post] by (metis of_nat_unat rlen_killed ucast_id)
  note M = name_matches[OF name r(2)]
  show ?thesis
    by (subst remove_scan.simps)
      (simp add: A(1-5) L F Let_def D kill_block M cong: if_cong option.case_cong)
qed

lemma remove_scan_after:
  assumes name: "name = cstr s q" "0 \<notin> set s" "length s \<le> 256" and bs: "unat bs \<le> 4096"
  shows "length pre + rlen p + length (enc_recs rs) = unat bs \<Longrightarrow> rec_ok p \<Longrightarrow> \<forall>r \<in> set rs. rec_ok r \<Longrightarrow>
    remove_scan bs name (pre @ enc_rec p @ enc_recs rs) (of_nat (length pre + rlen p)) (Some (of_nat (length pre))) =
      Some (map_option (\<lambda>rs'. pre @ enc_recs rs') (remove_after s p rs))"
proof (induction rs arbitrary: pre p)
  case Nil
  then have "of_nat (length pre + rlen p) = bs" by simp
  then show ?case by (subst remove_scan.simps) simp
next
  case (Cons r rs)
  have r: "rec_ok r" "rlen r < 65536" "rlen p < 65536" "\<forall>r \<in> set rs. rec_ok r" using Cons(3,4) by (auto simp: rec_ok_def)
  have fit: "length (pre @ enc_rec p) + rlen r \<le> unat bs" using Cons(2) by simp
  note S = remove_scan_step[OF name r(1,2) fit, of "enc_recs rs" "Some (of_nat (length pre))"]
  have up: "unat (of_nat (length pre) :: u32) = length pre"
    using fit bs by (intro word_of_small) simp
  have D: "de_rec_len (length pre) (pre @ enc_rec p @ enc_rec (killed r) @ enc_recs rs) = of_nat (rlen p)"
    using rec_fields(2)[OF refl r(3), of pre "enc_rec (killed r) @ enc_recs rs"] by (metis of_nat_unat ucast_id)
  show ?case
  proof (cases "matches s r")
    case True
    then show ?thesis using S D up merge_block[of pre p r "enc_recs rs"] by simp
  next
    case False
    have "remove_scan bs name ((pre @ enc_rec p) @ enc_rec r @ enc_recs rs) (of_nat (length (pre @ enc_rec p) + rlen r)) (Some (of_nat (length (pre @ enc_rec p)))) =
        Some (map_option (\<lambda>rs'. (pre @ enc_rec p) @ enc_recs rs') (remove_after s r rs))"
      by (rule Cons(1)) (use Cons(2) r in auto)
    then show ?thesis using S False by (simp add: option.map_comp comp_def)
  qed
qed

lemma remove_scan_recs:
  assumes name: "name = cstr s q" "0 \<notin> set s" "length s \<le> 256" and bs: "unat bs \<le> 4096"
    and rs: "length (enc_recs rs) = unat bs" "\<forall>r \<in> set rs. rec_ok r"
  shows "remove_scan bs name (enc_recs rs) 0 None = Some (map_option enc_recs (remove_recs s rs))"
proof (cases rs)
  case Nil
  then have "bs = 0" using rs(1) by (simp add: unat_eq_0)
  then show ?thesis using Nil by (subst remove_scan.simps) simp
next
  case (Cons r rs')
  have r: "rec_ok r" "rlen r < 65536" "length ([] :: bytes) + rlen r \<le> unat bs" "\<forall>r \<in> set rs'. rec_ok r"
    using rs Cons by (auto simp: rec_ok_def)
  have "remove_scan bs name ([] @ enc_rec r @ enc_recs rs') (of_nat (length ([] :: bytes) + rlen r)) (Some (of_nat (length ([] :: bytes)))) =
      Some (map_option (\<lambda>rs'. [] @ enc_recs rs') (remove_after s r rs'))"
    by (rule remove_scan_after[OF name bs]) (use rs Cons r in auto)
  then show ?thesis using remove_scan_step[OF name r(1-3), of "enc_recs rs'" None] Cons by simp
qed

lemma remove_after_entries:
  "(remove_after s p rs = None \<longleftrightarrow> s \<notin> fst ` set (entries rs))
   \<and> (\<forall>rs'. remove_after s p rs = Some rs' \<longrightarrow> (\<exists>a i b. entries rs = a @ [(s, i)] @ b \<and> s \<notin> fst ` set a \<and> entries rs' = entries [p] @ a @ b))"
proof (induction rs arbitrary: p)
  case (Cons r rs)
  show ?case
  proof (cases "matches s r")
    case True
    then have "entries (r # rs) = [] @ [(s, r_ino r)] @ entries rs" "entries (merged p r # rs) = entries [p] @ [] @ entries rs"
      by (auto simp: matches_def merged_def)
    then show ?thesis using True by (auto simp: matches_def) (metis append_Nil empty_iff image_empty list.set(1))
  next
    case False
    then have n: "s \<notin> fst ` set (entries [r])" by (auto simp: matches_def)
    have "\<exists>a i b. entries (r # rs) = a @ [(s, i)] @ b \<and> s \<notin> fst ` set a \<and> entries rs' = entries [p] @ a @ b"
      if e: "remove_after s p (r # rs) = Some rs'" for rs'
    proof -
      obtain qs where q: "remove_after s r rs = Some qs" "rs' = p # qs" using e False by auto
      then obtain a i b where "entries rs = a @ [(s, i)] @ b" "s \<notin> fst ` set a" "entries qs = entries [r] @ a @ b" using Cons by blast
      then have "entries (r # rs) = (entries [r] @ a) @ [(s, i)] @ b" "s \<notin> fst ` set (entries [r] @ a)" "entries rs' = entries [p] @ (entries [r] @ a) @ b"
        using q(2) n by auto
      then show ?thesis by blast
    qed
    then show ?thesis using Cons[of r] False n by auto
  qed
qed simp

lemma remove_recs_entries:
  "remove_recs s rs = None \<longleftrightarrow> s \<notin> fst ` set (entries rs)"
  "remove_recs s rs = Some rs' \<Longrightarrow> \<exists>a i b. entries rs = a @ [(s, i)] @ b \<and> s \<notin> fst ` set a \<and> entries rs' = a @ b"
proof -
  show "remove_recs s rs = None \<longleftrightarrow> s \<notin> fst ` set (entries rs)"
    using remove_after_entries by (cases rs) (auto simp: matches_def)
  assume r: "remove_recs s rs = Some rs'"
  then obtain p qs where p: "rs = p # qs" by (cases rs) auto
  show "\<exists>a i b. entries rs = a @ [(s, i)] @ b \<and> s \<notin> fst ` set a \<and> entries rs' = a @ b"
  proof (cases "matches s p")
    case True
    then have "entries rs = [] @ [(s, r_ino p)] @ entries qs" "entries rs' = [] @ entries qs"
      using r p by (auto simp: matches_def killed_def)
    then show ?thesis by (metis empty_iff image_empty list.set(1))
  next
    case False
    then obtain a i b where "entries qs = a @ [(s, i)] @ b" "s \<notin> fst ` set a" "entries rs' = entries [p] @ a @ b"
      using r p remove_after_entries[of s p qs] by auto
    then have "entries rs = (entries [p] @ a) @ [(s, i)] @ b" "s \<notin> fst ` set (entries [p] @ a)" "entries rs' = (entries [p] @ a) @ b"
      using p False by (auto simp: matches_def)
    then show ?thesis by blast
  qed
qed

lemma remove_after_ok:
  "remove_after s p rs = Some rs' \<Longrightarrow> rec_ok p \<Longrightarrow> \<forall>r \<in> set rs. rec_ok r \<Longrightarrow> rlen p + length (enc_recs rs) < 65536 \<Longrightarrow>
    (\<forall>r \<in> set rs'. rec_ok r) \<and> length (enc_recs rs') = rlen p + length (enc_recs rs)"
proof (induction rs arbitrary: p rs')
  case (Cons r rs)
  show ?case
  proof (cases "matches s r")
    case True
    have "rec_ok (merged p r)" using Cons(3,4,5) rlen_merged[of p r] by (auto simp: rec_ok_def merged_def)
    then show ?thesis using True Cons by auto
  next
    case False
    then obtain qs where "remove_after s r rs = Some qs" "rs' = p # qs" using Cons(2) by auto
    then show ?thesis using Cons(1)[of r qs] Cons(3-5) by auto
  qed
qed simp

lemma remove_recs_ok:
  assumes "remove_recs s rs = Some rs'" "\<forall>r \<in> set rs. rec_ok r" "length (enc_recs rs) < 65536"
  shows "\<forall>r \<in> set rs'. rec_ok r" "length (enc_recs rs') = length (enc_recs rs)"
proof -
  obtain p qs where p: "rs = p # qs" using assms(1) by (cases rs) auto
  have "rec_ok (killed p)" using assms(2) p rlen_killed[of p] by (auto simp: rec_ok_def killed_def)
  then show "\<forall>r \<in> set rs'. rec_ok r" "length (enc_recs rs') = length (enc_recs rs)"
    using assms p remove_after_ok[of s p qs rs'] by (auto split: if_splits)
qed

end
