(* ===== verification/Ext2_Dir_Map.thy ===== *)
theory Ext2_Dir_Map
  imports Ext2_Dir
begin

text \<open>
  A directory as a finite map from names to inode numbers: what the operations of \<open>Ext2_Dir\<close> do to
  the records of a whole directory, and that they implement insertion, deletion and lookup of the map.
\<close>

section \<open>Directories\<close>

text \<open>The records \<open>rss ! j\<close> fill block \<open>j\<close>, and the size of the directory is that of its blocks.\<close>

definition dir_inv :: "ext2 \<Rightarrow> cached_inode \<Rightarrow> drec list list \<Rightarrow> bool" where
  "dir_inv fs ci rss \<longleftrightarrow> fs_good fs \<and> file_inv fs ci \<and> node_is_dir ci \<and> \<not> ci_delete_pending ci
     \<and> length rss = unat (ci_data_block_count ci) \<and> unat (inode_size (ci_inode ci)) = length rss * unat (ext2_get_block_size fs)
     \<and> (\<forall>j < length rss. file_data fs ci j = enc_recs (rss ! j) \<and> (\<forall>r \<in> set (rss ! j). rec_ok r))"

lemma dir_invD:
  assumes "dir_inv fs ci rss"
  shows "fs_good fs" "file_inv fs ci" "node_is_dir ci" "\<not> ci_delete_pending ci" "length rss = unat (ci_data_block_count ci)"
    "unat (inode_size (ci_inode ci)) = length rss * unat (ext2_get_block_size fs)" "j < length rss \<Longrightarrow> file_data fs ci j = enc_recs (rss ! j)"
    "j < length rss \<Longrightarrow> \<forall>r \<in> set (rss ! j). rec_ok r" "j < length rss \<Longrightarrow> j < fmax (epb fs)"
    "j < length rss \<Longrightarrow> length (enc_recs (rss ! j)) = unat (ext2_get_block_size fs)" "j < length rss \<Longrightarrow> file_ptr fs ci j \<noteq> 0"
proof -
  show A: "fs_good fs" "file_inv fs ci" "node_is_dir ci" "\<not> ci_delete_pending ci" "length rss = unat (ci_data_block_count ci)"
    "unat (inode_size (ci_inode ci)) = length rss * unat (ext2_get_block_size fs)" "j < length rss \<Longrightarrow> file_data fs ci j = enc_recs (rss ! j)"
    "j < length rss \<Longrightarrow> \<forall>r \<in> set (rss ! j). rec_ok r"
    using assms by (simp_all add: dir_inv_def)
  then show "j < length rss \<Longrightarrow> length (enc_recs (rss ! j)) = unat (ext2_get_block_size fs)" using length_file_data by metis
  show m: "j < length rss \<Longrightarrow> j < fmax (epb fs)" using A(5) file_invD(2)[OF A(2)] by simp
  show "j < length rss \<Longrightarrow> file_ptr fs ci j \<noteq> 0" using file_ptr_props(1)[OF A(2) m] A(5) by simp
qed

lemma dir_index: "dir_inv fs ci rss \<Longrightarrow> i < length rss \<Longrightarrow> unat (of_nat i :: u32) = i"
proof -
  assume "dir_inv fs ci rss" "i < length rss"
  moreover have "unat (ci_data_block_count ci) < 4294967296" by simp
  ultimately show ?thesis using dir_invD(5) by (intro word_of_small) (metis less_trans)
qed

lemma dir_inv_lock [simp]: "dir_inv fs (ci\<lparr>ci_lock := b\<rparr>) rss = dir_inv fs ci rss"
  by (simp add: dir_inv_def file_cong_lock node_is_dir_def)

lemma dir_inv_read:
  assumes d: "dir_inv fs ci rss" and st: "fs_step {} {} fs fs'"
  shows "dir_inv fs' ci rss"
proof -
  note D = dir_invD[OF d] and S = fs_stepD[OF st]
  note K = file_keeps[OF D(1,2) st, simplified]
  have "file_data fs' ci j = file_data fs ci j" if "j < length rss" for j
    by (rule file_data_keeps[OF D(1,2) st _ D(9)[OF that]]) simp
  then show ?thesis using d K(1) S(1,9) by (simp add: dir_inv_def)
qed

text \<open>The changed records of one block are written back.\<close>

lemma dir_inv_write:
  assumes d: "dir_inv fs ci rss" and j: "unat i < length rss" and l: "ci_lock ci"
    and rs: "length (enc_recs rs) = unat (ext2_get_block_size fs)" "\<forall>r \<in> set rs. rec_ok r"
  shows "\<exists>fs'. node_write_block_locked ci i (enc_recs rs) 0 (ext2_get_block_size fs) fs = Some fs' \<and> dir_inv fs' ci (rss[unat i := rs])
    \<and> fs_step (file_blocks fs ci) {} fs fs' \<and> file_blocks fs' ci = file_blocks fs ci"
proof -
  note D = dir_invD[OF d]
  have b: "unat (0 :: u32) + unat (ext2_get_block_size fs) \<le> unat (ext2_get_block_size fs)" "unat (ext2_get_block_size fs) \<le> length (enc_recs rs)"
    using rs by simp_all
  from node_write_block_step[OF D(1,2) D(9)[OF j] l D(11)[OF j] b] obtain fs' where
    w: "node_write_block_locked ci i (enc_recs rs) 0 (ext2_get_block_size fs) fs = Some fs'" "fs_step {file_ptr fs ci (unat i)} {} fs fs'"
      "fs_block fs' (file_ptr fs ci (unat i)) = patch 0 (enc_recs rs) (fs_block fs (file_ptr fs ci (unat i)))" using rs(1) by auto
  have "length (fs_block fs (file_ptr fs ci (unat i))) = unat (ext2_get_block_size fs)"
    using length_file_data[OF D(1), of ci "unat i"] D(11)[OF j] by (simp add: file_data_def block_or_zero_def)
  then have p: "fs_block fs' (file_ptr fs ci (unat i)) = enc_recs rs" using w(3) rs(1) by (simp add: patch_def)
  note W = file_data_write[OF D(1,2) D(9)[OF j] D(11)[OF j] w(2) p] and S = fs_stepD[OF w(2)]
  have "dir_inv fs' ci (rss[unat i := rs])"
    unfolding dir_inv_def using d S(1,9) W rs(2) D(7-9) j by (auto simp: dir_inv_def nth_list_update)
  moreover have "fs_step (file_blocks fs ci) {} fs fs'"
    by (rule fs_step_mono[OF w(2)]) (use file_ptr_props(3)[OF D(2) D(9)[OF j] D(11)[OF j]] in simp)
  ultimately show ?thesis using w(1) W(2) by blast
qed

lemma dir_read_block:
  assumes d: "dir_inv fs ci rss" and j: "unat i < length rss" and l: "ci_lock ci"
  shows "\<exists>fs'. node_read_block_locked ci i fs = Some (enc_recs (rss ! unat i), fs') \<and> dir_inv fs' ci rss \<and> fs_step {} {} fs fs'"
  using node_read_block_step[OF dir_invD(1,2)[OF d] dir_invD(9)[OF d j] l] dir_invD(7)[OF d j] dir_inv_read[OF d] by auto


section \<open>Insertion\<close>

text \<open>A name in memory: terminated, without a zero inside, of at most 256 bytes.\<close>

definition names :: "bytes \<Rightarrow> bytes \<Rightarrow> bool" where
  "names name s \<longleftrightarrow> (\<exists>q. name = cstr s q) \<and> 0 \<notin> set s \<and> 0 < length s \<and> length s \<le> 256"

lemma namesD:
  assumes "names name s"
  obtains q where "name = cstr s q" "0 \<notin> set s" "length s \<le> 256" "strlen name = Some (of_nat (length s))" "0 < length s"
    "0 < (of_nat (length s) :: u32)"
proof -
  obtain q where q: "name = cstr s q" "0 \<notin> set s" "length s \<le> 256" "0 < length s" using assms by (auto simp: names_def)
  have "unat (of_nat (length s) :: u32) = length s" using q(3) by (intro word_of_small) simp
  then have "0 < (of_nat (length s) :: u32)" using q(4) by (simp add: word_less_nat_alt)
  then show thesis using q strlen_cstr[of s q] that by simp
qed

lemma insert_block_step:
  assumes d: "dir_inv fs ci rss" and j: "unat i < length rss" and l: "ci_lock ci" and n: "names name s"
  shows "\<exists>fs'. dir_insert_entry_in_existing_block ci i name ino fs = Some (insert_recs s ino (rss ! unat i) \<noteq> None, fs')
    \<and> (case insert_recs s ino (rss ! unat i) of None \<Rightarrow> dir_inv fs' ci rss \<and> fs_step {} {} fs fs'
       | Some rs \<Rightarrow> dir_inv fs' ci (rss[unat i := rs]) \<and> fs_step (file_blocks fs ci) {} fs fs') \<and> file_blocks fs' ci = file_blocks fs ci"
proof -
  note D = dir_invD[OF d]
  obtain q where q: "name = cstr s q" "0 \<notin> set s" "length s \<le> 256" "strlen name = Some (of_nat (length s))" using n by (rule namesD)
  obtain fs1 where r: "node_read_block_locked ci i fs = Some (enc_recs (rss ! unat i), fs1)" "dir_inv fs1 ci rss" "fs_step {} {} fs fs1"
    using dir_read_block[OF d j l] by blast
  note S = fs_stepD[OF r(3)] and K = file_keeps[OF D(1,2) r(3), simplified]
  have m: "ext2_dir_entry_min_size (of_nat (length s)) = of_nat (need s)" using q(3) by (intro min_size_word) simp_all
  have sc: "insert_scan (ext2_get_block_size fs) (of_nat (need s)) name ino (enc_recs (rss ! unat i)) 0 = Some (map_option enc_recs (insert_recs s ino (rss ! unat i)))"
    using insert_scan_recs[OF q(1-3) fs_goodD(4)[OF D(1)], of "[]" "rss ! unat i" ino] D(8)[OF j] D(10)[OF j] by simp
  show ?thesis
  proof (cases "insert_recs s ino (rss ! unat i)")
    case None
    then show ?thesis using q(4) l m sc r K(2) by (simp add: dir_insert_entry_in_existing_block_def Let_def)
  next
    case (Some rs)
    have rk: "length (enc_recs rs) = unat (ext2_get_block_size fs1)" "\<forall>r \<in> set rs. rec_ok r"
      using insert_recs_ok[OF Some q(3) D(8)[OF j]] D(10)[OF j] S(9) by simp_all
    from dir_inv_write[OF r(2) j l rk] obtain fs2 where w: "node_write_block_locked ci i (enc_recs rs) 0 (ext2_get_block_size fs) fs1 = Some fs2"
      "dir_inv fs2 ci (rss[unat i := rs])" "fs_step (file_blocks fs ci) {} fs1 fs2" "file_blocks fs2 ci = file_blocks fs ci"
      using K(2) S(9) by auto
    have "fs_step (file_blocks fs ci) {} fs fs2" using fs_step_trans[OF r(3) w(3)] by simp
    then show ?thesis using Some q(4) l m sc r(1) w by (simp add: dir_insert_entry_in_existing_block_def Let_def)
  qed
qed

lemma insert_in_blocks_step:
  assumes l: "ci_lock ci" and n: "names name s" and e: "e \<le> length rss"
  shows "dir_inv fs ci rss \<Longrightarrow> i \<le> e \<Longrightarrow> \<exists>ok fs'. insert_in_blocks ci (map of_nat [i..<e]) name ino fs = Some (ok, fs')
    \<and> file_blocks fs' ci = file_blocks fs ci
    \<and> (if ok then \<exists>j < length rss. \<exists>rs. insert_recs s ino (rss ! j) = Some rs \<and> dir_inv fs' ci (rss[j := rs]) \<and> fs_step (file_blocks fs ci) {} fs fs'
       else dir_inv fs' ci rss \<and> fs_step {} {} fs fs')"
proof (induction "e - i" arbitrary: i fs)
  case 0
  then show ?case using fs_step_refl[OF dir_invD(1)[OF 0(2)]] by (auto intro!: exI[of _ False])
next
  case (Suc k)
  have i: "i < e" "k = e - Suc i" "Suc i \<le> e" using Suc(2) by auto
  have u: "unat (of_nat i :: u32) = i" "i < length rss" using i(1) e dir_index[OF Suc(3), of i] by simp_all
  have x: "map of_nat [i..<e] = (of_nat i :: u32) # map of_nat [Suc i..<e]" using i(1) by (simp add: upt_conv_Cons)
  from insert_block_step[OF Suc(3) _ l n, of "of_nat i" ino, unfolded u(1), OF u(2)] obtain fs1 where
    b: "dir_insert_entry_in_existing_block ci (of_nat i) name ino fs = Some (insert_recs s ino (rss ! i) \<noteq> None, fs1)"
      "case insert_recs s ino (rss ! i) of None \<Rightarrow> dir_inv fs1 ci rss \<and> fs_step {} {} fs fs1
       | Some rs \<Rightarrow> dir_inv fs1 ci (rss[i := rs]) \<and> fs_step (file_blocks fs ci) {} fs fs1" "file_blocks fs1 ci = file_blocks fs ci" by blast
  show ?case
  proof (cases "insert_recs s ino (rss ! i)")
    case None
    then have c: "dir_inv fs1 ci rss" "fs_step {} {} fs fs1" using b(2) by simp_all
    from Suc(1)[OF i(2) c(1) i(3)] obtain ok fs' where
      r: "insert_in_blocks ci (map of_nat [Suc i..<e]) name ino fs1 = Some (ok, fs')" "file_blocks fs' ci = file_blocks fs1 ci"
        "if ok then \<exists>j < length rss. \<exists>rs. insert_recs s ino (rss ! j) = Some rs \<and> dir_inv fs' ci (rss[j := rs]) \<and> fs_step (file_blocks fs1 ci) {} fs1 fs'
         else dir_inv fs' ci rss \<and> fs_step {} {} fs1 fs'" by blast
    have t: "fs_step W {} fs1 fs' \<Longrightarrow> fs_step W {} fs fs'" for W using fs_step_trans[OF c(2), of W "{}" fs'] by simp
    have "insert_in_blocks ci (map of_nat [i..<e]) name ino fs = Some (ok, fs')" using b(1) None r(1) x by simp
    then show ?thesis using r(2,3) b(3) t by (cases "ok") auto
  next
    case (Some rs)
    then show ?thesis using b u(2) x by auto
  qed
qed

lemma concat_update:
  assumes "j < length rss" "entries (rss ! j) = a @ xs @ b" "entries rs = a @ ys @ b"
  shows "\<exists>a b. entries (concat rss) = a @ xs @ b \<and> entries (concat (rss[j := rs])) = a @ ys @ b"
proof -
  have "concat rss = concat (take j rss) @ rss ! j @ concat (drop (Suc j) rss)"
    by (metis assms(1) concat.simps(2) concat_append id_take_nth_drop)
  moreover have "concat (rss[j := rs]) = concat (take j rss) @ rs @ concat (drop (Suc j) rss)"
    using assms(1) by (simp add: upd_conv_take_nth_drop)
  ultimately have "entries (concat rss) = (entries (concat (take j rss)) @ a) @ xs @ (b @ entries (concat (drop (Suc j) rss)))"
    "entries (concat (rss[j := rs])) = (entries (concat (take j rss)) @ a) @ ys @ (b @ entries (concat (drop (Suc j) rss)))"
    using assms(2,3) by simp_all
  then show ?thesis by blast
qed


text \<open>A directory without room grows by one block, which the new record fills.\<close>

lemma set_size_file:
  assumes "file_inv fs ci"
  shows "file_inv fs (ci\<lparr>ci_inode := set_inode_size z (ci_inode ci)\<rparr>)" "file_blocks fs (ci\<lparr>ci_inode := set_inode_size z (ci_inode ci)\<rparr>) = file_blocks fs ci"
    "j < fmax (epb fs) \<Longrightarrow> file_data fs (ci\<lparr>ci_inode := set_inode_size z (ci_inode ci)\<rparr>) j = file_data fs ci j"
    "inode_size (set_inode_size z (ci_inode ci)) = z" "inode_mode (set_inode_size z (ci_inode ci)) = inode_mode (ci_inode ci)"
  using file_inv_cong[of "ci\<lparr>ci_inode := set_inode_size z (ci_inode ci)\<rparr>" ci] assms file_invD(1)[OF assms] by (auto simp: inode_fields)

lemma block_of_record:
  assumes "fs_good fs" "names name s" "length fresh = unat (ext2_get_block_size fs)"
  shows "\<exists>r. ext2_write_dir_entry 0 (ext2_get_block_size fs) name ino fresh = Some (enc_recs [r]) \<and> rec_ok r \<and> rlen r = unat (ext2_get_block_size fs)
    \<and> r_ino r = ino \<and> r_name r = s"
proof -
  obtain q where q: "name = cstr s q" "0 \<notin> set s" "length s \<le> 256" using assms(2) by (rule namesD)
  have b: "unat (ext2_get_block_size fs) < 65536" "8 + length s \<le> unat (ext2_get_block_size fs)" "4 dvd unat (ext2_get_block_size fs)"
    using fs_goodD(4)[OF assms(1)] block_size_min[OF assms(1)] q(3) good_sizes[OF assms(1)] by auto
  have "rlen (Rec ino s (drop (8 + length s) fresh)) = unat (ext2_get_block_size fs)" using assms(3) b(2) by (simp add: rlen_def)
  then show ?thesis using write_entry[OF q, of 0 "[]" fresh "ext2_get_block_size fs" ino "[]"] assms(3) b q(3)
    by (intro exI[of _ "Rec ino s (drop (8 + length s) fresh)"]) (simp add: rec_ok_def)
qed

lemma write_new_block:
  assumes x: "extended fs ci fs2 ci2 new" and d: "dir_inv fs ci rss" and l: "ci_lock ci" and n: "unat (ci_data_block_count ci2) = Suc (length rss)"
    and r: "rlen r = unat (ext2_get_block_size fs)"
  shows "\<exists>fs3. node_write_block_locked ci2 (ci_data_block_count ci) (enc_recs [r]) 0 (ext2_get_block_size fs) fs2 = Some fs3
    \<and> fs_step (file_blocks fs ci \<union> new) {} fs2 fs3 \<and> file_inv fs3 ci2 \<and> file_blocks fs3 ci2 = file_blocks fs ci \<union> new
    \<and> (\<forall>j < fmax (epb fs). file_data fs3 ci2 j = (if j = length rss then enc_recs [r] else file_data fs ci j))"
proof -
  have X: "fs_step (file_blocks fs ci) new fs fs2" "file_inv fs2 ci2" "file_blocks fs2 ci2 = file_blocks fs ci \<union> new"
    "\<forall>j < fmax (epb fs). file_data fs2 ci2 j = file_data fs ci j" "ci2 = ci\<lparr>ci_inode := ci_inode ci2, ci_data_block_count := ci_data_block_count ci2\<rparr>"
    using x by (auto simp: extended_def)
  note S = fs_stepD[OF X(1)] and D = dir_invD[OF d]
  have lk: "ci_lock ci2" using arg_cong[OF X(5), of ci_lock] l by simp
  let ?i = "unat (ci_data_block_count ci)"
  have i: "?i < fmax (epb fs2)" "?i = length rss" using file_invD(2)[OF X(2)] n D(5) by auto
  have p: "file_ptr fs2 ci2 ?i \<noteq> 0" using file_ptr_props(1)[OF X(2) i(1)] n i(2) by simp
  have b: "unat (0 :: u32) + unat (ext2_get_block_size fs) \<le> unat (ext2_get_block_size fs2)" "unat (ext2_get_block_size fs) \<le> length (enc_recs [r])"
    using r S(9) by simp_all
  from node_write_block_step[OF S(1) X(2) i(1) lk p b] obtain fs3 where
    w: "node_write_block_locked ci2 (ci_data_block_count ci) (enc_recs [r]) 0 (ext2_get_block_size fs) fs2 = Some fs3"
      "fs_step {file_ptr fs2 ci2 ?i} {} fs2 fs3"
      "fs_block fs3 (file_ptr fs2 ci2 ?i) = patch 0 (enc_recs [r]) (fs_block fs2 (file_ptr fs2 ci2 ?i))" using r by auto
  have "length (fs_block fs2 (file_ptr fs2 ci2 ?i)) = rlen r"
    using length_file_data[OF S(1), of ci2 ?i] p S(9) r by (simp add: file_data_def block_or_zero_def)
  then have q: "fs_block fs3 (file_ptr fs2 ci2 ?i) = enc_recs [r]" using w(3) by (simp add: patch_def)
  note W = file_data_write[OF S(1) X(2) i(1) p w(2) q]
  have "fs_step (file_blocks fs ci \<union> new) {} fs2 fs3"
    by (rule fs_step_mono[OF w(2)]) (use file_ptr_props(3)[OF X(2) i(1) p] X(3) in auto)
  then show ?thesis using w(1) W X(3,4) S(6) i(2) by auto
qed

definition dir_added :: "ext2 \<Rightarrow> cached_inode \<Rightarrow> nat \<Rightarrow> nat \<Rightarrow> ext2 \<Rightarrow> cached_inode \<Rightarrow> bool" where
  "dir_added fs ci g k fs' ci' \<longleftrightarrow> others_kept fs ci g k fs' ci' \<and> (disk_inode fs g k = ci_inode ci \<longrightarrow> disk_inode fs' g k = ci_inode ci')
     \<and> ci_lock ci' = ci_lock ci \<and> ci_inumber ci' = ci_inumber ci \<and> same_shape fs fs' \<and> free_inumbers fs' = free_inumbers fs"

lemma add_block_step:
  assumes d: "dir_inv fs ci rss" and l: "ci_lock ci" and room: "4 \<le> card (free_blocks fs)"
    "unat (inode_size (ci_inode ci)) + unat (ext2_get_block_size fs) < 4294967296"
    and e: "inode_exists fs g k" "ci_inumber ci = inumber_at fs g k"
    and r: "rec_ok r" "rlen r = unat (ext2_get_block_size fs)"
  shows "\<exists>blk fs1 ci2 fs2 fs3 fs4. alloc_block fs = Some (blk, fs1) \<and> blk \<noteq> - 1 \<and> node_add_block blk ci fs1 = Some (True, ci2, fs2)
    \<and> node_write_block_locked ci2 (ci_data_block_count ci) (enc_recs [r]) 0 (ext2_get_block_size fs) fs2 = Some fs3
    \<and> (\<exists>ci4. ci4 = ci2\<lparr>ci_inode := set_inode_size (inode_size (ci_inode ci2) + ext2_get_block_size fs) (ci_inode ci2)\<rparr>
      \<and> node_sync_inode ci4 fs3 = Some fs4 \<and> dir_inv fs4 ci4 (rss @ [[r]]) \<and> dir_added fs ci g k fs4 ci4)"
proof -
  let ?bs = "ext2_get_block_size fs"
  note D = dir_invD[OF d]
  have "length rss * unat ?bs < 4294967296" "unat ?bs \<noteq> 0" using room(2) D(6) block_size_min(1)[OF D(1)] by simp_all
  then have m: "unat (ci_data_block_count ci) < fmax (epb fs)" using offset_in_reach[OF D(1), of "length rss * unat ?bs"] D(5) by simp
  from append_step[OF D(1,2) m room(1)] obtain blk fs1 ci2 fs2 new where
    a: "alloc_block fs = Some (blk, fs1)" "node_add_block blk ci fs1 = Some (True, ci2, fs2)" "extended fs ci fs2 ci2 new"
      "unat (ci_data_block_count ci2) = Suc (length rss)" using D(5) by auto
  have bm: "blk \<noteq> - 1" using alloc_block_step[OF D(1)] a(1) by auto
  have X: "fs_step (file_blocks fs ci) new fs fs2" "inode_size (ci_inode ci2) = inode_size (ci_inode ci)" "inode_mode (ci_inode ci2) = inode_mode (ci_inode ci)"
    "ci2 = ci\<lparr>ci_inode := ci_inode ci2, ci_data_block_count := ci_data_block_count ci2\<rparr>" using a(3) by (auto simp: extended_def)
  note S = fs_stepD[OF X(1)]
  have fl: "ci_lock ci2 = ci_lock ci" "ci_inumber ci2 = ci_inumber ci" "ci_delete_pending ci2 = ci_delete_pending ci"
    using arg_cong[OF X(4), of ci_lock] arg_cong[OF X(4), of ci_inumber] arg_cong[OF X(4), of ci_delete_pending] by simp_all
  from write_new_block[OF a(3) d l a(4) r(2)] obtain fs3 where
    w: "node_write_block_locked ci2 (ci_data_block_count ci) (enc_recs [r]) 0 ?bs fs2 = Some fs3" "fs_step (file_blocks fs ci \<union> new) {} fs2 fs3"
      "file_inv fs3 ci2" "file_blocks fs3 ci2 = file_blocks fs ci \<union> new"
      "\<And>j. j < fmax (epb fs) \<Longrightarrow> file_data fs3 ci2 j = (if j = length rss then enc_recs [r] else file_data fs ci j)" by blast
  have st: "fs_step (file_blocks fs ci) new fs fs3" by (rule fs_step_mono[OF fs_step_trans[OF X(1) w(2), simplified]]) auto
  note S3 = fs_stepD[OF st] and H3 = same_shapeD[OF fs_stepD(2)[OF st]]
  define ci4 where "ci4 = ci2\<lparr>ci_inode := set_inode_size (inode_size (ci_inode ci2) + ?bs) (ci_inode ci2)\<rparr>"
  note Z = set_size_file[OF w(3), where z = "inode_size (ci_inode ci2) + ?bs", folded ci4_def]
  have ex: "inode_exists fs3 g' l' = inode_exists fs g' l'" "inumber_at fs3 = inumber_at fs" "itable_blocks fs3 = itable_blocks fs" for g' l'
    using H3 by (auto simp: inode_exists_def)
  have in4: "ci_inumber ci4 = inumber_at fs3 g k" using fl(2) e(2) ex(2) by (simp add: ci4_def)
  from sync_file[OF S3(1) Z(1) e(1)[folded ex(1)] in4] obtain fs4 where
    y: "node_sync_inode ci4 fs3 = Some fs4" "fs_step (itable_blocks fs) {} fs3 fs4" "file_inv fs4 ci4" "file_blocks fs4 ci4 = file_blocks fs ci \<union> new"
      "\<And>g' l'. inode_exists fs g' l' \<Longrightarrow> disk_inode fs4 g' l' = (if g' = g \<and> l' = k then ci_inode ci4 else disk_inode fs3 g' l')"
    by (auto simp: ex Z(2) w(4))
  have gone: "file_blocks fs ci \<inter> itable_blocks fs = {}" "new \<inter> itable_blocks fs = {}"
    using file_invD(3)[OF D(2)] S(3) fs_goodD(10)[OF D(1)] by (auto simp: owned_def file_block_def)
  have di: "disk_inode fs4 g' l' = (if g' = g \<and> l' = k then ci_inode ci4 else disk_inode fs g' l')" if "inode_exists fs g' l'" for g' l'
    using y(5)[OF that] disk_inode_keeps[OF D(1) st gone(1) that] by simp
  have st4: "fs_step (file_blocks fs ci \<union> itable_blocks fs) new fs fs4" by (rule fs_step_mono[OF fs_step_trans[OF st y(2), simplified]]) auto
  then have "others_kept fs ci g k fs4 ci4" by (rule others_kept_step[OF D(1)]) (use y(4) di in auto)
  then have ad: "dir_added fs ci g k fs4 ci4" using di[OF e(1)] fl st4 by (simp add: dir_added_def ci4_def fs_step_def)
  have "dir_inv fs4 ci4 (rss @ [[r]])" unfolding dir_inv_def
  proof (intro conjI allI impI)
    have "unat (inode_size (ci_inode ci) + ?bs) = unat (inode_size (ci_inode ci)) + unat ?bs" using room(2) by (simp add: unat_word_ariths)
    then show "unat (inode_size (ci_inode ci4)) = length (rss @ [[r]]) * unat (ext2_get_block_size fs4)"
      using Z(4) X(2) D(6) fs_stepD(9)[OF y(2)] S3(9) by (simp add: ci4_def)
    fix j assume j: "j < length (rss @ [[r]])"
    then have jm: "j < fmax (epb fs)" using m D(5) by simp
    have "file_data fs4 ci4 j = file_data fs3 ci4 j"
      by (rule file_data_keeps[OF S3(1) Z(1) y(2)]) (use Z(2) w(4) gone jm S3(6) in auto)
    then have "file_data fs4 ci4 j = (if j = length rss then enc_recs [r] else file_data fs ci j)" using Z(3)[of j] w(5)[OF jm] jm S3(6) by simp
    then show "file_data fs4 ci4 j = enc_recs ((rss @ [[r]]) ! j)" using j D(7)[of j] by (simp add: nth_append)
    show "\<forall>x \<in> set ((rss @ [[r]]) ! j). rec_ok x" using j D(8)[of j] r(1) by (simp add: nth_append)
  qed (use fs_stepD(1)[OF y(2)] y(3) D(3,4) X(3) Z(5) fl a(4) in \<open>auto simp: node_is_dir_def ci4_def\<close>)
  then show ?thesis using a(1,2) bm w(1) y(1) ad unfolding ci4_def by blast
qed

lemma dir_added_inside:
  assumes "fs_good fs" "file_inv fs ci" "fs_step (file_blocks fs ci) {} fs fs'" "file_blocks fs' ci = file_blocks fs ci" "inode_exists fs g k"
  shows "dir_added fs ci g k fs' ci"
proof -
  have "file_blocks fs ci \<inter> itable_blocks fs = {}" using file_invD(3)[OF assms(2)] by (auto simp: owned_def file_block_def)
  then have di: "disk_inode fs' g' l' = disk_inode fs g' l'" if "inode_exists fs g' l'" for g' l'
    by (rule disk_inode_keeps[OF assms(1,3) _ that])
  have st: "fs_step (file_blocks fs ci \<union> itable_blocks fs) {} fs fs'" by (rule fs_step_mono[OF assms(3)]) auto
  show ?thesis using others_kept_step[OF assms(1) st, of ci g k] assms(3-5) di by (simp add: dir_added_def fs_step_def)
qed

lemma ci_unlocked_same [simp]: "\<not> ci_lock ci \<Longrightarrow> ci\<lparr>ci_lock := False\<rparr> = ci"
  by (cases ci) simp

lemma dir_added_lock: "dir_added fs (ci\<lparr>ci_lock := True\<rparr>) g k fs' ci' \<Longrightarrow> \<not> ci_lock ci \<Longrightarrow> dir_added fs ci g k fs' (ci'\<lparr>ci_lock := False\<rparr>)"
  by (simp add: dir_added_def others_kept_def file_cong_lock)

lemma dir_added_trans_read:
  assumes "fs_good fs" "fs_step {} {} fs fs1" "file_inv fs ci" "dir_added fs1 ci g k fs' ci'" "inode_exists fs g k"
  shows "dir_added fs ci g k fs' ci'"
proof -
  note S = fs_stepD[OF assms(2)] and H = same_shapeD[OF fs_stepD(2)[OF assms(2)]]
  have ex: "inode_exists fs1 g' l' = inode_exists fs g' l'" for g' l' using H by (simp add: inode_exists_def)
  have di: "disk_inode fs1 g' l' = disk_inode fs g' l'" if "inode_exists fs g' l'" for g' l' by (rule disk_inode_keeps[OF assms(1,2) _ that]) simp
  have "file_inv fs1 ot \<and> file_blocks fs1 ot = file_blocks fs ot \<and> (\<forall>q < 4294967296. file_byte fs1 ot q = file_byte fs ot q)" if "file_inv fs ot" for ot
    using file_keeps(1,2)[OF assms(1) that assms(2)] file_byte_keeps[OF assms(1) that assms(2)] by simp
  moreover have "same_shape fs fs'" using assms(4) S(2) by (auto simp: dir_added_def intro: same_shape_trans)
  ultimately show ?thesis using assms(3-5) ex di S(5) unfolding dir_added_def others_kept_def by simp
qed

lemma dir_add_step:
  assumes d: "dir_inv fs ci rss" and l: "\<not> ci_lock ci" and n: "names name s" and i: "ino \<noteq> 0"
    and fr: "length fresh = unat (ext2_get_block_size fs)" and room: "4 \<le> card (free_blocks fs)"
    "unat (inode_size (ci_inode ci)) + unat (ext2_get_block_size fs) < 4294967296"
    and e: "inode_exists fs g k" "ci_inumber ci = inumber_at fs g k"
  shows "\<exists>ci' fs' rss' a b. dir_add_entry fresh ci name ino fs = Some (True, ci', fs') \<and> dir_inv fs' ci' rss'
    \<and> entries (concat rss) = a @ b \<and> entries (concat rss') = a @ [(s, ino)] @ b \<and> dir_added fs ci g k fs' ci'"
proof -
  let ?ci = "ci\<lparr>ci_lock := True\<rparr>"
  note D = dir_invD[OF d]
  have d': "dir_inv fs ?ci rss" "ci_lock ?ci" using d by simp_all
  note D' = dir_invD[OF d'(1)]
  obtain q where q: "strlen name = Some (of_nat (length s))" "0 < (of_nat (length s) :: u32)" using n by (rule namesD)
  have ix: "indices_below (ci_data_block_count ci) = map of_nat [0..<length rss]" using D(5) by (simp add: indices_below_def)
  from insert_in_blocks_step[OF d'(2) n le_refl d'(1) le0, of ino] obtain ok fs1 where
    b: "insert_in_blocks ?ci (map of_nat [0..<length rss]) name ino fs = Some (ok, fs1)" "file_blocks fs1 ?ci = file_blocks fs ?ci"
      "if ok then \<exists>j < length rss. \<exists>rs. insert_recs s ino (rss ! j) = Some rs \<and> dir_inv fs1 ?ci (rss[j := rs]) \<and> fs_step (file_blocks fs ?ci) {} fs fs1
       else dir_inv fs1 ?ci rss \<and> fs_step {} {} fs fs1" by blast
  note defs = dir_add_entry_def dir_add_entry_locked_def ci_lock_acquire_def ci_lock_release_def Let_def
  show ?thesis
  proof (cases ok)
    case True
    then obtain j rs where j: "j < length rss" "insert_recs s ino (rss ! j) = Some rs" "dir_inv fs1 ?ci (rss[j := rs])" "fs_step (file_blocks fs ?ci) {} fs fs1"
      using b(3) by auto
    obtain a c where ac: "entries (rss ! j) = a @ [] @ c" "entries rs = a @ [(s, ino)] @ c" using insert_recs_entries[OF j(2) i] by auto
    have run: "dir_add_entry fresh ci name ino fs = Some (True, ci, fs1)"
      using l True b(1) q ix D'(3,4) by (simp add: defs)
    have "dir_added fs ci g k fs1 (?ci\<lparr>ci_lock := False\<rparr>)"
      by (rule dir_added_lock[OF dir_added_inside[OF D'(1,2) j(4) b(2) e(1)] l])
    then have "dir_added fs ci g k fs1 ci" using l by simp
    then show ?thesis using run j(3) concat_update[OF j(1) ac] by auto
  next
    case False
    then have r: "dir_inv fs1 ?ci rss" "fs_step {} {} fs fs1" using b(3) by auto
    note S = fs_stepD[OF r(2)] and H = same_shapeD[OF fs_stepD(2)[OF r(2)]]
    have fr1: "length fresh = unat (ext2_get_block_size fs1)" using fr S(9) by simp
    obtain r1 where w: "ext2_write_dir_entry 0 (ext2_get_block_size fs) name ino fresh = Some (enc_recs [r1])" "rec_ok r1"
      "rlen r1 = unat (ext2_get_block_size fs1)" "r_ino r1 = ino" "r_name r1 = s" using block_of_record[OF S(1) n fr1, of ino] S(9) by auto
    have pre: "4 \<le> card (free_blocks fs1)" "unat (inode_size (ci_inode ?ci)) + unat (ext2_get_block_size fs1) < 4294967296"
      "inode_exists fs1 g k" "ci_inumber ?ci = inumber_at fs1 g k" using room e S(4,9) H by (auto simp: inode_exists_def)
    from add_block_step[OF r(1) d'(2) pre w(2,3)] obtain blk fs2 ci3 fs3 fs4 fs5 ci5 where
      a: "alloc_block fs1 = Some (blk, fs2)" "blk \<noteq> - 1" "node_add_block blk ?ci fs2 = Some (True, ci3, fs3)"
        "node_write_block_locked ci3 (ci_data_block_count ?ci) (enc_recs [r1]) 0 (ext2_get_block_size fs1) fs3 = Some fs4"
        "ci5 = ci3\<lparr>ci_inode := set_inode_size (inode_size (ci_inode ci3) + ext2_get_block_size fs1) (ci_inode ci3)\<rparr>"
        "node_sync_inode ci5 fs4 = Some fs5" "dir_inv fs5 ci5 (rss @ [[r1]])" "dir_added fs1 ?ci g k fs5 ci5" by blast
    have run: "dir_add_entry fresh ci name ino fs = Some (True, ci5\<lparr>ci_lock := False\<rparr>, fs5)"
      using l False b(1) q ix D'(3,4) a(1-4,6) w(1) S(9) by (simp add: defs a(5))
    have "dir_added fs ci g k fs5 (ci5\<lparr>ci_lock := False\<rparr>)"
      by (rule dir_added_lock[OF dir_added_trans_read[OF D'(1) r(2) D'(2) a(8) e(1)] l])
    moreover have "entries (concat (rss @ [[r1]])) = entries (concat rss) @ [(s, ino)] @ []" using w(4,5) i by simp
    ultimately show ?thesis using run a(7) by (metis append_Nil2 dir_inv_lock)
  qed
qed



section \<open>Removal\<close>

lemma remove_in_blocks_step:
  assumes l: "ci_lock ci" and n: "names name s" and e: "e \<le> length rss"
  shows "dir_inv fs ci rss \<Longrightarrow> i \<le> e \<Longrightarrow> \<forall>j < i. s \<notin> fst ` set (entries (rss ! j)) \<Longrightarrow>
    \<exists>ok fs'. remove_in_blocks ci (map of_nat [i..<e]) name fs = Some (ok, fs') \<and> file_blocks fs' ci = file_blocks fs ci
    \<and> (if ok then \<exists>j < length rss. \<exists>rs. remove_recs s (rss ! j) = Some rs \<and> dir_inv fs' ci (rss[j := rs]) \<and> fs_step (file_blocks fs ci) {} fs fs'
         \<and> (\<forall>j' < j. s \<notin> fst ` set (entries (rss ! j')))
       else dir_inv fs' ci rss \<and> fs_step {} {} fs fs' \<and> (\<forall>j < e. s \<notin> fst ` set (entries (rss ! j))))"
proof (induction "e - i" arbitrary: i fs)
  case 0
  then show ?case using fs_step_refl[OF dir_invD(1)[OF 0(2)]] by (auto intro!: exI[of _ False])
next
  case (Suc k)
  have i: "i < e" "k = e - Suc i" "Suc i \<le> e" using Suc(2) by auto
  have u: "unat (of_nat i :: u32) = i" "i < length rss" using i(1) e dir_index[OF Suc(3), of i] by simp_all
  have x: "map of_nat [i..<e] = (of_nat i :: u32) # map of_nat [Suc i..<e]" using i(1) by (simp add: upt_conv_Cons)
  note D = dir_invD[OF Suc(3)]
  obtain q where q: "name = cstr s q" "0 \<notin> set s" "length s \<le> 256" using n by (rule namesD)
  from dir_read_block[OF Suc(3) _ l, of "of_nat i", unfolded u(1), OF u(2)] obtain fs1 where
    r: "node_read_block_locked ci (of_nat i) fs = Some (enc_recs (rss ! i), fs1)" "dir_inv fs1 ci rss" "fs_step {} {} fs fs1" by blast
  note S = fs_stepD[OF r(3)] and K = file_keeps[OF D(1,2) r(3), simplified]
  have sc: "remove_scan (ext2_get_block_size fs1) name (enc_recs (rss ! i)) 0 None = Some (map_option enc_recs (remove_recs s (rss ! i)))"
    by (rule remove_scan_recs[OF q]) (use S(9) fs_goodD(4)[OF D(1)] D(8,10)[OF u(2)] in auto)
  show ?case
  proof (cases "remove_recs s (rss ! i)")
    case None
    then have "\<forall>j < Suc i. s \<notin> fst ` set (entries (rss ! j))" using Suc(5) remove_recs_entries(1) by (auto simp: less_Suc_eq)
    from Suc(1)[OF i(2) r(2) i(3) this] obtain ok fs' where
      c: "remove_in_blocks ci (map of_nat [Suc i..<e]) name fs1 = Some (ok, fs')" "file_blocks fs' ci = file_blocks fs1 ci"
        "if ok then \<exists>j < length rss. \<exists>rs. remove_recs s (rss ! j) = Some rs \<and> dir_inv fs' ci (rss[j := rs]) \<and> fs_step (file_blocks fs1 ci) {} fs1 fs'
           \<and> (\<forall>j' < j. s \<notin> fst ` set (entries (rss ! j')))
         else dir_inv fs' ci rss \<and> fs_step {} {} fs1 fs' \<and> (\<forall>j < e. s \<notin> fst ` set (entries (rss ! j)))" by blast
    have t: "fs_step W {} fs1 fs' \<Longrightarrow> fs_step W {} fs fs'" for W using fs_step_trans[OF r(3), of W "{}" fs'] by simp
    have "remove_in_blocks ci (map of_nat [i..<e]) name fs = Some (ok, fs')" using r(1) sc None c(1) x by simp
    then show ?thesis using c(2,3) K(2) t by (cases ok) auto
  next
    case (Some rs)
    have b: "length (enc_recs (rss ! i)) < 65536" using D(10)[OF u(2)] fs_goodD(4)[OF D(1)] by simp
    note ok = remove_recs_ok[OF Some D(8)[OF u(2)] b]
    have rk: "length (enc_recs rs) = unat (ext2_get_block_size fs1)" using ok(2) D(10)[OF u(2)] S(9) by simp
    from dir_inv_write[OF r(2) _ l rk ok(1), of "of_nat i", unfolded u(1), OF u(2)] obtain fs2 where
      w: "node_write_block_locked ci (of_nat i) (enc_recs rs) 0 (ext2_get_block_size fs1) fs1 = Some fs2"
      "dir_inv fs2 ci (rss[i := rs])" "fs_step (file_blocks fs ci) {} fs1 fs2" "file_blocks fs2 ci = file_blocks fs ci"
      using K(2) by auto
    have "fs_step (file_blocks fs ci) {} fs fs2" using fs_step_trans[OF r(3) w(3)] by simp
    moreover have "remove_in_blocks ci (map of_nat [i..<e]) name fs = Some (True, fs2)" using r(1) sc Some w(1) x by simp
    ultimately show ?thesis using w(2,4) u(2) Some Suc(5) by (intro exI[of _ True] exI[of _ fs2]) auto
  qed
qed

lemma concat_names: "fst ` set (entries (concat rss)) = (\<Union>rs \<in> set rss. fst ` set (entries rs))"
  by (induction rss) (simp_all add: image_Un)

lemma dir_remove_step:
  assumes d: "dir_inv fs ci rss" and l: "\<not> ci_lock ci" and n: "names name s" and e: "inode_exists fs g k"
  shows "\<exists>fs' rss'. dir_remove_entry ci name fs = Some (s \<in> fst ` set (entries (concat rss)), ci, fs') \<and> dir_inv fs' ci rss' \<and> dir_added fs ci g k fs' ci
    \<and> (if s \<in> fst ` set (entries (concat rss))
       then \<exists>a i b. entries (concat rss) = a @ [(s, i)] @ b \<and> entries (concat rss') = a @ b else rss' = rss)"
proof -
  let ?ci = "ci\<lparr>ci_lock := True\<rparr>"
  note D = dir_invD[OF d]
  have d': "dir_inv fs ?ci rss" "ci_lock ?ci" using d by simp_all
  note D' = dir_invD[OF d'(1)]
  have ix: "indices_below (ci_data_block_count ci) = map of_nat [0..<length rss]" using D(5) by (simp add: indices_below_def)
  from remove_in_blocks_step[OF d'(2) n le_refl d'(1) le0] obtain ok fs1 where
    b: "remove_in_blocks ?ci (map of_nat [0..<length rss]) name fs = Some (ok, fs1)" "file_blocks fs1 ?ci = file_blocks fs ?ci"
      "if ok then \<exists>j < length rss. \<exists>rs. remove_recs s (rss ! j) = Some rs \<and> dir_inv fs1 ?ci (rss[j := rs]) \<and> fs_step (file_blocks fs ?ci) {} fs fs1
         \<and> (\<forall>j' < j. s \<notin> fst ` set (entries (rss ! j')))
       else dir_inv fs1 ?ci rss \<and> fs_step {} {} fs fs1 \<and> (\<forall>j < length rss. s \<notin> fst ` set (entries (rss ! j)))" by auto
  have st: "fs_step (file_blocks fs ?ci) {} fs fs1" using b(3) fs_step_mono[of "{}" "{}" fs fs1 "file_blocks fs ?ci"] by (auto split: if_splits)
  have ad: "dir_added fs ci g k fs1 ci" using dir_added_lock[OF dir_added_inside[OF D'(1,2) st b(2) e] l] l by simp
  have run: "dir_remove_entry ci name fs = Some (ok, ci, fs1)"
    using l b(1) ix D'(3,4) by (simp add: dir_remove_entry_def dir_remove_entry_locked_def ci_lock_acquire_def ci_lock_release_def)
  have mem: "s \<in> fst ` set (entries (concat rss)) \<longleftrightarrow> (\<exists>j < length rss. s \<in> fst ` set (entries (rss ! j)))"
    unfolding concat_names by (metis (no_types, lifting) UN_iff in_set_conv_nth)
  show ?thesis
  proof (cases ok)
    case True
    then obtain j rs where j: "j < length rss" "remove_recs s (rss ! j) = Some rs" "dir_inv fs1 ?ci (rss[j := rs])" using b(3) by auto
    obtain a i c where ac: "entries (rss ! j) = a @ [(s, i)] @ c" "entries rs = a @ [] @ c" using remove_recs_entries(2)[OF j(2)] by auto
    have "s \<in> fst ` set (entries (concat rss))" using mem j(1) ac(1) by (auto intro!: exI[of _ j])
    then show ?thesis using run True j(3) ad concat_update[OF j(1) ac] by auto
  next
    case False
    then have "s \<notin> fst ` set (entries (concat rss))" "dir_inv fs1 ci rss" using b(3) mem by auto
    then show ?thesis using run False ad by auto
  qed
qed



section \<open>Lookup\<close>

text \<open>The bytes of the directory are its records, block after block.\<close>

lemma dir_bytes:
  assumes d: "dir_inv fs ci rss"
  shows "file_bytes fs ci 0 (length rss * unat (ext2_get_block_size fs)) = enc_recs (concat rss)"
proof -
  let ?b = "unat (ext2_get_block_size fs)"
  note D = dir_invD[OF d]
  have "n \<le> length rss \<Longrightarrow> file_bytes fs ci 0 (n * ?b) = enc_recs (concat (take n rss))" for n
  proof (induction n)
    case 0
    show ?case by (simp add: file_bytes_def)
  next
    case (Suc n)
    then have n: "n < length rss" by simp
    have "chunk 0 ?b (file_data fs ci n) = file_bytes fs ci (n * ?b) ?b" using chunk_file_data[OF D(1), of 0 ?b ci n] by simp
    then have "file_bytes fs ci (n * ?b) ?b = enc_recs (rss ! n)" using D(7)[OF n] length_file_data[OF D(1), of ci n] by (simp add: chunk_def)
    then show ?case using Suc n file_bytes_append[of fs ci 0 "n * ?b" ?b] by (simp add: take_Suc_conv_app_nth add.commute)
  qed
  from this[of "length rss"] show ?thesis by simp
qed

lemma file_bytes_sub: "m + n \<le> k \<Longrightarrow> file_bytes fs ci m n = take n (drop m (file_bytes fs ci 0 k))"
  by (simp add: file_bytes_def take_map drop_map drop_upt take_upt)

text \<open>Reading the record at an index of the directory.\<close>

lemma chunk_prefix: "off + n \<le> k \<Longrightarrow> k \<le> length xs \<Longrightarrow> chunk off n (take k xs @ ys) = chunk off n xs"
  by (auto simp: chunk_def drop_take min_def)

lemma prefix_fields:
  assumes r: "rlen r < 65536" and k: "8 \<le> k" "k \<le> length (enc_rec r @ post)"
  shows "de_inode 0 (take k (enc_rec r @ post) @ ys) = r_ino r" "unat (de_rec_len 0 (take k (enc_rec r @ post) @ ys)) = rlen r"
    "unat (de_name_len 0 (take k (enc_rec r @ post) @ ys)) = length (r_name r)"
    "8 + length (r_name r) \<le> k \<Longrightarrow> take (length (r_name r)) (de_name 0 (take k (enc_rec r @ post) @ ys)) = r_name r"
proof -
  note F = rec_fields[of 0 "[]", OF _ r, simplified]
  note C = chunk_prefix[OF _ k(2), of _ _ ys]
  show "de_inode 0 (take k (enc_rec r @ post) @ ys) = r_ino r" using F(1)[of post] C[of 0 4] k(1) by (simp add: de_inode_def get32_def)
  show "unat (de_rec_len 0 (take k (enc_rec r @ post) @ ys)) = rlen r" using F(2)[of post] C[of 4 2] k(1) by (simp add: de_rec_len_def get16_def)
  show "unat (de_name_len 0 (take k (enc_rec r @ post) @ ys)) = length (r_name r)" using F(3)[of post] C[of 6 2] k(1) by (simp add: de_name_len_def get16_def)
  assume "8 + length (r_name r) \<le> k"
  moreover have "chunk 8 (length (r_name r)) (enc_rec r @ post) = r_name r"
    using arg_cong[OF F(4)[of post], of "take (length (r_name r))"] by (simp add: chunk_def de_name_def)
  ultimately show "take (length (r_name r)) (de_name 0 (take k (enc_rec r @ post) @ ys)) = r_name r"
    using C[of 8 "length (r_name r)"] by (simp only: chunk_def de_name_def add_0)
qed

lemma patch_front: "length x = k \<Longrightarrow> patch 0 x b = x @ drop k b"
  by (simp add: patch_def)

lemma record_read:
  assumes d: "dir_inv fs ci rss" and l: "ci_lock ci" and c: "concat rss = ds @ r # rs" and e: "length entry = 264"
  shows "\<exists>cnt entry' fs'. node_read_all_locked ci (of_nat (length (enc_recs ds))) 264 entry fs = Some (cnt, entry', fs') \<and> 4 \<le> sint cnt
    \<and> length entry' = 264 \<and> de_inode 0 entry' = r_ino r \<and> unat (de_rec_len 0 entry') = rlen r \<and> unat (de_name_len 0 entry') = length (r_name r)
    \<and> (r_ino r \<noteq> 0 \<longrightarrow> (\<exists>rest. de_name 0 entry' = r_name r @ rest)) \<and> rec_ok r
    \<and> length (enc_recs ds) + rlen r \<le> unat (node_size_in_bytes ci) \<and> dir_inv fs' ci rss \<and> fs_step {} {} fs fs'"
proof -
  note D = dir_invD[OF d]
  let ?n = "length (enc_recs ds)" and ?xs = "enc_rec r @ enc_recs rs" and ?size = "unat (inode_size (ci_inode ci))"
  have all: "file_bytes fs ci 0 ?size = enc_recs ds @ ?xs" using dir_bytes[OF d] D(6) c by simp
  have size: "?size = ?n + length ?xs" using arg_cong[OF all, of length] by simp
  have "r \<in> set (concat rss)" using c by simp
  then have ok: "rec_ok r" using D(8) by (metis (no_types, lifting) UN_E in_set_conv_nth set_concat)
  have "?size < 4294967296" by simp
  then have un: "unat (of_nat ?n :: u32) = ?n" using size by (intro word_of_small) linarith
  define k where "k = readable ci (of_nat ?n) 264"
  have k: "k = min 264 (length ?xs)" unfolding k_def readable_def un using size by simp
  have e': "unat (264 :: u32) \<le> length entry" using e by simp
  from node_read_all_locked_step[OF D(1,2) l e', of "of_nat ?n"] obtain fs' where
    r: "node_read_all_locked ci (of_nat ?n) 264 entry fs = Some (of_nat k, patch 0 (file_bytes fs ci ?n k) entry, fs')" "fs_step {} {} fs fs'"
    unfolding un k_def by blast
  have "file_bytes fs ci ?n k = take k ?xs" using file_bytes_sub[of ?n k ?size] all k size by simp
  then have p: "patch 0 (file_bytes fs ci ?n k) entry = take k ?xs @ drop k entry" using patch_front[OF length_file_bytes, of fs ci ?n k entry] by metis
  have kb: "8 \<le> k" "k \<le> length ?xs" "k \<le> 264" using k rlen_min(1)[of r] by auto
  have rl: "rlen r < 65536" using ok by (simp add: rec_ok_def)
  note F = prefix_fields[OF rl kb(1,2), of "drop k entry"]
  have nm: "\<exists>rest. de_name 0 (take k ?xs @ drop k entry) = r_name r @ rest" if "r_ino r \<noteq> 0"
  proof -
    have "8 + length (r_name r) \<le> k" using k ok that rlen_min(2)[of r] by (auto simp: rec_ok_def)
    then show ?thesis using F(4) by (metis append_take_drop_id)
  qed
  have uk: "unat (of_nat k :: u32) = k" using kb(3) by (intro word_of_small) simp
  then have "4 \<le> sint (of_nat k :: u32)" unfolding sint_cases using kb(1,3) by simp
  moreover have "length (take k ?xs @ drop k entry) = 264" using kb e by auto
  moreover have "?n + rlen r \<le> unat (node_size_in_bytes ci)" using size by (simp add: node_size_in_bytes_def)
  ultimately show ?thesis using r F(1-3) nm ok dir_inv_read[OF d r(2)] unfolding p by blast
qed

lemma ucast_of_unat: "unat (w :: u16) = n \<Longrightarrow> (ucast w :: u32) = of_nat n"
  by (metis of_nat_unat)

lemma record_facts:
  assumes "unat (w :: u16) = rlen r" "length (enc_recs ds) + rlen r \<le> unat (z :: u32)"
  shows "of_nat (length (enc_recs ds)) < z" "8 \<le> w" "of_nat (length (enc_recs ds)) + ucast w = (of_nat (length (enc_recs (ds @ [r]))) :: u32)"
proof -
  have "unat z < 4294967296" by simp
  then have "unat (of_nat (length (enc_recs ds)) :: u32) = length (enc_recs ds)" using assms(2) by (intro word_of_small) linarith
  then show "of_nat (length (enc_recs ds)) < z" using assms(2) rlen_min(1)[of r] by (simp add: word_less_nat_alt)
  show "8 \<le> w" using assms(1) rlen_min(1)[of r] by (simp add: word_le_nat_alt)
  show "of_nat (length (enc_recs ds)) + ucast w = (of_nat (length (enc_recs (ds @ [r]))) :: u32)" unfolding ucast_of_unat[OF assms(1)] by simp
qed

lemma dir_end:
  assumes "dir_inv fs ci rss" "concat rss = ds"
  shows "node_size_in_bytes ci = of_nat (length (enc_recs ds))"
proof -
  have "unat (inode_size (ci_inode ci)) = length (enc_recs ds)"
    using dir_bytes[OF assms(1)] dir_invD(6)[OF assms(1)] assms(2) by (metis length_file_bytes)
  then show ?thesis unfolding node_size_in_bytes_def by (metis of_nat_unat ucast_id)
qed

lemma find_same:
  assumes n: "names name s" and r: "rec_ok r" and nm: "r_ino r \<noteq> 0 \<longrightarrow> (\<exists>rest. x = r_name r @ rest)"
  shows "(if r_ino r \<noteq> 0 \<and> of_nat (length (r_name r)) = (of_nat (length s) :: u32) then strneq x name (unat (of_nat (length s) :: u32)) else Some False)
    = Some (matches s r)"
proof -
  obtain q where q: "name = cstr s q" "0 \<notin> set s" "length s \<le> 256" using n by (rule namesD)
  have rl: "rlen r < 65536" "length (r_name r) < 4294967296" using r rlen_min(2)[of r] by (auto simp: rec_ok_def)
  have "unat (of_nat (length s) :: u32) = length (r_name r)" if "of_nat (length (r_name r)) = (of_nat (length s) :: u32)"
    using word_of_small(1)[OF rl(2)] that by simp
  then show ?thesis using nm name_matches(2)[OF q rl(1)] by (auto simp: matches_def split: if_splits)
qed

lemma find_scan_step:
  assumes l: "ci_lock ci" and n: "names name s"
  shows "dir_inv fs ci rss \<Longrightarrow> concat rss = ds @ rs \<Longrightarrow> length entry = 264 \<Longrightarrow>
    \<exists>fs'. find_scan ci name (of_nat (length s)) (of_nat (length (enc_recs ds))) entry fs = Some (map_of (entries rs) s, fs')
      \<and> dir_inv fs' ci rss \<and> fs_step {} {} fs fs'"
proof (induction rs arbitrary: ds entry fs)
  case Nil
  have "node_size_in_bytes ci = of_nat (length (enc_recs ds))" using dir_end[OF Nil(1)] Nil(2) by simp
  then show ?case using Nil(1) fs_step_refl[OF dir_invD(1)[OF Nil(1)]] by (subst find_scan.simps) simp
next
  case (Cons r rs)
  let ?n = "length (enc_recs ds)"
  from record_read[OF Cons(2) l Cons(3,4)] obtain cnt entry' fs1 where
    r: "node_read_all_locked ci (of_nat ?n) 264 entry fs = Some (cnt, entry', fs1)" "4 \<le> sint cnt" "length entry' = 264"
      "de_inode 0 entry' = r_ino r" "unat (de_rec_len 0 entry') = rlen r" "unat (de_name_len 0 entry') = length (r_name r)"
      "r_ino r \<noteq> 0 \<longrightarrow> (\<exists>rest. de_name 0 entry' = r_name r @ rest)" "rec_ok r" "?n + rlen r \<le> unat (node_size_in_bytes ci)"
      "dir_inv fs1 ci rss" "fs_step {} {} fs fs1" by blast
  note F = record_facts[OF r(5,9)]
  have same: "(if de_inode 0 entry' \<noteq> 0 \<and> ucast (de_name_len 0 entry') = (of_nat (length s) :: u32)
      then strneq (de_name 0 entry') name (unat (of_nat (length s) :: u32)) else Some False) = Some (matches s r)"
    unfolding r(4) ucast_of_unat[OF r(6)] by (rule find_same[OF n r(8,7)])
  note step = find_scan.simps[of ci name "of_nat (length s)" "of_nat ?n" entry fs] 
  show ?case
  proof (cases "matches s r")
    case True
    then have "find_scan ci name (of_nat (length s)) (of_nat ?n) entry fs = Some (Some (r_ino r), fs1)" using F(1,2) r(1,2,4) same by (simp add: step)
    then show ?thesis using True r(10,11) by (simp add: matches_def)
  next
    case False
    have "concat rss = (ds @ [r]) @ rs" using Cons(3) by simp
    from Cons(1)[OF r(10) this r(3)] obtain fs2 where
      f: "find_scan ci name (of_nat (length s)) (of_nat (length (enc_recs (ds @ [r])))) entry' fs1 = Some (map_of (entries rs) s, fs2)"
        "dir_inv fs2 ci rss" "fs_step {} {} fs1 fs2" by blast
    have "find_scan ci name (of_nat (length s)) (of_nat ?n) entry fs = Some (map_of (entries rs) s, fs2)"
      using F(1,2) r(1,2) same False f(1) by (simp add: step F(3) del: enc_recs_simps)
    moreover have "map_of (entries (r # rs)) s = map_of (entries rs) s" using False by (auto simp: matches_def)
    ultimately show ?thesis using f(2) fs_step_trans[OF r(11) f(3)] by simp
  qed
qed

text \<open>The test for the names dot and dot-dot.\<close>

definition dots :: "bytes set" where "dots = {[46], [46, 46]}"

lemma dot_tests:
  assumes x: "x = r_name r @ rest"
  shows "(if length (r_name r) = 1 then strneq x [46, 0] 1 else Some False) = Some (r_name r = [46])"
    "(if length (r_name r) = 2 then strneq x [46, 46, 0] 2 else Some False) = Some (r_name r = [46, 46])"
proof -
  have two: "length [46, 46 :: u8] = 2" by simp
  show "(if length (r_name r) = 1 then strneq x [46, 0] 1 else Some False) = Some (r_name r = [46])"
    using strneq_prefix[of "[46]" "r_name r" rest "[]"] by (auto simp: x cstr_def)
  show "(if length (r_name r) = 2 then strneq x [46, 46, 0] 2 else Some False) = Some (r_name r = [46, 46])"
    using strneq_prefix[of "[46, 46]" "r_name r" rest "[]", unfolded two] by (auto simp: x cstr_def)
qed

lemma empty_scan_step:
  assumes l: "ci_lock ci"
  shows "dir_inv fs ci rss \<Longrightarrow> concat rss = ds @ rs \<Longrightarrow> length entry = 264 \<Longrightarrow>
    \<exists>fs'. empty_scan ci (of_nat (length (enc_recs ds))) entry fs = Some (fst ` set (entries rs) \<subseteq> dots, fs') \<and> dir_inv fs' ci rss \<and> fs_step {} {} fs fs'"
proof (induction rs arbitrary: ds entry fs)
  case Nil
  have "node_size_in_bytes ci = of_nat (length (enc_recs ds))" using dir_end[OF Nil(1)] Nil(2) by simp
  then show ?case using Nil(1) fs_step_refl[OF dir_invD(1)[OF Nil(1)]] by (subst empty_scan.simps) simp
next
  case (Cons r rs)
  let ?n = "length (enc_recs ds)"
  from record_read[OF Cons(2) l Cons(3,4)] obtain cnt entry' fs1 where
    r: "node_read_all_locked ci (of_nat ?n) 264 entry fs = Some (cnt, entry', fs1)" "4 \<le> sint cnt" "length entry' = 264"
      "de_inode 0 entry' = r_ino r" "unat (de_rec_len 0 entry') = rlen r" "unat (de_name_len 0 entry') = length (r_name r)"
      "r_ino r \<noteq> 0 \<longrightarrow> (\<exists>rest. de_name 0 entry' = r_name r @ rest)" "rec_ok r" "?n + rlen r \<le> unat (node_size_in_bytes ci)"
      "dir_inv fs1 ci rss" "fs_step {} {} fs fs1" by blast
  note F = record_facts[OF r(5,9)]
  have k: "EXT2_DIR_ENTRY_HEADER_SIZE \<le> ucast (de_rec_len 0 entry')" "ucast (de_rec_len 0 entry') mod EXT2_DIR_ENTRY_ALIGN_SIZE = 0"
    using scan_asserts(1,2)[OF r(8,9)] unfolding ucast_of_unat[OF r(5)] by simp_all
  have nl: "de_name_len 0 entry' = 1 \<longleftrightarrow> length (r_name r) = 1" "de_name_len 0 entry' = 2 \<longleftrightarrow> length (r_name r) = 2"
    using r(6) by (simp_all add: word_unat_eq_iff)
  have found: "(if de_inode 0 entry' \<noteq> 0 then do {
          is_dot \<leftarrow> (if de_name_len 0 entry' = 1 then strneq (de_name 0 entry') [46, 0] 1 else Some False);
          is_dot_dot \<leftarrow> (if de_name_len 0 entry' = 2 then strneq (de_name 0 entry') [46, 46, 0] 2 else Some False);
          Some (\<not> is_dot \<and> \<not> is_dot_dot)
        } else Some False) = Some (r_ino r \<noteq> 0 \<and> r_name r \<notin> dots)"
    using r(7) dot_tests[of "de_name 0 entry'" r] unfolding r(4) nl by (auto simp: dots_def simp del: One_nat_def)
  note step = empty_scan.simps[of ci "of_nat ?n" entry fs]
  show ?case
  proof (cases "r_ino r \<noteq> 0 \<and> r_name r \<notin> dots")
    case True
    then have "empty_scan ci (of_nat ?n) entry fs = Some (False, fs1)" using F(1,2) r(1,2) found k by (simp add: step)
    then show ?thesis using True r(10,11) by auto
  next
    case False
    have "concat rss = (ds @ [r]) @ rs" using Cons(3) by simp
    from Cons(1)[OF r(10) this r(3)] obtain fs2 where
      f: "empty_scan ci (of_nat (length (enc_recs (ds @ [r])))) entry' fs1 = Some (fst ` set (entries rs) \<subseteq> dots, fs2)"
        "dir_inv fs2 ci rss" "fs_step {} {} fs1 fs2" by blast
    have "empty_scan ci (of_nat ?n) entry fs = Some (fst ` set (entries rs) \<subseteq> dots, fs2)"
      using F(1,2) r(1,2) found k False f(1) by (simp add: step F(3) del: enc_recs_simps)
    moreover have "fst ` set (entries (r # rs)) \<subseteq> dots \<longleftrightarrow> fst ` set (entries rs) \<subseteq> dots" using False by auto
    ultimately show ?thesis using f(2) fs_step_trans[OF r(11) f(3)] by simp
  qed
qed



section \<open>A directory is a finite map\<close>

text \<open>The directory holds the map \<open>m\<close> from names to inode numbers, each name once.\<close>

definition dir_holds :: "ext2 \<Rightarrow> cached_inode \<Rightarrow> (bytes \<rightharpoonup> u32) \<Rightarrow> bool" where
  "dir_holds fs ci m \<longleftrightarrow> (\<exists>rss. dir_inv fs ci rss \<and> distinct (map fst (entries (concat rss))) \<and> m = map_of (entries (concat rss)))"

lemma dir_holds_lock [simp]: "dir_holds fs (ci\<lparr>ci_lock := b\<rparr>) m = dir_holds fs ci m"
  by (simp add: dir_holds_def)

lemma map_of_insert_middle: "s \<notin> fst ` set (a @ b) \<Longrightarrow> map_of (a @ [(s, i)] @ b) = (map_of (a @ b))(s \<mapsto> i)"
  by (induction a) (auto simp: fun_eq_iff)

lemma map_of_remove_middle: "distinct (map fst (a @ [(s, i)] @ b)) \<Longrightarrow> map_of (a @ b) = (map_of (a @ [(s, i)] @ b))(s := None)"
proof -
  assume "distinct (map fst (a @ [(s, i)] @ b))"
  then have n: "s \<notin> fst ` set (a @ b)" by auto
  then have "map_of (a @ b) s = None" by (simp add: map_of_eq_None_iff image_Un)
  then show ?thesis using map_of_insert_middle[OF n, of i] by (auto simp: fun_eq_iff)
qed

lemma dir_add_refines:
  assumes h: "dir_holds fs ci m" and l: "\<not> ci_lock ci" "names name s" "ino \<noteq> 0" and new: "m s = None"
    and fr: "length fresh = unat (ext2_get_block_size fs)" "4 \<le> card (free_blocks fs)"
    "unat (inode_size (ci_inode ci)) + unat (ext2_get_block_size fs) < 4294967296"
    "inode_exists fs g k" "ci_inumber ci = inumber_at fs g k"
  shows "\<exists>ci' fs'. dir_add_entry fresh ci name ino fs = Some (True, ci', fs') \<and> dir_holds fs' ci' (m(s \<mapsto> ino)) \<and> dir_added fs ci g k fs' ci'"
proof -
  obtain rss where r: "dir_inv fs ci rss" "distinct (map fst (entries (concat rss)))" "m = map_of (entries (concat rss))"
    using h by (auto simp: dir_holds_def)
  from dir_add_step[OF r(1) l fr] obtain ci' fs' rss' a b where
    x: "dir_add_entry fresh ci name ino fs = Some (True, ci', fs')" "dir_inv fs' ci' rss'"
      "entries (concat rss) = a @ b" "entries (concat rss') = a @ [(s, ino)] @ b" "dir_added fs ci g k fs' ci'" by blast
  have "s \<notin> fst ` set (a @ b)" using new r(3) x(3) by (simp add: map_of_eq_None_iff image_Un)
  then have "distinct (map fst (entries (concat rss')))" "map_of (entries (concat rss')) = m(s \<mapsto> ino)"
    using r(2,3) x(3,4) map_of_insert_middle[of s a b ino] by (auto simp: image_Un)
  then show ?thesis using x(1,2,5) by (auto simp: dir_holds_def)
qed

text \<open>
  C35. Adding a name that the directory does not hold extends the map by the name: all other names
  keep their inode numbers, whether the record fits into the slack of an old record, into a removed
  record, or needs a new block; no other inode and no other file changes.
\<close>

theorem dir_add_entry_refines:
  assumes "dir_holds fs ci m" "\<not> ci_lock ci" "names name s" "ino \<noteq> 0" "m s = None"
    "length fresh = unat (ext2_get_block_size fs)" "4 \<le> card (free_blocks fs)"
    "unat (inode_size (ci_inode ci)) + unat (ext2_get_block_size fs) < 4294967296"
    "inode_exists fs g k" "ci_inumber ci = inumber_at fs g k"
  shows "\<exists>ci' fs'. dir_add_entry fresh ci name ino fs = Some (True, ci', fs') \<and> dir_holds fs' ci' (m(s \<mapsto> ino)) \<and> dir_added fs ci g k fs' ci'"
  using dir_add_refines[OF assms] .

text \<open>
  C36. Removing a name reports whether the directory held it, deletes exactly that name from the map,
  and changes no other inode and no other file.
\<close>

theorem dir_remove_entry_refines:
  assumes h: "dir_holds fs ci m" and l: "\<not> ci_lock ci" "names name s" and e: "inode_exists fs g k"
  shows "\<exists>fs'. dir_remove_entry ci name fs = Some (m s \<noteq> None, ci, fs') \<and> dir_holds fs' ci (m(s := None)) \<and> dir_added fs ci g k fs' ci"
proof -
  obtain rss where r: "dir_inv fs ci rss" "distinct (map fst (entries (concat rss)))" "m = map_of (entries (concat rss))"
    using h by (auto simp: dir_holds_def)
  have mem: "s \<in> fst ` set (entries (concat rss)) \<longleftrightarrow> m s \<noteq> None" using r(3) by (simp add: map_of_eq_None_iff)
  from dir_remove_step[OF r(1) l e] obtain fs' rss' where
    x: "dir_remove_entry ci name fs = Some (m s \<noteq> None, ci, fs')" "dir_inv fs' ci rss'" "dir_added fs ci g k fs' ci"
      "if m s \<noteq> None then \<exists>a i b. entries (concat rss) = a @ [(s, i)] @ b \<and> entries (concat rss') = a @ b else rss' = rss"
    unfolding mem by blast
  have "distinct (map fst (entries (concat rss'))) \<and> map_of (entries (concat rss')) = m(s := None)"
  proof (cases "m s = None")
    case True
    then have "m(s := None) = m" by auto
    then show ?thesis using True x(4) r(2,3) by simp
  next
    case False
    then obtain a i b where ab: "entries (concat rss) = a @ [(s, i)] @ b" "entries (concat rss') = a @ b" using x(4) by auto
    then show ?thesis using r(2,3) map_of_remove_middle[of a s i b] by simp
  qed
  then show ?thesis using x(1-3) by (auto simp: dir_holds_def)
qed

text \<open>
  C37. The lookups are exact and change neither the directory nor the drive: the search finds the inode
  number of the name or reports its absence, the duplicate test agrees with it, and a directory is
  reported empty exactly when it holds no name besides dot and dot-dot.
\<close>

theorem dir_lookup_exact:
  assumes h: "dir_holds fs ci m" and l: "ci_lock ci" "names name s" and e: "length entry = 264"
  shows "(\<exists>fs'. dir_find_inumber entry ci name fs = Some (m s, fs') \<and> dir_holds fs' ci m \<and> fs_step {} {} fs fs')
    \<and> (\<exists>fs'. dir_has_entry_name entry ci name fs = Some (m s \<noteq> None, fs') \<and> dir_holds fs' ci m \<and> fs_step {} {} fs fs')
    \<and> (\<exists>fs'. dir_is_empty_locked entry ci fs = Some (dom m \<subseteq> dots, fs') \<and> dir_holds fs' ci m \<and> fs_step {} {} fs fs')"
proof -
  obtain rss where r: "dir_inv fs ci rss" "distinct (map fst (entries (concat rss)))" "m = map_of (entries (concat rss))"
    using h by (auto simp: dir_holds_def)
  note D = dir_invD[OF r(1)]
  obtain q where q: "strlen name = Some (of_nat (length s))" using l(2) by (rule namesD)
  obtain fs1 where f: "find_scan ci name (of_nat (length s)) 0 entry fs = Some (m s, fs1)" "dir_inv fs1 ci rss" "fs_step {} {} fs fs1"
    using find_scan_step[OF l r(1) append_Nil[symmetric] e] r(3) by auto
  obtain fs2 where g: "empty_scan ci 0 entry fs = Some (dom m \<subseteq> dots, fs2)" "dir_inv fs2 ci rss" "fs_step {} {} fs fs2"
    using empty_scan_step[OF l(1) r(1) append_Nil[symmetric] e] r(3) by (auto simp: dom_map_of_conv_image_fst)
  show ?thesis
    using f g q D(3) l(1) r(2,3) by (auto simp: dir_find_inumber_def dir_has_entry_name_def dir_is_empty_locked_def dir_holds_def)
qed

end
