(* ===== verification/Ext2_Sample.thy ===== *)
theory Ext2_Sample
  imports Ext2_Image Ext2_Release Ext2_Dir_Map
begin

text \<open>
  An empty regular file on the image of \<open>Ext2_Image\<close>: the instance of the theorems about files.
\<close>

definition ex_inode :: bytes where "ex_inode = put16 0 0x8000 (replicate 128 0)"

definition ex_file :: cached_inode where
  "ex_file = \<lparr>ci_inumber = 4, ci_inode = ex_inode, ci_data_block_count = 0, ci_refcount = 1, ci_valid = True,
     ci_delete_pending = False, ci_lock = False\<rparr>"

lemma ex_itable_ok: "itable_ok ex_fs"
proof -
  have s: "unat (ext2_get_inode_size ex_fs) = 128" "unat (inodes_per_block ex_fs) = 8" "unat (num_block_groups ex_fs) = 1"
    "unat (sb_inodes_per_group (superblock ex_fs)) = 8"
    by (simp_all add: ext2_get_inode_size_def inodes_per_block_def ex_block_size) (simp_all add: ex_fs_def ex_sb_fields)
  show ?thesis unfolding itable_ok_def s ex_itable_blocks ex_block_size using ex_data_block[of 5] by auto
qed

lemma ex_good: "fs_good ex_fs"
  using ex_fs_inv ex_synced ex_itable_ok by (simp add: fs_good_def ex_block_size ex_free_blocks word_le_nat_alt) (simp add: ex_fs_def)

lemma ex_inode_fields: "length ex_inode = 128" "inode_mode ex_inode = 0x8000" "inode_size ex_inode = 0" "k < 15 \<Longrightarrow> inode_block ex_inode k = 0"
proof -
  show "length ex_inode = 128" "inode_mode ex_inode = 0x8000" by (simp_all add: ex_inode_def inode_mode_def)
  have "get32 j (replicate 128 0) = 0" if "j + 4 \<le> 128" for j
  proof -
    have "chunk j 4 (replicate 128 (0 :: u8)) = replicate 4 0" using that by (simp add: chunk_def min_def)
    moreover have "dec32 (replicate 4 0) = 0" by (simp add: dec32_def numeral_eq_Suc)
    ultimately show ?thesis by (simp add: get32_def)
  qed
  then show "inode_size ex_inode = 0" "k < 15 \<Longrightarrow> inode_block ex_inode k = 0"
    by (simp_all add: ex_inode_def inode_size_def inode_block_def get_put_other)
qed

lemma ex_file_facts: "file_inv fs ex_file" "file_blocks fs ex_file = {}" "\<not> ci_lock ex_file" "node_is_file ex_file" "ci_data_block_count ex_file = 0"
  "inode_size (ci_inode ex_file) = 0"
proof -
  show "file_inv fs ex_file" "file_blocks fs ex_file = {}" by (rule empty_file; simp add: ex_file_def ex_inode_fields)+
  show "\<not> ci_lock ex_file" "node_is_file ex_file" "ci_data_block_count ex_file = 0" "inode_size (ci_inode ex_file) = 0"
    by (simp_all add: ex_file_def node_is_file_def ex_inode_fields EXT2_S_MASK_def EXT2_S_IFREG_def)
qed

lemma ex_file_place: "inode_exists ex_fs 0 3" "ci_inumber ex_file = inumber_at ex_fs 0 3"
  by (simp_all add: inode_exists_def ex_file_def inumber_at_def ex_fs_def ex_sb_fields)

lemma ex_room: "write_room ex_fs ex_file 10 3 = 4" "card (free_blocks ex_fs) = 9"
proof -
  show "write_room ex_fs ex_file 10 3 = 4" by (simp add: write_room_def ex_block_size ex_file_facts)
  have "free_blocks ex_fs = of_nat ` {8..16}"
  proof (intro set_eqI iffI)
    fix x assume "x \<in> free_blocks ex_fs"
    then have "unat x \<in> {8..16}" by (simp add: ex_free_blocks word_le_nat_alt)
    moreover have "x = of_nat (unat x)" by simp
    ultimately show "x \<in> of_nat ` {8..16}" by blast
  qed (auto simp: ex_free_blocks word_le_nat_alt unat_of_nat)
  moreover have "inj_on (of_nat :: nat \<Rightarrow> u32) {8..16}" by (rule inj_onI) (auto simp: word_unat_eq_iff unat_of_nat)
  ultimately show "card (free_blocks ex_fs) = 9" by (simp add: card_image)
qed

theorem node_write_all_exact_witness:
  "\<exists>ci' fs'. node_write_all ex_file 10 3 [1, 2, 3] ex_fs = Some (3, ci', fs') \<and> file_byte fs' ci' 11 = 2 \<and> inode_size (ci_inode ci') = 13
     \<and> disk_inode fs' 0 3 = ci_inode ci'"
  using node_write_all_exact[OF ex_good ex_file_facts(1,3,4) ex_file_place, of 3 10 "[1, 2, 3]"] ex_room
  by (auto simp: written_def ex_file_facts)

theorem node_read_all_exact_witness:
  "\<exists>fs'. node_read_all ex_file 0 4 [7, 7, 7, 7] ex_fs = Some (0, [7, 7, 7, 7], ex_file, fs')"
  using node_read_all_exact[OF ex_good ex_file_facts(1,3), of 4 "[7, 7, 7, 7]" 0]
  by (auto simp: readable_def ex_file_facts file_bytes_def)

theorem node_write_then_read_witness:
  "\<exists>ci' fs' fs''. node_write_all ex_file 10 3 [1, 2, 3] ex_fs = Some (3, ci', fs') \<and> node_read_all ci' 10 3 [0, 0, 0] fs' = Some (3, [1, 2, 3], ci', fs'')"
  using node_write_then_read[OF ex_good ex_file_facts(1,3,4) ex_file_place, of 3 10 "[1, 2, 3]" "[0, 0, 0]"] ex_room by simp

text \<open>The same file with its first block.\<close>

lemma ex_grown: "\<exists>ci fs blk. fs_good fs \<and> file_inv fs ci \<and> ci_data_block_count ci = 1 \<and> \<not> fast_symlink ci \<and> file_blocks fs ci \<noteq> {}"
proof -
  have "4 \<le> card (free_blocks ex_fs)" "unat (ci_data_block_count ex_file) < fmax (epb ex_fs)" using ex_room by (auto simp: ex_file_facts fmax_def)
  from append_step[OF ex_good ex_file_facts(1) this(2,1)] obtain ci fs new where
    a: "extended ex_fs ex_file fs ci new" "unat (ci_data_block_count ci) = Suc (unat (ci_data_block_count ex_file))" by blast
  have A: "fs_good fs" "file_inv fs ci" "inode_mode (ci_inode ci) = inode_mode (ci_inode ex_file)"
    using a(1) fs_stepD(1) by (auto simp: extended_def)
  have "ci_data_block_count ci = 1" using a(2) by (simp add: ex_file_facts word_unat_eq_iff)
  moreover have "\<not> fast_symlink ci" using A(3)
    by (simp add: fast_symlink_def node_is_symlink_def ex_file_def ex_inode_fields EXT2_S_MASK_def EXT2_S_IFLNK_def)
  moreover have "file_ptr fs ci 0 \<in> file_blocks fs ci"
    using file_ptr_props(1,3)[OF A(2), of 0] a(2) by (auto simp: fmax_def)
  ultimately show ?thesis using A by blast
qed

theorem node_dealloc_blocks_exact_witness:
  "\<exists>ci fs ci' fs'. file_blocks fs ci \<noteq> {} \<and> node_dealloc_blocks ci fs = Some (ci', fs') \<and> file_blocks fs ci \<subseteq> free_blocks fs'
     \<and> file_blocks fs' ci' = {}"
  using ex_grown node_dealloc_blocks_exact by (metis Un_upper2)

theorem node_scan_counts_blocks_witness: "\<exists>ci fs fs'. node_scan_data_block_count (ci_inode ci) fs = Some (1, fs') \<and> file_blocks fs ci \<noteq> {}"
  using ex_grown node_scan_counts_blocks by metis

text \<open>An empty directory, and the name \<open>ab\<close> in memory.\<close>

definition ex_dir :: cached_inode where
  "ex_dir = ex_file\<lparr>ci_inode := put16 0 0x4000 (replicate 128 0)\<rparr>"

definition ex_name :: bytes where "ex_name = [97, 98, 0]"

lemma ex_dir_inode: "inode_block (ci_inode ex_dir) k = inode_block ex_inode k" "inode_size (ci_inode ex_dir) = inode_size ex_inode" "length (ci_inode ex_dir) = 128"
proof -
  have "get32 (j + 2) (put16 0 a (replicate 128 0)) = get32 (j + 2) (replicate 128 0)" for a j
    by (rule get_put_other) simp_all
  from this[of "38 + 4 * k"] this[of 2] show "inode_block (ci_inode ex_dir) k = inode_block ex_inode k" "inode_size (ci_inode ex_dir) = inode_size ex_inode"
    by (simp_all add: ex_dir_def ex_inode_def inode_block_def inode_size_def add.commute)
qed (simp add: ex_dir_def)

lemma ex_dir_holds: "dir_holds ex_fs ex_dir Map.empty"
proof -
  have "file_inv ex_fs ex_dir" by (rule empty_file) (simp_all add: ex_dir_inode ex_inode_fields, simp add: ex_dir_def ex_file_def)
  moreover have "node_is_dir ex_dir" "\<not> ci_delete_pending ex_dir" "ci_data_block_count ex_dir = 0"
    by (simp_all add: ex_dir_def ex_file_def node_is_dir_def inode_mode_def EXT2_S_MASK_def EXT2_S_IFDIR_def)
  ultimately have "dir_inv ex_fs ex_dir []" using ex_good by (simp add: dir_inv_def ex_dir_inode ex_inode_fields)
  then show ?thesis by (auto simp: dir_holds_def intro!: exI[of _ "[]"])
qed

lemma ex_dir_facts: "\<not> ci_lock ex_dir" "names ex_name [97, 98]" "4 \<le> card (free_blocks ex_fs)"
  "unat (inode_size (ci_inode ex_dir)) + unat (ext2_get_block_size ex_fs) < 4294967296" "inode_exists ex_fs 0 3" "ci_inumber ex_dir = inumber_at ex_fs 0 3"
proof -
  show "\<not> ci_lock ex_dir" by (simp add: ex_dir_def ex_file_def)
  show "names ex_name [97, 98]" by (auto simp: names_def ex_name_def cstr_def)
  show "4 \<le> card (free_blocks ex_fs)" using ex_room(2) by simp
  show "unat (inode_size (ci_inode ex_dir)) + unat (ext2_get_block_size ex_fs) < 4294967296" by (simp add: ex_dir_inode ex_inode_fields ex_block_size)
  show "inode_exists ex_fs 0 3" "ci_inumber ex_dir = inumber_at ex_fs 0 3" using ex_file_place by (simp_all add: ex_dir_def)
qed

lemma ex_dir_added: "\<exists>ci fs. dir_holds fs ci [[97, 98] \<mapsto> 5] \<and> \<not> ci_lock ci \<and> inode_exists fs 0 3"
proof -
  have "length (replicate 1024 0 :: bytes) = unat (ext2_get_block_size ex_fs)" "(5 :: u32) \<noteq> 0" by (simp_all add: ex_block_size)
  from dir_add_refines[OF ex_dir_holds ex_dir_facts(1,2) this(2) refl this(1) ex_dir_facts(3-6)] obtain ci fs where
    a: "dir_holds fs ci [[97, 98] \<mapsto> 5]" "dir_added ex_fs ex_dir 0 3 fs ci" by blast
  then have "inode_exists fs 0 3" using ex_dir_facts(5) same_shapeD[of ex_fs fs] by (simp add: dir_added_def inode_exists_def)
  then show ?thesis using a ex_dir_facts(1) by (auto simp: dir_added_def)
qed

theorem dir_add_entry_refines_witness:
  "\<exists>ci' fs'. dir_add_entry (replicate 1024 0) ex_dir ex_name 5 ex_fs = Some (True, ci', fs') \<and> dir_holds fs' ci' [[97, 98] \<mapsto> 5]"
proof -
  have "length (replicate 1024 0 :: bytes) = unat (ext2_get_block_size ex_fs)" "(5 :: u32) \<noteq> 0" by (simp_all add: ex_block_size)
  from dir_add_entry_refines[OF ex_dir_holds ex_dir_facts(1,2) this(2) refl this(1) ex_dir_facts(3-6)] show ?thesis by blast
qed

theorem dir_remove_entry_refines_witness:
  "\<exists>ci fs fs'. dir_holds fs ci [[97, 98] \<mapsto> 5] \<and> dir_remove_entry ci ex_name fs = Some (True, ci, fs') \<and> dir_holds fs' ci Map.empty"
proof -
  obtain ci fs where c: "dir_holds fs ci [[97, 98] \<mapsto> 5]" "\<not> ci_lock ci" "inode_exists fs 0 3" using ex_dir_added by blast
  have "[[97, 98] \<mapsto> 5]([97, 98] := None) = (Map.empty :: bytes \<rightharpoonup> u32)" by auto
  then show ?thesis using c(1) dir_remove_entry_refines[OF c(1,2) ex_dir_facts(2) c(3)] by auto
qed

theorem dir_lookup_exact_witness:
  "\<exists>ci fs fs' fs''. dir_find_inumber (replicate 264 0) ci ex_name fs = Some (Some 5, fs') \<and> dir_is_empty_locked (replicate 264 0) ci fs = Some (False, fs'')"
proof -
  obtain ci fs where c: "dir_holds fs ci [[97, 98] \<mapsto> 5]" using ex_dir_added by blast
  then have "dir_holds fs (ci\<lparr>ci_lock := True\<rparr>) [[97, 98] \<mapsto> 5]" by simp
  from dir_lookup_exact[OF this _ ex_dir_facts(2), of "replicate 264 0"] show ?thesis by (auto simp: dots_def)
qed

end
