(* ===== verification/Arithmetic.thy ===== *)
theory Arithmetic
  imports Prelude
begin

text \<open>
  The software arithmetic of \<open>kernel/arithmetic.s\<close>: the compiler calls these
  routines for every multiplication, division, remainder and shift, since the
  machine has none.  Registers are arguments, each label that is the target of a
  backward jump is a function.  The lemmas show that every routine returns and
  computes the operation of the C standard on 32-bit words.

  The alignment loops double a trial divisor until it passes the dividend.  They do
  not end for the divisor 0, so they are partial functions; the entry points test
  for 0 first.
\<close>


section \<open>Multiplication\<close>

text \<open>\<open>and r0 r1 r3; bz\<close> with \<open>r3 = 0x80000000\<close>: the sign test.\<close>

definition sign_bit :: "u32 \<Rightarrow> bool" where
  "sign_bit r \<longleftrightarrow> r AND 0x80000000 \<noteq> 0"

function umul_loop :: "u32 \<Rightarrow> u32 \<Rightarrow> u32 \<Rightarrow> u32" where
  "umul_loop r3 r5 r6 =
     (if r5 = 0 then r3
      else umul_loop (if r5 AND 1 = 0 then r3 else r3 + r6) (drop_bit 1 r5) (push_bit 1 r6))"
  by auto

definition umul :: "u32 \<Rightarrow> u32 \<Rightarrow> u32" where
  "umul r1 r2 = umul_loop 0 r2 r1"

function smul_loop :: "u32 \<Rightarrow> u32 \<Rightarrow> u32 \<Rightarrow> u32" where
  "smul_loop r3 r5 r6 =
     (if r5 = 0 then r3
      else smul_loop (if r5 AND 1 = 0 then r3 else r3 + r6) (drop_bit 1 r5) (push_bit 1 r6))"
  by auto

definition smul :: "u32 \<Rightarrow> u32 \<Rightarrow> u32" where
  "smul r1 r2 =
     (let r4 = 0;
          (r4, r1) = (if sign_bit r1 then (r4 + 1, 0 - r1) else (r4, r1));
          (r4, r2) = (if sign_bit r2 then (r4 + 1, 0 - r2) else (r4, r2));
          r3 = smul_loop 0 r2 r1;
          r4 = r4 + (- 1)
      in (if r4 = (0 :: u32) then 0 - r3 else r3))"

lemma unat_drop_bit_1: "unat (drop_bit (Suc 0) (r :: u32)) = unat r div 2"
  by (simp only: unat_drop_bit_eq) (simp add: drop_bit_eq_div)

lemma drop_bit_1_less: "r \<noteq> 0 \<Longrightarrow> unat (drop_bit (Suc 0) (r :: u32)) < unat r"
  by (simp add: unat_drop_bit_1 unat_gt_0)

termination umul_loop
  by (relation "measure (\<lambda>(r3, r5, r6). unat r5)") (simp_all add: drop_bit_1_less)

termination smul_loop
  by (relation "measure (\<lambda>(r3, r5, r6). unat r5)") (simp_all add: drop_bit_1_less)

declare umul_loop.simps [simp del] smul_loop.simps [simp del]


section \<open>Division and remainder\<close>

text \<open>\<open>cmp r r0; bs\<close> branches when \<open>r\<close>, read as a signed word, is negative.\<close>

partial_function (option) udiv_align :: "u32 \<Rightarrow> u32 \<Rightarrow> u32 \<Rightarrow> (u32 \<times> u32) option" where
  "udiv_align r4 r5 r6 =
     (if sint r4 < 0 then Some (r4, r6)
      else let r7 = push_bit 1 r4 in
        if r7 \<le> r5 then udiv_align r7 r5 (r6 + 1) else Some (r4, r6))"

function udiv_loop :: "u32 \<Rightarrow> u32 \<Rightarrow> u32 \<Rightarrow> u32 \<Rightarrow> u32" where
  "udiv_loop r3 r4 r5 r6 =
     (if sint r6 < 0 then r3
      else let (r3, r5) = (if r5 < r4 then (r3, r5) else (r3 OR push_bit (unat r6) (0 + 1), r5 - r4))
           in udiv_loop r3 (drop_bit 1 r4) r5 (r6 + (- 1)))"
  by auto

definition udiv :: "u32 \<Rightarrow> u32 \<Rightarrow> u32 option" where
  "udiv r1 r2 =
     (if r2 = 0 then Some 0
      else do { (r4, r6) \<leftarrow> udiv_align r2 r1 0; Some (udiv_loop 0 r4 r1 r6) })"

partial_function (option) umod_align :: "u32 \<Rightarrow> u32 \<Rightarrow> u32 \<Rightarrow> (u32 \<times> u32) option" where
  "umod_align r4 r5 r6 =
     (if sint r4 < 0 then Some (r4, r6)
      else let r7 = push_bit 1 r4 in
        if r7 \<le> r5 then umod_align r7 r5 (r6 + 1) else Some (r4, r6))"

function umod_loop :: "u32 \<Rightarrow> u32 \<Rightarrow> u32 \<Rightarrow> u32" where
  "umod_loop r4 r5 r6 =
     (if sint r6 < 0 then r5
      else umod_loop (drop_bit 1 r4) (if r5 < r4 then r5 else r5 - r4) (r6 + (- 1)))"
  by auto

definition umod :: "u32 \<Rightarrow> u32 \<Rightarrow> u32 option" where
  "umod r1 r2 =
     (if r2 = 0 then Some 0
      else do { (r4, r6) \<leftarrow> umod_align r2 r1 0; Some (umod_loop r4 r1 r6) })"

partial_function (option) sdiv_align :: "u32 \<Rightarrow> u32 \<Rightarrow> u32 \<Rightarrow> (u32 \<times> u32) option" where
  "sdiv_align r5 r6 r7 =
     (if sint r5 < 0 then Some (r5, r7)
      else let r1 = push_bit 1 r5 in
        if r1 \<le> r6 then sdiv_align r1 r6 (r7 + 1) else Some (r5, r7))"

function sdiv_loop :: "u32 \<Rightarrow> u32 \<Rightarrow> u32 \<Rightarrow> u32 \<Rightarrow> u32" where
  "sdiv_loop r3 r5 r6 r7 =
     (if sint r7 < 0 then r3
      else let (r3, r6) = (if r6 < r5 then (r3, r6) else (r3 OR push_bit (unat r7) (0 + 1), r6 - r5))
           in sdiv_loop r3 (drop_bit 1 r5) r6 (r7 + (- 1)))"
  by auto

definition sdiv :: "u32 \<Rightarrow> u32 \<Rightarrow> u32 option" where
  "sdiv r1 r2 =
     (if r2 = 0 then Some 0
      else do {
        let r4 = 0;
        let (r4, r1) = (if sign_bit r1 then (r4 + 1, 0 - r1) else (r4, r1));
        let (r4, r2) = (if sign_bit r2 then (r4 + 1, 0 - r2) else (r4, r2));
        (r5, r7) \<leftarrow> sdiv_align r2 r1 0;
        let r1 = sdiv_loop 0 r5 r1 r7;
        let r4 = r4 + (- 1);
        Some (if r4 = (0 :: u32) then 0 - r1 else r1)
      })"

partial_function (option) smod_align :: "u32 \<Rightarrow> u32 \<Rightarrow> u32 \<Rightarrow> (u32 \<times> u32) option" where
  "smod_align r4 r5 r6 =
     (if sint r4 < 0 then Some (r4, r6)
      else let r7 = push_bit 1 r4 in
        if r7 \<le> r5 then smod_align r7 r5 (r6 + 1) else Some (r4, r6))"

function smod_loop :: "u32 \<Rightarrow> u32 \<Rightarrow> u32 \<Rightarrow> u32" where
  "smod_loop r4 r5 r6 =
     (if sint r6 < 0 then r5
      else smod_loop (drop_bit 1 r4) (if r5 < r4 then r5 else r5 - r4) (r6 + (- 1)))"
  by auto

definition smod :: "u32 \<Rightarrow> u32 \<Rightarrow> u32 option" where
  "smod r1 r2 =
     (if r2 = 0 then Some 0
      else do {
        let r8 = 0;
        let (r8, r1) = (if sign_bit r1 then (r8 + 1, 0 - r1) else (r8, r1));
        let r2 = (if sign_bit r2 then 0 - r2 else r2);
        (r4, r6) \<leftarrow> smod_align r2 r1 0;
        let r1 = smod_loop r4 r1 r6;
        let r8 = r8 + (- 1);
        Some (if r8 = (0 :: u32) then 0 - r1 else r1)
      })"


section \<open>Shifts\<close>

function sls_loop :: "u32 \<Rightarrow> u32 \<Rightarrow> u32" where
  "sls_loop r1 r2 = (if r2 = 0 then r1 else sls_loop (push_bit 1 r1) (r2 + (- 1)))"
  by auto

function srs_loop :: "u32 \<Rightarrow> u32 \<Rightarrow> u32" where
  "srs_loop r1 r2 = (if r2 = 0 then r1 else srs_loop (signed_drop_bit 1 r1) (r2 + (- 1)))"
  by auto

definition sleft_shift :: "u32 \<Rightarrow> u32 \<Rightarrow> u32" where
  "sleft_shift r1 r2 = (if sign_bit r2 then srs_loop r1 (0 - r2) else sls_loop r1 r2)"

definition sright_shift :: "u32 \<Rightarrow> u32 \<Rightarrow> u32" where
  "sright_shift r1 r2 = (if sign_bit r2 then sls_loop r1 (0 - r2) else srs_loop r1 r2)"

function uls_loop :: "u32 \<Rightarrow> u32 \<Rightarrow> u32" where
  "uls_loop r1 r2 = (if r2 = 0 then r1 else uls_loop (push_bit 1 r1) (r2 + (- 1)))"
  by auto

function urs_loop :: "u32 \<Rightarrow> u32 \<Rightarrow> u32" where
  "urs_loop r1 r2 = (if r2 = 0 then r1 else urs_loop (drop_bit 1 r1) (r2 + (- 1)))"
  by auto

definition uleft_shift :: "u32 \<Rightarrow> u32 \<Rightarrow> u32" where
  "uleft_shift r1 r2 = (if sign_bit r2 then urs_loop r1 (0 - r2) else uls_loop r1 r2)"

definition uright_shift :: "u32 \<Rightarrow> u32 \<Rightarrow> u32" where
  "uright_shift r1 r2 = (if sign_bit r2 then uls_loop r1 (0 - r2) else urs_loop r1 r2)"

lemma unat_pred_less: "r \<noteq> 0 \<Longrightarrow> unat ((r :: u32) + (- 1)) < unat r"
  using unat_minus_one[of r] by (simp add: unat_gt_0)

lemma sign_bit_iff: "sign_bit r \<longleftrightarrow> 2147483648 \<le> unat r"
proof -
  have "sign_bit r \<longleftrightarrow> bit r 31"
    using and_exp_eq_0_iff_not_bit[of r 31] by (simp add: sign_bit_def)
  then show ?thesis by (simp add: bit_last_iff[where 'a=32, simplified] sint_neg_iff)
qed

definition countdown :: "u32 \<Rightarrow> nat" where
  "countdown r = (if sint r < 0 then 0 else Suc (unat r))"

lemma countdown_less: "\<not> sint r < 0 \<Longrightarrow> countdown (r + (- 1)) < countdown r"
  using unat_pred_less[of r] by (cases "r = 0") (auto simp: countdown_def)

termination udiv_loop
  by (relation "measure (\<lambda>(r3, r4, r5, r6). countdown r6)") (simp_all only: in_measure split wf_measure, rule countdown_less)

termination sdiv_loop
  by (relation "measure (\<lambda>(r3, r4, r5, r6). countdown r6)") (simp_all only: in_measure split wf_measure, rule countdown_less)

termination umod_loop
  by (relation "measure (\<lambda>(r4, r5, r6). countdown r6)") (simp_all only: in_measure split wf_measure, rule countdown_less)

termination smod_loop
  by (relation "measure (\<lambda>(r4, r5, r6). countdown r6)") (simp_all only: in_measure split wf_measure, rule countdown_less)

termination sls_loop
  by (relation "measure (\<lambda>(r1, r2). unat r2)") (simp_all only: in_measure split wf_measure, rule unat_pred_less)

termination srs_loop
  by (relation "measure (\<lambda>(r1, r2). unat r2)") (simp_all only: in_measure split wf_measure, rule unat_pred_less)

termination uls_loop
  by (relation "measure (\<lambda>(r1, r2). unat r2)") (simp_all only: in_measure split wf_measure, rule unat_pred_less)

termination urs_loop
  by (relation "measure (\<lambda>(r1, r2). unat r2)") (simp_all only: in_measure split wf_measure, rule unat_pred_less)

declare udiv_loop.simps [simp del] umod_loop.simps [simp del] sdiv_loop.simps [simp del] smod_loop.simps [simp del]
  sls_loop.simps [simp del] srs_loop.simps [simp del] uls_loop.simps [simp del] urs_loop.simps [simp del]


section \<open>The loops, once for every routine that has one\<close>

locale shift_add_loop =
  fixes loop :: "u32 \<Rightarrow> u32 \<Rightarrow> u32 \<Rightarrow> u32"
  assumes loop_step: "loop acc m x =
    (if m = 0 then acc else loop (if m AND 1 = 0 then acc else acc + x) (drop_bit 1 m) (push_bit 1 x))"
begin

lemma loop_product: "loop acc m x = acc + m * x"
proof (induction "unat m" arbitrary: acc m x rule: less_induct)
  case less
  show ?case
  proof (cases "m = 0")
    case True
    then show ?thesis by (subst loop_step) simp
  next
    case False
    have m: "m = 2 * drop_bit 1 m + (m AND 1)"
      using mult_div_mod_eq[of 2 m] by (simp add: drop_bit_Suc and_one_eq)
    have "loop acc m x = (if m AND 1 = 0 then acc else acc + x) + drop_bit 1 m * push_bit 1 x"
      using False less[of "drop_bit 1 m"] drop_bit_1_less[OF False] by (subst loop_step) simp
    also have "\<dots> = acc + (2 * drop_bit 1 m + (m AND 1)) * x"
      by (simp add: and_one_eq algebra_simps push_bit_Suc odd_iff_mod_2_eq_one)
    finally show ?thesis using m by simp
  qed
qed

end

interpretation umul: shift_add_loop umul_loop
  by unfold_locales (rule umul_loop.simps)

interpretation smul: shift_add_loop smul_loop
  by unfold_locales (rule smul_loop.simps)

locale shift_loop =
  fixes loop :: "u32 \<Rightarrow> u32 \<Rightarrow> u32" and one :: "u32 \<Rightarrow> u32"
  assumes loop_step: "loop x n = (if n = 0 then x else loop (one x) (n + (- 1)))"
begin

lemma loop_iterates: "loop x n = (one ^^ unat n) x"
proof (induction "unat n" arbitrary: n x)
  case 0
  then show ?case by (subst loop_step) (simp add: unat_eq_0)
next
  case (Suc k)
  have n: "n \<noteq> 0" using Suc(2) by auto
  then have k: "unat (n + (- 1)) = k" using unat_minus_one[OF n] Suc(2)[symmetric] by simp
  have "loop x n = (one ^^ k) (one x)" using n Suc(1)[OF k[symmetric]] k by (subst loop_step) simp
  then show ?case using Suc(2)[symmetric] by (simp add: funpow_swap1)
qed

end

interpretation sls: shift_loop sls_loop "push_bit 1"
  by unfold_locales (rule sls_loop.simps)

interpretation srs: shift_loop srs_loop "signed_drop_bit 1"
  by unfold_locales (rule srs_loop.simps)

interpretation uls: shift_loop uls_loop "push_bit 1"
  by unfold_locales (rule uls_loop.simps)

interpretation urs: shift_loop urs_loop "drop_bit 1"
  by unfold_locales (rule urs_loop.simps)


lemma push_bit_or_of_nat:
  assumes "m < 2 ^ k" "k < 32"
  shows "push_bit k 1 OR of_nat m = (of_nat (2 ^ k + m) :: u32)"
proof -
  have "\<not> bit (push_bit k 1 :: u32) n \<or> \<not> bit (of_nat m :: u32) n" for n
  proof -
    have "\<not> bit m k" using assms(1) by (simp add: bit_iff_odd)
    then show ?thesis using assms(2) by (cases "n = k") (auto simp: bit_simps bit_1_iff)
  qed
  then have "push_bit k 1 OR of_nat m = (push_bit k 1 + of_nat m :: u32)" by (metis disjunctive_add)
  then show ?thesis by (simp add: push_bit_eq_mult)
qed

text \<open>
  A trial divisor \<open>d * 2 ^ k\<close> whose double exceeds the dividend is what the
  alignment loop leaves; the subtraction loop then walks it back down.
\<close>

locale trial_division =
  fixes align :: "u32 \<Rightarrow> u32 \<Rightarrow> u32 \<Rightarrow> (u32 \<times> u32) option"
  assumes align_step: "align t x k =
    (if sint t < 0 then Some (t, k)
     else let t' = push_bit 1 t in if t' \<le> x then align t' x (k + 1) else Some (t, k))"
begin

lemma align_returns:
  assumes "unat t = d * 2 ^ j" "0 < d"
  shows "\<exists>t' k. align t x (of_nat j) = Some (t', of_nat k) \<and> unat t' = d * 2 ^ k \<and> unat x < d * 2 ^ Suc k"
  using assms
proof (induction "4294967296 - unat t" arbitrary: t j rule: less_induct)
  case less
  show ?case
  proof (cases "sint t < 0")
    case True
    then have "unat x < 2 * unat t" using unat_word32_less[of x] unfolding sint_neg_iff by linarith
    then have "unat x < d * 2 ^ Suc j" using less.prems by simp
    then show ?thesis using True less.prems by (subst align_step) auto
  next
    case False
    have "push_bit 1 t = t + t" by (simp add: push_bit_Suc mult_2_right)
    then have t': "unat (push_bit 1 t) = 2 * unat t" using False unat_add_u32[of t t] by (simp add: sint_neg_iff mult.commute[of t])
    show ?thesis
    proof (cases "push_bit 1 t \<le> x")
      case True
      have p: "unat (push_bit 1 t) = d * 2 ^ Suc j" using t' less.prems by simp
      have "0 < unat t" using less.prems by simp
      then have "4294967296 - unat (push_bit 1 t) < 4294967296 - unat t"
        using t' unat_word32_less[of "push_bit 1 t"] by linarith
      from less.hyps[OF this p less.prems(2)]
      show ?thesis using True False by (subst align_step) (auto simp: Let_def add.commute)
    next
      case no: False
      then have "unat x < d * 2 ^ Suc j" using t' less.prems by (simp add: word_le_nat_alt)
      then show ?thesis using no False less.prems by (subst align_step) auto
    qed
  qed
qed

end

interpretation udiv: trial_division udiv_align
  by unfold_locales (subst udiv_align.simps, simp)

interpretation umod: trial_division umod_align
  by unfold_locales (subst umod_align.simps, simp)

interpretation sdiv: trial_division sdiv_align
  by unfold_locales (subst sdiv_align.simps, simp)

interpretation smod: trial_division smod_align
  by unfold_locales (subst smod_align.simps, simp)

text \<open>One round of long division, on numbers.\<close>

lemma division_round:
  assumes "(x :: nat) < d * 2 ^ Suc k" "d * 2 ^ k \<le> x" "0 < d"
  shows "x div d = 2 ^ k + (x - d * 2 ^ k) div d" "x mod d = (x - d * 2 ^ k) mod d"
    "(x - d * 2 ^ k) div d < 2 ^ k" "x - d * 2 ^ k < d * 2 ^ k"
proof -
  obtain y where x: "x = d * 2 ^ k + y" using assms(2) le_iff_add by blast
  then have "y < 2 ^ k * d" using assms(1) by (simp add: mult.commute)
  then show "x div d = 2 ^ k + (x - d * 2 ^ k) div d" "x mod d = (x - d * 2 ^ k) mod d"
    "(x - d * 2 ^ k) div d < 2 ^ k" "x - d * 2 ^ k < d * 2 ^ k"
    using x assms(3) by (simp_all add: less_mult_imp_div_less mult.commute)
qed

lemma halved_divisor: "unat t = d * 2 ^ k \<Longrightarrow> 0 < k \<Longrightarrow> unat (drop_bit (Suc 0) (t :: u32)) = d * 2 ^ (k - 1)"
  by (cases k) (simp_all add: unat_drop_bit_1)

locale remainder_loop =
  fixes loop :: "u32 \<Rightarrow> u32 \<Rightarrow> u32 \<Rightarrow> u32"
  assumes loop_step: "loop t x k =
    (if sint k < 0 then x else loop (drop_bit 1 t) (if x < t then x else x - t) (k + (- 1)))"
begin

lemma loop_remainder:
  assumes "0 < k \<Longrightarrow> unat t = d * 2 ^ (k - 1)" "unat x < d * 2 ^ k" "k \<le> 32" "0 < d"
  shows "loop t x (of_nat k - 1) = of_nat (unat x mod d)"
  using assms
proof (induction k arbitrary: t x)
  case 0
  then show ?case by (subst loop_step) simp
next
  case (Suc k)
  have t: "unat t = d * 2 ^ k" using Suc.prems(1) by simp
  have "unat (of_nat k :: u32) = k" using Suc.prems(3) by (simp add: unat_of_nat)
  then have s: "\<not> sint (of_nat k :: u32) < 0" using Suc.prems(3) by (simp add: sint_neg_iff)
  note h = halved_divisor[OF t]
  show ?case
  proof (cases "x < t")
    case True
    then have "loop (drop_bit 1 t) x (of_nat k - 1) = of_nat (unat x mod d)"
      using Suc.IH[of "drop_bit (Suc 0) t" x] h Suc.prems t by (simp add: word_less_nat_alt)
    then show ?thesis using s True by (subst loop_step) simp
  next
    case False
    then have le: "d * 2 ^ k \<le> unat x" using t by (simp add: word_less_nat_alt)
    then have d: "unat (x - t) = unat x - d * 2 ^ k" using t by (simp add: unat_diff_u32)
    note r = division_round[OF Suc.prems(2) le Suc.prems(4)]
    have "loop (drop_bit 1 t) (x - t) (of_nat k - 1) = of_nat (unat x mod d)"
      using Suc.IH[of "drop_bit (Suc 0) t" "x - t"] h Suc.prems d r by simp
    then show ?thesis using s False by (subst loop_step) simp
  qed
qed

end

interpretation umod_sub: remainder_loop umod_loop
  by unfold_locales (rule umod_loop.simps)

interpretation smod_sub: remainder_loop smod_loop
  by unfold_locales (rule smod_loop.simps)

locale quotient_loop =
  fixes loop :: "u32 \<Rightarrow> u32 \<Rightarrow> u32 \<Rightarrow> u32 \<Rightarrow> u32"
  assumes loop_step: "loop q t x k =
    (if sint k < 0 then q
     else let (q, x) = (if x < t then (q, x) else (q OR push_bit (unat k) (0 + 1), x - t))
          in loop q (drop_bit 1 t) x (k + (- 1)))"
begin

lemma loop_quotient:
  assumes "0 < k \<Longrightarrow> unat t = d * 2 ^ (k - 1)" "unat x < d * 2 ^ k" "k \<le> 32" "0 < d"
  shows "loop q t x (of_nat k - 1) = q OR of_nat (unat x div d)"
  using assms
proof (induction k arbitrary: q t x)
  case 0
  then show ?case by (subst loop_step) simp
next
  case (Suc k)
  have t: "unat t = d * 2 ^ k" using Suc.prems(1) by simp
  have u: "unat (of_nat k :: u32) = k" using Suc.prems(3) by (simp add: unat_of_nat)
  then have s: "\<not> sint (of_nat k :: u32) < 0" using Suc.prems(3) by (simp add: sint_neg_iff)
  note h = halved_divisor[OF t]
  show ?case
  proof (cases "x < t")
    case True
    then have "loop q (drop_bit 1 t) x (of_nat k - 1) = q OR of_nat (unat x div d)"
      using Suc.IH[of "drop_bit (Suc 0) t" x q] h Suc.prems t by (simp add: word_less_nat_alt)
    then show ?thesis using s True by (subst loop_step) simp
  next
    case False
    then have le: "d * 2 ^ k \<le> unat x" using t by (simp add: word_less_nat_alt)
    then have d: "unat (x - t) = unat x - d * 2 ^ k" using t by (simp add: unat_diff_u32)
    note r = division_round[OF Suc.prems(2) le Suc.prems(4)]
    have "loop (q OR push_bit k 1) (drop_bit 1 t) (x - t) (of_nat k - 1)
        = (q OR push_bit k 1) OR of_nat ((unat x - d * 2 ^ k) div d)"
      using Suc.IH[of "drop_bit (Suc 0) t" "x - t" "q OR push_bit k 1"] h Suc.prems d r by simp
    also have "\<dots> = q OR of_nat (unat x div d)"
      using push_bit_or_of_nat[OF r(3)] Suc.prems(3) r(1) by (simp add: or.assoc)
    finally show ?thesis using s False u by (subst loop_step) simp
  qed
qed

end

interpretation udiv_sub: quotient_loop udiv_loop
  by unfold_locales (rule udiv_loop.simps)

interpretation sdiv_sub: quotient_loop sdiv_loop
  by unfold_locales (rule sdiv_loop.simps)


section \<open>The routines\<close>

lemma pow2_bound: "unat (t :: u32) = d * 2 ^ k \<Longrightarrow> 0 < d \<Longrightarrow> k < 32"
proof (rule ccontr)
  assume t: "unat t = d * 2 ^ k" "0 < d" "\<not> k < 32"
  then have "(2 :: nat) ^ 32 \<le> 2 ^ k" by (intro power_increasing) auto
  also have "\<dots> \<le> d * 2 ^ k" using t(2) by simp
  finally show False using t(1) unat_word32_less[of t] by simp
qed

lemma quotient_routine:
  assumes "trial_division align" "quotient_loop loop" "b \<noteq> 0"
  shows "do { (t, k) \<leftarrow> align b a 0; Some (g (loop 0 t a k)) } = Some (g (of_nat (unat a div unat b)))"
proof -
  have "0 < unat b" using assms(3) by (simp add: unat_gt_0)
  then obtain t k where al: "align b a (of_nat 0) = Some (t, of_nat k)" "unat t = unat b * 2 ^ k"
    "unat a < unat b * 2 ^ Suc k"
    using trial_division.align_returns[OF assms(1), of b "unat b" 0 a] by auto
  have "loop 0 t a (of_nat (Suc k) - 1) = 0 OR of_nat (unat a div unat b)"
    using al \<open>0 < unat b\<close> pow2_bound[OF al(2)] by (intro quotient_loop.loop_quotient[OF assms(2)]) auto
  then show ?thesis using al(1) by simp
qed

lemma remainder_routine:
  assumes "trial_division align" "remainder_loop loop" "b \<noteq> 0"
  shows "do { (t, k) \<leftarrow> align b a 0; Some (g (loop t a k)) } = Some (g (of_nat (unat a mod unat b)))"
proof -
  have "0 < unat b" using assms(3) by (simp add: unat_gt_0)
  then obtain t k where al: "align b a (of_nat 0) = Some (t, of_nat k)" "unat t = unat b * 2 ^ k"
    "unat a < unat b * 2 ^ Suc k"
    using trial_division.align_returns[OF assms(1), of b "unat b" 0 a] by auto
  have "loop t a (of_nat (Suc k) - 1) = of_nat (unat a mod unat b)"
    using al \<open>0 < unat b\<close> pow2_bound[OF al(2)] by (intro remainder_loop.loop_remainder[OF assms(2)]) auto
  then show ?thesis using al(1) by simp
qed

lemma magnitude: "unat (if sign_bit r then 0 - r else r) = nat \<bar>sint r\<bar>" "sign_bit r \<longleftrightarrow> sint r < 0"
proof -
  show s: "sign_bit r \<longleftrightarrow> sint r < 0" by (simp add: sign_bit_iff sint_neg_iff)
  show "unat (if sign_bit r then 0 - r else r) = nat \<bar>sint r\<bar>"
  proof (cases "sign_bit r")
    case True
    then have "r \<noteq> 0" "2147483648 \<le> unat r" by (auto simp: sign_bit_iff)
    then have "unat (0 - r) = 4294967296 - unat r" using unat_diff_u32[of 0 r] by simp
    then show ?thesis using True \<open>2147483648 \<le> unat r\<close> unat_word32_less[of r] sint_cases[of r] by (auto simp only: if_True split: if_splits)
  next
    case False
    then show ?thesis by (simp add: sign_bit_iff sint_cases)
  qed
qed

abbreviation mag :: "u32 \<Rightarrow> u32" where
  "mag r \<equiv> (if sign_bit r then 0 - r else r)"

lemma mag_zero: "mag b = 0 \<longleftrightarrow> b = 0"
  by simp

lemma sint_zero: "sint (b :: u32) = 0 \<longleftrightarrow> b = 0"
  by (metis signed_0 signed_word_eqI)

lemma sdiv_normalised:
  assumes "b \<noteq> 0"
  shows "sdiv a b = do { (t, k) \<leftarrow> sdiv_align (mag b) (mag a) 0;
           Some ((\<lambda>q. if sign_bit a \<noteq> sign_bit b then 0 - q else q) (sdiv_loop 0 t (mag a) k)) }"
  using assms by (cases "sign_bit a"; cases "sign_bit b") (simp_all add: sdiv_def case_prod_beta)

lemma smod_normalised:
  assumes "b \<noteq> 0"
  shows "smod a b = do { (t, k) \<leftarrow> smod_align (mag b) (mag a) 0;
           Some ((\<lambda>r. if sign_bit a then 0 - r else r) (smod_loop t (mag a) k)) }"
  using assms by (cases "sign_bit a"; cases "sign_bit b") (simp_all add: smod_def case_prod_beta)

lemma signed_of_nat:
  assumes "0 \<le> (x :: int)"
  shows "(if neg then 0 - of_nat (nat x) else of_nat (nat x) :: u32) = word_of_int ((if neg then - 1 else 1) * x)"
  using assms by simp

lemma sdiv_value:
  assumes "b \<noteq> 0"
  shows "sdiv a b = Some (word_of_int (sgn (sint a) * sgn (sint b) * (\<bar>sint a\<bar> div \<bar>sint b\<bar>)))"
proof -
  have m0: "mag b \<noteq> 0" using assms by simp
  let ?q = "\<bar>sint a\<bar> div \<bar>sint b\<bar>"
  have q: "0 \<le> ?q" by (simp add: pos_imp_zdiv_nonneg_iff sint_zero assms)
  have "unat (mag a) div unat (mag b) = nat ?q" by (simp only: magnitude(1)) (simp add: nat_div_distrib)
  then have "sdiv a b = Some ((\<lambda>q. if sign_bit a \<noteq> sign_bit b then 0 - q else q) (of_nat (nat ?q)))"
    unfolding sdiv_normalised[OF assms]
    using quotient_routine[OF sdiv.trial_division_axioms sdiv_sub.quotient_loop_axioms m0, of "mag a" "\<lambda>q. if sign_bit a \<noteq> sign_bit b then 0 - q else q"]
    by (simp only:)
  also have "\<dots> = Some (word_of_int ((if sign_bit a \<noteq> sign_bit b then - 1 else 1) * ?q))"
    by (simp only: signed_of_nat[OF q])
  also have "(if sign_bit a \<noteq> sign_bit b then - 1 else 1) * ?q = sgn (sint a) * sgn (sint b) * ?q"
    using sint_zero[of b] assms by (cases "sint a = 0") (auto simp: magnitude(2) sgn_if)
  finally show ?thesis .
qed

lemma smod_value:
  assumes "b \<noteq> 0"
  shows "smod a b = Some (word_of_int (sgn (sint a) * (\<bar>sint a\<bar> mod \<bar>sint b\<bar>)))"
proof -
  have m0: "mag b \<noteq> 0" using assms by simp
  let ?r = "\<bar>sint a\<bar> mod \<bar>sint b\<bar>"
  have r: "0 \<le> ?r" using sint_zero[of b] assms by simp
  have "unat (mag a) mod unat (mag b) = nat ?r" by (simp only: magnitude(1)) (simp add: nat_mod_distrib)
  then have "smod a b = Some ((\<lambda>r. if sign_bit a then 0 - r else r) (of_nat (nat ?r)))"
    unfolding smod_normalised[OF assms]
    using remainder_routine[OF smod.trial_division_axioms smod_sub.remainder_loop_axioms m0, of "mag a" "\<lambda>r. if sign_bit a then 0 - r else r"]
    by (simp only:)
  also have "\<dots> = Some (word_of_int ((if sign_bit a then - 1 else 1) * ?r))"
    by (simp only: signed_of_nat[OF r])
  also have "(if sign_bit a then - 1 else 1) * ?r = sgn (sint a) * ?r"
    by (cases "sint a = 0") (auto simp: magnitude(2) sgn_if)
  finally show ?thesis .
qed

text \<open>C22. The software multiplication routines compute the product modulo 2^32, for
  unsigned operands and for signed operands whose magnitudes are multiplied and whose
  sign is restored.\<close>

theorem mul_correct: "umul a b = a * b \<and> smul a b = a * b"
proof
  show "umul a b = a * b" by (simp add: umul_def umul.loop_product mult.commute)
  show "smul a b = a * b"
    by (cases "sign_bit a"; cases "sign_bit b") (simp_all add: smul_def smul.loop_product mult.commute)
qed

text \<open>C23. The software division routines return on every input, the divisor 0 included
  (then with 0), and compute quotient and remainder: unsigned, and signed with the
  quotient truncated towards zero and the remainder signed like the dividend.\<close>

theorem div_correct:
  "udiv a b = Some (if b = 0 then 0 else a div b)
   \<and> umod a b = Some (if b = 0 then 0 else a mod b)
   \<and> sdiv a b = Some (if b = 0 then 0
       else word_of_int (sgn (sint a) * sgn (sint b) * (\<bar>sint a\<bar> div \<bar>sint b\<bar>)))
   \<and> smod a b = Some (if b = 0 then 0 else word_of_int (sgn (sint a) * (\<bar>sint a\<bar> mod \<bar>sint b\<bar>)))"
proof (cases "b = 0")
  case True
  then show ?thesis by (simp add: udiv_def umod_def sdiv_def smod_def)
next
  case False
  have "udiv a b = Some (of_nat (unat a div unat b))"
    using quotient_routine[OF udiv.trial_division_axioms udiv_sub.quotient_loop_axioms False, of a "\<lambda>x. x"] False
    by (simp add: udiv_def)
  moreover have "umod a b = Some (of_nat (unat a mod unat b))"
    using remainder_routine[OF umod.trial_division_axioms umod_sub.remainder_loop_axioms False, of a "\<lambda>x. x"] False
    by (simp add: umod_def)
  ultimately show ?thesis using False by (simp add: sdiv_value smod_value unat_div_distrib[symmetric] unat_mod_distrib[symmetric])
qed

text \<open>The shift routines shift by the magnitude of the count, which is not masked to
  five bits, and in the opposite direction when the count is negative.\<close>

theorem shift_correct:
  "uleft_shift a n = (if sint n < 0 then drop_bit (nat (- sint n)) a else push_bit (nat (sint n)) a)
   \<and> uright_shift a n = (if sint n < 0 then push_bit (nat (- sint n)) a else drop_bit (nat (sint n)) a)
   \<and> sleft_shift a n = (if sint n < 0 then signed_drop_bit (nat (- sint n)) a else push_bit (nat (sint n)) a)
   \<and> sright_shift a n = (if sint n < 0 then push_bit (nat (- sint n)) a else signed_drop_bit (nat (sint n)) a)"
proof -
  have "(push_bit 1 ^^ k) a = push_bit k a" for k by (induction k) (simp_all add: push_bit_eq_mult)
  moreover have "(drop_bit 1 ^^ k) a = drop_bit k a" for k by (induction k) simp_all
  moreover have "(signed_drop_bit 1 ^^ k) a = signed_drop_bit k a" for k by (induction k) simp_all
  ultimately show ?thesis using magnitude[of n]
    by (cases "sint n < 0") (simp_all add: uleft_shift_def uright_shift_def sleft_shift_def sright_shift_def
        uls.loop_iterates urs.loop_iterates sls.loop_iterates srs.loop_iterates)
qed

end
