(* ===== verification/Interleaving.thy ===== *)
theory Interleaving
  imports Prelude
begin

text \<open>
  Threads that share an object.  Each call of a kernel operation is cut at the points
  where another thread can run: a thread is at a program point, and one step executes
  the code up to the next such point.  Code under a spin lock is one step, by mutual
  exclusion of the CLH lock (theory \<open>Atomic\<close>).  A step may block (it is then not
  taken), may fail an assert, and may make other threads runnable, which continue from
  the program point \<open>resume\<close> gives.
\<close>

datatype ('p, 's) outcome = Blocked | Panic | Go 'p 's "nat list"

definition wake_all :: "('p \<Rightarrow> 'p) \<Rightarrow> nat list \<Rightarrow> 'p list \<Rightarrow> 'p list" where
  "wake_all resume ws ps = fold (\<lambda>w ps. ps[w := resume (ps ! w)]) ws ps"

inductive run_step :: "('p \<Rightarrow> nat \<Rightarrow> 's \<Rightarrow> ('p, 's) outcome) \<Rightarrow> ('p \<Rightarrow> 'p) \<Rightarrow> ('p \<Rightarrow> 'p \<Rightarrow> bool)
    \<Rightarrow> 'p list \<times> 's \<Rightarrow> 'p list \<times> 's \<Rightarrow> bool"
  for step resume starts where
  advance: "i < length ps \<Longrightarrow> step (ps ! i) i s = Go p s' ws
     \<Longrightarrow> run_step step resume starts (ps, s) (wake_all resume ws (ps[i := p]), s')"
| start: "i < length ps \<Longrightarrow> starts (ps ! i) p \<Longrightarrow> run_step step resume starts (ps, s) (ps[i := p], s)"

abbreviation run where
  "run step resume starts \<equiv> (run_step step resume starts)\<^sup>*\<^sup>*"

lemma length_wake_all [simp]: "length (wake_all resume ws ps) = length ps"
  unfolding wake_all_def by (induction ws arbitrary: ps) auto

lemma wake_all_Nil [simp]: "wake_all resume [] ps = ps"
  by (simp add: wake_all_def)

lemma wake_all_one [simp]: "wake_all resume [w] ps = ps[w := resume (ps ! w)]"
  by (simp add: wake_all_def)

lemma wake_all_Cons: "wake_all resume (w # ws) ps = wake_all resume ws (ps[w := resume (ps ! w)])"
  by (simp add: wake_all_def)

lemma nth_wake_all:
  "distinct ws \<Longrightarrow> i < length ps \<Longrightarrow> wake_all resume ws ps ! i = (if i \<in> set ws then resume (ps ! i) else ps ! i)"
proof (induction ws arbitrary: ps)
  case (Cons a ws)
  then show ?case by (cases "a = i") (auto simp: wake_all_Cons)
qed simp

text \<open>An invariant that every step and every start keeps holds in every reachable state.\<close>

lemma run_invariant:
  assumes "run step resume starts a b" "I (fst a) (snd a)"
    and "\<And>ps s i p s' ws. I ps s \<Longrightarrow> i < length ps \<Longrightarrow> step (ps ! i) i s = Go p s' ws
      \<Longrightarrow> I (wake_all resume ws (ps[i := p])) s'"
    and "\<And>ps s i p. I ps s \<Longrightarrow> i < length ps \<Longrightarrow> starts (ps ! i) p \<Longrightarrow> I (ps[i := p]) s"
  shows "I (fst b) (snd b)"
  using assms(1)
proof (induction rule: rtranclp_induct)
  case base
  then show ?case using assms(2) .
next
  case (step b c)
  from step(2) show ?case
  proof cases
    case advance
    then show ?thesis using assms(3) step(3) by simp
  next
    case start
    then show ?thesis using assms(4) step(3) by simp
  qed
qed

text \<open>Sums over the program points: how many threads stand at certain points.\<close>

definition total :: "('p \<Rightarrow> nat) \<Rightarrow> 'p list \<Rightarrow> nat" where
  "total w ps = sum_list (map w ps)"

lemma total_update: "i < length ps \<Longrightarrow> total w (ps[i := p]) + w (ps ! i) = total w ps + w p"
  by (induction ps arbitrary: i) (auto simp: total_def split: nat.splits)

lemma total_update': "i < length ps \<Longrightarrow> total w (ps[i := p]) = total w ps + w p - w (ps ! i)"
  using total_update[of i ps w p] by linarith

lemma total_sum: "total w ps = (\<Sum>k<length ps. w (ps ! k))"
  by (simp add: total_def sum_list_sum_nth atLeast0LessThan)

lemma total_ge: "i < length ps \<Longrightarrow> w (ps ! i) \<le> total w ps"
  unfolding total_sum by (rule member_le_sum) auto

lemma total_ge_two:
  assumes "i < length ps" "j < length ps" "i \<noteq> j"
  shows "w (ps ! i) + w (ps ! j) \<le> total w ps"
proof -
  have "(\<Sum>k\<in>{i, j}. w (ps ! k)) \<le> (\<Sum>k<length ps. w (ps ! k))" by (rule sum_mono2) (use assms in auto)
  then show ?thesis using assms(3) by (simp add: total_sum)
qed

lemma total_replicate [simp]: "total w (replicate n p) = n * w p"
  by (simp add: total_def sum_list_replicate)

lemma total_pos: "0 < total w ps \<longleftrightarrow> (\<exists>i<length ps. 0 < w (ps ! i))"
proof -
  have "total w ps = 0 \<longleftrightarrow> (\<forall>i<length ps. w (ps ! i) = 0)" by (auto simp: total_sum)
  then show ?thesis by auto
qed

lemma total_wake_all:
  "distinct ws \<Longrightarrow> \<forall>i\<in>set ws. i < length ps \<and> ps ! i = a
    \<Longrightarrow> total w (wake_all resume ws ps) + length ws * w a = total w ps + length ws * w (resume a)"
proof (induction ws arbitrary: ps)
  case (Cons x ws)
  have "total w (wake_all resume ws (ps[x := resume a])) + length ws * w a
      = total w (ps[x := resume a]) + length ws * w (resume a)"
    using Cons.prems by (intro Cons.IH) (auto simp: nth_list_update)
  then show ?case using total_update[of x ps w "resume a"] Cons.prems by (simp add: wake_all_Cons)
qed simp

text \<open>The wait queue lists exactly the threads parked at a program point.\<close>

definition parked_at :: "'p \<Rightarrow> nat list \<Rightarrow> 'p list \<Rightarrow> bool" where
  "parked_at P wq ps \<longleftrightarrow> distinct wq \<and> (\<forall>i. i \<in> set wq \<longleftrightarrow> i < length ps \<and> ps ! i = P)"

lemma parked_mem: "parked_at P wq ps \<Longrightarrow> i < length ps \<Longrightarrow> ps ! i = P \<Longrightarrow> wq \<noteq> []"
  unfolding parked_at_def by (metis empty_iff empty_set)

lemma parked_other: "parked_at P wq ps \<Longrightarrow> i < length ps \<Longrightarrow> ps ! i \<noteq> P \<Longrightarrow> p \<noteq> P \<Longrightarrow> parked_at P wq (ps[i := p])"
  by (auto simp: parked_at_def nth_list_update)

lemma parked_add: "parked_at P wq ps \<Longrightarrow> i < length ps \<Longrightarrow> ps ! i \<noteq> P \<Longrightarrow> parked_at P (wq @ [i]) (ps[i := P])"
  by (auto simp: parked_at_def nth_list_update)

lemma parked_wake:
  assumes "parked_at P (w # wq) ps" "q \<noteq> P"
  shows "parked_at P wq (ps[w := q])" "w < length ps" "ps ! w = P"
proof -
  have m: "i \<in> set (w # wq) \<longleftrightarrow> i < length ps \<and> ps ! i = P" and "distinct (w # wq)" for i
    using assms unfolding parked_at_def by blast+
  then show "w < length ps" "ps ! w = P" using m[of w] by auto
  have "i \<in> set wq \<longleftrightarrow> i < length ps \<and> ps[w := q] ! i = P" for i
    using m[of i] \<open>distinct (w # wq)\<close> assms(2) by (cases "i = w") auto
  then show "parked_at P wq (ps[w := q])" using \<open>distinct (w # wq)\<close> by (simp add: parked_at_def)
qed

lemma parked_wake_all:
  assumes "parked_at P wq ps" "resume P \<noteq> P"
  shows "parked_at P [] (wake_all resume wq ps)"
  using assms by (auto simp: parked_at_def nth_wake_all)

lemma parked_wake_others:
  assumes "parked_at P wq ps" "parked_at Q ws ps" "P \<noteq> Q" "resume Q \<noteq> P"
  shows "parked_at P wq (wake_all resume ws ps)"
proof -
  have "distinct ws" and m: "i \<in> set wq \<longleftrightarrow> i < length ps \<and> ps ! i = P" "i \<in> set ws \<longleftrightarrow> i < length ps \<and> ps ! i = Q" for i
    using assms(1,2) unfolding parked_at_def by blast+
  have "i \<in> set wq \<longleftrightarrow> i < length ps \<and> wake_all resume ws ps ! i = P" for i
    using m[of i] nth_wake_all[OF \<open>distinct ws\<close>, of i ps resume] assms(3,4) by (cases "i < length ps"; cases "i \<in> set ws") simp_all
  then show ?thesis using assms(1) by (simp add: parked_at_def)
qed

text \<open>A schedule: which thread moves, and which operation it starts if it starts one.\<close>

definition exec1 :: "('p \<Rightarrow> nat \<Rightarrow> 's \<Rightarrow> ('p, 's) outcome) \<Rightarrow> ('p \<Rightarrow> 'p) \<Rightarrow> ('p \<Rightarrow> 'p \<Rightarrow> bool)
    \<Rightarrow> nat \<times> 'p option \<Rightarrow> 'p list \<times> 's \<Rightarrow> 'p list \<times> 's" where
  "exec1 step resume starts m c = (case (m, c) of ((i, to), (ps, s)) \<Rightarrow>
     if length ps \<le> i then c
     else (case to of
         Some p \<Rightarrow> if starts (ps ! i) p then (ps[i := p], s) else c
       | None \<Rightarrow> (case step (ps ! i) i s of Go p s' ws \<Rightarrow> (wake_all resume ws (ps[i := p]), s') | _ \<Rightarrow> c)))"

definition exec :: "('p \<Rightarrow> nat \<Rightarrow> 's \<Rightarrow> ('p, 's) outcome) \<Rightarrow> ('p \<Rightarrow> 'p) \<Rightarrow> ('p \<Rightarrow> 'p \<Rightarrow> bool)
    \<Rightarrow> (nat \<times> 'p option) list \<Rightarrow> 'p list \<times> 's \<Rightarrow> 'p list \<times> 's" where
  "exec step resume starts sched c = fold (exec1 step resume starts) sched c"

lemma run_exec1: "run step resume starts c (exec1 step resume starts m c)"
  by (cases c; cases m) (auto simp: exec1_def intro!: r_into_rtranclp run_step.intros split: option.splits outcome.splits)

lemma run_exec: "run step resume starts c (exec step resume starts sched c)"
  unfolding exec_def
proof (induction sched arbitrary: c)
  case (Cons m sched)
  show ?case using rtranclp_trans[OF run_exec1 Cons] by simp
qed simp

end
