(* ===== verification/Rw_Lock.thy ===== *)
theory Rw_Lock
  imports Interleaving
begin

text \<open>
  The write-preferring reader-writer lock of \<open>kernel/rw_lock.c\<close>.  Every call is cut
  at the release of the internal spin lock and at the context switch after which the
  \<open>block\<close> callback parks the thread.  Shown: readers and writers exclude each other,
  the asserts of the release functions never fire, and a thread is parked only while the
  lock is held, so that a release will find it.
\<close>

record rw_lock =
  waiting_readers :: "nat list"
  waiting_writers :: "nat list"
  readers :: u32
  writer_active :: bool

definition rw_lock_init :: rw_lock where
  "rw_lock_init = \<lparr>waiting_readers = [], waiting_writers = [], readers = 0, writer_active = False\<rparr>"

definition rw_add_reader :: "nat \<Rightarrow> rw_lock \<Rightarrow> rw_lock \<times> nat list" where
  "rw_add_reader tcb l =
     (if \<not> writer_active l \<and> length (waiting_writers l) = 0 then (l\<lparr>readers := readers l + 1\<rparr>, [tcb])
      else (l\<lparr>waiting_readers := waiting_readers l @ [tcb]\<rparr>, []))"

text \<open>The part of \<open>rw_lock_acquire_read\<close> before the thread blocks; the flag tells whether it returns.\<close>

definition rw_lock_acquire_read :: "rw_lock \<Rightarrow> bool \<times> rw_lock" where
  "rw_lock_acquire_read l =
     (if \<not> writer_active l \<and> length (waiting_writers l) = 0 then (True, l\<lparr>readers := readers l + 1\<rparr>) else (False, l))"

definition rw_lock_release_read :: "rw_lock \<Rightarrow> (rw_lock \<times> nat list) option" where
  "rw_lock_release_read l = do {
     kassert (readers l > 0);
     let l = l\<lparr>readers := readers l - 1\<rparr>;
     if readers l = 0 \<and> length (waiting_writers l) > 0
     then Some (l\<lparr>waiting_writers := tl (waiting_writers l), writer_active := True\<rparr>, [hd (waiting_writers l)])
     else Some (l, [])
   }"

definition rw_add_writer :: "nat \<Rightarrow> rw_lock \<Rightarrow> rw_lock \<times> nat list" where
  "rw_add_writer tcb l =
     (if \<not> writer_active l \<and> readers l = 0 then (l\<lparr>writer_active := True\<rparr>, [tcb])
      else (l\<lparr>waiting_writers := waiting_writers l @ [tcb]\<rparr>, []))"

definition rw_lock_acquire_write :: "rw_lock \<Rightarrow> bool \<times> rw_lock" where
  "rw_lock_acquire_write l =
     (if \<not> writer_active l \<and> readers l = 0 then (True, l\<lparr>writer_active := True\<rparr>) else (False, l))"

definition rw_lock_release_write :: "rw_lock \<Rightarrow> (rw_lock \<times> nat list) option" where
  "rw_lock_release_write l = do {
     kassert (writer_active l);
     let l = l\<lparr>writer_active := False\<rparr>;
     if length (waiting_writers l) > 0
     then Some (l\<lparr>waiting_writers := tl (waiting_writers l), writer_active := True\<rparr>, [hd (waiting_writers l)])
     else Some (l\<lparr>waiting_readers := [], readers := readers l + of_nat (length (waiting_readers l))\<rparr>, waiting_readers l)
   }"

text \<open>The parked threads go to the reaper.\<close>

definition rw_lock_destroy :: "rw_lock \<Rightarrow> rw_lock \<times> nat list" where
  "rw_lock_destroy l = (l\<lparr>waiting_readers := [], waiting_writers := []\<rparr>, waiting_readers l @ waiting_writers l)"

datatype rw_pc = Outside | AcqRead | SwitchRead | ParkRead | Reading | RelRead
  | AcqWrite | SwitchWrite | ParkWrite | Writing | RelWrite

fun rw_step :: "rw_pc \<Rightarrow> nat \<Rightarrow> rw_lock \<Rightarrow> (rw_pc, rw_lock) outcome" where
  "rw_step AcqRead i l = (case rw_lock_acquire_read l of (ok, l) \<Rightarrow> Go (if ok then Reading else SwitchRead) l [])"
| "rw_step SwitchRead i l = (case rw_add_reader i l of (l, woken) \<Rightarrow> Go ParkRead l woken)"
| "rw_step RelRead i l = (case rw_lock_release_read l of None \<Rightarrow> Panic | Some (l, woken) \<Rightarrow> Go Outside l woken)"
| "rw_step AcqWrite i l = (case rw_lock_acquire_write l of (ok, l) \<Rightarrow> Go (if ok then Writing else SwitchWrite) l [])"
| "rw_step SwitchWrite i l = (case rw_add_writer i l of (l, woken) \<Rightarrow> Go ParkWrite l woken)"
| "rw_step RelWrite i l = (case rw_lock_release_write l of None \<Rightarrow> Panic | Some (l, woken) \<Rightarrow> Go Outside l woken)"
| "rw_step _ i l = Blocked"

fun rw_resume :: "rw_pc \<Rightarrow> rw_pc" where
  "rw_resume ParkRead = Reading"
| "rw_resume ParkWrite = Writing"
| "rw_resume p = p"

definition rw_starts :: "rw_pc \<Rightarrow> rw_pc \<Rightarrow> bool" where
  "rw_starts p q \<longleftrightarrow> (p = Outside \<and> (q = AcqRead \<or> q = AcqWrite)) \<or> (p = Reading \<and> q = RelRead) \<or> (p = Writing \<and> q = RelWrite)"

definition reads :: "rw_pc \<Rightarrow> nat" where
  "reads p = (if p = Reading \<or> p = RelRead then 1 else 0)"

definition writes :: "rw_pc \<Rightarrow> nat" where
  "writes p = (if p = Writing \<or> p = RelWrite then 1 else 0)"

definition rw_counts :: "rw_pc list \<Rightarrow> rw_lock \<Rightarrow> bool" where
  "rw_counts ps l \<longleftrightarrow> unat (readers l) = total reads ps \<and> total writes ps = (if writer_active l then 1 else 0)
     \<and> \<not> (writer_active l \<and> readers l \<noteq> 0)"

definition rw_inv :: "nat \<Rightarrow> rw_pc list \<Rightarrow> rw_lock \<Rightarrow> bool" where
  "rw_inv n ps l \<longleftrightarrow> length ps = n \<and> rw_counts ps l
     \<and> parked_at ParkRead (waiting_readers l) ps \<and> parked_at ParkWrite (waiting_writers l) ps
     \<and> (waiting_writers l \<noteq> [] \<longrightarrow> writer_active l \<or> readers l \<noteq> 0)
     \<and> (waiting_readers l \<noteq> [] \<longrightarrow> writer_active l \<or> waiting_writers l \<noteq> [])"

lemma reads_simps [simp]:
  "reads Reading = 1" "reads RelRead = 1" "reads Outside = 0" "reads AcqRead = 0" "reads SwitchRead = 0" "reads ParkRead = 0"
  "reads AcqWrite = 0" "reads SwitchWrite = 0" "reads ParkWrite = 0" "reads Writing = 0" "reads RelWrite = 0"
  "writes Reading = 0" "writes RelRead = 0" "writes Outside = 0" "writes AcqRead = 0" "writes SwitchRead = 0" "writes ParkRead = 0"
  "writes AcqWrite = 0" "writes SwitchWrite = 0" "writes ParkWrite = 0" "writes Writing = 1" "writes RelWrite = 1"
  by (simp_all add: reads_def writes_def)

lemma total_reads_le: "total reads ps \<le> length ps"
  unfolding total_sum by (rule order.trans[OF sum_mono[where g="\<lambda>_. 1"]]) (auto simp: reads_def)

lemma rw_inv_init: "rw_inv n (replicate n Outside) rw_lock_init"
  by (auto simp: rw_inv_def rw_counts_def rw_lock_init_def parked_at_def)

lemma unat_inc: "unat (r :: u32) + k < 4294967296 \<Longrightarrow> unat (r + of_nat k) = unat r + k"
  by (subst unat_add_u32) (auto simp: unat_of_nat)

lemma rw_invD:
  assumes "rw_inv n ps l"
  shows "length ps = n" "unat (readers l) = total reads ps" "total writes ps = (if writer_active l then 1 else 0)"
    "\<not> (writer_active l \<and> readers l \<noteq> 0)" "parked_at ParkRead (waiting_readers l) ps"
    "parked_at ParkWrite (waiting_writers l) ps" "waiting_writers l \<noteq> [] \<longrightarrow> writer_active l \<or> readers l \<noteq> 0"
    "waiting_readers l \<noteq> [] \<longrightarrow> writer_active l \<or> waiting_writers l \<noteq> []"
  using assms by (auto simp: rw_inv_def rw_counts_def)

lemma rw_move:
  assumes "rw_inv n ps l" "i < n" "ps ! i \<noteq> ParkRead" "ps ! i \<noteq> ParkWrite" "p \<noteq> ParkRead" "p \<noteq> ParkWrite"
    "reads p = reads (ps ! i)" "writes p = writes (ps ! i)"
  shows "rw_inv n (ps[i := p]) l"
  using rw_invD[OF assms(1)] assms(2-) total_update[of i ps reads p] total_update[of i ps writes p]
  by (simp add: rw_inv_def rw_counts_def parked_other)

lemma rw_claim_read:
  assumes "rw_inv n ps l" "i < n" "ps ! i = AcqRead \<or> ps ! i = SwitchRead" "\<not> writer_active l" "waiting_writers l = []"
    "n < 4294967296"
  shows "rw_inv n (ps[i := Reading]) (l\<lparr>readers := readers l + 1\<rparr>)"
proof -
  note I = rw_invD[OF assms(1)]
  have t: "total reads (ps[i := Reading]) = total reads ps + 1" "total writes (ps[i := Reading]) = total writes ps"
    using assms(2,3) I(1) total_update[of i ps reads Reading] total_update[of i ps writes Reading] by auto
  have "unat (readers l) + 1 < 4294967296" using t(1) total_reads_le[of "ps[i := Reading]"] I(1,2) assms(6) by simp
  then have "unat (readers l + 1) = unat (readers l) + 1" using unat_inc[of "readers l" 1] by simp
  then show ?thesis using I t assms(2-5) by (auto simp: rw_inv_def rw_counts_def parked_other)
qed

lemma rw_park_read:
  assumes "rw_inv n ps l" "i < n" "ps ! i = SwitchRead" "\<not> (\<not> writer_active l \<and> length (waiting_writers l) = 0)"
  shows "rw_inv n (ps[i := ParkRead]) (l\<lparr>waiting_readers := waiting_readers l @ [i]\<rparr>)"
  using rw_invD[OF assms(1)] assms(2-) total_update[of i ps reads ParkRead] total_update[of i ps writes ParkRead]
  by (auto simp: rw_inv_def rw_counts_def parked_other parked_add)

lemma rw_claim_write:
  assumes "rw_inv n ps l" "i < n" "ps ! i = AcqWrite \<or> ps ! i = SwitchWrite" "\<not> writer_active l" "readers l = 0"
  shows "rw_inv n (ps[i := Writing]) (l\<lparr>writer_active := True\<rparr>)"
  using rw_invD[OF assms(1)] assms(2-) total_update[of i ps reads Writing] total_update[of i ps writes Writing]
  by (auto simp: rw_inv_def rw_counts_def parked_other)

lemma rw_park_write:
  assumes "rw_inv n ps l" "i < n" "ps ! i = SwitchWrite" "\<not> (\<not> writer_active l \<and> readers l = 0)"
  shows "rw_inv n (ps[i := ParkWrite]) (l\<lparr>waiting_writers := waiting_writers l @ [i]\<rparr>)"
  using rw_invD[OF assms(1)] assms(2-) total_update[of i ps reads ParkWrite] total_update[of i ps writes ParkWrite]
  by (auto simp: rw_inv_def rw_counts_def parked_other parked_add)

text \<open>The lock is given to the first parked writer.\<close>

lemma rw_hand_over:
  assumes "length ps = n" "parked_at ParkRead (waiting_readers l) ps" "parked_at ParkWrite (w # ws) ps"
    "total reads ps = 0" "total writes ps = 0" "readers l = 0"
  shows "rw_inv n (ps[w := Writing]) (l\<lparr>waiting_writers := ws, writer_active := True\<rparr>)"
proof -
  note W = parked_wake[OF assms(3), of Writing]
  have "w < length ps" "ps ! w = ParkWrite" using W by auto
  moreover have "parked_at ParkRead (waiting_readers l) (ps[w := Writing])"
    using parked_other[OF assms(2), of w Writing] calculation by simp
  ultimately show ?thesis
    using assms W total_update[of w ps reads Writing] total_update[of w ps writes Writing] by (auto simp: rw_inv_def rw_counts_def)
qed

lemma rw_release_read:
  assumes "rw_inv n ps l" "i < n" "ps ! i = RelRead"
  shows "\<exists>l' ws. rw_lock_release_read l = Some (l', ws) \<and> rw_inv n (wake_all rw_resume ws (ps[i := Outside])) l'"
proof -
  note I = rw_invD[OF assms(1)]
  let ?l = "l\<lparr>readers := readers l - 1\<rparr>" and ?ps = "ps[i := Outside]"
  have "0 < unat (readers l)" using total_ge[of i ps reads] I(1,2) assms by simp
  then have r: "readers l > 0" "readers l \<noteq> 0" by (auto simp: unat_gt_0 word_neq_0_conv)
  have u: "unat (readers l - 1) = unat (readers l) - 1" using unat_minus_one[OF r(2)] .
  have t: "total reads ?ps = total reads ps - 1" "total writes ?ps = 0"
    using assms(2,3) I total_update[of i ps reads Outside] total_update[of i ps writes Outside] r by auto
  have P: "parked_at ParkRead (waiting_readers l) ?ps" "parked_at ParkWrite (waiting_writers l) ?ps"
    using parked_other[OF I(5), of i Outside] parked_other[OF I(6), of i Outside] assms I(1) by auto
  show ?thesis
  proof (cases "readers l - 1 = 0 \<and> waiting_writers l \<noteq> []")
    case True
    then obtain w ws where w: "waiting_writers l = w # ws" by (cases "waiting_writers l") auto
    have "total reads ?ps = 0" using t(1) u I(2) True by simp
    then have "rw_inv n (?ps[w := Writing]) (?l\<lparr>waiting_writers := ws, writer_active := True\<rparr>)"
      using rw_hand_over[of ?ps n ?l w ws] P w t(2) True I(1) by simp
    moreover have "?ps ! w = ParkWrite" using parked_wake(3)[of ParkWrite w ws ?ps Writing] P(2) w by simp
    ultimately show ?thesis using True w r by (simp add: rw_lock_release_read_def)
  next
    case False
    have "rw_inv n ?ps ?l"
      using I P t u r False by (auto simp: rw_inv_def rw_counts_def)
    then show ?thesis using False r by (auto simp: rw_lock_release_read_def)
  qed
qed

lemma rw_release_write:
  assumes "rw_inv n ps l" "i < n" "ps ! i = RelWrite" "n < 4294967296"
  shows "\<exists>l' ws. rw_lock_release_write l = Some (l', ws) \<and> rw_inv n (wake_all rw_resume ws (ps[i := Outside])) l'"
proof -
  note I = rw_invD[OF assms(1)]
  let ?ps = "ps[i := Outside]"
  have a: "writer_active l" "readers l = 0" using total_ge[of i ps writes] I assms by (auto split: if_splits)
  have t: "total reads ?ps = 0" "total writes ?ps = 0"
    using assms(2,3) I a total_update[of i ps reads Outside] total_update[of i ps writes Outside] by auto
  have P: "parked_at ParkRead (waiting_readers l) ?ps" "parked_at ParkWrite (waiting_writers l) ?ps"
    using parked_other[OF I(5), of i Outside] parked_other[OF I(6), of i Outside] assms I(1) by auto
  show ?thesis
  proof (cases "waiting_writers l")
    case (Cons w ws)
    have "rw_inv n (?ps[w := Writing]) (l\<lparr>waiting_writers := ws, writer_active := True\<rparr>)"
      using rw_hand_over[of ?ps n l w ws] P Cons t a I(1) by simp
    moreover have "?ps ! w = ParkWrite" using parked_wake(3)[of ParkWrite w ws ?ps Writing] P(2) Cons by simp
    ultimately show ?thesis using Cons a by (simp add: rw_lock_release_write_def)
  next
    case Nil
    let ?ws = "waiting_readers l" and ?qs = "wake_all rw_resume (waiting_readers l) ?ps"
    have pk: "\<forall>j\<in>set ?ws. j < length ?ps \<and> ?ps ! j = ParkRead" "distinct ?ws" using P(1) by (auto simp: parked_at_def)
    have tr: "total reads ?qs = length ?ws" "total writes ?qs = 0"
      using total_wake_all[OF pk(2,1), of reads rw_resume] total_wake_all[OF pk(2,1), of writes rw_resume] t by simp_all
    have "length ?ws < 4294967296" using tr(1) total_reads_le[of ?qs] I(1) assms(4) by simp
    then have "unat (of_nat (length ?ws) :: u32) = length ?ws" using unat_inc[of 0 "length ?ws"] by simp
    moreover have "parked_at ParkWrite [] ?qs" using parked_wake_others[of ParkWrite "[]" ?ps ParkRead ?ws rw_resume] P Nil by simp
    moreover have "parked_at ParkRead [] ?qs" using parked_wake_all[OF P(1)] by simp
    ultimately have "rw_inv n ?qs (l\<lparr>writer_active := False, waiting_readers := [], readers := readers l + of_nat (length ?ws)\<rparr>)"
      using a tr Nil I(1) by (simp add: rw_inv_def rw_counts_def)
    then show ?thesis using Nil a by (simp add: rw_lock_release_write_def)
  qed
qed

lemma rw_step_inv:
  assumes "rw_inv n ps l" "i < n" "rw_step (ps ! i) i l = Go p l' ws" "n < 4294967296"
  shows "rw_inv n (wake_all rw_resume ws (ps[i := p])) l'"
proof (cases "ps ! i")
  case AcqRead
  then show ?thesis using assms rw_claim_read[of n ps l i] rw_move[of n ps l i SwitchRead]
    by (auto simp: rw_lock_acquire_read_def split: if_splits)
next
  case SwitchRead
  then show ?thesis using assms rw_invD(1)[OF assms(1)] rw_claim_read[of n ps l i] rw_park_read[of n ps l i]
    by (auto simp: rw_add_reader_def split: if_splits)
next
  case RelRead
  then show ?thesis using assms rw_release_read[OF assms(1,2)] by (auto split: option.splits)
next
  case AcqWrite
  then show ?thesis using assms rw_claim_write[of n ps l i] rw_move[of n ps l i SwitchWrite]
    by (auto simp: rw_lock_acquire_write_def split: if_splits)
next
  case SwitchWrite
  then show ?thesis using assms rw_invD(1)[OF assms(1)] rw_claim_write[of n ps l i] rw_park_write[of n ps l i]
    by (auto simp: rw_add_writer_def split: if_splits)
next
  case RelWrite
  then show ?thesis using assms rw_release_write[OF assms(1,2)] by (auto split: option.splits)
qed (use assms in auto)

lemma rw_reachable_inv:
  assumes "run rw_step rw_resume rw_starts (replicate n Outside, rw_lock_init) (ps, l)" "n < 4294967296"
  shows "rw_inv n ps l"
proof -
  have "rw_inv n (fst (ps, l)) (snd (ps, l))"
  proof (rule run_invariant[OF assms(1), of "rw_inv n"], goal_cases)
    case 1
    then show ?case using rw_inv_init by simp
  next
    case (2 ps l i p l' ws)
    then show ?case using rw_step_inv[of n ps l i p l' ws] rw_invD(1)[of n ps l] assms(2) by simp
  next
    case (3 ps l i p)
    then show ?case using rw_move[of n ps l i p] rw_invD(1)[of n ps l] by (auto simp: rw_starts_def)
  qed
  then show ?thesis by simp
qed

lemma rw_never_panics:
  assumes "rw_inv n ps l" "i < n" "n < 4294967296"
  shows "rw_step (ps ! i) i l \<noteq> Panic"
  using rw_release_read[OF assms(1,2)] rw_release_write[OF assms(1,2) _ assms(3)]
  by (cases "ps ! i") (auto simp: rw_lock_acquire_read_def rw_lock_acquire_write_def rw_add_reader_def rw_add_writer_def)

lemma rw_exclusive:
  assumes "rw_inv n ps l" "i < n" "j < n" "i \<noteq> j" "ps ! i = Writing"
  shows "ps ! j \<noteq> Reading \<and> ps ! j \<noteq> Writing"
proof -
  note I = rw_invD[OF assms(1)]
  have w: "writer_active l" using total_ge[of i ps writes] I assms by (auto split: if_splits)
  then have "total reads ps = 0" using I by simp
  then have "reads (ps ! j) = 0" using total_ge[of j ps reads] I(1) assms(3) by simp
  moreover have "writes (ps ! i) + writes (ps ! j) \<le> 1" using total_ge_two[of i ps j writes] I w assms by simp
  ultimately show ?thesis using assms(5) by (auto simp: reads_def writes_def)
qed

lemma rw_parked_held:
  assumes "rw_inv n ps l" "i < n" "ps ! i = ParkRead \<or> ps ! i = ParkWrite"
  shows "\<exists>j<n. ps ! j \<in> {Reading, RelRead, Writing, RelWrite}"
proof -
  note I = rw_invD[OF assms(1)]
  have "waiting_readers l \<noteq> [] \<or> waiting_writers l \<noteq> []"
    using assms(2,3) I(1) parked_mem[OF I(5), of i] parked_mem[OF I(6), of i] by blast
  then have "writer_active l \<or> readers l \<noteq> 0" using I(7,8) by blast
  then have "0 < total writes ps \<or> 0 < total reads ps" using I(2,3) unat_gt_0[of "readers l"] by auto
  then show ?thesis unfolding total_pos using I(1) by (auto simp: reads_def writes_def split: if_splits)
qed

text \<open>C25. A reader-writer lock used by any number of threads: while one thread writes no other
  reads or writes, the asserts in the release functions never fail, and a parked thread implies a
  current holder, whose release then finds it in a queue.\<close>

theorem rw_lock_safe:
  assumes "run rw_step rw_resume rw_starts (replicate n Outside, rw_lock_init) (ps, l)" "n < 4294967296" "i < n"
  shows "rw_step (ps ! i) i l \<noteq> Panic
    \<and> (ps ! i = Writing \<longrightarrow> (\<forall>j<n. j \<noteq> i \<longrightarrow> ps ! j \<noteq> Reading \<and> ps ! j \<noteq> Writing))
    \<and> (ps ! i \<in> {ParkRead, ParkWrite} \<longrightarrow> (\<exists>j<n. ps ! j \<in> {Reading, RelRead, Writing, RelWrite}))"
  using rw_reachable_inv[OF assms(1,2)] assms(2,3) rw_never_panics rw_exclusive rw_parked_held by blast

text \<open>Two readers, a writer that waits for them, and a reader that waits behind the writer.\<close>

definition rw_schedule :: "(nat \<times> rw_pc option) list" where
  "rw_schedule = [(0, Some AcqRead), (0, None), (1, Some AcqRead), (1, None), (2, Some AcqWrite), (2, None), (2, None),
     (3, Some AcqRead), (3, None), (3, None), (0, Some RelRead), (0, None), (1, Some RelRead), (1, None)]"

lemma rw_schedule_result:
  "exec rw_step rw_resume rw_starts rw_schedule (replicate 4 Outside, rw_lock_init)
     = ([Outside, Outside, Writing, ParkRead],
        \<lparr>waiting_readers = [3], waiting_writers = [], readers = 0, writer_active = True\<rparr>)"
  by code_simp

theorem rw_lock_safe_witness:
  "\<exists>ps l. run rw_step rw_resume rw_starts (replicate 4 Outside, rw_lock_init) (ps, l)
     \<and> ps ! 2 = Writing \<and> (\<forall>j<4. j \<noteq> 2 \<longrightarrow> ps ! j \<noteq> Reading \<and> ps ! j \<noteq> Writing)"
proof -
  have r: "run rw_step rw_resume rw_starts (replicate 4 Outside, rw_lock_init)
     ([Outside, Outside, Writing, ParkRead],
        \<lparr>waiting_readers = [3], waiting_writers = [], readers = 0, writer_active = True\<rparr>)"
    using run_exec[of rw_step rw_resume rw_starts "(replicate 4 Outside, rw_lock_init)" rw_schedule]
    unfolding rw_schedule_result .
  show ?thesis using rw_lock_safe[OF r, of 2] r by force
qed

end
