(* ===== verification/Semaphore.thy ===== *)
theory Semaphore
  imports Interleaving
begin

text \<open>
  Counting semaphores (\<open>kernel/semaphore.c\<close>).  A thread that finds no permit
  switches away and the \<open>sem_add\<close> callback, run after the switch, either takes a
  permit that appeared meanwhile or parks the thread.  \<open>sem_up\<close> hands its permit to
  the oldest parked thread.  Threads are numbered; the wait queue lists them in arrival
  order (theory \<open>Queues\<close> shows that \<open>struct Queue\<close> is such a list).

  The trace of completed operations is recorded, and every trace is one of an atomic
  counter.  The other primitives are built on that counter.
\<close>

record semaphore =
  count :: u32
  wait_queue :: "nat list"

definition sem_init :: "u32 \<Rightarrow> semaphore" where
  "sem_init initial_count = \<lparr>count = initial_count, wait_queue = []\<rparr>"

definition sem_add :: "nat \<Rightarrow> semaphore \<Rightarrow> semaphore \<times> nat list" where
  "sem_add tcb sem =
     (if 0 < sint (count sem) then (sem\<lparr>count := count sem - 1\<rparr>, [tcb])
      else (sem\<lparr>wait_queue := wait_queue sem @ [tcb]\<rparr>, []))"

text \<open>The part of \<open>sem_down\<close> before the thread blocks; the flag tells whether it returns.\<close>

definition sem_down_fast :: "semaphore \<Rightarrow> bool \<times> semaphore" where
  "sem_down_fast sem = (if 0 < sint (count sem) then (True, sem\<lparr>count := count sem - 1\<rparr>) else (False, sem))"

definition sem_try_down :: "semaphore \<Rightarrow> bool \<times> semaphore" where
  "sem_try_down sem = (if 0 < sint (count sem) then (True, sem\<lparr>count := count sem - 1\<rparr>) else (False, sem))"

definition sem_up :: "semaphore \<Rightarrow> semaphore \<times> nat list" where
  "sem_up sem = (case wait_queue sem of
       [] \<Rightarrow> (sem\<lparr>count := count sem + 1\<rparr>, [])
     | wakeup # rest \<Rightarrow> (sem\<lparr>wait_queue := rest\<rparr>, [wakeup]))"

text \<open>The parked threads go to the reaper.\<close>

definition sem_destroy :: "semaphore \<Rightarrow> semaphore \<times> nat list" where
  "sem_destroy sem = (sem\<lparr>wait_queue := []\<rparr>, wait_queue sem)"


section \<open>Threads using a semaphore\<close>

datatype sem_pc = Idle | Down | Switching | Parked | Passed | TryDown | TryResult bool | Up

datatype sem_event = DownEv nat | UpEv

fun sem_step :: "sem_pc \<Rightarrow> nat \<Rightarrow> semaphore \<times> sem_event list \<Rightarrow> (sem_pc, semaphore \<times> sem_event list) outcome" where
  "sem_step Down i (s, tr) = (case sem_down_fast s of
       (True, s) \<Rightarrow> Go Passed (s, tr @ [DownEv i]) []
     | (False, s) \<Rightarrow> Go Switching (s, tr) [])"
| "sem_step Switching i (s, tr) = (case sem_add i s of (s, woken) \<Rightarrow> Go Parked (s, tr @ map DownEv woken) woken)"
| "sem_step TryDown i (s, tr) = (case sem_try_down s of
       (True, s) \<Rightarrow> Go (TryResult True) (s, tr @ [DownEv i]) []
     | (False, s) \<Rightarrow> Go (TryResult False) (s, tr) [])"
| "sem_step Up i (s, tr) = (case sem_up s of (s, woken) \<Rightarrow> Go Idle (s, tr @ UpEv # map DownEv woken) woken)"
| "sem_step _ i _ = Blocked"

fun sem_resume :: "sem_pc \<Rightarrow> sem_pc" where
  "sem_resume Parked = Passed"
| "sem_resume p = p"

definition sem_starts :: "sem_pc \<Rightarrow> sem_pc \<Rightarrow> bool" where
  "sem_starts p q \<longleftrightarrow> p \<in> {Idle, Passed, TryResult True, TryResult False} \<and> q \<in> {Down, TryDown, Up}"

text \<open>The atomic counter: a down needs a permit.\<close>

fun counter :: "nat \<Rightarrow> sem_event list \<Rightarrow> nat option" where
  "counter n [] = Some n"
| "counter n (UpEv # es) = counter (Suc n) es"
| "counter n (DownEv i # es) = (case n of 0 \<Rightarrow> None | Suc m \<Rightarrow> counter m es)"

definition ups :: "sem_event list \<Rightarrow> nat" where
  "ups tr = length (filter (\<lambda>e. e = UpEv) tr)"

lemma counter_append: "counter n (es @ fs) = (case counter n es of None \<Rightarrow> None | Some m \<Rightarrow> counter m fs)"
  by (induction n es rule: counter.induct) (auto split: nat.splits)

lemma counter_bound: "counter n es = Some m \<Longrightarrow> m \<le> n + ups es"
  by (induction n es rule: counter.induct) (auto simp: ups_def split: nat.splits)

lemma ups_append [simp]: "ups (es @ fs) = ups es + ups fs" "ups [] = 0" "ups (UpEv # es) = Suc (ups es)" "ups (DownEv i # es) = ups es"
  by (simp_all add: ups_def)

definition permits_ok :: "u32 \<Rightarrow> semaphore \<Rightarrow> sem_event list \<Rightarrow> bool" where
  "permits_ok c s tr \<longleftrightarrow> (sint c + int (ups tr) < 2147483648 \<longrightarrow>
     0 \<le> sint (count s) \<and> counter (nat (sint c)) tr = Some (nat (sint (count s)))
     \<and> (wait_queue s \<noteq> [] \<longrightarrow> sint (count s) = 0))"

definition sem_inv :: "u32 \<Rightarrow> sem_pc list \<Rightarrow> semaphore \<times> sem_event list \<Rightarrow> bool" where
  "sem_inv c ps st \<longleftrightarrow> parked_at Parked (wait_queue (fst st)) ps \<and> permits_ok c (fst st) (snd st)"

lemma sem_inv_init: "0 \<le> sint c \<Longrightarrow> sem_inv c (replicate n Idle) (sem_init c, [])"
  by (auto simp: sem_inv_def parked_at_def permits_ok_def sem_init_def)

lemma permits_take:
  assumes "permits_ok c s tr" "0 < sint (count s)"
  shows "permits_ok c (s\<lparr>count := count s - 1\<rparr>) (tr @ [DownEv i])"
proof -
  obtain m where "nat (sint (count s)) = Suc m" using assms(2) by (cases "nat (sint (count s))") auto
  moreover from this have "nat (sint (count s) - 1) = m" by linarith
  ultimately show ?thesis using assms sint_pred[OF assms(2)] by (simp add: permits_ok_def counter_append)
qed

lemma permits_wait: "permits_ok c s tr \<Longrightarrow> \<not> 0 < sint (count s) \<Longrightarrow> permits_ok c (s\<lparr>wait_queue := wq\<rparr>) tr"
  by (simp add: permits_ok_def)

lemma permits_give:
  assumes "permits_ok c s tr" "wait_queue s = []" "0 \<le> sint c"
  shows "permits_ok c (s\<lparr>count := count s + 1\<rparr>) (tr @ [UpEv])"
  unfolding permits_ok_def
proof (intro impI, goal_cases)
  case 1
  then have c: "counter (nat (sint c)) tr = Some (nat (sint (count s)))" "0 \<le> sint (count s)"
    using assms(1) by (simp_all add: permits_ok_def)
  then have "sint (count s) < 2147483647" using counter_bound[OF c(1)] 1 assms(3) by simp
  then show ?case using c assms(2) sint_succ[of "count s"] by (simp add: counter_append Suc_nat_eq_nat_zadd1 add.commute)
qed

lemma permits_hand_over:
  assumes "permits_ok c s tr" "wait_queue s = w # wq"
  shows "permits_ok c (s\<lparr>wait_queue := wq\<rparr>) (tr @ [UpEv, DownEv w])"
  using assms by (simp add: permits_ok_def counter_append)

lemma sem_step_inv:
  assumes "sem_inv c ps st" "i < length ps" "sem_step (ps ! i) i st = Go p st' ws" "0 \<le> sint c"
  shows "sem_inv c (wake_all sem_resume ws (ps[i := p])) st'"
proof -
  obtain s tr where st: "st = (s, tr)" by (cases st)
  have P: "parked_at Parked (wait_queue s) ps" and Q: "permits_ok c s tr" using assms(1) by (auto simp: sem_inv_def st)
  note other = parked_other[OF P assms(2)]
  show ?thesis
  proof (cases "ps ! i")
    case Down
    then show ?thesis using assms(3) st Q permits_take[OF Q] other
      by (cases "0 < sint (count s)") (auto simp: sem_inv_def sem_down_fast_def)
  next
    case Switching
    then show ?thesis using assms(2,3) st permits_take[OF Q] permits_wait[OF Q] other parked_add[OF P assms(2)]
      by (cases "0 < sint (count s)") (auto simp: sem_inv_def sem_add_def)
  next
    case TryDown
    then show ?thesis using assms(3) st Q permits_take[OF Q] other
      by (cases "0 < sint (count s)") (auto simp: sem_inv_def sem_try_down_def)
  next
    case Up
    show ?thesis
    proof (cases "wait_queue s")
      case Nil
      then show ?thesis using Up assms(3) st permits_give[OF Q Nil assms(4)] other by (auto simp: sem_inv_def sem_up_def)
    next
      case (Cons w wq)
      then have "parked_at Parked (w # wq) (ps[i := Idle])" using other[of Idle] Up by simp
      then show ?thesis using Up Cons assms(3) st permits_hand_over[OF Q Cons] parked_wake[of Parked w wq "ps[i := Idle]" Passed]
        by (auto simp: sem_inv_def sem_up_def)
    qed
  qed (use assms(3) st in auto)
qed

lemma sem_reachable_inv:
  assumes "run sem_step sem_resume sem_starts (replicate n Idle, sem_init c, []) (ps, s, tr)" "0 \<le> sint c"
  shows "sem_inv c ps (s, tr)"
proof -
  have "sem_inv c (fst (ps, s, tr)) (snd (ps, s, tr))"
  proof (rule run_invariant[OF assms(1), of "sem_inv c"], goal_cases)
    case 1
    then show ?case using sem_inv_init[OF assms(2)] by simp
  next
    case (2 ps s i p s' ws)
    then show ?case using sem_step_inv[OF 2 assms(2)] by simp
  next
    case (3 ps s i p)
    then show ?case using parked_other[of Parked "wait_queue (fst s)" ps i p] by (auto simp: sem_starts_def sem_inv_def)
  qed
  then show ?thesis by simp
qed

text \<open>C24. However the threads are interleaved, a semaphore behaves as an atomic counter of
  permits: the completed downs and ups are a trace of the counter, which ends in the value
  of \<open>count\<close>.  No wake-up is lost: exactly the threads of the wait queue are parked, each once,
  and while one is parked there is no permit.  The bound excludes overflow of the \<open>int\<close>.\<close>

theorem semaphore_is_counter:
  assumes "0 \<le> sint c"
    and "run sem_step sem_resume sem_starts (replicate n Idle, sem_init c, []) (ps, s, tr)"
    and "sint c + int (ups tr) < 2147483648"
  shows "counter (nat (sint c)) tr = Some (nat (sint (count s))) \<and> 0 \<le> sint (count s)
    \<and> distinct (wait_queue s) \<and> (\<forall>i. i \<in> set (wait_queue s) \<longleftrightarrow> i < length ps \<and> ps ! i = Parked)
    \<and> (wait_queue s \<noteq> [] \<longrightarrow> count s = 0)"
proof -
  have "sint (count s) = 0 \<Longrightarrow> count s = 0" by (metis signed_0 signed_word_eqI)
  then show ?thesis using sem_reachable_inv[OF assms(2,1)] assms(3) by (auto simp: sem_inv_def permits_ok_def parked_at_def)
qed

text \<open>Thread 0 parks, thread 1 takes the way over the callback, thread 2 posts twice.\<close>

definition sem_schedule :: "(nat \<times> sem_pc option) list" where
  "sem_schedule = [(0, Some Down), (0, None), (0, None), (1, Some Down), (1, None), (2, Some Up), (2, None),
     (2, Some Up), (2, None), (1, None)]"

lemma sem_schedule_result:
  "exec sem_step sem_resume sem_starts sem_schedule (replicate 3 Idle, sem_init 0, [])
     = ([Passed, Passed, Idle], sem_init 0, [UpEv, DownEv 0, UpEv, DownEv 1])"
  by code_simp

theorem semaphore_is_counter_witness:
  "counter 0 [UpEv, DownEv 0, UpEv, DownEv 1] = Some (nat (sint (count (sem_init 0)))) \<and> distinct (wait_queue (sem_init 0))"
  using semaphore_is_counter[OF _ run_exec[of sem_step sem_resume sem_starts _ sem_schedule, THEN back_subst[where P="\<lambda>x. run _ _ _ _ x"], OF sem_schedule_result]]
  by simp


section \<open>Semaphores as seen by the other primitives\<close>

text \<open>By the theorem above a down or an up on a semaphore is one step on its counter; a
  down without a permit waits.\<close>

definition sem_wait :: "u32 \<Rightarrow> u32 option" where
  "sem_wait c = (if 0 < sint c then Some (c - 1) else None)"

definition sem_post :: "u32 \<Rightarrow> u32" where
  "sem_post c = c + 1"

abbreviation permits :: "u32 \<Rightarrow> nat" where
  "permits c \<equiv> nat (sint c)"

lemma sem_wait_permits: "sem_wait c = Some c' \<Longrightarrow> permits c = Suc (permits c') \<and> 0 \<le> sint c'"
  using sint_pred[of c] by (auto simp: sem_wait_def split: if_splits)

lemma sem_wait_None: "sem_wait c = None \<Longrightarrow> permits c = 0"
  by (auto simp: sem_wait_def split: if_splits)

lemma sem_post_permits:
  "0 \<le> sint c \<Longrightarrow> permits c < 2147483647 \<Longrightarrow> permits (sem_post c) = Suc (permits c) \<and> 0 \<le> sint (sem_post c)"
  using sint_succ[of c] by (auto simp: sem_post_def)

end
