(* ===== verification/Sync_Buffers.thy ===== *)
theory Sync_Buffers
  imports Semaphore Ring_Buffers
begin

text \<open>
  The blocking containers: \<open>kernel/bounded_buffer.c\<close>, \<open>kernel/blocking_ringbuf.c\<close> and
  \<open>kernel/blocking_queue.c\<close>.  The first two share a protocol: one semaphore counts free
  slots, one counts published items, and the container is changed under a spin lock
  between a down of the one and an up of the other.  The protocol is a locale, whose
  lemmas hold for both.  \<open>log_in\<close> and \<open>log_out\<close> record what went in and out.
\<close>

datatype 'e buf_pc = Idle | AddWait 'e | AddLock 'e | AddPost 'e
  | RemWait | RemTake "'e list option" | RemPost "'e list option" 'e | Got 'e
  | Drain "'e list" | Drained "'e list"

record ('c, 'e) permit_buffer =
  add_sem :: u32
  remove_sem :: u32
  store :: 'c
  log_in :: "'e list"
  log_out :: "'e list"

definition buf_starts :: "'e buf_pc \<Rightarrow> 'e buf_pc \<Rightarrow> bool" where
  "buf_starts p q \<longleftrightarrow> (case p of Idle \<Rightarrow> True | Got e \<Rightarrow> True | Drained es \<Rightarrow> True | _ \<Rightarrow> False)
     \<and> (case q of AddWait e \<Rightarrow> True | RemWait \<Rightarrow> True | Drain es \<Rightarrow> es = [] | _ \<Rightarrow> False)"

text \<open>After a removal a plain remove returns, a drain continues.\<close>

fun after_remove :: "'e list option \<Rightarrow> 'e \<Rightarrow> 'e buf_pc" where
  "after_remove None e = Got e"
| "after_remove (Some es) e = Drain (es @ [e])"


section \<open>Bounded buffer\<close>










section \<open>Blocking ring buffer\<close>

record ring_store =
  buf :: "u8 list"
  capacity :: u32
  head :: u32
  tail :: u32
  ring_size :: u32

type_synonym blocking_ringbuf = "(ring_store, u8) permit_buffer"

definition blocking_ringbuf_next_idx :: "ring_store \<Rightarrow> u32 \<Rightarrow> u32 option" where
  "blocking_ringbuf_next_idx b idx = do {
     kassert (capacity b > 0);
     let idx = idx + 1;
     Some (if idx = capacity b then 0 else idx)
   }"

text \<open>\<open>fresh\<close> is the storage \<open>malloc\<close> returned.\<close>

definition blocking_ringbuf_init :: "u32 \<Rightarrow> u8 list \<Rightarrow> blocking_ringbuf option" where
  "blocking_ringbuf_init cap fresh = do {
     kassert (cap \<le> 0x7FFFFFFF);
     Some \<lparr>add_sem = cap, remove_sem = 0,
       store = \<lparr>buf = fresh, capacity = cap, head = 0, tail = 0, ring_size = 0\<rparr>, log_in = [], log_out = []\<rparr>
   }"

definition blocking_ringbuf_put :: "u8 \<Rightarrow> ring_store \<Rightarrow> ring_store option" where
  "blocking_ringbuf_put byte b = do {
     kassert (ring_size b < capacity b);
     let b = b\<lparr>buf := (buf b)[unat (tail b) := byte]\<rparr>;
     t \<leftarrow> blocking_ringbuf_next_idx b (tail b);
     Some (b\<lparr>tail := t, ring_size := ring_size b + 1\<rparr>)
   }"

definition blocking_ringbuf_take :: "ring_store \<Rightarrow> (u8 \<times> ring_store) option" where
  "blocking_ringbuf_take b = do {
     kassert (0 < sint (ring_size b));
     let byte = buf b ! unat (head b);
     h \<leftarrow> blocking_ringbuf_next_idx b (head b);
     Some (byte, b\<lparr>head := h, ring_size := ring_size b + (- 1)\<rparr>)
   }"

fun blocking_ringbuf_add :: "u8 buf_pc \<Rightarrow> blocking_ringbuf \<Rightarrow> (u8 buf_pc, blocking_ringbuf) outcome" where
  "blocking_ringbuf_add (AddWait e) b = (case sem_wait (add_sem b) of
       None \<Rightarrow> Blocked | Some c \<Rightarrow> Go (AddLock e) (b\<lparr>add_sem := c\<rparr>) [])"
| "blocking_ringbuf_add (AddLock e) b = (case blocking_ringbuf_put e (store b) of
       None \<Rightarrow> Panic | Some r \<Rightarrow> Go (AddPost e) (b\<lparr>store := r, log_in := log_in b @ [e]\<rparr>) [])"
| "blocking_ringbuf_add (AddPost e) b = Go Idle (b\<lparr>remove_sem := sem_post (remove_sem b)\<rparr>) []"
| "blocking_ringbuf_add _ b = Blocked"

fun blocking_ringbuf_remove :: "u8 buf_pc \<Rightarrow> blocking_ringbuf \<Rightarrow> (u8 buf_pc, blocking_ringbuf) outcome" where
  "blocking_ringbuf_remove RemWait b = (case sem_wait (remove_sem b) of
       None \<Rightarrow> Blocked | Some c \<Rightarrow> Go (RemTake None) (b\<lparr>remove_sem := c\<rparr>) [])"
| "blocking_ringbuf_remove (RemTake None) b = (case blocking_ringbuf_take (store b) of
       None \<Rightarrow> Panic | Some (e, r) \<Rightarrow> Go (RemPost None e) (b\<lparr>store := r, log_out := log_out b @ [e]\<rparr>) [])"
| "blocking_ringbuf_remove (RemPost None e) b = Go (Got e) (b\<lparr>add_sem := sem_post (add_sem b)\<rparr>) []"
| "blocking_ringbuf_remove _ b = Blocked"

definition blocking_ringbuf_size :: "blocking_ringbuf \<Rightarrow> u32" where
  "blocking_ringbuf_size b = ring_size (store b)"

fun blocking_ringbuf_step :: "u8 buf_pc \<Rightarrow> nat \<Rightarrow> blocking_ringbuf \<Rightarrow> (u8 buf_pc, blocking_ringbuf) outcome" where
  "blocking_ringbuf_step RemWait i b = blocking_ringbuf_remove RemWait b"
| "blocking_ringbuf_step (RemTake None) i b = blocking_ringbuf_remove (RemTake None) b"
| "blocking_ringbuf_step (RemPost None e) i b = blocking_ringbuf_remove (RemPost None e) b"
| "blocking_ringbuf_step p i b = blocking_ringbuf_add p b"


section \<open>The permit protocol\<close>

text \<open>Slots that are neither free nor filled, and items that are stored without a free permit.\<close>

fun slots :: "'e buf_pc \<Rightarrow> nat" where
  "slots (AddLock e) = 1"
| "slots (RemPost k e) = 1"
| "slots p = 0"

fun items :: "'e buf_pc \<Rightarrow> nat" where
  "items (AddPost e) = 1"
| "items (RemTake k) = 1"
| "items p = 0"

locale permit_protocol =
  fixes step :: "'e buf_pc \<Rightarrow> nat \<Rightarrow> ('c, 'e) permit_buffer \<Rightarrow> ('e buf_pc, ('c, 'e) permit_buffer) outcome"
    and contents :: "'c \<Rightarrow> 'e list" and store_ok :: "'c \<Rightarrow> bool" and cap :: nat and legal :: "'e \<Rightarrow> bool"
  assumes add_wait: "step (AddWait e) i b = (if legal e then case sem_wait (add_sem b) of
      None \<Rightarrow> Blocked | Some c \<Rightarrow> Go (AddLock e) (b\<lparr>add_sem := c\<rparr>) [] else Panic)"
    and add_lock: "legal e \<Longrightarrow> store_ok (store b) \<Longrightarrow> length (contents (store b)) < cap \<Longrightarrow>
      \<exists>c. step (AddLock e) i b = Go (AddPost e) (b\<lparr>store := c, log_in := log_in b @ [e]\<rparr>) []
        \<and> store_ok c \<and> contents c = contents (store b) @ [e]"
    and add_post: "step (AddPost e) i b = Go Idle (b\<lparr>remove_sem := sem_post (remove_sem b)\<rparr>) []"
    and rem_wait: "step RemWait i b = (case sem_wait (remove_sem b) of
      None \<Rightarrow> Blocked | Some c \<Rightarrow> Go (RemTake None) (b\<lparr>remove_sem := c\<rparr>) [])"
    and drain: "step (Drain es) i b = Blocked \<or> step (Drain es) i b = (case sem_wait (remove_sem b) of
      None \<Rightarrow> Go (Drained es) b [] | Some c \<Rightarrow> Go (RemTake (Some es)) (b\<lparr>remove_sem := c\<rparr>) [])"
    and rem_take: "store_ok (store b) \<Longrightarrow> contents (store b) = e # es \<Longrightarrow>
      (k \<noteq> None \<and> step (RemTake k) i b = Blocked) \<or>
      (\<exists>c. step (RemTake k) i b = Go (RemPost k e) (b\<lparr>store := c, log_out := log_out b @ [e]\<rparr>) []
        \<and> store_ok c \<and> contents c = es)"
    and rem_post: "(k \<noteq> None \<and> step (RemPost k e) i b = Blocked) \<or>
      step (RemPost k e) i b = Go (after_remove k e) (b\<lparr>add_sem := sem_post (add_sem b)\<rparr>) []"
    and rest: "step Idle i b = Blocked" "step (Got e) i b = Blocked" "step (Drained es) i b = Blocked"
begin

definition legal_pcs :: "'e buf_pc list \<Rightarrow> bool" where
  "legal_pcs ps \<longleftrightarrow> (\<forall>e. AddLock e \<in> set ps \<longrightarrow> legal e)"

lemma legal_update: "legal_pcs ps \<Longrightarrow> (\<And>e. p = AddLock e \<Longrightarrow> legal e) \<Longrightarrow> legal_pcs (ps[i := p])"
  using set_update_subset_insert[of ps i p] by (auto simp: legal_pcs_def)

definition buf_inv :: "'e buf_pc list \<Rightarrow> ('c, 'e) permit_buffer \<Rightarrow> bool" where
  "buf_inv ps b \<longleftrightarrow> legal_pcs ps \<and> cap < 2147483648 \<and> store_ok (store b) \<and> 0 \<le> sint (add_sem b) \<and> 0 \<le> sint (remove_sem b)
     \<and> permits (add_sem b) + total slots ps + length (contents (store b)) = cap
     \<and> permits (remove_sem b) + total items ps = length (contents (store b))
     \<and> log_in b = log_out b @ contents (store b)"

lemma after_remove_weightless: "slots (after_remove k e) = 0" "items (after_remove k e) = 0" "after_remove k e \<noteq> AddLock e'"
  by (cases k; simp)+

lemma buf_add_lock:
  assumes "buf_inv ps b" "i < length ps" "ps ! i = AddLock e"
  obtains c where "step (ps ! i) i b = Go (AddPost e) (b\<lparr>store := c, log_in := log_in b @ [e]\<rparr>) []"
    "store_ok c" "contents c = contents (store b) @ [e]"
proof -
  have "length (contents (store b)) < cap" using total_ge[of i ps slots] assms by (auto simp: buf_inv_def)
  moreover have "legal e" using assms nth_mem[OF assms(2)] by (auto simp: buf_inv_def legal_pcs_def)
  ultimately show ?thesis using add_lock[of e b i] assms that by (auto simp: buf_inv_def)
qed

lemma buf_rem_take:
  assumes "buf_inv ps b" "i < length ps" "ps ! i = RemTake k"
  obtains e es where "contents (store b) = e # es"
  using total_ge[of i ps items] assms by (cases "contents (store b)") (auto simp: buf_inv_def)

lemma buf_step_inv:
  assumes I: "buf_inv ps b" and i: "i < length ps" and st: "step (ps ! i) i b = Go p b' ws"
  shows "buf_inv (wake_all resume ws (ps[i := p])) b'"
proof -
  have "legal_pcs ps" using I by (simp add: buf_inv_def)
  note t = total_update[OF i, of slots p] total_update[OF i, of items p] legal_update[OF this, of p i]
  show ?thesis
  proof (cases "ps ! i")
    case (AddWait e)
    then show ?thesis using I st t add_wait[of e i b] sem_wait_permits[of "add_sem b"]
      by (auto simp: buf_inv_def split: option.splits if_splits)
  next
    case (AddLock e)
    obtain c where "step (ps ! i) i b = Go (AddPost e) (b\<lparr>store := c, log_in := log_in b @ [e]\<rparr>) []"
      "store_ok c" "contents c = contents (store b) @ [e]" using buf_add_lock[OF I i AddLock] .
    then show ?thesis using AddLock I st t by (auto simp: buf_inv_def)
  next
    case (AddPost e)
    have "permits (remove_sem b) < 2147483647" using total_ge[OF i, of items] AddPost I by (auto simp: buf_inv_def)
    then show ?thesis using AddPost I st t add_post[of e i b] sem_post_permits[of "remove_sem b"] by (auto simp: buf_inv_def)
  next
    case RemWait
    then show ?thesis using I st t rem_wait[of i b] sem_wait_permits[of "remove_sem b"]
      by (auto simp: buf_inv_def split: option.splits)
  next
    case (Drain es)
    then show ?thesis using I st t drain[of es i b] sem_wait_permits[of "remove_sem b"]
      by (auto simp: buf_inv_def split: option.splits)
  next
    case (RemTake k)
    obtain e es where "contents (store b) = e # es" using buf_rem_take[OF I i RemTake] .
    then show ?thesis using rem_take[of b e es k i] RemTake I st t by (auto simp: buf_inv_def)
  next
    case (RemPost k e)
    have "permits (add_sem b) < 2147483647" using total_ge[OF i, of slots] RemPost I by (auto simp: buf_inv_def)
    then show ?thesis using RemPost I st t rem_post[of k e i b] sem_post_permits[of "add_sem b"] after_remove_weightless[of k e]
      by (auto simp: buf_inv_def)
  qed (use st rest in auto)
qed

lemma buf_start_inv: "buf_inv ps b \<Longrightarrow> i < length ps \<Longrightarrow> buf_starts (ps ! i) p \<Longrightarrow> buf_inv (ps[i := p]) b"
  using total_update[of i ps slots p] total_update[of i ps items p] legal_update[of ps p i]
  by (auto simp: buf_inv_def buf_starts_def split: buf_pc.splits)

lemma buf_reachable_inv:
  assumes "run step resume buf_starts (replicate n Idle, b0) (ps, b)" "buf_inv (replicate n Idle) b0"
  shows "buf_inv ps b"
proof -
  have "buf_inv (fst (ps, b)) (snd (ps, b))"
    by (rule run_invariant[OF assms(1), of buf_inv]) (simp_all add: assms(2) buf_step_inv buf_start_inv)
  then show ?thesis by simp
qed

lemma buf_panic_iff:
  assumes I: "buf_inv ps b" and i: "i < length ps"
  shows "step (ps ! i) i b = Panic \<longleftrightarrow> (\<exists>e. ps ! i = AddWait e \<and> \<not> legal e)"
proof (cases "ps ! i")
  case (AddLock e)
  obtain c where "step (ps ! i) i b = Go (AddPost e) (b\<lparr>store := c, log_in := log_in b @ [e]\<rparr>) []"
    using buf_add_lock[OF I i AddLock] .
  then show ?thesis using AddLock by simp
next
  case (RemTake k)
  obtain e es where "contents (store b) = e # es" using buf_rem_take[OF I i RemTake] .
  then show ?thesis using rem_take[of b e es k i] RemTake I by (auto simp: buf_inv_def)
next
  case (AddWait e)
  then show ?thesis by (auto simp: add_wait split: option.splits if_splits)
next
  case (Drain es)
  then show ?thesis using drain[of es i b] by (auto split: option.splits)
next
  case (RemPost k e)
  then show ?thesis using rem_post[of k e i b] by auto
qed (auto simp: rest add_post rem_wait split: option.splits)

text \<open>A waiting adder is held up only by stored items and by threads that are about to give a
  slot back or to fill it; likewise a waiting remover.\<close>

lemma buf_blocked:
  assumes "buf_inv ps b"
  shows "step (AddWait e) i b = Blocked \<Longrightarrow> length (contents (store b)) + total slots ps = cap"
    and "step RemWait i b = Blocked \<Longrightarrow> length (contents (store b)) = total items ps"
  using assms sem_wait_None[of "add_sem b"] sem_wait_None[of "remove_sem b"]
  by (auto simp: buf_inv_def add_wait rem_wait split: option.splits if_splits)

end



section \<open>The ring as a list\<close>

definition ring_contents :: "ring_store \<Rightarrow> u8 list" where
  "ring_contents r = map (\<lambda>k. buf r ! ((unat (head r) + k) mod unat (capacity r))) [0..<unat (ring_size r)]"

definition ring_ok :: "nat \<Rightarrow> ring_store \<Rightarrow> bool" where
  "ring_ok cap r \<longleftrightarrow> unat (capacity r) = cap \<and> cap < 2147483648 \<and> length (buf r) = cap \<and> unat (ring_size r) \<le> cap
     \<and> (0 < cap \<longrightarrow> unat (head r) < cap \<and> unat (tail r) = (unat (head r) + unat (ring_size r)) mod cap)"

lemma length_ring_contents [simp]: "length (ring_contents r) = unat (ring_size r)"
  by (simp add: ring_contents_def)

lemma next_idx:
  assumes "unat idx < unat (capacity r)" "unat (capacity r) < 2147483648"
  shows "\<exists>j. blocking_ringbuf_next_idx r idx = Some j \<and> unat j = (unat idx + 1) mod unat (capacity r)"
proof -
  have p: "capacity r > 0" using assms by (simp add: word_less_nat_alt)
  have u: "unat (idx + 1) = unat idx + 1" using assms unat_add_u32[of idx 1] by simp
  then have "idx + 1 = capacity r \<longleftrightarrow> unat idx + 1 = unat (capacity r)" by (metis unat_eq_iff)
  then show ?thesis using p u assms by (auto simp: blocking_ringbuf_next_idx_def)
qed

lemma next_idx_store:
  "blocking_ringbuf_next_idx (r\<lparr>buf := x\<rparr>) idx = blocking_ringbuf_next_idx r idx"
  by (simp add: blocking_ringbuf_next_idx_def)

lemma ring_put:
  assumes "ring_ok cap r" "length (ring_contents r) < cap"
  shows "\<exists>r'. blocking_ringbuf_put e r = Some r' \<and> ring_ok cap r' \<and> ring_contents r' = ring_contents r @ [e]"
proof -
  let ?h = "unat (head r)" and ?n = "unat (ring_size r)"
  have r: "unat (capacity r) = cap" "cap < 2147483648" "length (buf r) = cap" "?n < cap" "?h < cap"
    "unat (tail r) = (?h + ?n) mod cap" using assms by (auto simp: ring_ok_def)
  have t: "unat (tail r) < cap" using r by simp
  then obtain j where j: "blocking_ringbuf_next_idx r (tail r) = Some j" "unat j = (unat (tail r) + 1) mod cap"
    using next_idx[of "tail r" r] r by auto
  have u: "unat (ring_size r + 1) = ?n + 1" using r(2,4) unat_add_u32[of "ring_size r" 1] by simp
  let ?r = "r\<lparr>buf := (buf r)[unat (tail r) := e], tail := j, ring_size := ring_size r + 1\<rparr>"
  have "blocking_ringbuf_put e r = Some ?r"
    using r j by (simp add: blocking_ringbuf_put_def next_idx_store word_less_nat_alt)
  moreover have "ring_ok cap ?r" using r j u by (simp add: ring_ok_def mod_simps add.assoc)
  moreover have "ring_contents ?r = ring_contents r @ [e]"
  proof (rule nth_equalityI)
    fix k assume k: "k < length (ring_contents ?r)"
    show "ring_contents ?r ! k = (ring_contents r @ [e]) ! k"
      using k u r t mod_add_inj[of ?h k cap ?n]
      by (cases "k = ?n") (auto simp: ring_contents_def nth_append nth_list_update simp del: upt_Suc)
  qed (simp add: u)
  ultimately show ?thesis by blast
qed

lemma ring_take:
  assumes "ring_ok cap r" "ring_contents r = e # es"
  shows "\<exists>r'. blocking_ringbuf_take r = Some (e, r') \<and> ring_ok cap r' \<and> ring_contents r' = es"
proof -
  let ?h = "unat (head r)" and ?n = "unat (ring_size r)"
  have n: "?n = Suc (length es)" using assms(2) length_ring_contents[of r] by simp
  have r: "unat (capacity r) = cap" "cap < 2147483648" "length (buf r) = cap" "?n \<le> cap" "?h < cap"
    "unat (tail r) = (?h + ?n) mod cap" using assms(1) n by (auto simp: ring_ok_def)
  obtain j where j: "blocking_ringbuf_next_idx r (head r) = Some j" "unat j = (?h + 1) mod cap"
    using next_idx[of "head r" r] r by auto
  have "ring_size r \<noteq> 0" using n by auto
  then have u: "unat (ring_size r + (- 1)) = length es" using unat_minus_one[of "ring_size r"] n by simp
  have nth: "(e # es) ! k = buf r ! ((?h + k) mod cap)" if "k < ?n" for k
    using that r(1) unfolding assms(2)[symmetric] by (simp add: ring_contents_def)
  have e: "buf r ! ?h = e" using nth[of 0] r(5) n by simp
  have es: "es ! k = buf r ! ((?h + Suc k) mod cap)" if "k < length es" for k using nth[of "Suc k"] n that by simp
  have "0 < sint (ring_size r)" using sint_cases[of "ring_size r"] r n by simp
  then have "blocking_ringbuf_take r = Some (e, r\<lparr>head := j, ring_size := ring_size r + (- 1)\<rparr>)"
    using j e by (simp add: blocking_ringbuf_take_def)
  moreover have "ring_ok cap (r\<lparr>head := j, ring_size := ring_size r + (- 1)\<rparr>)"
    using r j u n by (simp add: ring_ok_def mod_simps)
  moreover have "ring_contents (r\<lparr>head := j, ring_size := ring_size r + (- 1)\<rparr>) = es"
    using r j u es by (intro nth_equalityI) (simp_all add: ring_contents_def mod_simps)
  ultimately show ?thesis by blast
qed

interpretation rb: permit_protocol blocking_ringbuf_step ring_contents "ring_ok cap" cap "\<lambda>e. True" for cap
proof (unfold_locales, goal_cases)
  case (2 e b i)
  then show ?case using ring_put[of cap "store b" e] by (auto split: option.splits)
next
  case (6 b e es k i)
  then show ?case using ring_take[of cap "store b" e es] by (cases k) (auto split: option.splits)
next
  case (7 k e i b)
  then show ?case by (cases k) simp_all
qed simp_all

lemma blocking_ringbuf_init_inv:
  assumes "blocking_ringbuf_init c fresh = Some b" "length fresh = unat c"
  shows "rb.buf_inv (unat c) (replicate n Idle) b"
proof -
  have "unat c < 2147483648" using assms(1) by (auto simp: blocking_ringbuf_init_def word_le_nat_alt)
  then show ?thesis using assms sint_cases[of c]
    by (auto simp: rb.buf_inv_def rb.legal_pcs_def blocking_ringbuf_init_def ring_ok_def ring_contents_def simp del: of_nat_unat)
qed


text \<open>C27. Any number of threads share a blocking ring buffer.  No assert fails, the indices stay
  inside the storage, and the bytes come out in the order in which they went in.\<close>

theorem blocking_ringbuf_safe:
  assumes "blocking_ringbuf_init c fresh = Some b0" "length fresh = unat c"
    "run blocking_ringbuf_step (\<lambda>p. p) buf_starts (replicate n Idle, b0) (ps, b)" "i < length ps"
  shows "blocking_ringbuf_step (ps ! i) i b \<noteq> Panic
    \<and> log_in b = log_out b @ ring_contents (store b)
    \<and> unat (blocking_ringbuf_size b) = length (ring_contents (store b))
    \<and> (0 < unat c \<longrightarrow> unat (head (store b)) < length (buf (store b)) \<and> unat (tail (store b)) < length (buf (store b)))"
proof -
  have I: "rb.buf_inv (unat c) ps b"
    by (rule rb.buf_reachable_inv[OF assms(3) blocking_ringbuf_init_inv[OF assms(1,2)]])
  then have "ring_ok (unat c) (store b)" by (simp add: rb.buf_inv_def)
  then show ?thesis using rb.buf_panic_iff[OF I assms(4)] I
    by (auto simp: rb.buf_inv_def ring_ok_def blocking_ringbuf_size_def)
qed



lemma blocking_ringbuf_schedule:
  "map_option (exec blocking_ringbuf_step (\<lambda>p. p) buf_starts
     [(0, Some (AddWait 65)), (0, None), (0, None), (0, None), (0, Some (AddWait 66)), (0, None), (0, None), (1, Some RemWait), (1, None), (1, None)])
     (map_option (Pair (replicate 2 Idle)) (blocking_ringbuf_init 2 [0, 0]))
   = Some ([AddPost 66, RemPost None 65],
      \<lparr>add_sem = 0, remove_sem = 0, store = \<lparr>buf = [65, 66], capacity = 2, head = 1, tail = 0, ring_size = 1\<rparr>,
        log_in = [65, 66], log_out = [65]\<rparr>)"
  by code_simp

theorem blocking_ringbuf_safe_witness:
  "\<exists>b0 ps b. blocking_ringbuf_init 2 [0, 0] = Some b0
     \<and> run blocking_ringbuf_step (\<lambda>p. p) buf_starts (replicate 2 Idle, b0) (ps, b)
     \<and> log_in b = [65, 66] \<and> log_in b = log_out b @ ring_contents (store b)"
proof -
  obtain b0 where b0: "blocking_ringbuf_init 2 [0, 0] = Some b0" by (simp add: blocking_ringbuf_init_def)
  let ?b = "\<lparr>add_sem = 0, remove_sem = 0, store = \<lparr>buf = [65, 66], capacity = 2, head = 1, tail = 0, ring_size = 1\<rparr>,
        log_in = [65, 66], log_out = [65]\<rparr> :: blocking_ringbuf"
  have r: "run blocking_ringbuf_step (\<lambda>p. p) buf_starts (replicate 2 Idle, b0) ([AddPost 66, RemPost None 65], ?b)"
    using blocking_ringbuf_schedule b0 run_exec[of blocking_ringbuf_step "\<lambda>p. p" buf_starts "(replicate 2 Idle, b0)"]
    by (metis option.inject option.map(2))
  have "log_in ?b = log_out ?b @ ring_contents (store ?b)" using blocking_ringbuf_safe[OF b0 _ r, of 0] by simp
  then show ?thesis using b0 r by (intro exI[of _ b0] exI[of _ "[AddPost 66, RemPost None 65]"] exI[of _ ?b]) simp
qed


section \<open>Blocking queue\<close>

datatype bq_kind = Blocking | Trying | Draining "addr list"

datatype bq_pc = QIdle | QAdd addr | QPost | QWait | QTry | QDrain "addr list" | QTake bq_kind
  | QGot addr | QEmpty | QDrained "addr list"

record blocking_queue =
  bq_queue :: "addr list"
  bq_sem :: u32
  bq_in :: "addr list"
  bq_out :: "addr list"

definition blocking_queue_init :: blocking_queue where
  "blocking_queue_init = \<lparr>bq_queue = [], bq_sem = 0, bq_in = [], bq_out = []\<rparr>"

fun blocking_queue_add :: "bq_pc \<Rightarrow> blocking_queue \<Rightarrow> (bq_pc, blocking_queue) outcome" where
  "blocking_queue_add (QAdd e) b =
     (if e = NULL then Panic else Go QPost (b\<lparr>bq_queue := bq_queue b @ [e], bq_in := bq_in b @ [e]\<rparr>) [])"
| "blocking_queue_add QPost b = Go QIdle (b\<lparr>bq_sem := sem_post (bq_sem b)\<rparr>) []"
| "blocking_queue_add _ b = Blocked"

text \<open>The removal after a successful down, with its assert.\<close>

fun bq_taken :: "bq_kind \<Rightarrow> addr \<Rightarrow> bq_pc" where
  "bq_taken (Draining es) e = QDrain (es @ [e])"
| "bq_taken k e = QGot e"

definition bq_take :: "bq_kind \<Rightarrow> blocking_queue \<Rightarrow> (bq_pc, blocking_queue) outcome" where
  "bq_take k b = (case bq_queue b of [] \<Rightarrow> Panic
     | e # es \<Rightarrow> Go (bq_taken k e) (b\<lparr>bq_queue := es, bq_out := bq_out b @ [e]\<rparr>) [])"

fun blocking_queue_remove :: "bq_pc \<Rightarrow> blocking_queue \<Rightarrow> (bq_pc, blocking_queue) outcome" where
  "blocking_queue_remove QWait b = (case sem_wait (bq_sem b) of
       None \<Rightarrow> Blocked | Some c \<Rightarrow> Go (QTake Blocking) (b\<lparr>bq_sem := c\<rparr>) [])"
| "blocking_queue_remove (QTake Blocking) b = bq_take Blocking b"
| "blocking_queue_remove _ b = Blocked"

fun blocking_queue_try_remove :: "bq_pc \<Rightarrow> blocking_queue \<Rightarrow> (bq_pc, blocking_queue) outcome" where
  "blocking_queue_try_remove QTry b = (case sem_wait (bq_sem b) of
       None \<Rightarrow> Go QEmpty b [] | Some c \<Rightarrow> Go (QTake Trying) (b\<lparr>bq_sem := c\<rparr>) [])"
| "blocking_queue_try_remove (QTake Trying) b = bq_take Trying b"
| "blocking_queue_try_remove _ b = Blocked"

fun blocking_queue_remove_all :: "bq_pc \<Rightarrow> blocking_queue \<Rightarrow> (bq_pc, blocking_queue) outcome" where
  "blocking_queue_remove_all (QDrain es) b = (case sem_wait (bq_sem b) of
       None \<Rightarrow> Go (QDrained es) b [] | Some c \<Rightarrow> Go (QTake (Draining es)) (b\<lparr>bq_sem := c\<rparr>) [])"
| "blocking_queue_remove_all (QTake (Draining es)) b = bq_take (Draining es) b"
| "blocking_queue_remove_all _ b = Blocked"

definition blocking_queue_size :: "blocking_queue \<Rightarrow> nat" where
  "blocking_queue_size b = length (bq_queue b)"

definition blocking_queue_step :: "bq_pc \<Rightarrow> nat \<Rightarrow> blocking_queue \<Rightarrow> (bq_pc, blocking_queue) outcome" where
  "blocking_queue_step p i b = (case p of
       QAdd e \<Rightarrow> blocking_queue_add p b | QPost \<Rightarrow> blocking_queue_add p b
     | QWait \<Rightarrow> blocking_queue_remove p b | QTake Blocking \<Rightarrow> blocking_queue_remove p b
     | QTry \<Rightarrow> blocking_queue_try_remove p b | QTake Trying \<Rightarrow> blocking_queue_try_remove p b
     | QDrain es \<Rightarrow> blocking_queue_remove_all p b | QTake (Draining es) \<Rightarrow> blocking_queue_remove_all p b
     | _ \<Rightarrow> Blocked)"

definition bq_starts :: "bq_pc \<Rightarrow> bq_pc \<Rightarrow> bool" where
  "bq_starts p q \<longleftrightarrow> (case p of QIdle \<Rightarrow> True | QGot e \<Rightarrow> True | QEmpty \<Rightarrow> True | QDrained es \<Rightarrow> True | _ \<Rightarrow> False)
     \<and> (case q of QAdd e \<Rightarrow> e \<noteq> NULL | QWait \<Rightarrow> True | QTry \<Rightarrow> True | QDrain es \<Rightarrow> es = [] | _ \<Rightarrow> False)"

fun bq_items :: "bq_pc \<Rightarrow> nat" where
  "bq_items QPost = 1"
| "bq_items (QTake k) = 1"
| "bq_items p = 0"

definition bq_inv :: "bq_pc list \<Rightarrow> blocking_queue \<Rightarrow> bool" where
  "bq_inv ps b \<longleftrightarrow> QAdd NULL \<notin> set ps \<and> bq_in b = bq_out b @ bq_queue b \<and> (length (bq_in b) < 2147483648 \<longrightarrow>
     0 \<le> sint (bq_sem b) \<and> permits (bq_sem b) + total bq_items ps = length (bq_queue b))"

lemma bq_taken_weightless: "bq_items (bq_taken k e) = 0" "bq_taken k e \<noteq> QAdd x"
  by (cases k; simp)+

lemma bq_update:
  assumes "bq_inv ps b" "p \<noteq> QAdd NULL" "bq_in b' = bq_out b' @ bq_queue b'"
    "length (bq_in b') < 2147483648 \<Longrightarrow>
       0 \<le> sint (bq_sem b') \<and> permits (bq_sem b') + total bq_items (ps[i := p]) = length (bq_queue b')"
  shows "bq_inv (ps[i := p]) b'"
  using assms set_update_subset_insert[of ps i p] by (auto simp: bq_inv_def)

lemma bq_step_inv:
  assumes I: "bq_inv ps b" and i: "i < length ps" and st: "blocking_queue_step (ps ! i) i b = Go p b' ws"
  shows "bq_inv (wake_all resume ws (ps[i := p])) b'"
proof -
  note t = total_update[OF i, of bq_items p]
  note no = bq_update[OF I]
  note P = I[unfolded bq_inv_def] sem_wait_permits[of "bq_sem b"]
  show ?thesis
  proof (cases "ps ! i")
    case QPost
    have "permits (bq_sem b) < 2147483647" if "length (bq_in b) < 2147483648"
      using total_ge[OF i, of bq_items] QPost that I by (auto simp: bq_inv_def)
    then show ?thesis using QPost P st t sem_post_permits[of "bq_sem b"] by (auto simp: blocking_queue_step_def intro!: no)
  next
    case (QTake k)
    then have "blocking_queue_step (ps ! i) i b = bq_take k b" by (cases k) (simp_all add: blocking_queue_step_def)
    then show ?thesis using QTake P st t bq_taken_weightless[of k] by (auto simp: bq_take_def intro!: no split: list.splits)
  qed (use P st t in \<open>auto simp: blocking_queue_step_def intro!: no split: option.splits if_splits\<close>)
qed

text \<open>The asserts of the removals never fail while fewer than 2^31 elements have been added, and
  the queue is first in, first out.\<close>

lemma blocking_queue_safe:
  assumes "run blocking_queue_step (\<lambda>p. p) bq_starts (replicate n QIdle, blocking_queue_init) (ps, b)"
    "length (bq_in b) < 2147483648" "i < length ps"
  shows "blocking_queue_step (ps ! i) i b \<noteq> Panic \<and> bq_in b = bq_out b @ bq_queue b"
proof -
  have "bq_inv (fst (ps, b)) (snd (ps, b))"
  proof (rule run_invariant[OF assms(1), of bq_inv], goal_cases)
    case 1
    then show ?case by (simp add: bq_inv_def blocking_queue_init_def)
  next
    case (3 ps s i p)
    then show ?case using total_update[of i ps bq_items p] set_update_subset_insert[of ps i p]
      by (auto simp: bq_inv_def bq_starts_def split: bq_pc.splits)
  qed (rule bq_step_inv)
  then have I: "bq_inv ps b" by simp
  have "blocking_queue_step (ps ! i) i b \<noteq> Panic"
  proof (cases "ps ! i")
    case (QTake k)
    then have "bq_queue b \<noteq> []" using total_ge[OF assms(3), of bq_items] I assms(2) by (auto simp: bq_inv_def)
    then show ?thesis using QTake by (cases k) (auto simp: blocking_queue_step_def bq_take_def split: list.splits)
  qed (use I nth_mem[OF assms(3)] in \<open>auto simp: blocking_queue_step_def bq_inv_def split: option.splits\<close>)
  then show ?thesis using I by (simp add: bq_inv_def)
qed

end
