(* ===== verification/Scheduler.thy ===== *)
theory Scheduler
  imports Arithmetic "HOL-Library.Multiset"
begin

text \<open>
  The scheduler (\<open>kernel/scheduler.c\<close>): ready queues per core and shared ones, each
  split by priority and feedback level, weighted choice between the priorities, boosting,
  rebalancing, and the wake-up paths.  Threads are TCB addresses; a queue is the list of its
  threads (theory \<open>Queues\<close>).  A function that runs on a core takes the core's number
  \<open>me\<close>.  Calls are atomic here: the shared queues are each guarded by their lock.

  Shown: a scheduling pass fails no assert, loses and duplicates no thread, and keeps every
  thread in the bucket of its own priority and level.
\<close>

datatype thread_priority = LOW_PRIORITY | NORMAL_PRIORITY | HIGH_PRIORITY

datatype mlfq_level = LEVEL_ZERO | LEVEL_ONE | LEVEL_TWO

instance thread_priority :: finite
proof
  have "(UNIV :: thread_priority set) = {LOW_PRIORITY, NORMAL_PRIORITY, HIGH_PRIORITY}"
    using thread_priority.exhaust by auto
  then show "finite (UNIV :: thread_priority set)" by (metis finite.emptyI finite.insertI)
qed

instance mlfq_level :: finite
proof
  have "(UNIV :: mlfq_level set) = {LEVEL_ZERO, LEVEL_ONE, LEVEL_TWO}" using mlfq_level.exhaust by auto
  then show "finite (UNIV :: mlfq_level set)" by (metis finite.emptyI finite.insertI)
qed

type_synonym bucket = "thread_priority \<times> mlfq_level"

definition ANY_CORE :: u32 where "ANY_CORE = 0xFFFFFFFF"
definition MAX_CORES :: nat where "MAX_CORES = 4"
definition GLOBAL_CHECK_INTERVAL :: u32 where "GLOBAL_CHECK_INTERVAL = 2"
definition MIN_LOCAL_RUNNABLE_THREADS :: u32 where "MIN_LOCAL_RUNNABLE_THREADS = 1"
definition MAX_GLOBAL_ADMISSIONS_PER_PASS :: u32 where "MAX_GLOBAL_ADMISSIONS_PER_PASS = 1"
definition HIGH_PRIORITY_WEIGHT :: u32 where "HIGH_PRIORITY_WEIGHT = 4"
definition MID_PRIORITY_WEIGHT :: u32 where "MID_PRIORITY_WEIGHT = 2"
definition LOW_PRIORITY_WEIGHT :: u32 where "LOW_PRIORITY_WEIGHT = 1"
definition MAX_REBALANCE_PERCENT :: u32 where "MAX_REBALANCE_PERCENT = 130"
definition MIN_REBALANCE_PERCENT :: u32 where "MIN_REBALANCE_PERCENT = 70"

fun TIME_QUANTUM :: "mlfq_level \<Rightarrow> u32" where
  "TIME_QUANTUM LEVEL_ZERO = 2"
| "TIME_QUANTUM LEVEL_ONE = 4"
| "TIME_QUANTUM LEVEL_TWO = 8"

text \<open>\<open>level++\<close> below \<open>LEVEL_TWO\<close>.\<close>

fun next_level :: "mlfq_level \<Rightarrow> mlfq_level" where
  "next_level LEVEL_ZERO = LEVEL_ONE"
| "next_level LEVEL_ONE = LEVEL_TWO"
| "next_level LEVEL_TWO = LEVEL_TWO"

record tcb =
  core_affinity :: u32
  priority :: thread_priority
  mlfq_level :: mlfq_level
  remaining_quantum :: u32
  wakeup_jiffies :: u32
  can_preempt :: bool
  holds_spinlock :: bool

record per_core =
  idle_thread :: addr
  current_thread :: addr
  ready_queue :: "bucket \<Rightarrow> addr list"
  deferred_interrupt_wake_queue :: "addr list"
  pinned_queue :: "addr list"
  sleep_queue :: "addr list"
  scheduler_iters :: u32
  mlfq_boost_pending :: bool
  rebalance_pending :: bool

record sched =
  tcbs :: "addr \<Rightarrow> tcb"
  per_core_data :: "nat \<Rightarrow> per_core"
  global_ready_queue :: "bucket \<Rightarrow> addr list"
  global_admission_iters :: u32
  num_cores :: u32
  current_jiffies :: u32
  ps2_worker_thread :: addr

definition all_priorities :: "thread_priority list" where
  "all_priorities = [LOW_PRIORITY, NORMAL_PRIORITY, HIGH_PRIORITY]"

definition all_levels :: "mlfq_level list" where
  "all_levels = [LEVEL_ZERO, LEVEL_ONE, LEVEL_TWO]"

definition scheduler_priority_order :: "u32 \<Rightarrow> thread_priority list" where
  "scheduler_priority_order slot =
     (if slot < HIGH_PRIORITY_WEIGHT then [HIGH_PRIORITY, NORMAL_PRIORITY, LOW_PRIORITY]
      else if slot < HIGH_PRIORITY_WEIGHT + MID_PRIORITY_WEIGHT then [NORMAL_PRIORITY, HIGH_PRIORITY, LOW_PRIORITY]
      else [LOW_PRIORITY, NORMAL_PRIORITY, HIGH_PRIORITY])"

definition bucket_of :: "sched \<Rightarrow> addr \<Rightarrow> bucket" where
  "bucket_of s t = (priority (tcbs s t), mlfq_level (tcbs s t))"


section \<open>Adding threads to the queues\<close>

definition empty_core :: "per_core \<Rightarrow> per_core" where
  "empty_core c = c\<lparr>ready_queue := (\<lambda>_. []), deferred_interrupt_wake_queue := [], pinned_queue := [], sleep_queue := [],
     scheduler_iters := 0, mlfq_boost_pending := False, rebalance_pending := False\<rparr>"

definition scheduler_init :: "sched \<Rightarrow> sched" where
  "scheduler_init s = s\<lparr>global_ready_queue := (\<lambda>_. []),
     per_core_data := (\<lambda>i. if i < MAX_CORES then empty_core (per_core_data s i) else per_core_data s i), global_admission_iters := 0\<rparr>"

definition upd_core :: "nat \<Rightarrow> (per_core \<Rightarrow> per_core) \<Rightarrow> sched \<Rightarrow> sched" where
  "upd_core c f s = s\<lparr>per_core_data := (per_core_data s)(c := f (per_core_data s c))\<rparr>"

definition upd_tcb :: "addr \<Rightarrow> (tcb \<Rightarrow> tcb) \<Rightarrow> sched \<Rightarrow> sched" where
  "upd_tcb t f s = s\<lparr>tcbs := (tcbs s)(t := f (tcbs s t))\<rparr>"

definition global_bucket_add :: "addr \<Rightarrow> sched \<Rightarrow> sched option" where
  "global_bucket_add thread s = do {
     kassert (thread \<noteq> NULL);
     kassert (core_affinity (tcbs s thread) = ANY_CORE);
     Some (s\<lparr>global_ready_queue := (global_ready_queue s)
       (bucket_of s thread := global_ready_queue s (bucket_of s thread) @ [thread])\<rparr>)
   }"

definition global_bucket_remove :: "bucket \<Rightarrow> sched \<Rightarrow> addr \<times> sched" where
  "global_bucket_remove b s = (case global_ready_queue s b of
       [] \<Rightarrow> (NULL, s)
     | t # ts \<Rightarrow> (t, s\<lparr>global_ready_queue := (global_ready_queue s)(b := ts)\<rparr>))"

text \<open>An affinity that names no core would index past \<open>per_core_data\<close>.\<close>

definition global_queue_add :: "addr \<Rightarrow> sched \<Rightarrow> sched option" where
  "global_queue_add thread s =
     (if core_affinity (tcbs s thread) = ANY_CORE then global_bucket_add thread s
      else do {
        let target_core = unat (core_affinity (tcbs s thread));
        kassert (target_core < MAX_CORES);
        Some (upd_core target_core (\<lambda>c. c\<lparr>pinned_queue := pinned_queue c @ [thread]\<rparr>) s)
      })"

definition local_queue_add :: "nat \<Rightarrow> addr \<Rightarrow> sched \<Rightarrow> sched" where
  "local_queue_add me thread s = upd_core me (\<lambda>c. c\<lparr>ready_queue := (ready_queue c)
     (bucket_of s thread := ready_queue c (bucket_of s thread) @ [thread])\<rparr>) s"

definition scheduler_wake_thread :: "nat \<Rightarrow> addr \<Rightarrow> sched \<Rightarrow> sched option" where
  "scheduler_wake_thread me t s = do {
     kassert (t \<noteq> NULL);
     if core_affinity (tcbs s t) = of_nat me then Some (local_queue_add me t s) else global_queue_add t s
   }"

definition scheduler_wake_thread_from_interrupt :: "nat \<Rightarrow> addr \<Rightarrow> sched \<Rightarrow> sched option" where
  "scheduler_wake_thread_from_interrupt me t s = do {
     kassert (t \<noteq> NULL);
     Some (upd_core me (\<lambda>c. c\<lparr>deferred_interrupt_wake_queue := deferred_interrupt_wake_queue c @ [t]\<rparr>) s)
   }"


section \<open>Choosing a thread\<close>

text \<open>The first thread found in a list of buckets.\<close>

fun global_remove_first :: "bucket list \<Rightarrow> sched \<Rightarrow> addr \<times> sched" where
  "global_remove_first [] s = (NULL, s)"
| "global_remove_first (b # bs) s =
     (let (t, s) = global_bucket_remove b s in if t \<noteq> NULL then (t, s) else global_remove_first bs s)"

definition buckets_in_order :: "thread_priority list \<Rightarrow> bucket list" where
  "buckets_in_order ps = concat (map (\<lambda>p. map (Pair p) all_levels) ps)"

definition global_queue_remove :: "sched \<Rightarrow> (addr \<times> sched) option" where
  "global_queue_remove s = do {
     let old_slot = global_admission_iters s;
     let s = s\<lparr>global_admission_iters := old_slot + 1\<rparr>;
     slot \<leftarrow> smod old_slot (HIGH_PRIORITY_WEIGHT + MID_PRIORITY_WEIGHT + LOW_PRIORITY_WEIGHT);
     Some (global_remove_first (buckets_in_order (scheduler_priority_order slot)) s)
   }"

definition local_bucket_size :: "per_core \<Rightarrow> bucket \<Rightarrow> u32" where
  "local_bucket_size core b = of_nat (length (ready_queue core b))"

definition local_ready_queue_size :: "per_core \<Rightarrow> u32" where
  "local_ready_queue_size core = sum_list (map (local_bucket_size core) (buckets_in_order all_priorities))"

definition global_bucket_size :: "bucket \<Rightarrow> sched \<Rightarrow> u32" where
  "global_bucket_size b s = of_nat (length (global_ready_queue s b))"

definition total_ready_bucket_size :: "bucket \<Rightarrow> sched \<Rightarrow> u32" where
  "total_ready_bucket_size b s = global_bucket_size b s
     + sum_list (map (\<lambda>c. local_bucket_size (per_core_data s c) b) [0..<unat (num_cores s)])"

definition admit_one_global_thread :: "nat \<Rightarrow> sched \<Rightarrow> (bool \<times> sched) option" where
  "admit_one_global_thread me s = do {
     (thread, s) \<leftarrow> global_queue_remove s;
     if thread = NULL then Some (False, s)
     else do {
       kassert (core_affinity (tcbs s thread) = ANY_CORE);
       Some (True, local_queue_add me thread s)
     }
   }"

fun admit_loop :: "nat \<Rightarrow> nat \<Rightarrow> sched \<Rightarrow> sched option" where
  "admit_loop me 0 s = Some s"
| "admit_loop me (Suc budget) s = do {
     (admitted, s) \<leftarrow> admit_one_global_thread me s;
     if \<not> admitted then Some s else admit_loop me budget s
   }"

definition admit_global_work :: "nat \<Rightarrow> sched \<Rightarrow> sched option" where
  "admit_global_work me s = do {
     let core = per_core_data s me;
     let local_size = local_ready_queue_size core;
     let periodic_check = (scheduler_iters core mod GLOBAL_CHECK_INTERVAL = 0);
     let budget = (if local_size < MIN_LOCAL_RUNNABLE_THREADS then MIN_LOCAL_RUNNABLE_THREADS - local_size
                   else if periodic_check then 1 else 0);
     let budget = (if budget > MAX_GLOBAL_ADMISSIONS_PER_PASS then MAX_GLOBAL_ADMISSIONS_PER_PASS else budget);
     admit_loop me (unat budget) s
   }"

text \<open>\<open>mlfq_remove\<close> and \<open>local_remove_in_priority_order\<close>: the buckets in order.\<close>

fun local_remove_first :: "nat \<Rightarrow> bucket list \<Rightarrow> sched \<Rightarrow> addr \<times> sched" where
  "local_remove_first me [] s = (NULL, s)"
| "local_remove_first me (b # bs) s = (case ready_queue (per_core_data s me) b of
       [] \<Rightarrow> local_remove_first me bs s
     | t # ts \<Rightarrow> (t, upd_core me (\<lambda>c. c\<lparr>ready_queue := (ready_queue c)(b := ts)\<rparr>) s))"

definition mlfq_remove :: "nat \<Rightarrow> thread_priority \<Rightarrow> sched \<Rightarrow> addr \<times> sched" where
  "mlfq_remove me p s = local_remove_first me (map (Pair p) all_levels) s"

definition local_remove_in_priority_order :: "nat \<Rightarrow> thread_priority list \<Rightarrow> sched \<Rightarrow> addr \<times> sched" where
  "local_remove_in_priority_order me ps s = local_remove_first me (buckets_in_order ps) s"

definition local_queue_remove :: "nat \<Rightarrow> sched \<Rightarrow> addr \<times> sched" where
  "local_queue_remove me s =
     (let slot = scheduler_iters (per_core_data s me)
                   mod (HIGH_PRIORITY_WEIGHT + MID_PRIORITY_WEIGHT + LOW_PRIORITY_WEIGHT)
      in local_remove_in_priority_order me (scheduler_priority_order slot) s)"

definition local_or_global_queue_remove :: "nat \<Rightarrow> sched \<Rightarrow> (addr \<times> sched) option" where
  "local_or_global_queue_remove me s = do {
     s \<leftarrow> admit_global_work me s;
     Some (local_queue_remove me s)
   }"


section \<open>Feedback and balance\<close>

definition scheduler_charge_yield :: "addr \<Rightarrow> sched \<Rightarrow> sched option" where
  "scheduler_charge_yield t s = do {
     kassert (t \<noteq> NULL);
     let s = (if 0 < sint (remaining_quantum (tcbs s t))
              then upd_tcb t (\<lambda>x. x\<lparr>remaining_quantum := remaining_quantum x - 1\<rparr>) s else s);
     Some (if sint (remaining_quantum (tcbs s t)) \<le> 0
           then upd_tcb t (\<lambda>x. x\<lparr>mlfq_level := next_level (mlfq_level x),
                  remaining_quantum := TIME_QUANTUM (next_level (mlfq_level x))\<rparr>) s
           else s)
   }"

definition boost :: "addr \<Rightarrow> sched \<Rightarrow> sched" where
  "boost t s = upd_tcb t (\<lambda>x. x\<lparr>mlfq_level := LEVEL_ZERO, remaining_quantum := TIME_QUANTUM LEVEL_ZERO\<rparr>) s"

partial_function (option) boost_local :: "nat \<Rightarrow> bucket \<Rightarrow> sched \<Rightarrow> sched option" where
  "boost_local me b s = (case ready_queue (per_core_data s me) b of
       [] \<Rightarrow> Some s
     | t # ts \<Rightarrow> boost_local me b
         (local_queue_add me t (boost t (upd_core me (\<lambda>c. c\<lparr>ready_queue := (ready_queue c)(b := ts)\<rparr>) s))))"

partial_function (option) boost_global :: "bucket \<Rightarrow> sched \<Rightarrow> sched option" where
  "boost_global b s = (case global_ready_queue s b of
       [] \<Rightarrow> Some s
     | t # ts \<Rightarrow> do {
         s \<leftarrow> global_bucket_add t (boost t (s\<lparr>global_ready_queue := (global_ready_queue s)(b := ts)\<rparr>));
         boost_global b s
       })"

fun boost_buckets :: "nat \<Rightarrow> bucket list \<Rightarrow> sched \<Rightarrow> sched option" where
  "boost_buckets me [] s = Some s"
| "boost_buckets me (b # bs) s = do {
     s \<leftarrow> boost_local me b s;
     s \<leftarrow> (if me = 0 then boost_global b s else Some s);
     boost_buckets me bs s
   }"

definition mlfq_boost :: "nat \<Rightarrow> sched \<Rightarrow> sched option" where
  "mlfq_boost me s = boost_buckets me (concat (map (\<lambda>p. [(p, LEVEL_ONE), (p, LEVEL_TWO)]) all_priorities)) s"

fun move_local_loop :: "nat \<Rightarrow> bucket \<Rightarrow> nat \<Rightarrow> nat \<Rightarrow> sched \<Rightarrow> sched option" where
  "move_local_loop me b (Suc to_move) (Suc scan_budget) s = (case ready_queue (per_core_data s me) b of
       [] \<Rightarrow> Some s
     | t # ts \<Rightarrow> do {
         let s = upd_core me (\<lambda>c. c\<lparr>ready_queue := (ready_queue c)(b := ts)\<rparr>) s;
         if core_affinity (tcbs s t) \<noteq> ANY_CORE
         then move_local_loop me b (Suc to_move) scan_budget
                (upd_core me (\<lambda>c. c\<lparr>ready_queue := (ready_queue c)(b := ready_queue c b @ [t])\<rparr>) s)
         else do { s \<leftarrow> global_bucket_add t s; move_local_loop me b to_move scan_budget s }
       })"
| "move_local_loop me b to_move scan_budget s = Some s"

definition move_local_bucket_to_global :: "nat \<Rightarrow> bucket \<Rightarrow> u32 \<Rightarrow> sched \<Rightarrow> sched option" where
  "move_local_bucket_to_global me b to_move s =
     move_local_loop me b (unat to_move) (unat (local_bucket_size (per_core_data s me) b)) s"

fun move_global_loop :: "nat \<Rightarrow> bucket \<Rightarrow> nat \<Rightarrow> sched \<Rightarrow> sched" where
  "move_global_loop me b 0 s = s"
| "move_global_loop me b (Suc to_move) s =
     (let (t, s) = global_bucket_remove b s in
      if t = NULL then s
      else move_global_loop me b to_move
        (upd_core me (\<lambda>c. c\<lparr>ready_queue := (ready_queue c)(b := ready_queue c b @ [t])\<rparr>) s))"

definition move_global_bucket_to_local :: "nat \<Rightarrow> bucket \<Rightarrow> u32 \<Rightarrow> sched \<Rightarrow> sched" where
  "move_global_bucket_to_local me b to_move s = move_global_loop me b (unat to_move) s"

fun rebalance_buckets :: "nat \<Rightarrow> bucket list \<Rightarrow> sched \<Rightarrow> sched option" where
  "rebalance_buckets me [] s = Some s"
| "rebalance_buckets me (b # bs) s = do {
     let total_bucket = total_ready_bucket_size b s;
     s \<leftarrow> (if total_bucket = 0 then Some s
          else let ideal = (total_bucket + num_cores s - 1) div num_cores s;
                   local_bucket = local_bucket_size (per_core_data s me) b
               in if local_bucket * 100 > ideal * MAX_REBALANCE_PERCENT
                  then move_local_bucket_to_global me b (local_bucket - ideal) s
                  else if local_bucket * 100 < ideal * MIN_REBALANCE_PERCENT
                  then Some (move_global_bucket_to_local me b (ideal - local_bucket) s)
                  else Some s);
     rebalance_buckets me bs s
   }"

definition rebalance_queues :: "nat \<Rightarrow> sched \<Rightarrow> sched option" where
  "rebalance_queues me s = rebalance_buckets me (buckets_in_order all_priorities) s"


section \<open>A scheduling pass\<close>

fun wake_list :: "nat \<Rightarrow> addr list \<Rightarrow> sched \<Rightarrow> sched option" where
  "wake_list me [] s = Some s"
| "wake_list me (t # ts) s = do { s \<leftarrow> scheduler_wake_thread me t s; wake_list me ts s }"

partial_function (option) wake_sleepers :: "nat \<Rightarrow> sched \<Rightarrow> sched option" where
  "wake_sleepers me s = (case sleep_queue (per_core_data s me) of
       [] \<Rightarrow> Some s
     | t # ts \<Rightarrow>
         if wakeup_jiffies (tcbs s t) \<le> current_jiffies s
         then do {
           s \<leftarrow> scheduler_wake_thread me t (upd_core me (\<lambda>c. c\<lparr>sleep_queue := ts\<rparr>) s);
           wake_sleepers me s
         }
         else Some s)"

definition schedule_next_thread :: "nat \<Rightarrow> sched \<Rightarrow> (addr \<times> sched) option" where
  "schedule_next_thread me s = do {
     let deferred = deferred_interrupt_wake_queue (per_core_data s me);
     let s = upd_core me (\<lambda>c. c\<lparr>deferred_interrupt_wake_queue := []\<rparr>) s;
     s \<leftarrow> wake_list me deferred s;
     s \<leftarrow> wake_sleepers me s;
     let pinned = pinned_queue (per_core_data s me);
     let s = upd_core me (\<lambda>c. c\<lparr>pinned_queue := []\<rparr>) s;
     let s = fold (local_queue_add me) pinned s;
     s \<leftarrow> (if rebalance_pending (per_core_data s me)
          then map_option (upd_core me (\<lambda>c. c\<lparr>rebalance_pending := False\<rparr>)) (rebalance_queues me s) else Some s);
     s \<leftarrow> (if mlfq_boost_pending (per_core_data s me)
          then map_option (upd_core me (\<lambda>c. c\<lparr>mlfq_boost_pending := False\<rparr>)) (mlfq_boost me s) else Some s);
     (next, s) \<leftarrow> local_or_global_queue_remove me s;
     Some (next, upd_core me (\<lambda>c. c\<lparr>scheduler_iters := scheduler_iters c + 1\<rparr>) s)
   }"


section \<open>Giving up the core\<close>

text \<open>The switch to the idle thread, which then runs the callback.\<close>

definition block :: "nat \<Rightarrow> (sched \<Rightarrow> sched option) \<Rightarrow> sched \<Rightarrow> sched option" where
  "block me func s = do {
     let c = per_core_data s me;
     kassert (\<not> holds_spinlock (tcbs s (current_thread c)));
     kassert (current_thread c \<noteq> idle_thread c);
     func (upd_core me (\<lambda>c. c\<lparr>current_thread := idle_thread c\<rparr>) s)
   }"

definition yield :: "nat \<Rightarrow> sched \<Rightarrow> sched option" where
  "yield me s = do {
     let t = current_thread (per_core_data s me);
     s \<leftarrow> scheduler_charge_yield t s;
     block me (\<lambda>s. Some (local_queue_add me t s)) s
   }"

text \<open>\<open>sleep_queue_add\<close>: before the first thread with a later deadline.\<close>

definition sleep_insert :: "nat \<Rightarrow> addr \<Rightarrow> sched \<Rightarrow> sched" where
  "sleep_insert me t s =
     (let early = (\<lambda>u. wakeup_jiffies (tcbs s u) \<le> wakeup_jiffies (tcbs s t))
      in upd_core me (\<lambda>c. c\<lparr>sleep_queue := takeWhile early (sleep_queue c) @ t # dropWhile early (sleep_queue c)\<rparr>) s)"

definition sleep :: "nat \<Rightarrow> u32 \<Rightarrow> sched \<Rightarrow> sched option" where
  "sleep me jiffies s = do {
     let t = current_thread (per_core_data s me);
     kassert (t \<noteq> idle_thread (per_core_data s me));
     let s = upd_tcb t (\<lambda>x. x\<lparr>wakeup_jiffies := current_jiffies s + jiffies\<rparr>) s;
     block me (\<lambda>s. Some (sleep_insert me t s)) s
   }"

definition MLFQ_BOOST_INTERVAL :: u32 where "MLFQ_BOOST_INTERVAL = 256"
definition REBALANCE_INTERVAL :: u32 where "REBALANCE_INTERVAL = 512"

definition upd_all_cores :: "(per_core \<Rightarrow> per_core) \<Rightarrow> sched \<Rightarrow> sched" where
  "upd_all_cores g s = fold (\<lambda>c. upd_core c g) [0..<MAX_CORES] s"

text \<open>The timer interrupt, up to the point where a preempted thread is switched out.\<close>

definition PS2_WAKE_INTERVAL :: u32 where "PS2_WAKE_INTERVAL = 1000"

definition pit_core_zero :: "sched \<Rightarrow> sched option" where
  "pit_core_zero s = do {
     let s = s\<lparr>current_jiffies := current_jiffies s + 1\<rparr>;
     let s = (if current_jiffies s mod MLFQ_BOOST_INTERVAL = 0 then upd_all_cores (\<lambda>c. c\<lparr>mlfq_boost_pending := True\<rparr>) s else s);
     let s = (if current_jiffies s mod REBALANCE_INTERVAL = 0 then upd_all_cores (\<lambda>c. c\<lparr>rebalance_pending := True\<rparr>) s else s);
     if current_jiffies s mod PS2_WAKE_INTERVAL = 0
     then let worker = ps2_worker_thread s; s = s\<lparr>ps2_worker_thread := NULL\<rparr>
          in if worker \<noteq> NULL then scheduler_wake_thread_from_interrupt 0 worker s else Some s
     else Some s
   }"

definition pit_handler :: "nat \<Rightarrow> sched \<Rightarrow> sched option" where
  "pit_handler me s = do {
     s \<leftarrow> (if me = 0 then pit_core_zero s else Some s);
     let t = current_thread (per_core_data s me);
     kassert (t \<noteq> NULL);
     if t \<noteq> idle_thread (per_core_data s me)
     then do {
       let s = upd_tcb t (\<lambda>x. x\<lparr>remaining_quantum := remaining_quantum x - 1\<rparr>) s;
       if can_preempt (tcbs s t) \<and> sint (remaining_quantum (tcbs s t)) \<le> 0
       then block me (\<lambda>s. Some (local_queue_add me t s))
              (upd_tcb t (\<lambda>x. x\<lparr>mlfq_level := next_level (mlfq_level x),
                 remaining_quantum := TIME_QUANTUM (next_level (mlfq_level x))\<rparr>) s)
       else Some s
     }
     else Some s
   }"

definition set_priority :: "addr \<Rightarrow> thread_priority \<Rightarrow> sched \<Rightarrow> sched" where
  "set_priority current p s = (if current \<noteq> NULL then upd_tcb current (\<lambda>x. x\<lparr>priority := p\<rparr>) s else s)"


section \<open>Threads in the queues\<close>

definition bucket_mset :: "(bucket \<Rightarrow> addr list) \<Rightarrow> addr multiset" where
  "bucket_mset f = (\<Sum>b\<in>UNIV. mset (f b))"

definition core_mset :: "per_core \<Rightarrow> addr multiset" where
  "core_mset c = bucket_mset (ready_queue c) + mset (deferred_interrupt_wake_queue c) + mset (pinned_queue c) + mset (sleep_queue c)"

definition queued :: "sched \<Rightarrow> addr multiset" where
  "queued s = bucket_mset (global_ready_queue s) + (\<Sum>c<MAX_CORES. core_mset (per_core_data s c))"

definition target_ok :: "u32 \<Rightarrow> bool" where
  "target_ok a \<longleftrightarrow> a = ANY_CORE \<or> unat a < MAX_CORES"

definition placed :: "sched \<Rightarrow> bool" where
  "placed s \<longleftrightarrow> (\<forall>b. \<forall>t\<in>set (global_ready_queue s b). core_affinity (tcbs s t) = ANY_CORE \<and> bucket_of s t = b)
     \<and> (\<forall>c<MAX_CORES. \<forall>b. \<forall>t\<in>set (ready_queue (per_core_data s c) b). bucket_of s t = b)"

text \<open>\<open>A\<close> are all threads, \<open>X\<close> those in the hands of the scheduler; the others are queued once.\<close>

definition sched_inv :: "addr multiset \<Rightarrow> addr multiset \<Rightarrow> sched \<Rightarrow> bool" where
  "sched_inv A X s \<longleftrightarrow> queued s + X = A \<and> (\<forall>t. count A t \<le> 1)
     \<and> (\<forall>t. t \<in># A \<longrightarrow> t \<noteq> NULL \<and> target_ok (core_affinity (tcbs s t))) \<and> placed s"

lemma bucket_mset_upd: "bucket_mset (f(b := xs)) + mset (f b) = bucket_mset f + mset xs"
proof -
  have "bucket_mset g = mset (g b) + (\<Sum>c\<in>UNIV - {b}. mset (g c))" for g
    unfolding bucket_mset_def by (rule sum.remove) auto
  moreover have "(\<Sum>c\<in>UNIV - {b}. mset ((f(b := xs)) c)) = (\<Sum>c\<in>UNIV - {b}. mset (f c))"
    by (rule sum.cong) auto
  ultimately show ?thesis by (simp add: add.commute add.left_commute)
qed

lemma bucket_mset_push [simp]: "bucket_mset (f(b := f b @ [t])) = add_mset t (bucket_mset f)"
  using bucket_mset_upd[of f b "f b @ [t]"] by (simp add: ac_simps)

lemma bucket_mset_pop: "f b = t # ts \<Longrightarrow> bucket_mset f = add_mset t (bucket_mset (f(b := ts)))"
  using bucket_mset_upd[of f b ts] by simp

lemma bucket_mset_mem: "t \<in> set (f b) \<Longrightarrow> t \<in># bucket_mset f"
  unfolding bucket_mset_def by (cases b) (auto simp: set_mset_sum)

lemma queued_upd_core:
  assumes "c < MAX_CORES"
  shows "queued (upd_core c g s) + core_mset (per_core_data s c) = queued s + core_mset (g (per_core_data s c))"
proof -
  have "(\<Sum>k<MAX_CORES. core_mset (f k)) = core_mset (f c) + (\<Sum>k\<in>{..<MAX_CORES} - {c}. core_mset (f k))" for f
    by (rule sum.remove) (use assms in auto)
  moreover have "(\<Sum>k\<in>{..<MAX_CORES} - {c}. core_mset (((per_core_data s)(c := x)) k))
      = (\<Sum>k\<in>{..<MAX_CORES} - {c}. core_mset (per_core_data s k))" for x
    by (rule sum.cong) auto
  ultimately show ?thesis by (simp add: queued_def upd_core_def ac_simps)
qed

lemma queued_push_core:
  assumes "c < MAX_CORES" "core_mset (g (per_core_data s c)) = add_mset t (core_mset (per_core_data s c))"
  shows "queued (upd_core c g s) = add_mset t (queued s)"
  using queued_upd_core[OF assms(1), of g s] assms(2) by simp

lemma queued_take_core:
  assumes "c < MAX_CORES" "core_mset (per_core_data s c) = core_mset (g (per_core_data s c)) + X"
  shows "queued s = queued (upd_core c g s) + X"
  using queued_upd_core[OF assms(1), of g s] assms(2) by (simp add: ac_simps)

lemma upd_core_simps [simp]:
  "tcbs (upd_core c g s) = tcbs s" "global_ready_queue (upd_core c g s) = global_ready_queue s"
  "per_core_data (upd_core c g s) k = (if k = c then g (per_core_data s c) else per_core_data s k)"
  "bucket_of (upd_core c g s) = bucket_of s" "num_cores (upd_core c g s) = num_cores s"
  "current_jiffies (upd_core c g s) = current_jiffies s" "global_admission_iters (upd_core c g s) = global_admission_iters s"
  by (auto simp: upd_core_def bucket_of_def fun_eq_iff)

lemma bucket_of_global [simp]: "bucket_of (s\<lparr>global_ready_queue := g\<rparr>) = bucket_of s"
  by (simp add: bucket_of_def fun_eq_iff)

lemma queued_global: "queued ((s :: sched)\<lparr>global_ready_queue := g\<rparr>) + bucket_mset (global_ready_queue s) = queued s + bucket_mset g"
  by (simp add: queued_def ac_simps)

lemma placedD:
  assumes "placed s"
  shows "t \<in> set (global_ready_queue s b) \<Longrightarrow> core_affinity (tcbs s t) = ANY_CORE \<and> bucket_of s t = b"
    "c < MAX_CORES \<Longrightarrow> t \<in> set (ready_queue (per_core_data s c) b) \<Longrightarrow> bucket_of s t = b"
  using assms unfolding placed_def by blast+

lemma placedI:
  assumes "\<And>b t. t \<in> set (global_ready_queue s b) \<Longrightarrow> core_affinity (tcbs s t) = ANY_CORE \<and> bucket_of s t = b"
    "\<And>c b t. c < MAX_CORES \<Longrightarrow> t \<in> set (ready_queue (per_core_data s c) b) \<Longrightarrow> bucket_of s t = b"
  shows "placed s"
  using assms unfolding placed_def by blast

lemma placed_transfer:
  assumes "placed s" "tcbs s' = tcbs s"
    "\<And>b. set (global_ready_queue s' b) \<subseteq> set (global_ready_queue s b) \<union> {t. core_affinity (tcbs s t) = ANY_CORE \<and> bucket_of s t = b}"
    "\<And>c b. c < MAX_CORES \<Longrightarrow> set (ready_queue (per_core_data s' c) b) \<subseteq> set (ready_queue (per_core_data s c) b) \<union> {t. bucket_of s t = b}"
  shows "placed s'"
proof (rule placedI)
  have b: "bucket_of s' = bucket_of s" using assms(2) by (simp add: bucket_of_def fun_eq_iff)
  fix k t assume "t \<in> set (global_ready_queue s' k)"
  then show "core_affinity (tcbs s' t) = ANY_CORE \<and> bucket_of s' t = k"
    using assms(3)[of k] placedD(1)[OF assms(1), of t k] b assms(2) by auto
next
  have b: "bucket_of s' = bucket_of s" using assms(2) by (simp add: bucket_of_def fun_eq_iff)
  fix c k t assume "c < MAX_CORES" "t \<in> set (ready_queue (per_core_data s' c) k)"
  then show "bucket_of s' t = k" using assms(4)[of c k] placedD(2)[OF assms(1), of c t k] b by auto
qed

lemma sched_inv_mem:
  assumes "sched_inv A (add_mset t X) s"
  shows "t \<in># A" "t \<noteq> NULL" "target_ok (core_affinity (tcbs s t))" "t \<notin># queued s"
proof -
  have a: "queued s + add_mset t X = A" "\<And>t. count A t \<le> 1" using assms by (auto simp: sched_inv_def)
  then show m: "t \<in># A" by auto
  then show "t \<noteq> NULL" "target_ok (core_affinity (tcbs s t))" using assms by (auto simp: sched_inv_def)
  have "count (queued s + add_mset t X) t \<le> 1" using a by simp
  then show "t \<notin># queued s" by (simp add: not_in_iff)
qed

lemma inv_local_add:
  assumes "sched_inv A (add_mset t X) s" "me < MAX_CORES"
  shows "sched_inv A X (local_queue_add me t s)"
proof -
  have "queued (local_queue_add me t s) = add_mset t (queued s)"
    unfolding local_queue_add_def by (rule queued_push_core[OF assms(2)]) (simp add: core_mset_def)
  moreover have "placed s" using assms(1) by (simp add: sched_inv_def)
  then have "placed (local_queue_add me t s)"
    by (intro placed_transfer[OF \<open>placed s\<close>]) (auto simp: local_queue_add_def split: if_splits)
  ultimately show ?thesis using assms by (simp add: sched_inv_def) (simp add: local_queue_add_def)
qed

lemma inv_global_add:
  assumes "sched_inv A (add_mset t X) s" "core_affinity (tcbs s t) = ANY_CORE"
  shows "\<exists>s'. global_bucket_add t s = Some s' \<and> sched_inv A X s' \<and> per_core_data s' = per_core_data s
    \<and> (\<forall>b. b \<noteq> bucket_of s t \<longrightarrow> global_ready_queue s' b = global_ready_queue s b) \<and> tcbs s' = tcbs s"
proof -
  let ?s = "s\<lparr>global_ready_queue := (global_ready_queue s)(bucket_of s t := global_ready_queue s (bucket_of s t) @ [t])\<rparr>"
  have "queued ?s = add_mset t (queued s)"
    using queued_global[of "(global_ready_queue s)(bucket_of s t := global_ready_queue s (bucket_of s t) @ [t])" s] by simp
  moreover have "placed s" using assms(1) by (simp add: sched_inv_def)
  then have "placed ?s" using assms(2) by (intro placed_transfer[OF \<open>placed s\<close>]) (auto split: if_splits)
  ultimately have "sched_inv A X ?s" using assms(1) by (simp add: sched_inv_def)
  then show ?thesis using assms sched_inv_mem[OF assms(1)] by (simp add: global_bucket_add_def)
qed

lemma inv_local_pop:
  assumes "sched_inv A X s" "me < MAX_CORES" "ready_queue (per_core_data s me) b = t # ts"
  shows "sched_inv A (add_mset t X) (upd_core me (\<lambda>c. c\<lparr>ready_queue := (ready_queue c)(b := ts)\<rparr>) s)" (is "sched_inv _ _ ?s")
proof -
  have "queued s = queued ?s + {#t#}"
    by (rule queued_take_core[OF assms(2)]) (simp add: core_mset_def bucket_mset_pop[of "ready_queue (per_core_data s me)" b t ts, OF assms(3)])
  moreover have p: "placed s" using assms(1) by (simp add: sched_inv_def)
  have "placed ?s" using assms(3) by (intro placed_transfer[OF p]) (auto split: if_splits)
  ultimately show ?thesis using assms(1) by (simp add: sched_inv_def)
qed

lemma inv_global_pop:
  assumes "sched_inv A X s" "global_ready_queue s b = t # ts"
  shows "sched_inv A (add_mset t X) (s\<lparr>global_ready_queue := (global_ready_queue s)(b := ts)\<rparr>)" (is "sched_inv _ _ ?s")
    "core_affinity (tcbs s t) = ANY_CORE" "bucket_of s t = b"
proof -
  have "queued s = add_mset t (queued ?s)"
    using queued_global[of "(global_ready_queue s)(b := ts)" s] bucket_mset_pop[of "global_ready_queue s" b t ts, OF assms(2)] by simp
  moreover have p: "placed s" using assms(1) by (simp add: sched_inv_def)
  have "placed ?s" using assms(2) by (intro placed_transfer[OF p]) (auto split: if_splits)
  ultimately show "sched_inv A (add_mset t X) ?s" using assms(1) by (simp add: sched_inv_def)
  have "t \<in> set (global_ready_queue s b)" using assms(2) by simp
  then show "core_affinity (tcbs s t) = ANY_CORE" "bucket_of s t = b"
    using placedD(1)[OF p] by blast+
qed

lemma inv_core_take:
  assumes "sched_inv A X s" "me < MAX_CORES" "core_mset (per_core_data s me) = core_mset (g (per_core_data s me)) + Y"
    "ready_queue (g (per_core_data s me)) = ready_queue (per_core_data s me)"
  shows "sched_inv A (X + Y) (upd_core me g s)"
proof -
  have "queued s = queued (upd_core me g s) + Y" by (rule queued_take_core[of me s g Y, OF assms(2,3)])
  moreover have p: "placed s" using assms(1) by (simp add: sched_inv_def)
  have "placed (upd_core me g s)" using assms(2,4) by (intro placed_transfer[OF p]) (auto split: if_splits)
  ultimately show ?thesis using assms(1) by (simp add: sched_inv_def ac_simps)
qed

lemma inv_pinned_add:
  assumes "sched_inv A (add_mset t X) s" "c < MAX_CORES"
  shows "sched_inv A X (upd_core c (\<lambda>c. c\<lparr>pinned_queue := pinned_queue c @ [t]\<rparr>) s)" (is "sched_inv _ _ ?s")
proof -
  have "queued ?s = add_mset t (queued s)" by (rule queued_push_core[OF assms(2)]) (simp add: core_mset_def)
  moreover have p: "placed s" using assms(1) by (simp add: sched_inv_def)
  have "placed ?s" by (intro placed_transfer[OF p]) (auto split: if_splits)
  ultimately show ?thesis using assms(1) by (simp add: sched_inv_def)
qed

lemma inv_upd_tcb:
  assumes "sched_inv A (add_mset t X) s" "\<And>x. core_affinity (g x) = core_affinity x"
  shows "sched_inv A (add_mset t X) (upd_tcb t g s)"
proof -
  have nq: "t \<notin> set (global_ready_queue s b)" "c < MAX_CORES \<Longrightarrow> t \<notin> set (ready_queue (per_core_data s c) b)" for b c
  proof -
    have "t \<notin># queued s" by (rule sched_inv_mem[OF assms(1)])
    then show "t \<notin> set (global_ready_queue s b)" "c < MAX_CORES \<Longrightarrow> t \<notin> set (ready_queue (per_core_data s c) b)"
      using bucket_mset_mem[of t] by (fastforce simp: queued_def core_mset_def set_mset_sum)+
  qed
  have "queued (upd_tcb t g s) = queued s" by (simp add: queued_def upd_tcb_def)
  moreover have p: "placed s" using assms(1) by (simp add: sched_inv_def)
  have b: "u \<noteq> t \<Longrightarrow> bucket_of (upd_tcb t g s) u = bucket_of s u" "core_affinity (tcbs (upd_tcb t g s) u) = core_affinity (tcbs s u)" for u
    by (simp_all add: upd_tcb_def bucket_of_def assms(2))
  have "placed (upd_tcb t g s)"
  proof (rule placedI)
    fix k u assume "u \<in> set (global_ready_queue (upd_tcb t g s) k)"
    then show "core_affinity (tcbs (upd_tcb t g s) u) = ANY_CORE \<and> bucket_of (upd_tcb t g s) u = k"
      using placedD(1)[OF p, of u k] nq(1)[of k] b[of u] by (auto simp: upd_tcb_def)
  next
    fix c k u assume "c < MAX_CORES" "u \<in> set (ready_queue (per_core_data (upd_tcb t g s) c) k)"
    then show "bucket_of (upd_tcb t g s) u = k"
      using placedD(2)[OF p, of c u k] nq(2)[of c k] b[of u] by (auto simp: upd_tcb_def)
  qed
  ultimately show ?thesis using assms(1) by (simp add: sched_inv_def b(2))
qed


lemma inv_boost: "sched_inv A (add_mset t X) s \<Longrightarrow> sched_inv A (add_mset t X) (boost t s)"
  unfolding boost_def by (rule inv_upd_tcb) auto


section \<open>Every operation moves threads between queues\<close>

definition returns :: "('a \<Rightarrow> bool) \<Rightarrow> 'a option \<Rightarrow> bool" where
  "returns P r \<longleftrightarrow> (\<exists>x. r = Some x \<and> P x)"

lemma returns_Some [simp]: "returns P (Some x) \<longleftrightarrow> P x"
  by (simp add: returns_def)

lemma returns_bind: "returns Q r \<Longrightarrow> (\<And>x. Q x \<Longrightarrow> returns P (f x)) \<Longrightarrow> returns P (r \<bind> f)"
  by (auto simp: returns_def)

lemma returns_map: "returns (\<lambda>x. P (f x)) r \<Longrightarrow> returns P (map_option f r)"
  by (auto simp: returns_def)

lemma returns_mono: "returns Q r \<Longrightarrow> (\<And>x. Q x \<Longrightarrow> P x) \<Longrightarrow> returns P r"
  by (auto simp: returns_def)

lemma inv_global_add': "sched_inv A (add_mset t X) s \<Longrightarrow> core_affinity (tcbs s t) = ANY_CORE
  \<Longrightarrow> returns (\<lambda>s'. sched_inv A X s' \<and> per_core_data s' = per_core_data s \<and> tcbs s' = tcbs s
      \<and> (\<forall>b. b \<noteq> bucket_of s t \<longrightarrow> global_ready_queue s' b = global_ready_queue s b)) (global_bucket_add t s)"
  using inv_global_add[of A t X s] by (auto simp: returns_def)

lemma inv_wake:
  assumes "sched_inv A (add_mset t X) s" "me < MAX_CORES"
  shows "returns (\<lambda>s'. sched_inv A X s' \<and> (\<forall>c. sleep_queue (per_core_data s' c) = sleep_queue (per_core_data s c)))
    (scheduler_wake_thread me t s)"
proof -
  note m = sched_inv_mem[OF assms(1)]
  consider "core_affinity (tcbs s t) = of_nat me"
    | "core_affinity (tcbs s t) \<noteq> of_nat me" "core_affinity (tcbs s t) = ANY_CORE"
    | "core_affinity (tcbs s t) \<noteq> of_nat me" "core_affinity (tcbs s t) \<noteq> ANY_CORE" "unat (core_affinity (tcbs s t)) < MAX_CORES"
    using m(3) unfolding target_ok_def by blast
  then show ?thesis
  proof cases
    case 1
    then show ?thesis using inv_local_add[OF assms] m(2) by (simp add: scheduler_wake_thread_def) (simp add: local_queue_add_def)
  next
    case 2
    then show ?thesis using returns_mono[OF inv_global_add'[OF assms(1)]] m(2) by (simp add: scheduler_wake_thread_def global_queue_add_def)
  next
    case 3
    then show ?thesis using inv_pinned_add[OF assms(1) 3(3)] m(2) by (simp add: scheduler_wake_thread_def global_queue_add_def)
  qed
qed

lemma inv_wake_list:
  "sched_inv A (mset ts + X) s \<Longrightarrow> me < MAX_CORES \<Longrightarrow> returns (sched_inv A X) (wake_list me ts s)"
proof (induction ts arbitrary: s)
  case (Cons t ts)
  have "sched_inv A (add_mset t (mset ts + X)) s" using Cons.prems(1) by simp
  then show ?case unfolding wake_list.simps using Cons.IH Cons.prems(2) by (blast intro: returns_bind[OF inv_wake])
qed simp

lemma inv_sleep_pop:
  assumes "sched_inv A X s" "me < MAX_CORES" "sleep_queue (per_core_data s me) = t # ts"
  shows "sched_inv A (add_mset t X) (upd_core me (\<lambda>c. c\<lparr>sleep_queue := ts\<rparr>) s)"
  using inv_core_take[OF assms(1,2), of "\<lambda>c. c\<lparr>sleep_queue := ts\<rparr>" "{#t#}"] assms(3) by (simp add: core_mset_def)

lemma inv_wake_sleepers:
  "sched_inv A X s \<Longrightarrow> me < MAX_CORES \<Longrightarrow> returns (sched_inv A X) (wake_sleepers me s)"
proof (induction "sleep_queue (per_core_data s me)" arbitrary: s)
  case Nil
  then show ?case by (subst wake_sleepers.simps) (simp add: Nil.hyps[symmetric])
next
  case (Cons t ts)
  have st: "sleep_queue (per_core_data s me) = t # ts" using Cons.hyps(2) by simp
  let ?s = "upd_core me (\<lambda>c. c\<lparr>sleep_queue := ts\<rparr>) s"
  have "returns (sched_inv A X) (scheduler_wake_thread me t ?s \<bind> wake_sleepers me)"
    by (rule returns_bind[OF inv_wake[OF inv_sleep_pop[OF Cons.prems st] Cons.prems(2)]])
      (use Cons.hyps(1) Cons.prems(2) in simp)
  then show ?case using Cons.prems(1) by (subst wake_sleepers.simps) (simp add: st)
qed

lemma inv_fold_local_add:
  "sched_inv A (mset ts + X) s \<Longrightarrow> me < MAX_CORES \<Longrightarrow> sched_inv A X (fold (local_queue_add me) ts s)"
proof (induction ts arbitrary: s)
  case (Cons t ts)
  then show ?case using inv_local_add[of A t "mset ts + X" s me] by simp
qed simp

lemma inv_global_remove:
  assumes "sched_inv A X s" "global_bucket_remove b s = (t, s')"
  shows "if t = NULL then sched_inv A X s' \<and> s' = s \<and> global_ready_queue s b = []
    else sched_inv A (add_mset t X) s' \<and> core_affinity (tcbs s' t) = ANY_CORE \<and> bucket_of s' t = b"
proof (cases "global_ready_queue s b")
  case Nil
  then show ?thesis using assms by (simp add: global_bucket_remove_def)
next
  case (Cons u us)
  then show ?thesis using assms inv_global_pop[OF assms(1) Cons] sched_inv_mem(2)[OF inv_global_pop(1)[OF assms(1) Cons]]
    by (auto simp: global_bucket_remove_def)
qed

lemma inv_global_remove_first:
  assumes "sched_inv A X s" "global_remove_first bs s = (t, s')"
  shows "if t = NULL then sched_inv A X s' else sched_inv A (add_mset t X) s' \<and> core_affinity (tcbs s' t) = ANY_CORE"
  using assms
proof (induction bs arbitrary: s)
  case (Cons b bs)
  obtain u s1 where u: "global_bucket_remove b s = (u, s1)" by (cases "global_bucket_remove b s")
  then show ?case using inv_global_remove[OF Cons.prems(1) u] Cons.IH[of s1] Cons.prems(2)
    by (auto split: if_splits)
qed simp

lemma inv_admission_iters: "sched_inv A X (s\<lparr>global_admission_iters := n\<rparr>) = sched_inv A X s"
  by (simp add: sched_inv_def queued_def placed_def bucket_of_def)

lemma global_queue_remove_slot:
  "\<exists>slot. global_queue_remove s = Some (global_remove_first (buckets_in_order (scheduler_priority_order slot))
     (s\<lparr>global_admission_iters := global_admission_iters s + 1\<rparr>))"
proof -
  have "HIGH_PRIORITY_WEIGHT + MID_PRIORITY_WEIGHT + LOW_PRIORITY_WEIGHT \<noteq> 0"
    by (simp add: HIGH_PRIORITY_WEIGHT_def MID_PRIORITY_WEIGHT_def LOW_PRIORITY_WEIGHT_def)
  then obtain slot where "smod (global_admission_iters s) (HIGH_PRIORITY_WEIGHT + MID_PRIORITY_WEIGHT + LOW_PRIORITY_WEIGHT) = Some slot"
    using smod_value by blast
  then show ?thesis by (auto simp: global_queue_remove_def Let_def)
qed

lemma inv_global_queue_remove:
  assumes "sched_inv A X s"
  shows "returns (\<lambda>(t, s'). if t = NULL then sched_inv A X s' else sched_inv A (add_mset t X) s' \<and> core_affinity (tcbs s' t) = ANY_CORE)
    (global_queue_remove s)"
proof -
  obtain slot t s' where g: "global_queue_remove s = Some (t, s')"
    "global_remove_first (buckets_in_order (scheduler_priority_order slot))
      (s\<lparr>global_admission_iters := global_admission_iters s + 1\<rparr>) = (t, s')"
    using global_queue_remove_slot[of s] by (metis surj_pair)
  then show ?thesis using inv_global_remove_first[OF _ g(2), of A X] assms by (simp add: inv_admission_iters)
qed

lemma inv_admit_one:
  assumes "sched_inv A X s" "me < MAX_CORES"
  shows "returns (\<lambda>(_, s'). sched_inv A X s') (admit_one_global_thread me s)"
  unfolding admit_one_global_thread_def
  by (rule returns_bind[OF inv_global_queue_remove[OF assms(1)]]) (auto simp: inv_local_add[OF _ assms(2)])

lemma inv_admit_loop: "sched_inv A X s \<Longrightarrow> me < MAX_CORES \<Longrightarrow> returns (sched_inv A X) (admit_loop me n s)"
proof (induction n arbitrary: s)
  case (Suc n)
  show ?case unfolding admit_loop.simps
    by (rule returns_bind[OF inv_admit_one[OF Suc.prems]]) (use Suc in auto)
qed simp

lemma inv_local_remove_first:
  assumes "sched_inv A X s" "me < MAX_CORES" "local_remove_first me bs s = (t, s')"
  shows "if t = NULL then sched_inv A X s' else sched_inv A (add_mset t X) s'"
  using assms(3)
proof (induction bs)
  case Nil
  then show ?case using assms by simp
next
  case (Cons b bs)
  show ?case
  proof (cases "ready_queue (per_core_data s me) b")
    case Nil
    then show ?thesis using Cons by simp
  next
    case c: (Cons u us)
    then show ?thesis using Cons.prems inv_local_pop[OF assms(1,2) c] sched_inv_mem(2)[OF inv_local_pop[OF assms(1,2) c]] by auto
  qed
qed

lemma ready_after_boost:
  assumes "b \<noteq> (priority (tcbs s t), LEVEL_ZERO)" "me < MAX_CORES"
  shows "ready_queue (per_core_data (local_queue_add me t (boost t s)) me) b = ready_queue (per_core_data s me) b"
  using assms by (simp add: local_queue_add_def boost_def upd_tcb_def bucket_of_def)

lemma inv_boost_local:
  "sched_inv A X s \<Longrightarrow> me < MAX_CORES \<Longrightarrow> snd b \<noteq> LEVEL_ZERO \<Longrightarrow> returns (sched_inv A X) (boost_local me b s)"
proof (induction "ready_queue (per_core_data s me) b" arbitrary: s)
  case Nil
  then show ?case by (subst boost_local.simps) (simp add: Nil.hyps[symmetric])
next
  case (Cons t ts)
  have r: "ready_queue (per_core_data s me) b = t # ts" using Cons.hyps(2) by simp
  let ?s = "upd_core me (\<lambda>c. c\<lparr>ready_queue := (ready_queue c)(b := ts)\<rparr>) s"
  have i: "sched_inv A X (local_queue_add me t (boost t ?s))"
    by (intro inv_local_add inv_boost inv_local_pop Cons.prems r)
  have q: "ts = ready_queue (per_core_data (local_queue_add me t (boost t ?s)) me) b"
    using ready_after_boost[of b ?s t me] Cons.prems(2,3) by (cases b) simp
  have "returns (sched_inv A X) (boost_local me b (local_queue_add me t (boost t ?s)))"
    by (rule Cons.hyps(1)[OF q i Cons.prems(2,3)])
  then show ?case by (subst boost_local.simps) (simp add: r)
qed

lemma inv_boost_global:
  "sched_inv A X s \<Longrightarrow> snd b \<noteq> LEVEL_ZERO \<Longrightarrow> returns (sched_inv A X) (boost_global b s)"
proof (induction "global_ready_queue s b" arbitrary: s)
  case Nil
  then show ?case by (subst boost_global.simps) (simp add: Nil.hyps[symmetric])
next
  case (Cons t ts)
  have r: "global_ready_queue s b = t # ts" using Cons.hyps(2) by simp
  let ?s = "s\<lparr>global_ready_queue := (global_ready_queue s)(b := ts)\<rparr>"
  note p = inv_global_pop[OF Cons.prems(1) r]
  have i: "sched_inv A (add_mset t X) (boost t ?s)" by (rule inv_boost[OF p(1)])
  have a: "core_affinity (tcbs (boost t ?s) t) = ANY_CORE" using p(2) by (simp add: boost_def upd_tcb_def)
  have g: "global_ready_queue (boost t ?s) b = ts" "bucket_of (boost t ?s) t \<noteq> b"
    using Cons.prems(2) by (auto simp: boost_def upd_tcb_def bucket_of_def)
  have "returns (sched_inv A X) (global_bucket_add t (boost t ?s) \<bind> boost_global b)"
  proof (rule returns_bind[OF inv_global_add'[OF i a]], elim conjE)
    fix x assume x: "sched_inv A X x" "\<forall>k. k \<noteq> bucket_of (boost t ?s) t \<longrightarrow> global_ready_queue x k = global_ready_queue (boost t ?s) k"
    then have "global_ready_queue x b = ts" using g by metis
    then show "returns (sched_inv A X) (boost_global b x)" using Cons.hyps(1)[of x] x(1) Cons.prems(2) by simp
  qed
  then show ?case by (subst boost_global.simps) (simp add: r)
qed

lemma inv_boost_buckets:
  "sched_inv A X s \<Longrightarrow> me < MAX_CORES \<Longrightarrow> LEVEL_ZERO \<notin> snd ` set bs \<Longrightarrow> returns (sched_inv A X) (boost_buckets me bs s)"
proof (induction bs arbitrary: s)
  case (Cons b bs)
  have b: "snd b \<noteq> LEVEL_ZERO" "LEVEL_ZERO \<notin> snd ` set bs" using Cons.prems(3) by (auto simp: image_iff)
  show ?case unfolding boost_buckets.simps
  proof (rule returns_bind[OF inv_boost_local[OF Cons.prems(1,2) b(1)]])
    fix s1 assume "sched_inv A X s1"
    then have "returns (sched_inv A X) (if me = 0 then boost_global b s1 else Some s1)" using inv_boost_global[OF _ b(1)] by simp
    then show "returns (sched_inv A X) ((if me = 0 then boost_global b s1 else Some s1) \<bind> boost_buckets me bs)"
      by (rule returns_bind) (rule Cons.IH[OF _ Cons.prems(2) b(2)])
  qed
qed simp

lemma inv_mlfq_boost: "sched_inv A X s \<Longrightarrow> me < MAX_CORES \<Longrightarrow> returns (sched_inv A X) (mlfq_boost me s)"
  unfolding mlfq_boost_def by (rule inv_boost_buckets) (auto simp: all_priorities_def)

lemma inv_local_append:
  assumes "sched_inv A (add_mset t X) s" "me < MAX_CORES" "bucket_of s t = b"
  shows "sched_inv A X (upd_core me (\<lambda>c. c\<lparr>ready_queue := (ready_queue c)(b := ready_queue c b @ [t])\<rparr>) s)"
  using inv_local_add[OF assms(1,2)] assms(3) by (simp add: local_queue_add_def)

lemma ready_bucket:
  assumes "sched_inv A X s" "me < MAX_CORES" "ready_queue (per_core_data s me) b = t # ts"
  shows "bucket_of s t = b"
  using placedD(2)[OF _ assms(2), of s t b] assms by (simp add: sched_inv_def)

lemma inv_move_local:
  "sched_inv A X s \<Longrightarrow> me < MAX_CORES \<Longrightarrow> returns (sched_inv A X) (move_local_loop me b n k s)"
proof (induction me b n k s rule: move_local_loop.induct)
  case (1 me b n k s)
  show ?case
  proof (cases "ready_queue (per_core_data s me) b")
    case Nil
    then show ?thesis using 1 by simp
  next
    case (Cons t ts)
    let ?s = "upd_core me (\<lambda>c. c\<lparr>ready_queue := (ready_queue c)(b := ts)\<rparr>) s"
    have i: "sched_inv A (add_mset t X) ?s" by (rule inv_local_pop[OF 1(3,4) Cons])
    have b: "bucket_of ?s t = b" using ready_bucket[OF 1(3,4) Cons] by simp
    show ?thesis
    proof (cases "core_affinity (tcbs ?s t) = ANY_CORE")
      case True
      obtain s1 where "global_bucket_add t ?s = Some s1" "sched_inv A X s1" using inv_global_add[OF i True] by blast
      then show ?thesis using True Cons 1(2)[OF Cons refl, of s1] 1(4) by simp
    next
      case False
      then show ?thesis using 1(1)[OF Cons refl _ inv_local_append[OF i 1(4) b] 1(4)] Cons by simp
    qed
  qed
qed auto

lemma inv_move_global: "sched_inv A X s \<Longrightarrow> me < MAX_CORES \<Longrightarrow> sched_inv A X (move_global_loop me b n s)"
proof (induction n arbitrary: s)
  case (Suc n)
  obtain t s1 where t: "global_bucket_remove b s = (t, s1)" by (cases "global_bucket_remove b s")
  then show ?case using inv_global_remove[OF Suc.prems(1) t] Suc.IH[OF inv_local_append[of A t X s1 me b]] Suc.prems(2)
    by (auto split: if_splits)
qed simp

lemma inv_rebalance: "sched_inv A X s \<Longrightarrow> me < MAX_CORES \<Longrightarrow> returns (sched_inv A X) (rebalance_buckets me bs s)"
proof (induction bs arbitrary: s)
  case (Cons b bs)
  show ?case unfolding rebalance_buckets.simps Let_def
    by (rule returns_bind[where Q="sched_inv A X"])
      (use Cons inv_move_local inv_move_global in \<open>auto simp: move_local_bucket_to_global_def move_global_bucket_to_local_def\<close>)
qed simp


section \<open>Choice and idling\<close>

definition idle :: "nat \<Rightarrow> sched \<Rightarrow> bool" where
  "idle me s \<longleftrightarrow> (\<forall>b. ready_queue (per_core_data s me) b = [] \<and> global_ready_queue s b = [])"

lemma all_buckets: "b \<in> set (buckets_in_order (scheduler_priority_order slot))"
  by (cases b; cases "fst b"; cases "snd b") (auto simp: buckets_in_order_def scheduler_priority_order_def all_levels_def)

lemma local_none:
  assumes "sched_inv A X s" "me < MAX_CORES" "local_remove_first me bs s = (NULL, s')"
  shows "s' = s \<and> (\<forall>b\<in>set bs. ready_queue (per_core_data s me) b = [])"
  using assms(3)
proof (induction bs)
  case (Cons b bs)
  show ?case
  proof (cases "ready_queue (per_core_data s me) b")
    case Nil
    then show ?thesis using Cons by simp
  next
    case c: (Cons u us)
    then show ?thesis using Cons.prems sched_inv_mem(2)[OF inv_local_pop[OF assms(1,2) c]] by simp
  qed
qed simp

lemma global_none:
  assumes "sched_inv A X s" "global_remove_first bs s = (NULL, s')"
  shows "s' = s \<and> (\<forall>b\<in>set bs. global_ready_queue s b = [])"
  using assms
proof (induction bs)
  case (Cons b bs)
  obtain u s1 where u: "global_bucket_remove b s = (u, s1)" by (cases "global_bucket_remove b s")
  then show ?case using inv_global_remove[OF Cons.prems(1) u] Cons by (auto split: if_splits)
qed simp

lemma global_remove_first_cores: "global_remove_first bs s = (t, s') \<Longrightarrow> per_core_data s' = per_core_data s"
proof (induction bs arbitrary: s)
  case (Cons b bs)
  obtain u s1 where u: "global_bucket_remove b s = (u, s1)" by (cases "global_bucket_remove b s")
  then have "per_core_data s1 = per_core_data s" by (auto simp: global_bucket_remove_def split: list.splits)
  then show ?case using Cons u by (auto split: if_splits)
qed simp

lemma admit_one_cases:
  assumes "sched_inv A X s" "me < MAX_CORES" "admit_one_global_thread me s = Some (ok, s')"
  shows "if ok then \<exists>t s1. s' = local_queue_add me t s1 \<and> per_core_data s1 = per_core_data s
    else per_core_data s' = per_core_data s \<and> (\<forall>b. global_ready_queue s' b = [])"
proof -
  let ?s = "s\<lparr>global_admission_iters := global_admission_iters s + 1\<rparr>"
  obtain slot t s1 where g: "global_queue_remove s = Some (t, s1)"
    and r: "global_remove_first (buckets_in_order (scheduler_priority_order slot)) ?s = (t, s1)"
    using global_queue_remove_slot[of s] by (metis surj_pair)
  have ok: "(if t = NULL then (ok, s') = (False, s1) else (ok, s') = (True, local_queue_add me t s1))"
    using assms(3) g by (auto simp: admit_one_global_thread_def split: if_splits)
  have "sched_inv A X ?s" using assms(1) by (simp add: inv_admission_iters)
  then have "\<forall>b. global_ready_queue s1 b = []" if "t = NULL"
    using global_none[of A X ?s "buckets_in_order (scheduler_priority_order slot)" s1] r all_buckets that by simp
  then show ?thesis using ok global_remove_first_cores[OF r] by (simp split: if_splits) blast
qed

lemma local_queue_add_nonempty: "\<exists>b. ready_queue (per_core_data (local_queue_add me t s) me) b \<noteq> []"
  by (rule exI[of _ "bucket_of s t"]) (simp add: local_queue_add_def)

lemma admit_loop_keeps:
  "sched_inv A X s \<Longrightarrow> me < MAX_CORES \<Longrightarrow> admit_loop me n s = Some s' \<Longrightarrow> ready_queue (per_core_data s me) b \<noteq> []
    \<Longrightarrow> ready_queue (per_core_data s' me) b \<noteq> []"
proof (induction n arbitrary: s)
  case (Suc n)
  obtain ok s1 where s1: "admit_one_global_thread me s = Some (ok, s1)" "(if \<not> ok then Some s1 else admit_loop me n s1) = Some s'"
    using Suc.prems(3) by (auto simp: bind_eq_Some_conv)
  have i: "sched_inv A X s1" using inv_admit_one[OF Suc.prems(1,2)] s1(1) by (simp add: returns_def)
  have "ready_queue (per_core_data s1 me) b \<noteq> []"
    using admit_one_cases[OF Suc.prems(1,2) s1(1)] Suc.prems(4) by (auto simp: local_queue_add_def split: if_splits)
  then show ?case using s1(2) Suc.IH[OF i Suc.prems(2)] by (auto split: if_splits)
qed simp

lemma empty_admits_one:
  assumes "\<And>b. ready_queue (per_core_data s me) b = []"
  shows "admit_global_work me s = admit_loop me 1 s"
  using assms by (simp add: admit_global_work_def local_ready_queue_size_def local_bucket_size_def buckets_in_order_def
      all_priorities_def all_levels_def MIN_LOCAL_RUNNABLE_THREADS_def MAX_GLOBAL_ADMISSIONS_PER_PASS_def Let_def)

lemma inv_admit_work: "sched_inv A X s \<Longrightarrow> me < MAX_CORES \<Longrightarrow> returns (sched_inv A X) (admit_global_work me s)"
  unfolding admit_global_work_def Let_def by (rule inv_admit_loop)

lemma inv_local_or_global:
  assumes "sched_inv A X s" "me < MAX_CORES"
  shows "returns (\<lambda>(t, s'). if t = NULL then sched_inv A X s' \<and> idle me s' else sched_inv A (add_mset t X) s')
    (local_or_global_queue_remove me s)"
proof -
  obtain s1 where s1: "admit_global_work me s = Some s1" "sched_inv A X s1" using inv_admit_work[OF assms] by (auto simp: returns_def)
  obtain slot t s2 where t: "local_queue_remove me s1 = (t, s2)"
    "local_remove_first me (buckets_in_order (scheduler_priority_order slot)) s1 = (t, s2)"
    by (cases "local_queue_remove me s1") (auto simp: local_queue_remove_def local_remove_in_priority_order_def Let_def)
  have "idle me s1" if "t = NULL"
  proof -
    have e: "ready_queue (per_core_data s1 me) b = []" for b using local_none[OF s1(2) assms(2)] t(2) that all_buckets by blast
    have e0: "ready_queue (per_core_data s me) b = []" for b
      using admit_loop_keeps[OF assms, of _ s1 b] s1(1) e unfolding admit_global_work_def Let_def by blast
    obtain ok s' where o: "admit_one_global_thread me s = Some (ok, s')" "s1 = s'"
      using s1(1) by (auto simp: empty_admits_one[of s me, OF e0] bind_eq_Some_conv split: if_splits)
    have "\<not> ok" using admit_one_cases[OF assms o(1)] o(2) e local_queue_add_nonempty by metis
    then show ?thesis using admit_one_cases[OF assms o(1)] o(2) e by (simp add: idle_def)
  qed
  then show ?thesis using s1 t inv_local_remove_first[OF s1(2) assms(2) t(2)] local_none[OF s1(2) assms(2), of _ s2]
    by (auto simp: local_or_global_queue_remove_def split: if_splits)
qed

lemma inv_flags:
  assumes "sched_inv A X s" "me < MAX_CORES" "core_mset (g (per_core_data s me)) = core_mset (per_core_data s me)"
    "ready_queue (g (per_core_data s me)) = ready_queue (per_core_data s me)"
  shows "sched_inv A X (upd_core me g s)"
  using inv_core_take[OF assms(1,2), of g "{#}"] assms(3,4) by simp

text \<open>C28. A scheduling pass on a core: started with every thread queued at most once, in the
  bucket of its own priority and feedback level, it fails no assert, returns either one of
  the threads or nothing, loses and duplicates none, leaves the others queued in their own buckets, and
  returns nothing only when this core's ready queues and the shared ones are empty.\<close>

theorem schedule_next_thread_conserves:
  assumes "sched_inv A {#} s" "me < MAX_CORES"
  shows "\<exists>t s'. schedule_next_thread me s = Some (t, s')
    \<and> (if t = NULL then sched_inv A {#} s' \<and> idle me s' else sched_inv A {#t#} s')"
proof -
  let ?I = "sched_inv A {#}"
  have wake: "returns ?I (wake_list me (deferred_interrupt_wake_queue (per_core_data s me))
      (upd_core me (\<lambda>c. c\<lparr>deferred_interrupt_wake_queue := []\<rparr>) s))"
    by (rule inv_wake_list[OF _ assms(2)])
      (use inv_core_take[OF assms, of "\<lambda>c. c\<lparr>deferred_interrupt_wake_queue := []\<rparr>"] in \<open>simp add: core_mset_def\<close>)
  have pin: "?I (fold (local_queue_add me) (pinned_queue (per_core_data x me)) (upd_core me (\<lambda>c. c\<lparr>pinned_queue := []\<rparr>) x))"
    if "?I x" for x
    by (rule inv_fold_local_add[OF _ assms(2)])
      (use inv_core_take[OF that assms(2), of "\<lambda>c. c\<lparr>pinned_queue := []\<rparr>"] in \<open>simp add: core_mset_def\<close>)
  have reb: "returns ?I (if rebalance_pending (per_core_data x me)
      then map_option (upd_core me (\<lambda>c. c\<lparr>rebalance_pending := False\<rparr>)) (rebalance_queues me x) else Some x)" if "?I x" for x
    by (auto simp: rebalance_queues_def core_mset_def that
        intro!: returns_map returns_mono[OF inv_rebalance[OF that assms(2)]] inv_flags[OF _ assms(2)])
  have boo: "returns ?I (if mlfq_boost_pending (per_core_data x me)
      then map_option (upd_core me (\<lambda>c. c\<lparr>mlfq_boost_pending := False\<rparr>)) (mlfq_boost me x) else Some x)" if "?I x" for x
    by (auto simp: core_mset_def that
        intro!: returns_map returns_mono[OF inv_mlfq_boost[OF that assms(2)]] inv_flags[OF _ assms(2)])
  have last: "returns (\<lambda>(t, s'). if t = NULL then ?I s' \<and> idle me s' else sched_inv A {#t#} s')
      (do { (t, x) \<leftarrow> local_or_global_queue_remove me x; Some (t, upd_core me (\<lambda>c. c\<lparr>scheduler_iters := scheduler_iters c + 1\<rparr>) x) })"
    if "?I x" for x
    by (rule returns_bind[OF inv_local_or_global[OF that assms(2)]])
      (auto simp: core_mset_def idle_def intro!: inv_flags[OF _ assms(2)])
  have "returns (\<lambda>(t, s'). if t = NULL then ?I s' \<and> idle me s' else sched_inv A {#t#} s') (schedule_next_thread me s)"
    unfolding schedule_next_thread_def Let_def
    by (intro returns_bind[OF wake] returns_bind[OF inv_wake_sleepers[OF _ assms(2)]] returns_bind[OF reb] returns_bind[OF boo] last pin)
  then show ?thesis by (auto simp: returns_def)
qed

text \<open>A thread that yields, sleeps or is preempted is back in exactly one queue.\<close>

definition runs :: "addr multiset \<Rightarrow> addr \<Rightarrow> nat \<Rightarrow> sched \<Rightarrow> bool" where
  "runs A t me s \<longleftrightarrow> sched_inv A {#t#} s \<and> me < MAX_CORES \<and> current_thread (per_core_data s me) = t
     \<and> idle_thread (per_core_data s me) \<noteq> t \<and> \<not> holds_spinlock (tcbs s t)"

lemma runsD:
  assumes "runs A t me s"
  shows "sched_inv A {#t#} s" "me < MAX_CORES" "current_thread (per_core_data s me) = t" "t \<noteq> idle_thread (per_core_data s me)"
    "\<not> holds_spinlock (tcbs s t)" "t \<noteq> NULL"
  using assms sched_inv_mem(2)[of A t "{#}" s] by (auto simp: runs_def)

lemma runs_upd_tcb:
  assumes "runs A t me s" "\<And>x. core_affinity (g x) = core_affinity x" "\<And>x. holds_spinlock (g x) = holds_spinlock x"
  shows "runs A t me (upd_tcb t g s)"
  using runsD[OF assms(1)] inv_upd_tcb[of A t "{#}" s g] assms(2,3) by (simp add: runs_def) (simp add: upd_tcb_def)

lemma runs_block:
  assumes "runs A t me s" "\<And>s'. sched_inv A {#t#} s' \<Longrightarrow> sched_inv A {#} (func s')"
  shows "returns (sched_inv A {#}) (block me (\<lambda>s. Some (func s)) s)"
proof -
  note r = runsD[OF assms(1)]
  have "sched_inv A {#t#} (upd_core me (\<lambda>c. c\<lparr>current_thread := idle_thread c\<rparr>) s)"
    by (rule inv_flags[OF r(1,2)]) (simp_all add: core_mset_def)
  then show ?thesis using r assms(2) by (simp add: block_def)
qed

lemma inv_sleep_insert:
  assumes "sched_inv A {#t#} s" "me < MAX_CORES"
  shows "sched_inv A {#} (sleep_insert me t s)"
proof -
  let ?g = "\<lambda>c. let early = (\<lambda>u. wakeup_jiffies (tcbs s u) \<le> wakeup_jiffies (tcbs s t))
      in c\<lparr>sleep_queue := takeWhile early (sleep_queue c) @ t # dropWhile early (sleep_queue c)\<rparr>"
  have "core_mset (?g c) = add_mset t (core_mset c)" for c
  proof -
    have "mset (takeWhile P xs) + mset (dropWhile P xs) = mset xs" for P and xs :: "addr list"
      by (metis mset_append takeWhile_dropWhile_id)
    then show ?thesis by (simp add: core_mset_def Let_def)
  qed
  then have "queued (upd_core me ?g s) = add_mset t (queued s)" by (intro queued_push_core[OF assms(2)]) simp
  moreover have "placed (upd_core me ?g s)"
    by (rule placed_transfer[of s]) (use assms in \<open>auto simp: sched_inv_def Let_def split: if_splits\<close>)
  ultimately show ?thesis using assms(1) by (simp add: sched_inv_def sleep_insert_def Let_def)
qed

lemma yield_requeues: "runs A t me s \<Longrightarrow> returns (sched_inv A {#}) (yield me s)"
  unfolding yield_def Let_def scheduler_charge_yield_def
  using runsD(2,3,6) by (auto intro!: runs_block runs_upd_tcb inv_local_add)

lemma sleep_requeues: "runs A t me s \<Longrightarrow> returns (sched_inv A {#}) (sleep me j s)"
  unfolding sleep_def Let_def using runsD(2,3,4) by (auto intro!: runs_block runs_upd_tcb inv_sleep_insert)

lemma pit_keeps_thread:
  "runs A t me s \<Longrightarrow> 0 < me \<Longrightarrow> returns (\<lambda>s'. sched_inv A {#} s' \<or> runs A t me s') (pit_handler me s)"
  unfolding pit_handler_def Let_def
  using runsD(2,3,4,6) by (auto intro!: returns_mono[OF runs_block] runs_upd_tcb inv_local_add)

text \<open>Core 0 with one thread woken by an interrupt and one pinned to it.\<close>

definition two_threads :: sched where
  "two_threads = \<lparr>tcbs = (\<lambda>t. \<lparr>core_affinity = (if t = 8 then 0 else ANY_CORE), priority = NORMAL_PRIORITY,
       mlfq_level = LEVEL_ONE, remaining_quantum = 4, wakeup_jiffies = 0, can_preempt = True, holds_spinlock = False\<rparr>),
     per_core_data = (\<lambda>c. \<lparr>idle_thread = 0x100, current_thread = 0x100, ready_queue = (\<lambda>_. []),
       deferred_interrupt_wake_queue = (if c = 0 then [4] else []), pinned_queue = (if c = 0 then [8] else []), sleep_queue = [],
       scheduler_iters = 0, mlfq_boost_pending = True, rebalance_pending = True\<rparr>),
     global_ready_queue = (\<lambda>_. []), global_admission_iters = 0, num_cores = 4, current_jiffies = 0, ps2_worker_thread = NULL\<rparr>"

lemma two_threads_inv: "sched_inv {#4, 8#} {#} two_threads"
proof -
  have "bucket_mset (\<lambda>_. []) = {#}" by (simp add: bucket_mset_def)
  then have "queued two_threads = {#4, 8#}"
    by (simp add: queued_def core_mset_def two_threads_def MAX_CORES_def lessThan_nat_numeral lessThan_Suc)
  then show ?thesis
    by (auto simp: sched_inv_def placed_def two_threads_def target_ok_def MAX_CORES_def)
qed

theorem schedule_next_thread_conserves_witness:
  "\<exists>t s'. schedule_next_thread 0 two_threads = Some (t, s')
    \<and> (if t = NULL then sched_inv {#4, 8#} {#} s' \<and> idle 0 s' else sched_inv {#4, 8#} {#t#} s')"
  by (rule schedule_next_thread_conserves[OF two_threads_inv]) (simp add: MAX_CORES_def)

text \<open>The weights: in seven consecutive slots the priorities come first four times, twice and once.\<close>

lemma priority_weights:
  "map (\<lambda>slot. hd (scheduler_priority_order slot)) [0, 1, 2, 3, 4, 5, 6]
     = replicate 4 HIGH_PRIORITY @ replicate 2 NORMAL_PRIORITY @ [LOW_PRIORITY]"
  by code_simp

text \<open>The shared admission counter is an \<open>int\<close>.  From its wrap to negative values on, the remainder
  is negative or 0, and a negative one is a large unsigned slot: low priority comes first.\<close>

lemma admission_order_after_wrap:
  "smod 0x80000000 7 = Some 0xFFFFFFFE" "scheduler_priority_order 0xFFFFFFFE = [LOW_PRIORITY, NORMAL_PRIORITY, HIGH_PRIORITY]"
proof -
  show "smod 0x80000000 7 = Some 0xFFFFFFFE" by (simp add: smod_value)
  show "scheduler_priority_order 0xFFFFFFFE = [LOW_PRIORITY, NORMAL_PRIORITY, HIGH_PRIORITY]"
    by (simp add: scheduler_priority_order_def HIGH_PRIORITY_WEIGHT_def MID_PRIORITY_WEIGHT_def)
qed

end
