(* ===== verification/Basm_Scan.thy ===== *)
theory Basm_Scan
  imports Bytes
begin

text \<open>
  The scanner of the assembler \<open>root/basm/assembler.c\<close>: the cursor into a NUL terminated source
  buffer and the functions that consume white space, fixed strings, keywords, identifiers,
  registers and integer literals.  The buffer is the list of its bytes without the terminator;
  reading at its end gives NUL.  Error messages are not modelled, only that there is an error.
\<close>

section \<open>The cursor\<close>

definition str :: "string \<Rightarrow> bytes" where
  "str s = map of_char s"

record cursor =
  cur_before :: bytes
  cur_rest :: bytes

text \<open>\<open>cur_before\<close> holds the consumed bytes, the last one first.\<close>

definition peek :: "nat \<Rightarrow> cursor \<Rightarrow> u8" where
  "peek i c = (if i < length (cur_rest c) then cur_rest c ! i else 0)"

definition advance :: "nat \<Rightarrow> cursor \<Rightarrow> cursor" where
  "advance n c = c\<lparr>cur_before := rev (take n (cur_rest c)) @ cur_before c, cur_rest := drop n (cur_rest c)\<rparr>"

datatype consume_result = ERROR | NOT_FOUND | FOUND

section \<open>Character classes\<close>

definition isdigit :: "u8 \<Rightarrow> bool" where "isdigit c \<longleftrightarrow> c \<ge> 48 \<and> c \<le> 57"
definition isalpha :: "u8 \<Rightarrow> bool" where "isalpha c \<longleftrightarrow> (c \<ge> 65 \<and> c \<le> 90) \<or> (c \<ge> 97 \<and> c \<le> 122)"
definition isalnum :: "u8 \<Rightarrow> bool" where "isalnum c \<longleftrightarrow> isdigit c \<or> isalpha c"
definition isspace :: "u8 \<Rightarrow> bool" where
  "isspace c \<longleftrightarrow> c = 32 \<or> c = 9 \<or> c = 10 \<or> c = 13 \<or> c = 11 \<or> c = 12"
definition is_identifier_char :: "u8 \<Rightarrow> bool" where
  "is_identifier_char c \<longleftrightarrow> isalnum c \<or> c = 95 \<or> c = 46"
definition is_identifier_body_char :: "u8 \<Rightarrow> bool" where
  "is_identifier_body_char c \<longleftrightarrow> isalnum c \<or> c = 95 \<or> c = 46"

section \<open>Skipping and fixed strings\<close>

definition skippable :: "u8 \<Rightarrow> bool" where
  "skippable c \<longleftrightarrow> (isspace c \<and> c \<noteq> 10) \<or> c = 44 \<or> c = 59"

definition skip :: "cursor \<Rightarrow> cursor" where
  "skip c = advance (length (takeWhile skippable (cur_rest c))) c"

text \<open>The comparison loop of \<open>consume\<close> and of \<open>strncmp\<close> stops at the first difference or at the
  end of the expected string.\<close>

definition at_string :: "bytes \<Rightarrow> cursor \<Rightarrow> bool" where
  "at_string s c \<longleftrightarrow> take (length s) (cur_rest c) = s"

definition consume :: "bytes \<Rightarrow> cursor \<Rightarrow> bool \<times> cursor" where
  "consume s c = (let c = skip c in if at_string s c then (True, advance (length s) c) else (False, c))"

definition consume_keyword :: "bytes \<Rightarrow> cursor \<Rightarrow> bool \<times> cursor" where
  "consume_keyword s c =
     (if cur_before c \<noteq> [] \<and> is_identifier_body_char (hd (cur_before c)) then (False, c)
      else if \<not> at_string s c then (False, c)
      else let found = peek (length s) c in
        if isspace found \<or> found = 0 \<or> found = 44 \<or> found = 59 \<or> found = 58
        then (True, advance (length s) c) else (False, c))"

definition consume_identifier :: "cursor \<Rightarrow> bytes option \<times> cursor" where
  "consume_identifier c =
     (let c = skip c in
      if isalpha (peek 0 c) \<or> peek 0 c = 95 then
        let i = 1 + length (takeWhile is_identifier_body_char (tl (cur_rest c)))
        in (Some (take i (cur_rest c)), advance i c)
      else (None, c))"

definition consume_label :: "cursor \<Rightarrow> bytes option \<times> cursor" where
  "consume_label c =
     (let c = skip c; (label, c1) = consume_identifier c; (colon, c2) = consume (str '':'') c1
      in if colon then (label, c2) else (None, c))"

definition skip_label :: "cursor \<Rightarrow> bool \<times> cursor" where
  "skip_label c =
     (let c = skip c; (label, c1) = consume_identifier c
      in if label \<noteq> None then (let (colon, c2) = consume (str '':'') c1 in if colon then (True, c2) else (False, c)) else (False, c))"

section \<open>Registers\<close>

definition consume_named_register :: "bytes \<Rightarrow> cursor \<Rightarrow> bool \<times> cursor" where
  "consume_named_register name c =
     (if at_string name c \<and> \<not> is_identifier_char (peek (length name) c) then (True, advance (length name) c) else (False, c))"

text \<open>The value of a run of digits; \<open>int\<close> arithmetic wraps.\<close>

definition digits_value :: "u32 \<Rightarrow> (u8 \<Rightarrow> u32) \<Rightarrow> bytes \<Rightarrow> u32" where
  "digits_value base dval ds = foldl (\<lambda>v c. base * v + dval c) 0 ds"

definition dec_digit :: "u8 \<Rightarrow> u32" where "dec_digit c = ucast c - 48"

text \<open>A run of decimal digits after a prefix of \<open>k\<close> characters, with a largest number \<open>limit\<close>.\<close>

definition numbered_register :: "nat \<Rightarrow> int \<Rightarrow> cursor \<Rightarrow> u32 \<times> cursor" where
  "numbered_register k limit c =
     (let ds = takeWhile isdigit (drop k (cur_rest c)); v = digits_value 10 dec_digit ds; i = k + length ds in
      if sint v > limit \<or> is_identifier_char (peek i c) then (- 1, c) else (v, advance i c))"

definition consume_register :: "cursor \<Rightarrow> u32 \<times> cursor" where
  "consume_register c =
     (let c = skip c; (sp, c1) = consume_named_register (str ''sp'') c in
      if sp then (31, c1)
      else let (bp, c1) = consume_named_register (str ''bp'') c in
      if bp then (30, c1)
      else let (ra, c1) = consume_named_register (str ''ra'') c in
      if ra then (29, c1)
      else if peek 0 c = 114 \<and> isdigit (peek 1 c) then numbered_register 1 31 c
      else (- 1, c))"

text \<open>The named control registers, in the order in which they are tried.\<close>

definition control_names :: "(bytes \<times> u32) list" where
  "control_names = [(str ''psr'', 0), (str ''pid'', 1), (str ''isr'', 2), (str ''imr'', 3), (str ''epc'', 4), (str ''flg'', 5), (str ''efg'', 6),
     (str ''tlba'', 7), (str ''ksp'', 8), (str ''cid'', 9), (str ''mbi'', 10), (str ''mbo'', 11), (str ''tlbf'', 12)]"

fun try_names :: "(bytes \<times> u32) list \<Rightarrow> cursor \<Rightarrow> u32 \<times> cursor" where
  "try_names [] c = (- 1, c)"
| "try_names ((name, v) # rest) c = (let (ok, c1) = consume_named_register name c in if ok then (v, c1) else try_names rest c)"

definition consume_control_register :: "cursor \<Rightarrow> u32 \<times> cursor" where
  "consume_control_register c =
     (let c = skip c in
      if peek 0 c = 99 \<and> peek 1 c = 114 \<and> isdigit (peek 2 c) then numbered_register 2 12 c
      else try_names control_names c)"

section \<open>Literals\<close>

definition hex_digit :: "u8 \<Rightarrow> u32" where
  "hex_digit c = (if isdigit c then ucast c - 48 else if c \<ge> 65 \<and> c \<le> 70 then ucast c - 65 + 10 else ucast c - 97 + 10)"

definition ishex :: "u8 \<Rightarrow> bool" where
  "ishex c \<longleftrightarrow> isdigit c \<or> (c \<ge> 65 \<and> c \<le> 70) \<or> (c \<ge> 97 \<and> c \<le> 102)"

text \<open>The digit loop of the binary, octal and hexadecimal literals: it runs over the characters
  \<open>run\<close>, an illegal digit is an error at that digit, and so is an empty run.\<close>

definition based_literal :: "u32 \<Rightarrow> (u8 \<Rightarrow> bool) \<Rightarrow> (u8 \<Rightarrow> bool) \<Rightarrow> (u8 \<Rightarrow> u32) \<Rightarrow> bool \<Rightarrow> cursor \<Rightarrow> consume_result \<times> u32 \<times> cursor" where
  "based_literal base run legal dval negate c =
     (let ds = takeWhile run (cur_rest c); ok = takeWhile legal ds in
      if length ok < length ds then (ERROR, 0, advance (length ok) c)
      else if ds = [] then (ERROR, 0, c)
      else let v = digits_value base dval ds in (FOUND, if negate then v * - 1 else v, advance (length ds) c))"

definition consume_literal :: "cursor \<Rightarrow> consume_result \<times> u32 \<times> cursor" where
  "consume_literal c0 =
     (let old = skip c0;
          negate = (peek 0 old = 45);
          c = (if negate then skip (advance 1 old) else old)
      in if peek 0 c = 48 \<and> (isspace (peek 1 c) \<or> peek 1 c = 0 \<or> peek 1 c = 93 \<or> peek 1 c = 35)
      then (FOUND, 0, advance 1 c)
      else if isdigit (peek 0 c) \<and> peek 0 c \<noteq> 48 then
        (let ds = takeWhile isdigit (cur_rest c); v = digits_value 10 dec_digit ds
         in (FOUND, if negate then v * - 1 else v, advance (length ds) c))
      else if peek 0 c = 48 \<and> (peek 1 c = 98 \<or> peek 1 c = 66) then
        based_literal 2 isdigit (\<lambda>d. d \<le> 49) dec_digit negate (advance 2 c)
      else if peek 0 c = 48 \<and> (peek 1 c = 111 \<or> peek 1 c = 79) then
        based_literal 8 isdigit (\<lambda>d. d \<le> 55) dec_digit negate (advance 2 c)
      else if peek 0 c = 48 \<and> (peek 1 c = 120 \<or> peek 1 c = 88) then
        based_literal 16 isalnum ishex hex_digit negate (advance 2 c)
      else (NOT_FOUND, 0, old))"

end
