(* ===== verification/Basm_Map.thy ===== *)
theory Basm_Map
  imports Bytes
begin

text \<open>
  The symbol tables of the assembler, \<open>root/basm/hashmap.c\<close> and \<open>root/basm/slice.c\<close>: chained hash
  tables from names to labels and constants.  A slice is the list of its bytes.  Shown: a table
  implements a finite map from names to entries.
\<close>

definition compare_slice_to_slice :: "bytes \<Rightarrow> bytes \<Rightarrow> bool" where
  "compare_slice_to_slice self other \<longleftrightarrow>
     length self = length other \<and> list_all (\<lambda>i. other ! i = self ! i) [0..<length self]"

definition hash_slice :: "bytes \<Rightarrow> u32" where
  "hash_slice key = foldl (\<lambda>h c. h * 33 + ucast c) 5381 key"

record basm_entry =
  be_key :: bytes
  be_value :: u32
  be_defined :: bool
  be_data :: bool
  be_section :: u32
  be_relative :: bool

record basm_map =
  bm_size :: u32
  bm_arr :: "basm_entry list list"

definition create_hash_map :: "u32 \<Rightarrow> basm_map" where
  "create_hash_map num_buckets = \<lparr>bm_size = num_buckets, bm_arr = replicate (unat num_buckets) []\<rparr>"

definition set_entry_section_info :: "u32 \<Rightarrow> bool \<Rightarrow> basm_entry \<Rightarrow> basm_entry" where
  "set_entry_section_info section_index is_section_relative e = e\<lparr>be_section := section_index, be_relative := is_section_relative\<rparr>"

definition basm_create_entry :: "bytes \<Rightarrow> u32 \<Rightarrow> bool \<Rightarrow> bool \<Rightarrow> u32 \<Rightarrow> bool \<Rightarrow> basm_entry" where
  "basm_create_entry key val is_def is_data section_index is_section_relative =
     \<lparr>be_key = key, be_value = val, be_defined = is_def, be_data = is_data, be_section = section_index, be_relative = is_section_relative\<rparr>"

text \<open>A chain is the list of its entries; the recursions start at its head.\<close>

fun basm_entry_insert :: "basm_entry list \<Rightarrow> bytes \<Rightarrow> u32 \<Rightarrow> bool \<Rightarrow> bool \<Rightarrow> u32 \<Rightarrow> bool \<Rightarrow> basm_entry list" where
  "basm_entry_insert [] key val is_def is_data sec rel = [basm_create_entry key val is_def is_data sec rel]"
| "basm_entry_insert (e # es) key val is_def is_data sec rel =
     (if compare_slice_to_slice (be_key e) key
      then set_entry_section_info sec rel (e\<lparr>be_value := val, be_defined := is_def, be_data := is_data\<rparr>) # es
      else e # basm_entry_insert es key val is_def is_data sec rel)"

definition bucket_of :: "basm_map \<Rightarrow> bytes \<Rightarrow> nat option" where
  "bucket_of h key = (if bm_size h = 0 then None else Some (unat (hash_slice key mod bm_size h)))"

definition hash_map_insert_with_section :: "basm_map \<Rightarrow> bytes \<Rightarrow> u32 \<Rightarrow> bool \<Rightarrow> bool \<Rightarrow> u32 \<Rightarrow> bool \<Rightarrow> basm_map option" where
  "hash_map_insert_with_section h key val is_def is_data sec rel = do {
     i \<leftarrow> bucket_of h key;
     Some (h\<lparr>bm_arr := (bm_arr h)[i := basm_entry_insert (bm_arr h ! i) key val is_def is_data sec rel]\<rparr>)
   }"

definition basm_map_insert :: "basm_map \<Rightarrow> bytes \<Rightarrow> u32 \<Rightarrow> bool \<Rightarrow> bool \<Rightarrow> basm_map option" where
  "basm_map_insert h key val is_def is_data = hash_map_insert_with_section h key val is_def is_data (- 1) False"

fun basm_entry_get :: "basm_entry list \<Rightarrow> bytes \<Rightarrow> u32" where
  "basm_entry_get [] key = 0"
| "basm_entry_get (e # es) key = (if compare_slice_to_slice (be_key e) key then be_value e else basm_entry_get es key)"

fun find_hash_entry :: "basm_entry list \<Rightarrow> bytes \<Rightarrow> basm_entry option" where
  "find_hash_entry [] key = None"
| "find_hash_entry (e # es) key = (if compare_slice_to_slice (be_key e) key then Some e else find_hash_entry es key)"

fun basm_entry_contains :: "basm_entry list \<Rightarrow> bytes \<Rightarrow> bool" where
  "basm_entry_contains [] key = False"
| "basm_entry_contains (e # es) key = (if compare_slice_to_slice (be_key e) key then True else basm_entry_contains es key)"

fun hash_entry_contains_def :: "basm_entry list \<Rightarrow> bytes \<Rightarrow> bool" where
  "hash_entry_contains_def [] key = False"
| "hash_entry_contains_def (e # es) key =
     (if compare_slice_to_slice (be_key e) key \<and> be_defined e then True else hash_entry_contains_def es key)"

definition basm_map_get :: "basm_map \<Rightarrow> bytes \<Rightarrow> u32 option" where
  "basm_map_get h key = do { i \<leftarrow> bucket_of h key; Some (basm_entry_get (bm_arr h ! i) key) }"

definition hash_map_find_entry :: "basm_map \<Rightarrow> bytes \<Rightarrow> basm_entry option option" where
  "hash_map_find_entry h key = do { i \<leftarrow> bucket_of h key; Some (find_hash_entry (bm_arr h ! i) key) }"

definition basm_map_contains :: "basm_map \<Rightarrow> bytes \<Rightarrow> bool option" where
  "basm_map_contains h key = do { i \<leftarrow> bucket_of h key; Some (basm_entry_contains (bm_arr h ! i) key) }"

definition label_has_definition :: "basm_map \<Rightarrow> bytes \<Rightarrow> bool option" where
  "label_has_definition h key = do { i \<leftarrow> bucket_of h key; Some (hash_entry_contains_def (bm_arr h ! i) key) }"

fun make_entry_defined :: "basm_entry list \<Rightarrow> bytes \<Rightarrow> u32 \<Rightarrow> u32 \<Rightarrow> bool \<Rightarrow> basm_entry list option" where
  "make_entry_defined [] key val sec rel = None"
| "make_entry_defined (e # es) key val sec rel =
     (if compare_slice_to_slice (be_key e) key
      then Some (set_entry_section_info sec rel (e\<lparr>be_defined := True, be_value := val\<rparr>) # es)
      else do { es' \<leftarrow> make_entry_defined es key val sec rel; Some (e # es') })"

definition make_defined_with_section :: "basm_map \<Rightarrow> bytes \<Rightarrow> u32 \<Rightarrow> u32 \<Rightarrow> bool \<Rightarrow> basm_map option" where
  "make_defined_with_section h key val sec rel = do {
     i \<leftarrow> bucket_of h key;
     es \<leftarrow> make_entry_defined (bm_arr h ! i) key val sec rel;
     Some (h\<lparr>bm_arr := (bm_arr h)[i := es]\<rparr>)
   }"

definition make_defined :: "basm_map \<Rightarrow> bytes \<Rightarrow> u32 \<Rightarrow> basm_map option" where
  "make_defined h key val = make_defined_with_section h key val (- 1) False"


section \<open>A table is a finite map\<close>

lemma compare_slice_eq [simp]: "compare_slice_to_slice a b \<longleftrightarrow> a = b"
  by (auto simp: compare_slice_to_slice_def list_all_iff intro!: nth_equalityI)

definition table_inv :: "basm_map \<Rightarrow> bool" where
  "table_inv h \<longleftrightarrow> bm_size h \<noteq> 0 \<and> length (bm_arr h) = unat (bm_size h) \<and> (\<forall>i < length (bm_arr h). distinct (map be_key (bm_arr h ! i)))"

definition table_map :: "basm_map \<Rightarrow> bytes \<Rightarrow> basm_entry option" where
  "table_map h key = find_hash_entry (bm_arr h ! unat (hash_slice key mod bm_size h)) key"

lemma bucket_of_inv:
  assumes "table_inv h"
  shows "bucket_of h key = Some (unat (hash_slice key mod bm_size h))" "unat (hash_slice key mod bm_size h) < length (bm_arr h)"
proof -
  have "0 < unat (bm_size h)" using assms by (simp add: table_inv_def unat_gt_0)
  then show "unat (hash_slice key mod bm_size h) < length (bm_arr h)" using assms by (simp add: table_inv_def unat_mod)
  show "bucket_of h key = Some (unat (hash_slice key mod bm_size h))" using assms by (simp add: table_inv_def bucket_of_def)
qed

lemma find_key: "find_hash_entry es key = Some e \<Longrightarrow> be_key e = key"
  by (induction es) (auto split: if_splits)

lemma find_None: "find_hash_entry es key = None \<longleftrightarrow> key \<notin> be_key ` set es"
  by (induction es) auto

lemma entry_gets:
  "basm_entry_get es key = (case find_hash_entry es key of None \<Rightarrow> 0 | Some e \<Rightarrow> be_value e)"
  "basm_entry_contains es key \<longleftrightarrow> find_hash_entry es key \<noteq> None"
  by (induction es) auto

lemma entry_contains_def:
  "distinct (map be_key es) \<Longrightarrow> hash_entry_contains_def es key \<longleftrightarrow> (case find_hash_entry es key of None \<Rightarrow> False | Some e \<Rightarrow> be_defined e)"
proof (induction es)
  case (Cons e es)
  have "\<not> hash_entry_contains_def es key" if "key \<notin> be_key ` set es" using that by (induction es) auto
  then show ?case using Cons by auto
qed simp

lemma entry_insert:
  "find_hash_entry (basm_entry_insert es key v d a s r) k = (if k = key then Some (basm_create_entry key v d a s r) else find_hash_entry es k)"
  "be_key ` set (basm_entry_insert es key v d a s r) = insert key (be_key ` set es)"
  "distinct (map be_key es) \<Longrightarrow> distinct (map be_key (basm_entry_insert es key v d a s r))"
proof (induction es)
  case (Cons e es)
  {
    case 1
    show ?case using Cons by (auto simp: basm_create_entry_def set_entry_section_info_def)
  next
    case 2
    show ?case using Cons by (auto simp: set_entry_section_info_def)
  next
    case 3
    then show ?case using Cons by (auto simp: set_entry_section_info_def)
  }
qed (auto simp: basm_create_entry_def)

lemma table_insert:
  assumes "table_inv h"
  obtains h' where "hash_map_insert_with_section h key v d a s r = Some h'" "table_inv h'"
    "table_map h' = (table_map h)(key \<mapsto> basm_create_entry key v d a s r)" "bm_size h' = bm_size h"
proof -
  note B = bucket_of_inv[OF assms, of key]
  let ?i = "unat (hash_slice key mod bm_size h)"
  let ?h = "h\<lparr>bm_arr := (bm_arr h)[?i := basm_entry_insert (bm_arr h ! ?i) key v d a s r]\<rparr>"
  have "table_inv ?h" using assms B(2) entry_insert(3) by (auto simp: table_inv_def nth_list_update)
  moreover have "table_map ?h k = ((table_map h)(key \<mapsto> basm_create_entry key v d a s r)) k" for k
    using B(2) by (auto simp: table_map_def nth_list_update entry_insert(1))
  ultimately show thesis using B(1) by (intro that[of ?h]) (auto simp: hash_map_insert_with_section_def)
qed

lemma entry_defined:
  "make_entry_defined es key v s r = None \<longleftrightarrow> find_hash_entry es key = None"
  "make_entry_defined es key v s r = Some es' \<Longrightarrow> map be_key es' = map be_key es \<and>
     find_hash_entry es' k = (if k = key then map_option (\<lambda>e. set_entry_section_info s r (e\<lparr>be_defined := True, be_value := v\<rparr>)) (find_hash_entry es k)
       else find_hash_entry es k)"
proof -
  show "make_entry_defined es key v s r = None \<longleftrightarrow> find_hash_entry es key = None" by (induction es) (auto split: bind_splits)
  show "make_entry_defined es key v s r = Some es' \<Longrightarrow> map be_key es' = map be_key es \<and>
     find_hash_entry es' k = (if k = key then map_option (\<lambda>e. set_entry_section_info s r (e\<lparr>be_defined := True, be_value := v\<rparr>)) (find_hash_entry es k)
       else find_hash_entry es k)"
    by (induction es arbitrary: es') (auto simp: set_entry_section_info_def split: if_splits bind_splits)
qed

text \<open>
  C40. A symbol table of the assembler is a finite map: insertion overwrites or adds exactly its key,
  a lookup returns the value of the key or 0, the two membership tests tell whether the key is
  there and whether it is defined, and marking a key as defined fails its assert exactly when the
  key is missing.
\<close>

theorem symbol_table_is_map:
  assumes "table_inv h"
  shows "\<exists>h'. hash_map_insert_with_section h key v d a s r = Some h' \<and> table_inv h'
      \<and> table_map h' = (table_map h)(key \<mapsto> basm_create_entry key v d a s r)
    \<and> basm_map_get h k = Some (case table_map h k of None \<Rightarrow> 0 | Some e \<Rightarrow> be_value e)
    \<and> basm_map_contains h k = Some (k \<in> dom (table_map h))
    \<and> label_has_definition h k = Some (case table_map h k of None \<Rightarrow> False | Some e \<Rightarrow> be_defined e)
    \<and> (case table_map h key of None \<Rightarrow> make_defined_with_section h key v s r = None
       | Some e \<Rightarrow> \<exists>h2. make_defined_with_section h key v s r = Some h2 \<and> table_inv h2
           \<and> table_map h2 = (table_map h)(key \<mapsto> set_entry_section_info s r (e\<lparr>be_defined := True, be_value := v\<rparr>)))"
proof -
  obtain h' where h': "hash_map_insert_with_section h key v d a s r = Some h'" "table_inv h'"
    "table_map h' = (table_map h)(key \<mapsto> basm_create_entry key v d a s r)" using table_insert[OF assms] .
  note B = bucket_of_inv[OF assms]
  let ?i = "unat (hash_slice key mod bm_size h)"
  have dk: "distinct (map be_key (bm_arr h ! unat (hash_slice k mod bm_size h)))" using assms B(2)[of k] by (simp add: table_inv_def)
  have look: "basm_map_get h k = Some (case table_map h k of None \<Rightarrow> 0 | Some e \<Rightarrow> be_value e)"
    "basm_map_contains h k = Some (k \<in> dom (table_map h))"
    "label_has_definition h k = Some (case table_map h k of None \<Rightarrow> False | Some e \<Rightarrow> be_defined e)"
    using B(1) by (simp_all add: basm_map_get_def basm_map_contains_def label_has_definition_def table_map_def entry_gets entry_contains_def[OF dk] dom_def)
  have mark: "case table_map h key of None \<Rightarrow> make_defined_with_section h key v s r = None
     | Some e \<Rightarrow> \<exists>h2. make_defined_with_section h key v s r = Some h2 \<and> table_inv h2
         \<and> table_map h2 = (table_map h)(key \<mapsto> set_entry_section_info s r (e\<lparr>be_defined := True, be_value := v\<rparr>))"
  proof (cases "make_entry_defined (bm_arr h ! ?i) key v s r")
    case None
    then have "find_hash_entry (bm_arr h ! ?i) key = None" using entry_defined(1) by blast
    then show ?thesis using B(1) None by (simp add: make_defined_with_section_def table_map_def)
  next
    case (Some es)
    let ?h = "h\<lparr>bm_arr := (bm_arr h)[?i := es]\<rparr>"
    note E = entry_defined(2)[OF Some]
    have "find_hash_entry (bm_arr h ! ?i) key \<noteq> None" using Some entry_defined(1)[of "bm_arr h ! ?i" key v s r] by simp
    then obtain e where e: "find_hash_entry (bm_arr h ! ?i) key = Some e" by blast
    have "table_inv ?h" using assms B(2)[of key] E by (auto simp: table_inv_def nth_list_update)
    moreover have "table_map ?h k = ((table_map h)(key \<mapsto> set_entry_section_info s r (e\<lparr>be_defined := True, be_value := v\<rparr>))) k" for k
      using B(2)[of key] E[of k] e by (auto simp: table_map_def nth_list_update)
    ultimately show ?thesis using B(1) Some e by (auto simp: make_defined_with_section_def table_map_def)
  qed
  show ?thesis using h' look mark by blast
qed

theorem symbol_table_is_map_witness:
  "\<exists>h'. hash_map_insert_with_section (create_hash_map 4) [97] 7 True False 0 True = Some h'
     \<and> table_map h' = [[97] \<mapsto> basm_create_entry [97] 7 True False 0 True]"
proof -
  have i: "table_inv (create_hash_map 4)" by (simp add: table_inv_def create_hash_map_def)
  have "unat (hash_slice k mod 4) < 4" for k by (simp add: unat_mod)
  then have "table_map (create_hash_map 4) = Map.empty" by (auto simp: table_map_def create_hash_map_def fun_eq_iff)
  then show ?thesis using symbol_table_is_map[OF i, of "[97]" 7 True False 0 True "[]"] by auto
qed

end
