(* ===== verification/Basm_Encode.thy ===== *)
theory Basm_Encode
  imports Basm_Scan Basm_Map
begin

text \<open>
  Instructions of the assembler \<open>root/basm/assembler.c\<close>: operands, immediates and the 32-bit
  instruction words.  The variable \<open>success\<close> of the source is the boolean beside the word; the environment holds the
  variables that the functions read.  A failed assert of the assembler is \<^const>\<open>None\<close>.
\<close>

section \<open>Labels and immediates\<close>

record asm_env =
  env_kernel :: bool
  env_pass :: nat
  env_pc :: u32
  env_defines :: basm_map
  env_labels :: basm_map
  env_local_globals :: basm_map
  env_global_labels :: basm_map

definition consume_label_imm :: "asm_env \<Rightarrow> cursor \<Rightarrow> (consume_result \<times> u32 \<times> cursor) option" where
  "consume_label_imm e c = (let (label, c) = consume_identifier c in
     case label of None \<Rightarrow> Some (NOT_FOUND, 0, c)
     | Some l \<Rightarrow>
       if env_pass e = 1 then Some (FOUND, 0, c)
       else do {
         here \<leftarrow> label_has_definition (env_labels e) l;
         elsewhere \<leftarrow> label_has_definition (env_global_labels e) l;
         defined \<leftarrow> basm_map_contains (env_defines e) l;
         if here then do {
           v \<leftarrow> basm_map_get (env_labels e) l;
           let imm = v - env_pc e - 4;
           glob \<leftarrow> basm_map_contains (env_local_globals e) l;
           g \<leftarrow> basm_map_get (env_global_labels e) l;
           kassert (\<not> (glob \<and> elsewhere) \<or> imm = g - env_pc e - 4);
           Some (FOUND, imm, c)
         } else if elsewhere then do {
           g \<leftarrow> basm_map_get (env_global_labels e) l;
           Some (FOUND, g - env_pc e - 4, c)
         } else if defined then do {
           v \<leftarrow> basm_map_get (env_defines e) l;
           Some (FOUND, v, c)
         } else Some (ERROR, 0, c)
       })"

definition consume_immediate :: "asm_env \<Rightarrow> cursor \<Rightarrow> (consume_result \<times> u32 \<times> cursor) option" where
  "consume_immediate e c = do {
     (result, imm, c) \<leftarrow> consume_label_imm e c;
     Some (if result = NOT_FOUND then consume_literal c else (result, imm, c))
   }"

section \<open>Encodings of immediates\<close>

definition encode_bitwise_immediate :: "u32 \<Rightarrow> u32 \<times> bool" where
  "encode_bitwise_immediate imm =
     (if imm = imm AND 0xFF then (imm, True)
      else if imm = imm AND 0xFF00 then (signed_drop_bit 8 imm OR push_bit 8 1, True)
      else if imm = imm AND 0xFF0000 then (signed_drop_bit 16 imm OR push_bit 8 2, True)
      else if imm = imm AND 0xFF000000 then (signed_drop_bit 24 imm OR push_bit 8 3, True)
      else (0, False))"

definition encode_shift_immediate :: "u32 \<Rightarrow> u32 \<times> bool" where
  "encode_shift_immediate imm = (if 0 \<le> sint imm \<and> sint imm < 32 then (imm, True) else (0, False))"

definition encode_arithmetic_immediate :: "u32 \<Rightarrow> u32 \<times> bool" where
  "encode_arithmetic_immediate imm = (if - (2 ^ 11) \<le> sint imm \<and> sint imm < 2 ^ 11 then (imm AND 0xFFF, True) else (0, False))"

definition encode_lui_immediate :: "u32 \<Rightarrow> u32 \<times> bool" where
  "encode_lui_immediate imm = (if imm AND 0x3FF = 0 then (signed_drop_bit 10 imm AND 0x3FFFFF, True) else (0, False))"

definition encode_absolute_memory_immediate :: "u32 \<Rightarrow> u32 \<times> bool" where
  "encode_absolute_memory_immediate imm =
     (if imm = imm AND 0x7FF \<or> NOT imm = NOT imm AND 0x7FF then (imm AND 0xFFF, True)
      else if (imm = imm AND 0xFFF \<or> NOT imm = NOT imm AND 0xFFF) \<and> imm AND 1 = 0
      then ((signed_drop_bit 1 imm AND 0xFFF) OR push_bit 12 1, True)
      else if (imm = imm AND 0x1FFF \<or> NOT imm = NOT imm AND 0x1FFF) \<and> imm AND 3 = 0
      then ((signed_drop_bit 2 imm AND 0xFFF) OR push_bit 12 2, True)
      else if (imm = imm AND 0x3FFF \<or> NOT imm = NOT imm AND 0x3FFF) \<and> imm AND 7 = 0
      then ((signed_drop_bit 3 imm AND 0xFFF) OR push_bit 12 3, True)
      else (0, False))"

definition encode_relative_memory_immediate :: "u32 \<Rightarrow> u32 \<times> bool" where
  "encode_relative_memory_immediate imm = (if - (2 ^ 15) \<le> sint imm \<and> sint imm < 2 ^ 15 then (imm AND 0xFFFF, True) else (0, False))"

definition encode_long_relative_memory_immediate :: "u32 \<Rightarrow> u32 \<times> bool" where
  "encode_long_relative_memory_immediate imm =
     (if - (2 ^ 20) \<le> sint imm \<and> sint imm < 2 ^ 20 then (imm AND 0x1FFFFF, True) else (0, False))"

definition encode_branch_immediate :: "u32 \<Rightarrow> u32 \<times> bool" where
  "encode_branch_immediate imm =
     (if - (2 ^ 23) \<le> sint imm \<and> sint imm < 2 ^ 23 \<and> imm AND 3 = 0 then (signed_drop_bit 2 imm AND 0x3FFFFF, True) else (0, False))"

definition encode_adpc_immediate :: "u32 \<Rightarrow> u32 \<times> bool" where
  "encode_adpc_immediate imm = (if - (2 ^ 21) \<le> sint imm \<and> sint imm < 2 ^ 21 then (imm AND 0x3FFFFF, True) else (0, False))"

definition encode_short_atomic_immediate :: "u32 \<Rightarrow> u32 \<times> bool" where
  "encode_short_atomic_immediate imm = (if - (2 ^ 11) \<le> sint imm \<and> sint imm < 2 ^ 11 then (imm AND 0xFFF, True) else (0, False))"

definition encode_long_atomic_immediate :: "u32 \<Rightarrow> u32 \<times> bool" where
  "encode_long_atomic_immediate imm = (if - (2 ^ 16) \<le> sint imm \<and> sint imm < 2 ^ 16 then (imm AND 0x1FFFF, True) else (0, False))"

section \<open>Instructions\<close>

type_synonym instruction = "((u32 \<times> bool) \<times> cursor) option"

text \<open>\<open>*success = false; return 0;\<close>\<close>

definition reject :: "cursor \<Rightarrow> instruction" where
  "reject c = Some ((0, False), c)"

definition consume_alu_op :: "asm_env \<Rightarrow> u32 \<Rightarrow> cursor \<Rightarrow> instruction" where
  "consume_alu_op e alu_op c = do {
     kassert (0 \<le> sint alu_op \<and> sint alu_op < 32);
     let (ra, c) = consume_register c;
     if ra = - 1 then reject c
     else do {
       let (rb, c) = (if alu_op \<noteq> 6 \<and> alu_op \<noteq> 18 \<and> alu_op \<noteq> 19 \<and> alu_op \<noteq> 20 \<and> alu_op \<noteq> 21 then consume_register c else (0, c));
       if rb = - 1 then reject c
       else do {
         let (rc, c) = consume_register c;
         if rc = - 1 then do {
           (result, imm, c) \<leftarrow> consume_immediate e c;
           if result \<noteq> FOUND then reject c
           else do {
             let instruction = push_bit 27 1 OR push_bit 22 ra OR push_bit 17 rb OR push_bit 12 alu_op;
             if alu_op < 19 then do {
               let (encoding, ok) = (if alu_op < 7 then encode_bitwise_immediate imm
                 else if alu_op < 14 then encode_shift_immediate imm
                 else encode_arithmetic_immediate imm);
               kassert (encoding = encoding AND 0xFFF);
               Some ((instruction OR encoding, ok), c)
             } else reject c
           }
         } else Some ((push_bit 22 ra OR push_bit 17 rb OR rc OR push_bit 5 alu_op, True), c)
       }
     }
   }"

definition consume_cmp :: "asm_env \<Rightarrow> cursor \<Rightarrow> instruction" where
  "consume_cmp e c = do {
     let (rb, c) = consume_register c;
     if rb = - 1 then reject c
     else do {
       let (rc, c) = consume_register c;
       if rc = - 1 then do {
         (result, imm, c) \<leftarrow> consume_immediate e c;
         if result \<noteq> FOUND then reject c
         else do {
           let (encoding, ok) = encode_arithmetic_immediate imm;
           kassert (encoding = encoding AND 0xFFF);
           Some ((push_bit 27 1 OR push_bit 17 rb OR push_bit 12 16 OR encoding, ok), c)
         }
       } else Some ((push_bit 17 rb OR rc OR push_bit 5 16, True), c)
     }
   }"

definition consume_lui :: "asm_env \<Rightarrow> cursor \<Rightarrow> instruction" where
  "consume_lui e c = do {
     let (ra, c) = consume_register c;
     if ra = - 1 then reject c
     else do {
       (result, imm, c) \<leftarrow> consume_immediate e c;
       let (encoding, ok) = encode_lui_immediate imm;
       kassert (encoding = encoding AND 0x3FFFFF);
       Some ((push_bit 27 2 OR push_bit 22 ra OR encoding, result = FOUND \<and> ok), c)
     }
   }"

text \<open>The part of a memory operand after its base register: immediate and addressing mode, or
  \<open>None\<close> inside when it is malformed.\<close>

definition mem_operand :: "asm_env \<Rightarrow> bool \<Rightarrow> cursor \<Rightarrow> ((u32 \<times> u32) option \<times> cursor) option" where
  "mem_operand e is_absolute c = do {
     let (close, c) = consume (str '']'') c;
     if close then
       (if is_absolute then
          (let (result, imm, c) = consume_literal c in
           Some (if result = FOUND then (Some (imm, 2), c) else if result = NOT_FOUND then (Some (0, 0), c) else (None, c)))
        else Some (Some (0, 0), c))
     else do {
       (result, imm, c) \<leftarrow> consume_immediate e c;
       if result = FOUND then do {
         let (close, c) = consume (str '']'') c;
         if \<not> close then Some (None, c)
         else do {
           let (bang, c) = consume (str ''!'') c;
           Some (if bang then (if \<not> is_absolute then (None, c) else (Some (imm, 1), c)) else (Some (imm, 0), c))
         }
       } else Some (None, c)
     }
   }"

definition consume_mem :: "asm_env \<Rightarrow> u32 \<Rightarrow> bool \<Rightarrow> bool \<Rightarrow> cursor \<Rightarrow> instruction" where
  "consume_mem e width_type is_absolute is_load c = do {
     let (ra, c) = consume_register c;
     if ra = - 1 then reject c
     else do {
       let (opn, c) = consume (str ''['') c;
       if \<not> opn then reject c
       else do {
         let (rb, c) = consume_register c;
         if rb = - 1 \<and> is_absolute then reject c
         else do {
           (operand, c) \<leftarrow> mem_operand e is_absolute c;
           case operand of None \<Rightarrow> reject c
           | Some (imm, y) \<Rightarrow> do {
               let (encoding, ok) = (if is_absolute then encode_absolute_memory_immediate imm
                 else if rb \<noteq> - 1 then encode_relative_memory_immediate imm
                 else encode_long_relative_memory_immediate imm);
               let opcode = (if is_absolute then 3 + 3 * width_type else if rb \<noteq> - 1 then 4 + 3 * width_type else 5 + 3 * width_type);
               let load = (if is_load then (if rb \<noteq> - 1 then push_bit 16 1 else push_bit 21 1) else 0);
               let instruction = push_bit 27 opcode OR load OR push_bit 22 ra;
               instruction \<leftarrow> (if is_absolute then do {
                   kassert (encoding = encoding AND 0x3FFF);
                   Some (instruction OR push_bit 14 y OR push_bit 17 rb)
                 } else if rb \<noteq> - 1 then do {
                   kassert (encoding = encoding AND 0xFFFF);
                   Some (instruction OR push_bit 17 rb)
                 } else do {
                   kassert (encoding = encoding AND 0x1FFFFF);
                   Some instruction
                 });
               Some ((instruction OR encoding, ok), c)
             }
         }
       }
     }
   }"

definition consume_branch :: "asm_env \<Rightarrow> u32 \<Rightarrow> bool \<Rightarrow> cursor \<Rightarrow> instruction" where
  "consume_branch e branch_code is_absolute c = do {
     kassert (0 \<le> sint branch_code \<and> sint branch_code < 19);
     let (ra, c) = consume_register c;
     if ra = - 1 then do {
       (result, imm, c) \<leftarrow> consume_immediate e c;
       if result \<noteq> FOUND then reject c
       else if is_absolute then reject c
       else do {
         let (encoding, ok) = encode_branch_immediate imm;
         Some ((push_bit 27 12 OR push_bit 22 branch_code OR encoding, ok), c)
       }
     } else do {
       let (rb, c) = consume_register c;
       let (ra, rb) = (if rb = - 1 then (0, ra) else (ra, rb));
       let opcode = (if is_absolute then push_bit 27 13 else push_bit 27 14);
       Some ((opcode OR push_bit 22 branch_code OR push_bit 5 ra OR rb, True), c)
     }
   }"

definition consume_adpc :: "asm_env \<Rightarrow> cursor \<Rightarrow> instruction" where
  "consume_adpc e c = do {
     let (ra, c) = consume_register c;
     if ra = - 1 then reject c
     else do {
       (result, imm, c) \<leftarrow> consume_immediate e c;
       if result \<noteq> FOUND then reject c
       else do {
         let (encoding, ok) = encode_adpc_immediate imm;
         Some ((push_bit 27 22 OR push_bit 22 ra OR encoding, ok), c)
       }
     }
   }"

definition consume_jmp :: "asm_env \<Rightarrow> cursor \<Rightarrow> instruction" where
  "consume_jmp e c = do {
     let (ra, c) = consume_register c;
     if ra = - 1 then do {
       (result, imm, c) \<leftarrow> consume_immediate e c;
       if result \<noteq> FOUND then reject c
       else do {
         let (encoding, ok) = encode_branch_immediate imm;
         Some ((push_bit 27 12 OR encoding, ok), c)
       }
     } else Some ((push_bit 27 13 OR ra, True), c)
   }"

definition consume_trap :: "cursor \<Rightarrow> instruction" where
  "consume_trap c = Some ((push_bit 27 15, True), c)"

definition consume_atomic :: "asm_env \<Rightarrow> bool \<Rightarrow> bool \<Rightarrow> cursor \<Rightarrow> instruction" where
  "consume_atomic e is_absolute is_fadd c = do {
     let (ra, c) = consume_register c;
     if ra = - 1 then reject c
     else do {
       let (rc, c) = consume_register c;
       if rc = - 1 then reject c
       else do {
         let (opn, c) = consume (str ''['') c;
         if \<not> opn then reject c
         else do {
           let (rb, c) = consume_register c;
           if rb = - 1 \<and> is_absolute then reject c
           else do {
             let (close, c) = consume (str '']'') c;
             (operand, c) \<leftarrow> (if close then Some (Some 0, c)
               else do {
                 (result, imm, c) \<leftarrow> consume_immediate e c;
                 let (close, c') = consume (str '']'') c;
                 Some (if result = FOUND then (if close then (Some imm, c') else (None, c')) else (None, c))
               });
             case operand of None \<Rightarrow> reject c
             | Some imm \<Rightarrow> do {
                 let (encoding, ok) = (if is_absolute \<or> rb \<noteq> - 1 then encode_short_atomic_immediate imm else encode_long_atomic_immediate imm);
                 let opcode = (if is_absolute then (if is_fadd then 16 else 19) else if rb \<noteq> - 1 then (if is_fadd then 17 else 20)
                   else (if is_fadd then 18 else 21));
                 let instruction = push_bit 27 opcode OR push_bit 22 ra OR push_bit 17 rc;
                 instruction \<leftarrow> (if is_absolute \<or> rb \<noteq> - 1 then do {
                     kassert (encoding = encoding AND 0xFFF);
                     Some (instruction OR push_bit 12 rb)
                   } else do {
                     kassert (encoding = encoding AND 0x1FFFF);
                     Some instruction
                   });
                 Some ((instruction OR encoding, ok), c)
               }
           }
         }
       }
     }
   }"

subsection \<open>Privileged instructions\<close>

definition check_privileges :: "asm_env \<Rightarrow> bool" where
  "check_privileges e = env_kernel e"

definition consume_tlb_op :: "asm_env \<Rightarrow> u32 \<Rightarrow> cursor \<Rightarrow> instruction" where
  "consume_tlb_op e tlb_op c =
     (if \<not> check_privileges e then reject c
      else do {
        kassert (0 \<le> sint tlb_op \<and> sint tlb_op < 4);
        if tlb_op = 3 then Some ((push_bit 27 31 OR push_bit 10 3, True), c)
        else if tlb_op = 2 then do {
          let (rb, c) = consume_register c;
          if rb = - 1 then reject c
          else Some ((push_bit 27 31 OR push_bit 10 2 OR push_bit 17 rb, True), c)
        } else do {
          let (ra, c) = consume_register c;
          if ra = - 1 then reject c
          else do {
            let (rb, c) = consume_register c;
            if rb = - 1 then reject c
            else Some ((push_bit 27 31 OR push_bit 22 ra OR push_bit 17 rb OR (if tlb_op = 1 then push_bit 10 1 else 0), True), c)
          }
        }
      })"

definition consume_crmv :: "asm_env \<Rightarrow> cursor \<Rightarrow> instruction" where
  "consume_crmv e c =
     (if \<not> check_privileges e then reject c
      else do {
        let (r, c) = consume_register c;
        let (ra, c) = (if r = - 1 then consume_control_register c else (r, c));
        if ra = - 1 then reject c
        else do {
          let (cr, c) = consume_control_register c;
          let (rb, c) = (if cr = - 1 then consume_register c else (cr, c));
          if rb = - 1 then reject c
          else do {
            let kind = (if r = - 1 then (if cr = - 1 then 4 else 6) else (if cr = - 1 then 7 else 5));
            Some ((push_bit 27 31 OR push_bit 12 1 OR push_bit 10 kind OR push_bit 22 ra OR push_bit 17 rb, True), c)
          }
        }
      })"

definition consume_eoi :: "asm_env \<Rightarrow> cursor \<Rightarrow> instruction" where
  "consume_eoi e c =
     (if \<not> check_privileges e then reject c
      else do {
        let instruction = push_bit 27 31 OR push_bit 12 5;
        let (all, c) = consume_keyword (str ''all'') (skip c);
        if all then Some ((instruction OR push_bit 11 1, True), c)
        else do {
          (result, imm, c) \<leftarrow> consume_immediate e c;
          if result \<noteq> FOUND then reject c
          else if sint imm < 0 \<or> sint imm > 15 then reject c
          else Some ((instruction OR (imm AND 0xF), True), c)
        }
      })"

definition consume_mode_op :: "asm_env \<Rightarrow> cursor \<Rightarrow> instruction" where
  "consume_mode_op e c =
     (if \<not> check_privileges e then reject c
      else
        let instruction = push_bit 27 31 OR push_bit 12 2; (ok, c) = consume (str ''run'') c in
        if ok then Some ((instruction, True), c)
        else let (ok, c) = consume (str ''sleep'') c in
        if ok then Some ((instruction OR push_bit 10 1, True), c)
        else let (ok, c) = consume (str ''halt'') c in
        if ok then Some ((instruction OR push_bit 10 2, True), c)
        else reject c)"

definition consume_rfe :: "asm_env \<Rightarrow> cursor \<Rightarrow> instruction" where
  "consume_rfe e c = (if \<not> check_privileges e then reject c else Some ((push_bit 27 31 OR push_bit 12 3, True), c))"

definition consume_ipi :: "asm_env \<Rightarrow> cursor \<Rightarrow> instruction" where
  "consume_ipi e c =
     (if \<not> check_privileges e then reject c
      else do {
        let (ra, c) = consume_register c;
        if ra = - 1 then reject c
        else do {
          let instruction = push_bit 27 31 OR push_bit 12 4 OR push_bit 22 ra;
          let (all, c) = consume_keyword (str ''all'') (skip c);
          if all then Some ((instruction OR push_bit 11 1, True), c)
          else do {
            let (result, imm, c) = consume_literal c;
            if result \<noteq> FOUND \<or> sint imm < 0 \<or> sint imm \<ge> 4 then reject c
            else Some ((instruction OR imm, True), c)
          }
        }
      })"

subsection \<open>The halves of a wide move\<close>

definition consume_mov_hack :: "asm_env \<Rightarrow> u32 \<Rightarrow> cursor \<Rightarrow> instruction" where
  "consume_mov_hack e mov_type c = do {
     kassert (0 \<le> sint mov_type \<and> sint mov_type < 4);
     let (ra, c) = consume_register c;
     if ra = - 1 then reject c
     else do {
       (result, imm, c1) \<leftarrow> consume_label_imm e c;
       (mov_type, result, imm, c) \<leftarrow> (if result = FOUND then do {
           let (label, c) = consume_identifier c;
           constant \<leftarrow> (case label of None \<Rightarrow> None | Some l \<Rightarrow> basm_map_contains (env_defines e) l);
           Some (if \<not> constant then mov_type OR 2 else mov_type, FOUND, imm, c)
         } else Some (mov_type, consume_literal c1));
       if result \<noteq> FOUND then reject c
       else do {
         let imm = (if mov_type = 2 then imm - 8 else if mov_type = 3 then imm - 4 else imm);
         if mov_type AND 1 \<noteq> 0 then do {
           let (encoding, ok) = encode_arithmetic_immediate (imm AND 0x3FF);
           kassert (encoding = encoding AND 0xFFF);
           Some ((push_bit 27 1 OR push_bit 22 ra OR push_bit 17 ra OR push_bit 12 14 OR encoding, ok), c)
         } else do {
           let (encoding, ok) = encode_lui_immediate (imm AND 0xFFFFFC00);
           kassert (encoding = encoding AND 0x3FFFFF);
           Some ((push_bit 27 2 OR push_bit 22 ra OR encoding, ok), c)
         }
       }
     }
   }"

section \<open>The instruction set\<close>

text \<open>The keywords in the order in which they are tried.\<close>

definition instruction_table :: "asm_env \<Rightarrow> (bytes \<times> (cursor \<Rightarrow> instruction)) list" where
  "instruction_table e = [
     (str ''and'', consume_alu_op e 0), (str ''nand'', consume_alu_op e 1), (str ''or'', consume_alu_op e 2), (str ''nor'', consume_alu_op e 3),
     (str ''xor'', consume_alu_op e 4), (str ''xnor'', consume_alu_op e 5), (str ''not'', consume_alu_op e 6), (str ''lsl'', consume_alu_op e 7),
     (str ''lsr'', consume_alu_op e 8), (str ''asr'', consume_alu_op e 9), (str ''rotl'', consume_alu_op e 10), (str ''rotr'', consume_alu_op e 11),
     (str ''lslc'', consume_alu_op e 12), (str ''lsrc'', consume_alu_op e 13), (str ''add'', consume_alu_op e 14),
     (str ''addc'', consume_alu_op e 15), (str ''sub'', consume_alu_op e 16), (str ''subb'', consume_alu_op e 17), (str ''cmp'', consume_cmp e),
     (str ''sxtb'', consume_alu_op e 18), (str ''sxtd'', consume_alu_op e 19), (str ''tncb'', consume_alu_op e 20),
     (str ''tncd'', consume_alu_op e 21), (str ''lui'', consume_lui e), (str ''swa'', consume_mem e 0 True False),
     (str ''lwa'', consume_mem e 0 True True), (str ''sw'', consume_mem e 0 False False), (str ''lw'', consume_mem e 0 False True),
     (str ''sda'', consume_mem e 1 True False), (str ''lda'', consume_mem e 1 True True), (str ''sd'', consume_mem e 1 False False),
     (str ''ld'', consume_mem e 1 False True), (str ''sba'', consume_mem e 2 True False), (str ''lba'', consume_mem e 2 True True),
     (str ''sb'', consume_mem e 2 False False), (str ''lb'', consume_mem e 2 False True), (str ''br'', consume_branch e 0 False),
     (str ''bz'', consume_branch e 1 False), (str ''bnz'', consume_branch e 2 False), (str ''bs'', consume_branch e 3 False),
     (str ''bns'', consume_branch e 4 False), (str ''bc'', consume_branch e 5 False), (str ''bnc'', consume_branch e 6 False),
     (str ''bo'', consume_branch e 7 False), (str ''bno'', consume_branch e 8 False), (str ''bps'', consume_branch e 9 False),
     (str ''bnps'', consume_branch e 10 False), (str ''bg'', consume_branch e 11 False), (str ''bge'', consume_branch e 12 False),
     (str ''bl'', consume_branch e 13 False), (str ''ble'', consume_branch e 14 False), (str ''ba'', consume_branch e 15 False),
     (str ''bae'', consume_branch e 16 False), (str ''bb'', consume_branch e 17 False), (str ''bbe'', consume_branch e 18 False),
     (str ''bra'', consume_branch e 0 True), (str ''bza'', consume_branch e 1 True), (str ''bnza'', consume_branch e 2 True),
     (str ''bsa'', consume_branch e 3 True), (str ''bnsa'', consume_branch e 4 True), (str ''bca'', consume_branch e 5 True),
     (str ''bnca'', consume_branch e 6 True), (str ''boa'', consume_branch e 7 True), (str ''bnoa'', consume_branch e 8 True),
     (str ''bpa'', consume_branch e 9 True), (str ''bnpa'', consume_branch e 10 True), (str ''bga'', consume_branch e 11 True),
     (str ''bgea'', consume_branch e 12 True), (str ''bla'', consume_branch e 13 True), (str ''blea'', consume_branch e 14 True),
     (str ''baa'', consume_branch e 15 True), (str ''baea'', consume_branch e 16 True), (str ''bba'', consume_branch e 17 True),
     (str ''bbea'', consume_branch e 18 True), (str ''jmp'', consume_jmp e), (str ''adpc'', consume_adpc e), (str ''trap'', consume_trap),
     (str ''fada'', consume_atomic e True True), (str ''fad'', consume_atomic e False True), (str ''swpa'', consume_atomic e True False),
     (str ''swp'', consume_atomic e False False), (str ''tlbr'', consume_tlb_op e 0), (str ''tlbw'', consume_tlb_op e 1),
     (str ''tlbi'', consume_tlb_op e 2), (str ''tlbc'', consume_tlb_op e 3), (str ''crmv'', consume_crmv e), (str ''mode'', consume_mode_op e),
     (str ''rfe'', consume_rfe e), (str ''ipi'', consume_ipi e), (str ''eoi'', consume_eoi e), (str ''movu'', consume_mov_hack e 0),
     (str ''movl'', consume_mov_hack e 1)]"

fun first_keyword :: "(bytes \<times> (cursor \<Rightarrow> instruction)) list \<Rightarrow> cursor \<Rightarrow> ((cursor \<Rightarrow> instruction) \<times> cursor) option" where
  "first_keyword [] c = None"
| "first_keyword ((k, f) # rest) c = (let (ok, c') = consume_keyword k c in if ok then Some (f, c') else first_keyword rest c)"

text \<open>\<open>*result\<close> is \<open>FOUND\<close> when the function is called.\<close>

definition consume_instruction :: "asm_env \<Rightarrow> cursor \<Rightarrow> (consume_result \<times> u32 \<times> cursor) option" where
  "consume_instruction e c = (let c = skip c in
     case first_keyword (instruction_table e) c of
       None \<Rightarrow> Some (NOT_FOUND, 0, c)
     | Some (f, c) \<Rightarrow> do {
         ((instruction, success), c) \<leftarrow> f c;
         Some (if success then FOUND else ERROR, instruction, c)
       })"

end
