(* ===== verification/Basm_Isa.thy ===== *)
theory Basm_Isa
  imports Basm_Encode
begin

text \<open>
  The assembler against the instruction formats: canonical text of an instruction, the fields of an
  instruction word, and that assembling the text gives the word with the fields of the instruction.
\<close>

section \<open>Fields of a word\<close>

definition field :: "nat \<Rightarrow> nat \<Rightarrow> u32 \<Rightarrow> u32" where
  "field lo n w = take_bit n (drop_bit lo w)"

definition sext :: "nat \<Rightarrow> u32 \<Rightarrow> int" where
  "sext n w = signed_take_bit (n - 1) (uint w)"

lemma bit_small: "unat (x :: u32) < 2 ^ n \<Longrightarrow> bit x i \<Longrightarrow> i < n"
proof (rule ccontr)
  assume a: "unat x < 2 ^ n" "bit x i" "\<not> i < n"
  have "bit (unat x) i" using a(2) by (simp add: bit_unsigned_iff)
  moreover have "unat x div 2 ^ i = 0" using a(1,3) by (intro div_less) (meson le_less_trans less_le_trans not_le power_increasing one_le_numeral)
  ultimately show False by (simp add: bit_iff_odd)
qed

lemma field_or: "field lo n (a OR b) = field lo n a OR field lo n b"
  by (simp add: field_def drop_bit_or take_bit_or)

lemma field_push_same: "unat x < 2 ^ n \<Longrightarrow> lo + n \<le> 32 \<Longrightarrow> field lo n (push_bit lo x) = x"
  by (rule bit_word_eqI) (auto simp: field_def bit_take_bit_iff bit_drop_bit_eq bit_push_bit_iff dest: bit_small)

lemma field_push_above: "lo + n \<le> k \<Longrightarrow> field lo n (push_bit k x) = 0"
  by (rule bit_word_eqI) (auto simp: field_def bit_take_bit_iff bit_drop_bit_eq bit_push_bit_iff)

lemma field_push_below: "unat x < 2 ^ m \<Longrightarrow> k + m \<le> lo \<Longrightarrow> field lo n (push_bit k x) = 0"
  by (rule bit_word_eqI) (auto simp: field_def bit_take_bit_iff bit_drop_bit_eq bit_push_bit_iff dest: bit_small)

lemma field_low: "unat x < 2 ^ n \<Longrightarrow> field 0 n x = x"
  by (rule bit_word_eqI) (auto simp: field_def bit_take_bit_iff bit_drop_bit_eq dest: bit_small)

lemma field_high: "unat x < 2 ^ m \<Longrightarrow> m \<le> lo \<Longrightarrow> field lo n x = 0"
  by (rule bit_word_eqI) (auto simp: field_def bit_take_bit_iff bit_drop_bit_eq dest: bit_small)

section \<open>Numbers in text\<close>

fun dec :: "nat \<Rightarrow> bytes" where
  "dec n = (if n < 10 then [of_nat (48 + n)] else dec (n div 10) @ [of_nat (48 + n mod 10)])"

declare dec.simps [simp del]

definition num :: "int \<Rightarrow> bytes" where
  "num i = (if i < 0 then 45 # dec (nat (- i)) else dec (nat i))"

lemma digit_char:
  assumes "n < 10"
  shows "isdigit (of_nat (48 + n))" "dec_digit (of_nat (48 + n)) = of_nat n" "of_nat (48 + n) = (48 :: u8) \<longleftrightarrow> n = 0"
proof -
  have u: "unat (of_nat (48 + n) :: u8) = 48 + n" using assms by (simp add: unat_of_nat take_bit_eq_mod del: of_nat_add)
  show "isdigit (of_nat (48 + n))" unfolding isdigit_def word_le_nat_alt u using assms by simp
  have "(ucast (of_nat (48 + n) :: u8) :: u32) = of_nat (48 + n)" using u by (metis of_nat_unat)
  then show "dec_digit (of_nat (48 + n)) = of_nat n" by (simp add: dec_digit_def)
  show "of_nat (48 + n) = (48 :: u8) \<longleftrightarrow> n = 0" using u by (simp add: word_unat_eq_iff del: of_nat_add)
qed

lemma dec_digits: "list_all isdigit (dec n)" "dec n \<noteq> []" "n \<noteq> 0 \<Longrightarrow> hd (dec n) \<noteq> 48" "n = 0 \<Longrightarrow> dec n = [48]"
proof (induction n rule: dec.induct)
  case (1 n)
  {
    case 1
    show ?case using "1.IH" digit_char(1)[of n] digit_char(1)[of "n mod 10"] by (subst dec.simps) (auto simp del: of_nat_add)
  next
    case 2
    show ?case by (subst dec.simps) simp
  next
    case 3
    then show ?case using "1.IH" digit_char(3)[of n] by (subst dec.simps) (auto simp del: of_nat_add)
  next
    case 4
    then show ?case by (subst dec.simps) simp
  }
qed

lemma dec_value: "digits_value 10 dec_digit (dec n) = of_nat n"
proof (induction n rule: dec.induct)
  case (1 n)
  show ?case
  proof (cases "n < 10")
    case True
    then show ?thesis using digit_char(2)[of n] by (subst dec.simps) (simp add: digits_value_def del: of_nat_add)
  next
    case False
    have "digits_value 10 dec_digit (dec n) = 10 * of_nat (n div 10) + of_nat (n mod 10)"
      using 1 False digit_char(2)[of "n mod 10"] by (subst dec.simps) (simp add: digits_value_def del: of_nat_add)
    also have "\<dots> = of_nat (10 * (n div 10) + n mod 10)" by (simp only: of_nat_add of_nat_mult of_nat_numeral)
    finally show ?thesis by (simp only: mult_div_mod_eq)
  qed
qed

text \<open>Hexadecimal digits, in capitals or not.\<close>

definition hexdigit :: "bool \<Rightarrow> nat \<Rightarrow> u8" where
  "hexdigit caps n = of_nat (if n < 10 then 48 + n else if caps then 55 + n else 87 + n)"

fun hex :: "bool \<Rightarrow> nat \<Rightarrow> bytes" where
  "hex caps n = (if n < 16 then [hexdigit caps n] else hex caps (n div 16) @ [hexdigit caps (n mod 16)])"

declare hex.simps [simp del]

lemma hexdigit_char: "n < 16 \<Longrightarrow> ishex (hexdigit caps n) \<and> isalnum (hexdigit caps n) \<and> hex_digit (hexdigit caps n) = of_nat n"
proof -
  have "\<forall>caps \<in> {True, False}. \<forall>n \<in> {0..<16}. ishex (hexdigit caps n) \<and> isalnum (hexdigit caps n) \<and> hex_digit (hexdigit caps n) = of_nat n"
    by code_simp
  then show "n < 16 \<Longrightarrow> ?thesis" by (cases caps) auto
qed

lemma hex_digits: "list_all isalnum (hex caps n)" "list_all ishex (hex caps n)" "hex caps n \<noteq> []"
proof (induction caps n rule: hex.induct)
  case (1 caps n)
  {
    case 1
    show ?case using "1.IH" hexdigit_char[of n] hexdigit_char[of "n mod 16"] by (subst hex.simps) auto
  next
    case 2
    show ?case using "1.IH" hexdigit_char[of n] hexdigit_char[of "n mod 16"] by (subst hex.simps) auto
  next
    case 3
    show ?case by (subst hex.simps) simp
  }
qed

lemma hex_value: "digits_value 16 hex_digit (hex caps n) = of_nat n"
proof (induction caps n rule: hex.induct)
  case (1 caps n)
  show ?case
  proof (cases "n < 16")
    case True
    then show ?thesis using hexdigit_char[of n] by (subst hex.simps) (simp add: digits_value_def)
  next
    case False
    have "digits_value 16 hex_digit (hex caps n) = 16 * of_nat (n div 16) + of_nat (n mod 16)"
      using 1 False hexdigit_char[of "n mod 16"] by (subst hex.simps) (simp add: digits_value_def)
    also have "\<dots> = of_nat (16 * (n div 16) + n mod 16)" by (simp only: of_nat_add of_nat_mult of_nat_numeral)
    finally show ?thesis by (simp only: mult_div_mod_eq)
  qed
qed

text \<open>A literal for a number: decimal, or hexadecimal when the number is not negative.\<close>

definition literal :: "bytes \<Rightarrow> int \<Rightarrow> bool" where
  "literal t i \<longleftrightarrow> t = num i \<or> (0 \<le> i \<and> (\<exists>caps. t = 48 # 120 # hex caps (nat i)))"

section \<open>Scanning canonical text\<close>

text \<open>The first byte of a text, NUL at its end.\<close>

definition first :: "bytes \<Rightarrow> u8" where "first xs = (case xs of [] \<Rightarrow> 0 | x # _ \<Rightarrow> x)"

lemma first_simps [simp]: "first [] = 0" "first (x # xs) = x" "xs \<noteq> [] \<Longrightarrow> first (xs @ ys) = first xs"
  by (simp_all add: first_def split: list.splits)

lemma peek_append [simp]: "peek (length xs) c = first ys" if "cur_rest c = xs @ ys"
  using that by (cases ys) (auto simp: peek_def)

lemma peek_0: "peek 0 c = first (cur_rest c)"
  by (cases "cur_rest c") (auto simp: peek_def)

lemma rest_advance [simp]: "cur_rest (advance n c) = drop n (cur_rest c)"
  by (simp add: advance_def)

lemma takeWhile_run: "list_all P xs \<Longrightarrow> \<not> P (first ys) \<or> ys = [] \<Longrightarrow> takeWhile P (xs @ ys) = xs"
  by (induction xs) (auto simp: first_def split: list.splits)

lemma skip_run:
  assumes "cur_rest c = ws @ ys" "list_all skippable ws" "\<not> skippable (first ys)"
  shows "cur_rest (skip c) = ys"
  using takeWhile_run[OF assms(2), of ys] assms(1,3) by (simp add: skip_def)

lemma not_skippable: "isalnum x \<Longrightarrow> \<not> skippable x" "\<not> skippable 91" "\<not> skippable 93" "\<not> skippable 33" "\<not> skippable 45" "\<not> skippable 0" "\<not> skippable 10"
  by (auto simp: skippable_def isspace_def isalnum_def isdigit_def isalpha_def word_le_nat_alt)

lemma digit_facts:
  assumes "isdigit x"
  shows "isalnum x" "x \<noteq> 97" "x \<noteq> 115" "x \<noteq> 98" "\<not> isalpha x" "x \<noteq> 95" "x \<noteq> 45" "is_identifier_char x"
  using assms by (auto simp: isdigit_def isalnum_def isalpha_def is_identifier_char_def word_le_nat_alt)

lemma at_string_split: "cur_rest c = xs \<Longrightarrow> at_string s c \<longleftrightarrow> take (length s) xs = s"
  by (simp add: at_string_def)

text \<open>A numbered register.\<close>

lemma numbered_register_run:
  assumes c: "cur_rest c = pre @ dec n @ ys" and k: "k = length pre" and n: "int n \<le> limit" "n < 2147483648"
    and ys: "\<not> is_identifier_char (first ys)"
  shows "\<exists>c'. numbered_register k limit c = (of_nat n, c') \<and> cur_rest c' = ys"
proof -
  have nd: "\<not> isdigit (first ys)" using ys digit_facts(8) by blast
  have ds: "takeWhile isdigit (drop k (cur_rest c)) = dec n" using takeWhile_run[OF dec_digits(1), of ys n] nd by (simp add: c k)
  have "unat (of_nat n :: u32) = n" using n(2) by (intro word_of_small) simp
  then have sv: "sint (of_nat n :: u32) = int n" using n(2) by (simp add: sint_cases)
  have pk: "peek (k + length (dec n)) c = first ys" using peek_append[of c "pre @ dec n" ys] by (simp add: c k)
  show ?thesis using ds sv pk ys n(1) by (auto simp: numbered_register_def dec_value Let_def c k)
qed

lemma consume_register_text:
  assumes c: "cur_rest c = ws @ 114 # dec n @ ys" and ws: "list_all skippable ws" and n: "n < 32" and ys: "\<not> is_identifier_char (first ys)"
  shows "\<exists>c'. consume_register c = (of_nat n, c') \<and> cur_rest c' = ys"
proof -
  have a: "\<not> skippable 114" by (rule not_skippable(1)) (simp add: isalnum_def isalpha_def)
  have r: "cur_rest (skip c) = 114 # dec n @ ys" using skip_run[OF c ws] a by simp
  obtain d ds where d: "dec n = d # ds" using dec_digits(2)[of n] by (cases "dec n") auto
  have di: "isdigit d" using dec_digits(1)[of n] d by simp
  have "\<exists>c'. numbered_register 1 31 (skip c) = (of_nat n, c') \<and> cur_rest c' = ys"
    by (rule numbered_register_run[of _ "[114]"]) (use r n ys in auto)
  moreover have "peek 0 (skip c) = 114" "peek 1 (skip c) = d" using r d by (simp_all add: peek_def)
  moreover have "fst (consume_named_register (str ''sp'') (skip c)) = False" "fst (consume_named_register (str ''bp'') (skip c)) = False"
    "fst (consume_named_register (str ''ra'') (skip c)) = False"
    using digit_facts(2)[OF di] by (simp_all add: consume_named_register_def at_string_def r d str_def of_char_def)
  ultimately show ?thesis using di by (auto simp: consume_register_def Let_def split: prod.splits)
qed

text \<open>A literal, and what may follow it.\<close>

definition ends :: "u8 \<Rightarrow> bool" where "ends x \<longleftrightarrow> isspace x \<or> x = 0 \<or> x = 93 \<or> x = 35"

lemma ends_facts: "ends x \<Longrightarrow> \<not> isdigit x" "ends x \<Longrightarrow> \<not> is_identifier_char x" "ends 0" "ends 10" "ends 93" "ends x \<Longrightarrow> \<not> isalnum x"
  by (auto simp: ends_def isspace_def isdigit_def isalpha_def isalnum_def is_identifier_char_def word_le_nat_alt)

lemma dec_first:
  obtains d where "first (dec n @ ys) = d" "isdigit d" "\<not> skippable d" "d = 48 \<longleftrightarrow> n = 0"
proof -
  obtain d ds where d: "dec n = d # ds" using dec_digits(2)[of n] by (cases "dec n") auto
  have "isdigit d" "d = 48 \<longleftrightarrow> n = 0" using dec_digits(1,3,4)[of n] d by (auto simp: list_all_iff)
  then show thesis using that[of d] d not_skippable(1)[OF digit_facts(1)] by simp
qed

lemma literal_digits:
  assumes c: "cur_rest c = ws @ dec n @ ys" and ws: "list_all skippable ws" and y: "ends (first ys)"
  shows "\<exists>c'. consume_literal c = (FOUND, of_nat n, c') \<and> cur_rest c' = ys"
proof -
  obtain d where d: "first (dec n @ ys) = d" "isdigit d" "\<not> skippable d" "d = 48 \<longleftrightarrow> n = 0" by (rule dec_first)
  have r: "cur_rest (skip c) = dec n @ ys" by (rule skip_run[OF c ws]) (use d in simp)
  have p: "peek 0 (skip c) = d" using r d(1) by (simp add: peek_0)
  have ng: "d \<noteq> 45" using digit_facts(7)[OF d(2)] .
  show ?thesis
  proof (cases "n = 0")
    case True
    then have "dec n = [48]" using dec_digits(4) by simp
    then have "peek 1 (skip c) = first ys" using peek_append[of "skip c" "[48]" ys] r by simp
    then show ?thesis using True d(4) p ng y r \<open>dec n = [48]\<close> by (auto simp: consume_literal_def ends_def Let_def)
  next
    case False
    have "takeWhile isdigit (dec n @ ys) = dec n" using takeWhile_run[OF dec_digits(1)] ends_facts(1)[OF y] by blast
    then show ?thesis using False d(2,4) p ng r by (auto simp: consume_literal_def Let_def dec_value)
  qed
qed

lemma num_text:
  assumes c: "cur_rest c = ws @ num i @ ys" and ws: "list_all skippable ws" and y: "ends (first ys)"
  shows "\<exists>c'. consume_literal c = (FOUND, of_int i, c') \<and> cur_rest c' = ys"
proof (cases "i < 0")
  case False
  then show ?thesis using literal_digits[of c ws "nat i" ys] assms by (simp add: num_def of_nat_nat)
next
  case True
  let ?n = "nat (- i)"
  have r: "cur_rest (skip c) = 45 # dec ?n @ ys" using skip_run[OF c ws] True not_skippable(5) by (simp add: num_def)
  obtain d where d: "first (dec ?n @ ys) = d" "isdigit d" "\<not> skippable d" "d = 48 \<longleftrightarrow> ?n = 0" by (rule dec_first)
  let ?c = "skip (advance 1 (skip c))"
  have r2: "cur_rest ?c = dec ?n @ ys" by (rule skip_run[of _ "[]"]) (use r d in auto)
  have "takeWhile isdigit (dec ?n @ ys) = dec ?n" using takeWhile_run[OF dec_digits(1)] ends_facts(1)[OF y] by blast
  moreover have "peek 0 (skip c) = 45" "peek 0 ?c = d" using r r2 d(1) by (simp_all add: peek_0)
  moreover have "of_nat ?n * (- 1) = (of_int i :: u32)" using True by (simp add: of_nat_nat)
  ultimately show ?thesis using True d(2,4) r2 by (auto simp: consume_literal_def Let_def dec_value)
qed

lemma hex_text:
  assumes c: "cur_rest c = ws @ 48 # 120 # hex caps n @ ys" and ws: "list_all skippable ws" and y: "ends (first ys)"
  shows "\<exists>c'. consume_literal c = (FOUND, of_nat n, c') \<and> cur_rest c' = ys"
proof -
  have "\<not> skippable 48" by (rule not_skippable(1)) (simp add: isalnum_def isdigit_def)
  then have r: "cur_rest (skip c) = 48 # 120 # hex caps n @ ys" using skip_run[OF c ws] by simp
  have p: "peek 0 (skip c) = 48" "peek 1 (skip c) = 120" using r by (simp_all add: peek_def)
  have a: "takeWhile isalnum (hex caps n @ ys) = hex caps n" using takeWhile_run[OF hex_digits(1)] ends_facts(6)[OF y] by blast
  have h: "takeWhile ishex (hex caps n) = hex caps n" using hex_digits(2) by (simp add: takeWhile_eq_all_conv list_all_iff)
  have "based_literal 16 isalnum ishex hex_digit False (advance 2 (skip c)) = (FOUND, of_nat n, advance (length (hex caps n)) (advance 2 (skip c)))"
    using r by (simp add: based_literal_def hex_value a h hex_digits(3) Let_def)
  then show ?thesis using p r by (simp add: consume_literal_def Let_def isspace_def)
qed

lemma consume_literal_text:
  assumes "literal t i" "cur_rest c = ws @ t @ ys" "list_all skippable ws" "ends (first ys)"
  shows "\<exists>c'. consume_literal c = (FOUND, of_int i, c') \<and> cur_rest c' = ys"
  using assms num_text[of c ws i ys] hex_text[of c ws _ "nat i" ys] by (auto simp: literal_def of_nat_nat)

lemma literal_first:
  assumes "literal t i"
  shows "t \<noteq> []" "first (t @ ys) = 45 \<or> isdigit (first (t @ ys))"
proof -
  obtain d where "first (dec (nat i) @ ys) = d" "isdigit d" by (rule dec_first)
  then show "t \<noteq> []" "first (t @ ys) = 45 \<or> isdigit (first (t @ ys))"
    using assms dec_digits(2)[of "nat i"] by (cases "i < 0"; auto simp: literal_def num_def isdigit_def)+
qed

lemma literal_start:
  assumes "literal t i"
  shows "\<not> skippable (first (t @ ys))" "\<not> isalpha (first (t @ ys))" "first (t @ ys) \<notin> {95, 115, 98, 114, 93, 97}"
  using literal_first(2)[OF assms, of ys] not_skippable(1,5) digit_facts(1,5)
  by (auto simp: isdigit_def isalpha_def word_le_nat_alt)

lemma consume_immediate_text:
  assumes t: "literal t i" and c: "cur_rest c = ws @ t @ ys" and ws: "list_all skippable ws" and y: "ends (first ys)"
  shows "\<exists>c'. consume_immediate e c = Some (FOUND, of_int i, c') \<and> cur_rest c' = ys" "\<exists>c1. consume_label_imm e c = Some (NOT_FOUND, 0, c1) \<and> cur_rest c1 = t @ ys"
proof -
  have r: "cur_rest (skip c) = t @ ys" by (rule skip_run[OF c ws]) (rule literal_start(1)[OF t])
  then have "\<not> isalpha (peek 0 (skip c)) \<and> peek 0 (skip c) \<noteq> 95" using literal_start(2,3)[OF t, of ys] by (simp add: peek_0)
  then have "consume_label_imm e c = Some (NOT_FOUND, 0, skip c)" by (simp add: consume_label_imm_def consume_identifier_def Let_def)
  then show "\<exists>c'. consume_immediate e c = Some (FOUND, of_int i, c') \<and> cur_rest c' = ys" "\<exists>c1. consume_label_imm e c = Some (NOT_FOUND, 0, c1) \<and> cur_rest c1 = t @ ys"
    using consume_literal_text[OF t, of "skip c" "[]" ys] r y by (simp_all add: consume_immediate_def)
qed

text \<open>What does not begin a register.\<close>

lemma no_register:
  assumes c: "cur_rest c = ws @ ys" and ws: "list_all skippable ws" and y: "\<not> skippable (first ys)" "first ys \<notin> {115, 98, 114}"
  shows "\<exists>c'. consume_register c = (- 1, c') \<and> cur_rest c' = ys"
proof -
  have r: "cur_rest (skip c) = ys" by (rule skip_run[OF c ws y(1)])
  have "peek 0 (skip c) = first ys" using r by (simp add: peek_0)
  moreover have "fst (consume_named_register (str ''sp'') (skip c)) = False" "fst (consume_named_register (str ''bp'') (skip c)) = False"
    "fst (consume_named_register (str ''ra'') (skip c)) = False"
    using y(2) by (cases ys; simp add: consume_named_register_def at_string_def r str_def of_char_def)+
  ultimately show ?thesis using r y(2) by (auto simp: consume_register_def Let_def split: prod.splits)
qed

lemma consume_text:
  assumes c: "cur_rest c = ws @ s @ ys" and ws: "list_all skippable ws" and s: "s \<noteq> []" "\<not> skippable (hd s)"
  shows "\<exists>c'. consume s c = (True, c') \<and> cur_rest c' = ys"
proof -
  have "cur_rest (skip c) = s @ ys" by (rule skip_run[OF c ws]) (use s in \<open>cases s; simp\<close>)
  then show ?thesis by (simp add: consume_def at_string_def)
qed

lemma consume_other:
  assumes c: "cur_rest c = ws @ ys" and ws: "list_all skippable ws" and y: "\<not> skippable (first ys)" "s \<noteq> []" "hd s \<noteq> first ys"
  shows "\<exists>c'. consume s c = (False, c') \<and> cur_rest c' = ys"
proof -
  have "cur_rest (skip c) = ys" by (rule skip_run[OF c ws y(1)])
  moreover have "take (length s) ys \<noteq> s" using y(2,3) by (cases ys; cases s) auto
  ultimately show ?thesis by (simp add: consume_def at_string_def)
qed

section \<open>Keywords\<close>

definition boundary :: "cursor \<Rightarrow> bool" where
  "boundary c \<longleftrightarrow> cur_before c = [] \<or> \<not> is_identifier_body_char (hd (cur_before c))"

lemma consume_keyword_iff:
  assumes b: "boundary c" and c: "cur_rest c = k @ ys" and k: "list_all isalpha k" "list_all isalpha k'" and y: "isspace (first ys) \<or> first ys = 0"
  shows "fst (consume_keyword k' c) \<longleftrightarrow> k' = k" "k' = k \<Longrightarrow> cur_rest (snd (consume_keyword k' c)) = ys" "k' \<noteq> k \<Longrightarrow> snd (consume_keyword k' c) = c"
proof -
  have na: "\<not> isalpha (first ys)" using y by (auto simp: isspace_def isalpha_def word_le_nat_alt)
  have al: "isalpha x \<Longrightarrow> \<not> isspace x \<and> x \<noteq> 0 \<and> x \<noteq> 44 \<and> x \<noteq> 59 \<and> x \<noteq> 58" for x by (auto simp: isspace_def isalpha_def word_le_nat_alt)
  have "k' = k" if a: "take (length k') (k @ ys) = k'" "\<not> isalpha (peek (length k') c)"
  proof (rule linorder_cases[of "length k'" "length k"])
    assume l: "length k' < length k"
    then have "isalpha (peek (length k') c)" using k(1) c by (simp add: peek_def list_all_length nth_append)
    then show ?thesis using a(2) by simp
  next
    assume "length k' = length k"
    then show ?thesis using a(1) by simp
  next
    assume l: "length k < length k'"
    then have "ys \<noteq> []" using arg_cong[OF a(1), of length] by auto
    then have "k' ! length k = first ys" using a(1) l by (metis append.right_neutral first_def length_take list.case(2) list.exhaust min.commute
      min_less_iff_conj nth_append_length nth_take)
    then show ?thesis using k(2) l na by (metis list_all_length)
  qed
  then have "at_string k' c \<and> (let f = peek (length k') c in isspace f \<or> f = 0 \<or> f = 44 \<or> f = 59 \<or> f = 58) \<longleftrightarrow> k' = k"
    using c y al peek_append[OF c] by (auto simp: at_string_def Let_def)
  then show "fst (consume_keyword k' c) \<longleftrightarrow> k' = k" "k' = k \<Longrightarrow> cur_rest (snd (consume_keyword k' c)) = ys" "k' \<noteq> k \<Longrightarrow> snd (consume_keyword k' c) = c"
    using b c by (auto simp: consume_keyword_def boundary_def Let_def)
qed

lemma first_keyword_run:
  assumes "boundary c" "cur_rest c = k @ ys" "isspace (first ys) \<or> first ys = 0" "list_all isalpha k"
  shows "distinct (map fst t) \<Longrightarrow> list_all (list_all isalpha) (map fst t) \<Longrightarrow> (k, f) \<in> set t \<Longrightarrow>
    \<exists>c'. first_keyword t c = Some (f, c') \<and> cur_rest c' = ys"
proof (induction t)
  case (Cons p t)
  obtain k' g where p: "p = (k', g)" by (cases p)
  have al: "list_all isalpha k'" using Cons(3) p by simp
  note K = consume_keyword_iff[OF assms(1,2,4) al assms(3)]
  show ?case
  proof (cases "k' = k")
    case True
    then have "g = f" using Cons(2,4) p by (auto simp: image_iff)
    then show ?thesis using K True p by (auto simp: Let_def split: prod.splits)
  next
    case False
    then show ?thesis using K Cons p by (auto simp: Let_def split: prod.splits)
  qed
qed simp

section \<open>Immediates\<close>

lemma sint_of_int: "- (2 ^ 31) \<le> i \<Longrightarrow> i < 2 ^ 31 \<Longrightarrow> sint (of_int i :: u32) = i"
  by (simp add: signed_of_int signed_take_bit_int_eq_self)

lemma uint_masked: "n \<le> 32 \<Longrightarrow> uint (of_int i AND mask n :: u32) = take_bit n i"
  by (simp add: take_bit_eq_mask[symmetric] unsigned_take_bit_eq unsigned_of_int min_def)

lemma mask_field:
  assumes i: "- (2 ^ (n - 1)) \<le> i" "i < 2 ^ (n - 1)" and n: "0 < n" "n \<le> 32"
  shows "unat (of_int i AND mask n :: u32) < 2 ^ n" "sext n (of_int i AND mask n) = i"
proof -
  note u = uint_masked[OF n(2), of i]
  have "int (unat (of_int i AND mask n :: u32)) < int (2 ^ n)" unfolding uint_nat[symmetric] u by simp
  then show "unat (of_int i AND mask n :: u32) < 2 ^ n" by linarith
  have "\<not> n \<le> n - 1" using n(1) by simp
  then show "sext n (of_int i AND mask n) = i" using i n by (simp add: sext_def u signed_take_bit_take_bit signed_take_bit_int_eq_self)
qed

lemma masks: "(0xFF :: u32) = mask 8" "(0x3FF :: u32) = mask 10" "(0xFFF :: u32) = mask 12" "(0xFFFF :: u32) = mask 16" "(0x1FFFF :: u32) = mask 17"
  "(0x1FFFFF :: u32) = mask 21" "(0x3FFFFF :: u32) = mask 22" "(0x3FFF :: u32) = mask 14" "(0x7FF :: u32) = mask 11" "(0x1FFF :: u32) = mask 13"
  "(3 :: u32) = mask 2" "(1 :: u32) = mask 1" "(7 :: u32) = mask 3"
  by (simp_all add: mask_eq_exp_minus_1)

lemma signed_drop_of_int:
  assumes "- (2 ^ 31) \<le> i" "i < 2 ^ 31"
  shows "signed_drop_bit k (of_int i :: u32) = of_int (i div 2 ^ k)"
proof -
  have "signed_drop_bit k (of_int i :: u32) = of_int (sint (signed_drop_bit k (of_int i :: u32)))" by simp
  also have "sint (signed_drop_bit k (of_int i :: u32)) = i div 2 ^ k"
    using sint_of_int[OF assms] by (simp add: sint_signed_drop_bit_eq drop_bit_eq_div)
  finally show ?thesis .
qed

lemma low_bits_zero: "k \<le> 32 \<Longrightarrow> (of_int i :: u32) AND mask k = 0 \<longleftrightarrow> 2 ^ k dvd i"
proof -
  assume k: "k \<le> 32"
  have "uint (of_int i AND mask k :: u32) = i mod 2 ^ k" unfolding uint_masked[OF k] by (rule take_bit_eq_mod)
  then show ?thesis by (metis dvd_eq_mod_eq_0 uint_0_iff)
qed

text \<open>Immediates that are only masked.\<close>

lemma masked_immediates:
  "- (2 ^ 11) \<le> i \<Longrightarrow> i < 2 ^ 11 \<Longrightarrow> encode_arithmetic_immediate (of_int i) = (of_int i AND mask 12, True)"
  "- (2 ^ 11) \<le> i \<Longrightarrow> i < 2 ^ 11 \<Longrightarrow> encode_short_atomic_immediate (of_int i) = (of_int i AND mask 12, True)"
  "- (2 ^ 15) \<le> i \<Longrightarrow> i < 2 ^ 15 \<Longrightarrow> encode_relative_memory_immediate (of_int i) = (of_int i AND mask 16, True)"
  "- (2 ^ 16) \<le> i \<Longrightarrow> i < 2 ^ 16 \<Longrightarrow> encode_long_atomic_immediate (of_int i) = (of_int i AND mask 17, True)"
  "- (2 ^ 20) \<le> i \<Longrightarrow> i < 2 ^ 20 \<Longrightarrow> encode_long_relative_memory_immediate (of_int i) = (of_int i AND mask 21, True)"
  "- (2 ^ 21) \<le> i \<Longrightarrow> i < 2 ^ 21 \<Longrightarrow> encode_adpc_immediate (of_int i) = (of_int i AND mask 22, True)"
  using sint_of_int[of i]
  by (simp_all add: encode_arithmetic_immediate_def encode_short_atomic_immediate_def encode_relative_memory_immediate_def
    encode_long_atomic_immediate_def encode_long_relative_memory_immediate_def encode_adpc_immediate_def masks)

lemma branch_immediate:
  assumes "- (2 ^ 23) \<le> i" "i < 2 ^ 23" "4 dvd i"
  shows "encode_branch_immediate (of_int i) = (of_int (i div 4) AND mask 22, True)"
  using assms sint_of_int[of i] signed_drop_of_int[of i 2] low_bits_zero[of 2 i] by (simp add: encode_branch_immediate_def masks)

lemma lui_immediate:
  assumes "k < 2 ^ 22"
  shows "encode_lui_immediate (of_nat (1024 * k)) = (of_nat k, True)"
proof -
  have u: "unat (of_nat (1024 * k) :: u32) = 1024 * k" "unat (of_nat k :: u32) = k" by (rule word_of_small; use assms in simp)+
  have "(of_nat (1024 * k) :: u32) AND mask 10 = 0" using low_bits_zero[of 10 "int (1024 * k)"] by (simp add: dvd_def)
  moreover have "signed_drop_bit 10 (of_nat (1024 * k) :: u32) AND mask 22 = of_nat k"
  proof -
    have "signed_drop_bit 10 (of_nat (1024 * k) :: u32) AND mask 22 = drop_bit 10 (of_nat (1024 * k))"
      by (rule bit_word_eqI) (auto simp: bit_signed_drop_bit_iff bit_drop_bit_eq bit_and_iff bit_mask_iff dest: bit_imp_le_length)
    also have "\<dots> = of_nat k" using u by (simp add: word_unat_eq_iff drop_bit_eq_div unat_div del: of_nat_mult)
    finally show ?thesis .
  qed
  ultimately show ?thesis by (simp add: encode_lui_immediate_def masks del: of_nat_mult)
qed

lemma fits_mask:
  assumes i: "- (2 ^ 31) \<le> i" "i < 2 ^ 31" and m: "m < 31"
  shows "of_int i = (of_int i AND mask m :: u32) \<or> NOT (of_int i) = (NOT (of_int i) AND mask m :: u32) \<longleftrightarrow> - (2 ^ m) \<le> i \<and> i < 2 ^ m"
proof -
  have fit: "of_int j = (of_int j AND mask m :: u32) \<longleftrightarrow> 0 \<le> j \<and> j < 2 ^ m" if j: "- (2 ^ 31) \<le> j" "j < 2 ^ 31" for j
  proof -
    have p: "(2 :: int) ^ m < 2 ^ 31" using m by (intro power_strict_increasing) simp_all
    have "of_int j = (of_int j AND mask m :: u32) \<longleftrightarrow> sint (of_int j :: u32) = sint (of_int j AND mask m :: u32)" by (metis signed_word_eqI)
    also have "sint (of_int j AND mask m :: u32) = j mod 2 ^ m"
    proof -
      have "uint (of_int j AND mask m :: u32) = j mod 2 ^ m" using uint_masked[of m j] m by (simp add: take_bit_eq_mod)
      moreover have "j mod 2 ^ m < 2 ^ 31" by (rule less_trans[OF _ p]) simp
      moreover have "- (2 ^ 31) \<le> j mod 2 ^ m" by (rule order_trans[of _ 0]) simp_all
      ultimately show ?thesis by (simp add: sint_uint signed_take_bit_int_eq_self)
    qed
    also have "sint (of_int j :: u32) = j mod 2 ^ m \<longleftrightarrow> 0 \<le> j \<and> j < 2 ^ m"
      unfolding sint_of_int[OF j] using pos_mod_sign[of "2 ^ m" j] pos_mod_bound[of "2 ^ m" j] mod_pos_pos_trivial[of j "2 ^ m"]
      by (metis zero_less_numeral zero_less_power)
    finally show ?thesis .
  qed
  have n: "NOT (of_int i) = (of_int (- i - 1) :: u32)" by (simp add: not_eq_complement)
  show ?thesis unfolding n using fit[of i] fit[of "- i - 1"] i by auto
qed

definition mem_immediate :: "int \<Rightarrow> bool" where
  "mem_immediate i \<longleftrightarrow> (\<exists>k < 4. 2 ^ k dvd i \<and> - (2 ^ (11 + k)) \<le> i \<and> i < 2 ^ (11 + k))"

lemma mem_immediate_bound: "mem_immediate i \<Longrightarrow> - (2 ^ 31) \<le> i \<and> i < 2 ^ 31"
  by (auto simp: mem_immediate_def numeral_eq_Suc less_Suc_eq)

lemma absolute_memory_immediate:
  assumes "mem_immediate i"
  shows "\<exists>k j. encode_absolute_memory_immediate (of_int i) = ((of_int j AND mask 12) OR push_bit 12 (of_nat k), True) \<and> k < 4
    \<and> - (2 ^ 11) \<le> j \<and> j < 2 ^ 11 \<and> i = j * 2 ^ k"
proof -
  have b: "- (2 ^ 31) \<le> i" "i < 2 ^ 31" using mem_immediate_bound[OF assms] by auto
  have f: "of_int i = (of_int i AND 0x7FF :: u32) \<or> NOT (of_int i) = (NOT (of_int i) AND 0x7FF :: u32) \<longleftrightarrow> - 2048 \<le> i \<and> i < 2048"
    "of_int i = (of_int i AND 0xFFF :: u32) \<or> NOT (of_int i) = (NOT (of_int i) AND 0xFFF :: u32) \<longleftrightarrow> - 4096 \<le> i \<and> i < 4096"
    "of_int i = (of_int i AND 0x1FFF :: u32) \<or> NOT (of_int i) = (NOT (of_int i) AND 0x1FFF :: u32) \<longleftrightarrow> - 8192 \<le> i \<and> i < 8192"
    "of_int i = (of_int i AND 0x3FFF :: u32) \<or> NOT (of_int i) = (NOT (of_int i) AND 0x3FFF :: u32) \<longleftrightarrow> - 16384 \<le> i \<and> i < 16384"
    using fits_mask[OF b, of 11] fits_mask[OF b, of 12] fits_mask[OF b, of 13] fits_mask[OF b, of 14] by (simp_all add: masks)
  have l: "(of_int i :: u32) AND 1 = 0 \<longleftrightarrow> 2 dvd i" "(of_int i :: u32) AND 3 = 0 \<longleftrightarrow> 4 dvd i" "(of_int i :: u32) AND 7 = 0 \<longleftrightarrow> 8 dvd i"
    using low_bits_zero[of 1 i] low_bits_zero[of 2 i] low_bits_zero[of 3 i] by (simp_all add: mask_eq_exp_minus_1)
  note E = encode_absolute_memory_immediate_def[of "of_int i", unfolded f l signed_drop_of_int[OF b]]
  have "(- 2048 \<le> i \<and> i < 2048) \<or> ((- 4096 \<le> i \<and> i < 4096) \<and> 2 dvd i) \<or> ((- 8192 \<le> i \<and> i < 8192) \<and> 4 dvd i) \<or> ((- 16384 \<le> i \<and> i < 16384) \<and> 8 dvd i)"
    using assms by (auto simp: mem_immediate_def numeral_eq_Suc less_Suc_eq)
  then consider "- 2048 \<le> i \<and> i < 2048" | "\<not> (- 2048 \<le> i \<and> i < 2048)" "- 4096 \<le> i \<and> i < 4096" "2 dvd i"
    | "\<not> (- 2048 \<le> i \<and> i < 2048)" "\<not> ((- 4096 \<le> i \<and> i < 4096) \<and> 2 dvd i)" "- 8192 \<le> i \<and> i < 8192" "4 dvd i"
    | "\<not> (- 2048 \<le> i \<and> i < 2048)" "\<not> ((- 4096 \<le> i \<and> i < 4096) \<and> 2 dvd i)" "\<not> ((- 8192 \<le> i \<and> i < 8192) \<and> 4 dvd i)" "- 16384 \<le> i \<and> i < 16384" "8 dvd i"
    by blast
  then show ?thesis
  proof cases
    case 1
    then show ?thesis unfolding E by (intro exI[of _ "0 :: nat"] exI[of _ i]) (simp add: mask_eq_exp_minus_1)
  next
    case 2
    then show ?thesis unfolding E by (intro exI[of _ "1 :: nat"] exI[of _ "i div 2"]) (auto simp: mask_eq_exp_minus_1)
  next
    case 3
    then show ?thesis unfolding E by (intro exI[of _ "2 :: nat"] exI[of _ "i div 4"]) (auto simp: mask_eq_exp_minus_1)
  next
    case 4
    then show ?thesis unfolding E by (intro exI[of _ "3 :: nat"] exI[of _ "i div 8"]) (auto simp: mask_eq_exp_minus_1)
  qed
qed

text \<open>A bitwise immediate is a byte in one of four lanes.\<close>

lemma lane_masks: "(0xFF :: u32) = push_bit 0 (mask 8)" "(0xFF00 :: u32) = push_bit 8 (mask 8)" "(0xFF0000 :: u32) = push_bit 16 (mask 8)"
  "(0xFF000000 :: u32) = push_bit 24 (mask 8)"
  by (simp_all add: mask_eq_exp_minus_1)

lemma lane_and:
  assumes "unat x < 256"
  shows "(push_bit k x :: u32) AND push_bit k (mask 8) = push_bit k x" "k + 8 \<le> j \<or> j + 8 \<le> k \<Longrightarrow> (push_bit k x :: u32) AND push_bit j (mask 8) = 0"
  using bit_small[of x 8] assms by (fastforce simp: bit_eq_iff bit_and_iff bit_push_bit_iff bit_mask_iff)+

lemma lane_zero: "unat x < 256 \<Longrightarrow> k \<le> 24 \<Longrightarrow> (push_bit k x :: u32) = 0 \<longleftrightarrow> x = 0"
  using field_push_same[of x 8 k] by (auto simp: field_def)

lemma lane_drop:
  assumes x: "unat x < 256" and k: "k < 24 \<or> k = 24 \<and> unat x < 128"
  shows "signed_drop_bit k (push_bit k x :: u32) = x"
proof (rule bit_word_eqI)
  fix n assume n: "n < LENGTH(32)"
  have s: "bit x i \<Longrightarrow> i < 8 \<and> (k = 24 \<longrightarrow> i < 7)" for i using bit_small[of x 8 i] bit_small[of x 7 i] x k by auto
  show "bit (signed_drop_bit k (push_bit k x)) n = bit x n"
    using n k s[of n] s[of "31 - k"] by (auto simp: bit_signed_drop_bit_iff bit_push_bit_iff)
qed

definition bitwise_immediate :: "int \<Rightarrow> bool" where
  "bitwise_immediate i \<longleftrightarrow> (\<exists>b < 256. \<exists>k < 4. i = int b * 256 ^ k)"

lemma bitwise_lane:
  assumes x: "unat (x :: u32) < 256" "x \<noteq> 0 \<or> k = 0" and k: "k < 4" "k = 3 \<longrightarrow> unat x < 128"
  shows "encode_bitwise_immediate (push_bit (8 * k) x) = (push_bit 8 (of_nat k) OR x, True)"
proof -
  note A = lane_and[OF x(1)] and Z = lane_zero[OF x(1)] and D = lane_drop[OF x(1)]
  consider "k = 0" | "k = 1" "x \<noteq> 0" | "k = 2" "x \<noteq> 0" | "k = 3" "x \<noteq> 0" using x(2) k(1) by (auto simp: numeral_eq_Suc less_Suc_eq)
  then show ?thesis
  proof cases
    case 1
    then show ?thesis using A(1)[of 0] unfolding encode_bitwise_immediate_def lane_masks by simp
  next
    case 2
    then show ?thesis using A(1)[of 8] A(2)[of 8 0] Z[of 8] D[of 8] unfolding encode_bitwise_immediate_def lane_masks by (simp add: or.commute)
  next
    case 3
    then show ?thesis using A(1)[of 16] A(2)[of 16 0] A(2)[of 16 8] Z[of 16] D[of 16] unfolding encode_bitwise_immediate_def lane_masks
      by (simp add: or.commute)
  next
    case 4
    then show ?thesis using A(1)[of 24] A(2)[of 24 0] A(2)[of 24 8] A(2)[of 24 16] Z[of 24] D[of 24] k(2)
      unfolding encode_bitwise_immediate_def lane_masks by (simp add: or.commute)
  qed
qed

lemma bitwise_immediate_text:
  assumes "bitwise_immediate i" "i < 2 ^ 31"
  shows "\<exists>k b. encode_bitwise_immediate (of_int i) = (push_bit 8 (of_nat k) OR of_nat b, True) \<and> k < 4 \<and> b < 256 \<and> i = int b * 256 ^ k"
proof -
  obtain b k where b: "b < 256" "k < 4" "i = int b * 256 ^ k" using assms(1) by (auto simp: bitwise_immediate_def)
  then have k: "k = 3 \<longrightarrow> b < 128" using assms(2) by auto
  have u: "unat (of_nat b :: u32) = b" using b(1) by (intro word_of_small) simp
  have p: "(of_int i :: u32) = push_bit (8 * k) (of_nat b)" by (simp add: b(3) push_bit_eq_mult power_mult)
  have z: "(of_nat b :: u32) = 0 \<longleftrightarrow> b = 0" using u by (metis unat_0 unat_eq_zero)
  show ?thesis
  proof (cases "b = 0")
    case True
    then have i: "i = 0" using b(3) by simp
    have "encode_bitwise_immediate 0 = (0, True)" using bitwise_lane[of 0 0] by simp
    then show ?thesis unfolding i by (intro exI[of _ "0 :: nat"]) simp
  next
    case False
    then show ?thesis using bitwise_lane[of "of_nat b" k] b k p u z by metis
  qed
qed

end
