(* ===== verification/Basm_Text.thy ===== *)
theory Basm_Text
  imports Basm_Isa
begin

text \<open>
  The instructions of the machine and the statements that the assembler accepts for them: their text, the
  instruction that a word stands for, and scanning of the operands.  The sources contain no description of
  the instruction set other than the encoder; the decoder below states the format of each instruction once, by fields.
\<close>

section \<open>Instructions\<close>

text \<open>Registers are numbers below 32, control registers numbers below 13.  Memory instructions have a width (0 word,
  1 double byte, 2 byte), whether they load, the register, the base register and the offset; absolute ones have an addressing
  mode (0 offset, 1 preincrement, 2 postincrement).  Of the privileged instructions, a TLB operation is read, write,
  invalidate or clear; a control register move says for its target and its source whether they are control registers; a mode
  is run, sleep or halt; an interrupt is sent to one core or to all, and one interrupt or all are acknowledged.\<close>

datatype insn =
    Alu nat nat nat nat
  | AluImm nat nat nat int
  | Lui nat nat
  | MemAbs nat bool nat nat nat int
  | MemRel nat bool nat nat int
  | MemLong nat bool nat int
  | BranchImm nat int
  | BranchReg bool nat nat nat
  | Adpc nat int
  | Trap
  | AtomicAbs bool nat nat nat int
  | AtomicRel bool nat nat nat int
  | AtomicLong bool nat nat int
  | Tlb nat nat nat
  | Crmv bool bool nat nat
  | Mode nat
  | Rfe
  | Ipi nat "nat option"
  | Eoi "nat option"

text \<open>Operations with one source register.\<close>

definition unary :: "nat \<Rightarrow> bool" where
  "unary op \<longleftrightarrow> op \<in> {6, 18, 19, 20, 21}"

definition fits :: "nat \<Rightarrow> int \<Rightarrow> bool" where
  "fits n i \<longleftrightarrow> - (2 ^ (n - 1)) \<le> i \<and> i < 2 ^ (n - 1)"

text \<open>What the fields of an instruction word can hold; a bitwise immediate is a byte in one of four lanes.\<close>

fun encodable :: "insn \<Rightarrow> bool" where
  "encodable (Alu op a b c) \<longleftrightarrow> op < 22 \<and> a < 32 \<and> b < 32 \<and> c < 32 \<and> (unary op \<longrightarrow> b = 0)"
| "encodable (AluImm op a b i) \<longleftrightarrow> op < 19 \<and> a < 32 \<and> b < 32 \<and> (unary op \<longrightarrow> b = 0) \<and>
     (if op < 7 then bitwise_immediate i else if op < 14 then 0 \<le> i \<and> i < 32 else fits 12 i)"
| "encodable (Lui a k) \<longleftrightarrow> a < 32 \<and> k < 2 ^ 22"
| "encodable (MemAbs w l a b y i) \<longleftrightarrow> w < 3 \<and> a < 32 \<and> b < 32 \<and> y < 3 \<and> mem_immediate i"
| "encodable (MemRel w l a b i) \<longleftrightarrow> w < 3 \<and> a < 32 \<and> b < 32 \<and> fits 16 i"
| "encodable (MemLong w l a i) \<longleftrightarrow> w < 3 \<and> a < 32 \<and> fits 21 i"
| "encodable (BranchImm op i) \<longleftrightarrow> op < 19 \<and> fits 24 i \<and> 4 dvd i"
| "encodable (BranchReg absolute op a b) \<longleftrightarrow> op < 19 \<and> a < 32 \<and> b < 32"
| "encodable (Adpc a i) \<longleftrightarrow> a < 32 \<and> fits 22 i"
| "encodable Trap \<longleftrightarrow> True"
| "encodable (AtomicAbs f a c b i) \<longleftrightarrow> a < 32 \<and> c < 32 \<and> b < 32 \<and> fits 12 i"
| "encodable (AtomicRel f a c b i) \<longleftrightarrow> a < 32 \<and> c < 32 \<and> b < 32 \<and> fits 12 i"
| "encodable (AtomicLong f a c i) \<longleftrightarrow> a < 32 \<and> c < 32 \<and> fits 17 i"
| "encodable (Tlb op a b) \<longleftrightarrow> op < 4 \<and> a < 32 \<and> b < 32 \<and> (2 \<le> op \<longrightarrow> a = 0) \<and> (op = 3 \<longrightarrow> b = 0)"
| "encodable (Crmv dc sc a b) \<longleftrightarrow> a < (if dc then 13 else 32) \<and> b < (if sc then 13 else 32)"
| "encodable (Mode m) \<longleftrightarrow> m < 3"
| "encodable Rfe \<longleftrightarrow> True"
| "encodable (Ipi a k) \<longleftrightarrow> a < 32 \<and> (\<forall>n. k = Some n \<longrightarrow> n < 4)"
| "encodable (Eoi k) \<longleftrightarrow> (\<forall>n. k = Some n \<longrightarrow> n < 16)"

fun privileged :: "insn \<Rightarrow> bool" where
  "privileged (Tlb op a b) = True"
| "privileged (Crmv dc sc a b) = True"
| "privileged (Mode m) = True"
| "privileged Rfe = True"
| "privileged (Ipi a k) = True"
| "privileged (Eoi k) = True"
| "privileged i = False"

section \<open>Statements\<close>

text \<open>A statement is an instruction or one of the other forms: comparisons, jumps, branches to one register, accesses
  without an offset, and the halves of a wide move.\<close>

datatype stmt =
    Plain insn
  | CmpReg nat nat
  | CmpImm nat int
  | JmpReg nat
  | JmpImm int
  | BranchOne bool nat nat
  | MemNoOffset nat bool bool nat nat
  | AtomicNoOffset bool bool nat nat nat
  | Movu nat int
  | Movl nat int

fun meaning :: "stmt \<Rightarrow> insn" where
  "meaning (Plain i) = i"
| "meaning (CmpReg b d) = Alu 16 0 b d"
| "meaning (CmpImm b i) = AluImm 16 0 b i"
| "meaning (JmpReg b) = BranchReg True 0 0 b"
| "meaning (JmpImm i) = BranchImm 0 i"
| "meaning (BranchOne absolute op b) = BranchReg absolute op 0 b"
| "meaning (MemNoOffset w l absolute a b) = (if absolute then MemAbs w l a b 0 0 else MemRel w l a b 0)"
| "meaning (AtomicNoOffset f absolute a d b) = (if absolute then AtomicAbs f a d b 0 else AtomicRel f a d b 0)"
| "meaning (Movu a i) = Lui a (nat (i mod 2 ^ 32) div 1024)"
| "meaning (Movl a i) = AluImm 14 a a (i mod 1024)"

definition alu_names :: "string list" where
  "alu_names = [''and'', ''nand'', ''or'', ''nor'', ''xor'', ''xnor'', ''not'', ''lsl'', ''lsr'', ''asr'', ''rotl'', ''rotr'', ''lslc'', ''lsrc'',
     ''add'', ''addc'', ''sub'', ''subb'', ''sxtb'', ''sxtd'', ''tncb'', ''tncd'']"

definition branch_names :: "string list" where
  "branch_names = [''br'', ''bz'', ''bnz'', ''bs'', ''bns'', ''bc'', ''bnc'', ''bo'', ''bno'', ''bps'', ''bnps'', ''bg'', ''bge'', ''bl'', ''ble'',
     ''ba'', ''bae'', ''bb'', ''bbe'']"

definition branch_abs_names :: "string list" where
  "branch_abs_names = [''bra'', ''bza'', ''bnza'', ''bsa'', ''bnsa'', ''bca'', ''bnca'', ''boa'', ''bnoa'', ''bpa'', ''bnpa'', ''bga'', ''bgea'', ''bla'',
     ''blea'', ''baa'', ''baea'', ''bba'', ''bbea'']"

definition mem_name :: "nat \<Rightarrow> bool \<Rightarrow> bool \<Rightarrow> string" where
  "mem_name width load absolute = (if load then ''l'' else ''s'') @ (if width = 0 then ''w'' else if width = 1 then ''d'' else ''b'') @ (if absolute then ''a'' else [])"

definition atomic_name :: "bool \<Rightarrow> bool \<Rightarrow> string" where
  "atomic_name fadd absolute = (if fadd then ''fad'' else ''swp'') @ (if absolute then ''a'' else [])"

definition tlb_names :: "string list" where
  "tlb_names = [''tlbr'', ''tlbw'', ''tlbi'', ''tlbc'']"

definition mode_names :: "string list" where
  "mode_names = [''run'', ''sleep'', ''halt'']"

fun insn_mnemonic :: "insn \<Rightarrow> string" where
  "insn_mnemonic (Alu op a b c) = alu_names ! op"
| "insn_mnemonic (AluImm op a b i) = alu_names ! op"
| "insn_mnemonic (Lui a k) = ''lui''"
| "insn_mnemonic (MemAbs w l a b y i) = mem_name w l True"
| "insn_mnemonic (MemRel w l a b i) = mem_name w l False"
| "insn_mnemonic (MemLong w l a i) = mem_name w l False"
| "insn_mnemonic (BranchImm op i) = branch_names ! op"
| "insn_mnemonic (BranchReg absolute op a b) = (if absolute then branch_abs_names else branch_names) ! op"
| "insn_mnemonic (Adpc a i) = ''adpc''"
| "insn_mnemonic Trap = ''trap''"
| "insn_mnemonic (AtomicAbs f a c b i) = atomic_name f True"
| "insn_mnemonic (AtomicRel f a c b i) = atomic_name f False"
| "insn_mnemonic (AtomicLong f a c i) = atomic_name f False"
| "insn_mnemonic (Tlb op a b) = tlb_names ! op"
| "insn_mnemonic (Crmv dc sc a b) = ''crmv''"
| "insn_mnemonic (Mode m) = ''mode''"
| "insn_mnemonic Rfe = ''rfe''"
| "insn_mnemonic (Ipi a k) = ''ipi''"
| "insn_mnemonic (Eoi k) = ''eoi''"

fun mnemonic :: "stmt \<Rightarrow> string" where
  "mnemonic (Plain i) = insn_mnemonic i"
| "mnemonic (CmpReg b d) = ''cmp''"
| "mnemonic (CmpImm b i) = ''cmp''"
| "mnemonic (JmpReg b) = ''jmp''"
| "mnemonic (JmpImm i) = ''jmp''"
| "mnemonic (BranchOne absolute op b) = (if absolute then branch_abs_names else branch_names) ! op"
| "mnemonic (MemNoOffset w l absolute a b) = mem_name w l absolute"
| "mnemonic (AtomicNoOffset f absolute a d b) = atomic_name f absolute"
| "mnemonic (Movu a i) = ''movu''"
| "mnemonic (Movl a i) = ''movl''"

text \<open>The number that a statement spells, 0 when there is none.\<close>

fun insn_number :: "insn \<Rightarrow> int" where
  "insn_number (AluImm op a b i) = i"
| "insn_number (Lui a k) = 1024 * int k"
| "insn_number (MemAbs w l a b y i) = i"
| "insn_number (MemRel w l a b i) = i"
| "insn_number (MemLong w l a i) = i"
| "insn_number (BranchImm op i) = i"
| "insn_number (Adpc a i) = i"
| "insn_number (AtomicAbs f a d b i) = i"
| "insn_number (AtomicRel f a d b i) = i"
| "insn_number (AtomicLong f a d i) = i"
| "insn_number (Ipi a (Some n)) = int n"
| "insn_number (Eoi (Some n)) = int n"
| "insn_number i = 0"

fun number :: "stmt \<Rightarrow> int" where
  "number (Plain i) = insn_number i"
| "number (CmpImm b i) = i"
| "number (JmpImm i) = i"
| "number (Movu a i) = i"
| "number (Movl a i) = i"
| "number s = 0"

definition reg :: "nat \<Rightarrow> bytes" where "reg n = 32 # 114 # dec n"

definition control :: "nat \<Rightarrow> bytes" where "control n = 32 # 99 # 114 # dec n"

definition imm :: "bytes \<Rightarrow> bytes" where "imm t = 32 # t"

fun insn_operands :: "bytes \<Rightarrow> insn \<Rightarrow> bytes" where
  "insn_operands t (Alu op a b c) = reg a @ (if unary op then [] else reg b) @ reg c"
| "insn_operands t (AluImm op a b i) = reg a @ (if unary op then [] else reg b) @ imm t"
| "insn_operands t (Lui a k) = reg a @ imm t"
| "insn_operands t (MemAbs w l a b y i) = reg a @ [32, 91] @ reg b @ (if y = 2 then 93 # imm t else imm t @ 93 # (if y = 1 then [33] else []))"
| "insn_operands t (MemRel w l a b i) = reg a @ [32, 91] @ reg b @ imm t @ [93]"
| "insn_operands t (MemLong w l a i) = reg a @ [32, 91] @ imm t @ [93]"
| "insn_operands t (BranchImm op i) = imm t"
| "insn_operands t (BranchReg absolute op a b) = reg a @ reg b"
| "insn_operands t (Adpc a i) = reg a @ imm t"
| "insn_operands t Trap = []"
| "insn_operands t (AtomicAbs f a d b i) = reg a @ reg d @ [32, 91] @ reg b @ imm t @ [93]"
| "insn_operands t (AtomicRel f a d b i) = reg a @ reg d @ [32, 91] @ reg b @ imm t @ [93]"
| "insn_operands t (AtomicLong f a d i) = reg a @ reg d @ [32, 91] @ imm t @ [93]"
| "insn_operands t (Tlb op a b) = (if op < 2 then reg a else []) @ (if op < 3 then reg b else [])"
| "insn_operands t (Crmv dc sc a b) = (if dc then control a else reg a) @ (if sc then control b else reg b)"
| "insn_operands t (Mode m) = 32 # str (mode_names ! m)"
| "insn_operands t Rfe = []"
| "insn_operands t (Ipi a k) = reg a @ (if k = None then 32 # str ''all'' else imm t)"
| "insn_operands t (Eoi k) = (if k = None then 32 # str ''all'' else imm t)"

fun operands :: "bytes \<Rightarrow> stmt \<Rightarrow> bytes" where
  "operands t (Plain i) = insn_operands t i"
| "operands t (CmpReg b d) = reg b @ reg d"
| "operands t (CmpImm b i) = reg b @ imm t"
| "operands t (JmpReg b) = reg b"
| "operands t (JmpImm i) = imm t"
| "operands t (BranchOne absolute op b) = reg b"
| "operands t (MemNoOffset w l absolute a b) = reg a @ [32, 91] @ reg b @ [93]"
| "operands t (AtomicNoOffset f absolute a d b) = reg a @ reg d @ [32, 91] @ reg b @ [93]"
| "operands t (Movu a i) = reg a @ imm t"
| "operands t (Movl a i) = reg a @ imm t"

definition stmt_text :: "bytes \<Rightarrow> stmt \<Rightarrow> bytes" where
  "stmt_text t s = str (mnemonic s) @ operands t s"

section \<open>Decoding\<close>

definition nat_field :: "nat \<Rightarrow> nat \<Rightarrow> u32 \<Rightarrow> nat" where
  "nat_field lo n w = unat (field lo n w)"

definition int_field :: "nat \<Rightarrow> u32 \<Rightarrow> int" where
  "int_field n w = sext n (field 0 n w)"

definition alu_immediate :: "nat \<Rightarrow> u32 \<Rightarrow> int" where
  "alu_immediate op x = (if op < 7 then int (nat_field 0 8 x) * 256 ^ nat_field 8 2 x else if op < 14 then uint x else sext 12 x)"

text \<open>The privileged instructions share opcode 31.\<close>

definition decode_privileged :: "u32 \<Rightarrow> insn option" where
  "decode_privileged w = (let id = nat_field 12 5 w; kind = nat_field 10 2 w; ra = nat_field 22 5 w; rb = nat_field 17 5 w in
     if id = 0 then Some (Tlb kind ra rb)
     else if id = 1 then Some (Crmv (kind = 0 \<or> kind = 2) (kind = 1 \<or> kind = 2) ra rb)
     else if id = 2 then Some (Mode kind)
     else if id = 3 then Some Rfe
     else if id = 4 then Some (Ipi ra (if nat_field 11 1 w = 1 then None else Some (nat_field 0 2 w)))
     else if id = 5 then Some (Eoi (if nat_field 11 1 w = 1 then None else Some (nat_field 0 4 w)))
     else None)"

definition decode :: "u32 \<Rightarrow> insn option" where
  "decode w = (let opcode = nat_field 27 5 w; ra = nat_field 22 5 w; rb = nat_field 17 5 w in
     if opcode = 0 then Some (Alu (nat_field 5 5 w) ra rb (nat_field 0 5 w))
     else if opcode = 1 then Some (AluImm (nat_field 12 5 w) ra rb (alu_immediate (nat_field 12 5 w) (field 0 12 w)))
     else if opcode = 2 then Some (Lui ra (nat_field 0 22 w))
     else if opcode < 12 then
       let width = (opcode - 3) div 3 in
       if opcode mod 3 = 0 then Some (MemAbs width (nat_field 16 1 w = 1) ra rb (nat_field 14 2 w) (int_field 12 w * 2 ^ nat_field 12 2 w))
       else if opcode mod 3 = 1 then Some (MemRel width (nat_field 16 1 w = 1) ra rb (int_field 16 w))
       else Some (MemLong width (nat_field 21 1 w = 1) ra (int_field 21 w))
     else if opcode = 12 then Some (BranchImm ra (int_field 22 w * 4))
     else if opcode = 13 \<or> opcode = 14 then Some (BranchReg (opcode = 13) ra (nat_field 5 5 w) (nat_field 0 5 w))
     else if opcode = 15 then Some Trap
     else if opcode = 16 \<or> opcode = 19 then Some (AtomicAbs (opcode = 16) ra rb (nat_field 12 5 w) (int_field 12 w))
     else if opcode = 17 \<or> opcode = 20 then Some (AtomicRel (opcode = 17) ra rb (nat_field 12 5 w) (int_field 12 w))
     else if opcode = 18 \<or> opcode = 21 then Some (AtomicLong (opcode = 18) ra rb (int_field 17 w))
     else if opcode = 22 then Some (Adpc ra (int_field 22 w))
     else if opcode = 31 then decode_privileged w
     else None)"

section \<open>Words made of fields\<close>

text \<open>Fields from the highest to the lowest: position, width, value.\<close>

fun pack :: "(nat \<times> nat \<times> u32) list \<Rightarrow> u32" where
  "pack [] = 0"
| "pack ((p, n, x) # fs) = push_bit p x OR pack fs"

fun packed :: "nat \<Rightarrow> (nat \<times> nat \<times> u32) list \<Rightarrow> bool" where
  "packed hi [] = True"
| "packed hi ((p, n, x) # fs) \<longleftrightarrow> p + n \<le> hi \<and> unat x < 2 ^ n \<and> packed p fs"

lemma packed_bits: "packed hi fs \<Longrightarrow> bit (pack fs) i \<Longrightarrow> i < hi"
proof (induction fs arbitrary: hi)
  case (Cons f fs)
  obtain p n x where f: "f = (p, n, x)" by (cases f)
  show ?case using Cons bit_small[of x n "i - p"] by (force simp: f bit_or_iff bit_push_bit_iff)
qed simp

lemma field_beyond: "(\<And>i. bit w i \<Longrightarrow> i < lo) \<Longrightarrow> field lo n w = 0"
  by (rule bit_word_eqI) (fastforce simp: field_def bit_take_bit_iff bit_drop_bit_eq)

lemma packed_below: "packed hi fs \<Longrightarrow> (p, n, x) \<in> set fs \<Longrightarrow> p + n \<le> hi"
  by (induction fs arbitrary: hi) fastforce+

lemma field_pack:
  assumes "packed hi fs" "hi \<le> 32" "(p, n, x) \<in> set fs"
  shows "field p n (pack fs) = x"
  using assms
proof (induction fs arbitrary: hi)
  case (Cons f fs)
  obtain q m y where f: "f = (q, m, y)" by (cases f)
  have pk: "packed q fs" "unat y < 2 ^ m" "q + m \<le> hi" using Cons(2) f by auto
  show ?case
  proof (cases "(p, n, x) = f")
    case True
    have "field q m (pack fs) = 0" by (rule field_beyond) (rule packed_bits[OF pk(1)])
    then show ?thesis using True f pk Cons(3) by (simp add: field_or field_push_same)
  next
    case False
    then have m: "(p, n, x) \<in> set fs" using Cons(4) by simp
    moreover have "p + n \<le> q" by (rule packed_below[OF pk(1) m])
    ultimately show ?thesis using Cons(1)[OF pk(1)] pk(3) Cons(3) by (simp add: f field_or field_push_above)
  qed
qed simp

section \<open>Operands\<close>

definition stop :: "bytes \<Rightarrow> bool" where "stop ys \<longleftrightarrow> first ys \<in> {0, 10, 32, 93}"

lemma stop_facts: "stop ys \<Longrightarrow> \<not> is_identifier_char (first ys)" "stop ys \<Longrightarrow> ends (first ys)"
  by (auto simp: stop_def ends_def isspace_def isdigit_def isalpha_def isalnum_def is_identifier_char_def word_le_nat_alt)

lemma stop_text [simp]: "stop (reg n @ ys)" "stop (imm t @ ys)" "stop (control n @ ys)" "stop (32 # ys)" "stop (93 # ys)" "stop (10 # ys)" "stop []"
  by (simp_all add: stop_def reg_def imm_def control_def)

lemma blank [simp]: "skippable 32"
  by (simp add: skippable_def isspace_def)

lemma reg_text: "cur_rest c = reg n @ ys \<Longrightarrow> n < 32 \<Longrightarrow> stop ys \<Longrightarrow> \<exists>c'. consume_register c = (of_nat n, c') \<and> cur_rest c' = ys"
  using consume_register_text[of c "[32]" n ys] stop_facts(1)[of ys] by (simp add: reg_def)

lemma reg_valid [simp]: "n < 32 \<Longrightarrow> (of_nat n :: u32) \<noteq> - 1" "n < 32 \<Longrightarrow> unat (of_nat n :: u32) = n"
proof -
  assume n: "n < 32"
  show u: "unat (of_nat n :: u32) = n" using n by (intro word_of_small) simp
  show "(of_nat n :: u32) \<noteq> - 1"
  proof
    assume "(of_nat n :: u32) = - 1"
    then show False using u n by simp
  qed
qed

lemma control_text:
  assumes c: "cur_rest c = control n @ ys \<or> cur_rest c = 99 # 114 # dec n @ ys" and n: "n < 13" and ys: "stop ys"
  shows "\<exists>c'. consume_control_register c = (of_nat n, c') \<and> cur_rest c' = ys"
proof -
  have a: "\<not> skippable 99" by (rule not_skippable(1)) (simp add: isalnum_def isalpha_def)
  have r: "cur_rest (skip c) = [99, 114] @ dec n @ ys"
    using skip_run[of c "[32]" "99 # 114 # dec n @ ys"] skip_run[of c "[]" "99 # 114 # dec n @ ys"] c a by (auto simp: control_def)
  obtain d ds where d: "dec n = d # ds" using dec_digits(2)[of n] by (cases "dec n") auto
  have di: "isdigit d" using dec_digits(1)[of n] d by simp
  have "\<exists>c'. numbered_register 2 12 (skip c) = (of_nat n, c') \<and> cur_rest c' = ys"
    by (rule numbered_register_run[OF r]) (use n stop_facts(1)[OF ys] in auto)
  moreover have "peek 0 (skip c) = 99" "peek 1 (skip c) = 114" "peek 2 (skip c) = d" using r d by (simp_all add: peek_def)
  ultimately show ?thesis using di by (simp add: consume_control_register_def Let_def)
qed

lemma control_no_reg: "cur_rest c = control n @ ys \<Longrightarrow> \<exists>c'. consume_register c = (- 1, c') \<and> cur_rest c' = 99 # 114 # dec n @ ys"
proof -
  have "\<not> skippable 99" by (rule not_skippable(1)) (simp add: isalnum_def isalpha_def)
  then show "cur_rest c = control n @ ys \<Longrightarrow> ?thesis" using no_register[of c "[32]" "99 # 114 # dec n @ ys"] by (simp add: control_def)
qed

lemma imm_text:
  assumes "literal t i" "stop ys"
  shows "cur_rest c = imm t @ ys \<Longrightarrow> \<exists>c'. consume_immediate e c = Some (FOUND, of_int i, c') \<and> cur_rest c' = ys"
    "cur_rest c = t @ ys \<Longrightarrow> \<exists>c'. consume_immediate e c = Some (FOUND, of_int i, c') \<and> cur_rest c' = ys"
    "cur_rest c = imm t @ ys \<Longrightarrow> \<exists>c'. consume_literal c = (FOUND, of_int i, c') \<and> cur_rest c' = ys"
    "cur_rest c = t @ ys \<Longrightarrow> \<exists>c'. consume_literal c = (FOUND, of_int i, c') \<and> cur_rest c' = ys"
    "cur_rest c = imm t @ ys \<Longrightarrow> \<exists>c'. consume_label_imm e c = Some (NOT_FOUND, 0, c') \<and> cur_rest c' = t @ ys"
  using consume_immediate_text[OF assms(1), of c "[32]" ys e] consume_immediate_text[OF assms(1), of c "[]" ys e]
    consume_literal_text[OF assms(1), of c "[32]" ys] consume_literal_text[OF assms(1), of c "[]" ys] stop_facts(2)[OF assms(2)]
  by (simp_all add: imm_def)

lemma imm_no_reg: "literal t i \<Longrightarrow> cur_rest c = imm t @ ys \<Longrightarrow> \<exists>c'. consume_register c = (- 1, c') \<and> cur_rest c' = t @ ys"
  using no_register[of c "[32]" "t @ ys"] literal_start[of t i ys] by (simp add: imm_def)

lemma bracket_text: "cur_rest c = 32 # 91 # ys \<Longrightarrow> \<exists>c'. consume (str ''['') c = (True, c') \<and> cur_rest c' = ys"
  "cur_rest c = 93 # ys \<Longrightarrow> \<exists>c'. consume (str '']'') c = (True, c') \<and> cur_rest c' = ys"
  using consume_text[of c "[32]" "[91]" ys] consume_text[of c "[]" "[93]" ys] not_skippable(2,3) by (simp_all add: str_def of_char_def)

lemma imm_no_bracket:
  assumes "literal t i" "cur_rest c = imm t @ ys \<or> cur_rest c = t @ ys"
  shows "\<exists>c'. consume (str '']'') c = (False, c') \<and> cur_rest c' = t @ ys"
proof -
  have s: "str '']'' = [93]" by (simp add: str_def of_char_def)
  have h: "93 \<noteq> first (t @ ys)" using literal_start(3)[OF assms(1), of ys] by auto
  from assms(2) show ?thesis
  proof
    assume "cur_rest c = imm t @ ys"
    then show ?thesis unfolding s using consume_other[of c "[32]" "t @ ys" "[93]"] literal_start(1)[OF assms(1), of ys] h by (simp add: imm_def)
  next
    assume "cur_rest c = t @ ys"
    then show ?thesis unfolding s using consume_other[of c "[]" "t @ ys" "[93]"] literal_start(1)[OF assms(1), of ys] h by simp
  qed
qed

lemma try_names_none: "list_all (\<lambda>(k, v). k \<noteq> [] \<and> hd k \<noteq> first (cur_rest c)) names \<Longrightarrow> try_names names c = (- 1, c)"
proof (induction names)
  case (Cons p names)
  obtain k v where p: "p = (k, v)" by (cases p)
  have "\<not> at_string k c" using Cons(2) p by (cases k; cases "cur_rest c") (auto simp: at_string_def)
  then show ?case using Cons p by (simp add: consume_named_register_def)
qed simp

lemma reg_no_control:
  assumes "cur_rest c = reg n @ ys" "n < 32" "stop ys"
  shows "\<exists>c1 c2. consume_control_register c = (- 1, c1) \<and> consume_register c1 = (of_nat n, c2) \<and> cur_rest c2 = ys"
proof -
  have a: "\<not> skippable 114" by (rule not_skippable(1)) (simp add: isalnum_def isalpha_def)
  then have r: "cur_rest (skip c) = 114 # dec n @ ys" using skip_run[of c "[32]" "114 # dec n @ ys"] assms(1) by (simp add: reg_def)
  then have "try_names control_names (skip c) = (- 1, skip c)" by (intro try_names_none) (simp add: control_names_def str_def of_char_def)
  then have "consume_control_register c = (- 1, skip c)" using r by (simp add: consume_control_register_def Let_def peek_0)
  then show ?thesis using consume_register_text[of "skip c" "[]" n ys] r assms(2) stop_facts(1)[OF assms(3)] by simp
qed

text \<open>The word \<open>all\<close> after a blank.\<close>

lemma skip_blank:
  assumes "cur_rest c = 32 # zs" "\<not> skippable (first zs)"
  shows "boundary (skip c)" "cur_rest (skip c) = zs"
proof -
  show r: "cur_rest (skip c) = zs" using skip_run[of c "[32]" zs] assms by simp
  have "takeWhile skippable zs = []" using assms(2) by (cases zs) auto
  then show "boundary (skip c)" using assms(1)
    by (simp add: skip_def boundary_def advance_def is_identifier_body_char_def is_identifier_char_def isalnum_def isalpha_def isdigit_def)
qed

lemma all_text:
  assumes "cur_rest c = 32 # str ''all'' @ ys" "isspace (first ys) \<or> first ys = 0"
  shows "\<exists>c'. consume_keyword (str ''all'') (skip c) = (True, c') \<and> cur_rest c' = ys"
proof -
  have a: "list_all isalpha (str ''all'')" by (simp add: isalpha_def str_def of_char_def)
  have "\<not> skippable 97" by (rule not_skippable(1)) (simp add: isalnum_def isalpha_def)
  then have s: "\<not> skippable (first (str ''all'' @ ys))" by (simp add: str_def of_char_def)
  show ?thesis using consume_keyword_iff(1,2)[OF skip_blank[OF assms(1) s] a a assms(2)] by (cases "consume_keyword (str ''all'') (skip c)") simp
qed

lemma imm_no_all:
  assumes "literal t i" "cur_rest c = imm t @ ys"
  shows "consume_keyword (str ''all'') (skip c) = (False, skip c)" "cur_rest (skip c) = t @ ys"
proof -
  show r: "cur_rest (skip c) = t @ ys" using skip_blank(2)[of c "t @ ys"] assms literal_start(1)[OF assms(1)] by (simp add: imm_def)
  have "\<not> at_string (str ''all'') (skip c)" using r literal_start(3)[OF assms(1), of ys] by (cases "t @ ys") (auto simp: at_string_def str_def of_char_def)
  then show "consume_keyword (str ''all'') (skip c) = (False, skip c)" by (simp add: consume_keyword_def)
qed

text \<open>The end of the line or of the file.\<close>

definition line_end :: "bytes \<Rightarrow> bool" where "line_end ys \<longleftrightarrow> first ys \<in> {0, 10}"

lemma line_end_stop [simp]: "line_end ys \<Longrightarrow> stop ys"
  by (auto simp: line_end_def stop_def)

lemma bang_text: "cur_rest c = 33 # ys \<Longrightarrow> \<exists>c'. consume (str ''!'') c = (True, c') \<and> cur_rest c' = ys"
  "cur_rest c = ys \<Longrightarrow> line_end ys \<Longrightarrow> \<exists>c'. consume (str ''!'') c = (False, c') \<and> cur_rest c' = ys"
  using consume_text[of c "[]" "[33]" ys] consume_other[of c "[]" ys "[33]"] not_skippable(4,6,7) by (auto simp: str_def of_char_def line_end_def)

lemma line_end_no_reg: "cur_rest c = ys \<Longrightarrow> line_end ys \<Longrightarrow> \<exists>c'. consume_register c = (- 1, c') \<and> cur_rest c' = ys"
  using no_register[of c "[]" ys] not_skippable(6,7) by (auto simp: line_end_def)

lemma line_end_no_literal: "cur_rest c = ys \<Longrightarrow> line_end ys \<Longrightarrow> \<exists>c'. consume_literal c = (NOT_FOUND, 0, c') \<and> cur_rest c' = ys"
proof -
  assume c: "cur_rest c = ys" and y: "line_end ys"
  have r: "cur_rest (skip c) = ys" using skip_run[of c "[]" ys] c y not_skippable(6,7) by (auto simp: line_end_def)
  have "peek 0 (skip c) = 0 \<or> peek 0 (skip c) = 10" using r y by (simp add: peek_0 line_end_def)
  then show ?thesis using r by (elim disjE) (simp_all add: consume_literal_def isdigit_def)
qed

lemma masked_self: "unat (x :: u32) < 2 ^ n \<Longrightarrow> x AND mask n = x"
  by (rule bit_word_eqI) (auto simp: bit_and_iff bit_mask_iff dest: bit_small)

lemma masked_bound: "n < 32 \<Longrightarrow> (\<And>i. bit (x :: u32) i \<Longrightarrow> i < n) \<Longrightarrow> unat x < 2 ^ n"
proof -
  assume n: "n < 32" "\<And>i. bit x i \<Longrightarrow> i < n"
  then have "take_bit n x = x" by (auto simp: bit_eq_iff bit_take_bit_iff)
  then have "unat x = take_bit n (unat x)" by (metis unsigned_take_bit_eq)
  then show ?thesis by (metis take_bit_nat_less_exp)
qed

lemma packed_bound: "packed n fs \<Longrightarrow> n < 32 \<Longrightarrow> unat (pack fs) < 2 ^ n"
  using masked_bound packed_bits by blast

lemma fits_bound: "fits n i \<Longrightarrow> 0 < n \<Longrightarrow> n \<le> 32 \<Longrightarrow> unat (of_int i AND mask n :: u32) < 2 ^ n" "fits n i \<Longrightarrow> 0 < n \<Longrightarrow> n \<le> 32 \<Longrightarrow> sext n (of_int i AND mask n) = i"
  using mask_field[of n i] by (simp_all add: fits_def)

end
