(* ===== verification/Basm_Arith.thy ===== *)
theory Basm_Arith
  imports Basm_Text
begin

text \<open>
  The arithmetic instructions and the comparison on their text: which word \<open>consume_alu_op\<close> and \<open>consume_cmp\<close> of
  \<open>root/basm/assembler.c\<close> give, and the immediates on which \<open>consume_alu_op\<close> stops.
\<close>

section \<open>Arithmetic instructions\<close>

definition alu_unary :: "u32 \<Rightarrow> bool" where
  "alu_unary op \<longleftrightarrow> \<not> (op \<noteq> 6 \<and> op \<noteq> 18 \<and> op \<noteq> 19 \<and> op \<noteq> 20 \<and> op \<noteq> 21)"

lemma small_eq: "n < 32 \<Longrightarrow> k < 32 \<Longrightarrow> (of_nat n :: u32) = of_nat k \<longleftrightarrow> n = k"
  by (metis reg_valid(2))

lemma alu_registers:
  assumes op: "op < 22" "unary op \<longrightarrow> b = 0" and r: "a < 32" "b < 32" and c: "cur_rest c = reg a @ (if unary op then [] else reg b) @ ys" and ys: "stop ys"
  shows "\<exists>c1 c2. consume_register c = (of_nat a, c1) \<and> (if \<not> alu_unary (of_nat op) then consume_register c1 else (0, c1)) = (of_nat b, c2) \<and> cur_rest c2 = ys"
proof -
  have un: "alu_unary (of_nat op) \<longleftrightarrow> unary op"
    using small_eq[of op 6] small_eq[of op 18] small_eq[of op 19] small_eq[of op 20] small_eq[of op 21] op by (simp add: unary_def alu_unary_def)
  show ?thesis
  proof (cases "unary op")
    case True
    then show ?thesis using reg_text[of c a ys] c r op ys un by auto
  next
    case False
    obtain c1 where c1: "consume_register c = (of_nat a, c1)" "cur_rest c1 = reg b @ ys" using reg_text[of c a "reg b @ ys"] c r False by auto
    show ?thesis using reg_text[OF c1(2) r(2) ys] c1 un False by auto
  qed
qed

lemma alu_op_range: "op < 22 \<Longrightarrow> 0 \<le> sint (of_nat op :: u32) \<and> sint (of_nat op :: u32) < 32"
  by (simp add: sint_cases)

lemma alu_text:
  assumes v: "encodable (Alu op a b d)" and c: "cur_rest c = insn_operands t (Alu op a b d) @ ys" and ys: "stop ys"
  shows "\<exists>c'. consume_alu_op e (of_nat op) c = Some ((pack [(27, 5, 0), (22, 5, of_nat a), (17, 5, of_nat b), (5, 5, of_nat op), (0, 5, of_nat d)], True), c')
    \<and> cur_rest c' = ys"
proof -
  obtain c1 c2 where c1: "consume_register c = (of_nat a, c1)" "(if \<not> alu_unary (of_nat op) then consume_register c1 else (0, c1)) = (of_nat b, c2)"
    "cur_rest c2 = reg d @ ys" using alu_registers[of op b a c "reg d @ ys"] c v by auto
  obtain c3 where c3: "consume_register c2 = (of_nat d, c3)" "cur_rest c3 = ys" using reg_text[OF c1(3) _ ys] v by auto
  show ?thesis using alu_op_range[of op] v c1(2) c3
    by (simp add: consume_alu_op_def alu_unary_def c1(1) kassert_def ac_simps)
qed

text \<open>The encoding that the source chooses for an operation, and the immediates on which it stops.\<close>

definition encode_alu :: "u32 \<Rightarrow> u32 \<Rightarrow> u32 \<times> bool" where
  "encode_alu op i = (if op < 7 then encode_bitwise_immediate i else if op < 14 then encode_shift_immediate i else encode_arithmetic_immediate i)"

fun aborts :: "stmt \<Rightarrow> bool" where
  "aborts (Plain (AluImm op a b i)) \<longleftrightarrow> op < 7 \<and> 2 ^ 31 \<le> i"
| "aborts s = False"

lemma alu_less: "op < 19 \<Longrightarrow> (of_nat op :: u32) < 7 \<longleftrightarrow> op < 7" "op < 19 \<Longrightarrow> (of_nat op :: u32) < 14 \<longleftrightarrow> op < 14" "op < 19 \<Longrightarrow> (of_nat op :: u32) < 19"
  by (simp_all add: word_less_nat_alt)

lemma alu_immediate_text:
  assumes "encodable (AluImm op a b i)" "\<not> aborts (Plain (AluImm op a b i))"
  shows "\<exists>x. encode_alu (of_nat op) (of_int i) = (x, True) \<and> unat x < 2 ^ 12 \<and> alu_immediate op x = i"
proof -
  have l: "(of_nat op :: u32) < 7 \<longleftrightarrow> op < 7" "(of_nat op :: u32) < 14 \<longleftrightarrow> op < 14" using assms(1) alu_less by simp_all
  consider (bitwise) "op < 7" "bitwise_immediate i" "i < 2 ^ 31" | (shift) "\<not> op < 7" "op < 14" "0 \<le> i" "i < 32" | (arith) "\<not> op < 7" "\<not> op < 14" "fits 12 i"
    using assms by (auto split: if_splits)
  then show ?thesis
  proof cases
    case bitwise
    obtain k n where n: "encode_bitwise_immediate (of_int i) = (push_bit 8 (of_nat k) OR of_nat n, True)" "k < 4" "n < 256" "i = int n * 256 ^ k"
      using bitwise_immediate_text[OF bitwise(2,3)] by auto
    let ?x = "pack [(8, 2, of_nat k), (0, 8, of_nat n)]"
    have u: "unat (of_nat n :: u32) = n" "unat (of_nat k :: u32) = k" by (rule word_of_small; use n in simp)+
    have p: "packed 12 [(8, 2, of_nat k), (0, 8, of_nat n)]" using u n by simp
    have f: "field 8 2 ?x = of_nat k" "field 0 8 ?x = of_nat n" by (rule field_pack[OF p]; simp)+
    have "unat ?x < 2 ^ 12" by (rule packed_bound[OF p]) simp
    then show ?thesis using bitwise n u f l by (intro exI[of _ ?x]) (simp add: encode_alu_def alu_immediate_def nat_field_def)
  next
    case shift
    have "sint (of_int i :: u32) = i" "uint (of_int i :: u32) = i" using shift by (auto intro!: sint_of_int simp: unsigned_of_int take_bit_int_eq_self)
    then show ?thesis using shift l by (intro exI[of _ "of_int i"]) (simp add: encode_alu_def encode_shift_immediate_def alu_immediate_def unat_eq_nat_uint)
  next
    case arith
    then show ?thesis using fits_bound[of 12 i] masked_immediates(1)[of i] l by (intro exI[of _ "of_int i AND mask 12"]) (simp add: encode_alu_def alu_immediate_def fits_def)
  qed
qed

text \<open>The two registers and the immediate of an operation, up to the encoding.\<close>

lemma alu_imm_scan:
  assumes v: "op < 19" "a < 32" "b < 32" "unary op \<longrightarrow> b = 0" and c: "cur_rest c = reg a @ (if unary op then [] else reg b) @ imm t @ ys"
    and lit: "literal t i" and ys: "stop ys"
  shows "\<exists>c'. cur_rest c' = ys \<and> consume_alu_op e (of_nat op) c = (case encode_alu (of_nat op) (of_int i) of (x, ok) \<Rightarrow>
    if x = x AND 0xFFF then Some ((pack [(27, 5, 1), (22, 5, of_nat a), (17, 5, of_nat b), (12, 5, of_nat op), (0, 12, x)], ok), c') else None)"
proof -
  obtain c1 c2 where c1: "consume_register c = (of_nat a, c1)" "(if \<not> alu_unary (of_nat op) then consume_register c1 else (0, c1)) = (of_nat b, c2)"
    "cur_rest c2 = imm t @ ys" using alu_registers[of op b a c "imm t @ ys"] c v by auto
  obtain c3 where c3: "consume_register c2 = (- 1, c3)" "cur_rest c3 = t @ ys" using imm_no_reg[OF lit c1(3)] by auto
  obtain c4 where c4: "consume_immediate e c3 = Some (FOUND, of_int i, c4)" "cur_rest c4 = ys" using imm_text(2)[OF lit ys c3(2)] by auto
  obtain x ok where x: "encode_alu (of_nat op) (of_int i) = (x, ok)" by (metis surj_pair)
  have "consume_alu_op e (of_nat op) c =
      (if x = x AND 0xFFF then Some ((pack [(27, 5, 1), (22, 5, of_nat a), (17, 5, of_nat b), (12, 5, of_nat op), (0, 12, x)], ok), c4) else None)"
    using alu_op_range[of op] v c1(2) x alu_less(3)[OF v(1)]
    by (simp add: consume_alu_op_def alu_unary_def encode_alu_def c1(1) c3(1) c4(1) kassert_def ac_simps)
  then show ?thesis using c4(2) x by auto
qed

lemma alu_imm_text:
  assumes v: "encodable (AluImm op a b i)" "\<not> aborts (Plain (AluImm op a b i))" and c: "cur_rest c = insn_operands t (AluImm op a b i) @ ys"
    and lit: "literal t i" and ys: "stop ys"
  shows "\<exists>c' x. consume_alu_op e (of_nat op) c = Some ((pack [(27, 5, 1), (22, 5, of_nat a), (17, 5, of_nat b), (12, 5, of_nat op), (0, 12, x)], True), c')
    \<and> cur_rest c' = ys \<and> unat x < 2 ^ 12 \<and> alu_immediate op x = i"
proof -
  obtain x where x: "encode_alu (of_nat op) (of_int i) = (x, True)" "unat x < 2 ^ 12" "alu_immediate op x = i" using alu_immediate_text[OF v] by auto
  have m: "x = x AND 0xFFF" using masked_self[OF x(2)] by (simp add: masks)
  obtain c' where "cur_rest c' = ys" "consume_alu_op e (of_nat op) c = (case encode_alu (of_nat op) (of_int i) of (x, ok) \<Rightarrow>
    if x = x AND 0xFFF then Some ((pack [(27, 5, 1), (22, 5, of_nat a), (17, 5, of_nat b), (12, 5, of_nat op), (0, 12, x)], ok), c') else None)"
    using alu_imm_scan[of op a b c t ys i e] v(1) c lit ys by auto
  then show ?thesis unfolding x(1) prod.case if_P[OF m] using x(2,3) by blast
qed

lemma bitwise_top_lane:
  assumes "unat (x :: u32) < 256" "128 \<le> unat x"
  shows "encode_bitwise_immediate (push_bit 24 x) = (signed_drop_bit 24 (push_bit 24 x) OR push_bit 8 3, True)" "bit (signed_drop_bit 24 (push_bit 24 x)) 31"
proof -
  note A = lane_and[OF assms(1)]
  have x: "x \<noteq> 0" using assms(2) by auto
  have z: "push_bit 24 x \<noteq> 0" using lane_zero[OF assms(1), of 24] x by simp
  have "push_bit 24 x AND push_bit 0 (mask 8) = 0" "push_bit 24 x AND push_bit 8 (mask 8) = 0" "push_bit 24 x AND push_bit 16 (mask 8) = 0"
    "push_bit 24 x AND push_bit 24 (mask 8) = push_bit 24 x" using A(1)[of 24] A(2)[of 24 0] A(2)[of 24 8] A(2)[of 24 16] by simp_all
  then show "encode_bitwise_immediate (push_bit 24 x) = (signed_drop_bit 24 (push_bit 24 x) OR push_bit 8 3, True)"
    unfolding encode_bitwise_immediate_def lane_masks using z by simp
  have "unat x div 2 ^ 7 = 1" using assms by (intro div_nat_eqI) simp_all
  then have "bit (unat x) 7" by (simp add: bit_iff_odd)
  then have "bit x 7" by (simp add: bit_unsigned_iff)
  then show "bit (signed_drop_bit 24 (push_bit 24 x)) 31" by (simp add: bit_signed_drop_bit_iff bit_push_bit_iff)
qed

lemma top_byte_encoding:
  assumes "128 \<le> n" "n < 256"
  shows "\<exists>x. encode_bitwise_immediate (of_nat n * 2 ^ 24) = (x, True) \<and> x \<noteq> x AND 0xFFF"
proof -
  let ?x = "push_bit 24 (of_nat n) :: u32"
  have u: "unat (of_nat n :: u32) = n" using assms by (intro word_of_small) simp
  note x = bitwise_top_lane[of "of_nat n", unfolded u, OF assms(2,1)]
  have "\<not> bit (y AND 0xFFF :: u32) 31" for y by (simp add: masks bit_and_iff bit_mask_iff)
  then have "signed_drop_bit 24 ?x OR push_bit 8 3 \<noteq> (signed_drop_bit 24 ?x OR push_bit 8 3) AND 0xFFF" using x(2) by (metis bit_or_iff)
  then show ?thesis using x(1) by (simp add: push_bit_eq_mult)
qed

lemma alu_imm_aborts:
  assumes v: "encodable (AluImm op a b i)" "aborts (Plain (AluImm op a b i))" and c: "cur_rest c = insn_operands t (AluImm op a b i) @ ys"
    and lit: "literal t i" and ys: "stop ys"
  shows "consume_alu_op e (of_nat op) c = None"
proof -
  have op: "op < 7" "2 ^ 31 \<le> i" using v(2) by auto
  obtain n k where n: "n < 256" "k < 4" "i = int n * 256 ^ k" using v(1) op(1) by (auto simp: bitwise_immediate_def)
  have "k \<in> {0, 1, 2, 3}" using n(2) by auto
  then have "k = 3" using n(1,3) op(2) by auto
  then have i: "i = int n * 2 ^ 24" "128 \<le> n" using n op(2) by auto
  obtain x where x: "encode_bitwise_immediate (of_nat n * 2 ^ 24) = (x, True)" "x \<noteq> x AND 0xFFF" using top_byte_encoding[OF i(2) n(1)] by blast
  then have "encode_alu (of_nat op) (of_int i) = (x, True)" using op(1) alu_less(1)[of op] i(1) by (simp add: encode_alu_def)
  then show ?thesis using alu_imm_scan[of op a b c t ys i e] v(1) c lit ys x(2) by auto
qed

lemma cmp_reg_text:
  assumes v: "b < 32" "d < 32" and c: "cur_rest c = reg b @ reg d @ ys" and ys: "stop ys"
  shows "\<exists>c'. consume_cmp e c = Some ((pack [(27, 5, 0), (22, 5, 0), (17, 5, of_nat b), (5, 5, 16), (0, 5, of_nat d)], True), c') \<and> cur_rest c' = ys"
proof -
  obtain c1 where c1: "consume_register c = (of_nat b, c1)" "cur_rest c1 = reg d @ ys" using reg_text[OF c v(1)] by auto
  obtain c2 where c2: "consume_register c1 = (of_nat d, c2)" "cur_rest c2 = ys" using reg_text[OF c1(2) v(2) ys] by auto
  show ?thesis using v c2(2) by (simp add: consume_cmp_def c1(1) c2(1) ac_simps)
qed

lemma cmp_imm_text:
  assumes v: "b < 32" "fits 12 i" and c: "cur_rest c = reg b @ imm t @ ys" and lit: "literal t i" and ys: "stop ys"
  shows "\<exists>c'. consume_cmp e c = Some ((pack [(27, 5, 1), (22, 5, 0), (17, 5, of_nat b), (12, 5, 16), (0, 12, of_int i AND mask 12)], True), c')
    \<and> cur_rest c' = ys"
proof -
  obtain c1 where c1: "consume_register c = (of_nat b, c1)" "cur_rest c1 = imm t @ ys" using reg_text[OF c v(1)] by auto
  obtain c2 where c2: "consume_register c1 = (- 1, c2)" "cur_rest c2 = t @ ys" using imm_no_reg[OF lit c1(2)] by auto
  obtain c3 where c3: "consume_immediate e c2 = Some (FOUND, of_int i, c3)" "cur_rest c3 = ys" using imm_text(2)[OF lit ys c2(2)] by auto
  have m: "(of_int i AND mask 12 :: u32) AND 0xFFF = of_int i AND mask 12" using masked_self[OF fits_bound(1)[OF v(2)]] by (simp add: masks)
  show ?thesis using v c3(2) masked_immediates(1)[of i] m by (simp add: consume_cmp_def c1(1) c2(1) c3(1) fits_def kassert_def ac_simps)
qed

end
