(* ===== verification/Basm_Handlers.thy ===== *)
theory Basm_Handlers
  imports Basm_Arith
begin

text \<open>
  The other instructions on their text: which word each handler of \<open>root/basm/assembler.c\<close> gives for constants,
  branches, memory and atomic instructions, wide moves and privileged instructions.
\<close>

section \<open>Constants and branches\<close>

lemma lui_text:
  assumes v: "encodable (Lui a k)" and c: "cur_rest c = reg a @ imm t @ ys" and lit: "literal t (1024 * int k)" and ys: "stop ys"
  shows "\<exists>c'. consume_lui e c = Some ((pack [(27, 5, 2), (22, 5, of_nat a), (0, 22, of_nat k)], True), c') \<and> cur_rest c' = ys"
proof -
  obtain c1 where c1: "consume_register c = (of_nat a, c1)" "cur_rest c1 = imm t @ ys" using reg_text[OF c] v by auto
  obtain c2 where c2: "consume_immediate e c1 = Some (FOUND, of_int (1024 * int k), c2)" "cur_rest c2 = ys" using imm_text(1)[OF lit ys c1(2)] by blast
  have x: "encode_lui_immediate (of_int (1024 * int k)) = (of_nat k, True)" using lui_immediate[of k] v by simp
  have u: "unat (of_nat k :: u32) = k" using v by (intro word_of_small) simp
  have "of_nat k AND 0x3FFFFF = (of_nat k :: u32)" using masked_self[of "of_nat k" 22] u v by (simp add: masks)
  then show ?thesis using v c2(2) x by (simp add: consume_lui_def c1(1) c2(1) kassert_def ac_simps)
qed

lemma adpc_text:
  assumes v: "encodable (Adpc a i)" and c: "cur_rest c = reg a @ imm t @ ys" and lit: "literal t i" and ys: "stop ys"
  shows "\<exists>c'. consume_adpc e c = Some ((pack [(27, 5, 22), (22, 5, of_nat a), (0, 22, of_int i AND mask 22)], True), c') \<and> cur_rest c' = ys"
proof -
  obtain c1 where c1: "consume_register c = (of_nat a, c1)" "cur_rest c1 = imm t @ ys" using reg_text[OF c] v by auto
  obtain c2 where c2: "consume_immediate e c1 = Some (FOUND, of_int i, c2)" "cur_rest c2 = ys" using imm_text(1)[OF lit ys c1(2)] by blast
  show ?thesis using v c2(2) masked_immediates(6)[of i] by (simp add: consume_adpc_def c1(1) c2(1) fits_def ac_simps)
qed

lemma branch_range: "op < 19 \<Longrightarrow> 0 \<le> sint (of_nat op :: u32) \<and> sint (of_nat op :: u32) < 19"
  by (simp add: sint_cases)

lemma branch_imm_text:
  assumes v: "encodable (BranchImm op i)" and c: "cur_rest c = imm t @ ys" and lit: "literal t i" and ys: "stop ys"
  shows "\<exists>c'. consume_branch e (of_nat op) False c = Some ((pack [(27, 5, 12), (22, 5, of_nat op), (0, 22, of_int (i div 4) AND mask 22)], True), c')
    \<and> cur_rest c' = ys"
    "\<exists>c'. consume_jmp e c = Some ((pack [(27, 5, 12), (22, 5, 0), (0, 22, of_int (i div 4) AND mask 22)], True), c') \<and> cur_rest c' = ys"
proof -
  obtain c1 where c1: "consume_register c = (- 1, c1)" "cur_rest c1 = t @ ys" using imm_no_reg[OF lit c] by auto
  obtain c2 where c2: "consume_immediate e c1 = Some (FOUND, of_int i, c2)" "cur_rest c2 = ys" using imm_text(2)[OF lit ys c1(2)] by blast
  show "\<exists>c'. consume_branch e (of_nat op) False c = Some ((pack [(27, 5, 12), (22, 5, of_nat op), (0, 22, of_int (i div 4) AND mask 22)], True), c')
    \<and> cur_rest c' = ys" using v c2(2) branch_immediate[of i] branch_range[of op]
    by (simp add: consume_branch_def c1(1) c2(1) fits_def kassert_def ac_simps)
  show "\<exists>c'. consume_jmp e c = Some ((pack [(27, 5, 12), (22, 5, 0), (0, 22, of_int (i div 4) AND mask 22)], True), c') \<and> cur_rest c' = ys"
    using v c2(2) branch_immediate[of i] by (simp add: consume_jmp_def c1(1) c2(1) fits_def ac_simps)
qed

text \<open>With one register, the link register is 0.\<close>

lemma branch_reg_text:
  assumes v: "encodable (BranchReg absolute op a b)" and c: "cur_rest c = reg a @ reg b @ ys \<or> a = 0 \<and> cur_rest c = reg b @ ys" and ys: "line_end ys"
  shows "\<exists>c'. consume_branch e (of_nat op) absolute c =
      Some ((pack [(27, 5, if absolute then 13 else 14), (22, 5, of_nat op), (5, 5, of_nat a), (0, 5, of_nat b)], True), c') \<and> cur_rest c' = ys"
  using c
proof (elim disjE conjE)
  assume c: "cur_rest c = reg a @ reg b @ ys"
  obtain c1 where c1: "consume_register c = (of_nat a, c1)" "cur_rest c1 = reg b @ ys" using reg_text[OF c] v by auto
  obtain c2 where c2: "consume_register c1 = (of_nat b, c2)" "cur_rest c2 = ys" using reg_text[OF c1(2)] v ys by auto
  show ?thesis using v c2(2) branch_range[of op] by (simp add: consume_branch_def c1(1) c2(1) kassert_def ac_simps)
next
  assume a: "a = 0" and c: "cur_rest c = reg b @ ys"
  obtain c1 where c1: "consume_register c = (of_nat b, c1)" "cur_rest c1 = ys" using reg_text[OF c] v ys by auto
  obtain c2 where c2: "consume_register c1 = (- 1, c2)" "cur_rest c2 = ys" using line_end_no_reg[OF c1(2) ys] by auto
  show ?thesis using v c2(2) branch_range[of op] a by (simp add: consume_branch_def c1(1) c2(1) kassert_def ac_simps)
qed

lemma jmp_reg_text:
  assumes v: "b < 32" and c: "cur_rest c = reg b @ ys" and ys: "stop ys"
  shows "\<exists>c'. consume_jmp e c = Some ((pack [(27, 5, 13), (22, 5, 0), (5, 5, 0), (0, 5, of_nat b)], True), c') \<and> cur_rest c' = ys"
proof -
  obtain c1 where c1: "consume_register c = (of_nat b, c1)" "cur_rest c1 = ys" using reg_text[OF c v ys] by auto
  show ?thesis using v c1(2) by (simp add: consume_jmp_def c1(1))
qed

section \<open>Wide moves\<close>

lemma high_part: "(of_int i :: u32) AND 0xFFFFFC00 = of_int (1024 * int (nat (i mod 2 ^ 32) div 1024))"
proof -
  let ?w = "of_int i :: u32"
  have n: "nat (i mod 2 ^ 32) = unat ?w" by (simp add: unsigned_of_int take_bit_eq_mod unat_eq_nat_uint)
  have "(0xFFFFFC00 :: u32) = NOT (mask 10)" by (simp add: mask_eq_exp_minus_1)
  moreover have "?w AND NOT (mask 10) = push_bit 10 (drop_bit 10 ?w)"
    by (rule bit_word_eqI) (auto simp: bit_and_iff bit_not_iff bit_mask_iff bit_push_bit_iff bit_drop_bit_eq)
  ultimately have "?w AND 0xFFFFFC00 = push_bit 10 (drop_bit 10 ?w)" by (simp only:)
  also have "drop_bit 10 ?w = of_nat (unat (drop_bit 10 ?w))" by simp
  also have "unat (drop_bit 10 ?w) = unat ?w div 1024" unfolding unat_drop_bit_eq by (simp add: drop_bit_eq_div)
  finally show ?thesis unfolding n by (simp add: push_bit_eq_mult mult.commute)
qed

lemma low_part: "(of_int i :: u32) AND 0x3FF = of_int (i mod 1024)"
proof -
  have "i mod 1024 = take_bit 10 i" by (simp add: take_bit_eq_mod)
  moreover have "(of_int i :: u32) AND mask 10 = of_int (take_bit 10 i)"
    by (rule bit_word_eqI) (auto simp: bit_and_iff bit_mask_iff bit_word_of_int_iff bit_take_bit_iff)
  ultimately show ?thesis by (simp only: masks)
qed

lemma movu_text:
  assumes v: "a < 32" and c: "cur_rest c = reg a @ imm t @ ys" and lit: "literal t i" and ys: "stop ys"
  shows "\<exists>c'. consume_mov_hack e 0 c = Some ((pack [(27, 5, 2), (22, 5, of_nat a), (0, 22, of_nat (nat (i mod 2 ^ 32) div 1024))], True), c') \<and> cur_rest c' = ys"
proof -
  let ?k = "nat (i mod 2 ^ 32) div 1024"
  obtain c1 where c1: "consume_register c = (of_nat a, c1)" "cur_rest c1 = imm t @ ys" using reg_text[OF c v] by auto
  obtain c2 where c2: "consume_label_imm e c1 = Some (NOT_FOUND, 0, c2)" "cur_rest c2 = t @ ys" using imm_text(5)[OF lit ys c1(2)] by auto
  obtain c3 where c3: "consume_literal c2 = (FOUND, of_int i, c3)" "cur_rest c3 = ys" using imm_text(4)[OF lit ys c2(2)] by auto
  have k: "?k < 2 ^ 22" by (simp add: div_less_iff_less_mult nat_less_iff)
  have x: "encode_lui_immediate (of_int i AND 0xFFFFFC00) = (of_nat ?k, True)" unfolding high_part using lui_immediate[OF k] by simp
  have u: "unat (of_nat ?k :: u32) = ?k" using k by (intro word_of_small) simp
  have "of_nat ?k AND 0x3FFFFF = (of_nat ?k :: u32)" using masked_self[of "of_nat ?k" 22] u k by (simp add: masks)
  then have "consume_mov_hack e 0 c = Some ((push_bit 27 2 OR push_bit 22 (of_nat a) OR of_nat ?k, True), c3)"
    using v by (simp add: consume_mov_hack_def c1(1) c2(1) c3(1) x kassert_def)
  then show ?thesis using c3(2) by (simp add: or.assoc)
qed

lemma movl_text:
  assumes v: "a < 32" and c: "cur_rest c = reg a @ imm t @ ys" and lit: "literal t i" and ys: "stop ys"
  shows "\<exists>c'. consume_mov_hack e 1 c = Some ((pack [(27, 5, 1), (22, 5, of_nat a), (17, 5, of_nat a), (12, 5, 14),
      (0, 12, of_int (i mod 1024) AND mask 12)], True), c') \<and> cur_rest c' = ys"
proof -
  obtain c1 where c1: "consume_register c = (of_nat a, c1)" "cur_rest c1 = imm t @ ys" using reg_text[OF c v] by auto
  obtain c2 where c2: "consume_label_imm e c1 = Some (NOT_FOUND, 0, c2)" "cur_rest c2 = t @ ys" using imm_text(5)[OF lit ys c1(2)] by auto
  obtain c3 where c3: "consume_literal c2 = (FOUND, of_int i, c3)" "cur_rest c3 = ys" using imm_text(4)[OF lit ys c2(2)] by auto
  have f: "fits 12 (i mod 1024)" by (simp add: fits_def less_le_trans[OF pos_mod_bound])
  have x: "encode_arithmetic_immediate (of_int i AND 0x3FF) = (of_int (i mod 1024) AND mask 12, True)"
    unfolding low_part using masked_immediates(1)[of "i mod 1024"] f by (simp add: fits_def)
  have m: "(of_int (i mod 1024) AND mask 12 :: u32) AND 0xFFF = of_int (i mod 1024) AND mask 12" using masked_self[OF fits_bound(1)[OF f]] by (simp add: masks)
  have "consume_mov_hack e 1 c = Some ((push_bit 27 1 OR push_bit 22 (of_nat a) OR push_bit 17 (of_nat a) OR push_bit 12 14 OR
      of_int (i mod 1024) AND mask 12, True), c3)"
    using v m by (simp add: consume_mov_hack_def c1(1) c2(1) c3(1) x kassert_def)
  then show ?thesis using c3(2) by (simp add: or.assoc)
qed

section \<open>Memory instructions\<close>

lemma offset_operand:
  assumes lit: "literal t i" and c: "cur_rest c = imm t @ 93 # ys \<or> cur_rest c = t @ 93 # ys" and ys: "line_end ys"
  shows "\<exists>c'. mem_operand e absolute c = Some (Some (of_int i, 0), c') \<and> cur_rest c' = ys"
proof -
  obtain c1 where c1: "consume (str '']'') c = (False, c1)" "cur_rest c1 = t @ 93 # ys" using imm_no_bracket[OF lit c] by blast
  obtain c2 where c2: "consume_immediate e c1 = Some (FOUND, of_int i, c2)" "cur_rest c2 = 93 # ys" using imm_text(2)[OF lit _ c1(2)] by auto
  obtain c3 where c3: "consume (str '']'') c2 = (True, c3)" "cur_rest c3 = ys" using bracket_text(2)[OF c2(2)] by blast
  obtain c4 where c4: "consume (str ''!'') c3 = (False, c4)" "cur_rest c4 = ys" using bang_text(2)[OF c3(2) ys] by blast
  show ?thesis using c4(2) by (simp add: mem_operand_def c1(1) c2(1) c3(1) c4(1))
qed

lemma closed_operand:
  assumes c: "cur_rest c = 93 # ys" and ys: "line_end ys"
  shows "\<exists>c'. mem_operand e absolute c = Some (Some (0, 0), c') \<and> cur_rest c' = ys"
proof -
  obtain c1 where c1: "consume (str '']'') c = (True, c1)" "cur_rest c1 = ys" using bracket_text(2)[OF c] by blast
  obtain c2 where c2: "consume_literal c1 = (NOT_FOUND, 0, c2)" "cur_rest c2 = ys" using line_end_no_literal[OF c1(2) ys] by blast
  show ?thesis using c1(2) c2(2) by (simp add: mem_operand_def c1(1) c2(1))
qed

lemma absolute_operand:
  assumes y: "y < 3" and lit: "literal t i" and c: "cur_rest c = (if y = 2 then 93 # imm t else imm t @ 93 # (if y = 1 then [33] else [])) @ ys"
    and ys: "line_end ys"
  shows "\<exists>c'. mem_operand e True c = Some (Some (of_int i, of_nat y), c') \<and> cur_rest c' = ys"
proof -
  consider "y = 0" | "y = 1" | "y = 2" using y by linarith
  then show ?thesis
  proof cases
    case 1
    then show ?thesis using offset_operand[OF lit, of c ys e True] c ys by simp
  next
    case 2
    obtain c1 where c1: "consume (str '']'') c = (False, c1)" "cur_rest c1 = t @ 93 # 33 # ys" using imm_no_bracket[OF lit, of c "93 # 33 # ys"] c 2 by auto
    obtain c2 where c2: "consume_immediate e c1 = Some (FOUND, of_int i, c2)" "cur_rest c2 = 93 # 33 # ys" using imm_text(2)[OF lit _ c1(2)] by auto
    obtain c3 where c3: "consume (str '']'') c2 = (True, c3)" "cur_rest c3 = 33 # ys" using bracket_text(2)[OF c2(2)] by blast
    obtain c4 where c4: "consume (str ''!'') c3 = (True, c4)" "cur_rest c4 = ys" using bang_text(1)[OF c3(2)] by blast
    show ?thesis using c4(2) 2 by (simp add: mem_operand_def c1(1) c2(1) c3(1) c4(1))
  next
    case 3
    obtain c1 where c1: "consume (str '']'') c = (True, c1)" "cur_rest c1 = imm t @ ys" using bracket_text(2)[of c "imm t @ ys"] c 3 by auto
    obtain c2 where c2: "consume_literal c1 = (FOUND, of_int i, c2)" "cur_rest c2 = ys" using imm_text(3)[OF lit _ c1(2)] ys by auto
    show ?thesis using c2(2) 3 by (simp add: mem_operand_def c1(1) c2(1))
  qed
qed

lemma open_operand:
  assumes "a < 32" "cur_rest c = reg a @ [32, 91] @ ys"
  shows "\<exists>c1 c2. consume_register c = (of_nat a, c1) \<and> consume (str ''['') c1 = (True, c2) \<and> cur_rest c2 = ys"
proof -
  obtain c1 where c1: "consume_register c = (of_nat a, c1)" "cur_rest c1 = 32 # 91 # ys" using reg_text[of c a "32 # 91 # ys"] assms by auto
  then show ?thesis using bracket_text(1)[OF c1(2)] by auto
qed

text \<open>A base register and then any operand that gives an offset.\<close>

lemma mem_abs_text:
  assumes v: "encodable (MemAbs w l a b y i)" and c: "cur_rest c = reg a @ [32, 91] @ reg b @ zs" and zs: "stop zs"
    and operand: "\<And>c. cur_rest c = zs \<Longrightarrow> \<exists>c'. mem_operand e True c = Some (Some (of_int i, of_nat y), c') \<and> cur_rest c' = ys"
  shows "\<exists>c' k j. consume_mem e (of_nat w) True l c = Some ((pack [(27, 5, of_nat (3 + 3 * w)), (22, 5, of_nat a), (17, 5, of_nat b), (16, 1, if l then 1 else 0),
      (14, 2, of_nat y), (12, 2, of_nat k), (0, 12, of_int j AND mask 12)], True), c') \<and> cur_rest c' = ys \<and> k < 4 \<and> fits 12 j \<and> i = j * 2 ^ k"
proof -
  obtain c1 c2 where c1: "consume_register c = (of_nat a, c1)" "consume (str ''['') c1 = (True, c2)" "cur_rest c2 = reg b @ zs"
    using open_operand[OF _ c] v by auto
  obtain c3 where c3: "consume_register c2 = (of_nat b, c3)" "cur_rest c3 = zs" using reg_text[OF c1(3)] v zs by auto
  obtain c4 where c4: "mem_operand e True c3 = Some (Some (of_int i, of_nat y), c4)" "cur_rest c4 = ys" using operand[OF c3(2)] by auto
  obtain k j where x: "encode_absolute_memory_immediate (of_int i) = ((of_int j AND mask 12) OR push_bit 12 (of_nat k), True)" "k < 4" "fits 12 j" "i = j * 2 ^ k"
    using absolute_memory_immediate[of i] v by (auto simp: fits_def)
  let ?x = "(of_int j AND mask 12) OR push_bit 12 (of_nat k) :: u32"
  have "packed 14 [(12, 2, of_nat k), (0, 12, of_int j AND mask 12)]" using x(2) fits_bound(1)[OF x(3)] by simp
  then have "unat ?x < 2 ^ 14" using packed_bound[of 14] by (fastforce simp: ac_simps)
  then have m: "?x AND 0x3FFF = ?x" using masked_self by (simp add: masks)
  have "consume_mem e (of_nat w) True l c = Some ((pack [(27, 5, of_nat (3 + 3 * w)), (22, 5, of_nat a), (17, 5, of_nat b), (16, 1, if l then 1 else 0),
      (14, 2, of_nat y), (12, 2, of_nat k), (0, 12, of_int j AND mask 12)], True), c4)"
    using v m by (simp add: consume_mem_def c1(1,2) c3(1) c4(1) x(1) kassert_def ac_simps)
  then show ?thesis using c4(2) x(2,3,4) by blast
qed

lemma mem_rel_text:
  assumes v: "encodable (MemRel w l a b i)" and c: "cur_rest c = reg a @ [32, 91] @ reg b @ zs" and zs: "stop zs"
    and operand: "\<And>c. cur_rest c = zs \<Longrightarrow> \<exists>c'. mem_operand e False c = Some (Some (of_int i, 0), c') \<and> cur_rest c' = ys"
  shows "\<exists>c'. consume_mem e (of_nat w) False l c = Some ((pack [(27, 5, of_nat (4 + 3 * w)), (22, 5, of_nat a), (17, 5, of_nat b), (16, 1, if l then 1 else 0),
      (0, 16, of_int i AND mask 16)], True), c') \<and> cur_rest c' = ys"
proof -
  obtain c1 c2 where c1: "consume_register c = (of_nat a, c1)" "consume (str ''['') c1 = (True, c2)" "cur_rest c2 = reg b @ zs"
    using open_operand[OF _ c] v by auto
  obtain c3 where c3: "consume_register c2 = (of_nat b, c3)" "cur_rest c3 = zs" using reg_text[OF c1(3)] v zs by auto
  obtain c4 where c4: "mem_operand e False c3 = Some (Some (of_int i, 0), c4)" "cur_rest c4 = ys" using operand[OF c3(2)] by blast
  have m: "(of_int i AND mask 16 :: u32) AND 0xFFFF = of_int i AND mask 16" using masked_self[OF fits_bound(1)[of 16 i]] v by (simp add: masks)
  show ?thesis using v c4(2) masked_immediates(3)[of i] m
    by (simp add: consume_mem_def c1(1,2) c3(1) c4(1) fits_def kassert_def ac_simps)
qed

lemma mem_long_text:
  assumes v: "encodable (MemLong w l a i)" and lit: "literal t i" and c: "cur_rest c = reg a @ [32, 91] @ imm t @ 93 # ys" and ys: "line_end ys"
  shows "\<exists>c'. consume_mem e (of_nat w) False l c = Some ((pack [(27, 5, of_nat (5 + 3 * w)), (22, 5, of_nat a), (21, 1, if l then 1 else 0),
      (0, 21, of_int i AND mask 21)], True), c') \<and> cur_rest c' = ys"
proof -
  obtain c1 c2 where c1: "consume_register c = (of_nat a, c1)" "consume (str ''['') c1 = (True, c2)" "cur_rest c2 = imm t @ 93 # ys"
    using open_operand[OF _ c] v by auto
  obtain c3 where c3: "consume_register c2 = (- 1, c3)" "cur_rest c3 = t @ 93 # ys" using imm_no_reg[OF lit c1(3)] by blast
  obtain c4 where c4: "mem_operand e False c3 = Some (Some (of_int i, 0), c4)" "cur_rest c4 = ys" using offset_operand[OF lit disjI2[OF c3(2)] ys] by blast
  have m: "(of_int i AND mask 21 :: u32) AND 0x1FFFFF = of_int i AND mask 21" using masked_self[OF fits_bound(1)[of 21 i]] v by (simp add: masks)
  show ?thesis using v c4(2) masked_immediates(5)[of i] m
    by (simp add: consume_mem_def c1(1,2) c3(1) c4(1) fits_def kassert_def ac_simps)
qed

section \<open>Atomic instructions\<close>

lemma atomic_base_text:
  assumes v: "a < 32" "d < 32" "b < 32" "fits 12 i" and c: "cur_rest c = reg a @ reg d @ [32, 91] @ reg b @ zs"
    and zs: "literal t i \<and> zs = imm t @ 93 # ys \<or> i = 0 \<and> zs = 93 # ys"
  shows "\<exists>c'. consume_atomic e absolute f c = Some ((pack [(27, 5, if absolute then (if f then 16 else 19) else (if f then 17 else 20)), (22, 5, of_nat a),
      (17, 5, of_nat d), (12, 5, of_nat b), (0, 12, of_int i AND mask 12)], True), c') \<and> cur_rest c' = ys"
proof -
  have st: "stop zs" using zs by auto
  obtain c0 where c0: "consume_register c = (of_nat a, c0)" "cur_rest c0 = reg d @ [32, 91] @ reg b @ zs" using reg_text[OF c v(1)] by auto
  obtain c1 c2 where c1: "consume_register c0 = (of_nat d, c1)" "consume (str ''['') c1 = (True, c2)" "cur_rest c2 = reg b @ zs"
    using open_operand[OF v(2) c0(2)] by auto
  obtain c3 where c3: "consume_register c2 = (of_nat b, c3)" "cur_rest c3 = zs" using reg_text[OF c1(3) v(3) st] by auto
  have m: "(of_int i AND mask 12 :: u32) AND 0xFFF = of_int i AND mask 12" using masked_self[OF fits_bound(1)[OF v(4)]] by (simp add: masks)
  from zs show ?thesis
  proof (elim disjE conjE)
    assume lit: "literal t i" and z: "zs = imm t @ 93 # ys"
    obtain c4 where c4: "consume (str '']'') c3 = (False, c4)" "cur_rest c4 = t @ 93 # ys" using imm_no_bracket[OF lit disjI1[OF c3(2)[unfolded z]]] by blast
    obtain c5 where c5: "consume_immediate e c4 = Some (FOUND, of_int i, c5)" "cur_rest c5 = 93 # ys" using imm_text(2)[OF lit _ c4(2)] by auto
    obtain c6 where c6: "consume (str '']'') c5 = (True, c6)" "cur_rest c6 = ys" using bracket_text(2)[OF c5(2)] by blast
    show ?thesis using v c6(2) masked_immediates(2)[of i] m
      by (simp add: consume_atomic_def c0(1) c1(1,2) c3(1) c4(1) c5(1) c6(1) fits_def kassert_def ac_simps)
  next
    assume i: "i = 0" and z: "zs = 93 # ys"
    obtain c4 where c4: "consume (str '']'') c3 = (True, c4)" "cur_rest c4 = ys" using bracket_text(2)[OF c3(2)[unfolded z]] by blast
    show ?thesis using v(1,2,3) c4(2) i
      by (simp add: consume_atomic_def c0(1) c1(1,2) c3(1) c4(1) encode_short_atomic_immediate_def kassert_def ac_simps)
  qed
qed

lemma atomic_long_text:
  assumes v: "encodable (AtomicLong f a d i)" and lit: "literal t i" and c: "cur_rest c = reg a @ reg d @ [32, 91] @ imm t @ 93 # ys"
  shows "\<exists>c'. consume_atomic e False f c = Some ((pack [(27, 5, if f then 18 else 21), (22, 5, of_nat a), (17, 5, of_nat d), (0, 17, of_int i AND mask 17)], True), c')
    \<and> cur_rest c' = ys"
proof -
  obtain c0 where c0: "consume_register c = (of_nat a, c0)" "cur_rest c0 = reg d @ [32, 91] @ imm t @ 93 # ys" using reg_text[OF c] v by auto
  obtain c1 c2 where c1: "consume_register c0 = (of_nat d, c1)" "consume (str ''['') c1 = (True, c2)" "cur_rest c2 = imm t @ 93 # ys"
    using open_operand[OF _ c0(2)] v by auto
  obtain c3 where c3: "consume_register c2 = (- 1, c3)" "cur_rest c3 = t @ 93 # ys" using imm_no_reg[OF lit c1(3)] by blast
  obtain c4 where c4: "consume (str '']'') c3 = (False, c4)" "cur_rest c4 = t @ 93 # ys" using imm_no_bracket[OF lit disjI2[OF c3(2)]] by blast
  obtain c5 where c5: "consume_immediate e c4 = Some (FOUND, of_int i, c5)" "cur_rest c5 = 93 # ys" using imm_text(2)[OF lit _ c4(2)] by auto
  obtain c6 where c6: "consume (str '']'') c5 = (True, c6)" "cur_rest c6 = ys" using bracket_text(2)[OF c5(2)] by blast
  have m: "(of_int i AND mask 17 :: u32) AND 0x1FFFF = of_int i AND mask 17" using masked_self[OF fits_bound(1)[of 17 i]] v by (simp add: masks)
  show ?thesis using v c6(2) masked_immediates(4)[of i] m
    by (simp add: consume_atomic_def c0(1) c1(1,2) c3(1) c4(1) c5(1) c6(1) fits_def kassert_def ac_simps)
qed

section \<open>Privileged instructions\<close>

lemma tlb_text:
  assumes v: "encodable (Tlb op a b)" and k: "check_privileges e" and c: "cur_rest c = insn_operands t (Tlb op a b) @ ys" and ys: "stop ys"
  shows "\<exists>c'. consume_tlb_op e (of_nat op) c =
    Some ((pack [(27, 5, 31), (22, 5, of_nat a), (17, 5, of_nat b), (12, 5, 0), (10, 2, of_nat op)], True), c') \<and> cur_rest c' = ys"
proof -
  have "op \<in> {0, 1, 2, 3}" using v by auto
  then consider "op = 0 \<or> op = 1" | "op = 2" | "op = 3" by auto
  then show ?thesis
  proof cases
    case 1
    obtain c1 where c1: "consume_register c = (of_nat a, c1)" "cur_rest c1 = reg b @ ys" using reg_text[of c a "reg b @ ys"] c v 1 by auto
    obtain c2 where c2: "consume_register c1 = (of_nat b, c2)" "cur_rest c2 = ys" using reg_text[OF c1(2) _ ys] v by auto
    have d: "(of_nat op :: u32) \<noteq> 3" "(of_nat op :: u32) \<noteq> 2" using 1 small_eq[of op 3] small_eq[of op 2] by auto
    have "(if of_nat op = (1 :: u32) then push_bit 10 1 else 0 :: u32) = push_bit 10 (of_nat op)" "0 \<le> sint (of_nat op :: u32) \<and> sint (of_nat op :: u32) < 4"
      using 1 by (elim disjE; simp)+
    then show ?thesis using v k c2(2) d by (simp add: consume_tlb_op_def c1(1) c2(1) kassert_def ac_simps)
  next
    case 2
    obtain c1 where c1: "consume_register c = (of_nat b, c1)" "cur_rest c1 = ys" using reg_text[of c b ys] c v ys 2 by auto
    show ?thesis using 2 v k c1(2) by (simp add: consume_tlb_op_def c1(1) kassert_def ac_simps)
  next
    case 3
    then show ?thesis using v k c by (simp add: consume_tlb_op_def kassert_def)
  qed
qed

lemma control_valid: "n < 13 \<Longrightarrow> (of_nat n :: u32) \<noteq> - 1"
  using reg_valid(1)[of n] by simp

lemma crmv_text:
  assumes v: "encodable (Crmv dc sc a b)" and k: "check_privileges e" and c: "cur_rest c = insn_operands t (Crmv dc sc a b) @ ys" and ys: "stop ys"
  shows "\<exists>c'. consume_crmv e c = Some ((pack [(27, 5, 31), (22, 5, of_nat a), (17, 5, of_nat b), (12, 5, 1),
      (10, 2, if dc then (if sc then 2 else 0) else (if sc then 1 else 3))], True), c') \<and> cur_rest c' = ys"
proof -
  let ?z = "(if sc then control b else reg b) @ ys"
  have z: "stop ?z" by simp
  have "\<exists>r c0 c1. consume_register c = (r, c0) \<and> (if r = - 1 then consume_control_register c0 else (r, c0)) = (of_nat a, c1) \<and> cur_rest c1 = ?z \<and> (r = - 1 \<longleftrightarrow> dc)"
  proof (cases dc)
    case True
    obtain c0 where c0: "consume_register c = (- 1, c0)" "cur_rest c0 = 99 # 114 # dec a @ ?z" using control_no_reg[of c a ?z] c True by auto
    then show ?thesis using control_text[of c0 a ?z] v True z by auto
  next
    case False
    obtain c0 where "consume_register c = (of_nat a, c0)" "cur_rest c0 = ?z" using reg_text[of c a ?z] c v z False by auto
    moreover have "(of_nat a :: u32) \<noteq> - 1" using v False by simp
    ultimately show ?thesis using False by auto
  qed
  then obtain r c0 c1 where c1: "consume_register c = (r, c0)" "(if r = - 1 then consume_control_register c0 else (r, c0)) = (of_nat a, c1)"
    "cur_rest c1 = ?z" "r = - 1 \<longleftrightarrow> dc" by blast
  have "\<exists>cr c2 c3. consume_control_register c1 = (cr, c2) \<and> (if cr = - 1 then consume_register c2 else (cr, c2)) = (of_nat b, c3) \<and> cur_rest c3 = ys \<and> (cr = - 1 \<longleftrightarrow> \<not> sc)"
  proof (cases sc)
    case True
    obtain c2 where "consume_control_register c1 = (of_nat b, c2)" "cur_rest c2 = ys" using control_text[of c1 b ys] c1(3) v ys True by auto
    moreover have "(of_nat b :: u32) \<noteq> - 1" using v True control_valid[of b] by simp
    ultimately show ?thesis using True by auto
  next
    case False
    then show ?thesis using reg_no_control[of c1 b ys] c1(3) v ys by auto
  qed
  then obtain cr c2 c3 where c3: "consume_control_register c1 = (cr, c2)" "(if cr = - 1 then consume_register c2 else (cr, c2)) = (of_nat b, c3)"
    "cur_rest c3 = ys" "cr = - 1 \<longleftrightarrow> \<not> sc" by blast
  have ab: "(of_nat a :: u32) \<noteq> - 1" "(of_nat b :: u32) \<noteq> - 1" using v reg_valid(1)[of a] reg_valid(1)[of b] control_valid by (auto split: if_splits)
  show ?thesis using k ab c1(2,4) c3(2,3,4) by (cases dc; cases sc) (simp_all add: consume_crmv_def c1(1) c3(1) ac_simps)
qed

lemma mode_text:
  assumes v: "m < 3" and k: "check_privileges e" and c: "cur_rest c = 32 # str (mode_names ! m) @ ys"
  shows "\<exists>c'. consume_mode_op e c = Some ((pack [(27, 5, 31), (12, 5, 2), (10, 2, of_nat m)], True), c') \<and> cur_rest c' = ys"
proof -
  have sk: "\<not> skippable 114" "\<not> skippable 115" "\<not> skippable 104" by (rule not_skippable(1), simp add: isalnum_def isalpha_def)+
  note s = str_def of_char_def
  have "m \<in> {0, 1, 2}" using v by auto
  then consider "m = 0" | "m = 1" | "m = 2" by auto
  then show ?thesis
  proof cases
    case 1
    obtain c1 where c1: "consume (str ''run'') c = (True, c1)" "cur_rest c1 = ys" using consume_text[of c "[32]" "str ''run''" ys] c 1 sk by (auto simp: mode_names_def s)
    show ?thesis using k c1(2) 1 by (simp add: consume_mode_op_def c1(1))
  next
    case 2
    obtain c1 where c1: "consume (str ''run'') c = (False, c1)" "cur_rest c1 = str ''sleep'' @ ys"
      using consume_other[of c "[32]" "str ''sleep'' @ ys" "str ''run''"] c 2 sk by (auto simp: mode_names_def s)
    obtain c2 where c2: "consume (str ''sleep'') c1 = (True, c2)" "cur_rest c2 = ys" using consume_text[of c1 "[]" "str ''sleep''" ys] c1(2) sk by (auto simp: s)
    show ?thesis using k c2(2) 2 by (simp add: consume_mode_op_def c1(1) c2(1))
  next
    case 3
    obtain c1 where c1: "consume (str ''run'') c = (False, c1)" "cur_rest c1 = str ''halt'' @ ys"
      using consume_other[of c "[32]" "str ''halt'' @ ys" "str ''run''"] c 3 sk by (auto simp: mode_names_def s)
    obtain c2 where c2: "consume (str ''sleep'') c1 = (False, c2)" "cur_rest c2 = str ''halt'' @ ys"
      using consume_other[of c1 "[]" "str ''halt'' @ ys" "str ''sleep''"] c1(2) sk by (auto simp: s)
    obtain c3 where c3: "consume (str ''halt'') c2 = (True, c3)" "cur_rest c3 = ys" using consume_text[of c2 "[]" "str ''halt''" ys] c2(2) sk by (auto simp: s)
    show ?thesis using k c3(2) 3 by (simp add: consume_mode_op_def c1(1) c2(1) c3(1))
  qed
qed

lemma small_sint: "n < 32 \<Longrightarrow> sint (of_nat n :: u32) = int n"
  by (simp add: sint_cases)

lemma ipi_text:
  assumes v: "encodable (Ipi a k)" and p: "check_privileges e" and c: "cur_rest c = insn_operands t (Ipi a k) @ ys" and lit: "literal t (insn_number (Ipi a k))"
    and ys: "line_end ys"
  shows "\<exists>c'. consume_ipi e c = Some ((pack [(27, 5, 31), (22, 5, of_nat a), (12, 5, 4), (11, 1, if k = None then 1 else 0),
      (0, 2, case k of None \<Rightarrow> 0 | Some n \<Rightarrow> of_nat n)], True), c') \<and> cur_rest c' = ys"
proof (cases k)
  case None
  obtain c1 where c1: "consume_register c = (of_nat a, c1)" "cur_rest c1 = 32 # str ''all'' @ ys" using reg_text[of c a "32 # str ''all'' @ ys"] c v None by auto
  obtain c2 where c2: "consume_keyword (str ''all'') (skip c1) = (True, c2)" "cur_rest c2 = ys"
    using all_text[OF c1(2)] ys by (auto simp: line_end_def isspace_def)
  show ?thesis using None v p c2(2) by (simp add: consume_ipi_def c1(1) c2(1) ac_simps)
next
  case (Some n)
  have lit: "literal t (int n)" and n: "n < 4" using lit v Some by auto
  obtain c1 where c1: "consume_register c = (of_nat a, c1)" "cur_rest c1 = imm t @ ys" using reg_text[of c a "imm t @ ys"] c v Some by auto
  note c2 = imm_no_all[OF lit c1(2)]
  obtain c3 where c3: "consume_literal (skip c1) = (FOUND, of_nat n, c3)" "cur_rest c3 = ys" using imm_text(4)[OF lit _ c2(2)] ys by auto
  show ?thesis using Some n v p c3(2) small_sint[of n] by (simp add: consume_ipi_def c1(1) c2(1) c3(1) ac_simps)
qed

lemma eoi_text:
  assumes v: "encodable (Eoi k)" and p: "check_privileges e" and c: "cur_rest c = insn_operands t (Eoi k) @ ys" and lit: "literal t (insn_number (Eoi k))"
    and ys: "line_end ys"
  shows "\<exists>c'. consume_eoi e c = Some ((pack [(27, 5, 31), (12, 5, 5), (11, 1, if k = None then 1 else 0),
      (0, 4, case k of None \<Rightarrow> 0 | Some n \<Rightarrow> of_nat n)], True), c') \<and> cur_rest c' = ys"
proof (cases k)
  case None
  obtain c2 where c2: "consume_keyword (str ''all'') (skip c) = (True, c2)" "cur_rest c2 = ys"
    using all_text[of c ys] c None ys by (auto simp: line_end_def isspace_def)
  show ?thesis using None p c2(2) by (simp add: consume_eoi_def c2(1))
next
  case (Some n)
  have lit: "literal t (int n)" and n: "n < 16" using lit v Some by auto
  have c: "cur_rest c = imm t @ ys" using c Some by simp
  note c2 = imm_no_all[OF lit c]
  obtain c3 where c3: "consume_immediate e (skip c) = Some (FOUND, of_nat n, c3)" "cur_rest c3 = ys" using imm_text(2)[OF lit _ c2(2)] ys by auto
  have m: "of_nat n AND 0xF = (of_nat n :: u32)" using masked_self[of "of_nat n" 4] n by (simp add: mask_eq_exp_minus_1)
  have "consume_eoi e c = Some (((push_bit 27 31 OR push_bit 12 5) OR of_nat n, True), c3)"
    using n p small_sint[of n] m by (simp add: consume_eoi_def c2(1) c3(1))
  then show ?thesis using Some c3(2) by (simp add: or.assoc[symmetric])
qed

end
