(* ===== verification/Basm_Roundtrip.thy ===== *)
theory Basm_Roundtrip
  imports Basm_Handlers
begin

text \<open>
  Assembling is the inverse of decoding: every statement whose instruction the machine can encode is translated by
  \<open>consume_instruction\<close> of \<open>root/basm/assembler.c\<close> into a word that decodes to that instruction, except that the
  assembler stops at a bitwise operation with a byte of at least 128 in the top lane, and rejects privileged instructions outside the kernel.
\<close>

section \<open>Decoding the assembled word\<close>

definition field_of :: "(nat \<times> nat \<times> u32) list \<Rightarrow> nat \<Rightarrow> nat \<Rightarrow> u32 option" where
  "field_of fs p n = map_of (map (\<lambda>(p, n, x). ((p, n), x)) fs) (p, n)"

lemma field_lookup: "packed 32 fs \<Longrightarrow> field_of fs p n \<noteq> None \<Longrightarrow> field p n (pack fs) = the (field_of fs p n)"
proof -
  assume a: "packed 32 fs" "field_of fs p n \<noteq> None"
  then obtain x where x: "field_of fs p n = Some x" by blast
  then have "(p, n, x) \<in> set fs" by (auto simp: field_of_def dest!: map_of_SomeD)
  then show ?thesis using field_pack[OF a(1)] x by simp
qed

lemmas fields = nat_field_def int_field_def field_lookup field_of_def

lemma decode_alu: "nat_field 27 5 w = 0 \<Longrightarrow> decode w = Some (Alu (nat_field 5 5 w) (nat_field 22 5 w) (nat_field 17 5 w) (nat_field 0 5 w))"
  and decode_alu_imm: "nat_field 27 5 w = 1 \<Longrightarrow>
    decode w = Some (AluImm (nat_field 12 5 w) (nat_field 22 5 w) (nat_field 17 5 w) (alu_immediate (nat_field 12 5 w) (field 0 12 w)))"
  and decode_lui: "nat_field 27 5 w = 2 \<Longrightarrow> decode w = Some (Lui (nat_field 22 5 w) (nat_field 0 22 w))"
  and decode_branch: "nat_field 27 5 w = 12 \<Longrightarrow> decode w = Some (BranchImm (nat_field 22 5 w) (int_field 22 w * 4))"
  and decode_branch_reg: "nat_field 27 5 w = (if absolute then 13 else 14) \<Longrightarrow>
    decode w = Some (BranchReg absolute (nat_field 22 5 w) (nat_field 5 5 w) (nat_field 0 5 w))"
  and decode_trap: "nat_field 27 5 w = 15 \<Longrightarrow> decode w = Some Trap"
  and decode_adpc: "nat_field 27 5 w = 22 \<Longrightarrow> decode w = Some (Adpc (nat_field 22 5 w) (int_field 22 w))"
  by (simp_all add: decode_def Let_def)

lemma less_three: "k < 3 \<Longrightarrow> k = 0 \<or> k = 1 \<or> k = (2 :: nat)"
  by auto

lemma decode_mem_abs: "nat_field 27 5 w = 3 + 3 * k \<Longrightarrow> k < 3 \<Longrightarrow> decode w =
    Some (MemAbs k (nat_field 16 1 w = 1) (nat_field 22 5 w) (nat_field 17 5 w) (nat_field 14 2 w) (int_field 12 w * 2 ^ nat_field 12 2 w))"
  and decode_mem_rel: "nat_field 27 5 w = 4 + 3 * k \<Longrightarrow> k < 3 \<Longrightarrow> decode w =
    Some (MemRel k (nat_field 16 1 w = 1) (nat_field 22 5 w) (nat_field 17 5 w) (int_field 16 w))"
  and decode_mem_long: "nat_field 27 5 w = 5 + 3 * k \<Longrightarrow> k < 3 \<Longrightarrow> decode w = Some (MemLong k (nat_field 21 1 w = 1) (nat_field 22 5 w) (int_field 21 w))"
  by (drule less_three; elim disjE; simp add: decode_def Let_def)+

lemma decode_atomic_abs: "nat_field 27 5 w = (if f then 16 else 19) \<Longrightarrow>
    decode w = Some (AtomicAbs f (nat_field 22 5 w) (nat_field 17 5 w) (nat_field 12 5 w) (int_field 12 w))"
  and decode_atomic_rel: "nat_field 27 5 w = (if f then 17 else 20) \<Longrightarrow>
    decode w = Some (AtomicRel f (nat_field 22 5 w) (nat_field 17 5 w) (nat_field 12 5 w) (int_field 12 w))"
  and decode_atomic_long: "nat_field 27 5 w = (if f then 18 else 21) \<Longrightarrow> decode w = Some (AtomicLong f (nat_field 22 5 w) (nat_field 17 5 w) (int_field 17 w))"
  by (simp_all add: decode_def Let_def split: if_splits)

lemma alu_word:
  "encodable (Alu op a b d) \<Longrightarrow> decode (pack [(27, 5, 0), (22, 5, of_nat a), (17, 5, of_nat b), (5, 5, of_nat op), (0, 5, of_nat d)]) = Some (Alu op a b d)"
  by (subst decode_alu) (simp_all add: fields del: pack.simps)

lemma alu_imm_word:
  "encodable (AluImm op a b i) \<Longrightarrow> unat x < 2 ^ 12 \<Longrightarrow> alu_immediate op x = i \<Longrightarrow>
    decode (pack [(27, 5, 1), (22, 5, of_nat a), (17, 5, of_nat b), (12, 5, of_nat op), (0, 12, x)]) = Some (AluImm op a b i)"
  by (subst decode_alu_imm) (simp_all add: fields del: pack.simps)

lemma lui_word: "encodable (Lui a k) \<Longrightarrow> decode (pack [(27, 5, 2), (22, 5, of_nat a), (0, 22, of_nat k)]) = Some (Lui a k)"
  using word_of_small[of k] by (subst decode_lui) (simp_all add: fields del: pack.simps)

lemma adpc_word: "encodable (Adpc a i) \<Longrightarrow> decode (pack [(27, 5, 22), (22, 5, of_nat a), (0, 22, of_int i AND mask 22)]) = Some (Adpc a i)"
  using fits_bound[of 22 i] by (subst decode_adpc) (simp_all add: fields del: pack.simps)

lemma branch_imm_word:
  "encodable (BranchImm op i) \<Longrightarrow> decode (pack [(27, 5, 12), (22, 5, of_nat op), (0, 22, of_int (i div 4) AND mask 22)]) = Some (BranchImm op i)"
  using fits_bound[of 22 "i div 4"] by (subst decode_branch) (auto simp: fields fits_def simp del: pack.simps)

lemma branch_reg_word: "encodable (BranchReg absolute op a b) \<Longrightarrow>
    decode (pack [(27, 5, if absolute then 13 else 14), (22, 5, of_nat op), (5, 5, of_nat a), (0, 5, of_nat b)]) = Some (BranchReg absolute op a b)"
  by (subst decode_branch_reg[of _ absolute]) (simp_all add: fields del: pack.simps)

lemma mem_abs_word:
  assumes "encodable (MemAbs w l a b y i)" "k < 4" "fits 12 j" "i = j * 2 ^ k"
  shows "decode (pack [(27, 5, of_nat (3 + 3 * w)), (22, 5, of_nat a), (17, 5, of_nat b), (16, 1, if l then 1 else 0), (14, 2, of_nat y), (12, 2, of_nat k),
    (0, 12, of_int j AND mask 12)]) = Some (MemAbs w l a b y i)"
  using assms fits_bound[OF assms(3)] by (subst decode_mem_abs[of _ w]) (simp_all add: fields del: pack.simps of_nat_add of_nat_mult)

lemma mem_rel_word:
  assumes "encodable (MemRel w l a b i)"
  shows "decode (pack [(27, 5, of_nat (4 + 3 * w)), (22, 5, of_nat a), (17, 5, of_nat b), (16, 1, if l then 1 else 0), (0, 16, of_int i AND mask 16)]) =
    Some (MemRel w l a b i)"
  using assms fits_bound[of 16 i] by (subst decode_mem_rel[of _ w]) (simp_all add: fields del: pack.simps of_nat_add of_nat_mult)

lemma mem_long_word:
  assumes "encodable (MemLong w l a i)"
  shows "decode (pack [(27, 5, of_nat (5 + 3 * w)), (22, 5, of_nat a), (21, 1, if l then 1 else 0), (0, 21, of_int i AND mask 21)]) = Some (MemLong w l a i)"
  using assms fits_bound[of 21 i] by (subst decode_mem_long[of _ w]) (simp_all add: fields del: pack.simps of_nat_add of_nat_mult)

lemma atomic_abs_word:
  assumes "encodable (AtomicAbs f a d b i)"
  shows "decode (pack [(27, 5, if f then 16 else 19), (22, 5, of_nat a), (17, 5, of_nat d), (12, 5, of_nat b), (0, 12, of_int i AND mask 12)]) = Some (AtomicAbs f a d b i)"
  using assms fits_bound[of 12 i] by (subst decode_atomic_abs[of _ f]) (simp_all add: fields del: pack.simps)

lemma atomic_rel_word:
  assumes "encodable (AtomicRel f a d b i)"
  shows "decode (pack [(27, 5, if f then 17 else 20), (22, 5, of_nat a), (17, 5, of_nat d), (12, 5, of_nat b), (0, 12, of_int i AND mask 12)]) = Some (AtomicRel f a d b i)"
  using assms fits_bound[of 12 i] by (subst decode_atomic_rel[of _ f]) (simp_all add: fields del: pack.simps)

lemma atomic_long_word:
  assumes "encodable (AtomicLong f a d i)"
  shows "decode (pack [(27, 5, if f then 18 else 21), (22, 5, of_nat a), (17, 5, of_nat d), (0, 17, of_int i AND mask 17)]) = Some (AtomicLong f a d i)"
  using assms fits_bound[of 17 i] by (subst decode_atomic_long[of _ f]) (simp_all add: fields del: pack.simps)

lemma trap_word: "decode (push_bit 27 15) = Some Trap"
  by (rule decode_trap) (simp add: nat_field_def field_def)

text \<open>The privileged instructions.\<close>

lemma decode_opcode_31: "nat_field 27 5 w = 31 \<Longrightarrow> decode w = decode_privileged w"
  by (simp add: decode_def Let_def)

lemma decode_tlb: "nat_field 12 5 w = 0 \<Longrightarrow> decode_privileged w = Some (Tlb (nat_field 10 2 w) (nat_field 22 5 w) (nat_field 17 5 w))"
  and decode_crmv: "nat_field 12 5 w = 1 \<Longrightarrow> decode_privileged w =
    Some (Crmv (nat_field 10 2 w = 0 \<or> nat_field 10 2 w = 2) (nat_field 10 2 w = 1 \<or> nat_field 10 2 w = 2) (nat_field 22 5 w) (nat_field 17 5 w))"
  and decode_mode: "nat_field 12 5 w = 2 \<Longrightarrow> decode_privileged w = Some (Mode (nat_field 10 2 w))"
  and decode_rfe: "nat_field 12 5 w = 3 \<Longrightarrow> decode_privileged w = Some Rfe"
  and decode_ipi: "nat_field 12 5 w = 4 \<Longrightarrow> decode_privileged w = Some (Ipi (nat_field 22 5 w) (if nat_field 11 1 w = 1 then None else Some (nat_field 0 2 w)))"
  and decode_eoi: "nat_field 12 5 w = 5 \<Longrightarrow> decode_privileged w = Some (Eoi (if nat_field 11 1 w = 1 then None else Some (nat_field 0 4 w)))"
  by (simp_all add: decode_privileged_def Let_def)

lemma tlb_word:
  assumes "encodable (Tlb op a b)"
  shows "decode (pack [(27, 5, 31), (22, 5, of_nat a), (17, 5, of_nat b), (12, 5, 0), (10, 2, of_nat op)]) = Some (Tlb op a b)"
  using assms by (subst decode_opcode_31, simp add: fields del: pack.simps) (subst decode_tlb; simp add: fields del: pack.simps)

lemma crmv_word:
  assumes "encodable (Crmv dc sc a b)"
  shows "decode (pack [(27, 5, 31), (22, 5, of_nat a), (17, 5, of_nat b), (12, 5, 1), (10, 2, if dc then (if sc then 2 else 0) else (if sc then 1 else 3))]) =
    Some (Crmv dc sc a b)"
  using assms by (cases dc; cases sc; subst decode_opcode_31, simp add: fields del: pack.simps) (subst decode_crmv; simp add: fields del: pack.simps)+

lemma mode_word: "m < 3 \<Longrightarrow> decode (pack [(27, 5, 31), (12, 5, 2), (10, 2, of_nat m)]) = Some (Mode m)"
  by (subst decode_opcode_31, simp add: fields del: pack.simps) (subst decode_mode; simp add: fields del: pack.simps)

lemma rfe_word: "decode (pack [(27, 5, 31), (12, 5, 3)]) = Some Rfe"
  by (subst decode_opcode_31, simp add: fields del: pack.simps) (subst decode_rfe; simp add: fields del: pack.simps)

lemma ipi_word:
  assumes "encodable (Ipi a k)"
  shows "decode (pack [(27, 5, 31), (22, 5, of_nat a), (12, 5, 4), (11, 1, if k = None then 1 else 0), (0, 2, case k of None \<Rightarrow> 0 | Some n \<Rightarrow> of_nat n)]) = Some (Ipi a k)"
  using assms by (cases k; subst decode_opcode_31, simp add: fields del: pack.simps) (subst decode_ipi; simp add: fields del: pack.simps)+

lemma eoi_word:
  assumes "encodable (Eoi k)"
  shows "decode (pack [(27, 5, 31), (12, 5, 5), (11, 1, if k = None then 1 else 0), (0, 4, case k of None \<Rightarrow> 0 | Some n \<Rightarrow> of_nat n)]) = Some (Eoi k)"
  using assms by (cases k; subst decode_opcode_31, simp add: fields del: pack.simps) (subst decode_eoi; simp add: fields del: pack.simps)+

section \<open>Mnemonics\<close>

definition mnemonics :: "string list" where
  "mnemonics = [
     ''and'', ''nand'', ''or'', ''nor'', ''xor'', ''xnor'', ''not'', ''lsl'', ''lsr'', ''asr'', ''rotl'', ''rotr'', ''lslc'', ''lsrc'',
     ''add'', ''addc'', ''sub'', ''subb'', ''cmp'', ''sxtb'', ''sxtd'', ''tncb'', ''tncd'', ''lui'', ''swa'', ''lwa'', ''sw'', ''lw'',
     ''sda'', ''lda'', ''sd'', ''ld'', ''sba'', ''lba'', ''sb'', ''lb'', ''br'', ''bz'', ''bnz'', ''bs'', ''bns'', ''bc'', ''bnc'',
     ''bo'', ''bno'', ''bps'', ''bnps'', ''bg'', ''bge'', ''bl'', ''ble'', ''ba'', ''bae'', ''bb'', ''bbe'', ''bra'', ''bza'',
     ''bnza'', ''bsa'', ''bnsa'', ''bca'', ''bnca'', ''boa'', ''bnoa'', ''bpa'', ''bnpa'', ''bga'', ''bgea'', ''bla'', ''blea'',
     ''baa'', ''baea'', ''bba'', ''bbea'', ''jmp'', ''adpc'', ''trap'', ''fada'', ''fad'', ''swpa'', ''swp'', ''tlbr'', ''tlbw'',
     ''tlbi'', ''tlbc'', ''crmv'', ''mode'', ''rfe'', ''ipi'', ''eoi'', ''movu'', ''movl'']"

lemma table_mnemonics: "map fst (instruction_table e) = map str mnemonics"
  by (simp add: instruction_table_def mnemonics_def)

lemma bit_of_char: "bit (of_char c :: u8) n \<longleftrightarrow> n < 8 \<and> [digit0 c, digit1 c, digit2 c, digit3 c, digit4 c, digit5 c, digit6 c, digit7 c] ! n"
  unfolding of_char_def by (auto simp: bit_horner_sum_bit_iff simp del: horner_sum_simps)

lemma of_char_inject: "(of_char c :: u8) = of_char d \<longleftrightarrow> c = d"
proof
  assume e: "(of_char c :: u8) = of_char d"
  have "bit (of_char c :: u8) n = bit (of_char d :: u8) n" for n by (simp only: e)
  from this[of 0] this[of 1] this[of 2] this[of 3] this[of 4] this[of 5] this[of 6] this[of 7]
  show "c = d" by (simp add: bit_of_char char.expand)
qed simp

lemma inj_str: "inj str"
proof (rule injI)
  fix a b assume "str a = str b"
  moreover have "inj (of_char :: char \<Rightarrow> u8)" by (simp add: inj_on_def of_char_inject)
  ultimately show "a = b" by (simp add: str_def)
qed

lemma distinct_mnemonics: "distinct (map str mnemonics)"
proof -
  have "distinct mnemonics" by (simp add: mnemonics_def)
  then show ?thesis by (simp add: distinct_map inj_on_subset[OF inj_str])
qed

lemma alpha_mnemonics: "list_all (list_all isalpha) (map str mnemonics)" "list_all (\<lambda>k. k \<noteq> []) (map str mnemonics)"
  by (simp_all add: mnemonics_def isalpha_def str_def of_char_def)

fun insn_handler :: "asm_env \<Rightarrow> insn \<Rightarrow> cursor \<Rightarrow> instruction" where
  "insn_handler e (Alu op a b d) = consume_alu_op e (of_nat op)"
| "insn_handler e (AluImm op a b i) = consume_alu_op e (of_nat op)"
| "insn_handler e (Lui a k) = consume_lui e"
| "insn_handler e (MemAbs w l a b y i) = consume_mem e (of_nat w) True l"
| "insn_handler e (MemRel w l a b i) = consume_mem e (of_nat w) False l"
| "insn_handler e (MemLong w l a i) = consume_mem e (of_nat w) False l"
| "insn_handler e (BranchImm op i) = consume_branch e (of_nat op) False"
| "insn_handler e (BranchReg absolute op a b) = consume_branch e (of_nat op) absolute"
| "insn_handler e (Adpc a i) = consume_adpc e"
| "insn_handler e Trap = consume_trap"
| "insn_handler e (AtomicAbs f a d b i) = consume_atomic e True f"
| "insn_handler e (AtomicRel f a d b i) = consume_atomic e False f"
| "insn_handler e (AtomicLong f a d i) = consume_atomic e False f"
| "insn_handler e (Tlb op a b) = consume_tlb_op e (of_nat op)"
| "insn_handler e (Crmv dc sc a b) = consume_crmv e"
| "insn_handler e (Mode m) = consume_mode_op e"
| "insn_handler e Rfe = consume_rfe e"
| "insn_handler e (Ipi a k) = consume_ipi e"
| "insn_handler e (Eoi k) = consume_eoi e"

fun handler :: "asm_env \<Rightarrow> stmt \<Rightarrow> cursor \<Rightarrow> instruction" where
  "handler e (Plain i) = insn_handler e i"
| "handler e (CmpReg b d) = consume_cmp e"
| "handler e (CmpImm b i) = consume_cmp e"
| "handler e (JmpReg b) = consume_jmp e"
| "handler e (JmpImm i) = consume_jmp e"
| "handler e (BranchOne absolute op b) = consume_branch e (of_nat op) absolute"
| "handler e (MemNoOffset w l absolute a b) = consume_mem e (of_nat w) absolute l"
| "handler e (AtomicNoOffset f absolute a d b) = consume_atomic e absolute f"
| "handler e (Movu a i) = consume_mov_hack e 0"
| "handler e (Movl a i) = consume_mov_hack e 1"

lemma alu_entries: "list_all (\<lambda>op. (str (alu_names ! op), consume_alu_op e (of_nat op)) \<in> set (instruction_table e)) [0..<22]"
  by (simp add: alu_names_def instruction_table_def upt_rec)

lemma branch_entries: "list_all (\<lambda>op. (str (branch_names ! op), consume_branch e (of_nat op) False) \<in> set (instruction_table e)) [0..<19]"
  "list_all (\<lambda>op. (str (branch_abs_names ! op), consume_branch e (of_nat op) True) \<in> set (instruction_table e)) [0..<19]"
  by (simp_all add: branch_names_def branch_abs_names_def instruction_table_def upt_rec)

lemma mem_entries: "w < 3 \<Longrightarrow> (str (mem_name w l absolute), consume_mem e (of_nat w) absolute l) \<in> set (instruction_table e)"
  by (drule less_three; elim disjE; cases l; cases absolute; simp add: mem_name_def instruction_table_def)

lemma tlb_entries: "list_all (\<lambda>op. (str (tlb_names ! op), consume_tlb_op e (of_nat op)) \<in> set (instruction_table e)) [0..<4]"
  by (simp add: tlb_names_def instruction_table_def upt_rec)

lemma other_entries: "(str (atomic_name f absolute), consume_atomic e absolute f) \<in> set (instruction_table e)"
  "(str ''lui'', consume_lui e) \<in> set (instruction_table e)" "(str ''adpc'', consume_adpc e) \<in> set (instruction_table e)"
  "(str ''trap'', consume_trap) \<in> set (instruction_table e)" "(str ''cmp'', consume_cmp e) \<in> set (instruction_table e)"
  "(str ''jmp'', consume_jmp e) \<in> set (instruction_table e)" "(str ''crmv'', consume_crmv e) \<in> set (instruction_table e)"
  "(str ''mode'', consume_mode_op e) \<in> set (instruction_table e)" "(str ''rfe'', consume_rfe e) \<in> set (instruction_table e)"
  "(str ''ipi'', consume_ipi e) \<in> set (instruction_table e)" "(str ''eoi'', consume_eoi e) \<in> set (instruction_table e)"
  "(str ''movu'', consume_mov_hack e 0) \<in> set (instruction_table e)" "(str ''movl'', consume_mov_hack e 1) \<in> set (instruction_table e)"
  by (cases f; cases absolute; simp add: atomic_name_def instruction_table_def) (simp_all add: instruction_table_def)

lemmas table_entries = alu_entries[unfolded list_all_iff] branch_entries[unfolded list_all_iff] tlb_entries[unfolded list_all_iff] mem_entries other_entries

lemma insn_handler_in_table: "encodable i \<Longrightarrow> (str (insn_mnemonic i), insn_handler e i) \<in> set (instruction_table e)"
  using table_entries(1-4)[of e] by (cases i) (auto intro: table_entries(5-))

lemma handler_in_table: "encodable (meaning s) \<Longrightarrow> (str (mnemonic s), handler e s) \<in> set (instruction_table e)"
  using insn_handler_in_table[of "meaning s" e] table_entries(2,3)[of e] by (cases s) (auto intro: table_entries(5-) split: if_splits)

section \<open>The handlers\<close>

lemma mem_handler_text:
  assumes "line_end ys" "literal t i"
  shows "encodable (MemAbs w l a b y i) \<Longrightarrow> cur_rest c = insn_operands t (MemAbs w l a b y i) @ ys \<Longrightarrow>
      \<exists>x c'. consume_mem e (of_nat w) True l c = Some ((x, True), c') \<and> cur_rest c' = ys \<and> decode x = Some (MemAbs w l a b y i)"
    "encodable (MemRel w l a b i) \<Longrightarrow> cur_rest c = insn_operands t (MemRel w l a b i) @ ys \<Longrightarrow>
      \<exists>x c'. consume_mem e (of_nat w) False l c = Some ((x, True), c') \<and> cur_rest c' = ys \<and> decode x = Some (MemRel w l a b i)"
proof -
  assume v: "encodable (MemAbs w l a b y i)" and c: "cur_rest c = insn_operands t (MemAbs w l a b y i) @ ys"
  let ?z = "(if y = 2 then 93 # imm t else imm t @ 93 # (if y = 1 then [33] else [])) @ ys"
  have "y < 3" using v by auto
  note operand = absolute_operand[OF this assms(2) _ assms(1), of _ e]
  have "cur_rest c = reg a @ [32, 91] @ reg b @ ?z" "stop ?z" using c by auto
  then show "\<exists>x c'. consume_mem e (of_nat w) True l c = Some ((x, True), c') \<and> cur_rest c' = ys \<and> decode x = Some (MemAbs w l a b y i)"
    using mem_abs_text[of w l a b y i c ?z e ys, OF v _ _ operand] mem_abs_word[OF v] by (auto simp del: pack.simps)
next
  assume v: "encodable (MemRel w l a b i)" and c: "cur_rest c = insn_operands t (MemRel w l a b i) @ ys"
  note operand = offset_operand[OF assms(2) disjI1 assms(1), of _ e False]
  have "cur_rest c = reg a @ [32, 91] @ reg b @ imm t @ 93 # ys" using c by auto
  then show "\<exists>x c'. consume_mem e (of_nat w) False l c = Some ((x, True), c') \<and> cur_rest c' = ys \<and> decode x = Some (MemRel w l a b i)"
    using mem_rel_text[of w l a b i c "imm t @ 93 # ys" e ys, OF v _ _ operand] mem_rel_word[OF v] by (auto simp del: pack.simps)
qed

lemma privileged_handler_text:
  assumes "encodable i" "literal t (insn_number i)" "cur_rest c = insn_operands t i @ ys" "line_end ys" "privileged i" "check_privileges e"
  shows "\<exists>w c'. insn_handler e i c = Some ((w, True), c') \<and> cur_rest c' = ys \<and> decode w = Some i"
proof (cases i)
  case (Tlb op a b)
  then show ?thesis using tlb_text[of op a b e c t ys] tlb_word[of op a b] assms by (auto simp del: pack.simps insn_operands.simps)
next
  case (Crmv dc sc a b)
  then show ?thesis using crmv_text[of dc sc a b e c t ys] crmv_word[of dc sc a b] assms by (auto simp del: pack.simps insn_operands.simps encodable.simps)
next
  case (Mode m)
  then show ?thesis using mode_text[of m e c ys] mode_word[of m] assms by (auto simp del: pack.simps)
next
  case Rfe
  then show ?thesis using rfe_word assms by (simp add: consume_rfe_def)
next
  case (Ipi a k)
  then show ?thesis using ipi_text[of a k e c t ys] ipi_word[of a k] assms by (auto simp del: pack.simps insn_operands.simps encodable.simps)
next
  case (Eoi k)
  then show ?thesis using eoi_text[of k e c t ys] eoi_word[of k] assms by (auto simp del: pack.simps insn_operands.simps encodable.simps)
qed (use assms in simp_all)

lemma insn_handler_text:
  assumes "encodable i" "literal t (insn_number i)" "cur_rest c = insn_operands t i @ ys" "line_end ys" "\<not> aborts (Plain i)" "privileged i \<longrightarrow> check_privileges e"
  shows "\<exists>w c'. insn_handler e i c = Some ((w, True), c') \<and> cur_rest c' = ys \<and> decode w = Some i"
proof (cases "privileged i")
  case True
  then show ?thesis using privileged_handler_text assms by blast
next
  case unprivileged: False
  show ?thesis
  proof (cases i)
    case (Alu op a b d)
    then show ?thesis using alu_text[of op a b d c t ys e] alu_word[of op a b d] assms by (auto simp del: pack.simps)
  next
    case (AluImm op a b j)
    then show ?thesis using alu_imm_text[of op a b j c t ys e] alu_imm_word[of op a b j] assms by (auto simp del: pack.simps)
  next
    case (Lui a k)
    then show ?thesis using lui_text[of a k c t ys e] lui_word[of a k] assms by (auto simp del: pack.simps)
  next
    case (MemAbs w l a b y j)
    then show ?thesis using mem_handler_text(1)[of ys t j] assms by auto
  next
    case (MemRel w l a b j)
    then show ?thesis using mem_handler_text(2)[of ys t j] assms by auto
  next
    case (MemLong w l a j)
    then show ?thesis using mem_long_text[of w l a j t c ys e] mem_long_word[of w l a j] assms by (auto simp del: pack.simps)
  next
    case (BranchImm op j)
    then show ?thesis using branch_imm_text(1)[of op j c t ys e] branch_imm_word[of op j] assms by (auto simp del: pack.simps)
  next
    case (BranchReg absolute op a b)
    then show ?thesis using branch_reg_text[of absolute op a b c ys e] branch_reg_word[of absolute op a b] assms by (auto simp del: pack.simps)
  next
    case (Adpc a j)
    then show ?thesis using adpc_text[of a j c t ys e] adpc_word[of a j] assms by (auto simp del: pack.simps)
  next
    case Trap
    then show ?thesis using trap_word assms by (simp add: consume_trap_def)
  next
    case (AtomicAbs f a d b j)
    then show ?thesis using atomic_base_text[of a d b j c "imm t @ 93 # ys" t ys e True f] atomic_abs_word[of f a d b j] assms by (auto simp del: pack.simps)
  next
    case (AtomicRel f a d b j)
    then show ?thesis using atomic_base_text[of a d b j c "imm t @ 93 # ys" t ys e False f] atomic_rel_word[of f a d b j] assms by (auto simp del: pack.simps)
  next
    case (AtomicLong f a d j)
    then show ?thesis using atomic_long_text[of f a d j t c ys e] atomic_long_word[of f a d j] assms by (auto simp del: pack.simps)
  qed (use unprivileged in simp_all)
qed

lemma stmt_handler_text:
  assumes "encodable (meaning s)" "literal t (number s)" "cur_rest c = operands t s @ ys" "line_end ys" "\<not> aborts s"
    "privileged (meaning s) \<longrightarrow> check_privileges e"
  shows "\<exists>w c'. handler e s c = Some ((w, True), c') \<and> cur_rest c' = ys \<and> decode w = Some (meaning s)"
proof (cases s)
  case (Plain i)
  then show ?thesis using insn_handler_text[of i t c ys e] assms by simp
next
  case (CmpReg b d)
  then show ?thesis using cmp_reg_text[of b d c ys e] alu_word[of 16 0 b d] assms by (auto simp del: pack.simps)
next
  case (CmpImm b j)
  then have v: "encodable (AluImm 16 0 b j)" "fits 12 j" "b < 32" using assms(1) by auto
  note f = fits_bound[OF v(2)]
  have "alu_immediate 16 (of_int j AND mask 12) = j" using f(2) by (simp add: alu_immediate_def)
  then show ?thesis using CmpImm cmp_imm_text[OF v(3,2), of c t ys e] alu_imm_word[OF v(1), of "of_int j AND mask 12"] f(1) assms by (auto simp del: pack.simps)
next
  case (JmpReg b)
  then show ?thesis using jmp_reg_text[of b c ys e] branch_reg_word[of True 0 0 b] assms by (auto simp del: pack.simps)
next
  case (JmpImm j)
  then show ?thesis using branch_imm_text(2)[of 0 j c t ys e] branch_imm_word[of 0 j] assms by (auto simp del: pack.simps)
next
  case (BranchOne absolute op b)
  then show ?thesis using branch_reg_text[of absolute op 0 b c ys e] branch_reg_word[of absolute op 0 b] assms by (auto simp del: pack.simps)
next
  case (MemNoOffset w l absolute a b)
  note operand = closed_operand[OF _ assms(4), of _ e]
  have c: "cur_rest c = reg a @ [32, 91] @ reg b @ 93 # ys" using MemNoOffset assms(3) by simp
  show ?thesis using MemNoOffset mem_abs_text[of w l a b 0 0 c "93 # ys" e ys, OF _ c] mem_abs_word[of w l a b 0 0]
    mem_rel_text[of w l a b 0 c "93 # ys" e ys, OF _ c] mem_rel_word[of w l a b 0] operand assms(1) by (cases absolute) (auto simp del: pack.simps encodable.simps)
next
  case (AtomicNoOffset f absolute a d b)
  then show ?thesis using atomic_base_text[of a d b 0 c "93 # ys" t ys e absolute f] atomic_abs_word[of f a d b 0] atomic_rel_word[of f a d b 0] assms
    by (cases absolute) (auto simp del: pack.simps)
next
  case (Movu a j)
  then show ?thesis using movu_text[of a c t ys j e] lui_word[of a "nat (j mod 2 ^ 32) div 1024"] assms by (auto simp del: pack.simps)
next
  case (Movl a j)
  then have v: "encodable (AluImm 14 a a (j mod 1024))" "fits 12 (j mod 1024)" "a < 32" using assms(1) by auto
  note f = fits_bound[OF v(2)]
  have "alu_immediate 14 (of_int (j mod 1024) AND mask 12) = j mod 1024" using f(2) by (simp add: alu_immediate_def)
  then show ?thesis using Movl movl_text[OF v(3), of c t ys j e] alu_imm_word[OF v(1), of "of_int (j mod 1024) AND mask 12"] f(1) assms by (auto simp del: pack.simps)
qed

lemma handler_rejects: "privileged (meaning s) \<Longrightarrow> \<not> check_privileges e \<Longrightarrow> handler e s c = reject c"
  by (cases s; cases "meaning s")
    (auto simp: consume_tlb_op_def consume_crmv_def consume_mode_op_def consume_rfe_def consume_ipi_def consume_eoi_def split: if_splits)

lemma handler_aborts:
  assumes "encodable (meaning s)" "literal t (number s)" "cur_rest c = operands t s @ ys" "line_end ys" "aborts s"
  shows "handler e s c = None"
  using assms(5)
proof (cases rule: aborts.elims(2))
  case (1 op a b i)
  then show ?thesis using alu_imm_aborts[of op a b i c t ys e] assms by simp
qed

section \<open>Assembling\<close>

lemma skip_none: "\<not> skippable (first (cur_rest c)) \<Longrightarrow> skip c = c"
  by (cases "cur_rest c") (auto simp: skip_def advance_def)

lemma mnemonic_alpha: "encodable (meaning s) \<Longrightarrow> list_all isalpha (str (mnemonic s)) \<and> str (mnemonic s) \<noteq> []"
proof -
  assume "encodable (meaning s)"
  then have "str (mnemonic s) \<in> set (map str mnemonics)" using handler_in_table[of s undefined] table_mnemonics[of undefined] by (metis fst_conv image_eqI list.set_map)
  then show ?thesis using alpha_mnemonics unfolding list_all_iff by metis
qed

lemma insn_operands_follow: "line_end ys \<Longrightarrow> isspace (first (insn_operands t i @ ys)) \<or> first (insn_operands t i @ ys) = 0"
  by (cases i) (auto simp: reg_def imm_def control_def isspace_def line_end_def)

lemma operands_follow: "line_end ys \<Longrightarrow> isspace (first (operands t s @ ys)) \<or> first (operands t s @ ys) = 0"
  using insn_operands_follow[of ys t] by (cases s) (auto simp: reg_def imm_def isspace_def)

lemma mnemonic_first: "encodable (meaning s) \<Longrightarrow> \<not> skippable (first (str (mnemonic s) @ zs))"
  using mnemonic_alpha[of s] not_skippable(1) by (cases "str (mnemonic s)") (auto simp: isalnum_def)

lemma consume_instruction_handler:
  assumes "encodable (meaning s)" "boundary c" "cur_rest c = stmt_text t s @ ys" "line_end ys"
  shows "\<exists>c1. cur_rest c1 = operands t s @ ys \<and>
    consume_instruction e c = do { ((w, ok), c') \<leftarrow> handler e s c1; Some (if ok then FOUND else ERROR, w, c') }"
proof -
  have s: "skip c = c" using mnemonic_first[OF assms(1)] assms(3) by (intro skip_none) (simp add: stmt_text_def)
  have c: "cur_rest c = str (mnemonic s) @ operands t s @ ys" using assms(3) by (simp add: stmt_text_def)
  obtain c1 where "first_keyword (instruction_table e) c = Some (handler e s, c1)" "cur_rest c1 = operands t s @ ys"
    using first_keyword_run[OF assms(2) c operands_follow[OF assms(4)] conjunct1[OF mnemonic_alpha[OF assms(1)]], of "instruction_table e"]
      handler_in_table[OF assms(1)] distinct_mnemonics alpha_mnemonics(1) table_mnemonics by metis
  then show ?thesis using s by (auto simp: consume_instruction_def)
qed

text \<open>
  C38. The assembler translates every statement whose instruction the machine can encode, with its registers by number and its
  number, if it has one, in decimal or hexadecimal: the statement, followed by the end of the line, is accepted and
  consumed, and the word it gives decodes to exactly that instruction, with its operation, registers, control registers,
  addressing mode and signed, scaled or lane-shifted immediate.  Only two kinds of statements are not translated.  A privileged
  instruction outside the kernel is an error.  A bitwise operation with an immediate of at least 2 to the 31 stops the assembler.
\<close>

theorem assemble_decode:
  assumes "encodable (meaning s)" "literal t (number s)" "boundary c" "cur_rest c = stmt_text t s @ ys" "line_end ys"
  shows "if aborts s then consume_instruction e c = None
    else if privileged (meaning s) \<and> \<not> check_privileges e then \<exists>c'. consume_instruction e c = Some (ERROR, 0, c')
    else \<exists>w c'. consume_instruction e c = Some (FOUND, w, c') \<and> cur_rest c' = ys \<and> decode w = Some (meaning s)"
proof -
  obtain c1 where c1: "cur_rest c1 = operands t s @ ys"
    "consume_instruction e c = do { ((w, ok), c') \<leftarrow> handler e s c1; Some (if ok then FOUND else ERROR, w, c') }"
    using consume_instruction_handler[OF assms(1,3,4,5)] by blast
  consider (stops) "aborts s" | (rejects) "\<not> aborts s" "privileged (meaning s)" "\<not> check_privileges e"
    | (word) "\<not> aborts s" "privileged (meaning s) \<longrightarrow> check_privileges e" by blast
  then show ?thesis
  proof cases
    case stops
    then show ?thesis using handler_aborts[OF assms(1,2) c1(1) assms(5), of e] c1(2) by simp
  next
    case rejects
    then show ?thesis using handler_rejects[of s e c1] c1(2) by (simp add: reject_def)
  next
    case word
    obtain w c' where "handler e s c1 = Some ((w, True), c')" "cur_rest c' = ys" "decode w = Some (meaning s)"
      using stmt_handler_text[OF assms(1,2) c1(1) assms(5) word] by blast
    then show ?thesis using word c1(2) by auto
  qed
qed

text \<open>Four statements, each alone in its file: a subtraction of a negative number, a load without an offset, a privileged move to a control
  register, and a bitwise operation at which the assembler stops.\<close>

theorem assemble_decode_witness:
  "\<forall>e. (\<exists>w c'. consume_instruction e \<lparr>cur_before = [], cur_rest = str ''sub r3 r4 -5''\<rparr> = Some (FOUND, w, c') \<and> cur_rest c' = [] \<and>
       decode w = Some (AluImm 16 3 4 (- 5))) \<and>
     (\<exists>w c'. consume_instruction e \<lparr>cur_before = [], cur_rest = str ''lwa r3 [ r4]''\<rparr> = Some (FOUND, w, c') \<and> cur_rest c' = [] \<and>
       decode w = Some (MemAbs 0 True 3 4 0 0)) \<and>
     (if env_kernel e then \<exists>w c'. consume_instruction e \<lparr>cur_before = [], cur_rest = str ''crmv cr4 r2''\<rparr> = Some (FOUND, w, c') \<and> cur_rest c' = [] \<and>
        decode w = Some (Crmv True False 4 2)
      else \<exists>c'. consume_instruction e \<lparr>cur_before = [], cur_rest = str ''crmv cr4 r2''\<rparr> = Some (ERROR, 0, c')) \<and>
     consume_instruction e \<lparr>cur_before = [], cur_rest = str ''and r1 r2 0xFF000000''\<rparr> = None"
proof (intro allI conjI)
  fix e
  let ?c = "\<lambda>s. \<lparr>cur_before = [], cur_rest = str s\<rparr>"
  note t = stmt_text_def reg_def imm_def control_def dec.simps num_def str_def of_char_def alu_names_def mem_name_def unary_def
  have b: "boundary \<lparr>cur_before = [], cur_rest = xs\<rparr>" for xs by (simp add: boundary_def)
  have z: "literal (num i) i" for i by (simp add: literal_def)
  have l: "line_end []" by (simp add: line_end_def)
  have 1: "str ''sub r3 r4 -5'' = stmt_text (num (- 5)) (Plain (AluImm 16 3 4 (- 5))) @ []" by (simp add: t)
  show "\<exists>w c'. consume_instruction e (?c ''sub r3 r4 -5'') = Some (FOUND, w, c') \<and> cur_rest c' = [] \<and> decode w = Some (AluImm 16 3 4 (- 5))"
    using assemble_decode[of "Plain (AluImm 16 3 4 (- 5))" "num (- 5)" "?c ''sub r3 r4 -5''" "[]" e] b z l 1 by (simp add: unary_def fits_def)
  have k: "\<exists>k :: nat. k < 4" by (rule exI[of _ 0]) simp
  have 2: "str ''lwa r3 [ r4]'' = stmt_text (num 0) (MemNoOffset 0 True True 3 4) @ []" by (simp add: t)
  show "\<exists>w c'. consume_instruction e (?c ''lwa r3 [ r4]'') = Some (FOUND, w, c') \<and> cur_rest c' = [] \<and> decode w = Some (MemAbs 0 True 3 4 0 0)"
    using assemble_decode[of "MemNoOffset 0 True True 3 4" "num 0" "?c ''lwa r3 [ r4]''" "[]" e] b z l 2 k by (simp add: mem_immediate_def)
  have 3: "str ''crmv cr4 r2'' = stmt_text (num 0) (Plain (Crmv True False 4 2)) @ []" by (simp add: t)
  show "if env_kernel e then \<exists>w c'. consume_instruction e (?c ''crmv cr4 r2'') = Some (FOUND, w, c') \<and> cur_rest c' = [] \<and> decode w = Some (Crmv True False 4 2)
      else \<exists>c'. consume_instruction e (?c ''crmv cr4 r2'') = Some (ERROR, 0, c')"
    using assemble_decode[of "Plain (Crmv True False 4 2)" "num 0" "?c ''crmv cr4 r2''" "[]" e] b z l 3 by (cases "env_kernel e") (simp_all add: check_privileges_def)
  let ?h = "str ''0xFF000000''"
  have h: "literal ?h 0xFF000000" unfolding literal_def by (intro disjI2 conjI exI[of _ True]) (simp_all add: hex.simps hexdigit_def str_def of_char_def)
  have 4: "str ''and r1 r2 0xFF000000'' = stmt_text ?h (Plain (AluImm 0 1 2 0xFF000000)) @ []" by (simp add: t)
  have 5: "bitwise_immediate 0xFF000000" unfolding bitwise_immediate_def by (intro exI[of _ 255] conjI exI[of _ 3]) simp_all
  show "consume_instruction e (?c ''and r1 r2 0xFF000000'') = None"
    using assemble_decode[of "Plain (AluImm 0 1 2 0xFF000000)" ?h "?c ''and r1 r2 0xFF000000''" "[]" e] b h l 4 5 by (simp add: unary_def)
qed

section \<open>Bitwise immediates with a negative top byte\<close>

text \<open>
  C39. A bitwise instruction whose immediate is a byte of at least 128 in the top lane, such as \<open>and r1 r2 0xFF000000\<close>, is not
  assembled, whether the number is in decimal or hexadecimal: the arithmetic shift of \<open>encode_bitwise_immediate\<close> extends the sign,
  so that the encoding, which it reports as successful, does not fit in twelve bits, and the assert of \<open>consume_alu_op\<close> stops the assembler.
\<close>

theorem bitwise_top_byte_aborts:
  assumes "op < 7" "a < 32" "b < 32" "unary op \<longrightarrow> b = 0" "128 \<le> n" "n < 256" "literal t (int n * 2 ^ 24)" "line_end ys"
    "cur_rest c = reg a @ (if unary op then [] else reg b) @ imm t @ ys"
  shows "(\<exists>x. encode_bitwise_immediate (of_int (int n * 2 ^ 24)) = (x, True) \<and> 2 ^ 12 \<le> unat x) \<and> consume_alu_op e (of_nat op) c = None"
proof
  obtain x where x: "encode_bitwise_immediate (of_nat n * 2 ^ 24) = (x, True)" "x \<noteq> x AND 0xFFF" using top_byte_encoding[OF assms(5,6)] by blast
  have "2 ^ 12 \<le> unat x" using x(2) masked_self[of x 12] by (force simp: masks not_less[symmetric])
  then show "\<exists>x. encode_bitwise_immediate (of_int (int n * 2 ^ 24)) = (x, True) \<and> 2 ^ 12 \<le> unat x" using x(1) by simp
  have "bitwise_immediate (int n * 2 ^ 24)" unfolding bitwise_immediate_def using assms(6) by (intro exI[of _ n] conjI exI[of _ 3]) simp_all
  then show "consume_alu_op e (of_nat op) c = None"
    using alu_imm_aborts[of op a b "int n * 2 ^ 24" c t ys e] assms by simp
qed

theorem bitwise_top_byte_aborts_witness:
  "\<forall>e. consume_alu_op e 0 \<lparr>cur_before = [], cur_rest = str '' r1 r2 0xFF000000''\<rparr> = None"
proof
  fix e
  let ?h = "str ''0xFF000000''"
  have h: "literal ?h (int 255 * 2 ^ 24)" unfolding literal_def
    by (intro disjI2 conjI exI[of _ True]) (simp_all add: hex.simps hexdigit_def str_def of_char_def)
  have t: "str '' r1 r2 0xFF000000'' = reg 1 @ (if unary 0 then [] else reg 2) @ imm ?h @ []"
    by (simp add: reg_def imm_def dec.simps str_def of_char_def unary_def)
  show "consume_alu_op e 0 \<lparr>cur_before = [], cur_rest = str '' r1 r2 0xFF000000''\<rparr> = None"
    using bitwise_top_byte_aborts[of 0 1 2 255 ?h "[]" "\<lparr>cur_before = [], cur_rest = str '' r1 r2 0xFF000000''\<rparr>" e] h t by (simp add: unary_def line_end_def)
qed

end
