(* ===== verification/Spec2Isabelle.thy ===== *)
theory Spec2Isabelle
  imports Queues Ring_Buffers Hash_Map Physmem_Cache Vmem Ext2_Sample Arithmetic Rw_Lock Sync_Buffers Scheduler Strings Basm_Roundtrip
begin

text \<open>
  A verification library for Dioptase-OS: the kernel under \<open>src/kernel\<close>, and the parts of the user
  programs under \<open>src/root\<close> listed below.

  \<^bold>\<open>The program.\<close>  The kernel runs on a 32-bit multi-core machine.  Its lowest layer is the locks
  (\<open>atomic.c\<close>), intrusive queues and ring buffers (\<open>queue.c\<close>), a hash map (\<open>hashmap.c\<close>), string
  helpers and the arithmetic routines that compiled code calls.  On these stand the allocator of
  physical frames (\<open>physmem.c\<close>), the scheduler (\<open>scheduler.c\<close>, \<open>threads.c\<close>, \<open>pit.c\<close>), the blocking
  primitives (\<open>semaphore.c\<close>, \<open>rw_lock.c\<close>, \<open>bounded_buffer.c\<close>, \<open>blocking_ringbuf.c\<close>,
  \<open>blocking_queue.c\<close>), address spaces (\<open>vmem.c\<close>, with the check of user pointers in \<open>sys.c\<close>), and the ext2 file
  system (\<open>ext.c\<close>): a block cache over the SD card, block and inode bitmaps, inodes with a block map of four
  tiers, byte-range reads and writes, and directories.

  \<^bold>\<open>Conventions.\<close>  Integers are words of the width the source gives them, all sums wrap as in the
  source, the null pointer is 0.  A failed \<open>assert\<close>, a \<open>panic\<close> and an access outside a buffer are
  \<^const>\<open>None\<close> in the option monad.  State is passed explicitly.  Code between the acquisition and the release of a
  spin lock is one step of an interleaving; that this is right is mutual exclusion of the lock
  (\<open>Atomic\<close>).  Memory from \<open>malloc\<close> whose contents the code reads or writes out is an argument.

  \<^bold>\<open>The theories.\<close>
  \<^item> \<open>Prelude\<close>, \<open>Bytes\<close>, \<open>Bitmaps\<close>: machine types, the panic monad, linked lists over a next map,
    byte buffers with little-endian fields, bitmaps.  The shared simp and collection lemmas.
  \<^item> \<open>Atomic\<close> (\<open>atomic.c\<close>, \<open>interrupts.s\<close>): spin locks and the CLH queue lock as a step relation for any
    number of threads: mutual exclusion, first-in first-out entry, no failing assert, no deadlock.
  \<^item> \<open>Queues\<close>, \<open>Ring_Buffers\<close> (\<open>queue.c\<close>), \<open>Hash_Map\<close> (\<open>hashmap.c\<close>), \<open>Strings\<close> (\<open>string.c\<close>,
    \<open>string.s\<close>): refinements to lists, finite maps and byte copies; the interfaces are the locales \<open>fifo_queue\<close>,
    \<open>pointer_map\<close> and \<open>copy_loop\<close>, each interpreted on the code's operations.
  \<^item> \<open>Arithmetic\<close> (\<open>arithmetic.s\<close>): multiplication, division and shifts of the assembly routines equal
    the operations on words and integers; every loop ends.
  \<^item> \<open>Physmem\<close>, \<open>Physmem_Cache\<close> (\<open>physmem.c\<close>): the buddy allocator and the per-core page caches; which
    frames are free before and after each operation.
  \<^item> \<open>Vmem\<close> (\<open>vmem.c\<close>, \<open>user_range_ok\<close> of \<open>sys.c\<close>): the region lists, first fit, fixed mappings, unmapping,
    and the exactness of the check of user buffers.
  \<^item> \<open>Interleaving\<close>: threads cut at their scheduling points, shared by \<open>Semaphore\<close>, \<open>Rw_Lock\<close> and
    \<open>Sync_Buffers\<close> (one theory per source file or group of files): each primitive behaves as its sequential contract
    under every interleaving.  \<open>Sync_Buffers\<close> proves the two-semaphore protocol once, in the locale \<open>permit_protocol\<close>.
  \<^item> \<open>Scheduler\<close> (\<open>scheduler.c\<close>, parts of \<open>threads.c\<close> and \<open>pit.c\<close>): a scheduling pass conserves
    the threads and keeps them in the bucket of their priority and level.
  \<^item> \<open>Ext2_Bcache\<close>, \<open>Ext2_Fs\<close>, \<open>Ext2_Alloc\<close>, \<open>Ext2_Tree\<close>, \<open>Ext2_Inode\<close>, \<open>Ext2_Map\<close>, \<open>Ext2_File\<close>,
    \<open>Ext2_Release\<close>, \<open>Ext2_Dir\<close>, \<open>Ext2_Dir_Map\<close> (\<open>ext.c\<close>, \<open>ext2_structs.h\<close>): the file system bottom-up.
    \<open>fs_good\<close> is the invariant of a mounted file system between two operations, \<open>fs_step W new\<close> the
    frame condition of an operation that writes the blocks \<open>W\<close> and takes the free blocks \<open>new\<close>,
    \<open>file_inv\<close> that the block map of an inode is a packed row of pointer trees without sharing, \<open>dir_holds\<close> that a directory represents a
    finite map.  Allocation, release, reads, writes and directory changes are exact with respect to
    these, down to the bytes on the drive.  \<open>Ext2_Image\<close> and \<open>Ext2_Sample\<close> build a small
    image by hand, on which all hypotheses hold.

  \<^item> \<open>Basm_Scan\<close>, \<open>Basm_Map\<close>, \<open>Basm_Encode\<close> (\<open>root/basm/assembler.c\<close>, \<open>hashmap.c\<close>, \<open>slice.c\<close>): the assembler's
    scanner, symbol table and instructions.  \<open>Basm_Isa\<close> and \<open>Basm_Text\<close> give the instructions and the statements of the
    assembly language as datatypes with their text (decimal and hexadecimal numbers) and a decoder of instruction words, privileged instructions
    included; \<open>Basm_Arith\<close> and \<open>Basm_Handlers\<close> treat each handler on its text, and \<open>Basm_Roundtrip\<close> shows that assembling a statement gives a word
    that decodes to its instruction.  The decoder is a specification: the sources hold no description of the instruction set besides the encoder.

  \<^bold>\<open>Bounds and termination.\<close>  No fuel is used: a loop that may run forever is a
  \<^theory_text>\<open>partial_function\<close> in the option monad, and the theorems state that it returns.  The file system theorems
  assume block sizes up to 4096 bytes (\<open>fs_good\<close>), where no product of the block map wraps, and
  offsets whose end is below \<open>2 ^ 32\<close>.  A write needs at most four free blocks per new data block (\<open>write_room\<close>).

  \<^bold>\<open>Not modelled.\<close>  Device drivers and the assembly that talks to the hardware (\<open>sd_driver\<close>, \<open>ps2\<close>, \<open>audio\<close>,
  \<open>vga\<close>, \<open>uart\<close>, \<open>exc\<close>, \<open>ivt\<close>, \<open>machine\<close>, boot code and the BIOS): their meaning is that of the device, which is not
  part of the sources; the SD drive appears as its contract in \<open>Ext2_Bcache\<close>.  Page tables and the TLB
  handler.  The kernel heap, printing, the ELF loader, the page cache, system calls other than the check of user buffers,
  the inode cache and path resolution, the directives, passes and output files of the assembler, the C compiler and the other user programs.
\<close>

end
